(* ===== verification/Prelude.thy ===== *)
theory Prelude
  imports Main "HOL-Library.Word"
begin

text \<open>
  The prelude of the development: the machine types, the errors and the error monad every
  component uses, the collections of simplification rules, and the generic lemmas on words,
  lists and options the component theories share.

  \<^item> \<open>unsigned long long\<close> and \<open>unsigned long\<close> (64 bit on the LP64 targets of the library) are
    \<open>64 word\<close>, \<open>unsigned int\<close> is \<open>32 word\<close>; \<open>long\<close> and \<open>long long\<close> have the same bits as the
    unsigned type and are read with \<open>sint\<close> where the code compares them with zero.
  \<^item> \<open>ST_THROW\<close> of an exception class is the left injection of a value of \<open>st_error\<close>. The
    texts of the messages are dropped except where the code has several plain \<open>Exception\<close>s
    in one function.
  \<^item> behaviour the C++ standard leaves undefined (a division by zero, an index out of range, a
    freed graph vertex) and a loop that never ends are values of \<open>st_error\<close> too, so that a
    theorem that an operation returns \<open>Inr\<close> also says that neither happens.
\<close>

type_synonym u64 = "64 word"
type_synonym u32 = "32 word"

datatype st_error =
    Exn string
  | InvalidBlockSize
  | DifferentBlockSizes
  | NoIntersection
  | NotInside
  | AlignError
  | InvalidExtentSize string
  | InvalidStripeSize string
  | InvalidChunkSize string
  | OverflowException
  | ParseException
  | DeviceNotFound
  | HolderAlreadyExists
  | HolderNotFound
  | WrongNumberOfParents nat nat
  | WrongNumberOfChildren nat nat
  | WrongNumberOfHolders nat nat
  | NotADag
  | DivisionByZero
  | UndefinedBehaviour
  | Diverges
  | PoolOutOfSpace
  | Aborted

type_synonym 'a result = "st_error + 'a"

named_theorems result_simps \<open>unfolding rules of the error monad\<close>
named_theorems word_nat \<open>word operations and relations read as natural numbers\<close>

section \<open>The error monad\<close>

text \<open>
  \<open>ebind m f\<close> runs \<open>m\<close> and, when it did not throw, \<open>f\<close> on its result: the way an exception
  leaves every enclosing call.
\<close>

definition ebind :: "'a result \<Rightarrow> ('a \<Rightarrow> 'b result) \<Rightarrow> 'b result" where
  "ebind m f = (case m of Inl e \<Rightarrow> Inl e | Inr x \<Rightarrow> f x)"

definition emap :: "('a \<Rightarrow> 'b) \<Rightarrow> 'a result \<Rightarrow> 'b result" where
  "emap f m = (case m of Inl e \<Rightarrow> Inl e | Inr x \<Rightarrow> Inr (f x))"

lemma ebind_Inl [simp]: "ebind (Inl e) f = Inl e"
  by (simp add: ebind_def)

lemma ebind_Inr [simp]: "ebind (Inr x) f = f x"
  by (simp add: ebind_def)

lemma ebind_eq_Inr [result_simps]: "ebind m f = Inr y \<longleftrightarrow> (\<exists>x. m = Inr x \<and> f x = Inr y)"
  by (cases m) auto

lemma ebind_eq_Inl [result_simps]:
  "ebind m f = Inl e \<longleftrightarrow> m = Inl e \<or> (\<exists>x. m = Inr x \<and> f x = Inl e)"
  by (cases m) auto

lemma emap_Inl [simp]: "emap f (Inl e) = Inl e"
  by (simp add: emap_def)

lemma emap_Inr [simp]: "emap f (Inr x) = Inr (f x)"
  by (simp add: emap_def)

lemma emap_eq_Inr [result_simps]: "emap f m = Inr y \<longleftrightarrow> (\<exists>x. m = Inr x \<and> y = f x)"
  by (cases m) auto

lemma emap_eq_Inl [result_simps]: "emap f m = Inl e \<longleftrightarrow> m = Inl e"
  by (cases m) auto

text \<open>A loop over a list whose body may throw.\<close>

fun efold :: "('a \<Rightarrow> 's \<Rightarrow> 's result) \<Rightarrow> 'a list \<Rightarrow> 's \<Rightarrow> 's result" where
  "efold f [] s = Inr s"
| "efold f (x # xs) s = ebind (f x s) (efold f xs)"

lemma efold_append: "efold f (xs @ ys) s = ebind (efold f xs s) (efold f ys)"
proof (induction xs arbitrary: s)
  case Nil
  then show ?case by simp
next
  case (Cons x xs)
  then show ?case by (cases "f x s") simp_all
qed

text \<open>An invariant of the body is an invariant of the loop.\<close>

lemma efold_invariant:
  assumes "efold f xs s = Inr t" and "P s"
    and "\<And>x s t. x \<in> set xs \<Longrightarrow> P s \<Longrightarrow> f x s = Inr t \<Longrightarrow> P t"
  shows "P t"
  using assms
proof (induction xs arbitrary: s)
  case Nil
  then show ?case by simp
next
  case (Cons x xs)
  from Cons.prems(1) obtain u where u: "f x s = Inr u" "efold f xs u = Inr t"
    by (auto simp: result_simps)
  from Cons.prems(2,3) u(1) have "P u" by auto
  with Cons.IH [OF u(2)] Cons.prems(3) show ?case by auto
qed

section \<open>Words\<close>

lemmas word_le_unat [word_nat] = word_le_nat_alt
lemmas word_less_unat [word_nat] = word_less_nat_alt

lemma unat_add_no_wrap [word_nat]:
  fixes a b :: "'a::len word"
  assumes "unat a + unat b < 2 ^ LENGTH('a)"
  shows "unat (a + b) = unat a + unat b"
  using assms by (simp add: unat_add_lem)

lemma unat_sub_no_wrap [word_nat]:
  fixes a b :: "'a::len word"
  assumes "unat b \<le> unat a"
  shows "unat (a - b) = unat a - unat b"
  using assms by (simp add: unat_sub word_le_nat_alt)

lemma unat_max [word_nat]: "unat (max a b) = max (unat a) (unat (b :: 'a::len word))"
  by (auto simp: max_def word_le_nat_alt)

lemma unat_min [word_nat]: "unat (min a b) = min (unat a) (unat (b :: 'a::len word))"
  by (auto simp: min_def word_le_nat_alt)

lemma unat_lt64 [simp]: "unat (a :: u64) < 18446744073709551616"
  using unsigned_less [of a, where 'a = nat] by simp

lemma unat_lt32 [simp]: "unat (a :: u32) < 4294967296"
  using unsigned_less [of a, where 'a = nat] by simp

lemma unat_nonzero [word_nat]: "a \<noteq> 0 \<longleftrightarrow> 0 < unat (a :: 'a::len word)"
  by (simp add: unat_gt_0)

lemma unat_word_of_nat:
  fixes n :: nat
  assumes "n < 2 ^ LENGTH('a::len)"
  shows "unat (word_of_nat n :: 'a word) = n"
  using assms by (simp add: unsigned_of_nat take_bit_nat_eq_self)

text \<open>Conversions between \<open>unsigned int\<close> and \<open>unsigned long long\<close>.\<close>

lemma unat_ucast_u32 [word_nat]: "unat (ucast (w :: u32) :: u64) = unat w"
proof -
  have "unat w < 2 ^ 64" by (rule less_trans [OF unat_lt32]) simp
  then have "take_bit 64 (unat w) = unat w" by (rule take_bit_nat_eq_self)
  then show ?thesis by (simp add: unsigned_ucast_eq)
qed

lemma unat_ucast_u64: "unat (ucast (w :: u64) :: u32) = unat w mod 4294967296"
  by (simp add: unsigned_ucast_eq take_bit_eq_mod)

lemma ucast_ucast_small:
  "unat (w :: u64) < 2 ^ 32 \<Longrightarrow> ucast (ucast w :: u32) = w"
  by (simp add: word_unat_eq_iff unat_ucast_u32 unat_ucast_u64)

section \<open>Rounding to multiples\<close>

text \<open>The multiple of \<open>g\<close> at or above \<open>x\<close>, computed the way the code does it.\<close>

definition up_to :: "nat \<Rightarrow> nat \<Rightarrow> nat" where
  "up_to g x = (if x mod g \<noteq> 0 then x + (g - x mod g) else x)"

lemma up_to_dvd: "0 < g \<Longrightarrow> g dvd up_to g x"
proof -
  assume g: "0 < g"
  have "x mod g < g" using g by simp
  then have "x + (g - x mod g) = g * (x div g) + g"
    using mult_div_mod_eq [of g x] by linarith
  then show ?thesis by (auto simp: up_to_def)
qed

lemma up_to_ge: "x \<le> up_to g x"
  by (simp add: up_to_def)

lemma up_to_less: "0 < g \<Longrightarrow> up_to g x < x + g"
  by (auto simp: up_to_def)

lemma up_to_le: "0 < g \<Longrightarrow> g dvd z \<Longrightarrow> x \<le> z \<Longrightarrow> up_to g x \<le> z"
proof -
  assume g: "0 < g" and z: "g dvd z" "x \<le> z"
  show ?thesis
  proof (rule ccontr)
    assume "\<not> up_to g x \<le> z"
    then have "z < up_to g x" by simp
    with z up_to_less [OF g, of x] have "0 < up_to g x - z" "up_to g x - z < g" by auto
    moreover have "g dvd up_to g x - z" using up_to_dvd [OF g] z(1) by (rule dvd_diff_nat)
    ultimately show False using nat_dvd_not_less by blast
  qed
qed

lemma up_to_multiple: "g dvd x \<Longrightarrow> up_to g x = x"
  by (simp add: up_to_def)

text \<open>The multiple of \<open>g\<close> at or below \<open>x\<close>.\<close>

lemma down_dvd: "g dvd x - x mod (g :: nat)"
  by (simp add: minus_mod_eq_mult_div)

lemma down_ge: "g dvd z \<Longrightarrow> z \<le> x \<Longrightarrow> z \<le> x - x mod (g :: nat)"
  by (metis div_le_mono dvd_mult_div_cancel minus_mod_eq_mult_div mult_le_mono2)

section \<open>Lists\<close>

lemma sorted_key_append_filter:
  "sorted (map f xs) \<Longrightarrow> sorted (map f (filter P xs))"
  by (induction xs) auto

lemma distinct_filter_map:
  "distinct (map f xs) \<Longrightarrow> distinct (map f (filter P xs))"
  by (induction xs) auto

lemma find_upt_Some:
  "find P [a..<n] = Some q \<longleftrightarrow> a \<le> q \<and> q < n \<and> P q \<and> (\<forall>j. a \<le> j \<longrightarrow> j < q \<longrightarrow> \<not> P j)"
proof
  assume "find P [a..<n] = Some q"
  then obtain k where k: "k < length [a..<n]" "P ([a..<n] ! k)" "q = [a..<n] ! k" "\<forall>j < k. \<not> P ([a..<n] ! j)"
    unfolding find_Some_iff by blast
  have "\<not> P j" if "a \<le> j" "j < q" for j
  proof -
    have "[a..<n] ! (j - a) = j" "j - a < k" using that k(1,3) by auto
    then show ?thesis using k(4) by metis
  qed
  then show "a \<le> q \<and> q < n \<and> P q \<and> (\<forall>j. a \<le> j \<longrightarrow> j < q \<longrightarrow> \<not> P j)" using k(1-3) by simp
next
  assume q: "a \<le> q \<and> q < n \<and> P q \<and> (\<forall>j. a \<le> j \<longrightarrow> j < q \<longrightarrow> \<not> P j)"
  then show "find P [a..<n] = Some q"
    unfolding find_Some_iff by (intro exI [of _ "q - a"]) auto
qed

end
