(* ===== verification/Region.thy ===== *)
theory Region
  imports Prelude
begin

text \<open>
  \<open>Region\<close> (storage/Utils/RegionImpl.h, RegionImpl.cc): a run of blocks, given by its first
  block, its number of blocks and the size of a block in bytes. All three are 64 bit unsigned
  integers, so every operation is modelled on words and may wrap around; \<open>valid_region\<close> is the
  condition under which it does not, and \<open>blocks\<close> is the abstraction: the set of block numbers
  a region stands for.

  The operations come first, in the order of the source, then their behaviour as operations on
  sets of blocks, and last the interface (a locale) through which the partition table and the
  alignment use them.
\<close>

section \<open>Operations\<close>

record region =
  r_start :: u64
  r_length :: u64
  r_block_size :: u64

definition region_new :: "u64 \<Rightarrow> u64 \<Rightarrow> u64 \<Rightarrow> region result" where
  "region_new s l bs =
     (if bs = 0 then Inl InvalidBlockSize
      else Inr \<lparr>r_start = s, r_length = l, r_block_size = bs\<rparr>)"

definition region_empty :: "region \<Rightarrow> bool" where
  "region_empty r \<longleftrightarrow> r_length r = 0"

definition equal_block_size :: "region \<Rightarrow> region \<Rightarrow> bool" where
  "equal_block_size a b \<longleftrightarrow> r_block_size a = r_block_size b"

definition get_end :: "region \<Rightarrow> u64 result" where
  "get_end r =
     (if region_empty r then Inl (Exn ''empty region'')
      else Inr (r_start r + r_length r - 1))"

text \<open>
  \<open>delta\<close> is a \<open>long long\<close>. Its negation is undefined for the smallest value; otherwise the
  cast to \<open>unsigned long long\<close> is the negation of the word.
\<close>

definition min_long_long :: u64 where
  "min_long_long = 0x8000000000000000"

definition adjust_out_of_range :: "u64 \<Rightarrow> u64 \<Rightarrow> bool result" where
  "adjust_out_of_range delta v =
     (if sint delta < 0
      then if delta = min_long_long then Inl UndefinedBehaviour else Inr (v < - delta)
      else Inr False)"

definition adjust_start :: "u64 \<Rightarrow> region \<Rightarrow> region result" where
  "adjust_start delta r =
     ebind (adjust_out_of_range delta (r_start r)) (\<lambda>out.
       if out then Inl (Exn ''value out of range'')
       else Inr (r\<lparr>r_start := r_start r + delta\<rparr>))"

definition adjust_length :: "u64 \<Rightarrow> region \<Rightarrow> region result" where
  "adjust_length delta r =
     ebind (adjust_out_of_range delta (r_length r)) (\<lambda>out.
       if out then Inl (Exn ''value out of range'')
       else Inr (r\<lparr>r_length := r_length r + delta\<rparr>))"

definition region_set_block_size :: "u64 \<Rightarrow> region \<Rightarrow> region result" where
  "region_set_block_size bs r =
     (if bs = 0 then Inl InvalidBlockSize else Inr (r\<lparr>r_block_size := bs\<rparr>))"

definition to_bytes :: "region \<Rightarrow> u64 \<Rightarrow> u64 result" where
  "to_bytes r blocks =
     (if r_block_size r = 0 then Inl InvalidBlockSize else Inr (blocks * r_block_size r))"

definition to_blocks :: "region \<Rightarrow> u64 \<Rightarrow> u64 result" where
  "to_blocks r bytes =
     (if r_block_size r = 0 then Inl InvalidBlockSize else Inr (bytes div r_block_size r))"

definition region_equal :: "region \<Rightarrow> region \<Rightarrow> bool result" where
  "region_equal a b =
     (if \<not> equal_block_size a b then Inl DifferentBlockSizes
      else Inr (r_start a = r_start b \<and> r_length a = r_length b))"

definition region_less :: "region \<Rightarrow> region \<Rightarrow> bool result" where
  "region_less a b =
     (if \<not> equal_block_size a b then Inl DifferentBlockSizes
      else Inr (r_start a < r_start b))"

text \<open>\<open>&&\<close> does not evaluate its right operand, which may throw, when the left one is false.\<close>

definition inside :: "region \<Rightarrow> region \<Rightarrow> bool result" where
  "inside a b =
     (if \<not> equal_block_size a b then Inl DifferentBlockSizes
      else if r_start b \<le> r_start a
      then ebind (get_end a) (\<lambda>ea. ebind (get_end b) (\<lambda>eb. Inr (ea \<le> eb)))
      else Inr False)"

definition intersect :: "region \<Rightarrow> region \<Rightarrow> bool result" where
  "intersect a b =
     (if \<not> equal_block_size a b then Inl DifferentBlockSizes
      else ebind (get_end a) (\<lambda>ea.
        if r_start b \<le> ea
        then ebind (get_end b) (\<lambda>eb. Inr (r_start a \<le> eb))
        else Inr False))"

definition intersection :: "region \<Rightarrow> region \<Rightarrow> region result" where
  "intersection a b =
     ebind (intersect a b) (\<lambda>i.
       if \<not> i then Inl NoIntersection
       else ebind (get_end b) (\<lambda>eb. ebind (get_end a) (\<lambda>ea.
         let s = max (r_start b) (r_start a); e = min eb ea
         in region_new s (e - s + 1) (r_block_size a))))"

text \<open>
  \<open>unused_regions\<close>. \<open>std::sort\<close> with \<open>operator<\<close>, which throws on regions of different block
  sizes: any sorting by comparisons of a list with two block sizes compares two of them. The
  order of regions with the same start is left open by \<open>std::sort\<close>; the model keeps it, and
  \<open>unused_regions_blocks\<close> below does not depend on it.
\<close>

definition sort_regions :: "region list \<Rightarrow> region list result" where
  "sort_regions rs =
     (if list_all (equal_block_size (hd rs)) rs then Inr (sort_key r_start rs)
      else Inl DifferentBlockSizes)"

text \<open>The body of the loop: the state is the local \<open>start\<close> and the vector \<open>ret\<close>.\<close>

definition unused_step ::
  "region \<Rightarrow> u64 \<Rightarrow> region \<Rightarrow> u64 \<times> region list \<Rightarrow> (u64 \<times> region list) result" where
  "unused_step self e used st =
     (let (s, ret) = st in
      if \<not> equal_block_size self used then Inl DifferentBlockSizes
      else ebind (get_end used) (\<lambda>ue.
        if ue < s \<or> e < r_start used then Inr (s, ret)
        else ebind
          (if s < r_start used
           then emap (\<lambda>r. ret @ [r]) (region_new s (r_start used - s) (r_block_size self))
           else Inr ret)
          (\<lambda>ret'. Inr (max s (ue + 1), ret'))))"

definition unused_regions :: "region \<Rightarrow> region list \<Rightarrow> region list result" where
  "unused_regions self used =
     ebind (get_end self) (\<lambda>e.
     ebind (sort_regions used) (\<lambda>sorted.
     ebind (efold (unused_step self e) sorted (r_start self, [])) (\<lambda>(s, ret).
       if s < e
       then emap (\<lambda>r. ret @ [r]) (region_new s (e - s + 1) (r_block_size self))
       else Inr ret)))"

section \<open>Regions as sets of blocks\<close>

definition valid_region :: "region \<Rightarrow> bool" where
  "valid_region r \<longleftrightarrow>
     r_block_size r \<noteq> 0 \<and> 0 < unat (r_length r) \<and>
     unat (r_start r) + unat (r_length r) < 18446744073709551616"

definition blocks :: "region \<Rightarrow> nat set" where
  "blocks r = {unat (r_start r) ..< unat (r_start r) + unat (r_length r)}"

definition blocks_of :: "region list \<Rightarrow> nat set" where
  "blocks_of rs = (\<Union>r \<in> set rs. blocks r)"

text \<open>The number of the last block.\<close>

definition last_block :: "region \<Rightarrow> nat" where
  "last_block r = unat (r_start r) + unat (r_length r) - 1"

lemma finite_blocks [simp]: "finite (blocks r)"
  by (simp add: blocks_def)

lemma card_blocks: "card (blocks r) = unat (r_length r)"
  by (simp add: blocks_def)

lemma blocks_of_Nil [simp]: "blocks_of [] = {}"
  by (simp add: blocks_of_def)

lemma blocks_of_Cons [simp]: "blocks_of (r # rs) = blocks r \<union> blocks_of rs"
  by (simp add: blocks_of_def)

lemma blocks_of_append [simp]: "blocks_of (rs @ ss) = blocks_of rs \<union> blocks_of ss"
  by (auto simp: blocks_of_def)

lemma valid_region_not_empty: "valid_region r \<Longrightarrow> \<not> region_empty r"
  by (auto simp: valid_region_def region_empty_def)

lemma blocks_nonempty: "valid_region r \<Longrightarrow> blocks r \<noteq> {}"
  by (simp add: valid_region_def blocks_def)

lemma in_blocks_iff:
  "valid_region r \<Longrightarrow> n \<in> blocks r \<longleftrightarrow> unat (r_start r) \<le> n \<and> n \<le> last_block r"
  by (auto simp: valid_region_def blocks_def last_block_def)

lemma blocks_atLeastAtMost:
  "valid_region r \<Longrightarrow> blocks r = {unat (r_start r) .. last_block r}"
  by (auto simp: in_blocks_iff)

lemma start_le_last: "valid_region r \<Longrightarrow> unat (r_start r) \<le> last_block r"
  by (auto simp: valid_region_def last_block_def)

lemma last_block_in_blocks: "valid_region r \<Longrightarrow> last_block r \<in> blocks r"
  by (simp add: in_blocks_iff start_le_last)

lemma last_block_bound: "valid_region r \<Longrightarrow> last_block r + 1 < 18446744073709551616"
  by (auto simp: valid_region_def last_block_def)

lemma unat_end: "valid_region r \<Longrightarrow> unat (r_start r + r_length r - 1) = last_block r"
  unfolding valid_region_def last_block_def
  by (subst unat_sub_no_wrap) (auto simp: unat_add_no_wrap)

lemma get_end_valid:
  "valid_region r \<Longrightarrow> \<exists>e. get_end r = Inr e \<and> unat e = last_block r"
  by (auto simp: get_end_def valid_region_not_empty unat_end)

lemma region_new_valid:
  assumes "bs \<noteq> 0" and "0 < unat l" and "unat s + unat l < 18446744073709551616"
  shows "\<exists>r. region_new s l bs = Inr r \<and> valid_region r
    \<and> blocks r = {unat s ..< unat s + unat l} \<and> r_block_size r = bs
    \<and> r_start r = s \<and> last_block r = unat s + unat l - 1"
  using assms by (auto simp: region_new_def valid_region_def blocks_def last_block_def)


text \<open>The region from block \<open>s\<close> to block \<open>e\<close>, as the code builds it in several places.\<close>

lemma region_new_upto:
  assumes "bs \<noteq> 0" and le: "unat s \<le> unat e" and bound: "unat e + 1 < 18446744073709551616"
  shows "\<exists>r. region_new s (e - s + 1) bs = Inr r \<and> valid_region r \<and> r_block_size r = bs
    \<and> r_start r = s \<and> last_block r = unat e \<and> blocks r = {unat s .. unat e}"
proof -
  have len: "unat (e - s + 1) = unat e - unat s + 1"
    using le bound by (simp add: unat_add_no_wrap unat_sub_no_wrap)
  have blk: "{unat s ..< unat s + (unat e - unat s + 1)} = {unat s .. unat e}"
    using le by auto
  have last: "unat s + (unat e - unat s + 1) - 1 = unat e" using le by simp
  show ?thesis
    using region_new_valid [OF assms(1), of "e - s + 1" s] le bound
    unfolding len blk last by auto
qed

section \<open>Comparisons and intersection refine the set operations\<close>

lemma inside_valid:
  assumes "valid_region a" and "valid_region b" and "equal_block_size a b"
  shows "inside a b = Inr (blocks a \<subseteq> blocks b)"
proof -
  from assms obtain ea eb where e: "get_end a = Inr ea" "unat ea = last_block a"
    "get_end b = Inr eb" "unat eb = last_block b"
    using get_end_valid by metis
  have "blocks a \<subseteq> blocks b \<longleftrightarrow> unat (r_start b) \<le> unat (r_start a) \<and> last_block a \<le> last_block b"
    using assms by (simp add: blocks_atLeastAtMost start_le_last)
  then show ?thesis
    using assms(3) e by (auto simp: inside_def word_nat)
qed

lemma intersect_valid:
  assumes "valid_region a" and "valid_region b" and "equal_block_size a b"
  shows "intersect a b = Inr (blocks a \<inter> blocks b \<noteq> {})"
proof -
  from assms obtain ea eb where e: "get_end a = Inr ea" "unat ea = last_block a"
    "get_end b = Inr eb" "unat eb = last_block b"
    using get_end_valid by metis
  have "blocks a \<inter> blocks b \<noteq> {} \<longleftrightarrow>
      unat (r_start b) \<le> last_block a \<and> unat (r_start a) \<le> last_block b"
    using assms start_le_last [of a] start_le_last [of b]
    by (auto simp: blocks_atLeastAtMost)
  then show ?thesis
    using assms(3) e by (auto simp: intersect_def word_nat)
qed

lemma intersection_disjoint:
  assumes "valid_region a" and "valid_region b" and "equal_block_size a b"
    and "blocks a \<inter> blocks b = {}"
  shows "intersection a b = Inl NoIntersection"
  using assms by (simp add: intersection_def intersect_valid)

lemma intersection_overlap:
  assumes "valid_region a" and "valid_region b" and "equal_block_size a b"
    and overlap: "blocks a \<inter> blocks b \<noteq> {}"
  shows "\<exists>r. intersection a b = Inr r \<and> valid_region r \<and> r_block_size r = r_block_size a
    \<and> blocks r = blocks a \<inter> blocks b"
proof -
  from assms obtain ea eb where e: "get_end a = Inr ea" "unat ea = last_block a"
    "get_end b = Inr eb" "unat eb = last_block b"
    using get_end_valid by metis
  define s where "s = max (r_start b) (r_start a)"
  define e where "e = min eb ea"
  have us: "unat s = max (unat (r_start b)) (unat (r_start a))" by (simp add: s_def unat_max)
  have ue: "unat e = min (last_block b) (last_block a)" by (simp add: e_def unat_min e)
  from overlap assms(1,2) have le: "unat s \<le> unat e"
    by (auto simp: us ue blocks_atLeastAtMost)
  have bound: "unat e + 1 < 18446744073709551616"
    using last_block_bound [OF assms(1)] last_block_bound [OF assms(2)] by (auto simp: ue)
  from assms(1) obtain r where "region_new s (e - s + 1) (r_block_size a) = Inr r"
    "valid_region r" "r_block_size r = r_block_size a" "blocks r = {unat s .. unat e}"
    using region_new_upto [OF _ le bound] by (auto simp: valid_region_def)
  moreover have "{unat s .. unat e} = blocks a \<inter> blocks b"
    using assms(1,2) by (auto simp: us ue blocks_atLeastAtMost)
  ultimately show ?thesis
    using assms overlap e
    by (auto simp: intersection_def intersect_valid s_def [symmetric] e_def [symmetric])
qed

section \<open>Moving the start and the end\<close>

text \<open>\<open>adjust_start\<close> and \<open>adjust_length\<close> add a signed number to an unsigned one.\<close>

lemma uint_of_signed: "uint (d :: u64) = (if sint d < 0 then sint d + 2 ^ 64 else sint d)"
proof -
  have "- (2 ^ 63) \<le> sint d" and "sint d < 2 ^ 63"
    using sint_ge [of d] sint_lt [of d] by simp_all
  moreover have "uint d = sint d mod 2 ^ 64"
    by (simp add: uint_sint take_bit_eq_mod)
  moreover have "sint d mod 2 ^ 64 = (sint d + 2 ^ 64) mod 2 ^ 64"
    by simp
  ultimately show ?thesis
    using mod_pos_pos_trivial [of "sint d + 2 ^ 64" "2 ^ 64"] by auto
qed

lemma uint_add_signed:
  "uint (v + d :: u64) = (uint v + sint d) mod 2 ^ 64"
proof -
  have "uint (v + d) = (uint v + uint d) mod 2 ^ 64"
    by (simp add: uint_word_ariths)
  also have "\<dots> = (uint v + sint d) mod 2 ^ 64"
    using mod_add_self2 [of "uint v + sint d" "2 ^ 64"]
    by (simp only: uint_of_signed [of d] add.assoc split: if_split) simp
  finally show ?thesis .
qed

lemma adjust_out_of_range_iff:
  assumes "d \<noteq> min_long_long"
  shows "adjust_out_of_range d v = Inr (uint v + sint d < 0)"
proof (cases "sint d < 0")
  case True
  have "uint (- d) = - sint d"
  proof -
    have "d \<noteq> 0" using True by auto
    then have "uint (- d) = 2 ^ 64 - uint d"
      using uint_bounded [of d] uint_0_iff [of d]
      by (simp add: uint_word_ariths zmod_zminus1_eq_if mod_pos_pos_trivial)
    with True show ?thesis by (simp add: uint_of_signed)
  qed
  with True assms show ?thesis
    by (auto simp: adjust_out_of_range_def word_less_def)
next
  case False
  then show ?thesis by (simp add: adjust_out_of_range_def not_less)
qed

lemma adjust_start_signed:
  assumes "d \<noteq> min_long_long"
  shows "adjust_start d r =
    (if uint (r_start r) + sint d < 0 then Inl (Exn ''value out of range'')
     else Inr (r\<lparr>r_start := r_start r + d\<rparr>))"
  using assms by (simp add: adjust_start_def adjust_out_of_range_iff)

lemma adjust_length_signed:
  assumes "d \<noteq> min_long_long"
  shows "adjust_length d r =
    (if uint (r_length r) + sint d < 0 then Inl (Exn ''value out of range'')
     else Inr (r\<lparr>r_length := r_length r + d\<rparr>))"
  using assms by (simp add: adjust_length_def adjust_out_of_range_iff)

text \<open>The lower end is guarded, the upper end is not: a large positive \<open>delta\<close> wraps around.\<close>

lemma adjusted_value:
  assumes "0 \<le> uint v + sint d" and "uint v + sint d < 2 ^ 64"
  shows "uint (v + d :: u64) = uint v + sint d"
  using assms by (simp add: uint_add_signed)

section \<open>The unused regions\<close>

text \<open>
  A used region the loop accepts: valid and with the block size of the region itself.
\<close>

definition compatible :: "region \<Rightarrow> region \<Rightarrow> bool" where
  "compatible self u \<longleftrightarrow> valid_region u \<and> equal_block_size self u"

text \<open>
  The invariant of the loop, with \<open>lo\<close> and \<open>hi\<close> the first and last block of the region,
  \<open>done\<close> the used regions seen so far, \<open>s\<close> the local \<open>start\<close> and \<open>ret\<close> the result so far:
  \<open>ret\<close> holds exactly the free blocks below \<open>s\<close>, each of them below some used region seen,
  no used region seen reaches into the rest, and \<open>ret\<close> is in ascending order.
\<close>

definition unused_inv ::
  "region \<Rightarrow> nat \<Rightarrow> nat \<Rightarrow> region list \<Rightarrow> u64 \<Rightarrow> region list \<Rightarrow> bool" where
  "unused_inv self lo hi used_done s ret \<longleftrightarrow>
     lo \<le> unat s \<and>
     blocks_of ret = {lo ..< unat s} - blocks_of used_done \<and>
     (\<forall>n \<in> blocks_of ret. n \<le> hi \<and>
        (\<exists>u \<in> set used_done. n < unat (r_start u) \<and> unat (r_start u) \<le> hi)) \<and>
     {unat s .. hi} \<inter> blocks_of used_done = {} \<and>
     (\<forall>r \<in> set ret. valid_region r \<and> r_block_size r = r_block_size self) \<and>
     sorted_wrt (\<lambda>a b. last_block a < unat (r_start b)) ret"

lemma unused_inv_init:
  "unused_inv self (unat s) hi [] s []"
  by (simp add: unused_inv_def)

lemma blocks_below_last:
  assumes "n \<in> blocks_of ret" and "\<forall>r \<in> set ret. valid_region r"
  shows "\<exists>r \<in> set ret. unat (r_start r) \<le> n \<and> n \<le> last_block r"
  using assms by (auto simp: blocks_of_def in_blocks_iff)

text \<open>A used region that starts at or after all earlier ones holds none of the free blocks found.\<close>

lemma free_before_next:
  assumes "unused_inv self lo hi used_done s ret" and "valid_region u"
    and "\<forall>p \<in> set used_done. unat (r_start p) \<le> unat (r_start u)"
  shows "blocks_of ret \<inter> blocks u = {}"
  using assms unfolding unused_inv_def by (fastforce simp: in_blocks_iff)

lemma unused_inv_skip:
  assumes inv: "unused_inv self lo hi used_done s ret" and u: "valid_region u"
    and sorted: "\<forall>p \<in> set used_done. unat (r_start p) \<le> unat (r_start u)"
    and skip: "last_block u < unat s \<or> hi < unat (r_start u)"
  shows "unused_inv self lo hi (used_done @ [u]) s ret"
proof -
  have "blocks_of ret \<inter> blocks u = {}" by (rule free_before_next [OF inv u sorted])
  moreover have "{unat s .. hi} \<inter> blocks u = {}"
    using skip by (auto simp: in_blocks_iff [OF u])
  ultimately show ?thesis using inv unfolding unused_inv_def by auto
qed

lemma unused_inv_take:
  assumes inv: "unused_inv self lo hi used_done s ret" and u: "valid_region u"
    and sorted: "\<forall>p \<in> set used_done. unat (r_start p) \<le> unat (r_start u)"
    and no_skip: "unat s \<le> last_block u" "unat (r_start u) \<le> hi"
    and s': "unat s' = last_block u + 1"
    and gap: "if unat s < unat (r_start u)
       then \<exists>r. ret' = ret @ [r] \<and> valid_region r \<and> r_block_size r = r_block_size self
              \<and> unat (r_start r) = unat s \<and> last_block r = unat (r_start u) - 1
       else ret' = ret"
  shows "unused_inv self lo hi (used_done @ [u]) s' ret'"
proof -
  have free: "blocks_of ret \<inter> blocks u = {}" by (rule free_before_next [OF inv u sorted])
  have low: "lo \<le> unat s" and old: "blocks_of ret = {lo ..< unat s} - blocks_of used_done"
    and clean: "{unat s .. hi} \<inter> blocks_of used_done = {}"
    and ok: "\<forall>r \<in> set ret. valid_region r \<and> r_block_size r = r_block_size self"
    using inv by (auto simp: unused_inv_def)
  have new: "blocks_of ret' = blocks_of ret \<union> {unat s ..< unat (r_start u)}"
    using gap by (auto split: if_splits simp: in_blocks_iff)
  have "blocks_of ret' = {lo ..< unat s'} - blocks_of (used_done @ [u])"
  proof -
    have "{lo ..< unat s'} = {lo ..< unat s} \<union> {unat s ..< unat (r_start u)}
        \<union> {max (unat s) (unat (r_start u)) .. last_block u}"
      using low no_skip s' start_le_last [OF u] by auto
    moreover have "{max (unat s) (unat (r_start u)) .. last_block u} \<subseteq> blocks u"
      by (auto simp: in_blocks_iff [OF u])
    moreover have "{unat s ..< unat (r_start u)} \<inter> blocks u = {}"
      by (auto simp: in_blocks_iff [OF u])
    moreover have "{unat s ..< unat (r_start u)} \<inter> blocks_of used_done = {}"
      using clean no_skip(2) by (force simp: disjoint_iff)
    ultimately show ?thesis using free by (auto simp: new old)
  qed
  moreover have "sorted_wrt (\<lambda>a b. last_block a < unat (r_start b)) ret'"
  proof -
    have "last_block r < unat s" if "r \<in> set ret" for r
    proof -
      have "last_block r \<in> blocks_of ret"
        using that ok last_block_in_blocks by (auto simp: blocks_of_def)
      then show ?thesis by (simp add: old)
    qed
    with inv gap show ?thesis
      by (auto simp: unused_inv_def sorted_wrt_append split: if_splits)
  qed
  moreover have "\<forall>r \<in> set ret'. valid_region r \<and> r_block_size r = r_block_size self"
    using gap ok by (auto split: if_splits)
  moreover have "\<forall>n \<in> blocks_of ret'. n \<le> hi \<and>
      (\<exists>p \<in> set (used_done @ [u]). n < unat (r_start p) \<and> unat (r_start p) \<le> hi)"
    using inv no_skip(2) by (auto simp: unused_inv_def new)
  moreover have "{unat s' .. hi} \<inter> blocks_of (used_done @ [u]) = {}"
    using clean no_skip s' by (force simp: in_blocks_iff [OF u] disjoint_iff)
  ultimately show ?thesis
    using low no_skip(1) s' by (simp add: unused_inv_def)
qed

text \<open>One iteration, at the level of the code, keeps the invariant and does not throw.\<close>

lemma unused_step_inv:
  assumes inv: "unused_inv self lo (unat e) used_done s ret"
    and self: "r_block_size self \<noteq> 0" and u: "compatible self u"
    and sorted: "\<forall>p \<in> set used_done. unat (r_start p) \<le> unat (r_start u)"
  shows "\<exists>s' ret'. unused_step self e u (s, ret) = Inr (s', ret')
    \<and> unused_inv self lo (unat e) (used_done @ [u]) s' ret'"
proof -
  from u have vu: "valid_region u" and eq: "equal_block_size self u"
    by (auto simp: compatible_def)
  obtain ue where ue: "get_end u = Inr ue" "unat ue = last_block u"
    using get_end_valid [OF vu] by auto
  show ?thesis
  proof (cases "ue < s \<or> e < r_start u")
    case True
    then have "last_block u < unat s \<or> unat e < unat (r_start u)"
      using ue by (auto simp: word_nat)
    from unused_inv_skip [OF inv vu sorted this] True ue eq show ?thesis
      by (simp add: unused_step_def)
  next
    case False
    then have ns: "unat s \<le> last_block u" "unat (r_start u) \<le> unat e"
      using ue by (auto simp: word_nat)
    have inc: "unat (ue + 1) = last_block u + 1"
      using ue last_block_bound [OF vu] by (simp add: unat_add_no_wrap)
    have s': "unat (max s (ue + 1)) = last_block u + 1"
      using ns inc by (simp add: unat_max)
    show ?thesis
    proof (cases "s < r_start u")
      case True
      then have lt: "unat s < unat (r_start u)" by (simp add: word_nat)
      have len: "unat (r_start u - s) = unat (r_start u) - unat s"
        using lt by (simp add: unat_sub_no_wrap)
      have "\<exists>r. region_new s (r_start u - s) (r_block_size self) = Inr r \<and> valid_region r
          \<and> blocks r = {unat s ..< unat s + unat (r_start u - s)}
          \<and> r_block_size r = r_block_size self \<and> r_start r = s
          \<and> last_block r = unat s + unat (r_start u - s) - 1"
        using self lt by (intro region_new_valid) (auto simp: len)
      then obtain r where r: "region_new s (r_start u - s) (r_block_size self) = Inr r"
        "valid_region r" "r_block_size r = r_block_size self" "r_start r = s"
        "last_block r = unat (r_start u) - 1"
        using lt by (auto simp: len)
      have "unused_inv self lo (unat e) (used_done @ [u]) (max s (ue + 1)) (ret @ [r])"
        by (rule unused_inv_take [OF inv vu sorted ns s']) (use lt r in auto)
      then show ?thesis using False True r ue eq by (simp add: unused_step_def)
    next
      case no_gap: False
      then have "\<not> unat s < unat (r_start u)" by (simp add: word_nat)
      then have "unused_inv self lo (unat e) (used_done @ [u]) (max s (ue + 1)) ret"
        using unused_inv_take [OF inv vu sorted ns s', of ret] by simp
      then show ?thesis using False no_gap ue eq by (simp add: unused_step_def)
    qed
  qed
qed

lemma unused_loop_inv:
  assumes "unused_inv self lo (unat e) used_done s ret" and "r_block_size self \<noteq> 0"
    and "\<forall>u \<in> set us. compatible self u" and "sorted (map r_start us)"
    and "\<forall>p \<in> set used_done. \<forall>u \<in> set us. unat (r_start p) \<le> unat (r_start u)"
  shows "\<exists>s' ret'. efold (unused_step self e) us (s, ret) = Inr (s', ret')
    \<and> unused_inv self lo (unat e) (used_done @ us) s' ret'"
  using assms
proof (induction us arbitrary: used_done s ret)
  case Nil
  then show ?case by simp
next
  case (Cons u us)
  from Cons.prems(3,5) obtain s1 ret1 where
    step: "unused_step self e u (s, ret) = Inr (s1, ret1)"
    and inv: "unused_inv self lo (unat e) (used_done @ [u]) s1 ret1"
    using unused_step_inv [OF Cons.prems(1,2)] by force
  have le: "\<forall>p \<in> set (used_done @ [u]). \<forall>v \<in> set us. unat (r_start p) \<le> unat (r_start v)"
    using Cons.prems(4,5) by (auto simp: word_nat)
  from Cons.IH [OF inv Cons.prems(2) _ _ le] Cons.prems(3,4) step show ?case by auto
qed

text \<open>
  After the loop the free blocks are those in \<open>ret\<close> and the blocks from \<open>start\<close> to the end. The
  code appends the latter only if \<open>end > start\<close>, so a single free block at the end is lost.
\<close>

definition free_blocks :: "region \<Rightarrow> region list \<Rightarrow> nat set" where
  "free_blocks self used = blocks self - blocks_of used"

definition lost_block :: "region \<Rightarrow> region list \<Rightarrow> nat set" where
  "lost_block self used =
     (let n = last_block self in
      if n \<in> free_blocks self used \<and>
         (n = unat (r_start self) \<or> n - 1 \<notin> free_blocks self used)
      then {n} else {})"

lemma unused_inv_free:
  assumes "unused_inv self (unat (r_start self)) (last_block self) used s ret"
    and self: "valid_region self"
  shows "free_blocks self used = blocks_of ret \<union> {unat s .. last_block self}"
    and "blocks_of ret \<inter> {unat s .. last_block self} = {}"
proof -
  have inv: "unat (r_start self) \<le> unat s"
    "blocks_of ret = {unat (r_start self) ..< unat s} - blocks_of used"
    "\<forall>n \<in> blocks_of ret. n \<le> last_block self"
    "{unat s .. last_block self} \<inter> blocks_of used = {}"
    using assms(1) by (simp_all add: unused_inv_def)
  have "{unat (r_start self) .. last_block self} - blocks_of used \<subseteq>
      ({unat (r_start self) ..< unat s} - blocks_of used) \<union> {unat s .. last_block self}"
    by auto
  moreover have "blocks_of ret \<subseteq> {unat (r_start self) .. last_block self} - blocks_of used"
    using inv(2,3) by auto
  moreover have "{unat s .. last_block self} \<subseteq>
      {unat (r_start self) .. last_block self} - blocks_of used"
    using inv(1,4) by auto
  ultimately show "free_blocks self used = blocks_of ret \<union> {unat s .. last_block self}"
    unfolding free_blocks_def blocks_atLeastAtMost [OF self] inv(2) by blast
  show "blocks_of ret \<inter> {unat s .. last_block self} = {}"
    using inv(2) by auto
qed

lemma unused_inv_lost:
  assumes inv: "unused_inv self (unat (r_start self)) (last_block self) used s ret"
    and self: "valid_region self" and used: "\<forall>u \<in> set used. valid_region u"
  shows "unat s = last_block self \<longleftrightarrow> lost_block self used = {last_block self}"
proof -
  let ?n = "last_block self"
  note free = unused_inv_free [OF inv self]
  have below: "\<exists>u \<in> set used. n < unat (r_start u) \<and> unat (r_start u) \<le> ?n"
    if "n \<in> blocks_of ret" for n
    using inv that by (auto simp: unused_inv_def)
  have gap: "?n - 1 \<notin> free_blocks self used \<or> ?n = unat (r_start self)" if s: "unat s = ?n"
  proof (rule ccontr)
    assume *: "\<not> ?thesis"
    then have "?n - 1 \<in> blocks_of ret"
      using free s start_le_last [OF self] inv by (auto simp: unused_inv_def)
    then obtain u where u: "u \<in> set used" "unat (r_start u) = ?n"
      using below [of "?n - 1"] by fastforce
    then have "?n \<in> blocks_of used"
      using used start_le_last [of u] by (auto simp: blocks_of_def in_blocks_iff intro!: bexI [of _ u])
    with inv s show False by (auto simp: unused_inv_def)
  qed
  have "unat s = ?n" if n: "?n \<in> free_blocks self used"
    and or: "?n = unat (r_start self) \<or> ?n - 1 \<notin> free_blocks self used"
  proof -
    have "?n \<notin> blocks_of ret" using below [of ?n] by auto
    with n free have "unat s \<le> ?n" by auto
    moreover have "?n - 1 \<in> free_blocks self used" if "unat s < ?n"
      using that free by auto
    ultimately show ?thesis
      using or inv by (cases "unat s < ?n") (auto simp: unused_inv_def)
  qed
  moreover have "?n \<in> free_blocks self used" if "unat s = ?n"
    using free(1) that by simp
  ultimately have "unat s = ?n \<longleftrightarrow> ?n \<in> free_blocks self used \<and>
      (?n = unat (r_start self) \<or> ?n - 1 \<notin> free_blocks self used)"
    using gap by blast
  then show ?thesis by (simp add: lost_block_def Let_def)
qed

lemma sort_regions_compatible:
  assumes "\<forall>u \<in> set us. compatible self u"
  shows "sort_regions us = Inr (sort_key r_start us)"
proof -
  have "list_all (equal_block_size (hd us)) us"
    using assms by (cases us) (auto simp: list_all_iff compatible_def equal_block_size_def)
  then show ?thesis by (simp add: sort_regions_def)
qed

lemma unused_regions_spec:
  assumes self: "valid_region self" and used: "\<forall>u \<in> set used. compatible self u"
  shows "\<exists>ret. unused_regions self used = Inr ret
    \<and> blocks_of ret = free_blocks self used - lost_block self used
    \<and> (\<forall>r \<in> set ret. valid_region r \<and> equal_block_size self r)
    \<and> sorted_wrt (\<lambda>a b. last_block a < unat (r_start b)) ret"
proof -
  obtain e where e: "get_end self = Inr e" "unat e = last_block self"
    using get_end_valid [OF self] by auto
  have bs: "r_block_size self \<noteq> 0" using self by (simp add: valid_region_def)
  have init: "unused_inv self (unat (r_start self)) (unat e) [] (r_start self) []"
    by (rule unused_inv_init)
  obtain s ret where loop:
    "efold (unused_step self e) (sort_key r_start used) (r_start self, []) = Inr (s, ret)"
    and inv: "unused_inv self (unat (r_start self)) (last_block self) (sort_key r_start used) s ret"
    using unused_loop_inv [OF init bs, of "sort_key r_start used"] used e by auto
  have vs: "\<forall>u \<in> set (sort_key r_start used). valid_region u"
    using used by (simp add: compatible_def)
  note free = unused_inv_free [OF inv self]
  note lost = unused_inv_lost [OF inv self vs]
  have srt: "free_blocks self (sort_key r_start used) = free_blocks self used"
    "lost_block self (sort_key r_start used) = lost_block self used"
    by (simp_all add: free_blocks_def lost_block_def blocks_of_def)
  have ok: "\<forall>r \<in> set ret. valid_region r \<and> equal_block_size self r"
    and ord: "sorted_wrt (\<lambda>a b. last_block a < unat (r_start b)) ret"
    and below: "\<forall>r \<in> set ret. last_block r < unat s"
  proof -
    show "\<forall>r \<in> set ret. valid_region r \<and> equal_block_size self r"
      and "sorted_wrt (\<lambda>a b. last_block a < unat (r_start b)) ret"
      using inv by (simp_all add: unused_inv_def equal_block_size_def)
    then have "\<forall>r \<in> set ret. last_block r \<in> blocks_of ret"
      using last_block_in_blocks by (auto simp: blocks_of_def)
    moreover have "blocks_of ret \<subseteq> {..< unat s}"
      using inv by (auto simp: unused_inv_def)
    ultimately show "\<forall>r \<in> set ret. last_block r < unat s" by auto
  qed
  show ?thesis
  proof (cases "s < e")
    case True
    then have lt: "unat s < last_block self" using e by (simp add: word_nat)
    have bound: "unat e + 1 < 18446744073709551616" using e last_block_bound [OF self] by simp
    obtain r where r: "region_new s (e - s + 1) (r_block_size self) = Inr r"
      "valid_region r" "blocks r = {unat s .. last_block self}"
      "r_block_size r = r_block_size self" "r_start r = s"
      using region_new_upto [OF bs _ bound, of s] lt e by auto
    have "lost_block self used = {}"
      using lost lt srt by (auto simp: lost_block_def Let_def split: if_splits)
    then show ?thesis
      using self used e loop True r ok ord below free(1) srt
      by (intro exI [of _ "ret @ [r]"])
        (auto simp: unused_regions_def sort_regions_compatible sorted_wrt_append
          equal_block_size_def)
  next
    case False
    then have ge: "last_block self \<le> unat s" using e by (simp add: word_nat)
    have "blocks_of ret = free_blocks self used - lost_block self used"
    proof (cases "unat s = last_block self")
      case True
      with lost free srt show ?thesis by auto
    next
      case False
      with lost free ge srt show ?thesis by (auto simp: lost_block_def Let_def split: if_splits)
    qed
    then show ?thesis
      using self used e loop False ok ord
      by (auto simp: unused_regions_def sort_regions_compatible)
  qed
qed

text \<open>Every region returned is inside the region and meets no used one.\<close>

lemma unused_regions_free:
  assumes "valid_region self" and "\<forall>u \<in> set used. compatible self u"
    and "unused_regions self used = Inr ret" and "r \<in> set ret"
  shows "valid_region r" and "equal_block_size self r" and "blocks r \<subseteq> blocks self"
    and "\<And>u. u \<in> set used \<Longrightarrow> blocks r \<inter> blocks u = {}"
  using unused_regions_spec [OF assms(1,2)] assms(3,4)
  by (auto simp: free_blocks_def blocks_of_def)

section \<open>What the operations promise\<close>

text \<open>
  C36: \<open>unused_regions\<close> of a valid region and any list of used regions of the same block size returns
  valid regions in ascending order, none touching the next, that hold exactly the free blocks of
  the region, except for a single free block at its very end, which the code drops.
\<close>

theorem unused_regions_exact:
  assumes "valid_region self" and "\<forall>u \<in> set used. compatible self u"
  shows "\<exists>ret. unused_regions self used = Inr ret
    \<and> blocks_of ret = free_blocks self used - lost_block self used
    \<and> (\<forall>r \<in> set ret. valid_region r \<and> equal_block_size self r)
    \<and> sorted_wrt (\<lambda>a b. last_block a < unat (r_start b)) ret"
  using assms by (rule unused_regions_spec)

lemma unused_regions_exact_witness:
  "\<exists>ret. unused_regions \<lparr>r_start = 0, r_length = 100, r_block_size = 512\<rparr>
      [\<lparr>r_start = 50, r_length = 49, r_block_size = 512\<rparr>, \<lparr>r_start = 10, r_length = 20, r_block_size = 512\<rparr>]
      = Inr ret
    \<and> blocks_of ret = {0..<10} \<union> {30..<50}"
proof -
  let ?self = "\<lparr>r_start = 0, r_length = 100, r_block_size = 512\<rparr>"
  let ?used = "[\<lparr>r_start = 50, r_length = 49, r_block_size = 512\<rparr>,
    \<lparr>r_start = 10, r_length = 20, r_block_size = 512\<rparr>]"
  have "free_blocks ?self ?used = {0..<10} \<union> {30..<50} \<union> {99}"
    by (auto simp: free_blocks_def blocks_of_def blocks_def)
  moreover from this have "lost_block ?self ?used = {99}"
    by (simp add: lost_block_def last_block_def)
  ultimately have "free_blocks ?self ?used - lost_block ?self ?used = {0..<10} \<union> {30..<50}" by auto
  then show ?thesis
    using unused_regions_exact [of ?self ?used]
    by (auto simp: valid_region_def compatible_def equal_block_size_def)
qed

text \<open>The dropped block on an example: the last one of ten blocks is free, and no region is returned.\<close>

lemma unused_regions_drops_last_block:
  "unused_regions \<lparr>r_start = 0, r_length = 10, r_block_size = 512\<rparr>
     [\<lparr>r_start = 0, r_length = 9, r_block_size = 512\<rparr>] = Inr []"
  by code_simp

text \<open>
  on valid regions with equal block sizes \<open>inside\<close>, \<open>intersect\<close> and \<open>intersection\<close> implement
  inclusion, overlap and intersection of the sets of blocks; the intersection of disjoint regions
  is the error \<open>NoIntersection\<close>.
\<close>

theorem region_set_operations:
  assumes "valid_region a" and "valid_region b" and "equal_block_size a b"
  shows "inside a b = Inr (blocks a \<subseteq> blocks b) \<and>
    intersect a b = Inr (blocks a \<inter> blocks b \<noteq> {}) \<and>
    (case intersection a b of
       Inl e \<Rightarrow> e = NoIntersection \<and> blocks a \<inter> blocks b = {}
     | Inr r \<Rightarrow> valid_region r \<and> r_block_size r = r_block_size a \<and> blocks r = blocks a \<inter> blocks b
         \<and> blocks r \<noteq> {})"
proof (cases "blocks a \<inter> blocks b = {}")
  case True
  then show ?thesis
    using inside_valid [OF assms] intersect_valid [OF assms] intersection_disjoint [OF assms] by simp
next
  case False
  then show ?thesis
    using inside_valid [OF assms] intersect_valid [OF assms] intersection_overlap [OF assms] by auto
qed

lemma region_set_operations_witness:
  "inside \<lparr>r_start = 10, r_length = 5, r_block_size = 512\<rparr> \<lparr>r_start = 0, r_length = 100, r_block_size = 512\<rparr>
    = Inr True"
proof -
  let ?a = "\<lparr>r_start = 10, r_length = 5, r_block_size = 512\<rparr>"
  let ?b = "\<lparr>r_start = 0, r_length = 100, r_block_size = 512\<rparr>"
  have "blocks ?a \<subseteq> blocks ?b" by (auto simp: blocks_def)
  then show ?thesis
    using region_set_operations [of ?a ?b] by (simp add: valid_region_def equal_block_size_def)
qed

text \<open>
  \<open>adjust_start\<close> with a signed \<open>delta\<close> throws exactly when the new start would be negative, and
  otherwise sets the start to the sum, modulo 2 ^ 64; \<open>delta = LLONG_MIN\<close>, whose negation is
  undefined in C++, is the only value left out.
\<close>

theorem adjust_start_guard:
  assumes "d \<noteq> min_long_long"
  shows "adjust_start d r =
    (if uint (r_start r) + sint d < 0 then Inl (Exn ''value out of range'')
     else Inr (r\<lparr>r_start := word_of_int (uint (r_start r) + sint d)\<rparr>))"
proof -
  have "word_of_int (uint (r_start r) + sint d) = r_start r + d" by simp
  then show ?thesis using adjust_start_signed [OF assms] by simp
qed

lemma adjust_start_guard_witness:
  "adjust_start (- 11) \<lparr>r_start = 10, r_length = 5, r_block_size = 512\<rparr> = Inl (Exn ''value out of range'')"
proof -
  have "- 11 \<noteq> min_long_long" by (simp add: min_long_long_def)
  moreover have "sint (- 11 :: u64) = - 11" by code_simp
  ultimately show ?thesis
    using adjust_start_guard [of "- 11" "\<lparr>r_start = 10, r_length = 5, r_block_size = 512\<rparr>"] by simp
qed

end
