(* ===== verification/Alignment.thy ===== *)
theory Alignment
  imports Region
begin

text \<open>
  \<open>Topology\<close> and \<open>Alignment\<close> (storage/Utils/TopologyImpl.h, AlignmentImpl.h, AlignmentImpl.cc):
  the calculation of where partitions may start and end. A start must be of the form
  offset + X * grain, an end one block before such a block.

  All quantities are machine words. \<open>long\<close> divided by \<open>unsigned long\<close> is an unsigned division
  in C++, so a negative alignment offset is read as a huge unsigned number before the division.
\<close>

section \<open>Topology\<close>

record topology =
  alignment_offset :: u64
  optimal_io_size :: u64
  minimal_grain :: u64

definition default_minimal_grain :: u64 where
  "default_minimal_grain = 1048576"

definition topology_new :: "u64 \<Rightarrow> u64 \<Rightarrow> topology" where
  "topology_new offset io_size =
     \<lparr>alignment_offset = offset, optimal_io_size = io_size, minimal_grain = default_minimal_grain\<rparr>"

definition topology_equal :: "topology \<Rightarrow> topology \<Rightarrow> bool" where
  "topology_equal a b \<longleftrightarrow>
     alignment_offset a = alignment_offset b \<and>
     optimal_io_size a = optimal_io_size b \<and> minimal_grain a = minimal_grain b"

section \<open>Alignment\<close>

datatype align_type = REQUIRED | OPTIMAL

datatype align_policy =
    ALIGN_START_AND_END
  | ALIGN_START_KEEP_END
  | ALIGN_START_KEEP_SIZE
  | KEEP_START_ALIGN_END

datatype align_location = START | END

record alignment =
  al_type :: align_type
  al_topology :: topology
  extra_grain :: u64

definition alignment_new :: "topology \<Rightarrow> align_type \<Rightarrow> alignment" where
  "alignment_new t ty = \<lparr>al_type = ty, al_topology = t, extra_grain = 0\<rparr>"

definition alignment_set_extra_grain :: "u64 \<Rightarrow> alignment \<Rightarrow> alignment" where
  "alignment_set_extra_grain g al = al\<lparr>extra_grain := g\<rparr>"

definition al_offset :: "alignment \<Rightarrow> u64" where
  "al_offset al = alignment_offset (al_topology al)"

text \<open>
  \<open>while (grain < minimal_grain) grain *= 2\<close>. The multiplication wraps around, and from 0 the
  loop never gets away: \<open>None\<close> is a loop that does not end.
\<close>

partial_function (option) grain_loop :: "u64 \<Rightarrow> u64 \<Rightarrow> u64 option" where
  "grain_loop m g = (if g < m then grain_loop m (g * 2) else Some g)"

declare grain_loop.simps [code]

text \<open>
  \<open>boost::integer::lcm\<close> is (a / gcd) * b in \<open>unsigned long\<close>: the least common multiple modulo
  2 ^ 64.
\<close>

definition lcm_u64 :: "u64 \<Rightarrow> u64 \<Rightarrow> u64" where
  "lcm_u64 a b = word_of_nat (lcm (unat a) (unat b))"

lemma lcm_u64_code [code]: "lcm_u64 a b = word_of_int (lcm (uint a) (uint b))"
proof -
  have "lcm (uint a) (uint b) = int (lcm (unat a) (unat b))"
    by (simp add: lcm_int_int_eq [symmetric])
  then show ?thesis by (simp only: lcm_u64_def of_int_of_nat_eq)
qed

definition calculate_grain :: "alignment \<Rightarrow> u64 result" where
  "calculate_grain al =
     ebind
       (case al_type al of
          OPTIMAL \<Rightarrow>
            (case grain_loop (minimal_grain (al_topology al))
                             (max (optimal_io_size (al_topology al)) 1) of
               None \<Rightarrow> Inl Diverges
             | Some g \<Rightarrow> Inr g)
        | REQUIRED \<Rightarrow> Inr 1)
       (\<lambda>grain. Inr (if 0 < extra_grain al then lcm_u64 grain (extra_grain al) else grain))"

text \<open>The result of \<open>align_block_in_place\<close> and the new value of its reference parameter.\<close>

definition align_block_in_place ::
  "alignment \<Rightarrow> u64 \<Rightarrow> u64 \<Rightarrow> align_location \<Rightarrow> (bool \<times> u64) result" where
  "align_block_in_place al block block_size location =
     (if block_size = 0 then Inl DivisionByZero
      else ebind (calculate_grain al) (\<lambda>g.
        let offset_in_blocks = al_offset al div block_size;
            grain_in_blocks = max g block_size div block_size;
            block = block - offset_in_blocks
        in case location of
             START \<Rightarrow>
               (let rest = block mod grain_in_blocks;
                    block = (if rest \<noteq> 0 then block + (grain_in_blocks - rest) else block)
                in Inr (True, block + offset_in_blocks))
           | END \<Rightarrow>
               (let rest = (block + 1) mod grain_in_blocks
                in if block < rest then Inr (False, block)
                   else Inr (True, block - rest + offset_in_blocks))))"

definition align_region_in_place ::
  "alignment \<Rightarrow> region \<Rightarrow> align_policy \<Rightarrow> (bool \<times> region) result" where
  "align_region_in_place al r policy =
     ebind
       (if policy \<noteq> KEEP_START_ALIGN_END
        then align_block_in_place al (r_start r) (r_block_size r) START
        else Inr (True, r_start r))
       (\<lambda>(ok, s).
         if \<not> ok then Inr (False, r)
         else
           let finish = (\<lambda>l. emap (\<lambda>r'. (True, r')) (region_new s l (r_block_size r)));
               align_end =
                 ebind (get_end r) (\<lambda>e.
                 ebind (align_block_in_place al e (r_block_size r) END) (\<lambda>(ok', e').
                   if \<not> ok' then Inr (False, r)
                   else if e' + 1 \<le> s then Inr (False, r)
                   else finish (e' - s + 1)))
           in case policy of
                KEEP_START_ALIGN_END \<Rightarrow> align_end
              | ALIGN_START_AND_END \<Rightarrow> align_end
              | ALIGN_START_KEEP_SIZE \<Rightarrow> finish (r_length r)
              | ALIGN_START_KEEP_END \<Rightarrow>
                  (let delta = s - r_start r in
                   if r_length r \<le> delta then Inr (False, r)
                   else finish (r_length r - delta)))"

definition can_be_aligned :: "alignment \<Rightarrow> region \<Rightarrow> align_policy \<Rightarrow> bool result" where
  "can_be_aligned al r policy = emap fst (align_region_in_place al r policy)"

definition align :: "alignment \<Rightarrow> region \<Rightarrow> align_policy \<Rightarrow> region result" where
  "align al r policy =
     ebind (align_region_in_place al r policy) (\<lambda>(ok, r').
       if ok then Inr r' else Inl AlignError)"

section \<open>The grain\<close>

lemma grain_loop_stop: "\<not> g < m \<Longrightarrow> grain_loop m g = Some g"
  by (subst grain_loop.simps) simp

lemma grain_loop_step: "g < m \<Longrightarrow> grain_loop m g = grain_loop m (g * 2)"
  by (subst grain_loop.simps) simp

lemma unat_double: "unat g < 2 ^ 63 \<Longrightarrow> unat (g * 2 :: u64) = unat g * 2"
  by (simp add: unat_word_ariths)

text \<open>
  For a minimal grain of at most 2 ^ 63 bytes the loop ends, with the least number of the form
  g * 2 ^ k that is at least the minimal grain.
\<close>

lemma grain_loop_returns:
  assumes "0 < g" and "unat m \<le> 2 ^ 63"
  shows "\<exists>g' k. grain_loop m g = Some g' \<and> unat g' = unat g * 2 ^ k \<and> m \<le> g'
    \<and> (0 < k \<longrightarrow> unat g * 2 ^ (k - 1) < unat m)"
  using assms
proof (induction "unat m - unat g" arbitrary: g rule: less_induct)
  case less
  show ?case
  proof (cases "g < m")
    case False
    then show ?thesis
      by (intro exI [of _ g] exI [of _ 0]) (simp add: grain_loop_stop)
  next
    case True
    then have lt: "unat g < unat m" by (simp add: word_nat)
    with less.prems have dbl: "unat (g * 2) = unat g * 2" by (simp add: unat_double)
    have pos: "0 < unat g" using less.prems(1) by (simp add: word_nat)
    then have "0 < g * 2" using dbl by (simp add: word_nat)
    moreover have "unat m - unat (g * 2) < unat m - unat g" using lt pos dbl by simp
    ultimately obtain g' k where IH: "grain_loop m (g * 2) = Some g'"
      "unat g' = unat (g * 2) * 2 ^ k" "m \<le> g'"
      "0 < k \<longrightarrow> unat (g * 2) * 2 ^ (k - 1) < unat m"
      using less.hyps [of "g * 2"] less.prems(2) by blast
    have "unat g * 2 ^ k < unat m"
      using IH(4) lt dbl by (cases k) simp_all
    then show ?thesis
      using IH dbl True
      by (intro exI [of _ g'] exI [of _ "Suc k"]) (simp add: grain_loop_step)
  qed
qed

section \<open>Aligning one block\<close>

text \<open>The offset and the grain in blocks, as \<open>align_block_in_place\<close> calculates them.\<close>

definition offset_blocks :: "alignment \<Rightarrow> u64 \<Rightarrow> nat" where
  "offset_blocks al bs = unat (al_offset al div bs)"

definition grain_blocks :: "u64 \<Rightarrow> u64 \<Rightarrow> nat" where
  "grain_blocks g bs = unat (max g bs div bs)"

text \<open>The blocks a partition may start at: offset + X * grain.\<close>

definition on_grid :: "nat \<Rightarrow> nat \<Rightarrow> nat \<Rightarrow> bool" where
  "on_grid off g n \<longleftrightarrow> off \<le> n \<and> g dvd (n - off)"

lemma grain_blocks_pos: "bs \<noteq> 0 \<Longrightarrow> 0 < grain_blocks g bs"
proof -
  assume "bs \<noteq> 0"
  then have "0 < unat bs" by (simp add: word_nat)
  moreover have "unat bs \<le> unat (max g bs)" by (simp add: unat_max)
  ultimately show ?thesis
    by (simp add: grain_blocks_def unat_div div_greater_zero_iff)
qed

lemma on_grid_up:
  assumes "0 < g" and "off \<le> n"
  shows "on_grid off g (up_to g (n - off) + off)" and "n \<le> up_to g (n - off) + off"
    and "\<And>m. on_grid off g m \<Longrightarrow> n \<le> m \<Longrightarrow> up_to g (n - off) + off \<le> m"
proof -
  show "on_grid off g (up_to g (n - off) + off)"
    using assms by (simp add: on_grid_def up_to_dvd)
  show "n \<le> up_to g (n - off) + off"
    using up_to_ge [of "n - off" g] by simp
  show "up_to g (n - off) + off \<le> m" if "on_grid off g m" "n \<le> m" for m
  proof -
    have "up_to g (n - off) \<le> m - off"
      using that by (intro up_to_le [OF assms(1)]) (auto simp: on_grid_def)
    with that(1) show ?thesis unfolding on_grid_def by linarith
  qed
qed

text \<open>
  Aligning a start that is not below the offset gives the least block on the grid that is not
  below it, provided the next grid point fits into 64 bits.
\<close>

lemma align_block_start:
  assumes grain: "calculate_grain al = Inr g" and bs: "bs \<noteq> 0"
    and off: "offset_blocks al bs \<le> unat b"
    and fits: "unat b + grain_blocks g bs \<le> 18446744073709551616"
  shows "\<exists>b'. align_block_in_place al b bs START = Inr (True, b')
    \<and> unat b' = up_to (grain_blocks g bs) (unat b - offset_blocks al bs) + offset_blocks al bs"
proof -
  define o' where "o' = al_offset al div bs"
  define gb where "gb = max g bs div bs"
  have g: "unat gb = grain_blocks g bs" by (simp add: gb_def grain_blocks_def)
  have o: "unat o' = offset_blocks al bs" by (simp add: o'_def offset_blocks_def)
  have pos: "0 < unat gb" using grain_blocks_pos [OF bs] by (simp add: g)
  have sub: "unat (b - o') = unat b - unat o'" using off o by (simp add: unat_sub_no_wrap)
  define rest where "rest = (b - o') mod gb"
  have rest: "unat rest = (unat b - unat o') mod unat gb"
    by (simp add: rest_def unat_mod_distrib sub)
  define b1 where "b1 = (if rest \<noteq> 0 then b - o' + (gb - rest) else b - o')"
  have up: "up_to (unat gb) (unat b - unat o') + unat o' < 18446744073709551616"
    using up_to_less [OF pos, of "unat b - unat o'"] off fits by (simp add: g o)
  have "unat b1 = up_to (unat gb) (unat b - unat o')"
  proof (cases "rest = 0")
    case True
    then show ?thesis using rest sub by (simp add: b1_def up_to_def)
  next
    case False
    then have nz: "unat rest \<noteq> 0" by (simp add: word_nat)
    have lt: "unat rest < unat gb" using rest pos by simp
    then have "unat (gb - rest) = unat gb - unat rest" by (simp add: unat_sub_no_wrap)
    then show ?thesis
      using False nz rest sub up by (simp add: b1_def up_to_def unat_add_no_wrap)
  qed
  then have "unat (b1 + o') = up_to (unat gb) (unat b - unat o') + unat o'"
    using up by (simp add: unat_add_no_wrap)
  moreover have "align_block_in_place al b bs START = Inr (True, b1 + o')"
    using bs grain by (simp add: align_block_in_place_def Let_def o'_def gb_def b1_def rest_def)
  ultimately show ?thesis by (simp add: g o)
qed

text \<open>
  Aligning an end fails exactly if there is no grid point above the offset at or below the next
  block; otherwise the block after the aligned end is the greatest such grid point.
\<close>

lemma align_block_end:
  assumes grain: "calculate_grain al = Inr g" and bs: "bs \<noteq> 0"
    and off: "offset_blocks al bs \<le> unat b"
    and fits: "unat b + 1 < 18446744073709551616"
  shows "if unat b + 1 - offset_blocks al bs < grain_blocks g bs
    then \<exists>b'. align_block_in_place al b bs END = Inr (False, b')
    else \<exists>b'. align_block_in_place al b bs END = Inr (True, b')
      \<and> unat b' + 1 = (unat b + 1 - offset_blocks al bs)
          - (unat b + 1 - offset_blocks al bs) mod grain_blocks g bs + offset_blocks al bs"
proof -
  define o' where "o' = al_offset al div bs"
  define gb where "gb = max g bs div bs"
  have g: "unat gb = grain_blocks g bs" by (simp add: gb_def grain_blocks_def)
  have o: "unat o' = offset_blocks al bs" by (simp add: o'_def offset_blocks_def)
  have pos: "0 < unat gb" using grain_blocks_pos [OF bs] by (simp add: g)
  have sub: "unat (b - o') = unat b - unat o'" using off o by (simp add: unat_sub_no_wrap)
  have inc: "unat (b - o' + 1) = unat b + 1 - unat o'"
    using fits off o sub by (simp add: unat_add_no_wrap)
  define rest where "rest = (b - o' + 1) mod gb"
  have rest: "unat rest = (unat b + 1 - unat o') mod unat gb"
    by (simp add: rest_def unat_mod_distrib inc)
  have fail: "b - o' < rest \<longleftrightarrow> unat b + 1 - unat o' < unat gb"
  proof
    assume "b - o' < rest"
    then have "unat b + 1 - unat o' \<le> (unat b + 1 - unat o') mod unat gb"
      using off o by (simp add: word_nat sub rest)
    then show "unat b + 1 - unat o' < unat gb"
      using pos mod_less_divisor [OF pos, of "unat b + 1 - unat o'"] by linarith
  next
    assume "unat b + 1 - unat o' < unat gb"
    then show "b - o' < rest" using off o by (simp add: word_nat sub rest)
  qed
  have eq: "align_block_in_place al b bs END =
      (if b - o' < rest then Inr (False, b - o') else Inr (True, b - o' - rest + o'))"
    using bs grain by (simp add: align_block_in_place_def Let_def o'_def gb_def rest_def)
  show ?thesis
  proof (cases "b - o' < rest")
    case True
    then show ?thesis using eq fail by (simp add: g o)
  next
    case False
    then have le: "unat rest \<le> unat b - unat o'" by (simp add: word_nat sub)
    have "unat (b - o' - rest) = unat b - unat o' - unat rest"
      using le by (simp add: unat_sub_no_wrap sub)
    then have "unat (b - o' - rest + o') = unat b - unat o' - unat rest + unat o'"
      using le off o fits unat_add_no_wrap [of "b - o' - rest" o'] by (simp del: diff_add_cancel)
    then have "unat (b - o' - rest + o') + 1
        = (unat b + 1 - unat o') - (unat b + 1 - unat o') mod unat gb + unat o'"
      using le off o rest by simp
    then show ?thesis using False eq fail by (simp add: g o)
  qed
qed

section \<open>Aligning a region\<close>

text \<open>
  The situation in which the calculation does not leave 64 bits: the region starts at or after
  the alignment offset and the next grid point after its end fits into 64 bits.
\<close>

definition alignable :: "alignment \<Rightarrow> u64 \<Rightarrow> region \<Rightarrow> bool" where
  "alignable al g r \<longleftrightarrow>
     valid_region r \<and> calculate_grain al = Inr g \<and>
     offset_blocks al (r_block_size r) \<le> unat (r_start r) \<and>
     last_block r + grain_blocks g (r_block_size r) < 18446744073709551616"

definition region_grid :: "alignment \<Rightarrow> u64 \<Rightarrow> region \<Rightarrow> nat \<Rightarrow> bool" where
  "region_grid al g r n \<longleftrightarrow>
     on_grid (offset_blocks al (r_block_size r)) (grain_blocks g (r_block_size r)) n"

lemma alignableD:
  assumes "alignable al g r"
  shows "valid_region r" and "calculate_grain al = Inr g" and "r_block_size r \<noteq> 0"
    and "offset_blocks al (r_block_size r) \<le> unat (r_start r)"
    and "unat (r_start r) + grain_blocks g (r_block_size r) \<le> 18446744073709551616"
  using assms start_le_last [of r] by (auto simp: alignable_def valid_region_def)

lemma align_start:
  assumes al: "alignable al g r"
  shows "\<exists>s. align_block_in_place al (r_start r) (r_block_size r) START = Inr (True, s)
    \<and> region_grid al g r (unat s) \<and> unat (r_start r) \<le> unat s
    \<and> (\<forall>m. region_grid al g r m \<and> unat (r_start r) \<le> m \<longrightarrow> unat s \<le> m)"
proof -
  note d = alignableD [OF al]
  note grid = on_grid_up [OF grain_blocks_pos [OF d(3)] d(4)]
  from align_block_start [OF d(2,3,4,5)] grid show ?thesis
    by (auto simp: region_grid_def)
qed

lemma align_end:
  assumes al: "alignable al g r"
  shows "\<exists>e b e'. get_end r = Inr e \<and> unat e = last_block r
    \<and> align_block_in_place al e (r_block_size r) END = Inr (b, e')
    \<and> (if b then unat e' \<le> last_block r \<and> region_grid al g r (unat e' + 1)
              \<and> (\<forall>m. region_grid al g r m \<and> unat (r_start r) < m \<and> m \<le> last_block r + 1
                     \<longrightarrow> m \<le> unat e' + 1)
       else \<forall>m. region_grid al g r m \<and> unat (r_start r) < m \<longrightarrow> last_block r + 1 < m)"
proof -
  note d = alignableD [OF al]
  let ?o = "offset_blocks al (r_block_size r)" and ?g = "grain_blocks g (r_block_size r)"
  have pos: "0 < ?g" by (rule grain_blocks_pos [OF d(3)])
  obtain e where e: "get_end r = Inr e" "unat e = last_block r"
    using get_end_valid [OF d(1)] by auto
  define n where "n = last_block r + 1 - ?o"
  have off: "?o \<le> unat e" using d(4) start_le_last [OF d(1)] e by simp
  have n: "n + ?o = last_block r + 1" using off e by (simp add: n_def)
  have fits: "unat e + 1 < 18446744073709551616" using last_block_bound [OF d(1)] e by simp
  note ends = align_block_end [OF d(2,3) off fits]
  have grid: "m \<le> n - n mod ?g + ?o" and ge: "?g \<le> m - ?o"
    if "region_grid al g r m" "unat (r_start r) < m" "m \<le> last_block r + 1" for m
  proof -
    have m: "?g dvd m - ?o" "?o \<le> m" using that(1) by (auto simp: region_grid_def on_grid_def)
    have "m - ?o \<le> n - n mod ?g"
      using that(3) by (intro down_ge m) (simp add: n_def)
    with m(2) show "m \<le> n - n mod ?g + ?o" by linarith
    have "0 < m - ?o" using that(2) d(4) by simp
    then show "?g \<le> m - ?o" using m(1) by (intro dvd_imp_le)
  qed
  show ?thesis
  proof (cases "n < ?g")
    case True
    then obtain e' where "align_block_in_place al e (r_block_size r) END = Inr (False, e')"
      using ends e by (auto simp: n_def)
    moreover have "last_block r + 1 < m" if "region_grid al g r m" "unat (r_start r) < m" for m
    proof (rule ccontr)
      assume "\<not> last_block r + 1 < m"
      with ge [OF that] have "?g \<le> m - ?o" "m \<le> last_block r + 1" by auto
      with True show False by (simp add: n_def)
    qed
    ultimately show ?thesis using e by auto
  next
    case False
    then obtain e' where e': "align_block_in_place al e (r_block_size r) END = Inr (True, e')"
      "unat e' + 1 = n - n mod ?g + ?o"
      using ends e by (auto simp: n_def)
    have "region_grid al g r (unat e' + 1)"
    proof -
      define x where "x = n - n mod ?g"
      have "?g dvd x" by (simp add: x_def down_dvd)
      then show ?thesis unfolding e'(2) x_def [symmetric] by (simp add: region_grid_def on_grid_def)
    qed
    moreover have "unat e' \<le> last_block r" using e'(2) n by linarith
    ultimately show ?thesis using e e' grid by auto
  qed
qed

text \<open>
  \<open>ALIGN_START_AND_END\<close>: the result is the greatest region inside the given one that starts and
  ends on the grid, and the alignment fails exactly if there is none.
\<close>

lemma align_start_and_end:
  assumes al: "alignable al g r"
  shows "case align al r ALIGN_START_AND_END of
      Inl e \<Rightarrow> e = AlignError \<and>
        (\<forall>s e. region_grid al g r s \<longrightarrow> region_grid al g r (e + 1) \<longrightarrow> unat (r_start r) \<le> s \<longrightarrow>
            e \<le> last_block r \<longrightarrow> e < s)
    | Inr r' \<Rightarrow> valid_region r' \<and> r_block_size r' = r_block_size r \<and> blocks r' \<subseteq> blocks r \<and>
        region_grid al g r (unat (r_start r')) \<and> region_grid al g r (last_block r' + 1) \<and>
        (\<forall>s e. region_grid al g r s \<longrightarrow> region_grid al g r (e + 1) \<longrightarrow> unat (r_start r) \<le> s \<longrightarrow>
            s \<le> e \<longrightarrow> e \<le> last_block r \<longrightarrow> {s..e} \<subseteq> blocks r')"
proof -
  note d = alignableD [OF al]
  obtain s where s: "align_block_in_place al (r_start r) (r_block_size r) START = Inr (True, s)"
    "region_grid al g r (unat s)" "unat (r_start r) \<le> unat s"
    "\<And>m. region_grid al g r m \<Longrightarrow> unat (r_start r) \<le> m \<Longrightarrow> unat s \<le> m"
    using align_start [OF al] by blast
  obtain e b e' where e: "get_end r = Inr e" "unat e = last_block r"
    and a: "align_block_in_place al e (r_block_size r) END = Inr (b, e')"
    and b: "if b then unat e' \<le> last_block r \<and> region_grid al g r (unat e' + 1)
              \<and> (\<forall>m. region_grid al g r m \<and> unat (r_start r) < m \<and> m \<le> last_block r + 1
                     \<longrightarrow> m \<le> unat e' + 1)
       else \<forall>m. region_grid al g r m \<and> unat (r_start r) < m \<longrightarrow> last_block r + 1 < m"
    using align_end [OF al] by blast
  note un = align_def align_region_in_place_def Let_def
  show ?thesis
  proof (cases "b \<and> unat s \<le> unat e'")
    case False
    have "align al r ALIGN_START_AND_END = Inl AlignError"
    proof (cases b)
      case True
      with b have "unat e' + 1 < 18446744073709551616"
        using last_block_bound [OF d(1)] by simp
      then have "unat (e' + 1) = unat e' + 1" by (simp add: unat_add_no_wrap)
      with True False have "e' + 1 \<le> s" by (simp add: word_nat)
      with True show ?thesis using s(1) e a by (simp add: un)
    next
      case False
      with s(1) e a show ?thesis by (simp add: un)
    qed
    moreover have "l < m" if m: "region_grid al g r m" "region_grid al g r (l + 1)"
      "unat (r_start r) \<le> m" "l \<le> last_block r" for m l
    proof (rule ccontr)
      assume "\<not> l < m"
      then have "unat s \<le> l" using s(4) [OF m(1,3)] by simp
      with m(3) \<open>\<not> l < m\<close> have "b" and "l + 1 \<le> unat e' + 1"
        using b m(2,4) by (auto split: if_splits)
      with False \<open>unat s \<le> l\<close> show False by simp
    qed
    ultimately show ?thesis by simp
  next
    case True
    have le: "unat s \<le> unat e'" and b and last: "unat e' \<le> last_block r"
      and top: "region_grid al g r (unat e' + 1)"
      and max: "\<And>m. region_grid al g r m \<Longrightarrow> unat (r_start r) < m \<Longrightarrow> m \<le> last_block r + 1
        \<Longrightarrow> m \<le> unat e' + 1"
      using True b by simp_all
    from last last_block_bound [OF d(1)] have bound: "unat e' + 1 < 18446744073709551616" by simp
    obtain r' where r': "region_new s (e' - s + 1) (r_block_size r) = Inr r'"
      "valid_region r'" "blocks r' = {unat s .. unat e'}" "r_block_size r' = r_block_size r"
      "r_start r' = s" "last_block r' = unat e'"
      using region_new_upto [OF d(3) le bound] by blast
    have "unat (e' + 1) = unat e' + 1" using bound by (simp add: unat_add_no_wrap)
    with le have "\<not> e' + 1 \<le> s" by (simp add: word_nat)
    with s(1) e a \<open>b\<close> r'(1) have "align al r ALIGN_START_AND_END = Inr r'"
      by (simp add: un)
    moreover have "blocks r' \<subseteq> blocks r"
      using r'(3) s(3) last by (auto simp: blocks_atLeastAtMost [OF d(1)])
    moreover have "{m..l} \<subseteq> blocks r'" if m: "region_grid al g r m" "region_grid al g r (l + 1)"
      "unat (r_start r) \<le> m" "m \<le> l" "l \<le> last_block r" for m l
      using s(4) [OF m(1,3)] max [OF m(2)] m(3-5) by (auto simp: r'(3))
    ultimately show ?thesis using r' s(2) top by simp
  qed
qed

section \<open>The policies that keep the end or the size\<close>

lemma align_block_START_True:
  "align_block_in_place al b bs START = Inr (ok, b') \<Longrightarrow> ok"
  by (auto simp: align_block_in_place_def Let_def result_simps split: if_splits)

text \<open>
  \<open>ALIGN_START_KEEP_END\<close> never leaves the region, whatever the topology and even if the
  calculation of the start wraps around: the difference to the old start is checked against the
  length.
\<close>

lemma align_keep_end:
  assumes r: "valid_region r"
    and eq: "align_region_in_place al r ALIGN_START_KEEP_END = Inr (True, r')"
  shows "valid_region r' \<and> equal_block_size r r' \<and> blocks r' \<subseteq> blocks r
    \<and> last_block r' = last_block r"
proof -
  from eq obtain s where "\<not> r_length r \<le> s - r_start r"
    and new: "region_new s (r_length r - (s - r_start r)) (r_block_size r) = Inr r'"
    by (auto simp: align_region_in_place_def Let_def result_simps split: if_splits prod.splits)
  define d where "d = s - r_start r"
  have d: "unat d < unat (r_length r)"
    using \<open>\<not> r_length r \<le> s - r_start r\<close> by (simp add: d_def word_nat)
  have bound: "unat (r_start r) + unat (r_length r) < 18446744073709551616"
    using r by (simp add: valid_region_def)
  have "s = r_start r + d" by (simp add: d_def)
  then have s: "unat s = unat (r_start r) + unat d"
    using d bound by (simp add: unat_add_no_wrap)
  have len: "unat (r_length r - d) = unat (r_length r) - unat d"
    using d by (simp add: unat_sub_no_wrap)
  have "r_block_size r \<noteq> 0" using r by (simp add: valid_region_def)
  then have r': "r' = \<lparr>r_start = s, r_length = r_length r - d, r_block_size = r_block_size r\<rparr>"
    using new by (simp add: region_new_def d_def)
  show ?thesis
    using r d bound s len unfolding r'
    by (auto simp: valid_region_def blocks_def equal_block_size_def last_block_def)
qed

text \<open>
  \<open>ALIGN_START_KEEP_SIZE\<close> moves the start to the grid and keeps the length, so it may run over
  the end of the given region.
\<close>

lemma align_keep_size:
  assumes al: "alignable al g r"
  shows "\<exists>r'. align al r ALIGN_START_KEEP_SIZE = Inr r' \<and> r_length r' = r_length r
    \<and> r_block_size r' = r_block_size r \<and> region_grid al g r (unat (r_start r'))
    \<and> unat (r_start r) \<le> unat (r_start r')
    \<and> unat (r_start r') < unat (r_start r) + grain_blocks g (r_block_size r)"
proof -
  note d = alignableD [OF al]
  obtain s where s: "align_block_in_place al (r_start r) (r_block_size r) START = Inr (True, s)"
    "unat s = up_to (grain_blocks g (r_block_size r))
        (unat (r_start r) - offset_blocks al (r_block_size r)) + offset_blocks al (r_block_size r)"
    using align_block_start [OF d(2,3,4,5)] by blast
  note grid = on_grid_up [OF grain_blocks_pos [OF d(3), of g] d(4)]
  have "unat s < unat (r_start r) + grain_blocks g (r_block_size r)"
    using up_to_less [OF grain_blocks_pos [OF d(3), of g],
        of "unat (r_start r) - offset_blocks al (r_block_size r)"] s(2) d(4) by linarith
  then show ?thesis
    using s grid d(3) by (simp add: align_def align_region_in_place_def region_new_def region_grid_def)
qed

section \<open>The interface of the free space search\<close>

text \<open>
  What the partition table relies on when it looks for free space: \<open>unused\<close> returns regions
  inside the given one that meet no used one, and \<open>place\<close> moves a region within itself. The
  two laws are what \<open>Region::unused_regions\<close> and \<open>Alignment::align_region_in_place\<close> promise.
\<close>

locale free_space =
  fixes unused :: "region \<Rightarrow> region list \<Rightarrow> region list result"
  assumes unused_valid: "valid_region self \<Longrightarrow> \<forall>u \<in> set used. compatible self u \<Longrightarrow>
      unused self used = Inr rs \<Longrightarrow> r \<in> set rs \<Longrightarrow> valid_region r \<and> equal_block_size self r"
    and unused_inside: "valid_region self \<Longrightarrow> \<forall>u \<in> set used. compatible self u \<Longrightarrow>
      unused self used = Inr rs \<Longrightarrow> r \<in> set rs \<Longrightarrow> blocks r \<subseteq> blocks self"
    and unused_disjoint: "valid_region self \<Longrightarrow> \<forall>u \<in> set used. compatible self u \<Longrightarrow>
      unused self used = Inr rs \<Longrightarrow> r \<in> set rs \<Longrightarrow> u \<in> set used \<Longrightarrow> blocks r \<inter> blocks u = {}"

locale slot_search = free_space +
  fixes place :: "region \<Rightarrow> (bool \<times> region) result"
  assumes place_inside: "valid_region r \<Longrightarrow> place r = Inr (True, r') \<Longrightarrow>
      valid_region r' \<and> equal_block_size r r' \<and> blocks r' \<subseteq> blocks r"
begin

text \<open>A placed unused region, possibly shrunk before, can be used.\<close>

lemma placed_usable:
  assumes "valid_region self" and "\<forall>u \<in> set used. compatible self u"
    and "unused self used = Inr rs" and "r \<in> set rs"
    and "valid_region q" and "equal_block_size r q" and "blocks q \<subseteq> blocks r"
    and "place q = Inr (True, r')"
  shows "compatible self r'" and "blocks r' \<subseteq> blocks q" and "blocks r' \<subseteq> blocks self"
    and "\<And>u. u \<in> set used \<Longrightarrow> blocks r' \<inter> blocks u = {}"
proof -
  note p = place_inside [OF assms(5,8)]
  note i = unused_valid [OF assms(1-4)] unused_inside [OF assms(1-4)]
  show "compatible self r'" using p i(1) assms(6) by (auto simp: compatible_def equal_block_size_def)
  show "blocks r' \<subseteq> blocks q" using p by simp
  show "blocks r' \<subseteq> blocks self" using p i(2) assms(7) by blast
  show "blocks r' \<inter> blocks u = {}" if "u \<in> set used" for u
    using p assms(7) unused_disjoint [OF assms(1-4) that] by blast
qed

end

interpretation free: free_space unused_regions
  by unfold_locales (use unused_regions_free in blast)+

interpretation keep_end: slot_search unused_regions "\<lambda>r. align_region_in_place al r ALIGN_START_KEEP_END"
  for al
  by unfold_locales (use align_keep_end in blast)

section \<open>What aligning promises\<close>

text \<open>
  C37: aligning start and end returns the greatest region inside the given one whose start and end
  are on the grid of offset and grain, and fails with \<open>AlignError\<close> exactly when the region holds no
  non-empty aligned region.
\<close>

theorem align_greatest:
  assumes "alignable al g r"
  shows "case align al r ALIGN_START_AND_END of
      Inl e \<Rightarrow> e = AlignError \<and>
        (\<forall>s e. region_grid al g r s \<longrightarrow> region_grid al g r (e + 1) \<longrightarrow> unat (r_start r) \<le> s \<longrightarrow>
            e \<le> last_block r \<longrightarrow> e < s)
    | Inr r' \<Rightarrow> valid_region r' \<and> r_block_size r' = r_block_size r \<and> blocks r' \<subseteq> blocks r \<and>
        region_grid al g r (unat (r_start r')) \<and> region_grid al g r (last_block r' + 1) \<and>
        (\<forall>s e. region_grid al g r s \<longrightarrow> region_grid al g r (e + 1) \<longrightarrow> unat (r_start r) \<le> s \<longrightarrow>
            s \<le> e \<longrightarrow> e \<le> last_block r \<longrightarrow> {s..e} \<subseteq> blocks r')"
  using assms by (rule align_start_and_end)

definition demo_alignment :: alignment where
  "demo_alignment = alignment_new (topology_new 0 1048576) OPTIMAL"

lemma align_greatest_witness:
  "\<exists>r'. align demo_alignment \<lparr>r_start = 1, r_length = 10000, r_block_size = 512\<rparr> ALIGN_START_AND_END = Inr r'
    \<and> blocks r' \<subseteq> {1..10000} \<and> {2048..8191} \<subseteq> blocks r'"
proof -
  let ?r = "\<lparr>r_start = 1, r_length = 10000, r_block_size = 512\<rparr>"
  have g: "calculate_grain demo_alignment = Inr 1048576" by code_simp
  have ob: "offset_blocks demo_alignment 512 = 0"
    by (simp add: offset_blocks_def demo_alignment_def alignment_new_def topology_new_def al_offset_def)
  have gb: "grain_blocks 1048576 512 = 2048" by (simp add: grain_blocks_def max_def)
  have al: "alignable demo_alignment 1048576 ?r"
    by (simp add: alignable_def g ob gb valid_region_def last_block_def)
  have ok: "align demo_alignment ?r ALIGN_START_AND_END
      = Inr \<lparr>r_start = 2048, r_length = 6144, r_block_size = 512\<rparr>" by code_simp
  have grid: "region_grid demo_alignment 1048576 ?r 2048" "region_grid demo_alignment 1048576 ?r 8192"
    by (simp_all add: region_grid_def on_grid_def ob gb)
  from align_greatest [OF al] ok grid
  show ?thesis by (auto simp: blocks_def last_block_def)
qed

text \<open>
  aligning the start and keeping the end never leaves the region: whatever the alignment, the
  offset and the grain are, an accepted result is a valid part of the region with the same end.
\<close>

theorem align_keep_end_inside:
  assumes "valid_region r" and "align_region_in_place al r ALIGN_START_KEEP_END = Inr (True, r')"
  shows "valid_region r' \<and> equal_block_size r r' \<and> blocks r' \<subseteq> blocks r
    \<and> last_block r' = last_block r"
  using assms by (rule align_keep_end)

lemma align_keep_end_inside_witness:
  "last_block \<lparr>r_start = 2048, r_length = 7953, r_block_size = 512\<rparr>
    = last_block \<lparr>r_start = 1, r_length = 10000, r_block_size = 512\<rparr>"
proof -
  have "align_region_in_place demo_alignment \<lparr>r_start = 1, r_length = 10000, r_block_size = 512\<rparr>
      ALIGN_START_KEEP_END = Inr (True, \<lparr>r_start = 2048, r_length = 7953, r_block_size = 512\<rparr>)"
    by code_simp
  from align_keep_end_inside [OF _ this] show ?thesis by (simp add: valid_region_def)
qed

text \<open>
  For a minimal grain of at most 2 ^ 63 bytes the doubling loop of \<open>calculate_grain\<close> ends, with
  the least number of the form g * 2 ^ k that is not below the minimal grain.
\<close>

theorem grain_loop_ends:
  assumes "0 < g" and "unat m \<le> 2 ^ 63"
  shows "\<exists>g' k. grain_loop m g = Some g' \<and> unat g' = unat g * 2 ^ k \<and> m \<le> g'
    \<and> (0 < k \<longrightarrow> unat g * 2 ^ (k - 1) < unat m)"
  using assms by (rule grain_loop_returns)

lemma grain_loop_ends_witness:
  "\<exists>g' k. grain_loop 1048576 3 = Some g' \<and> unat g' = 3 * 2 ^ k \<and> 1048576 \<le> g'"
  using grain_loop_ends [of 3 1048576] by fastforce

text \<open>
  With a negative offset the division in \<open>align_block_in_place\<close> is unsigned: the offset of -1 byte
  some devices report moves an aligned block away from the grid.
\<close>

lemma negative_offset_misaligns:
  "align_block_in_place (alignment_new (topology_new (- 1) 1048576) OPTIMAL) 2048 512 START
    = Inr (True, 4095)"
  by code_simp

end
