(* ===== verification/Algorithm.thy ===== *)
theory Algorithm
  imports Prelude
begin

text \<open>
  The template of storage/Utils/Algorithm.h, which partition tables and software RAIDs use: the
  first number that is missing in a list that is sorted by number.
\<close>

text \<open>The argument \<open>f\<close> is the \<open>get_number\<close> of the type.\<close>

fun first_missing_number :: "('a \<Rightarrow> u32) \<Rightarrow> 'a list \<Rightarrow> u32 \<Rightarrow> u32" where
  "first_missing_number f [] number = number"
| "first_missing_number f (x # xs) number =
     (if number \<noteq> f x then number else first_missing_number f xs (number + 1))"

lemma first_missing_number_free:
  assumes "sorted_wrt (<) (map f ps)" and "\<forall>p \<in> set ps. k \<le> f p"
    and "unat k + length ps < 4294967296"
  shows "first_missing_number f ps k \<notin> f ` set ps \<and> k \<le> first_missing_number f ps k
    \<and> unat (first_missing_number f ps k) \<le> unat k + length ps
    \<and> (\<forall>m. k \<le> m \<and> m < first_missing_number f ps k \<longrightarrow> m \<in> f ` set ps)"
  using assms
proof (induction ps arbitrary: k)
  case Nil
  then show ?case by auto
next
  case (Cons p ps)
  show ?case
  proof (cases "k = f p")
    case False
    then have "k < f p" using Cons.prems(2) by (simp add: order.strict_iff_order)
    moreover have "\<forall>q \<in> set ps. f p < f q" using Cons.prems(1) by simp
    ultimately have "k \<notin> f ` set (p # ps)" by auto
    then show ?thesis using False by auto
  next
    case True
    have succ: "unat (k + 1) = unat k + 1"
      using Cons.prems(3) by (subst unat_add_no_wrap) auto
    have above: "\<forall>q \<in> set ps. k + 1 \<le> f q"
    proof
      fix q assume "q \<in> set ps"
      then have "k < f q" using Cons.prems(1) True by simp
      then show "k + 1 \<le> f q" using succ by (simp add: word_le_nat_alt word_less_nat_alt)
    qed
    note ih = Cons.IH [of "k + 1"]
    let ?n = "first_missing_number f ps (k + 1)"
    have ih': "?n \<notin> f ` set ps" "k + 1 \<le> ?n" "unat ?n \<le> unat (k + 1) + length ps"
      "\<forall>m. k + 1 \<le> m \<and> m < ?n \<longrightarrow> m \<in> f ` set ps"
      using ih above Cons.prems succ by auto
    have "k < ?n" using ih'(2) succ by (simp add: word_le_nat_alt word_less_nat_alt)
    moreover have "m \<in> f ` set (p # ps)" if "k \<le> m" "m < ?n" for m
    proof (cases "m = k")
      case False
      then have "k + 1 \<le> m" using that(1) succ
        by (auto simp: word_le_nat_alt word_unat_eq_iff)
      then show ?thesis using ih'(4) that(2) by auto
    qed (use True in simp)
    ultimately show ?thesis using True ih' succ by auto
  qed
qed

end
