(* ===== verification/PartitionTable.thy ===== *)
theory PartitionTable
  imports Alignment Algorithm
begin

text \<open>
  Partition tables (storage/Devices/PartitionTableImpl.cc with the overriding functions of
  MsdosImpl.cc, GptImpl.cc, DasdPtImpl.cc and ImplicitPtImpl.cc). The virtual functions of the
  four classes are one definition with a case distinction on the class.

  State: the partitionable the table is on, the partitions that are children of the table in the
  devicegraph and, for an MS-DOS table, the logical partitions, which are children of the
  extended partition. A partition has its number instead of its name: the name is
  \<open>partition_name(number)\<close> and \<open>get_number()\<close> reads the number back. The sysfs and udev paths,
  which are recomputed from the number, are left out, and so are filesystems and other devices
  on a partition.
\<close>

section \<open>State\<close>

datatype pt_class = MSDOS | GPT | DASD | IMPLICIT

datatype partition_type = PRIMARY | EXTENDED | LOGICAL

datatype dasd_type = DASDTYPE_UNKNOWN | ECKD | FBA

datatype dasd_format = DASDF_NONE | LDL | CDL

record partitionable =
  dev_region :: region
  dev_range :: u32
  dev_topology :: topology
  dev_dasd_type :: dasd_type
  dev_dasd_format :: dasd_format

record partition =
  p_sid :: nat
  p_number :: u32
  p_region :: region
  p_type :: partition_type
  p_id :: u32
  p_boot :: bool
  p_in_system :: bool

record ptable =
  pt_type :: pt_class
  pt_dev :: partitionable
  pt_children :: "partition list"
  pt_logicals :: "partition list"
  pt_minimal_mbr_gap :: u64
  pt_partition_slots :: u32

abbreviation default_range :: u32 where "default_range \<equiv> 256"
abbreviation default_minimal_mbr_gap :: u64 where "default_minimal_mbr_gap \<equiv> 1048576"
abbreviation default_partition_slots :: u32 where "default_partition_slots \<equiv> 128"

definition num_ebrs :: u64 where
  "num_ebrs = 128"

definition sectors_per_track :: u64 where
  "sectors_per_track = 12"

text \<open>\<open>get_block_size()\<close> without the tag returns an \<open>unsigned int\<close>: the low 32 bits.\<close>

definition get_block_size32 :: "region \<Rightarrow> u32" where
  "get_block_size32 r = ucast (r_block_size r)"

definition ID_LINUX :: u32 where "ID_LINUX = 0x83"
definition ID_EXTENDED :: u32 where "ID_EXTENDED = 0x0f"

definition default_id_for_type :: "partition_type \<Rightarrow> u32" where
  "default_id_for_type t = (if t = EXTENDED then ID_EXTENDED else ID_LINUX)"

definition ptable_new :: "pt_class \<Rightarrow> partitionable \<Rightarrow> ptable" where
  "ptable_new c dev =
     \<lparr>pt_type = c, pt_dev = dev, pt_children = [], pt_logicals = [],
      pt_minimal_mbr_gap = default_minimal_mbr_gap,
      pt_partition_slots = default_partition_slots\<rparr>"

section \<open>Queries\<close>

text \<open>\<open>get_partitions\<close>: the children and, for MS-DOS, the logical partitions of the extended one.\<close>

definition get_partitions :: "ptable \<Rightarrow> partition list" where
  "get_partitions pt =
     (if pt_type pt = MSDOS \<and> list_ex (\<lambda>p. p_type p = EXTENDED) (pt_children pt)
      then pt_children pt @ pt_logicals pt
      else pt_children pt)"

definition has_extended :: "ptable \<Rightarrow> bool" where
  "has_extended pt \<longleftrightarrow> pt_type pt = MSDOS \<and> list_ex (\<lambda>p. p_type p = EXTENDED) (pt_children pt)"

definition get_extended :: "ptable \<Rightarrow> partition result" where
  "get_extended pt =
     (if pt_type pt = MSDOS
      then case find (\<lambda>p. p_type p = EXTENDED) (pt_children pt) of
             Some p \<Rightarrow> Inr p
           | None \<Rightarrow> Inl (Exn ''has no extended partition'')
      else Inl (Exn ''has no extended partition''))"

definition count_type :: "partition_type \<Rightarrow> partition list \<Rightarrow> u32" where
  "count_type t ps = word_of_nat (length (filter (\<lambda>p. p_type p = t) ps))"

definition num_primary :: "ptable \<Rightarrow> u32" where
  "num_primary pt = count_type PRIMARY (get_partitions pt)"

definition num_logical :: "ptable \<Rightarrow> u32" where
  "num_logical pt = (if pt_type pt = MSDOS then count_type LOGICAL (get_partitions pt) else 0)"

definition msdos_max_primary :: "ptable \<Rightarrow> u32" where
  "msdos_max_primary pt = min 4 (dev_range (pt_dev pt) - 1)"

definition gpt_max_primary :: "ptable \<Rightarrow> u32" where
  "gpt_max_primary pt = min (pt_partition_slots pt) (dev_range (pt_dev pt) - 1)"

definition dasd_max_primary :: "ptable \<Rightarrow> u32" where
  "dasd_max_primary pt = min 3 (dev_range (pt_dev pt) - 1)"

definition implicit_max_primary :: "ptable \<Rightarrow> u32" where
  "implicit_max_primary pt = min 1 (dev_range (pt_dev pt) - 1)"

definition max_primary :: "ptable \<Rightarrow> u32" where
  "max_primary pt =
     (case pt_type pt of
        MSDOS \<Rightarrow> msdos_max_primary pt
      | GPT \<Rightarrow> gpt_max_primary pt
      | DASD \<Rightarrow> dasd_max_primary pt
      | IMPLICIT \<Rightarrow> implicit_max_primary pt)"

lemmas max_primary_defs = max_primary_def msdos_max_primary_def gpt_max_primary_def
  dasd_max_primary_def implicit_max_primary_def

definition extended_possible :: "ptable \<Rightarrow> bool" where
  "extended_possible pt \<longleftrightarrow> pt_type pt = MSDOS"

definition msdos_max_logical :: "ptable \<Rightarrow> u32" where
  "msdos_max_logical pt =
     (let ret = min default_range (dev_range (pt_dev pt)) - 1
      in if ret < 5 then 0 else ret)"

definition max_logical :: "ptable \<Rightarrow> u32" where
  "max_logical pt = (if pt_type pt = MSDOS then msdos_max_logical pt else 0)"

definition is_partition_type_supported :: "ptable \<Rightarrow> partition_type \<Rightarrow> bool" where
  "is_partition_type_supported pt t \<longleftrightarrow> pt_type pt = MSDOS \<or> t = PRIMARY"

text \<open>The sectors at the front and at the back of the device that no partition may use.\<close>

definition msdos_unusable_sectors :: "ptable \<Rightarrow> (u64 \<times> u64) result" where
  "msdos_unusable_sectors pt =
     (let r = dev_region (pt_dev pt) in
      ebind (to_blocks r (pt_minimal_mbr_gap pt)) (\<lambda>gap.
        Inr (max 1 gap, if 4294967295 < r_length r then r_length r - 4294967295 else 0)))"

definition gpt_unusable_sectors :: "ptable \<Rightarrow> (u64 \<times> u64) result" where
  "gpt_unusable_sectors pt =
     (let r = dev_region (pt_dev pt) in
      if get_block_size32 r = 0 then Inl DivisionByZero
      else let sectors = 1 + ucast (pt_partition_slots pt * 128) div ucast (get_block_size32 r)
           in Inr (1 + sectors, sectors))"

definition dasd_unusable_sectors :: "ptable \<Rightarrow> (u64 \<times> u64) result" where
  "dasd_unusable_sectors pt = Inr (2 * sectors_per_track, 0)"

definition implicit_unusable_sectors :: "ptable \<Rightarrow> (u64 \<times> u64) result" where
  "implicit_unusable_sectors pt =
     (let dev = pt_dev pt in
      if dev_dasd_type dev = ECKD \<and> dev_dasd_format dev = LDL then Inr (3, 0)
      else if dev_dasd_type dev = FBA then Inr (2, 0)
      else Inl (Exn ''unusable sectors are unknown''))"

definition unusable_sectors :: "ptable \<Rightarrow> (u64 \<times> u64) result" where
  "unusable_sectors pt =
     (case pt_type pt of
        MSDOS \<Rightarrow> msdos_unusable_sectors pt
      | GPT \<Rightarrow> gpt_unusable_sectors pt
      | DASD \<Rightarrow> dasd_unusable_sectors pt
      | IMPLICIT \<Rightarrow> implicit_unusable_sectors pt)"

lemmas unusable_sectors_defs = unusable_sectors_def msdos_unusable_sectors_def
  gpt_unusable_sectors_def dasd_unusable_sectors_def implicit_unusable_sectors_def

definition has_usable_region :: "ptable \<Rightarrow> bool result" where
  "has_usable_region pt =
     ebind (unusable_sectors pt) (\<lambda>(a, b). Inr (a + b < r_length (dev_region (pt_dev pt))))"

definition get_usable_region :: "ptable \<Rightarrow> region result" where
  "get_usable_region pt =
     ebind (unusable_sectors pt) (\<lambda>(a, b).
       let r = dev_region (pt_dev pt) in
       if r_length r \<le> a + b then Inl (Exn ''no usable region'')
       else region_new a (r_length r - (a + b)) (ucast (get_block_size32 r)))"

definition base_alignment :: "ptable \<Rightarrow> align_type \<Rightarrow> alignment" where
  "base_alignment pt ty = alignment_new (dev_topology (pt_dev pt)) ty"

definition dasd_alignment :: "ptable \<Rightarrow> align_type \<Rightarrow> alignment" where
  "dasd_alignment pt ty =
     alignment_set_extra_grain
       (sectors_per_track * ucast (get_block_size32 (dev_region (pt_dev pt)))) (base_alignment pt ty)"

definition get_alignment :: "ptable \<Rightarrow> align_type \<Rightarrow> alignment" where
  "get_alignment pt ty = (if pt_type pt = DASD then dasd_alignment pt ty else base_alignment pt ty)"

section \<open>Creating and deleting partitions\<close>

text \<open>Changing the number of the partitions a list of pairs (sid, number) names.\<close>

definition apply_numbers :: "(nat \<times> u32) list \<Rightarrow> partition list \<Rightarrow> partition list" where
  "apply_numbers ns = List.map (\<lambda>p. case map_of ns (p_sid p) of
     Some n \<Rightarrow> p\<lparr>p_number := n\<rparr> | None \<Rightarrow> p)"

definition apply_numbers_pt :: "(nat \<times> u32) list \<Rightarrow> ptable \<Rightarrow> ptable" where
  "apply_numbers_pt ns pt =
     pt\<lparr>pt_children := apply_numbers ns (pt_children pt),
        pt_logicals := apply_numbers ns (pt_logicals pt)\<rparr>"

text \<open>
  The loop at the end of \<open>DasdPt::create_partition\<close> and of \<open>DasdPt::delete_partition\<close>: the number
  of every partition behind \<open>r\<close> changes by \<open>delta\<close>.
\<close>

fun dasd_shift :: "region \<Rightarrow> u32 \<Rightarrow> partition list \<Rightarrow> (nat \<times> u32) list result" where
  "dasd_shift r delta [] = Inr []"
| "dasd_shift r delta (p # ps) =
     ebind (region_less r (p_region p)) (\<lambda>behind.
     ebind (dasd_shift r delta ps) (\<lambda>rest.
       Inr (if behind then (p_sid p, p_number p + delta) # rest else rest)))"

definition create_partition_base ::
  "nat \<Rightarrow> u32 \<Rightarrow> region \<Rightarrow> partition_type \<Rightarrow> ptable \<Rightarrow> ptable result" where
  "create_partition_base sid number r t pt =
     (if get_block_size32 r \<noteq> get_block_size32 (dev_region (pt_dev pt))
      then Inl DifferentBlockSizes
      else
        let p = \<lparr>p_sid = sid, p_number = number, p_region = r, p_type = t,
                 p_id = default_id_for_type t, p_boot = False, p_in_system = False\<rparr> in
        if t = LOGICAL
        then ebind (get_extended pt) (\<lambda>_. Inr (pt\<lparr>pt_logicals := pt_logicals pt @ [p]\<rparr>))
        else Inr (pt\<lparr>pt_children := pt_children pt @ [p]\<rparr>))"

definition dasd_create_partition ::
  "nat \<Rightarrow> u32 \<Rightarrow> region \<Rightarrow> partition_type \<Rightarrow> ptable \<Rightarrow> ptable result" where
  "dasd_create_partition sid number r t pt =
     ebind (create_partition_base sid number r t pt) (\<lambda>pt'.
       emap (\<lambda>ns. apply_numbers_pt ns pt') (dasd_shift r 1 (get_partitions pt')))"

definition create_partition ::
  "nat \<Rightarrow> u32 \<Rightarrow> region \<Rightarrow> partition_type \<Rightarrow> ptable \<Rightarrow> ptable result" where
  "create_partition sid number r t pt =
     (if pt_type pt = DASD then dasd_create_partition sid number r t pt
      else create_partition_base sid number r t pt)"

lemmas create_partition_defs =
  create_partition_def dasd_create_partition_def create_partition_base_def

text \<open>
  The loop of \<open>PartitionTable::delete_partition\<close> over the partitions sorted by number: those not
  on disk move down to the number that became free before them.
\<close>

fun shift_new :: "u32 \<Rightarrow> partition list \<Rightarrow> (nat \<times> u32) list" where
  "shift_new old [] = []"
| "shift_new old (p # ps) =
     (if (p_type p = PRIMARY \<or> p_type p = EXTENDED) \<and> old < p_number p \<and> \<not> p_in_system p
      then (p_sid p, old) # shift_new (p_number p) ps
      else shift_new old ps)"

definition remove_partition :: "partition \<Rightarrow> ptable \<Rightarrow> ptable" where
  "remove_partition p pt =
     pt\<lparr>pt_children := filter (\<lambda>q. p_sid q \<noteq> p_sid p) (pt_children pt),
        pt_logicals :=
          (if p_type p = EXTENDED then []
           else filter (\<lambda>q. p_sid q \<noteq> p_sid p) (pt_logicals pt))\<rparr>"

definition delete_partition_base :: "partition \<Rightarrow> ptable \<Rightarrow> ptable" where
  "delete_partition_base p pt =
     (let pt' = remove_partition p pt in
      if (pt_type pt = GPT \<or> pt_type pt = MSDOS) \<and> (p_type p = PRIMARY \<or> p_type p = EXTENDED)
      then apply_numbers_pt (shift_new (p_number p) (sort_key p_number (get_partitions pt'))) pt'
      else pt')"

definition msdos_delete_partition :: "partition \<Rightarrow> ptable \<Rightarrow> ptable result" where
  "msdos_delete_partition p pt =
     (let pt' = delete_partition_base p pt in
      Inr (if p_type p = LOGICAL
           then apply_numbers_pt
             (List.map (\<lambda>q. (p_sid q, p_number q - 1))
                (filter (\<lambda>q. p_number p < p_number q) (get_partitions pt'))) pt'
           else pt'))"

definition dasd_delete_partition :: "partition \<Rightarrow> ptable \<Rightarrow> ptable result" where
  "dasd_delete_partition p pt =
     (let pt' = delete_partition_base p pt in
      emap (\<lambda>ns. apply_numbers_pt ns pt') (dasd_shift (p_region p) (- 1) (get_partitions pt')))"

definition delete_partition :: "partition \<Rightarrow> ptable \<Rightarrow> ptable result" where
  "delete_partition p pt =
     (case pt_type pt of
        MSDOS \<Rightarrow> msdos_delete_partition p pt
      | DASD \<Rightarrow> dasd_delete_partition p pt
      | _ \<Rightarrow> Inr (delete_partition_base p pt))"

lemmas delete_partition_defs =
  delete_partition_def msdos_delete_partition_def dasd_delete_partition_def

section \<open>Unused partition slots\<close>

record partition_slot =
  slot_region :: region
  slot_number :: u32
  primary_slot :: bool
  primary_possible :: bool
  extended_slot :: bool
  extended_possible_slot :: bool
  logical_slot :: bool
  logical_possible :: bool

definition is_primary_possible :: "ptable \<Rightarrow> bool" where
  "is_primary_possible pt \<longleftrightarrow>
     num_primary pt + (if has_extended pt then 1 else 0) < max_primary pt"

definition is_extended_possible :: "ptable \<Rightarrow> bool" where
  "is_extended_possible pt \<longleftrightarrow>
     is_primary_possible pt \<and> extended_possible pt \<and> \<not> has_extended pt"

definition is_logical_possible :: "ptable \<Rightarrow> bool" where
  "is_logical_possible pt \<longleftrightarrow>
     has_extended pt \<and> num_logical pt < max_logical pt - max_primary pt"

text \<open>The number of used regions that start before a region, for the number of a DASD slot.\<close>

fun count_before :: "region \<Rightarrow> region list \<Rightarrow> u32 result" where
  "count_before r [] = Inr 0"
| "count_before r (u # us) =
     ebind (region_less u r) (\<lambda>b. emap (\<lambda>n. if b then n + 1 else n) (count_before r us))"

definition primary_slot_of ::
  "ptable \<Rightarrow> alignment \<Rightarrow> align_policy \<Rightarrow> partition list \<Rightarrow> region list \<Rightarrow> region
   \<Rightarrow> partition_slot list \<Rightarrow> partition_slot list result" where
  "primary_slot_of pt al policy partitions used r slots =
     ebind (align_region_in_place al r policy) (\<lambda>(ok, r').
       if \<not> ok then Inr slots
       else ebind
         (if pt_type pt = DASD then emap (\<lambda>n. n + 1) (count_before r' used)
          else Inr (first_missing_number p_number partitions 1))
         (\<lambda>number. Inr (slots @
           [\<lparr>slot_region = r', slot_number = number,
             primary_slot = True, primary_possible = is_primary_possible pt,
             extended_slot = extended_possible pt,
             extended_possible_slot = is_extended_possible pt,
             logical_slot = False, logical_possible = False\<rparr>])))"

definition primary_slots :: "ptable \<Rightarrow> align_policy \<Rightarrow> align_type \<Rightarrow> partition_slot list result" where
  "primary_slots pt policy ty =
     (let partitions = sort_key p_number (get_partitions pt);
          used = List.map p_region (filter (\<lambda>p. p_type p \<noteq> LOGICAL) partitions) in
      ebind (has_usable_region pt) (\<lambda>has_usable.
        if \<not> has_usable then Inr []
        else
          ebind (get_usable_region pt) (\<lambda>usable.
          ebind (unused_regions usable used) (\<lambda>unused.
            efold (primary_slot_of pt (get_alignment pt ty) policy partitions used) unused []))))"

text \<open>
  The space for the EBRs: one before the new partition and, unless the unused region ends where
  the extended partition ends, one before the partition behind it.
\<close>

definition ebr_sectors :: "bool \<Rightarrow> u64" where
  "ebr_sectors at_end = (if at_end then 1 else 2) * num_ebrs"

definition logical_slot_of ::
  "ptable \<Rightarrow> alignment \<Rightarrow> align_policy \<Rightarrow> region \<Rightarrow> region
   \<Rightarrow> partition_slot list \<Rightarrow> partition_slot list result" where
  "logical_slot_of pt al policy ext r slots =
     ebind (get_end r) (\<lambda>e. ebind (get_end ext) (\<lambda>ee.
       let at_end = (e = ee) in
       if r_length r \<le> ebr_sectors at_end then Inr slots
       else
         ebind (adjust_start num_ebrs r) (\<lambda>r1.
         ebind (adjust_length (- ebr_sectors at_end) r1) (\<lambda>r2.
         ebind (align_region_in_place al r2 policy) (\<lambda>(ok, r').
           if \<not> ok then Inr slots
           else Inr (slots @
             [\<lparr>slot_region = r', slot_number = max_primary pt + num_logical pt + 1,
               primary_slot = False, primary_possible = False,
               extended_slot = False, extended_possible_slot = False,
               logical_slot = True, logical_possible = is_logical_possible pt\<rparr>]))))))"

definition logical_slots :: "ptable \<Rightarrow> align_policy \<Rightarrow> align_type \<Rightarrow> partition_slot list result" where
  "logical_slots pt policy ty =
     (let partitions = sort_key p_number (get_partitions pt);
          used = List.map p_region (filter (\<lambda>p. p_type p = LOGICAL) partitions) in
      if \<not> has_extended pt then Inr []
      else
        ebind (get_extended pt) (\<lambda>ext.
        ebind (unused_regions (p_region ext) used) (\<lambda>unused.
          efold (logical_slot_of pt (get_alignment pt ty) policy (p_region ext)) unused [])))"

definition get_unused_partition_slots ::
  "ptable \<Rightarrow> align_policy \<Rightarrow> align_type \<Rightarrow> partition_slot list result" where
  "get_unused_partition_slots pt policy ty =
     (if pt_type pt = IMPLICIT then Inr []
      else
        ebind (primary_slots pt policy ty) (\<lambda>ps.
        ebind (logical_slots pt policy ty) (\<lambda>ls. Inr (ps @ ls))))"

section \<open>Partitions and their numbers\<close>

text \<open>
  The check of \<open>DasdPt::check\<close>: in the order of the numbers each partition starts behind the one
  before.
\<close>

fun dasd_adjacent_ok :: "partition list \<Rightarrow> bool result" where
  "dasd_adjacent_ok [] = Inr True"
| "dasd_adjacent_ok [p] = Inr True"
| "dasd_adjacent_ok (p # q # ps) =
     ebind (region_less (p_region p) (p_region q)) (\<lambda>less.
       if less then dasd_adjacent_ok (q # ps) else Inr False)"

definition dasd_check :: "ptable \<Rightarrow> unit result" where
  "dasd_check pt =
     ebind (dasd_adjacent_ok (sort_key p_number (get_partitions pt))) (\<lambda>ok.
       if ok then Inr () else Inl (Exn ''partitions not ordered on DASD partition table''))"

definition primaries :: "ptable \<Rightarrow> partition list" where
  "primaries pt = filter (\<lambda>p. p_type p \<noteq> LOGICAL) (get_partitions pt)"

definition logicals :: "ptable \<Rightarrow> partition list" where
  "logicals pt = filter (\<lambda>p. p_type p = LOGICAL) (get_partitions pt)"

section \<open>Usable regions and slots\<close>

text \<open>
  The tables the theorems are about: the device starts at block 0 and has less than 2 ^ 63
  blocks of less than 2 ^ 32 bytes, the MBR gap is less than 2 ^ 63 bytes, and the partitions
  have valid regions with the block size of the device.
\<close>

definition dev_ok :: "ptable \<Rightarrow> bool" where
  "dev_ok pt \<longleftrightarrow>
     (let r = dev_region (pt_dev pt) in
      valid_region r \<and> r_start r = 0 \<and> unat (r_length r) < 2 ^ 63 \<and>
      unat (r_block_size r) < 2 ^ 32 \<and> unat (pt_minimal_mbr_gap pt) < 2 ^ 63)"

definition pt_ok :: "ptable \<Rightarrow> bool" where
  "pt_ok pt \<longleftrightarrow> dev_ok pt \<and> (\<forall>p \<in> set (get_partitions pt).
     valid_region (p_region p) \<and> equal_block_size (dev_region (pt_dev pt)) (p_region p))"

lemma dev_okD:
  assumes "dev_ok pt"
  defines "r \<equiv> dev_region (pt_dev pt)"
  shows "valid_region r" and "r_start r = 0" and "ucast (get_block_size32 r) = r_block_size r"
    and "unat (r_length r) < 2 ^ 63" and "unat (pt_minimal_mbr_gap pt) < 2 ^ 63"
  using assms by (auto simp: dev_ok_def Let_def get_block_size32_def ucast_ucast_small)

lemma unusable_sectors_bound:
  assumes ok: "dev_ok pt" and eq: "unusable_sectors pt = Inr (a, b)"
  shows "unat a + unat b < 18446744073709551616"
proof -
  note d = dev_okD [OF ok]
  let ?r = "dev_region (pt_dev pt)"
  show ?thesis
  proof (cases "pt_type pt")
    case MSDOS
    then have a: "a = max 1 (pt_minimal_mbr_gap pt div r_block_size ?r)"
      and b: "b = (if 4294967295 < r_length ?r then r_length ?r - 4294967295 else 0)"
      using eq d(1) by (auto simp: unusable_sectors_defs Let_def to_blocks_def valid_region_def)
    have "unat a \<le> max 1 (unat (pt_minimal_mbr_gap pt))"
      unfolding a by (simp add: unat_max unat_div max.coboundedI2)
    moreover have "unat b \<le> unat (r_length ?r)"
      unfolding b by (auto simp: word_nat unat_sub_no_wrap)
    ultimately show ?thesis using d(4,5) by (simp add: max_def split: if_splits)
  next
    case GPT
    define s where "s = (ucast (pt_partition_slots pt * 128) :: u64) div ucast (get_block_size32 ?r)"
    have "unat (ucast (pt_partition_slots pt * 128) :: u64) < 4294967296"
      by (simp only: unat_ucast_u32 unat_lt32)
    moreover have "unat s \<le> unat (ucast (pt_partition_slots pt * 128) :: u64)"
      by (simp add: s_def unat_div div_le_dividend)
    ultimately have s: "unat s < 4294967296" by linarith
    have ab: "a = 1 + (1 + s)" "b = 1 + s"
      using GPT eq by (auto simp: unusable_sectors_defs Let_def s_def split: if_splits)
    have "unat b = 1 + unat s" unfolding ab using s by (subst unat_add_no_wrap) auto
    moreover have "unat a = 1 + unat b"
      unfolding ab(1) ab(2) [symmetric] using s calculation by (subst unat_add_no_wrap) auto
    ultimately show ?thesis using s by simp
  next
    case DASD
    then show ?thesis using eq by (auto simp: unusable_sectors_defs sectors_per_track_def Let_def)
  next
    case IMPLICIT
    then show ?thesis using eq by (auto simp: unusable_sectors_defs Let_def split: if_splits)
  qed
qed

lemma usable_region_ok:
  assumes ok: "dev_ok pt" and eq: "get_usable_region pt = Inr u"
  shows "valid_region u" and "equal_block_size (dev_region (pt_dev pt)) u"
    and "blocks u \<subseteq> blocks (dev_region (pt_dev pt))"
proof -
  note d = dev_okD [OF ok]
  let ?r = "dev_region (pt_dev pt)"
  from eq obtain a b where ab: "unusable_sectors pt = Inr (a, b)" "\<not> r_length ?r \<le> a + b"
    and u: "region_new a (r_length ?r - (a + b)) (r_block_size ?r) = Inr u"
    by (auto simp: get_usable_region_def Let_def result_simps d(3) split: if_splits)
  have sum: "unat (a + b) = unat a + unat b"
    using unusable_sectors_bound [OF ok ab(1)] by (simp add: unat_add_no_wrap)
  then have lt: "unat a + unat b < unat (r_length ?r)" using ab(2) by (simp add: word_nat)
  have len: "unat (r_length ?r - (a + b)) = unat (r_length ?r) - (unat a + unat b)"
    using lt sum by (simp add: unat_sub_no_wrap)
  have "r_block_size ?r \<noteq> 0" using d(1) by (simp add: valid_region_def)
  then have "u = \<lparr>r_start = a, r_length = r_length ?r - (a + b), r_block_size = r_block_size ?r\<rparr>"
    using u by (simp add: region_new_def)
  then show "valid_region u" and "equal_block_size ?r u" and "blocks u \<subseteq> blocks ?r"
    using d(1,2,4) lt len by (auto simp: valid_region_def equal_block_size_def blocks_def)
qed

text \<open>
  A region where a primary or extended partition can be created: inside the usable region and
  free of primary and extended partitions; and the same for logical partitions.
\<close>

definition primary_place :: "ptable \<Rightarrow> region \<Rightarrow> bool" where
  "primary_place pt r \<longleftrightarrow>
     valid_region r \<and> equal_block_size (dev_region (pt_dev pt)) r \<and>
     (\<exists>u. get_usable_region pt = Inr u \<and> blocks r \<subseteq> blocks u) \<and>
     (\<forall>p \<in> set (primaries pt). blocks r \<inter> blocks (p_region p) = {})"

definition logical_place :: "ptable \<Rightarrow> region \<Rightarrow> bool" where
  "logical_place pt r \<longleftrightarrow>
     valid_region r \<and> equal_block_size (dev_region (pt_dev pt)) r \<and>
     (\<exists>e. get_extended pt = Inr e \<and> blocks r \<subseteq> blocks (p_region e)) \<and>
     (\<forall>p \<in> set (logicals pt). blocks r \<inter> blocks (p_region p) = {})"

text \<open>
  The room for the EBRs of a logical partition: the 128 blocks before it are free blocks of the
  extended partition, and so are the 128 blocks behind it unless it ends where the extended
  partition ends.
\<close>

definition ebr_room :: "ptable \<Rightarrow> region \<Rightarrow> bool" where
  "ebr_room pt r \<longleftrightarrow>
     (\<exists>e. get_extended pt = Inr e \<and>
        (let free = blocks (p_region e) - blocks_of (List.map p_region (logicals pt)) in
         128 \<le> unat (r_start r) \<and> {unat (r_start r) - 128 ..< unat (r_start r)} \<subseteq> free \<and>
         (last_block r = last_block (p_region e) \<or>
          {last_block r + 1 .. last_block r + 128} \<subseteq> free)))"

lemma set_logicals: "set (filter (\<lambda>p. p_type p = LOGICAL) (sort_key p_number (get_partitions pt)))
    = set (logicals pt)"
  by (simp add: logicals_def)

lemma set_primaries: "set (filter (\<lambda>p. p_type p \<noteq> LOGICAL) (sort_key p_number (get_partitions pt)))
    = set (primaries pt)"
  by (simp add: primaries_def)

lemma pt_ok_partition:
  assumes "pt_ok pt" and "p \<in> set (get_partitions pt)"
  shows "valid_region (p_region p)" and "equal_block_size (dev_region (pt_dev pt)) (p_region p)"
  using assms by (auto simp: pt_ok_def)

lemma pt_ok_compatible:
  assumes "pt_ok pt" and "equal_block_size (dev_region (pt_dev pt)) u"
    and "set ps \<subseteq> set (get_partitions pt)"
  shows "\<forall>r \<in> set (List.map p_region ps). compatible u r"
  using assms by (auto simp: pt_ok_def compatible_def equal_block_size_def)

lemma get_extended_in:
  "get_extended pt = Inr e \<Longrightarrow> e \<in> set (pt_children pt) \<and> p_type e = EXTENDED \<and> pt_type pt = MSDOS
     \<and> e \<in> set (get_partitions pt)"
  by (auto simp: get_extended_def get_partitions_def find_Some_iff list_ex_iff
      split: option.splits if_splits)

lemma primary_slot_of_cases:
  assumes "primary_slot_of pt al policy ps used r ss = Inr ss'"
  obtains "ss' = ss"
  | r' n where "align_region_in_place al r policy = Inr (True, r')"
      and "(if pt_type pt = DASD then emap (\<lambda>n. n + 1) (count_before r' used)
            else Inr (first_missing_number p_number ps 1)) = Inr n"
      and "ss' = ss @ [\<lparr>slot_region = r', slot_number = n,
             primary_slot = True, primary_possible = is_primary_possible pt,
             extended_slot = extended_possible pt,
             extended_possible_slot = is_extended_possible pt,
             logical_slot = False, logical_possible = False\<rparr>]"
proof (cases "align_region_in_place al r policy")
  case (Inl e)
  with assms show ?thesis by (simp add: primary_slot_of_def)
next
  case (Inr b)
  obtain ok r' where b: "b = (ok, r')" by (cases b)
  show ?thesis
  proof (cases ok)
    case False
    with assms Inr b that(1) show ?thesis by (simp add: primary_slot_of_def)
  next
    case True
    with assms Inr b that(2) show ?thesis
      by (simp add: primary_slot_of_def ebind_eq_Inr split del: if_split) blast
  qed
qed

lemma primary_slot_place:
  assumes ok: "pt_ok pt" and eq: "primary_slots pt ALIGN_START_KEEP_END ty = Inr slots"
    and slot: "slot \<in> set slots"
  shows "primary_slot slot \<and> \<not> logical_slot slot \<and> primary_place pt (slot_region slot)"
proof -
  define ps where "ps = sort_key p_number (get_partitions pt)"
  define used where "used = List.map p_region (filter (\<lambda>p. p_type p \<noteq> LOGICAL) ps)"
  have no_slots: "slots \<noteq> []" using slot by auto
  from eq no_slots obtain usable rs where u: "get_usable_region pt = Inr usable"
    and rs: "unused_regions usable used = Inr rs"
    and loop: "efold (primary_slot_of pt (get_alignment pt ty) ALIGN_START_KEEP_END ps used) rs []
      = Inr slots"
    by (auto simp: primary_slots_def Let_def result_simps ps_def used_def split: if_splits)
  have dev: "dev_ok pt" using ok by (simp add: pt_ok_def)
  note usable = usable_region_ok [OF dev u]
  have comp: "\<forall>r \<in> set used. compatible usable r"
    unfolding used_def by (rule pt_ok_compatible [OF ok usable(2)]) (auto simp: ps_def)
  let ?P = "\<lambda>ss. \<forall>s \<in> set ss. primary_slot s \<and> \<not> logical_slot s \<and> primary_place pt (slot_region s)"
  have "?P slots"
  proof (rule efold_invariant [OF loop])
    show "?P []" by simp
    fix r ss ss'
    assume r: "r \<in> set rs" and ss: "?P ss"
      and step: "primary_slot_of pt (get_alignment pt ty) ALIGN_START_KEEP_END ps used r ss = Inr ss'"
    have vr: "valid_region r" using free.unused_valid [OF usable(1) comp rs r] by simp
    show "?P ss'"
      using step
    proof (cases rule: primary_slot_of_cases)
      case 1
      with ss show ?thesis by simp
    next
      case a: (2 r' n)
      have "equal_block_size r r" by (simp add: equal_block_size_def)
      note p = keep_end.placed_usable [OF usable(1) comp rs r vr this subset_refl a(1)]
      have "p_region q \<in> set used" if "q \<in> set (primaries pt)" for q
        using that unfolding used_def ps_def set_map set_primaries by (rule imageI)
      then have "\<forall>q \<in> set (primaries pt). blocks r' \<inter> blocks (p_region q) = {}"
        using p(4) by simp
      moreover have "valid_region r' \<and> equal_block_size (dev_region (pt_dev pt)) r'"
        using p(1) usable(2) by (simp add: compatible_def equal_block_size_def)
      ultimately have "primary_place pt r'"
        using p(3) u by (simp add: primary_place_def)
      with a(3) ss show ?thesis by simp
    qed
  qed
  with slot show ?thesis by auto
qed

lemma ebr_adjust:
  assumes r: "valid_region r" and big: "ebr_sectors at_end < r_length r"
  shows "\<exists>r1 r2. adjust_start num_ebrs r = Inr r1 \<and> adjust_length (- ebr_sectors at_end) r1 = Inr r2
    \<and> valid_region r2 \<and> equal_block_size r r2 \<and> unat (r_start r2) = unat (r_start r) + 128
    \<and> last_block r2 + (if at_end then 0 else 128) = last_block r"
proof -
  have e: "unat (ebr_sectors at_end) = (if at_end then 128 else 256)"
    by (simp add: ebr_sectors_def num_ebrs_def)
  have gt: "(if at_end then 128 else 256) < unat (r_length r)" using big e by (simp add: word_nat)
  have bound: "unat (r_start r) + unat (r_length r) < 18446744073709551616"
    using r by (simp add: valid_region_def)
  define r1 where "r1 = r\<lparr>r_start := r_start r + num_ebrs\<rparr>"
  define r2 where "r2 = r1\<lparr>r_length := r_length r - ebr_sectors at_end\<rparr>"
  have start: "unat (r_start r + num_ebrs) = unat (r_start r) + 128"
    using gt bound by (subst unat_add_no_wrap) (auto simp: num_ebrs_def split: if_splits)
  have len: "unat (r_length r - ebr_sectors at_end)
      = unat (r_length r) - (if at_end then 128 else 256)"
    using gt e by (subst unat_sub_no_wrap) auto
  have a1: "adjust_start num_ebrs r = Inr r1"
    by (simp add: adjust_start_def adjust_out_of_range_def num_ebrs_def r1_def)
  have "\<not> r_length r < ebr_sectors at_end" using big by simp
  then have a2: "adjust_length (- ebr_sectors at_end) r1 = Inr r2"
    by (cases at_end)
      (simp_all add: adjust_length_def adjust_out_of_range_def ebr_sectors_def num_ebrs_def
        min_long_long_def r1_def r2_def)
  have "valid_region r2" and "equal_block_size r r2"
    using r gt start len bound
    by (auto simp: valid_region_def equal_block_size_def r1_def r2_def split: if_splits)
  moreover have "last_block r2 + (if at_end then 0 else 128) = last_block r"
    using gt start len by (simp add: last_block_def r1_def r2_def)
  ultimately show ?thesis using a1 a2 start by (auto simp: r1_def r2_def)
qed

lemma logical_slot_of_cases:
  assumes "logical_slot_of pt al policy ext r ss = Inr ss'"
    and r: "valid_region r" and ext: "valid_region ext"
  obtains "ss' = ss"
  | at_end r1 r2 r' where "at_end \<longleftrightarrow> last_block r = last_block ext"
      and "ebr_sectors at_end < r_length r"
      and "adjust_start num_ebrs r = Inr r1"
      and "adjust_length (- ebr_sectors at_end) r1 = Inr r2"
      and "align_region_in_place al r2 policy = Inr (True, r')"
      and "ss' = ss @ [\<lparr>slot_region = r', slot_number = max_primary pt + num_logical pt + 1,
             primary_slot = False, primary_possible = False,
             extended_slot = False, extended_possible_slot = False,
             logical_slot = True, logical_possible = is_logical_possible pt\<rparr>]"
proof -
  obtain e where e: "get_end r = Inr e" "unat e = last_block r" using get_end_valid [OF r] by auto
  obtain ee where ee: "get_end ext = Inr ee" "unat ee = last_block ext"
    using get_end_valid [OF ext] by auto
  define at_end where "at_end \<longleftrightarrow> e = ee"
  have at_end: "at_end \<longleftrightarrow> last_block r = last_block ext"
    using e ee by (simp add: at_end_def word_unat_eq_iff)
  show ?thesis
  proof (cases "ebr_sectors at_end < r_length r")
    case False
    then show ?thesis
      using assms(1) e ee that(1) by (simp add: logical_slot_of_def Let_def at_end_def not_less)
  next
    case True
    then have big: "\<not> r_length r \<le> ebr_sectors at_end" by simp
    then obtain r1 r2 b where adj: "adjust_start num_ebrs r = Inr r1"
      "adjust_length (- ebr_sectors at_end) r1 = Inr r2"
      and b: "align_region_in_place al r2 policy = Inr b"
      using assms(1) e ee
      by (auto simp: logical_slot_of_def Let_def at_end_def [symmetric] ebind_eq_Inr)
    obtain ok r' where b': "b = (ok, r')" by (cases b)
    show ?thesis
    proof (cases ok)
      case False
      then show ?thesis
        using assms(1) e ee big adj b b' that(1)
        by (simp add: logical_slot_of_def Let_def at_end_def [symmetric])
    next
      case ok: True
      then show ?thesis
        using assms(1) e ee big adj b b' that(2) [OF at_end True adj]
        by (simp add: logical_slot_of_def Let_def at_end_def [symmetric])
    qed
  qed
qed

text \<open>
  The region of a logical slot, from the unused region \<open>r\<close> of the extended partition it was cut
  out of: with \<open>ALIGN_START_KEEP_END\<close> it leaves at least 128 blocks of \<open>r\<close> before it and,
  unless \<open>r\<close> ends with the extended partition, exactly 128 blocks behind it.
\<close>

lemma logical_cut:
  assumes r: "valid_region r" and at_end: "at_end \<longleftrightarrow> last_block r = last_block ext"
    and big: "ebr_sectors at_end < r_length r"
    and r1: "adjust_start num_ebrs r = Inr r1"
    and r2: "adjust_length (- ebr_sectors at_end) r1 = Inr r2"
    and a: "align_region_in_place al r2 ALIGN_START_KEEP_END = Inr (True, r')"
  shows "valid_region r2" and "equal_block_size r r2" and "blocks r2 \<subseteq> blocks r"
    and "unat (r_start r) + 128 \<le> unat (r_start r')"
    and "last_block r' = last_block ext \<or> last_block r' + 128 = last_block r"
    and "last_block r' \<le> last_block r"
proof -
  obtain q1 q2 where q: "adjust_start num_ebrs r = Inr q1"
    "adjust_length (- ebr_sectors at_end) q1 = Inr q2"
    "valid_region q2" "equal_block_size r q2" "unat (r_start q2) = unat (r_start r) + 128"
    "last_block q2 + (if at_end then 0 else 128) = last_block r"
    using ebr_adjust [OF r big] by blast
  have "q2 = r2" using q(1,2) r1 r2 by simp
  note q = q [unfolded this]
  note k = align_keep_end [OF q(3) a]
  show "valid_region r2" and "equal_block_size r r2" by (fact q)+
  have lb: "last_block r2 \<le> last_block r" using q(6) by simp
  then show "blocks r2 \<subseteq> blocks r"
    using q(5) by (auto simp: blocks_atLeastAtMost [OF q(3)] blocks_atLeastAtMost [OF r])
  show "last_block r' \<le> last_block r" using k lb by simp
  show "last_block r' = last_block ext \<or> last_block r' + 128 = last_block r"
    using k q(6) at_end by (auto split: if_splits)
  have "unat (r_start r') \<in> blocks r2"
    using k start_le_last [of r'] in_blocks_iff [of r' "unat (r_start r')"] by auto
  then show "unat (r_start r) + 128 \<le> unat (r_start r')"
    using q(5) by (simp add: in_blocks_iff [OF q(3)])
qed

lemma logical_slot_place:
  assumes ok: "pt_ok pt" and eq: "logical_slots pt ALIGN_START_KEEP_END ty = Inr slots"
    and slot: "slot \<in> set slots"
  shows "logical_slot slot \<and> \<not> primary_slot slot \<and> logical_place pt (slot_region slot)
    \<and> ebr_room pt (slot_region slot)"
proof -
  define ps where "ps = sort_key p_number (get_partitions pt)"
  define used where "used = List.map p_region (filter (\<lambda>p. p_type p = LOGICAL) ps)"
  have no_slots: "slots \<noteq> []" using slot by auto
  from eq no_slots obtain ext rs where ext: "get_extended pt = Inr ext"
    and rs: "unused_regions (p_region ext) used = Inr rs"
    and loop: "efold (logical_slot_of pt (get_alignment pt ty) ALIGN_START_KEEP_END (p_region ext))
      rs [] = Inr slots"
    by (auto simp: logical_slots_def Let_def result_simps ps_def used_def split: if_splits)
  have e: "ext \<in> set (get_partitions pt)" using get_extended_in [OF ext] by simp
  note ve = pt_ok_partition [OF ok e]
  have comp: "\<forall>r \<in> set used. compatible (p_region ext) r"
    unfolding used_def by (rule pt_ok_compatible [OF ok ve(2)]) (auto simp: ps_def)
  have used: "set used = p_region ` set (logicals pt)"
    unfolding used_def ps_def set_map set_logicals by simp
  let ?P = "\<lambda>ss. \<forall>s \<in> set ss. logical_slot s \<and> \<not> primary_slot s
    \<and> logical_place pt (slot_region s) \<and> ebr_room pt (slot_region s)"
  have "?P slots"
  proof (rule efold_invariant [OF loop])
    show "?P []" by simp
    fix r ss ss'
    assume r: "r \<in> set rs" and ss: "?P ss" and step: "logical_slot_of pt (get_alignment pt ty)
      ALIGN_START_KEEP_END (p_region ext) r ss = Inr ss'"
    have vr: "valid_region r" using free.unused_valid [OF ve(1) comp rs r] by simp
    show "?P ss'"
      using step vr ve(1)
    proof (cases rule: logical_slot_of_cases)
      case 1
      with ss show ?thesis by simp
    next
      case a: (2 at_end r1 r2 r')
      note cut = logical_cut [OF vr a(1-5)]
      note p = keep_end.placed_usable [OF ve(1) comp rs r cut(1-3) a(5)]
      have "valid_region r' \<and> equal_block_size (dev_region (pt_dev pt)) r'"
        using p(1) ve(2) by (simp add: compatible_def equal_block_size_def)
      moreover have "\<forall>q \<in> set (logicals pt). blocks r' \<inter> blocks (p_region q) = {}"
        using p(4) used by simp
      ultimately have place: "logical_place pt r'" using p(3) ext by (auto simp: logical_place_def)
      define free where
        "free = blocks (p_region ext) - blocks_of (List.map p_region (logicals pt))"
      have sub: "blocks r \<subseteq> free"
        using free.unused_inside [OF ve(1) comp rs r] free.unused_disjoint [OF ve(1) comp rs r] used
        by (auto simp: free_def blocks_of_def)
      have "{unat (r_start r') - 128 ..< unat (r_start r')} \<subseteq> blocks r"
        using cut(4,6) start_le_last [of r'] p(1)
        by (auto simp: in_blocks_iff [OF vr] compatible_def)
      moreover have "{last_block r' + 1 .. last_block r' + 128} \<subseteq> blocks r"
        if "last_block r' + 128 = last_block r"
        using that cut(4) start_le_last [of r'] p(1)
        by (auto simp: in_blocks_iff [OF vr] compatible_def)
      ultimately have "last_block r' = last_block (p_region ext) \<or>
          {last_block r' + 1 .. last_block r' + 128} \<subseteq> free"
        and "{unat (r_start r') - 128 ..< unat (r_start r')} \<subseteq> free"
        using cut(5) sub by blast+
      then have "ebr_room pt r'"
        using cut(4) ext by (simp add: ebr_room_def Let_def free_def)
      with place a(6) ss show ?thesis by simp
    qed
  qed
  with slot show ?thesis by auto
qed

end
