(* ===== verification/MathUtil.thy ===== *)
theory MathUtil
  imports Prelude
begin

unbundle bit_operations_syntax

text \<open>
  The integer helpers of storage/Utils/Math.h and Math.cc on \<open>unsigned long long\<close>: powers of two,
  rounding and saturated subtraction.
\<close>

section \<open>Definitions\<close>

definition popcount :: "u64 \<Rightarrow> nat" where
  "popcount i = length (filter (bit i) [0..<64])"

definition is_power_of_two :: "u64 \<Rightarrow> bool" where
  "is_power_of_two i \<longleftrightarrow> popcount i = 1"

text \<open>The number of leading zeros; undefined for zero.\<close>

definition clz :: "u64 \<Rightarrow> nat result" where
  "clz i = (if i = 0 then Inl UndefinedBehaviour
     else Inr (length (takeWhile (\<lambda>n. \<not> bit i n) (rev [0..<64]))))"

text \<open>A shift by the width of the type is undefined.\<close>

definition shift_left :: "u64 \<Rightarrow> nat \<Rightarrow> u64 result" where
  "shift_left i n = (if 64 \<le> n then Inl UndefinedBehaviour else Inr (push_bit n i))"

definition next_power_of_two :: "u64 \<Rightarrow> u64 result" where
  "next_power_of_two i =
     (if i \<le> 1 then Inr 1 else ebind (clz (i - 1)) (\<lambda>n. shift_left 1 (64 - n)))"

definition is_multiple_of :: "u64 \<Rightarrow> u64 \<Rightarrow> bool result" where
  "is_multiple_of i j = (if j = 0 then Inl (Exn ''divisor is zero'') else Inr (i mod j = 0))"

definition round_down :: "u64 \<Rightarrow> u64 \<Rightarrow> u64 result" where
  "round_down i m = (if m = 0 then Inl (Exn ''divisor is zero'') else Inr (i - i mod m))"

definition round_up :: "u64 \<Rightarrow> u64 \<Rightarrow> u64 result" where
  "round_up i m =
     (if m = 0 then Inl (Exn ''divisor is zero'')
      else let r = i mod m in Inr (if r = 0 then i else i - r + m))"

definition subtract_saturated :: "u64 \<Rightarrow> u64 \<Rightarrow> u64" where
  "subtract_saturated a b = (if b < a then a - b else 0)"

definition clamp :: "u64 \<Rightarrow> u64 \<Rightarrow> u64 \<Rightarrow> u64" where
  "clamp v lo hi = (if v < lo then lo else if hi < v then hi else v)"

section \<open>Units\<close>

text \<open>From storage/Utils/HumanString.h.\<close>

definition KiB :: u64 where "KiB = 1024"
definition MiB :: u64 where "MiB = 1024 * KiB"
definition GiB :: u64 where "GiB = 1024 * MiB"
definition TiB :: u64 where "TiB = 1024 * GiB"
definition PiB :: u64 where "PiB = 1024 * TiB"
definition EiB :: u64 where "EiB = 1024 * PiB"

section \<open>Rounding\<close>

lemma unat_mod_word [word_nat]: "unat (a mod b) = unat a mod unat (b :: 'a::len word)"
  by (rule unat_mod)

lemma round_down_spec:
  assumes "m \<noteq> 0"
  shows "round_down i m = Inr (i - i mod m)" and "unat (i - i mod m) = unat i - unat i mod unat m"
  using assms by (simp_all add: round_down_def unat_sub_no_wrap unat_mod)

text \<open>The result of rounding up is at most 64 bits: beyond that it wraps to zero.\<close>

lemma round_up_spec:
  assumes m: "m \<noteq> 0" and fits: "up_to (unat m) (unat i) < 2 ^ 64"
  shows "\<exists>w. round_up i m = Inr w \<and> unat w = up_to (unat m) (unat i)"
proof (cases "i mod m = 0")
  case True
  then have "unat i mod unat m = 0" using unat_mod [of i m] by simp
  then show ?thesis using True m by (simp add: round_up_def up_to_def)
next
  case False
  then have r: "unat i mod unat m \<noteq> 0" using unat_mod [of i m] by (metis unat_eq_0)
  have m0: "0 < unat m" using m by (simp add: unat_gt_0)
  have le: "unat i mod unat m \<le> unat i" "unat i mod unat m < unat m" using m0 by simp_all
  have sub: "unat (i - i mod m) = unat i - unat i mod unat m"
    using round_down_spec(2) [OF m] .
  have "unat (i - i mod m) + unat m = up_to (unat m) (unat i)"
    using r le by (simp add: up_to_def sub)
  then have "unat (i - i mod m + m) = up_to (unat m) (unat i)"
    using fits by (subst unat_add_no_wrap) simp_all
  then show ?thesis using False m by (simp add: round_up_def Let_def)
qed

section \<open>Powers of two\<close>

lemma bit_bounds:
  fixes i :: u64
  assumes "bit i n" and "\<forall>m. n < m \<longrightarrow> m < 64 \<longrightarrow> \<not> bit i m"
  shows "2 ^ n \<le> unat i" and "unat i < 2 ^ Suc n"
proof -
  have n: "n < 64" using assms(1) bit_imp_le_length by fastforce
  have "take_bit (Suc n) i = i"
  proof (rule bit_eqI)
    fix m
    assume "possible_bit TYPE(u64) m"
    then have "m < 64" by simp
    then show "bit (take_bit (Suc n) i) m = bit i m"
      using assms(2) by (cases "m \<le> n") (auto simp: bit_take_bit_iff)
  qed
  then have "take_bit (Suc n) (unat i) = unat i" by (metis unsigned_take_bit_eq)
  then show "unat i < 2 ^ Suc n" by (metis take_bit_nat_less_exp)
  have "bit (unat i) n" using assms(1) by (simp add: bit_unsigned_iff)
  then show "2 ^ n \<le> unat i"
    by (metis bit_iff_odd div_less even_zero not_le)
qed

lemma takeWhile_rev_upt:
  assumes "\<exists>n < k. P n"
  shows "\<exists>n < k. P n \<and> (\<forall>m. n < m \<longrightarrow> m < k \<longrightarrow> \<not> P m) \<and>
    length (takeWhile (\<lambda>n. \<not> P n) (rev [0..<k])) = k - Suc n"
  using assms
proof (induction k)
  case 0
  then show ?case by simp
next
  case (Suc k)
  show ?case
  proof (cases "P k")
    case True
    then show ?thesis by (intro exI [of _ k]) simp
  next
    case False
    then have "\<exists>n < k. P n" using Suc.prems by (metis less_Suc_eq)
    from Suc.IH [OF this] obtain n where n: "n < k" "P n" "\<forall>m. n < m \<longrightarrow> m < k \<longrightarrow> \<not> P m"
      "length (takeWhile (\<lambda>n. \<not> P n) (rev [0..<k])) = k - Suc n" by blast
    then show ?thesis
      using False by (intro exI [of _ n]) (auto simp: less_Suc_eq)
  qed
qed

lemma clz_bounds:
  assumes "i \<noteq> 0"
  shows "\<exists>n < 64. clz i = Inr (63 - n) \<and> 2 ^ n \<le> unat i \<and> unat i < 2 ^ Suc n"
proof -
  obtain k where "bit i k" using assms by (metis bit_eqI bit_0_eq bot_apply bot_bool_def)
  then have "\<exists>n < 64. bit i n" using bit_imp_le_length by fastforce
  from takeWhile_rev_upt [OF this] obtain n where
    n: "n < 64" "bit i n" "\<forall>m. n < m \<longrightarrow> m < 64 \<longrightarrow> \<not> bit i m"
      "length (takeWhile (\<lambda>n. \<not> bit i n) (rev [0..<64])) = 64 - Suc n" by blast
  then have "clz i = Inr (63 - n)" using assms by (simp add: clz_def)
  then show ?thesis using n(1) bit_bounds [OF n(2,3)] by blast
qed

text \<open>Up to the greatest power of two that fits, the result is the least one not below.\<close>

lemma next_power_of_two_spec:
  assumes "unat i \<le> 2 ^ 63"
  shows "\<exists>n \<le> 63. next_power_of_two i = Inr (push_bit n 1) \<and> unat i \<le> 2 ^ n \<and>
    (\<forall>k. unat i \<le> 2 ^ k \<longrightarrow> n \<le> k)"
proof (cases "i \<le> 1")
  case True
  then show ?thesis by (intro exI [of _ 0]) (auto simp: next_power_of_two_def word_le_nat_alt)
next
  case False
  then have i: "1 < unat i" by (simp add: word_le_nat_alt)
  then have nz: "i - 1 \<noteq> 0" and un: "unat (i - 1) = unat i - 1"
    by (auto simp: unat_sub_no_wrap)
  obtain n where n: "n < 64" "clz (i - 1) = Inr (63 - n)" "2 ^ n \<le> unat i - 1" "unat i - 1 < 2 ^ Suc n"
    using clz_bounds [OF nz] un by auto
  have "(2 :: nat) ^ n < 2 ^ 63" using n(3) assms i by linarith
  then have n63: "n < 63" using power_less_imp_less_exp [of "2 :: nat" n 63] by simp
  have eq: "64 - (63 - n) = Suc n" using n(1) by simp
  have "next_power_of_two i = Inr (push_bit (Suc n) 1)"
    using False n(2) n63 by (simp add: next_power_of_two_def shift_left_def eq)
  moreover have "unat i \<le> 2 ^ k \<longrightarrow> Suc n \<le> k" for k
  proof
    assume "unat i \<le> 2 ^ k"
    then have "(2 :: nat) ^ n < 2 ^ k" using n(3) i by linarith
    then show "Suc n \<le> k" using power_less_imp_less_exp [of "2 :: nat" n k] by simp
  qed
  ultimately show ?thesis using n63 n(4) i by (intro exI [of _ "Suc n"]) auto
qed

lemma unat_push_bit_one: "n < 64 \<Longrightarrow> unat (push_bit n 1 :: u64) = 2 ^ n"
proof -
  assume n: "n < 64"
  have "(2 :: nat) ^ n < 2 ^ 64" by (rule power_strict_increasing [OF n]) simp
  then have "unat (word_of_nat (2 ^ n) :: u64) = 2 ^ n" by (intro unat_word_of_nat) simp
  then show ?thesis by (simp add: push_bit_eq_mult)
qed

lemma bit_push_bit_one: "m < 64 \<Longrightarrow> bit (push_bit n 1 :: u64) m \<longleftrightarrow> m = n"
  by (auto simp: bit_exp_iff)

lemma is_power_of_two_push_bit:
  assumes "n < 64"
  shows "is_power_of_two (push_bit n 1)"
proof -
  have "set (filter (bit (push_bit n 1 :: u64)) [0..<64]) = {n}"
    using assms by (auto simp only: set_filter set_upt bit_push_bit_one atLeastLessThan_iff)
  then have "card (set (filter (bit (push_bit n 1 :: u64)) [0..<64])) = 1"
    by (simp only: card.insert finite.emptyI empty_iff card.empty not_False_eq_True One_nat_def)
  then show ?thesis
    unfolding is_power_of_two_def popcount_def
    by (simp only: distinct_card [OF distinct_filter [OF distinct_upt]])
qed

text \<open>A power of two has a single bit.\<close>

lemma is_power_of_two_iff: "is_power_of_two i \<longleftrightarrow> (\<exists>n < 64. i = push_bit n 1)"
proof
  assume "is_power_of_two i"
  then have "length (filter (bit i) [0..<64]) = 1" by (simp add: is_power_of_two_def popcount_def)
  then obtain n where "filter (bit i) [0..<64] = [n]" by (metis One_nat_def length_0_conv length_Suc_conv)
  then have "set (filter (bit i) [0..<64]) = {n}" by simp
  then have n: "m < 64 \<and> bit i m \<longleftrightarrow> m = n" for m by (auto simp: set_eq_iff)
  have "n < 64" using n [of n] by blast
  moreover have "i = push_bit n 1"
  proof (rule bit_eqI)
    fix m
    assume "possible_bit TYPE(u64) m"
    then have "m < 64" by simp
    then show "bit i m = bit (push_bit n 1 :: u64) m"
      using n [of m] bit_push_bit_one by blast
  qed
  ultimately show "\<exists>n < 64. i = push_bit n 1" by blast
next
  assume "\<exists>n < 64. i = push_bit n 1"
  then show "is_power_of_two i" using is_power_of_two_push_bit by blast
qed

text \<open>Above that the shift is by the width of the type.\<close>

lemma next_power_of_two_overflow:
  assumes "2 ^ 63 < unat i"
  shows "next_power_of_two i = Inl UndefinedBehaviour"
proof -
  have i: "\<not> i \<le> 1" using assms by (simp add: word_le_nat_alt)
  have un: "unat (i - 1) = unat i - 1" using assms by (simp add: unat_sub_no_wrap)
  have nz: "i - 1 \<noteq> 0"
  proof
    assume "i - 1 = 0"
    then show False using un assms by simp
  qed
  obtain n where n: "n < 64" "clz (i - 1) = Inr (63 - n)" "unat i - 1 < 2 ^ Suc n"
    using clz_bounds [OF nz] un by auto
  have "(2 :: nat) ^ 63 < 2 ^ Suc n" using n(3) assms by linarith
  then have "n = 63" using power_less_imp_less_exp [of "2 :: nat" 63 "Suc n"] n(1) by simp
  then show ?thesis using i n(2) by (simp add: next_power_of_two_def shift_left_def)
qed

text \<open>
  The next power of two is the least one that is not below the argument; for every argument
  above the greatest power of two of the type the shift is by the width of the type, which is
  undefined.
\<close>

theorem next_power_of_two_least:
  "case next_power_of_two i of
     Inr w \<Rightarrow> unat i \<le> 2 ^ 63 \<and> is_power_of_two w \<and> unat w = 2 ^ (LEAST k. unat i \<le> 2 ^ k)
   | Inl e \<Rightarrow> e = UndefinedBehaviour \<and> 2 ^ 63 < unat i"
proof (cases "unat i \<le> 2 ^ 63")
  case True
  from next_power_of_two_spec [OF True] obtain n where
    n: "n \<le> 63" "next_power_of_two i = Inr (push_bit n 1)" "unat i \<le> 2 ^ n" "\<And>k. unat i \<le> 2 ^ k \<Longrightarrow> n \<le> k"
    by blast
  have "(LEAST k. unat i \<le> 2 ^ k) = n" by (rule Least_equality) (fact n(3,4))+
  moreover have "is_power_of_two (push_bit n 1)" using n(1) by (intro is_power_of_two_push_bit) simp
  moreover have "unat (push_bit n 1 :: u64) = 2 ^ n" using n(1) by (intro unat_push_bit_one) simp
  ultimately show ?thesis unfolding n(2) using True by (simp only: sum.case simp_thms)
next
  case False
  then show ?thesis using next_power_of_two_overflow [of i] by simp
qed

end
