(* ===== verification/ResizeInfo.thy ===== *)
theory ResizeInfo
  imports MathUtil Alignment
begin

text \<open>
  The limits of a resize (storage/FreeInfo.cc): the least and the greatest size, the block size
  both are multiples of, and the reasons why it is limited. Limits of a device and of what is on
  it are combined.
\<close>

section \<open>Definitions\<close>

record resize_info =
  resize_ok :: bool
  reasons :: u32
  min_size :: u64
  max_size :: u64
  ri_block_size :: u64

definition RB_MIN_MAX_ERROR :: u32 where
  "RB_MIN_MAX_ERROR = 2"

definition RB_RESIZE_NOT_SUPPORTED_BY_DEVICE :: u32 where
  "RB_RESIZE_NOT_SUPPORTED_BY_DEVICE = 1"

definition RB_SHRINK_NOT_SUPPORTED_FOR_LVM_LV_TYPE :: u32 where
  "RB_SHRINK_NOT_SUPPORTED_FOR_LVM_LV_TYPE = push_bit 12 1"

definition RB_RESIZE_NOT_SUPPORTED_FOR_LVM_LV_TYPE :: u32 where
  "RB_RESIZE_NOT_SUPPORTED_FOR_LVM_LV_TYPE = push_bit 13 1"

definition RB_NO_SPACE_IN_LVM_VG :: u32 where
  "RB_NO_SPACE_IN_LVM_VG = push_bit 14 1"

definition RB_MIN_SIZE_FOR_LVM_LV :: u32 where
  "RB_MIN_SIZE_FOR_LVM_LV = push_bit 15 1"

definition RB_MAX_SIZE_FOR_LVM_LV_THIN :: u32 where
  "RB_MAX_SIZE_FOR_LVM_LV_THIN = push_bit 16 1"

definition RB_RESIZE_NOT_SUPPORTED_DUE_TO_SNAPSHOTS :: u32 where
  "RB_RESIZE_NOT_SUPPORTED_DUE_TO_SNAPSHOTS = push_bit 19 1"

definition add_reason :: "u32 \<Rightarrow> resize_info \<Rightarrow> resize_info" where
  "add_reason r ri = ri\<lparr>reasons := or (reasons ri) r\<rparr>"

definition ri_check :: "resize_info \<Rightarrow> resize_info result" where
  "ri_check ri =
     ebind (round_up (min_size ri) (ri_block_size ri)) (\<lambda>lo.
     ebind (round_down (max_size ri) (ri_block_size ri)) (\<lambda>hi.
       let ri = ri\<lparr>min_size := lo, max_size := hi\<rparr>
       in Inr (if hi \<le> lo then add_reason RB_MIN_MAX_ERROR (ri\<lparr>resize_ok := False\<rparr>) else ri)))"

definition resize_info_new :: "bool \<Rightarrow> u32 \<Rightarrow> u64 \<Rightarrow> u64 \<Rightarrow> resize_info result" where
  "resize_info_new ok r lo hi =
     ri_check \<lparr>resize_ok = ok, reasons = r, min_size = lo, max_size = hi, ri_block_size = 1\<rparr>"

definition resize_info_any :: "bool \<Rightarrow> u32 \<Rightarrow> resize_info result" where
  "resize_info_any ok r = resize_info_new ok r 0 (- 1)"

definition combine_min :: "u64 \<Rightarrow> resize_info \<Rightarrow> resize_info result" where
  "combine_min lo ri = ri_check (ri\<lparr>min_size := max (min_size ri) lo\<rparr>)"

definition combine_max :: "u64 \<Rightarrow> resize_info \<Rightarrow> resize_info result" where
  "combine_max hi ri = ri_check (ri\<lparr>max_size := min (max_size ri) hi\<rparr>)"

definition combine_block_size :: "u64 \<Rightarrow> resize_info \<Rightarrow> resize_info result" where
  "combine_block_size b ri = ri_check (ri\<lparr>ri_block_size := lcm_u64 (ri_block_size ri) b\<rparr>)"

definition ri_combine :: "resize_info \<Rightarrow> resize_info \<Rightarrow> resize_info result" where
  "ri_combine ri extra =
     (let ri = ri\<lparr>resize_ok := resize_ok ri \<and> resize_ok extra, reasons := or (reasons ri) (reasons extra)\<rparr>
      in ebind (combine_min (min_size extra) ri) (\<lambda>ri.
         ebind (combine_max (max_size extra) ri) (\<lambda>ri.
         ebind (combine_block_size (ri_block_size extra) ri) ri_check)))"

text \<open>The sums saturate.\<close>

definition shifted :: "u64 \<Rightarrow> u64 \<Rightarrow> u64" where
  "shifted offset s = (if s + offset < offset then - 1 else s + offset)"

definition ri_shift :: "u64 \<Rightarrow> resize_info \<Rightarrow> resize_info result" where
  "ri_shift offset ri =
     ri_check (ri\<lparr>min_size := shifted offset (min_size ri), max_size := shifted offset (max_size ri)\<rparr>)"

section \<open>The sizes that are allowed\<close>

definition allowed :: "resize_info \<Rightarrow> nat \<Rightarrow> bool" where
  "allowed ri s \<longleftrightarrow> unat (min_size ri) \<le> s \<and> s \<le> unat (max_size ri) \<and> unat (ri_block_size ri) dvd s"

text \<open>
  The check keeps the allowed sizes as long as the least size can be rounded up within 64 bits.
\<close>

lemma ri_check_allowed:
  assumes b: "ri_block_size ri \<noteq> 0" and fits: "up_to (unat (ri_block_size ri)) (unat (min_size ri)) < 2 ^ 64"
  shows "\<exists>ri'. ri_check ri = Inr ri' \<and> ri_block_size ri' = ri_block_size ri \<and>
    unat (min_size ri') = up_to (unat (ri_block_size ri)) (unat (min_size ri)) \<and>
    (\<forall>s. allowed ri' s \<longleftrightarrow> allowed ri s) \<and>
    (resize_ok ri' \<longleftrightarrow> resize_ok ri \<and> (\<exists>s t. s < t \<and> allowed ri s \<and> allowed ri t))"
proof -
  let ?b = "unat (ri_block_size ri)" and ?lo = "unat (min_size ri)" and ?hi = "unat (max_size ri)"
  have b0: "0 < ?b" using b by (simp add: unat_gt_0)
  obtain lo where lo: "round_up (min_size ri) (ri_block_size ri) = Inr lo" "unat lo = up_to ?b ?lo"
    using round_up_spec [OF b fits] by blast
  define hi where "hi = max_size ri - max_size ri mod ri_block_size ri"
  have hi: "round_down (max_size ri) (ri_block_size ri) = Inr hi" "unat hi = ?hi - ?hi mod ?b"
    using round_down_spec [OF b, of "max_size ri"] by (simp_all add: hi_def)
  have same: "unat lo \<le> s \<and> s \<le> unat hi \<and> ?b dvd s \<longleftrightarrow> allowed ri s" for s
  proof -
    have "unat lo \<le> s \<longleftrightarrow> ?lo \<le> s" if "?b dvd s"
      using up_to_le [OF b0 that] up_to_ge [of ?lo ?b] lo(2) by (auto intro: le_trans)
    moreover have "s \<le> unat hi \<longleftrightarrow> s \<le> ?hi" if "?b dvd s"
      using down_ge [OF that, of ?hi] hi(2) by auto
    ultimately show ?thesis unfolding allowed_def by blast
  qed
  have ends: "?b dvd unat lo" "?b dvd unat hi"
    unfolding lo(2) hi(2) using up_to_dvd [OF b0] down_dvd by blast+
  have wide: "\<not> hi \<le> lo \<longleftrightarrow> (\<exists>s t. s < t \<and> allowed ri s \<and> allowed ri t)"
  proof
    assume "\<not> hi \<le> lo"
    then have "unat lo < unat hi" by (simp add: word_le_nat_alt)
    then show "\<exists>s t. s < t \<and> allowed ri s \<and> allowed ri t"
      unfolding same [symmetric] using ends by (intro exI [of _ "unat lo"] exI [of _ "unat hi"]) simp
  next
    assume "\<exists>s t. s < t \<and> allowed ri s \<and> allowed ri t"
    then show "\<not> hi \<le> lo" unfolding same [symmetric] word_le_nat_alt by auto
  qed
  define ri1 where "ri1 = ri\<lparr>min_size := lo, max_size := hi\<rparr>"
  define ri' where "ri' = (if hi \<le> lo then add_reason RB_MIN_MAX_ERROR (ri1\<lparr>resize_ok := False\<rparr>) else ri1)"
  have eq: "ri_check ri = Inr ri'" by (simp add: ri_check_def lo(1) hi(1) ri'_def ri1_def Let_def)
  have f: "min_size ri' = lo" "max_size ri' = hi" "ri_block_size ri' = ri_block_size ri"
    "resize_ok ri' \<longleftrightarrow> resize_ok ri \<and> \<not> hi \<le> lo"
    by (simp_all add: ri'_def ri1_def add_reason_def)
  have "allowed ri' s \<longleftrightarrow> allowed ri s" for s
    unfolding same [symmetric] by (simp add: allowed_def f)
  then show ?thesis using eq f lo(2) wide by (intro exI [of _ ri']) simp
qed

lemma unat_lcm_u64:
  assumes "lcm (unat a) (unat b) < 2 ^ 64"
  shows "unat (lcm_u64 a b) = lcm (unat a) (unat b)"
  using assms by (simp add: lcm_u64_def unat_word_of_nat)

lemma up_to_up_to:
  assumes "0 < b" and "b dvd l" and "0 < l"
  shows "up_to l (up_to b x) = up_to l x"
proof (rule antisym)
  have "up_to b x \<le> up_to l x"
    by (rule up_to_le [OF assms(1) dvd_trans [OF assms(2) up_to_dvd [OF assms(3)]] up_to_ge])
  then show "up_to l (up_to b x) \<le> up_to l x" by (rule up_to_le [OF assms(3) up_to_dvd [OF assms(3)]])
  have "x \<le> up_to l (up_to b x)" using up_to_ge [of x b] up_to_ge [of "up_to b x" l] by simp
  then show "up_to l x \<le> up_to l (up_to b x)" by (rule up_to_le [OF assms(3) up_to_dvd [OF assms(3)]])
qed

text \<open>What each step of a combination does to the allowed sizes.\<close>

lemma combine_min_allowed:
  assumes "ri_block_size ri \<noteq> 0"
    and "up_to (unat (ri_block_size ri)) (max (unat (min_size ri)) (unat lo)) < 2 ^ 64"
  shows "\<exists>r. combine_min lo ri = Inr r \<and> ri_block_size r = ri_block_size ri \<and>
    unat (min_size r) = up_to (unat (ri_block_size ri)) (max (unat (min_size ri)) (unat lo)) \<and>
    (\<forall>s. allowed r s \<longleftrightarrow> allowed ri s \<and> unat lo \<le> s) \<and> (resize_ok r \<longrightarrow> resize_ok ri)"
proof -
  let ?a = "ri\<lparr>min_size := max (min_size ri) lo\<rparr>"
  have "allowed ?a s \<longleftrightarrow> allowed ri s \<and> unat lo \<le> s" for s
    by (auto simp: allowed_def unat_max)
  then show ?thesis
    using ri_check_allowed [of ?a] assms by (auto simp: combine_min_def unat_max)
qed

lemma combine_max_allowed:
  assumes "ri_block_size ri \<noteq> 0" and "up_to (unat (ri_block_size ri)) (unat (min_size ri)) < 2 ^ 64"
  shows "\<exists>r. combine_max hi ri = Inr r \<and> ri_block_size r = ri_block_size ri \<and>
    unat (min_size r) = up_to (unat (ri_block_size ri)) (unat (min_size ri)) \<and>
    (\<forall>s. allowed r s \<longleftrightarrow> allowed ri s \<and> s \<le> unat hi) \<and> (resize_ok r \<longrightarrow> resize_ok ri)"
proof -
  let ?a = "ri\<lparr>max_size := min (max_size ri) hi\<rparr>"
  have "allowed ?a s \<longleftrightarrow> allowed ri s \<and> s \<le> unat hi" for s
    by (auto simp: allowed_def unat_min)
  then show ?thesis
    using ri_check_allowed [of ?a] assms by (auto simp: combine_max_def)
qed

lemma combine_block_size_allowed:
  fixes ri :: resize_info and b :: u64
  defines "l \<equiv> lcm (unat (ri_block_size ri)) (unat b)"
  assumes "0 < l" and "l < 2 ^ 64" and "up_to l (unat (min_size ri)) < 2 ^ 64"
  shows "\<exists>r. combine_block_size b ri = Inr r \<and> unat (ri_block_size r) = l \<and>
    unat (min_size r) = up_to l (unat (min_size ri)) \<and>
    (\<forall>s. allowed r s \<longleftrightarrow> allowed ri s \<and> unat b dvd s) \<and> (resize_ok r \<longrightarrow> resize_ok ri)"
proof -
  let ?a = "ri\<lparr>ri_block_size := lcm_u64 (ri_block_size ri) b\<rparr>"
  have u: "unat (lcm_u64 (ri_block_size ri) b) = l" using assms(3) unat_lcm_u64 by (simp add: l_def)
  have nz: "lcm_u64 (ri_block_size ri) b \<noteq> 0" using u assms(2) by auto
  have "allowed ?a s \<longleftrightarrow> allowed ri s \<and> unat b dvd s" for s
    by (auto simp: allowed_def u) (auto simp: l_def lcm_least)
  then show ?thesis
    using ri_check_allowed [of ?a] assms(4) u nz by (auto simp: combine_block_size_def)
qed

text \<open>
  Combining two limits allows exactly the sizes both allow, and a resize is possible after it
  only when it is for both and at least two sizes are left, provided the common block size and
  the least size fit into 64 bits.
\<close>

theorem combine_is_intersection:
  fixes ri extra :: resize_info
  defines "l \<equiv> lcm (unat (ri_block_size ri)) (unat (ri_block_size extra))"
  assumes "ri_block_size ri \<noteq> 0" and "ri_block_size extra \<noteq> 0" and "l < 2 ^ 64"
    and "up_to l (max (unat (min_size ri)) (unat (min_size extra))) < 2 ^ 64"
  shows "\<exists>ri'. ri_combine ri extra = Inr ri' \<and>
    (\<forall>s. allowed ri' s \<longleftrightarrow> allowed ri s \<and> allowed extra s) \<and>
    (resize_ok ri' \<longrightarrow> resize_ok ri \<and> resize_ok extra \<and>
       (\<exists>s t. s < t \<and> allowed ri s \<and> allowed extra s \<and> allowed ri t \<and> allowed extra t))"
proof -
  let ?b = "unat (ri_block_size ri)" and ?m = "max (unat (min_size ri)) (unat (min_size extra))"
  have b: "0 < ?b" "0 < unat (ri_block_size extra)" using assms(2,3) by (simp_all add: unat_gt_0)
  then have l0: "0 < l" by (simp add: l_def lcm_pos_nat)
  have bl: "?b dvd l" by (simp add: l_def)
  have le: "up_to ?b ?m < 2 ^ 64"
    using up_to_le [OF b(1) dvd_trans [OF bl up_to_dvd [OF l0]] up_to_ge, of ?m] assms(5) by linarith
  have again: "up_to ?b (up_to ?b ?m) = up_to ?b ?m" "up_to l (up_to l ?m) = up_to l ?m"
    "up_to l (up_to ?b ?m) = up_to l ?m"
    using up_to_multiple [OF up_to_dvd [OF b(1)]] up_to_multiple [OF up_to_dvd [OF l0]]
      up_to_up_to [OF b(1) bl l0] by blast+
  define r0 where "r0 = ri\<lparr>resize_ok := resize_ok ri \<and> resize_ok extra, reasons := or (reasons ri) (reasons extra)\<rparr>"
  have r0: "ri_block_size r0 = ri_block_size ri" "min_size r0 = min_size ri" "allowed r0 s \<longleftrightarrow> allowed ri s"
    "resize_ok r0 \<longleftrightarrow> resize_ok ri \<and> resize_ok extra" for s
    by (simp_all add: r0_def allowed_def)
  obtain r1 where r1: "combine_min (min_size extra) r0 = Inr r1" "ri_block_size r1 = ri_block_size ri"
    "unat (min_size r1) = up_to ?b ?m" "\<And>s. allowed r1 s \<longleftrightarrow> allowed ri s \<and> unat (min_size extra) \<le> s"
    "resize_ok r1 \<longrightarrow> resize_ok r0"
    using combine_min_allowed [of r0 "min_size extra"] assms(2) le r0 by auto
  obtain r2 where r2: "combine_max (max_size extra) r1 = Inr r2" "ri_block_size r2 = ri_block_size ri"
    "unat (min_size r2) = up_to ?b ?m" "\<And>s. allowed r2 s \<longleftrightarrow> allowed r1 s \<and> s \<le> unat (max_size extra)"
    "resize_ok r2 \<longrightarrow> resize_ok r1"
    using combine_max_allowed [of r1 "max_size extra"] assms(2) le r1 again(1) by auto
  obtain r3 where r3: "combine_block_size (ri_block_size extra) r2 = Inr r3" "unat (ri_block_size r3) = l"
    "unat (min_size r3) = up_to l ?m" "\<And>s. allowed r3 s \<longleftrightarrow> allowed r2 s \<and> unat (ri_block_size extra) dvd s"
    "resize_ok r3 \<longrightarrow> resize_ok r2"
    using combine_block_size_allowed [of r2 "ri_block_size extra"] assms(4,5) r2(2,3) again(3) l0
    unfolding l_def [symmetric] by (auto simp: l_def)
  have all3: "allowed r3 s \<longleftrightarrow> allowed ri s \<and> allowed extra s" for s
    unfolding r3(4) r2(4) r1(4) by (auto simp: allowed_def)
  have "ri_block_size r3 \<noteq> 0" using r3(2) l0 by auto
  then obtain r4 where r4: "ri_check r3 = Inr r4" "\<And>s. allowed r4 s \<longleftrightarrow> allowed r3 s"
    "resize_ok r4 \<longleftrightarrow> resize_ok r3 \<and> (\<exists>s t. s < t \<and> allowed r3 s \<and> allowed r3 t)"
    using ri_check_allowed [of r3] assms(5) unfolding r3(2,3) again(2) by blast
  have "ri_combine ri extra = Inr r4"
    by (simp add: ri_combine_def r0_def [symmetric] r1(1) r2(1) r3(1) r4(1))
  then show ?thesis using r4(2,3) all3 r0(4) r1(5) r2(5) r3(5) by (intro exI [of _ r4]) blast
qed

text \<open>A partition of at least 4 KiB in blocks of 512 bytes with a file system of at most 20 blocks of 1 KiB.\<close>

theorem combine_is_intersection_witness:
  "\<exists>ri'. ri_combine \<lparr>resize_ok = True, reasons = 0, min_size = 4096, max_size = 1048576, ri_block_size = 512\<rparr>
      \<lparr>resize_ok = True, reasons = 0, min_size = 0, max_size = 20480, ri_block_size = 1024\<rparr> = Inr ri' \<and>
    allowed ri' 5120 \<and> \<not> allowed ri' 4608"
proof -
  let ?a = "\<lparr>resize_ok = True, reasons = 0, min_size = 4096, max_size = 1048576, ri_block_size = 512\<rparr>"
  let ?b = "\<lparr>resize_ok = True, reasons = 0, min_size = 0, max_size = 20480, ri_block_size = 1024\<rparr>"
  have l: "lcm (512 :: nat) 1024 = 1024" by (simp add: lcm_nat_def)
  have h: "lcm (unat (ri_block_size ?a)) (unat (ri_block_size ?b)) < 2 ^ 64"
    "up_to (lcm (unat (ri_block_size ?a)) (unat (ri_block_size ?b))) (max (unat (min_size ?a)) (unat (min_size ?b))) < 2 ^ 64"
    by (simp_all add: l up_to_def)
  have nz: "ri_block_size ?a \<noteq> 0" "ri_block_size ?b \<noteq> 0" by simp_all
  obtain ri' where ri': "ri_combine ?a ?b = Inr ri'" "\<forall>s. allowed ri' s \<longleftrightarrow> allowed ?a s \<and> allowed ?b s"
    using combine_is_intersection [OF nz h] by blast
  have "allowed ?a 5120 \<and> allowed ?b 5120" "\<not> allowed ?b 4608"
    by (simp_all add: allowed_def)
  then show ?thesis using ri' by blast
qed

text \<open>
  A least size that is beyond 64 bits after a shift saturates, but is then rounded up to the
  block size: with blocks of a power of two it becomes zero.
\<close>

theorem saturated_shift_wraps:
  assumes "2 ^ 64 \<le> unat (min_size ri) + unat offset" and "ri_shift offset ri = Inr ri'"
    and "unat (ri_block_size ri) = 2 ^ n" and "0 < n"
  shows "min_size ri' = 0"
proof -
  let ?b = "ri_block_size ri"
  have n: "n < 64"
    using unat_lt64 [of ?b] assms(3) power_less_imp_less_exp [of "2 :: nat" n 64] by simp
  have wrap: "(x + y) mod m = x + y - m" if "m \<le> x + y" "x < m" "y < m" for x y m :: nat
    using that by (simp add: mod_if)
  have "unat (min_size ri + offset) = unat (min_size ri) + unat offset - 2 ^ 64"
    using wrap [of "2 ^ 64" "unat (min_size ri)" "unat offset"] assms(1) unat_lt64 [of "min_size ri"]
      unat_lt64 [of offset] by (simp add: unat_word_ariths)
  then have "unat (min_size ri + offset) < unat offset"
    using assms(1) by (simp add: less_diff_conv2)
  then have "min_size ri + offset < offset" by (simp add: word_less_nat_alt)
  then have sat: "shifted offset (min_size ri) = - 1" by (simp add: shifted_def)
  have dv: "unat ?b dvd 2 ^ 64" unfolding assms(3) by (rule le_imp_power_dvd) (use n in simp)
  have b2: "2 \<le> unat ?b" using assms(3,4) by (cases n) auto
  obtain k where k: "2 ^ 64 = unat ?b * k" using dv unfolding dvd_def by blast
  then have k0: "0 < k" by (cases k) auto
  have "(2 ^ 64 - 1 :: nat) = unat ?b * (k - 1) + (unat ?b - 1)"
    using k k0 b2 by (cases k) (auto simp: algebra_simps)
  then have "(2 ^ 64 - 1) mod unat ?b = unat ?b - 1"
    using b2 by (metis mod_mult_self4 mod_less diff_less less_le_trans zero_less_numeral zero_less_one)
  moreover have "unat (- 1 :: u64) = 2 ^ 64 - 1" by (simp add: unsigned_minus_1_eq_mask mask_eq_exp_minus_1)
  ultimately have "unat (- 1 :: u64) mod unat ?b = unat ?b - 1" by (simp only:)
  then have m: "(- 1) mod ?b = ?b - 1"
    using b2 by (simp add: word_unat_eq_iff unat_mod unat_sub_no_wrap)
  have "?b - 1 \<noteq> 0" using b2 by (auto simp: word_unat_eq_iff unat_sub_no_wrap)
  moreover have "?b \<noteq> 0" using b2 by auto
  ultimately have "round_up (- 1) ?b = Inr 0"
    by (simp add: round_up_def m)
  then show ?thesis
    using assms(2) by (auto simp: ri_shift_def ri_check_def sat result_simps Let_def add_reason_def split: if_splits)
qed

theorem saturated_shift_wraps_witness:
  "ri_shift 1024 \<lparr>resize_ok = True, reasons = 0, min_size = - 512, max_size = - 1, ri_block_size = 512\<rparr> =
     Inr \<lparr>resize_ok = True, reasons = 0, min_size = 0, max_size = - 512, ri_block_size = 512\<rparr>"
proof -
  let ?r = "\<lparr>resize_ok = True, reasons = 0, min_size = - 512, max_size = - 1, ri_block_size = 512\<rparr>"
  have eq: "ri_shift 1024 ?r = Inr \<lparr>resize_ok = True, reasons = 0, min_size = 0, max_size = - 512, ri_block_size = 512\<rparr>"
    by code_simp
  have "unat (- 512 :: u64) = 18446744073709551104" by simp
  then have "min_size \<lparr>resize_ok = True, reasons = 0, min_size = 0, max_size = - 512, ri_block_size = 512\<rparr> = (0 :: u64)"
    by (intro saturated_shift_wraps [OF _ eq, of 9]) simp_all
  then show ?thesis using eq by simp
qed

end
