(* ===== verification/Partitions.thy ===== *)
theory Partitions
  imports PartitionTable ResizeInfo
begin

text \<open>
  Operations of a single partition (storage/Devices/PartitionImpl.cc): the unused space around it,
  the limits of a resize, a new region, its id and boot flag, whether it may be removed, and the
  commands that give it the wanted number.
\<close>

section \<open>The unused space around a partition\<close>

text \<open>
  One step of the loop over the partitions: the partition \<open>q\<close> limits the start or the end of the
  space around the region \<open>r\<close>.
\<close>

definition narrow_step :: "region \<Rightarrow> partition \<Rightarrow> u64 \<times> u64 \<Rightarrow> (u64 \<times> u64) result" where
  "narrow_step r q st =
     ebind (get_end (p_region q)) (\<lambda>qe. ebind (get_end r) (\<lambda>re.
       Inr (if qe < r_start r then max (fst st) (qe + 1) else fst st,
            if re < r_start (p_region q) then min (snd st) (r_start (p_region q) - 1) else snd st)))"

definition primary_surrounding :: "partition \<Rightarrow> ptable \<Rightarrow> region result" where
  "primary_surrounding p pt =
     ebind (has_usable_region pt) (\<lambda>has_usable.
       if \<not> has_usable then Inr (p_region p)
       else ebind (get_usable_region pt) (\<lambda>tmp. ebind (get_end tmp) (\<lambda>tmp_end.
         ebind (efold (narrow_step (p_region p)) (primaries pt)
             (min (r_start (p_region p)) (r_start tmp), tmp_end)) (\<lambda>(s, e).
           region_new s (e - s + 1) (ucast (get_block_size32 tmp))))))"

definition logical_surrounding :: "partition \<Rightarrow> ptable \<Rightarrow> region result" where
  "logical_surrounding p pt =
     ebind (get_extended pt) (\<lambda>ext.
       let tmp = p_region ext
       in ebind (get_end tmp) (\<lambda>tmp_end.
          ebind (efold (narrow_step (p_region p)) (logicals pt) (r_start tmp, tmp_end)) (\<lambda>(s, e).
            let s = s + num_ebrs
            in region_new s (e - s + 1) (ucast (get_block_size32 tmp)))))"

definition get_unused_surrounding_region :: "partition \<Rightarrow> ptable \<Rightarrow> region result" where
  "get_unused_surrounding_region p pt =
     (if p_type p = LOGICAL then logical_surrounding p pt else primary_surrounding p pt)"

section \<open>Resizing\<close>

definition RB_EXTENDED_PARTITION :: u32 where
  "RB_EXTENDED_PARTITION = push_bit 10 1"

definition RB_ON_IMPLICIT_PARTITION_TABLE :: u32 where
  "RB_ON_IMPLICIT_PARTITION_TABLE = push_bit 11 1"

definition RB_NO_SPACE_BEHIND_PARTITION :: u32 where
  "RB_NO_SPACE_BEHIND_PARTITION = push_bit 8 1"

definition RB_MIN_SIZE_FOR_PARTITION :: u32 where
  "RB_MIN_SIZE_FOR_PARTITION = push_bit 9 1"

text \<open>\<open>BlkDevice::Impl::detect_resize_info\<close>: the limits of all children, combined in turn.\<close>

definition blk_device_resize_info :: "resize_info result list \<Rightarrow> resize_info result" where
  "blk_device_resize_info children =
     ebind (resize_info_any True 0) (efold (\<lambda>child ri. ebind child (ri_combine ri)) children)"

definition partition_resize_info :: "resize_info result list \<Rightarrow> partition \<Rightarrow> ptable \<Rightarrow> resize_info result" where
  "partition_resize_info children p pt =
     (if pt_type pt = IMPLICIT then resize_info_any False RB_ON_IMPLICIT_PARTITION_TABLE
      else if p_type p = EXTENDED then resize_info_any False RB_EXTENDED_PARTITION
      else
        let r = p_region p; bs = ucast (get_block_size32 r) in
        ebind (blk_device_resize_info children) (\<lambda>ri.
        ebind (combine_min bs ri) (\<lambda>ri.
        let ri = (if r_length r \<le> 1 then add_reason RB_MIN_SIZE_FOR_PARTITION ri else ri) in
        ebind (get_unused_surrounding_region p pt) (\<lambda>surrounding.
        ebind (get_end surrounding) (\<lambda>se. ebind (get_end r) (\<lambda>re.
        ebind (to_bytes surrounding (r_length r + se - re)) (\<lambda>bytes.
        ebind (combine_max bytes ri) (\<lambda>ri.
        let ri = (if se \<le> re then add_reason RB_NO_SPACE_BEHIND_PARTITION ri else ri)
        in combine_block_size bs ri))))))))"

definition update_partition :: "nat \<Rightarrow> (partition \<Rightarrow> partition) \<Rightarrow> ptable \<Rightarrow> ptable" where
  "update_partition sid f pt =
     pt\<lparr>pt_children := List.map (\<lambda>p. if p_sid p = sid then f p else p) (pt_children pt),
        pt_logicals := List.map (\<lambda>p. if p_sid p = sid then f p else p) (pt_logicals pt)\<rparr>"

definition partition_set_region :: "nat \<Rightarrow> region \<Rightarrow> ptable \<Rightarrow> ptable result" where
  "partition_set_region sid r pt =
     (if get_block_size32 r \<noteq> get_block_size32 (dev_region (pt_dev pt)) then Inl DifferentBlockSizes
      else Inr (update_partition sid (\<lambda>p. p\<lparr>p_region := r\<rparr>) pt))"

text \<open>\<open>BlkDevice::Impl::set_size\<close>\<close>

definition partition_set_size :: "partition \<Rightarrow> u64 \<Rightarrow> ptable \<Rightarrow> ptable result" where
  "partition_set_size p bytes pt =
     ebind (to_blocks (p_region p) bytes) (\<lambda>n.
     ebind (region_new (r_start (p_region p)) n (r_block_size (p_region p))) (\<lambda>r.
       partition_set_region (p_sid p) r pt))"

section \<open>Ids, flags and types\<close>

text \<open>The ids without a number of their own count on from \<open>ID_UNKNOWN\<close>.\<close>

definition ID_DIAG :: u32 where "ID_DIAG = 0x12"
definition ID_PREP :: u32 where "ID_PREP = 0x41"
definition ID_SWAP :: u32 where "ID_SWAP = 0x82"
definition ID_IRST :: u32 where "ID_IRST = 0x84"
definition ID_LVM :: u32 where "ID_LVM = 0x8e"
definition ID_RAID :: u32 where "ID_RAID = 0xfd"
definition ID_XBOOTLDR :: u32 where "ID_XBOOTLDR = 0xea"
definition ID_ESP :: u32 where "ID_ESP = 0xef"
definition ID_UNKNOWN :: u32 where "ID_UNKNOWN = 0x100"
definition ID_BIOS_BOOT :: u32 where "ID_BIOS_BOOT = 0x101"
definition ID_WINDOWS_BASIC_DATA :: u32 where "ID_WINDOWS_BASIC_DATA = 0x102"
definition ID_MICROSOFT_RESERVED :: u32 where "ID_MICROSOFT_RESERVED = 0x103"
definition ID_LINUX_HOME :: u32 where "ID_LINUX_HOME = 0x104"
definition ID_LINUX_USR_X86_64 :: u32 where "ID_LINUX_USR_X86_64 = 0x11b"

text \<open>What the installed parted can do (\<open>CmdPartedVersion\<close>).\<close>

record parted_caps =
  supports_bls_boot_flag :: bool
  supports_type_command :: bool
  supports_old_type_flag :: bool

definition msdos_id_supported :: "parted_caps \<Rightarrow> u32 \<Rightarrow> bool" where
  "msdos_id_supported caps i =
     (if List.member [ID_UNKNOWN, ID_LINUX, ID_SWAP, ID_LVM, ID_RAID, ID_IRST, ID_ESP, ID_PREP, ID_DIAG] i
      then True
      else if i = ID_XBOOTLDR \<and> supports_bls_boot_flag caps then True
      else if \<not> supports_type_command caps \<and> \<not> supports_old_type_flag caps then False
      else 0 < i \<and> i \<le> 255)"

text \<open>The last list of the source has all ids from \<open>ID_LINUX_HOME\<close> on.\<close>

definition gpt_id_supported :: "parted_caps \<Rightarrow> u32 \<Rightarrow> bool" where
  "gpt_id_supported caps i =
     (if List.member [ID_UNKNOWN, ID_LINUX, ID_SWAP, ID_LVM, ID_RAID, ID_IRST, ID_ESP, ID_BIOS_BOOT,
           ID_PREP, ID_WINDOWS_BASIC_DATA, ID_MICROSOFT_RESERVED, ID_DIAG] i
      then True
      else if i = ID_XBOOTLDR \<and> supports_bls_boot_flag caps then True
      else if \<not> supports_type_command caps then False
      else ID_LINUX_HOME \<le> i \<and> i \<le> ID_LINUX_USR_X86_64)"

definition dasd_id_supported :: "u32 \<Rightarrow> bool" where
  "dasd_id_supported i = List.member [ID_UNKNOWN, ID_LINUX, ID_LVM, ID_RAID, ID_SWAP] i"

definition implicit_id_supported :: "u32 \<Rightarrow> bool" where
  "implicit_id_supported i = List.member [ID_UNKNOWN, ID_LINUX] i"

definition is_partition_id_supported :: "parted_caps \<Rightarrow> pt_class \<Rightarrow> u32 \<Rightarrow> bool" where
  "is_partition_id_supported caps c i =
     (case c of
        MSDOS \<Rightarrow> msdos_id_supported caps i
      | GPT \<Rightarrow> gpt_id_supported caps i
      | DASD \<Rightarrow> dasd_id_supported i
      | IMPLICIT \<Rightarrow> implicit_id_supported i)"

definition partition_set_id :: "parted_caps \<Rightarrow> nat \<Rightarrow> u32 \<Rightarrow> ptable \<Rightarrow> ptable result" where
  "partition_set_id caps sid i pt =
     (if \<not> is_partition_id_supported caps (pt_type pt) i then Inl (Exn ''illegal partition id'')
      else Inr (update_partition sid (\<lambda>p. p\<lparr>p_id := i\<rparr>) pt))"

definition is_partition_boot_flag_supported :: "pt_class \<Rightarrow> bool" where
  "is_partition_boot_flag_supported c = (c = MSDOS)"

text \<open>Only one partition has the boot flag.\<close>

definition partition_set_boot :: "partition \<Rightarrow> bool \<Rightarrow> ptable \<Rightarrow> ptable result" where
  "partition_set_boot p boot pt =
     (if \<not> is_partition_boot_flag_supported (pt_type pt) then Inl (Exn ''set_boot not supported'')
      else
        let pt = (if boot \<and> \<not> p_boot p
          then fold (\<lambda>q. update_partition (p_sid q) (\<lambda>q. q\<lparr>p_boot := False\<rparr>)) (get_partitions pt) pt
          else pt)
        in Inr (update_partition (p_sid p) (\<lambda>q. q\<lparr>p_boot := boot\<rparr>) pt))"

text \<open>The type of a partition is only checked against the class of the table.\<close>

definition partition_set_type :: "nat \<Rightarrow> partition_type \<Rightarrow> ptable \<Rightarrow> ptable result" where
  "partition_set_type sid t pt =
     (if \<not> is_partition_type_supported pt t then Inl (Exn ''illegal partition type'')
      else Inr (update_partition sid (\<lambda>p. p\<lparr>p_type := t\<rparr>) pt))"

section \<open>Removing\<close>

datatype remove_reason = RMB_NONE | RMB_RENUMBER_ACTIVE_PARTITIONS | RMB_ON_IMPLICIT_PARTITION_TABLE

text \<open>
  Partitions that would get another number must not be in use. \<open>active\<close> says of a partition whether
  something on it is active.
\<close>

definition detect_remove_info :: "(nat \<Rightarrow> bool) \<Rightarrow> partition \<Rightarrow> ptable \<Rightarrow> bool \<times> remove_reason" where
  "detect_remove_info active p pt =
     (if (pt_type pt = MSDOS \<and> p_type p = LOGICAL \<or> pt_type pt = DASD)
        \<and> list_ex (\<lambda>q. p_number p < p_number q \<and> active (p_sid q)) (get_partitions pt)
      then (False, RMB_RENUMBER_ACTIVE_PARTITIONS)
      else if pt_type pt = IMPLICIT then (False, RMB_ON_IMPLICIT_PARTITION_TABLE)
      else (True, RMB_NONE))"

section \<open>Creating a partition with a number\<close>

text \<open>
  \<open>mkpart\<close> of parted takes no number. The numbers that are missing below the wanted one are filled
  with temporary partitions, which are removed afterwards.
\<close>

definition do_create_calc_hack :: "partition \<Rightarrow> ptable \<Rightarrow> u32 list" where
  "do_create_calc_hack p pt =
     (if p_type p = PRIMARY \<or> p_type p = EXTENDED
      then filter (\<lambda>i. i \<notin> set (List.map p_number (get_partitions pt)))
             (List.map word_of_nat [1..<unat (p_number p)])
      else [])"

text \<open>The factor between the sectors of parted and those of the kernel on a DASD.\<close>

definition parted_sector_adjustment_factor :: "bool \<Rightarrow> partition \<Rightarrow> ptable \<Rightarrow> u64" where
  "parted_sector_adjustment_factor name_is_dasd p pt =
     (if name_is_dasd \<and> pt_type pt = DASD
      then let bs = get_block_size32 (p_region p)
           in if bs = 4096 then 8 else if bs = 2048 then 4 else if bs = 1024 then 2 else 1
      else 1)"

text \<open>The first and the last sector of the new partition: it is shorter by the temporary ones.\<close>

definition mkpart_sectors :: "bool \<Rightarrow> partition \<Rightarrow> ptable \<Rightarrow> (u64 \<times> u64) result" where
  "mkpart_sectors name_is_dasd p pt =
     (let tmps = do_create_calc_hack p pt; factor = parted_sector_adjustment_factor name_is_dasd p pt
      in emap (\<lambda>e. (r_start (p_region p) * factor,
          (e - word_of_nat (length tmps)) * factor + (factor - 1))) (get_end (p_region p)))"

text \<open>
  The partition table on the disk, as parted keeps it: the number, the first and the last sector of
  every partition. The commands of parted that are used, each with sectors as unit, are parameters;
  they can fail, and a command that fails is an exception.
\<close>

type_synonym parted_disk = "(u32 \<times> u64 \<times> u64) list"

record parted =
  parted_mkpart :: "u64 \<Rightarrow> u64 \<Rightarrow> parted_disk \<Rightarrow> parted_disk result"
  parted_rm :: "u32 \<Rightarrow> parted_disk \<Rightarrow> parted_disk result"
  parted_resizepart :: "u32 \<Rightarrow> u64 \<Rightarrow> parted_disk \<Rightarrow> parted_disk result"

text \<open>The temporary partitions of one sector each, from the end of the partition downwards.\<close>

definition do_create_pre_hack :: "parted \<Rightarrow> region \<Rightarrow> u32 list \<Rightarrow> parted_disk \<Rightarrow> parted_disk result" where
  "do_create_pre_hack pa r tmps disk =
     efold (\<lambda>i disk. ebind (get_end r) (\<lambda>e. parted_mkpart pa (e - i) (e - i) disk))
       (List.map word_of_nat [0..<length tmps]) disk"

text \<open>They are removed by their numbers, and the partition gets its real end.\<close>

definition do_create_post_hack :: "parted \<Rightarrow> u32 \<Rightarrow> region \<Rightarrow> u32 list \<Rightarrow> parted_disk \<Rightarrow> parted_disk result" where
  "do_create_post_hack pa n r tmps disk =
     (if tmps = [] then Inr disk
      else ebind (efold (parted_rm pa) tmps disk) (\<lambda>disk.
        ebind (get_end r) (\<lambda>e. parted_resizepart pa n e disk)))"

definition partition_do_create :: "parted \<Rightarrow> bool \<Rightarrow> partition \<Rightarrow> ptable \<Rightarrow> parted_disk \<Rightarrow> parted_disk result" where
  "partition_do_create pa name_is_dasd p pt disk =
     (let tmps = do_create_calc_hack p pt in
      ebind (do_create_pre_hack pa (p_region p) tmps disk) (\<lambda>disk.
      ebind (mkpart_sectors name_is_dasd p pt) (\<lambda>(s, e).
      ebind (parted_mkpart pa s e disk) (\<lambda>disk.
        do_create_post_hack pa (p_number p) (p_region p) tmps disk))))"

section \<open>The space behind a partition\<close>

text \<open>
  The loop, for regions \<open>rs\<close> that are disjoint from \<open>r\<close>: the end is the last block of the
  surrounding space before the next region behind \<open>r\<close>.
\<close>

lemma narrow_loop:
  assumes "efold (narrow_step r) qs (s, e) = Inr (s', e')"
    and "valid_region r" and "\<forall>q \<in> set qs. valid_region (p_region q)" and "last_block r \<le> unat e"
  shows "unat e' \<le> unat e \<and> last_block r \<le> unat e' \<and>
    (\<forall>q \<in> set qs. last_block r < unat (r_start (p_region q)) \<longrightarrow> unat e' < unat (r_start (p_region q)))"
  using assms
proof (induction qs arbitrary: s e)
  case Nil
  then show ?case by simp
next
  case (Cons q qs)
  have q: "valid_region (p_region q)" using Cons.prems(3) by simp
  obtain ss ee where st: "narrow_step r q (s, e) = Inr (ss, ee)"
    and rest: "efold (narrow_step r) qs (ss, ee) = Inr (s', e')"
    using Cons.prems(1) by (auto simp: result_simps)
  have re: "get_end r = Inr (r_start r + r_length r - 1)" "unat (r_start r + r_length r - 1) = last_block r"
    using unat_end [OF Cons.prems(2)] valid_region_not_empty [OF Cons.prems(2)] by (simp_all add: get_end_def)
  have ee: "ee = (if r_start r + r_length r - 1 < r_start (p_region q)
      then min e (r_start (p_region q) - 1) else e)"
    using st re(1) by (auto simp: narrow_step_def result_simps)
  have lt: "r_start r + r_length r - 1 < r_start (p_region q) \<longleftrightarrow> last_block r < unat (r_start (p_region q))"
    by (simp add: word_less_nat_alt re(2))
  have pred: "unat (r_start (p_region q) - 1) = unat (r_start (p_region q)) - 1"
    if "last_block r < unat (r_start (p_region q))"
    using that unat_sub_no_wrap [of 1 "r_start (p_region q)"] by simp
  have ue: "unat ee = (if last_block r < unat (r_start (p_region q))
      then min (unat e) (unat (r_start (p_region q)) - 1) else unat e)"
    unfolding ee lt using pred by (auto simp: unat_min)
  have "last_block r \<le> unat ee" unfolding ue using Cons.prems(4) by auto
  from Cons.IH [OF rest Cons.prems(2) _ this] Cons.prems(3)
  have ih: "unat e' \<le> unat ee" "last_block r \<le> unat e'"
    "\<forall>q \<in> set qs. last_block r < unat (r_start (p_region q)) \<longrightarrow> unat e' < unat (r_start (p_region q))"
    by auto
  have "unat e' < unat (r_start (p_region q))" if "last_block r < unat (r_start (p_region q))"
    using ih(1) that unfolding ue by auto
  moreover have "unat ee \<le> unat e" unfolding ue by auto
  ultimately show ?case using ih by auto
qed

text \<open>The limits are never above what was combined into them.\<close>

lemma ri_check_le: "ri_check ri = Inr ri' \<Longrightarrow> max_size ri' \<le> max_size ri"
  by (auto simp: ri_check_def round_down_def Let_def add_reason_def result_simps word_le_nat_alt
      unat_sub_no_wrap unat_mod split: if_splits)

lemma combine_le:
  "combine_max bytes ri = Inr ri' \<Longrightarrow> max_size ri' \<le> bytes"
  "combine_block_size b ri = Inr ri' \<Longrightarrow> max_size ri' \<le> max_size ri"
  unfolding combine_max_def combine_block_size_def by (auto dest!: ri_check_le)

lemma max_size_reason [simp]: "max_size (if c then add_reason r ri else ri) = max_size ri"
  by (simp add: add_reason_def)

lemma partition_resize_limit:
  assumes "partition_resize_info children p pt = Inr ri" and "resize_ok ri" and "allowed ri n"
  obtains sur se re where "get_unused_surrounding_region p pt = Inr sur" and "get_end sur = Inr se"
    and "get_end (p_region p) = Inr re" and "p_type p \<noteq> EXTENDED" and "pt_type pt \<noteq> IMPLICIT"
    and "n \<le> unat ((r_length (p_region p) + se - re) * r_block_size sur)"
proof -
  have any: "resize_ok ri \<Longrightarrow> resize_info_any False r = Inr ri \<Longrightarrow> False" for r
    by (auto simp: resize_info_any_def resize_info_new_def ri_check_def Let_def add_reason_def result_simps
        split: if_splits)
  have np: "p_type p \<noteq> EXTENDED" "pt_type pt \<noteq> IMPLICIT"
    using assms(1,2) any by (auto simp: partition_resize_info_def split: if_splits)
  obtain sur se re bytes ri1 ri2 ri3 where s: "get_unused_surrounding_region p pt = Inr sur" "get_end sur = Inr se"
    "get_end (p_region p) = Inr re" "to_bytes sur (r_length (p_region p) + se - re) = Inr bytes"
    and m: "combine_max bytes ri1 = Inr ri2" "max_size ri3 = max_size ri2"
      "combine_block_size (ucast (get_block_size32 (p_region p))) ri3 = Inr ri"
    using assms(1) np
    by (simp add: partition_resize_info_def Let_def result_simps split del: if_split)
      (elim exE conjE, rule that, (assumption | rule max_size_reason)+)
  have "max_size ri \<le> bytes" using combine_le(1) [OF m(1)] combine_le(2) [OF m(3)] m(2) by simp
  then have "n \<le> unat bytes" using assms(3) by (auto simp: allowed_def word_le_nat_alt)
  moreover have "bytes = (r_length (p_region p) + se - re) * r_block_size sur"
    using s(4) by (simp add: to_bytes_def split: if_splits)
  ultimately show thesis by (intro that [OF s(1-3) np]) simp
qed

section \<open>The numbers the commands give\<close>

text \<open>
  What is documented of parted, for a table with numbers up to \<open>maxn\<close> on a disk whose last usable
  sector is \<open>maxs\<close>: \<open>mkpart\<close> gives a new partition the first free number, when its end is not before
  its start and its sectors are free; \<open>rm\<close> removes a partition; \<open>resizepart\<close> changes the end of a
  partition, when the sectors up to it are free.
\<close>

definition first_free :: "u32 \<Rightarrow> parted_disk \<Rightarrow> bool" where
  "first_free n disk \<longleftrightarrow> 1 \<le> n \<and> n \<notin> fst ` set disk \<and> (\<forall>m. 1 \<le> m \<and> m < n \<longrightarrow> m \<in> fst ` set disk)"

definition sectors_free :: "u64 \<Rightarrow> u64 \<Rightarrow> parted_disk \<Rightarrow> bool" where
  "sectors_free s e disk \<longleftrightarrow> (\<forall>(n, a, b) \<in> set disk. e < a \<or> b < s)"

definition parted_documented :: "u32 \<Rightarrow> u64 \<Rightarrow> parted \<Rightarrow> bool" where
  "parted_documented maxn maxs pa \<longleftrightarrow>
     (\<forall>s e n disk. s \<le> e \<and> e \<le> maxs \<and> sectors_free s e disk \<and> first_free n disk \<and> n \<le> maxn \<longrightarrow>
        parted_mkpart pa s e disk = Inr (disk @ [(n, s, e)])) \<and>
     (\<forall>n disk. n \<in> fst ` set disk \<longrightarrow> parted_rm pa n disk = Inr (filter (\<lambda>x. fst x \<noteq> n) disk)) \<and>
     (\<forall>n s e e' xs ys. n \<notin> fst ` set (xs @ ys) \<and> s \<le> e' \<and> e' \<le> maxs \<and> sectors_free s e' (xs @ ys) \<longrightarrow>
        parted_resizepart pa n e' (xs @ (n, s, e) # ys) = Inr (xs @ (n, s, e') # ys))"

lemma parted_documentedD:
  assumes "parted_documented maxn maxs pa"
  shows "s \<le> e \<Longrightarrow> e \<le> maxs \<Longrightarrow> sectors_free s e disk \<Longrightarrow> first_free n disk \<Longrightarrow> n \<le> maxn \<Longrightarrow>
      parted_mkpart pa s e disk = Inr (disk @ [(n, s, e)])"
    and "n \<in> fst ` set disk \<Longrightarrow> parted_rm pa n disk = Inr (filter (\<lambda>x. fst x \<noteq> n) disk)"
    and "n \<notin> fst ` set (xs @ ys) \<Longrightarrow> s \<le> e' \<Longrightarrow> e' \<le> maxs \<Longrightarrow> sectors_free s e' (xs @ ys) \<Longrightarrow>
      parted_resizepart pa n e' (xs @ (n, s, e) # ys) = Inr (xs @ (n, s, e') # ys)"
proof -
  note d = assms [unfolded parted_documented_def]
  show "s \<le> e \<Longrightarrow> e \<le> maxs \<Longrightarrow> sectors_free s e disk \<Longrightarrow> first_free n disk \<Longrightarrow> n \<le> maxn \<Longrightarrow>
      parted_mkpart pa s e disk = Inr (disk @ [(n, s, e)])"
    by (rule d [THEN conjunct1, rule_format]) simp
  show "n \<in> fst ` set disk \<Longrightarrow> parted_rm pa n disk = Inr (filter (\<lambda>x. fst x \<noteq> n) disk)"
    by (rule d [THEN conjunct2, THEN conjunct1, rule_format])
  show "n \<notin> fst ` set (xs @ ys) \<Longrightarrow> s \<le> e' \<Longrightarrow> e' \<le> maxs \<Longrightarrow> sectors_free s e' (xs @ ys) \<Longrightarrow>
      parted_resizepart pa n e' (xs @ (n, s, e) # ys) = Inr (xs @ (n, s, e') # ys)"
    by (rule d [THEN conjunct2, THEN conjunct2, rule_format]) simp
qed

lemma region_end:
  assumes "valid_region r" and "get_end r = Inr e"
  shows "unat e = unat (r_start r) + unat (r_length r) - 1" and "0 < unat (r_length r)"
  using get_end_valid [OF assms(1)] assms by (simp_all add: last_block_def valid_region_def)

text \<open>The temporary partitions on the disk: one sector each, downwards.\<close>

fun temporaries :: "u64 \<Rightarrow> u32 list \<Rightarrow> parted_disk" where
  "temporaries e [] = []"
| "temporaries e (t # ts) = (t, e, e) # temporaries (e - 1) ts"

lemma temporaries_numbers: "List.map fst (temporaries e ts) = ts"
  by (induction e ts rule: temporaries.induct) simp_all

lemma temporaries_sectors:
  assumes "length ts \<le> unat e" and "(n, a, b) \<in> set (temporaries e ts)"
  shows "unat e - length ts < unat a"
  using assms
proof (induction e ts rule: temporaries.induct)
  case (2 e t ts)
  have "unat (e - 1) = unat e - 1" using "2.prems"(1) by (subst unat_sub_no_wrap) (auto simp: word_le_nat_alt)
  then show ?case using "2.IH" "2.prems" by auto
qed simp

lemma pre_hack_step:
  assumes doc: "parted_documented maxn maxs pa" and e: "e \<le> maxs" and n: "n \<le> maxn"
    and "sorted_wrt (<) ts" and "\<forall>i \<in> set ts. 1 \<le> i \<and> i < n"
    and "\<And>m. 1 \<le> m \<Longrightarrow> m < n \<Longrightarrow> m \<in> fst ` set disk \<longleftrightarrow> m \<notin> set ts"
    and "j + length ts \<le> unat e - unat s" and "\<forall>(m, a, b) \<in> set disk. unat e - j < unat a \<or> b < s"
  shows "efold (\<lambda>i disk. parted_mkpart pa (e - i) (e - i) disk) (List.map word_of_nat [j..<j + length ts]) disk
    = Inr (disk @ temporaries (e - word_of_nat j) ts)"
  using assms(4-8)
proof (induction ts arbitrary: j disk)
  case (Cons t ts)
  let ?x = "e - word_of_nat j :: u64"
  have "j \<le> unat e" "j < 18446744073709551616" using Cons.prems(4) unat_lt64 [of e] by linarith+
  then have j: "unat (word_of_nat j :: u64) = j" "j \<le> unat e" by (simp_all add: unat_of_nat)
  have x: "unat ?x = unat e - j" using j by (subst unat_sub_no_wrap) (simp_all add: word_le_nat_alt)
  have "?x \<le> maxs" using x e by (simp add: word_le_nat_alt)
  moreover have "sectors_free ?x ?x disk"
    using Cons.prems(4,5) x unfolding sectors_free_def by (fastforce simp: word_less_nat_alt)
  moreover have "first_free t disk"
    unfolding first_free_def using Cons.prems(1-3) by (auto 4 3)
  moreover have "t \<le> maxn" using Cons.prems(2) n by (meson list.set_intros(1) order.strict_implies_order order_trans)
  ultimately have mk: "parted_mkpart pa ?x ?x disk = Inr (disk @ [(t, ?x, ?x)])"
    by (intro parted_documentedD(1) [OF doc]) simp_all
  have "efold (\<lambda>i disk. parted_mkpart pa (e - i) (e - i) disk)
      (List.map word_of_nat [Suc j..<Suc j + length ts]) (disk @ [(t, ?x, ?x)])
    = Inr ((disk @ [(t, ?x, ?x)]) @ temporaries (e - word_of_nat (Suc j)) ts)"
  proof (rule Cons.IH)
    fix m :: u32 assume "1 \<le> m" "m < n"
    then show "m \<in> fst ` set (disk @ [(t, ?x, ?x)]) \<longleftrightarrow> m \<notin> set ts"
      using Cons.prems(3) [of m] Cons.prems(1) by auto
  next
    show "\<forall>(m, a, b) \<in> set (disk @ [(t, ?x, ?x)]). unat e - Suc j < unat a \<or> b < s"
      using Cons.prems(4,5) x by fastforce
  qed (use Cons.prems in auto)
  moreover have "e - word_of_nat (Suc j) = ?x - 1" by simp
  moreover have upt: "[j..<j + length (t # ts)] = j # [Suc j..<Suc j + length ts]"
    by (subst upt_conv_Cons) (simp_all del: upt_Suc)
  ultimately show ?case
    by (simp only: upt list.map efold.simps mk ebind_Inr temporaries.simps append_assoc append.simps)
qed simp

lemma rm_all:
  assumes doc: "parted_documented maxn maxs pa" and "distinct ts" and "set ts \<subseteq> fst ` set disk"
  shows "efold (parted_rm pa) ts disk = Inr (filter (\<lambda>x. fst x \<notin> set ts) disk)"
  using assms(2,3)
proof (induction ts arbitrary: disk)
  case (Cons t ts)
  let ?d = "filter (\<lambda>x. fst x \<noteq> t) disk"
  have "parted_rm pa t disk = Inr ?d" using Cons.prems by (intro parted_documentedD(2) [OF doc]) simp
  moreover have "efold (parted_rm pa) ts ?d = Inr (filter (\<lambda>x. fst x \<notin> set ts) ?d)"
    by (rule Cons.IH) (use Cons.prems in \<open>force+\<close>)
  moreover have "filter (\<lambda>x. fst x \<notin> set ts) ?d = filter (\<lambda>x. fst x \<notin> set (t # ts)) disk"
    unfolding filter_filter by (rule filter_cong) auto
  ultimately show ?case by simp
qed simp

lemma calc_hack_facts:
  fixes p :: partition
  assumes "p_type p \<noteq> LOGICAL"
  shows "set (do_create_calc_hack p pt)
      = {i. 1 \<le> i \<and> i < p_number p \<and> i \<notin> p_number ` set (get_partitions pt)}" (is "set ?t = ?r")
    and "sorted_wrt (<) (do_create_calc_hack p pt)"
proof -
  let ?all = "List.map word_of_nat [1..<unat (p_number p)] :: u32 list"
  have u: "unat (word_of_nat k :: u32) = k" if "k < unat (p_number p)" for k
  proof -
    have "k < 4294967296" using that unat_lt32 [of "p_number p"] by linarith
    then show ?thesis by (simp add: unat_of_nat)
  qed
  have "sorted_wrt (<) ?all"
    unfolding sorted_wrt_map by (rule sorted_wrt_mono_rel [OF _ sorted_wrt_upt]) (simp add: word_less_nat_alt u)
  moreover have eq: "do_create_calc_hack p pt
      = filter (\<lambda>i. i \<notin> set (List.map p_number (get_partitions pt))) ?all"
    using assms by (cases "p_type p") (simp_all add: do_create_calc_hack_def)
  ultimately show "sorted_wrt (<) ?t" by (simp only: sorted_wrt_filter)
  have "i \<in> set ?all \<longleftrightarrow> 1 \<le> i \<and> i < p_number p" for i
  proof
    assume "i \<in> set ?all"
    then obtain k where "1 \<le> k" "k < unat (p_number p)" "i = word_of_nat k" by auto
    then show "1 \<le> i \<and> i < p_number p" using u [of k] by (simp add: word_le_nat_alt word_less_nat_alt)
  next
    assume "1 \<le> i \<and> i < p_number p"
    then have "unat i \<in> set [1..<unat (p_number p)]" by (simp add: word_le_nat_alt word_less_nat_alt)
    then have "word_of_nat (unat i) \<in> set ?all" unfolding list.set_map by (rule imageI)
    then show "i \<in> set ?all" by simp
  qed
  then show "set ?t = ?r" unfolding eq by auto
qed

text \<open>
  C35: Creating a partition that is not logical with parted gives it the wanted number, its start and
  its end, and leaves everything else on the disk as it was, the temporary partitions are gone.
  The commands of parted behave as documented (\<open>parted_documented\<close>); the wanted number is free; the
  partitions on the disk with lower numbers are those of the table; the sectors of the partition are
  free. The partition must have more sectors than there are temporary partitions (see
  \<open>small_partition_fails\<close> below), and its sectors must be those of parted, as they are on all disks but
  DASDs with larger blocks.
\<close>

theorem created_number_wanted:
  assumes "parted_documented maxn maxs pa" and "p_type p \<noteq> LOGICAL"
    and "1 \<le> p_number p" and "p_number p \<le> maxn" and "p_number p \<notin> fst ` set disk"
    and "\<forall>m. 1 \<le> m \<and> m < p_number p \<longrightarrow> (m \<in> fst ` set disk \<longleftrightarrow> m \<in> p_number ` set (get_partitions pt))"
    and "valid_region (p_region p)" and "get_end (p_region p) = Inr e" and "e \<le> maxs"
    and "sectors_free (r_start (p_region p)) e disk"
    and "length (do_create_calc_hack p pt) < unat (r_length (p_region p))"
    and "parted_sector_adjustment_factor name_is_dasd p pt = 1"
  shows "partition_do_create pa name_is_dasd p pt disk = Inr (disk @ [(p_number p, r_start (p_region p), e)])"
proof -
  let ?t = "do_create_calc_hack p pt" and ?n = "p_number p" and ?s = "r_start (p_region p)"
  note doc = assms(1) and t = calc_hack_facts [OF assms(2), of pt]
  let ?x = "e - word_of_nat (length ?t) :: u64" and ?tmp = "temporaries e ?t"
  have se: "unat ?s + length ?t \<le> unat e" using region_end [OF assms(7,8)] assms(11) by linarith
  then have "length ?t < 18446744073709551616" using unat_lt64 [of e] by linarith
  then have len: "unat (word_of_nat (length ?t) :: u64) = length ?t" by (simp add: unat_of_nat)
  have x: "unat ?x = unat e - length ?t" using se len by (subst unat_sub_no_wrap) (simp_all add: word_le_nat_alt)
  have main: "mkpart_sectors name_is_dasd p pt = Inr (?s, ?x)"
    using assms(8,12) by (simp add: mkpart_sectors_def Let_def)
  have old: "\<forall>(m, a, b) \<in> set disk. unat e < unat a \<or> b < ?s"
    using assms(10) by (simp add: sectors_free_def word_less_nat_alt)
  have "efold (\<lambda>i disk. parted_mkpart pa (e - i) (e - i) disk) (List.map word_of_nat [0..<0 + length ?t]) disk
      = Inr (disk @ temporaries (e - word_of_nat 0) ?t)"
    by (rule pre_hack_step [OF doc assms(9,4) t(2), where s = ?s]) (use t(1) assms(6) se old in auto)
  then have pre: "do_create_pre_hack pa (p_region p) ?t disk = Inr (disk @ ?tmp)"
    by (simp add: do_create_pre_hack_def assms(8))
  have tmp: "unat ?x < unat a" if "(m, a, b) \<in> set ?tmp" for m a b
    using temporaries_sectors [OF _ that] se x by simp
  have numbers: "fst ` set ?tmp = set ?t" using arg_cong [OF temporaries_numbers, of set e ?t] by simp
  have "?x \<le> e" "?s \<le> ?x" using x se by (simp_all add: word_le_nat_alt)
  moreover have "sectors_free ?s ?x (disk @ ?tmp)"
    using old tmp x unfolding sectors_free_def by (fastforce simp: word_less_nat_alt)
  moreover have "first_free ?n (disk @ ?tmp)"
    using assms(3,5,6) t(1) by (auto simp: first_free_def image_Un numbers)
  ultimately have mk: "parted_mkpart pa ?s ?x (disk @ ?tmp) = Inr ((disk @ ?tmp) @ [(?n, ?s, ?x)])"
    using assms(4,9) by (intro parted_documentedD(1) [OF doc]) auto
  have "distinct ?t" using t(2) by (simp add: strict_sorted_iff)
  then have rm: "efold (parted_rm pa) ?t ((disk @ ?tmp) @ [(?n, ?s, ?x)]) = Inr (disk @ [(?n, ?s, ?x)])"
  proof (subst rm_all [OF doc])
    have "filter (\<lambda>y. fst y \<notin> set ?t) disk = disk" using t(1) assms(6) by (intro filter_True) auto
    moreover have "filter (\<lambda>y. fst y \<notin> set ?t) ?tmp = []" using numbers by (auto simp: filter_empty_conv)
    moreover have "?n \<notin> set ?t" using t(1) by simp
    ultimately show "Inr (filter (\<lambda>y. fst y \<notin> set ?t) ((disk @ ?tmp) @ [(?n, ?s, ?x)])) = Inr (disk @ [(?n, ?s, ?x)])"
      by simp
  qed (use numbers in \<open>auto simp: image_Un\<close>)
  have resize: "parted_resizepart pa ?n e (disk @ (?n, ?s, ?x) # []) = Inr (disk @ (?n, ?s, e) # [])"
    by (rule parted_documentedD(3) [OF doc]) (use assms(5,9,10) se in \<open>auto simp: word_le_nat_alt\<close>)
  have "do_create_post_hack pa ?n (p_region p) ?t ((disk @ ?tmp) @ [(?n, ?s, ?x)]) = Inr (disk @ [(?n, ?s, e)])"
    using rm resize assms(8) by (cases "?t = []") (simp_all add: do_create_post_hack_def)
  then show ?thesis by (simp only: partition_do_create_def Let_def pre ebind_Inr main prod.case mk)
qed

text \<open>
  A partition with as few sectors as there are temporary partitions, or fewer: the end that is given
  to parted is before the start (the comment in \<open>do_create_calc_hack\<close> knows of it).
\<close>

lemma small_partition_fails:
  assumes "valid_region (p_region p)" and "get_end (p_region p) = Inr e"
    and "unat (r_length (p_region p)) \<le> length (do_create_calc_hack p pt)"
    and "length (do_create_calc_hack p pt) \<le> unat e" and "parted_sector_adjustment_factor name_is_dasd p pt = 1"
  shows "\<exists>last. mkpart_sectors name_is_dasd p pt = Inr (r_start (p_region p), last) \<and> last < r_start (p_region p)"
proof -
  let ?l = "length (do_create_calc_hack p pt)"
  have "?l < 18446744073709551616" using assms(4) unat_lt64 [of e] by linarith
  then have "unat (word_of_nat ?l :: u64) = ?l" by (simp add: unat_of_nat)
  then have "unat (e - word_of_nat ?l) = unat e - ?l"
    using assms(4) by (subst unat_sub_no_wrap) (simp_all add: word_le_nat_alt)
  then have "e - word_of_nat ?l < r_start (p_region p)"
    using region_end [OF assms(1,2)] assms(3,4) by (simp add: word_less_nat_alt)
  then show ?thesis using assms(2,5) by (simp add: mkpart_sectors_def Let_def)
qed

definition demo_gap :: ptable where
  "demo_gap =
     \<lparr>pt_type = GPT, pt_dev = \<lparr>dev_region = \<lparr>r_start = 0, r_length = 100000, r_block_size = 512\<rparr>, dev_range = 256,
        dev_topology = topology_new 0 0, dev_dasd_type = DASDTYPE_UNKNOWN, dev_dasd_format = DASDF_NONE\<rparr>,
      pt_children =
        [\<lparr>p_sid = 1, p_number = 2, p_region = \<lparr>r_start = 2048, r_length = 10000, r_block_size = 512\<rparr>,
          p_type = PRIMARY, p_id = ID_LINUX, p_boot = False, p_in_system = True\<rparr>],
      pt_logicals = [], pt_minimal_mbr_gap = default_minimal_mbr_gap,
      pt_partition_slots = default_partition_slots\<rparr>"

definition demo_fourth :: partition where
  "demo_fourth = \<lparr>p_sid = 2, p_number = 4, p_region = \<lparr>r_start = 20480, r_length = 10000, r_block_size = 512\<rparr>,
     p_type = PRIMARY, p_id = ID_LINUX, p_boot = False, p_in_system = False\<rparr>"

definition first_free_demo :: "u32 list \<Rightarrow> u32" where
  "first_free_demo disk =
     (case find (\<lambda>k. word_of_nat k \<notin> set disk) [1..<4294967296] of Some k \<Rightarrow> word_of_nat k | None \<Rightarrow> 0)"

lemma first_free_demo_first:
  assumes "first_free n disk"
  shows "first_free_demo (List.map fst disk) = n"
proof -
  have n: "1 \<le> n" "n \<notin> set (List.map fst disk)" "\<And>m. 1 \<le> m \<Longrightarrow> m < n \<Longrightarrow> m \<in> set (List.map fst disk)"
    using assms by (simp_all add: first_free_def)
  have "word_of_nat j \<in> set (List.map fst disk)" if "1 \<le> j" "j < unat n" for j
  proof -
    have "j < 4294967296" using that(2) unat_lt32 [of n] by linarith
    then have "unat (word_of_nat j :: u32) = j" by (simp add: unat_of_nat)
    then show ?thesis using n(3) that by (simp only: word_le_nat_alt word_less_nat_alt unat_1)
  qed
  then have "find (\<lambda>k. word_of_nat k \<notin> set (List.map fst disk)) [1..<4294967296] = Some (unat n)"
    unfolding find_upt_Some using n(1,2) unat_lt32 [of n] by (auto simp: word_le_nat_alt)
  then show ?thesis by (simp add: first_free_demo_def)
qed

definition demo_parted :: parted where
  "demo_parted =
     \<lparr>parted_mkpart = (\<lambda>s e disk.
        if e < s \<or> \<not> list_all (\<lambda>(n, a, b). e < a \<or> b < s) disk then Inl (Exn ''mkpart failed'')
        else Inr (disk @ [(first_free_demo (List.map fst disk), s, e)])),
      parted_rm = (\<lambda>n disk.
        if n \<notin> set (List.map fst disk) then Inl (Exn ''rm failed'') else Inr (filter (\<lambda>x. fst x \<noteq> n) disk)),
      parted_resizepart = (\<lambda>n e disk.
        case map_of disk n of
          None \<Rightarrow> Inl (Exn ''resizepart failed'')
        | Some (s, _) \<Rightarrow>
            if e < s \<or> \<not> list_all (\<lambda>(m, a, b). m = n \<or> e < a \<or> b < s) disk then Inl (Exn ''resizepart failed'')
            else Inr (List.map (\<lambda>(m, a, b). if m = n then (m, a, e) else (m, a, b)) disk))\<rparr>"

lemma demo_parted_documented: "parted_documented maxn maxs demo_parted"
proof -
  have "list_all (\<lambda>(n, a, b). e < a \<or> b < s) disk" if "sectors_free s e disk" for s e disk
    using that by (simp add: sectors_free_def list_all_iff)
  then have mk: "parted_mkpart demo_parted s e disk = Inr (disk @ [(n, s, e)])"
    if "s \<le> e" "sectors_free s e disk" "first_free n disk" for s e n disk
    using that first_free_demo_first [OF that(3)] by (simp add: demo_parted_def not_less)
  have rm: "parted_rm demo_parted n disk = Inr (filter (\<lambda>x. fst x \<noteq> n) disk)" if "n \<in> fst ` set disk" for n disk
    using that by (simp add: demo_parted_def)
  have resize: "parted_resizepart demo_parted n e' (xs @ (n, s, e) # ys) = Inr (xs @ (n, s, e') # ys)"
    if n: "n \<notin> fst ` set (xs @ ys)" and "s \<le> e'" and free: "sectors_free s e' (xs @ ys)" for n s e e' xs ys
  proof -
    let ?f = "\<lambda>(m, a :: u64, b :: u64). if m = n then (m, a, e') else (m, a, b)"
    have "List.map ?f zs = zs" if "set zs \<subseteq> set (xs @ ys)" for zs
      using that n by (intro map_idI) force
    then have m: "List.map ?f (xs @ (n, s, e) # ys) = xs @ (n, s, e') # ys" by simp
    have "map_of (xs @ (n, s, e) # ys) n = Some (s, e)"
    proof -
      have "map_of xs n = None" using n by (auto simp: map_of_eq_None_iff)
      then show ?thesis by (simp add: map_add_def)
    qed
    moreover have "e' < a \<or> b < s" if "(m, a, b) \<in> set (xs @ ys)" for m a b
      using free that unfolding sectors_free_def by blast
    then have "case x of (m, a, b) \<Rightarrow> m = n \<or> e' < a \<or> b < s" if "x \<in> set (xs @ (n, s, e) # ys)" for x
      using that by (cases x) auto
    then have "list_all (\<lambda>(m, a, b). m = n \<or> e' < a \<or> b < s) (xs @ (n, s, e) # ys)"
      unfolding list_all_iff by blast
    moreover have "\<not> e' < s" using that(2) by simp
    ultimately show ?thesis unfolding demo_parted_def
      by (simp only: parted.simps option.case prod.case m simp_thms if_False)
  qed
  show ?thesis
    unfolding parted_documented_def by (intro conjI allI impI; (elim conjE)?) (simp only: mk, simp only: rm, rule resize)
qed

lemma created_number_wanted_witness:
  "partition_do_create demo_parted False demo_fourth demo_gap [(2, 2048, 12047)]
    = Inr [(2, 2048, 12047), (4, 20480, 30479)]"
proof -
  have "partition_do_create demo_parted False demo_fourth demo_gap [(2, 2048, 12047)]
    = Inr ([(2, 2048, 12047)] @ [(p_number demo_fourth, r_start (p_region demo_fourth), 30479)])"
  proof (rule created_number_wanted [OF demo_parted_documented [where maxn = 128 and maxs = 99999]])
    have parts: "get_partitions demo_gap = pt_children demo_gap" by (simp add: get_partitions_def demo_gap_def)
    show "\<forall>m. 1 \<le> m \<and> m < p_number demo_fourth \<longrightarrow>
        (m \<in> fst ` set [(2, 2048, 12047)] \<longleftrightarrow> m \<in> p_number ` set (get_partitions demo_gap))"
      unfolding parts by (simp add: demo_gap_def)
    have "do_create_calc_hack demo_fourth demo_gap = [1, 3]" by code_simp
    then show "length (do_create_calc_hack demo_fourth demo_gap) < unat (r_length (p_region demo_fourth))"
      by (simp add: demo_fourth_def)
  qed (simp_all add: demo_fourth_def valid_region_def get_end_def region_empty_def sectors_free_def
      parted_sector_adjustment_factor_def)
  then show ?thesis by (simp add: demo_fourth_def)
qed

section \<open>Where a resized partition is\<close>

definition part_ok :: "region \<Rightarrow> partition \<Rightarrow> bool" where
  "part_ok dev p \<longleftrightarrow> valid_region (p_region p) \<and> equal_block_size dev (p_region p)"
text \<open>The surrounding space of a partition in the region \<open>outer\<close> ends in it, before the next partition.\<close>

definition level :: "partition \<Rightarrow> ptable \<Rightarrow> partition list" where
  "level p pt = (if p_type p = LOGICAL then logicals pt else primaries pt)"

definition outer_region :: "partition \<Rightarrow> ptable \<Rightarrow> region result" where
  "outer_region p pt = (if p_type p = LOGICAL then emap p_region (get_extended pt) else get_usable_region pt)"

lemma usable_has: "get_usable_region pt = Inr u \<Longrightarrow> has_usable_region pt = Inr True"
  by (auto simp: get_usable_region_def has_usable_region_def Let_def result_simps split: if_splits)

lemma surrounding_end:
  assumes sur: "get_unused_surrounding_region p pt = Inr sur" and se: "get_end sur = Inr se"
    and out: "outer_region p pt = Inr u" "valid_region u" "blocks (p_region p) \<subseteq> blocks u"
    and r: "valid_region (p_region p)" and vs: "\<forall>q \<in> set (level p pt). valid_region (p_region q)"
  shows "r_block_size sur = ucast (get_block_size32 u)" and "last_block (p_region p) \<le> unat se"
    and "unat se \<le> last_block u"
    and "\<forall>q \<in> set (level p pt). last_block (p_region p) < unat (r_start (p_region q))
      \<longrightarrow> unat se < unat (r_start (p_region q))"
proof -
  obtain ue where ue: "get_end u = Inr ue" "unat ue = last_block u" using get_end_valid [OF out(2)] by blast
  obtain s s' e where loop: "efold (narrow_step (p_region p)) (level p pt) (s, ue) = Inr (s', e)"
    and new: "\<exists>n. region_new n (e - n + 1) (ucast (get_block_size32 u)) = Inr sur"
  proof (cases "p_type p = LOGICAL")
    case True
    then obtain ext s e where ext: "get_extended pt = Inr ext" "u = p_region ext"
      and "efold (narrow_step (p_region p)) (logicals pt) (r_start u, ue) = Inr (s, e)"
      and "region_new (s + num_ebrs) (e - (s + num_ebrs) + 1) (ucast (get_block_size32 u)) = Inr sur"
      using sur out(1) ue(1)
      by (auto simp: get_unused_surrounding_region_def logical_surrounding_def outer_region_def Let_def result_simps)
    with True show ?thesis by (intro that [of "r_start u" s e]) (auto simp: level_def)
  next
    case False
    then have gu: "get_usable_region pt = Inr u" using out(1) by (simp add: outer_region_def)
    obtain s e where
      "efold (narrow_step (p_region p)) (primaries pt) (min (r_start (p_region p)) (r_start u), ue) = Inr (s, e)"
      "region_new s (e - s + 1) (ucast (get_block_size32 u)) = Inr sur"
      using sur False gu usable_has [OF gu] ue(1)
      by (auto simp: get_unused_surrounding_region_def primary_surrounding_def result_simps)
    with False show ?thesis by (intro that [of "min (r_start (p_region p)) (r_start u)" s e]) (auto simp: level_def)
  qed
  from new obtain n where n: "sur = \<lparr>r_start = n, r_length = e - n + 1, r_block_size = ucast (get_block_size32 u)\<rparr>"
    by (auto simp: region_new_def split: if_splits)
  have "se = e" using se by (auto simp: n get_end_def region_empty_def split: if_splits)
  moreover have "last_block (p_region p) \<in> blocks u" using last_block_in_blocks [OF r] out(3) by blast
  then have "last_block (p_region p) \<le> unat ue" by (simp add: in_blocks_iff [OF out(2)] ue(2))
  ultimately show "last_block (p_region p) \<le> unat se" and "unat se \<le> last_block u"
    and "\<forall>q \<in> set (level p pt). last_block (p_region p) < unat (r_start (p_region q))
      \<longrightarrow> unat se < unat (r_start (p_region q))"
    using narrow_loop [OF loop r vs] ue(2) by simp_all
  show "r_block_size sur = ucast (get_block_size32 u)" by (simp add: n)
qed

lemma outer_facts:
  assumes "pt_ok pt" and "outer_region p pt = Inr u"
  shows "valid_region u" and "ucast (get_block_size32 u) = r_block_size (dev_region (pt_dev pt))"
    and "last_block u < 2 ^ 63 + 2 ^ 63"
proof -
  have dev: "dev_ok pt" using assms(1) by (simp add: pt_ok_def)
  have "valid_region u \<and> equal_block_size (dev_region (pt_dev pt)) u"
  proof (cases "p_type p = LOGICAL")
    case True
    then obtain ext where "get_extended pt = Inr ext" "u = p_region ext"
      using assms(2) by (auto simp: outer_region_def result_simps)
    with pt_ok_partition [OF assms(1)] get_extended_in show ?thesis by blast
  next
    case False
    then show ?thesis using usable_region_ok(1,2) [OF dev] assms(2) by (simp add: outer_region_def)
  qed
  then show "valid_region u" and "ucast (get_block_size32 u) = r_block_size (dev_region (pt_dev pt))"
    using dev_okD(3) [OF dev] by (simp_all add: equal_block_size_def get_block_size32_def)
  then show "last_block u < 2 ^ 63 + 2 ^ 63" using last_block_bound [of u] by simp
qed

lemma level_partitions: "set (level p pt) \<subseteq> set (get_partitions pt)"
  by (auto simp: level_def logicals_def primaries_def)

lemma resized_place:
  assumes ok: "pt_ok pt" and p: "p \<in> set (get_partitions pt)"
    and info: "partition_resize_info children p pt = Inr ri" "resize_ok ri" "allowed ri (unat bytes)"
    and least: "r_block_size (p_region p) \<le> bytes"
    and out: "outer_region p pt = Inr u" "blocks (p_region p) \<subseteq> blocks u"
    and new: "r = \<lparr>r_start = r_start (p_region p), r_length = bytes div r_block_size (p_region p),
      r_block_size = r_block_size (p_region p)\<rparr>"
  shows "part_ok (dev_region (pt_dev pt)) (p\<lparr>p_region := r\<rparr>)" and "blocks r \<subseteq> blocks u"
    and "\<forall>q \<in> set (level p pt). blocks (p_region p) \<inter> blocks (p_region q) = {} \<longrightarrow>
      blocks r \<inter> blocks (p_region q) = {}"
proof -
  let ?r = "p_region p" and ?bs = "r_block_size (p_region p)"
  have vr: "valid_region ?r" and eb: "?bs = r_block_size (dev_region (pt_dev pt))"
    using pt_ok_partition [OF ok p] by (simp_all add: equal_block_size_def)
  have vs: "\<forall>q \<in> set (level p pt). valid_region (p_region q)"
    using pt_ok_partition(1) [OF ok] level_partitions by blast
  note u = outer_facts [OF ok out(1)]
  obtain sur se re where lim: "get_unused_surrounding_region p pt = Inr sur" "get_end sur = Inr se"
    "get_end ?r = Inr re" "unat bytes \<le> unat ((r_length ?r + se - re) * r_block_size sur)"
    using partition_resize_limit [OF info] by metis
  note se = surrounding_end [OF lim(1,2) out(1) u(1) out(2) vr vs]
  have re: "unat re = last_block ?r" using get_end_valid [OF vr] lim(3) by auto
  have bs: "unat ?bs > 0" using vr by (simp add: valid_region_def unat_gt_0)
  have lr: "last_block ?r + 1 = unat (r_start ?r) + unat (r_length ?r)"
    using vr by (simp add: valid_region_def last_block_def)
  have start: "unat (r_start ?r) \<le> unat se" using start_le_last [OF vr] se(2) by simp
  have w: "r_length ?r + se - re = se - r_start ?r + 1"
  proof -
    have "re = r_start ?r + r_length ?r - 1" using lim(3) by (auto simp: get_end_def split: if_splits)
    then show ?thesis by simp
  qed
  have seb: "unat se + 1 < 18446744073709551616" using se(3) last_block_bound [OF u(1)] by linarith
  have uw: "unat (se - r_start ?r + 1) = unat se + 1 - unat (r_start ?r)"
    using start seb by (simp add: unat_add_no_wrap unat_sub_no_wrap)
  have "unat bytes \<le> unat ((se - r_start ?r + 1) * ?bs)" using lim(4) unfolding w se(1) u(2) eb .
  also have "\<dots> \<le> unat (se - r_start ?r + 1) * unat ?bs" by (simp add: unat_word_ariths)
  finally have "unat bytes div unat ?bs \<le> unat (se - r_start ?r + 1)"
    using bs by (metis div_le_mono nonzero_mult_div_cancel_right not_gr_zero)
  then have len: "unat (r_length r) \<le> unat se + 1 - unat (r_start ?r)" by (simp add: new unat_div uw)
  have "unat ?bs \<le> unat bytes" using least by (simp add: word_le_nat_alt)
  then have pos: "0 < unat (r_length r)" using bs by (simp add: new unat_div div_greater_zero_iff)
  have "valid_region r"
    using pos len start seb bs by (simp add: valid_region_def new unat_gt_0 word_neq_0_conv)
  then show "part_ok (dev_region (pt_dev pt)) (p\<lparr>p_region := r\<rparr>)"
    by (simp add: part_ok_def equal_block_size_def new eb)
  have sub: "blocks r \<subseteq> {unat (r_start ?r) .. unat se}" using len start by (auto simp: blocks_def new)
  have "unat (r_start ?r) \<in> blocks u" using start_le_last [OF vr] in_blocks_iff [OF vr] out(2) by auto
  then show "blocks r \<subseteq> blocks u" using sub se(3) by (auto simp: in_blocks_iff [OF u(1)])
  show "\<forall>q \<in> set (level p pt). blocks ?r \<inter> blocks (p_region q) = {} \<longrightarrow> blocks r \<inter> blocks (p_region q) = {}"
  proof (intro ballI impI)
    fix q assume q: "q \<in> set (level p pt)" and apart: "blocks ?r \<inter> blocks (p_region q) = {}"
    have vq: "valid_region (p_region q)" using vs q by blast
    show "blocks r \<inter> blocks (p_region q) = {}"
    proof (cases "last_block ?r < unat (r_start (p_region q))")
      case True
      then have "unat se < unat (r_start (p_region q))" using se(4) q by blast
      then show ?thesis using sub by (auto simp: in_blocks_iff [OF vq])
    next
      case False
      then have "last_block (p_region q) < unat (r_start ?r)"
        using apart start_le_last [OF vr] start_le_last [OF vq]
        by (auto simp: blocks_atLeastAtMost [OF vr] blocks_atLeastAtMost [OF vq])
      then show ?thesis using sub by (auto simp: in_blocks_iff [OF vq])
    qed
  qed
qed

end
