(* ===== verification/PartitionSteps.thy ===== *)
theory PartitionSteps
  imports Partitions
begin

text \<open>
  The partition table as a state machine: the steps a user of the library can take (create a
  partition in a free slot, delete a partition, resize one within the detected limits to at least
  a block, change its boot flag or id, commit), the tables reachable from an empty one,
  and the invariants every step keeps. First the layout (which blocks the partitions take), then
  the numbering.
\<close>

section \<open>Steps\<close>

definition is_possible :: "partition_slot \<Rightarrow> partition_type \<Rightarrow> bool" where
  "is_possible s t =
     (case t of
        PRIMARY \<Rightarrow> primary_possible s
      | EXTENDED \<Rightarrow> extended_possible_slot s
      | LOGICAL \<Rightarrow> logical_possible s)"

text \<open>After a commit every partition exists in the system.\<close>

definition committed :: "ptable \<Rightarrow> ptable" where
  "committed pt =
     pt\<lparr>pt_children := List.map (\<lambda>p. p\<lparr>p_in_system := True\<rparr>) (pt_children pt),
        pt_logicals := List.map (\<lambda>p. p\<lparr>p_in_system := True\<rparr>) (pt_logicals pt)\<rparr>"

inductive pt_step :: "ptable \<Rightarrow> ptable \<Rightarrow> bool" where
  step_create: "get_unused_partition_slots pt ALIGN_START_KEEP_END ty = Inr slots \<Longrightarrow>
    slot \<in> set slots \<Longrightarrow> is_possible slot t \<Longrightarrow>
    valid_region r \<Longrightarrow> equal_block_size (slot_region slot) r \<Longrightarrow>
    blocks r \<subseteq> blocks (slot_region slot) \<Longrightarrow>
    sid \<notin> p_sid ` set (pt_children pt @ pt_logicals pt) \<Longrightarrow>
    create_partition sid (slot_number slot) r t pt = Inr pt' \<Longrightarrow> pt_step pt pt'"
| step_delete: "p \<in> set (get_partitions pt) \<Longrightarrow> delete_partition p pt = Inr pt' \<Longrightarrow> pt_step pt pt'"
| step_resize: "p \<in> set (get_partitions pt) \<Longrightarrow> partition_resize_info children p pt = Inr ri \<Longrightarrow>
    resize_ok ri \<Longrightarrow> allowed ri (unat bytes) \<Longrightarrow> r_block_size (p_region p) \<le> bytes \<Longrightarrow>
    partition_set_size p bytes pt = Inr pt' \<Longrightarrow> pt_step pt pt'"
| step_boot: "p \<in> set (get_partitions pt) \<Longrightarrow> partition_set_boot p boot pt = Inr pt' \<Longrightarrow> pt_step pt pt'"
| step_id: "p \<in> set (get_partitions pt) \<Longrightarrow> partition_set_id caps (p_sid p) i pt = Inr pt' \<Longrightarrow> pt_step pt pt'"
| step_commit: "pt_step pt (committed pt)"

inductive pt_reachable :: "ptable \<Rightarrow> ptable \<Rightarrow> bool" for init where
  reach_init: "pt_reachable init init"
| reach_step: "pt_reachable init pt \<Longrightarrow> pt_step pt pt' \<Longrightarrow> pt_reachable init pt'"

inductive_cases pt_stepE: "pt_step pt pt'"

section \<open>Changes that keep everything but numbers and flags\<close>

text \<open>
  Two lists of partitions that differ in the numbers and in \<open>exists_in_system\<close> only.
\<close>

definition same_partition :: "partition \<Rightarrow> partition \<Rightarrow> bool" where
  "same_partition p q \<longleftrightarrow> p_sid p = p_sid q \<and> p_region p = p_region q \<and> p_type p = p_type q"

definition same_layout :: "ptable \<Rightarrow> ptable \<Rightarrow> bool" where
  "same_layout a b \<longleftrightarrow>
     pt_type a = pt_type b \<and> pt_dev a = pt_dev b \<and>
     pt_minimal_mbr_gap a = pt_minimal_mbr_gap b \<and>
     pt_partition_slots a = pt_partition_slots b \<and>
     list_all2 same_partition (pt_children a) (pt_children b) \<and>
     list_all2 same_partition (pt_logicals a) (pt_logicals b)"

lemma same_partition_map:
  "(\<And>p. same_partition p (f p)) \<Longrightarrow> list_all2 same_partition ps (List.map f ps)"
  by (simp add: list.rel_map list.rel_refl)

lemma same_layout_apply_numbers: "same_layout pt (apply_numbers_pt ns pt)"
  unfolding same_layout_def apply_numbers_pt_def apply_numbers_def
  by (auto intro!: same_partition_map simp: same_partition_def split: option.splits)

lemma same_layout_committed: "same_layout pt (committed pt)"
  unfolding same_layout_def committed_def
  by (auto intro!: same_partition_map simp: same_partition_def)

lemma same_partition_map_eq:
  assumes "list_all2 same_partition ps qs"
  shows "List.map p_sid ps = List.map p_sid qs" and "List.map p_region ps = List.map p_region qs"
    and "List.map p_type ps = List.map p_type qs"
    and "List.map (\<lambda>p. (p_sid p, p_region p, p_type p)) ps
       = List.map (\<lambda>p. (p_sid p, p_region p, p_type p)) qs"
  using assms by (induction rule: list_all2_induct) (auto simp: same_partition_def)

lemma usable_region_cong:
  assumes "pt_type a = pt_type b" "pt_dev a = pt_dev b"
    "pt_minimal_mbr_gap a = pt_minimal_mbr_gap b" "pt_partition_slots a = pt_partition_slots b"
  shows "get_usable_region a = get_usable_region b" and "dev_ok a = dev_ok b"
    and "max_primary a = max_primary b"
  unfolding get_usable_region_def unusable_sectors_defs dev_ok_def max_primary_defs assms
  by (rule refl)+

section \<open>The layout\<close>

text \<open>
  The layout of a table as a predicate on the list of its children and of its logical
  partitions, so that it does not mention numbers: every partition is a valid region of the
  device, the children are pairwise disjoint and inside the usable region \<open>u\<close>, there is at most
  one extended partition, and the logical partitions are pairwise disjoint and inside it.
\<close>

definition apart :: "partition list \<Rightarrow> bool" where
  "apart ps \<longleftrightarrow> (\<forall>p \<in> set ps. \<forall>q \<in> set ps. p_sid p \<noteq> p_sid q \<longrightarrow>
     blocks (p_region p) \<inter> blocks (p_region q) = {})"

definition pt_layout :: "ptable \<Rightarrow> bool" where
  "pt_layout pt \<longleftrightarrow>
     dev_ok pt \<and>
     (\<forall>p \<in> set (pt_children pt @ pt_logicals pt). part_ok (dev_region (pt_dev pt)) p) \<and>
     distinct (List.map p_sid (pt_children pt @ pt_logicals pt)) \<and>
     (\<forall>p \<in> set (pt_children pt). p_type p = PRIMARY \<or> p_type p = EXTENDED \<and> pt_type pt = MSDOS) \<and>
     (\<forall>p \<in> set (pt_logicals pt). p_type p = LOGICAL) \<and>
     length (filter (\<lambda>t. t = EXTENDED) (List.map p_type (pt_children pt))) \<le> 1 \<and>
     (\<forall>p \<in> set (pt_children pt). \<exists>u. get_usable_region pt = Inr u \<and> blocks (p_region p) \<subseteq> blocks u) \<and>
     apart (pt_children pt) \<and> apart (pt_logicals pt) \<and>
     (\<forall>p \<in> set (pt_logicals pt). \<exists>e \<in> set (pt_children pt).
        p_type e = EXTENDED \<and> blocks (p_region p) \<subseteq> blocks (p_region e))"

lemma list_all2_same_ball:
  assumes "list_all2 same_partition ps qs"
    and "\<And>p q. same_partition p q \<Longrightarrow> P p \<Longrightarrow> P q" and "\<forall>p \<in> set ps. P p"
  shows "\<forall>q \<in> set qs. P q"
  using assms by (metis in_set_conv_nth list_all2_conv_all_nth)

lemma list_all2_same_bex:
  assumes "list_all2 same_partition ps qs"
    and "\<And>p q. same_partition p q \<Longrightarrow> P p \<Longrightarrow> P q" and "\<exists>p \<in> set ps. P p"
  shows "\<exists>q \<in> set qs. P q"
  using assms by (metis in_set_conv_nth list_all2_conv_all_nth)

lemma apart_same:
  assumes "list_all2 same_partition ps qs" and "apart ps"
  shows "apart qs"
proof -
  have "\<exists>p' \<in> set ps. same_partition p' q" if "q \<in> set qs" for q
    using assms(1) that by (metis in_set_conv_nth list_all2_conv_all_nth)
  then show ?thesis
    using assms(2) unfolding apart_def same_partition_def by metis
qed

lemma pt_layout_same:
  assumes same: "same_layout a b" and lay: "pt_layout a"
  shows "pt_layout b"
proof -
  have ch: "list_all2 same_partition (pt_children a) (pt_children b)"
    and lo: "list_all2 same_partition (pt_logicals a) (pt_logicals b)"
    and ty: "pt_type a = pt_type b" and dev: "pt_dev a = pt_dev b"
    using same by (simp_all add: same_layout_def)
  have us: "get_usable_region a = get_usable_region b" and dok: "dev_ok a = dev_ok b"
    using same by (intro usable_region_cong; simp add: same_layout_def)+
  note eqs = same_partition_map_eq [OF ch] same_partition_map_eq [OF lo]
  let ?d = "dev_region (pt_dev b)"
  have "\<forall>p \<in> set (pt_children b). part_ok ?d p \<and>
      (p_type p = PRIMARY \<or> p_type p = EXTENDED \<and> pt_type b = MSDOS) \<and>
      (\<exists>u. get_usable_region b = Inr u \<and> blocks (p_region p) \<subseteq> blocks u)"
    using lay by (intro list_all2_same_ball [OF ch])
      (auto simp: pt_layout_def part_ok_def same_partition_def ty dev us)
  moreover have "\<forall>p \<in> set (pt_logicals b). part_ok ?d p \<and> p_type p = LOGICAL \<and>
      (\<exists>e \<in> set (pt_children b). p_type e = EXTENDED \<and> blocks (p_region p) \<subseteq> blocks (p_region e))"
  proof (rule list_all2_same_ball [OF lo])
    show "\<forall>p \<in> set (pt_logicals a). part_ok ?d p \<and> p_type p = LOGICAL \<and>
      (\<exists>e \<in> set (pt_children b). p_type e = EXTENDED \<and> blocks (p_region p) \<subseteq> blocks (p_region e))"
    proof
      fix p assume p: "p \<in> set (pt_logicals a)"
      have "\<exists>e \<in> set (pt_children b).
          p_type e = EXTENDED \<and> blocks (p_region p) \<subseteq> blocks (p_region e)"
        using lay p by (intro list_all2_same_bex [OF ch])
          (auto simp: pt_layout_def same_partition_def)
      then show "part_ok ?d p \<and> p_type p = LOGICAL \<and> (\<exists>e \<in> set (pt_children b).
          p_type e = EXTENDED \<and> blocks (p_region p) \<subseteq> blocks (p_region e))"
        using lay p by (auto simp: pt_layout_def dev)
    qed
  qed (auto simp: same_partition_def part_ok_def)
  moreover have "apart (pt_children b)" and "apart (pt_logicals b)"
    using lay apart_same [OF ch] apart_same [OF lo] by (simp_all add: pt_layout_def)
  moreover have "length (filter (\<lambda>t. t = EXTENDED) (List.map p_type (pt_children b))) \<le> 1"
    and "distinct (List.map p_sid (pt_children b @ pt_logicals b))" and "dev_ok b"
    using lay eqs dok by (simp_all add: pt_layout_def)
  ultimately show ?thesis by (auto simp: pt_layout_def)
qed

lemma pt_layout_partitions:
  assumes "pt_layout pt"
  shows "get_partitions pt = pt_children pt @ pt_logicals pt" and "pt_ok pt"
    and "set (primaries pt) = set (pt_children pt)" and "set (logicals pt) = set (pt_logicals pt)"
proof -
  have "pt_logicals pt = []" if "\<not> (pt_type pt = MSDOS \<and>
      list_ex (\<lambda>p. p_type p = EXTENDED) (pt_children pt))"
  proof (rule ccontr)
    assume "pt_logicals pt \<noteq> []"
    then obtain e where "e \<in> set (pt_children pt)" "p_type e = EXTENDED"
      using assms by (cases "pt_logicals pt") (auto simp: pt_layout_def)
    then show False using assms that by (auto simp: pt_layout_def list_ex_iff)
  qed
  then show parts: "get_partitions pt = pt_children pt @ pt_logicals pt"
    by (auto simp: get_partitions_def)
  show "pt_ok pt" using assms by (auto simp: pt_ok_def parts pt_layout_def part_ok_def)
  show "set (primaries pt) = set (pt_children pt)" and "set (logicals pt) = set (pt_logicals pt)"
    using assms by (auto simp: primaries_def logicals_def parts pt_layout_def)
qed

lemma extended_unique:
  assumes "length (filter (\<lambda>t. t = EXTENDED) (List.map p_type ps)) \<le> 1"
    and "p \<in> set ps" and "q \<in> set ps" and "p_type p = EXTENDED" and "p_type q = EXTENDED"
  shows "p = q"
proof -
  have "length (filter (\<lambda>p. p_type p = EXTENDED) ps) \<le> 1"
    using assms(1) by (simp add: filter_map comp_def)
  moreover have "p \<in> set (filter (\<lambda>p. p_type p = EXTENDED) ps)"
    and "q \<in> set (filter (\<lambda>p. p_type p = EXTENDED) ps)" using assms by auto
  ultimately show ?thesis
    by (cases "filter (\<lambda>p. p_type p = EXTENDED) ps") auto
qed

text \<open>Appending a child or a logical partition.\<close>

lemma apart_append:
  assumes "apart ps" and "\<forall>q \<in> set ps. blocks (p_region p) \<inter> blocks (p_region q) = {}"
  shows "apart (ps @ [p])"
  using assms by (auto simp: apart_def)

lemma apart_subset: "apart ps \<Longrightarrow> set qs \<subseteq> set ps \<Longrightarrow> apart qs"
  by (auto simp: apart_def)

lemma layout_add_child:
  assumes lay: "pt_layout pt" and p: "part_ok (dev_region (pt_dev pt)) p"
    and fresh: "p_sid p \<notin> p_sid ` set (pt_children pt @ pt_logicals pt)"
    and ty: "p_type p = PRIMARY \<or> p_type p = EXTENDED \<and> pt_type pt = MSDOS
       \<and> \<not> has_extended pt"
    and place: "\<exists>u. get_usable_region pt = Inr u \<and> blocks (p_region p) \<subseteq> blocks u"
    and free: "\<forall>q \<in> set (pt_children pt). blocks (p_region p) \<inter> blocks (p_region q) = {}"
  shows "pt_layout (pt\<lparr>pt_children := pt_children pt @ [p]\<rparr>)" (is "pt_layout ?pt'")
proof -
  have us: "get_usable_region ?pt' = get_usable_region pt" "dev_ok ?pt' = dev_ok pt"
    by (rule usable_region_cong; simp)+
  have "length (filter (\<lambda>t. t = EXTENDED) (List.map p_type (pt_children ?pt'))) \<le> 1"
  proof (cases "p_type p = EXTENDED")
    case True
    then have "filter (\<lambda>t. t = EXTENDED) (List.map p_type (pt_children pt)) = []"
      using ty by (auto simp: filter_empty_conv has_extended_def list_ex_iff)
    then show ?thesis by simp
  next
    case False
    then show ?thesis using lay by (simp add: pt_layout_def)
  qed
  moreover have "apart (pt_children pt @ [p])"
    using lay free by (intro apart_append) (auto simp: pt_layout_def)
  ultimately show ?thesis
    using lay p fresh ty place unfolding pt_layout_def us by auto
qed

lemma layout_add_logical:
  assumes lay: "pt_layout pt" and p: "part_ok (dev_region (pt_dev pt)) p"
    and fresh: "p_sid p \<notin> p_sid ` set (pt_children pt @ pt_logicals pt)"
    and ty: "p_type p = LOGICAL"
    and place: "\<exists>e. get_extended pt = Inr e \<and> blocks (p_region p) \<subseteq> blocks (p_region e)"
    and free: "\<forall>q \<in> set (pt_logicals pt). blocks (p_region p) \<inter> blocks (p_region q) = {}"
  shows "pt_layout (pt\<lparr>pt_logicals := pt_logicals pt @ [p]\<rparr>)" (is "pt_layout ?pt'")
proof -
  have us: "get_usable_region ?pt' = get_usable_region pt" "dev_ok ?pt' = dev_ok pt"
    by (rule usable_region_cong; simp)+
  have "apart (pt_logicals pt @ [p])"
    using lay free by (intro apart_append) (auto simp: pt_layout_def)
  then show ?thesis
    using lay p fresh ty place get_extended_in unfolding pt_layout_def us by auto
qed

lemma layout_remove:
  assumes lay: "pt_layout pt" and p: "p \<in> set (get_partitions pt)"
  shows "pt_layout (remove_partition p pt)" (is "pt_layout ?pt'")
proof -
  have us: "get_usable_region ?pt' = get_usable_region pt" "dev_ok ?pt' = dev_ok pt"
    by (rule usable_region_cong; simp add: remove_partition_def)+
  have frame: "pt_type ?pt' = pt_type pt" "pt_dev ?pt' = pt_dev pt"
    by (simp_all add: remove_partition_def)
  have ch: "set (pt_children ?pt') \<subseteq> set (pt_children pt)"
    and lo: "set (pt_logicals ?pt') \<subseteq> set (pt_logicals pt)"
    by (auto simp: remove_partition_def)
  have "length (filter (\<lambda>t. t = EXTENDED) (List.map p_type (pt_children ?pt')))
      \<le> length (filter (\<lambda>t. t = EXTENDED) (List.map p_type (pt_children pt)))"
  proof -
    have "filter (\<lambda>p. p_type p = EXTENDED) (pt_children ?pt')
        = filter (\<lambda>q. p_sid q \<noteq> p_sid p) (filter (\<lambda>p. p_type p = EXTENDED) (pt_children pt))"
      by (simp add: remove_partition_def conj_commute)
    then have "length (filter (\<lambda>p. p_type p = EXTENDED) (pt_children ?pt'))
        \<le> length (filter (\<lambda>p. p_type p = EXTENDED) (pt_children pt))"
      by (simp only: length_filter_le)
    then show ?thesis by (simp add: filter_map comp_def)
  qed
  then have ext: "length (filter (\<lambda>t. t = EXTENDED) (List.map p_type (pt_children ?pt'))) \<le> 1"
    using lay by (simp add: pt_layout_def)
  have dist: "distinct (List.map p_sid (pt_children ?pt' @ pt_logicals ?pt'))"
    using lay by (auto simp: pt_layout_def remove_partition_def distinct_map_filter)
  have "\<exists>e \<in> set (pt_children ?pt'). p_type e = EXTENDED \<and> blocks (p_region q) \<subseteq> blocks (p_region e)"
    if q: "q \<in> set (pt_logicals ?pt')" for q
  proof -
    have "p_type p \<noteq> EXTENDED" using q by (auto simp: remove_partition_def split: if_splits)
    have "\<forall>q \<in> set (pt_logicals pt). \<exists>e \<in> set (pt_children pt). p_type e = EXTENDED
        \<and> blocks (p_region q) \<subseteq> blocks (p_region e)"
      using lay by (simp add: pt_layout_def)
    with subsetD [OF lo q] obtain e where e: "e \<in> set (pt_children pt)" "p_type e = EXTENDED"
      "blocks (p_region q) \<subseteq> blocks (p_region e)" by blast
    have "p_sid e \<noteq> p_sid p"
    proof
      assume "p_sid e = p_sid p"
      moreover have "p \<in> set (pt_children pt @ pt_logicals pt)"
        using p by (simp add: pt_layout_partitions(1) [OF lay])
      moreover have "inj_on p_sid (set (pt_children pt @ pt_logicals pt))"
        using lay unfolding pt_layout_def distinct_map by blast
      ultimately have "e = p" using e(1) by (simp add: inj_on_def)
      with e(2) \<open>p_type p \<noteq> EXTENDED\<close> show False by simp
    qed
    with e show ?thesis by (auto simp: remove_partition_def)
  qed
  then show ?thesis
    using lay ch lo ext dist apart_subset [OF _ ch] apart_subset [OF _ lo]
    unfolding pt_layout_def us frame by (auto dest!: subsetD [OF ch] subsetD [OF lo])
qed

section \<open>Every step keeps the layout\<close>

lemma slots_cases:
  assumes "get_unused_partition_slots pt policy ty = Inr slots" and "slot \<in> set slots"
  obtains ps where "primary_slots pt policy ty = Inr ps" and "slot \<in> set ps"
  | ls where "logical_slots pt policy ty = Inr ls" and "slot \<in> set ls"
  using assms by (auto simp: get_unused_partition_slots_def result_simps split: if_splits)

lemma primary_slots_flags:
  assumes "primary_slots pt policy ty = Inr ps" and "s \<in> set ps"
  shows "primary_possible s = is_primary_possible pt"
    and "extended_possible_slot s = is_extended_possible pt" and "\<not> logical_possible s"
proof -
  define ss where "ss = sort_key p_number (get_partitions pt)"
  define used where "used = List.map p_region (filter (\<lambda>p. p_type p \<noteq> LOGICAL) ss)"
  have "ps \<noteq> []" using assms(2) by auto
  then obtain rs where
    loop: "efold (primary_slot_of pt (get_alignment pt ty) policy ss used) rs [] = Inr ps"
    using assms(1) by (auto simp: primary_slots_def Let_def result_simps ss_def used_def split: if_splits)
  have "\<forall>s \<in> set ps. primary_possible s = is_primary_possible pt
      \<and> extended_possible_slot s = is_extended_possible pt \<and> \<not> logical_possible s"
    by (rule efold_invariant [OF loop]) (auto elim!: primary_slot_of_cases)
  with assms(2) show "primary_possible s = is_primary_possible pt"
    and "extended_possible_slot s = is_extended_possible pt" and "\<not> logical_possible s" by auto
qed

lemma logical_slot_of_flags:
  assumes "logical_slot_of pt al policy ext r ss = Inr ss'"
    and "\<forall>s \<in> set ss. P s"
    and "\<And>r'. P \<lparr>slot_region = r', slot_number = max_primary pt + num_logical pt + 1,
      primary_slot = False, primary_possible = False, extended_slot = False,
      extended_possible_slot = False, logical_slot = True,
      logical_possible = is_logical_possible pt\<rparr>"
  shows "\<forall>s \<in> set ss'. P s"
  using assms
  by (auto simp: logical_slot_of_def Let_def ebind_eq_Inr split: if_splits prod.splits)

lemma logical_slots_flags:
  assumes "logical_slots pt policy ty = Inr ls" and "s \<in> set ls"
  shows "\<not> primary_possible s" and "\<not> extended_possible_slot s"
    and "logical_possible s = is_logical_possible pt"
    and "slot_number s = max_primary pt + num_logical pt + 1"
proof -
  have "ls \<noteq> []" using assms(2) by auto
  then obtain ext rs where
    loop: "efold (logical_slot_of pt (get_alignment pt ty) policy ext) rs [] = Inr ls"
    using assms(1) by (auto simp: logical_slots_def Let_def result_simps split: if_splits)
  have "\<forall>s \<in> set ls. \<not> primary_possible s \<and> \<not> extended_possible_slot s
      \<and> logical_possible s = is_logical_possible pt
      \<and> slot_number s = max_primary pt + num_logical pt + 1"
    by (rule efold_invariant [OF loop]) (simp, rule logical_slot_of_flags, assumption, simp_all)
  with assms(2) show "\<not> primary_possible s" and "\<not> extended_possible_slot s"
    and "logical_possible s = is_logical_possible pt"
    and "slot_number s = max_primary pt + num_logical pt + 1" by auto
qed

text \<open>The partition a create step adds, before a DASD table renumbers.\<close>

definition new_partition :: "nat \<Rightarrow> u32 \<Rightarrow> region \<Rightarrow> partition_type \<Rightarrow> partition" where
  "new_partition sid number r t =
     \<lparr>p_sid = sid, p_number = number, p_region = r, p_type = t,
      p_id = default_id_for_type t, p_boot = False, p_in_system = False\<rparr>"

definition add_partition :: "partition \<Rightarrow> ptable \<Rightarrow> ptable" where
  "add_partition p pt =
     (if p_type p = LOGICAL then pt\<lparr>pt_logicals := pt_logicals pt @ [p]\<rparr>
      else pt\<lparr>pt_children := pt_children pt @ [p]\<rparr>)"

lemma create_partition_cases:
  assumes "create_partition sid number r t pt = Inr pt'"
  obtains "pt_type pt \<noteq> DASD" and "pt' = add_partition (new_partition sid number r t) pt"
  | ns where "pt_type pt = DASD"
      and "dasd_shift r 1 (get_partitions (add_partition (new_partition sid number r t) pt)) = Inr ns"
      and "pt' = apply_numbers_pt ns (add_partition (new_partition sid number r t) pt)"
  using assms
  by (auto simp: create_partition_defs Let_def result_simps new_partition_def add_partition_def
      split: if_splits)

lemma create_same_layout:
  assumes "create_partition sid number r t pt = Inr pt'"
  shows "same_layout (add_partition (new_partition sid number r t) pt) pt'"
  using assms
proof (cases rule: create_partition_cases)
  case 1
  then show ?thesis
    by (auto simp: same_layout_def intro!: list.rel_refl) (auto simp: same_partition_def)
next
  case (2 ns)
  then show ?thesis using same_layout_apply_numbers by simp
qed

lemma same_layout_refl: "same_layout pt pt"
  by (simp add: same_layout_def list.rel_refl same_partition_def)

lemma same_layout_trans:
  assumes "same_layout a b" and "same_layout b c"
  shows "same_layout a c"
proof -
  have *: "list_all2 same_partition xs zs"
    if "list_all2 same_partition xs ys" "list_all2 same_partition ys zs" for xs ys zs
    by (rule list_all2_trans [OF _ that]) (simp add: same_partition_def)
  show ?thesis using assms * unfolding same_layout_def by metis
qed

lemma delete_same_layout:
  assumes "delete_partition p pt = Inr pt'"
  shows "same_layout (remove_partition p pt) pt'"
proof -
  have base: "same_layout (remove_partition p pt) (delete_partition_base p pt)"
    by (auto simp: delete_partition_base_def Let_def same_layout_refl same_layout_apply_numbers)
  show ?thesis
    using assms base
    by (auto simp: delete_partition_defs Let_def result_simps split: pt_class.splits if_splits
        intro: same_layout_trans same_layout_apply_numbers)
qed

lemma create_keeps_layout:
  assumes lay: "pt_layout pt"
    and slots: "get_unused_partition_slots pt ALIGN_START_KEEP_END ty = Inr slots"
    and slot: "slot \<in> set slots" and poss: "is_possible slot t"
    and r: "valid_region r" "equal_block_size (slot_region slot) r"
      "blocks r \<subseteq> blocks (slot_region slot)"
    and fresh: "sid \<notin> p_sid ` set (pt_children pt @ pt_logicals pt)"
  shows "pt_layout (add_partition (new_partition sid number r t) pt)"
proof -
  note parts = pt_layout_partitions [OF lay]
  let ?p = "new_partition sid number r t"
  have p: "p_sid ?p = sid" "p_region ?p = r" "p_type ?p = t" by (simp_all add: new_partition_def)
  from slots slot show ?thesis
  proof (cases rule: slots_cases)
    case (1 ps)
    note flags = primary_slots_flags [OF 1]
    have place: "primary_place pt (slot_region slot)"
      using primary_slot_place [OF parts(2) 1] by simp
    have t: "t \<noteq> LOGICAL" "t = EXTENDED \<Longrightarrow> pt_type pt = MSDOS \<and> \<not> has_extended pt"
      using poss flags
      by (auto simp: is_possible_def is_extended_possible_def extended_possible_def)
    have free: "\<forall>q \<in> set (pt_children pt). blocks r \<inter> blocks (p_region q) = {}"
      using place r(3) parts(3) unfolding primary_place_def by blast
    have "pt_layout (pt\<lparr>pt_children := pt_children pt @ [?p]\<rparr>)"
    proof (rule layout_add_child [OF lay])
      show "part_ok (dev_region (pt_dev pt)) ?p"
        using place r p by (simp add: part_ok_def primary_place_def equal_block_size_def)
      show "\<exists>u. get_usable_region pt = Inr u \<and> blocks (p_region ?p) \<subseteq> blocks u"
        using place r(3) p unfolding primary_place_def by auto
      show "p_type ?p = PRIMARY \<or> p_type ?p = EXTENDED \<and> pt_type pt = MSDOS \<and> \<not> has_extended pt"
        using t p by (cases t) auto
    qed (use fresh free p in auto)
    then show ?thesis using t p by (simp add: add_partition_def)
  next
    case (2 ls)
    note flags = logical_slots_flags [OF 2]
    have place: "logical_place pt (slot_region slot)"
      using logical_slot_place [OF parts(2) 2] by simp
    have t: "t = LOGICAL" using poss flags by (cases t) (auto simp: is_possible_def)
    have free: "\<forall>q \<in> set (pt_logicals pt). blocks r \<inter> blocks (p_region q) = {}"
      using place r(3) parts(4) unfolding logical_place_def by blast
    have "pt_layout (pt\<lparr>pt_logicals := pt_logicals pt @ [?p]\<rparr>)"
    proof (rule layout_add_logical [OF lay])
      show "part_ok (dev_region (pt_dev pt)) ?p"
        using place r p by (simp add: part_ok_def logical_place_def equal_block_size_def)
      show "\<exists>e. get_extended pt = Inr e \<and> blocks (p_region ?p) \<subseteq> blocks (p_region e)"
        using place r(3) p unfolding logical_place_def by auto
    qed (use fresh free p t in auto)
    then show ?thesis using t p by (simp add: add_partition_def)
  qed
qed

text \<open>A new region for one partition.\<close>

lemma inj_sid:
  assumes "distinct (List.map p_sid (pt_children pt @ pt_logicals pt))"
    and "p \<in> set (pt_children pt @ pt_logicals pt)" and "q \<in> set (pt_children pt @ pt_logicals pt)"
    and "p_sid q = p_sid p"
  shows "q = p"
  using assms unfolding distinct_map by (metis inj_onD)

lemma pt_layoutD:
  assumes "pt_layout pt"
  shows "dev_ok pt" and "\<And>p. p \<in> set (pt_children pt @ pt_logicals pt) \<Longrightarrow> part_ok (dev_region (pt_dev pt)) p"
    and "distinct (List.map p_sid (pt_children pt @ pt_logicals pt))"
    and "\<And>p. p \<in> set (pt_children pt) \<Longrightarrow> p_type p = PRIMARY \<or> p_type p = EXTENDED \<and> pt_type pt = MSDOS"
    and "\<And>p. p \<in> set (pt_logicals pt) \<Longrightarrow> p_type p = LOGICAL"
    and "length (filter (\<lambda>t. t = EXTENDED) (List.map p_type (pt_children pt))) \<le> 1"
    and "\<And>p. p \<in> set (pt_children pt) \<Longrightarrow> \<exists>u. get_usable_region pt = Inr u \<and> blocks (p_region p) \<subseteq> blocks u"
    and "apart (pt_children pt)" and "apart (pt_logicals pt)"
    and "\<And>p. p \<in> set (pt_logicals pt) \<Longrightarrow>
      \<exists>e \<in> set (pt_children pt). p_type e = EXTENDED \<and> blocks (p_region p) \<subseteq> blocks (p_region e)"
  using assms unfolding pt_layout_def by blast+

text \<open>The new region keeps the partitions of its level apart.\<close>

lemma apart_new_region:
  assumes ap: "apart qs" and f: "\<And>q. q \<in> set qs \<Longrightarrow> f q = (if q = p then p\<lparr>p_region := r\<rparr> else q)"
    and free: "p \<in> set qs \<Longrightarrow> \<forall>q \<in> set qs. blocks (p_region p) \<inter> blocks (p_region q) = {} \<longrightarrow>
      blocks r \<inter> blocks (p_region q) = {}"
  shows "apart (List.map f qs)"
  unfolding apart_def list.set_map
proof (intro ballI impI)
  fix a b assume "a \<in> f ` set qs" "b \<in> f ` set qs" and ne: "p_sid a \<noteq> p_sid b"
  then obtain a' b' where ab: "a' \<in> set qs" "b' \<in> set qs" "a = f a'" "b = f b'" by blast
  have fa: "a = (if a' = p then p\<lparr>p_region := r\<rparr> else a')" and fb: "b = (if b' = p then p\<lparr>p_region := r\<rparr> else b')"
    using f ab by blast+
  have "p_sid a' \<noteq> p_sid b'" using ne by (auto simp: fa fb split: if_splits)
  then have dis: "blocks (p_region a') \<inter> blocks (p_region b') = {}" "a' \<noteq> b'"
    using ap ab(1,2) unfolding apart_def by blast+
  consider "a' = p" | "b' = p" "a' \<noteq> p" | "a' \<noteq> p" "b' \<noteq> p" by blast
  then show "blocks (p_region a) \<inter> blocks (p_region b) = {}"
  proof cases
    case 1
    then have "blocks r \<inter> blocks (p_region b') = {}" using free ab(1,2) dis(1) by blast
    then show ?thesis using 1 dis(2) by (simp add: fa fb)
  next
    case 2
    then have "blocks r \<inter> blocks (p_region a') = {}" using free ab(1,2) dis(1) by blast
    then show ?thesis using 2 by (auto simp: fa fb)
  qed (use dis in \<open>simp add: fa fb\<close>)
qed

lemma layout_new_region:
  assumes lay: "pt_layout pt" and p: "p \<in> set (get_partitions pt)" and ne: "p_type p \<noteq> EXTENDED"
    and ok: "part_ok (dev_region (pt_dev pt)) (p\<lparr>p_region := r\<rparr>)"
    and place: "\<exists>u. outer_region p pt = Inr u \<and> blocks r \<subseteq> blocks u"
    and free: "\<forall>q \<in> set (level p pt). blocks (p_region p) \<inter> blocks (p_region q) = {} \<longrightarrow>
      blocks r \<inter> blocks (p_region q) = {}"
  shows "pt_layout (update_partition (p_sid p) (\<lambda>p. p\<lparr>p_region := r\<rparr>) pt)" (is "pt_layout ?pt'")
proof -
  define f :: "partition \<Rightarrow> partition" where "f q = (if p_sid q = p_sid p then q\<lparr>p_region := r\<rparr> else q)" for q
  note parts = pt_layout_partitions [OF lay] and d = pt_layoutD [OF lay]
  have pin: "p \<in> set (pt_children pt @ pt_logicals pt)" using p by (simp only: parts(1))
  have f: "f q = (if q = p then p\<lparr>p_region := r\<rparr> else q)" if "q \<in> set (pt_children pt @ pt_logicals pt)" for q
    using inj_sid [OF d(3) pin that] by (auto simp: f_def)
  have fs: "p_sid (f q) = p_sid q" "p_type (f q) = p_type q" for q by (simp_all add: f_def)
  have frame: "pt_type ?pt' = pt_type pt" "pt_dev ?pt' = pt_dev pt"
    "pt_children ?pt' = List.map f (pt_children pt)" "pt_logicals ?pt' = List.map f (pt_logicals pt)"
    by (simp_all add: update_partition_def f_def)
  have us: "get_usable_region ?pt' = get_usable_region pt" "dev_ok ?pt' = dev_ok pt"
    by (rule usable_region_cong; simp add: update_partition_def)+
  have same: "List.map p_sid (List.map f ps) = List.map p_sid ps" "List.map p_type (List.map f ps) = List.map p_type ps"
    for ps by (simp_all add: fs)
  have part: "part_ok (dev_region (pt_dev pt)) (f q)" if "q \<in> set (pt_children pt @ pt_logicals pt)" for q
    unfolding f [OF that] using ok d(2) [OF that] by simp
  have lvl: "p_type p = LOGICAL \<Longrightarrow> set (level p pt) = set (pt_logicals pt)"
    "p_type p \<noteq> LOGICAL \<Longrightarrow> set (level p pt) = set (pt_children pt)"
    by (simp_all add: level_def parts)
  have tys: "p \<in> set (pt_children pt) \<Longrightarrow> p_type p \<noteq> LOGICAL" "p \<in> set (pt_logicals pt) \<Longrightarrow> p_type p = LOGICAL"
    using d(4) [of p] d(5) [of p] by auto
  have "apart (List.map f (pt_children pt))"
    by (rule apart_new_region [OF d(8)]) (use f free lvl(2) tys(1) in auto)
  moreover have "apart (List.map f (pt_logicals pt))"
    by (rule apart_new_region [OF d(9)]) (use f free lvl(1) tys(2) in auto)
  moreover have "\<exists>u. get_usable_region pt = Inr u \<and> blocks (p_region (f q)) \<subseteq> blocks u"
    if q: "q \<in> set (pt_children pt)" for q
  proof (cases "q = p")
    case True
    have "p_type p \<noteq> LOGICAL" using q tys(1) unfolding True by blast
    with True place q f [of q] show ?thesis by (simp add: outer_region_def)
  next
    case False
    then show ?thesis using d(7) [OF q] q f [of q] by simp
  qed
  moreover have "\<exists>e \<in> f ` set (pt_children pt). p_type e = EXTENDED \<and> blocks (p_region (f q)) \<subseteq> blocks (p_region e)"
    if q: "q \<in> set (pt_logicals pt)" for q
  proof -
    have "\<exists>e \<in> set (pt_children pt). p_type e = EXTENDED \<and> blocks (p_region (f q)) \<subseteq> blocks (p_region e)"
    proof (cases "q = p")
      case True
      have "p_type p = LOGICAL" using q tys(2) unfolding True by blast
      then obtain e where "get_extended pt = Inr e" "blocks r \<subseteq> blocks (p_region e)"
        using place by (auto simp: outer_region_def result_simps)
      with get_extended_in [of pt e] True q f [of q] show ?thesis by auto
    next
      case False
      then show ?thesis using d(10) [OF q] q f [of q] by simp
    qed
    then obtain e where e: "e \<in> set (pt_children pt)" "p_type e = EXTENDED"
      "blocks (p_region (f q)) \<subseteq> blocks (p_region e)" by blast
    then have "f e = e" using f [of e] ne by auto
    then have "e \<in> f ` set (pt_children pt)" using e(1) by (metis imageI)
    with e show ?thesis by blast
  qed
  moreover have "part_ok (dev_region (pt_dev pt)) q" if "q \<in> f ` set (pt_children pt @ pt_logicals pt)" for q
    using part that by blast
  moreover have "p_type q = PRIMARY \<or> p_type q = EXTENDED \<and> pt_type pt = MSDOS" if "q \<in> f ` set (pt_children pt)" for q
    using that d(4) by (auto simp: fs(2) dest: d(4))
  moreover have "p_type q = LOGICAL" if "q \<in> f ` set (pt_logicals pt)" for q
    using that d(5) fs(2) by auto
  ultimately show ?thesis
    unfolding pt_layout_def us frame map_append [symmetric] same list.set_map using d(1,3,6) by blast
qed

lemma layout_extended:
  assumes lay: "pt_layout pt" and e: "e \<in> set (pt_children pt)" "p_type e = EXTENDED"
  shows "get_extended pt = Inr e"
proof -
  have ms: "pt_type pt = MSDOS" using lay e unfolding pt_layout_def by auto
  obtain x where x: "find (\<lambda>p. p_type p = EXTENDED) (pt_children pt) = Some x"
    using e by (cases "find (\<lambda>p. p_type p = EXTENDED) (pt_children pt)") (auto simp: find_None_iff)
  then have "x \<in> set (pt_children pt)" "p_type x = EXTENDED" by (auto simp: find_Some_iff)
  moreover have "length (filter (\<lambda>t. t = EXTENDED) (List.map p_type (pt_children pt))) \<le> 1"
    using lay unfolding pt_layout_def by blast
  ultimately have "x = e" using extended_unique e by blast
  then show ?thesis using x ms by (simp add: get_extended_def)
qed

lemma get_usable_child:
  assumes "pt_layout pt" and "p \<in> set (get_partitions pt)"
  shows "\<exists>u. outer_region p pt = Inr u \<and> blocks (p_region p) \<subseteq> blocks u"
proof (cases "p_type p = LOGICAL")
  case True
  then have "p \<in> set (pt_logicals pt)"
    using assms by (auto simp: pt_layout_partitions(1) [OF assms(1)] pt_layout_def)
  then obtain e where e: "e \<in> set (pt_children pt)" "p_type e = EXTENDED" "blocks (p_region p) \<subseteq> blocks (p_region e)"
    using assms(1) by (auto simp: pt_layout_def)
  have "get_extended pt = Inr e" by (rule layout_extended [OF assms(1) e(1,2)])
  then show ?thesis using True e(3) by (simp add: outer_region_def)
next
  case False
  then have "p \<in> set (pt_children pt)"
    using assms by (auto simp: pt_layout_partitions(1) [OF assms(1)] pt_layout_def)
  then show ?thesis using assms(1) False by (simp add: pt_layout_def outer_region_def)
qed

lemma set_size_cases:
  assumes "partition_set_size p bytes pt = Inr pt'"
  obtains r where "r = \<lparr>r_start = r_start (p_region p), r_length = bytes div r_block_size (p_region p),
      r_block_size = r_block_size (p_region p)\<rparr>"
    and "pt' = update_partition (p_sid p) (\<lambda>p. p\<lparr>p_region := r\<rparr>) pt"
  using assms
  by (auto simp: partition_set_size_def partition_set_region_def to_blocks_def region_new_def result_simps
      split: if_splits)

lemma resize_keeps_layout:
  assumes lay: "pt_layout pt" and p: "p \<in> set (get_partitions pt)"
    and info: "partition_resize_info children p pt = Inr ri" "resize_ok ri" "allowed ri (unat bytes)"
    and least: "r_block_size (p_region p) \<le> bytes" and eq: "partition_set_size p bytes pt = Inr pt'"
  shows "pt_layout pt'"
proof -
  obtain u where u: "outer_region p pt = Inr u" "blocks (p_region p) \<subseteq> blocks u"
    using get_usable_child [OF lay p] by blast
  have ne: "p_type p \<noteq> EXTENDED" using partition_resize_limit [OF info] by metis
  obtain r where r: "r = \<lparr>r_start = r_start (p_region p), r_length = bytes div r_block_size (p_region p),
      r_block_size = r_block_size (p_region p)\<rparr>"
    and pt': "pt' = update_partition (p_sid p) (\<lambda>p. p\<lparr>p_region := r\<rparr>) pt"
    using eq by (rule set_size_cases)
  note place = resized_place [OF pt_layout_partitions(2) [OF lay] p info least u r]
  show ?thesis unfolding pt'
    by (rule layout_new_region [OF lay p ne place(1) _ place(3)]) (use u(1) place(2) in blast)
qed

text \<open>Changes of ids and flags.\<close>

lemma same_layout_update:
  assumes "\<And>q. same_partition q (f q)"
  shows "same_layout pt (update_partition sid f pt)"
  using assms by (auto simp: same_layout_def update_partition_def same_partition_def intro!: same_partition_map)

lemma set_id_same_layout: "partition_set_id caps sid i pt = Inr pt' \<Longrightarrow> same_layout pt pt'"
  by (auto simp: partition_set_id_def same_partition_def intro!: same_layout_update split: if_splits)

lemma clear_boot_same_layout:
  "same_layout pt (fold (\<lambda>q. update_partition (p_sid q) (\<lambda>q. q\<lparr>p_boot := False\<rparr>)) qs pt)"
proof (induction qs arbitrary: pt)
  case Nil
  then show ?case by (simp add: same_layout_refl)
next
  case (Cons q qs)
  have "same_layout pt (update_partition (p_sid q) (\<lambda>q. q\<lparr>p_boot := False\<rparr>) pt)"
    by (rule same_layout_update) (simp add: same_partition_def)
  then show ?case using Cons.IH same_layout_trans by simp
qed

lemma set_boot_same_layout:
  assumes "partition_set_boot p boot pt = Inr pt'"
  shows "same_layout pt pt'"
proof -
  have "same_layout qt (update_partition (p_sid p) (\<lambda>q. q\<lparr>p_boot := boot\<rparr>) qt)" for qt
    by (rule same_layout_update) (simp add: same_partition_def)
  then show ?thesis
    using assms clear_boot_same_layout same_layout_trans
    by (auto simp: partition_set_boot_def Let_def split: if_splits) blast
qed

lemma pt_step_layout: "pt_step pt pt' \<Longrightarrow> pt_layout pt \<Longrightarrow> pt_layout pt'"
proof (induction rule: pt_step.induct)
  case (step_create pt ty slots slot t r sid pt')
  from create_keeps_layout [OF step_create.prems step_create.hyps(1-7)]
    create_same_layout [OF step_create.hyps(8)]
  show ?case by (rule pt_layout_same [rotated])
next
  case (step_delete p pt pt')
  from layout_remove [OF step_delete.prems step_delete.hyps(1)]
    delete_same_layout [OF step_delete.hyps(2)]
  show ?case by (rule pt_layout_same [rotated])
next
  case (step_resize p pt children ri bytes pt')
  from resize_keeps_layout [OF step_resize.prems step_resize.hyps] show ?case .
next
  case (step_boot p pt boot pt')
  from pt_layout_same [OF set_boot_same_layout [OF step_boot.hyps(2)] step_boot.prems] show ?case .
next
  case (step_id p pt caps i pt')
  from pt_layout_same [OF set_id_same_layout [OF step_id.hyps(2)] step_id.prems] show ?case .
next
  case (step_commit pt)
  from pt_layout_same [OF same_layout_committed step_commit] show ?case .
qed

lemma pt_layout_new: "dev_ok (ptable_new c dev) \<Longrightarrow> pt_layout (ptable_new c dev)"
  by (simp add: pt_layout_def ptable_new_def apart_def)

lemma pt_reachable_layout:
  assumes "pt_reachable init pt" and "pt_layout init"
  shows "pt_layout pt"
  using assms by (induction rule: pt_reachable.induct) (auto intro: pt_step_layout)

end
