(* ===== verification/PartitionNumbers.thy ===== *)
theory PartitionNumbers
  imports PartitionSteps
begin

text \<open>
  The numbers of the partitions. The least free number is the one a new primary partition gets;
  the deletion of a partition moves the numbers of those behind it that are not on disk. In every
  reachable MS-DOS or GPT table the numbers are distinct and within the bounds of the table, with
  the logical partitions numbered without a gap behind the primary ones; in every reachable DASD
  table the number of a partition is its position on the disk.
\<close>

section \<open>Moving the numbers of new partitions\<close>

definition new_number :: "(nat \<times> u32) list \<Rightarrow> partition \<Rightarrow> u32" where
  "new_number ns p = (case map_of ns (p_sid p) of Some n \<Rightarrow> n | None \<Rightarrow> p_number p)"

lemma apply_numbers_number:
  "apply_numbers ns ps = List.map (\<lambda>p. p\<lparr>p_number := new_number ns p\<rparr>) ps"
  by (auto simp: apply_numbers_def new_number_def split: option.splits)

lemma apply_numbers_pt_lists:
  "pt_children (apply_numbers_pt ns pt) = List.map (\<lambda>p. p\<lparr>p_number := new_number ns p\<rparr>) (pt_children pt)"
  "pt_logicals (apply_numbers_pt ns pt) = List.map (\<lambda>p. p\<lparr>p_number := new_number ns p\<rparr>) (pt_logicals pt)"
  by (simp_all add: apply_numbers_pt_def apply_numbers_number)

lemma shift_new_sids: "fst ` set (shift_new old ps) \<subseteq> p_sid ` set ps"
  by (induction old ps rule: shift_new.induct) auto

lemma new_number_skip: "p_sid p \<notin> fst ` set ns \<Longrightarrow> new_number ns p = p_number p"
  by (auto simp: new_number_def map_of_eq_None_iff [symmetric] simp del: map_of_eq_None_iff)

lemma new_number_Cons:
  "new_number ((s, n) # ns) p = (if p_sid p = s then n else new_number ns p)"
  by (simp add: new_number_def)

lemma shift_new_numbers:
  assumes "sorted_wrt (<) (List.map p_number ps)" and "distinct (List.map p_sid ps)"
    and "old \<notin> p_number ` set ps"
  shows "inj_on (new_number (shift_new old ps)) (set ps)
    \<and> (\<forall>p \<in> set ps. p_type p = LOGICAL \<longrightarrow> new_number (shift_new old ps) p = p_number p)
    \<and> (\<forall>p \<in> set ps. p_in_system p \<longrightarrow> new_number (shift_new old ps) p = p_number p)
    \<and> (\<forall>p \<in> set ps. new_number (shift_new old ps) p \<le> p_number p)
    \<and> (\<forall>p \<in> set ps. p_type p \<noteq> LOGICAL \<longrightarrow> new_number (shift_new old ps) p
         \<in> insert old (p_number ` {q \<in> set ps. p_type q \<noteq> LOGICAL}))"
  using assms
proof (induction old ps rule: shift_new.induct)
  case (1 old)
  then show ?case by simp
next
  case (2 old p ps)
  let ?moves = "(p_type p = PRIMARY \<or> p_type p = EXTENDED) \<and> old < p_number p \<and> \<not> p_in_system p"
  have less: "\<forall>q \<in> set ps. p_number p < p_number q" using "2.prems"(1) by simp
  have sid: "\<forall>q \<in> set ps. p_sid q \<noteq> p_sid p" using "2.prems"(2)
    by (metis distinct.simps(2) image_eqI list.simps(9) list.set_map)
  have old: "old \<notin> p_number ` set ps" "p_number p \<notin> p_number ` set ps" "old \<noteq> p_number p"
    using "2.prems"(3) less by auto
  show ?case
  proof (cases ?moves)
    case True
    let ?ns = "shift_new (p_number p) ps"
    have ih: "inj_on (new_number ?ns) (set ps)"
      "\<forall>q \<in> set ps. p_type q = LOGICAL \<longrightarrow> new_number ?ns q = p_number q"
      "\<forall>q \<in> set ps. p_in_system q \<longrightarrow> new_number ?ns q = p_number q"
      "\<forall>q \<in> set ps. new_number ?ns q \<le> p_number q"
      "\<forall>q \<in> set ps. p_type q \<noteq> LOGICAL \<longrightarrow> new_number ?ns q
         \<in> insert (p_number p) (p_number ` {q \<in> set ps. p_type q \<noteq> LOGICAL})"
      using "2.IH"(1) [OF True] "2.prems" old by auto
    have tail: "new_number (shift_new old (p # ps)) q = new_number ?ns q" if "q \<in> set ps" for q
      using True sid that by (auto simp: new_number_Cons)
    have head: "new_number (shift_new old (p # ps)) p = old"
      using True by (auto simp: new_number_Cons)
    have "old \<notin> new_number ?ns ` set ps"
    proof
      assume "old \<in> new_number ?ns ` set ps"
      then obtain q where "q \<in> set ps" "old = new_number ?ns q" by auto
      then show False using ih(2,5) old by (cases "p_type q = LOGICAL") auto
    qed
    moreover have "inj_on (new_number (shift_new old (p # ps))) (set ps)"
      using ih(1) tail by (simp add: inj_on_def)
    ultimately have "inj_on (new_number (shift_new old (p # ps))) (set (p # ps))"
      using tail head by (auto simp: inj_on_insert)
    moreover have "p_type p \<noteq> LOGICAL" "\<not> p_in_system p" "old \<le> p_number p" using True by auto
    ultimately show ?thesis using ih(2-5) tail head by auto
  next
    case False
    let ?ns = "shift_new old ps"
    have ih: "inj_on (new_number ?ns) (set ps)"
      "\<forall>q \<in> set ps. p_type q = LOGICAL \<longrightarrow> new_number ?ns q = p_number q"
      "\<forall>q \<in> set ps. p_in_system q \<longrightarrow> new_number ?ns q = p_number q"
      "\<forall>q \<in> set ps. new_number ?ns q \<le> p_number q"
      "\<forall>q \<in> set ps. p_type q \<noteq> LOGICAL \<longrightarrow> new_number ?ns q
         \<in> insert old (p_number ` {q \<in> set ps. p_type q \<noteq> LOGICAL})"
      using "2.IH"(2) [OF False] "2.prems" old by auto
    have ns: "shift_new old (p # ps) = ?ns" using False by auto
    have head: "new_number ?ns p = p_number p"
      using shift_new_sids [of old ps] sid by (intro new_number_skip) auto
    have "p_number p \<notin> new_number ?ns ` set ps"
    proof
      assume "p_number p \<in> new_number ?ns ` set ps"
      then obtain q where "q \<in> set ps" "p_number p = new_number ?ns q" by auto
      then show False using ih(2,5) old by (cases "p_type q = LOGICAL") auto
    qed
    then have "inj_on (new_number ?ns) (set (p # ps))" using ih(1) head by auto
    then show ?thesis unfolding ns using ih(2-5) head by auto
  qed
qed

section \<open>The invariants\<close>

text \<open>
  MS-DOS and GPT: the numbers of the children are distinct and at most \<open>max_primary\<close>, the logical
  partitions have the numbers after \<open>max_primary\<close> without a gap.
\<close>

definition slot_numbers :: "ptable \<Rightarrow> bool" where
  "slot_numbers pt \<longleftrightarrow>
     distinct (List.map p_number (pt_children pt)) \<and>
     (\<forall>p \<in> set (pt_children pt). 1 \<le> p_number p \<and> p_number p \<le> max_primary pt) \<and>
     distinct (List.map p_number (pt_logicals pt)) \<and>
     (unat \<circ> p_number) ` set (pt_logicals pt)
       = {unat (max_primary pt) <.. unat (max_primary pt) + length (pt_logicals pt)} \<and>
     unat (max_primary pt) + length (pt_logicals pt) < 4294967296"

text \<open>DASD: the number of a partition is one more than the number of partitions before it.\<close>

definition dasd_rank :: "region \<Rightarrow> partition list \<Rightarrow> nat" where
  "dasd_rank r ps = length (filter (\<lambda>q. r_start (p_region q) < r_start r) ps)"

definition dasd_numbers :: "ptable \<Rightarrow> bool" where
  "dasd_numbers pt \<longleftrightarrow>
     (\<forall>p \<in> set (pt_children pt).
        p_number p = word_of_nat (1 + dasd_rank (p_region p) (pt_children pt))) \<and>
     length (pt_children pt) \<le> unat (max_primary pt)"

definition pt_numbers :: "ptable \<Rightarrow> bool" where
  "pt_numbers pt \<longleftrightarrow> (case pt_type pt of
     DASD \<Rightarrow> dasd_numbers pt | IMPLICIT \<Rightarrow> True | _ \<Rightarrow> slot_numbers pt)"

text \<open>The number of the children, the way \<open>is_primary_possible\<close> computes it.\<close>

lemma count_children:
  assumes lay: "pt_layout pt" and len: "length (pt_children pt) < 4294967296"
  shows "is_primary_possible pt \<longleftrightarrow> length (pt_children pt) < unat (max_primary pt)"
proof -
  let ?P = "filter (\<lambda>p. p_type p = PRIMARY) (pt_children pt)"
  let ?E = "filter (\<lambda>p. p_type p = EXTENDED) (pt_children pt)"
  have ty: "\<forall>p \<in> set (pt_children pt). p_type p = PRIMARY \<or> p_type p = EXTENDED \<and> pt_type pt = MSDOS"
    and log: "\<forall>p \<in> set (pt_logicals pt). p_type p = LOGICAL"
    using lay unfolding pt_layout_def by simp_all
  have one: "length ?E \<le> 1"
    using lay by (simp add: pt_layout_def filter_map comp_def)
  have "filter (\<lambda>p. \<not> p_type p = PRIMARY) (pt_children pt) = ?E"
    by (rule filter_cong [OF refl]) (use ty in auto)
  then have sum: "length ?P + length ?E = length (pt_children pt)"
    using sum_length_filter_compl [of "\<lambda>p. p_type p = PRIMARY" "pt_children pt"] by simp
  have "filter (\<lambda>p. p_type p = PRIMARY) (pt_logicals pt) = []"
    using log by (auto simp: filter_empty_conv)
  then have np: "num_primary pt = word_of_nat (length ?P)"
    by (simp add: num_primary_def count_type_def pt_layout_partitions(1) [OF lay])
  have ext: "has_extended pt \<longleftrightarrow> ?E \<noteq> []"
    using ty by (auto simp: has_extended_def list_ex_iff filter_empty_conv)
  have "(if has_extended pt then 1 else 0) = (word_of_nat (length ?E) :: u32)"
  proof (cases "?E = []")
    case False
    then have "length ?E = 1" using one by (metis One_nat_def le_SucE le_zero_eq length_0_conv)
    then show ?thesis using ext False by (simp only: if_True refl of_nat_1 not_False_eq_True)
  qed (use ext in simp)
  then have "num_primary pt + (if has_extended pt then 1 else 0)
      = word_of_nat (length ?P + length ?E)"
    unfolding np of_nat_add by (rule arg_cong)
  then have "num_primary pt + (if has_extended pt then 1 else 0)
      = word_of_nat (length (pt_children pt))"
    by (simp only: sum)
  moreover have "unat (word_of_nat (length (pt_children pt)) :: u32) = length (pt_children pt)"
    by (rule unat_word_of_nat) (use len in simp)
  ultimately show ?thesis by (simp only: is_primary_possible_def word_less_nat_alt)
qed

lemma distinct_bound:
  assumes "distinct (List.map p_number ps)" and "\<forall>p \<in> set ps. 1 \<le> p_number p \<and> p_number p \<le> n"
  shows "length ps \<le> unat n"
proof -
  let ?A = "(unat \<circ> p_number) ` set ps"
  have "inj_on (unat \<circ> p_number) (set ps)"
    using assms(1) by (auto simp: distinct_map inj_on_def) (metis word_unat_eq_iff)
  then have "card ?A = card (set ps)" by (rule card_image)
  moreover have "distinct ps" using assms(1) by (simp add: distinct_map)
  ultimately have "card ?A = length ps" by (simp add: distinct_card)
  moreover have "?A \<subseteq> {1..unat n}"
    using assms(2) by (auto simp: word_le_nat_alt)
  ultimately show ?thesis using card_mono [of "{1..unat n}" ?A] by simp
qed

lemma slot_numbers_parts:
  assumes lay: "pt_layout pt" and nums: "slot_numbers pt"
  shows "distinct (List.map p_number (get_partitions pt))"
    and "\<forall>p \<in> set (get_partitions pt). 1 \<le> p_number p"
    and "\<forall>p \<in> set (pt_logicals pt). max_primary pt < p_number p"
    and "length (get_partitions pt) < 4294967296"
proof -
  note parts = pt_layout_partitions(1) [OF lay]
  show log: "\<forall>p \<in> set (pt_logicals pt). max_primary pt < p_number p"
  proof
    fix p assume "p \<in> set (pt_logicals pt)"
    then have "(unat \<circ> p_number) p
        \<in> {unat (max_primary pt) <.. unat (max_primary pt) + length (pt_logicals pt)}"
      using nums unfolding slot_numbers_def by blast
    then show "max_primary pt < p_number p" by (simp add: word_less_nat_alt)
  qed
  have ch: "\<forall>p \<in> set (pt_children pt). 1 \<le> p_number p \<and> p_number p \<le> max_primary pt"
    using nums by (simp add: slot_numbers_def)
  have "p_number ` set (pt_children pt) \<inter> p_number ` set (pt_logicals pt) = {}"
    using ch log by (force dest: bspec)
  then show "distinct (List.map p_number (get_partitions pt))"
    using nums by (simp add: parts slot_numbers_def)
  show "\<forall>p \<in> set (get_partitions pt). 1 \<le> p_number p"
  proof
    fix p assume "p \<in> set (get_partitions pt)"
    then consider "p \<in> set (pt_children pt)" | "p \<in> set (pt_logicals pt)"
      by (auto simp: parts)
    then show "1 \<le> p_number p"
      using ch log by cases (auto simp: word_le_nat_alt word_less_nat_alt)
  qed
  have "length (pt_children pt) \<le> unat (max_primary pt)"
    using distinct_bound [OF _ ch] nums by (simp add: slot_numbers_def)
  then show "length (get_partitions pt) < 4294967296"
    using nums by (simp add: parts slot_numbers_def)
qed

section \<open>Creating a partition\<close>

lemma primary_slots_number:
  assumes "primary_slots pt policy ty = Inr ps" and "s \<in> set ps"
  shows "(if pt_type pt = DASD
      then emap (\<lambda>n. n + 1) (count_before (slot_region s) (List.map p_region
             (filter (\<lambda>p. p_type p \<noteq> LOGICAL) (sort_key p_number (get_partitions pt)))))
      else Inr (first_missing_number p_number (sort_key p_number (get_partitions pt)) 1)) = Inr (slot_number s)"
proof -
  define ss where "ss = sort_key p_number (get_partitions pt)"
  define used where "used = List.map p_region (filter (\<lambda>p. p_type p \<noteq> LOGICAL) ss)"
  have "ps \<noteq> []" using assms(2) by auto
  then obtain rs where
    loop: "efold (primary_slot_of pt (get_alignment pt ty) policy ss used) rs [] = Inr ps"
    using assms(1) by (auto simp: primary_slots_def Let_def result_simps ss_def used_def split: if_splits)
  have "\<forall>s \<in> set ps. (if pt_type pt = DASD
      then emap (\<lambda>n. n + 1) (count_before (slot_region s) used)
      else Inr (first_missing_number p_number ss 1)) = Inr (slot_number s)"
    by (rule efold_invariant [OF loop]) (simp, erule primary_slot_of_cases, auto split: if_splits)
  with assms(2) show ?thesis unfolding used_def ss_def by blast
qed

lemma sorted_parts:
  assumes "distinct (List.map p_number ps)"
  shows "sorted_wrt (<) (List.map p_number (sort_key p_number ps))"
proof -
  have "distinct (List.map p_number (sort_key p_number ps))"
    using assms by (simp add: distinct_map)
  then show ?thesis by (simp add: strict_sorted_iff)
qed

lemma primary_number_free:
  assumes lay: "pt_layout pt" and nums: "slot_numbers pt" and poss: "is_primary_possible pt"
  defines "n \<equiv> first_missing_number p_number (sort_key p_number (get_partitions pt)) 1"
  shows "1 \<le> n" and "n \<le> max_primary pt" and "n \<notin> p_number ` set (pt_children pt)"
proof -
  note parts = pt_layout_partitions(1) [OF lay]
  note np = slot_numbers_parts [OF lay nums]
  have ch: "\<forall>p \<in> set (pt_children pt). 1 \<le> p_number p \<and> p_number p \<le> max_primary pt"
    and dc: "distinct (List.map p_number (pt_children pt))"
    using nums by (simp_all add: slot_numbers_def)
  have bound: "length (pt_children pt) \<le> unat (max_primary pt)" by (rule distinct_bound [OF dc ch])
  then have "length (pt_children pt) < 4294967296" by (rule le_less_trans) simp
  then have room: "length (pt_children pt) < unat (max_primary pt)"
    using poss count_children [OF lay] by simp
  let ?ss = "sort_key p_number (get_partitions pt)"
  have f: "n \<notin> p_number ` set ?ss \<and> 1 \<le> n \<and> unat n \<le> unat (1::u32) + length ?ss
      \<and> (\<forall>m. 1 \<le> m \<and> m < n \<longrightarrow> m \<in> p_number ` set ?ss)"
    if "length (get_partitions pt) < 4294967295"
    unfolding n_def
    by (rule first_missing_number_free [OF sorted_parts [OF np(1)]]) (use np(2) that in auto)
  have len: "length (get_partitions pt) < 4294967295"
    using nums room by (simp add: slot_numbers_def parts)
  show "1 \<le> n" and "n \<notin> p_number ` set (pt_children pt)" using f [OF len] by (auto simp: parts)
  show "n \<le> max_primary pt"
  proof (rule ccontr)
    assume "\<not> n \<le> max_primary pt"
    then have gt: "unat (max_primary pt) < unat n" by (simp add: word_le_nat_alt)
    have "{1..unat (max_primary pt)} \<subseteq> (unat \<circ> p_number) ` set (pt_children pt)"
    proof
      fix k assume k: "k \<in> {1..unat (max_primary pt)}"
      then have "k < 4294967296" using unat_lt32 [of "max_primary pt"] by (simp del: unat_lt32)
      then have uk: "unat (word_of_nat k :: u32) = k" by (simp add: unat_word_of_nat)
      have "1 \<le> (word_of_nat k :: u32)" "(word_of_nat k :: u32) < n"
        using k gt uk by (simp_all add: word_le_nat_alt word_less_nat_alt)
      then obtain p where p: "p \<in> set (get_partitions pt)" "word_of_nat k = p_number p"
        using f [OF len] by auto
      have "\<not> max_primary pt < p_number p"
        using k uk p(2) by (auto simp: word_less_nat_alt)
      then have "p \<in> set (pt_children pt)" using p(1) np(3) by (auto simp: parts)
      then show "k \<in> (unat \<circ> p_number) ` set (pt_children pt)" using p(2) uk by force
    qed
    then have "unat (max_primary pt) \<le> card ((unat \<circ> p_number) ` set (pt_children pt))"
      using card_mono [of "(unat \<circ> p_number) ` set (pt_children pt)" "{1..unat (max_primary pt)}"]
      by simp
    also have "\<dots> \<le> length (pt_children pt)"
      by (rule order_trans [OF card_image_le card_length]) simp
    finally show False using room by simp
  qed
qed

lemma max_primary_add: "max_primary (add_partition p pt) = max_primary pt"
  by (rule usable_region_cong(3)) (simp_all add: add_partition_def)

lemma create_primary_numbers:
  assumes lay: "pt_layout pt" and nums: "slot_numbers pt" and poss: "is_primary_possible pt"
    and t: "t \<noteq> LOGICAL"
  shows "slot_numbers (add_partition (new_partition sid
    (first_missing_number p_number (sort_key p_number (get_partitions pt)) 1) r t) pt)"
  using nums primary_number_free [OF lay nums poss] t
  unfolding slot_numbers_def max_primary_add
  by (simp add: add_partition_def new_partition_def)

text \<open>The bounds on the logical partitions make sense when the device has a range above five.\<close>

lemma logical_room:
  assumes lay: "pt_layout pt" and nums: "slot_numbers pt" and poss: "is_logical_possible pt"
    and range: "6 \<le> dev_range (pt_dev pt)"
  shows "unat (max_primary pt) + length (pt_logicals pt) < unat (max_logical pt)"
    and "unat (max_primary pt + num_logical pt + 1)
      = unat (max_primary pt) + length (pt_logicals pt) + 1"
proof -
  note parts = pt_layout_partitions(1) [OF lay]
  have msdos: "pt_type pt = MSDOS" using poss by (simp add: is_logical_possible_def has_extended_def)
  have r: "6 \<le> unat (dev_range (pt_dev pt))" using range by (simp add: word_le_nat_alt)
  then have u: "unat (dev_range (pt_dev pt) - 1) = unat (dev_range (pt_dev pt)) - 1"
    by (subst unat_sub_no_wrap) auto
  have mp: "unat (max_primary pt) = 4"
    using msdos r u by (simp add: max_primary_defs word_nat)
  have m: "6 \<le> unat (min default_range (dev_range (pt_dev pt)))" using r by (simp add: word_nat)
  then have ml: "unat (max_logical pt) = min 256 (unat (dev_range (pt_dev pt))) - 1"
    using msdos by (simp add: max_logical_def msdos_max_logical_def Let_def word_less_nat_alt
        unat_sub_no_wrap unat_min)
  have sub: "unat (max_logical pt - max_primary pt) = unat (max_logical pt) - 4"
    using mp ml r by (subst unat_sub_no_wrap) auto
  have "filter (\<lambda>p. p_type p = LOGICAL) (pt_children pt) = []"
    using lay by (auto simp: pt_layout_def filter_empty_conv)
  moreover have "filter (\<lambda>p. p_type p = LOGICAL) (pt_logicals pt) = pt_logicals pt"
    using lay by (auto simp: pt_layout_def filter_id_conv)
  ultimately have "num_logical pt = word_of_nat (length (pt_logicals pt))"
    using msdos by (simp add: num_logical_def count_type_def parts)
  then have nl: "unat (num_logical pt) = length (pt_logicals pt)"
    using nums by (simp add: slot_numbers_def unat_word_of_nat)
  have "unat (num_logical pt) < unat (max_logical pt) - 4"
    using poss sub by (simp add: is_logical_possible_def word_less_nat_alt)
  then show room: "unat (max_primary pt) + length (pt_logicals pt) < unat (max_logical pt)"
    using nl mp by simp
  then have lt: "unat (max_primary pt) + length (pt_logicals pt) < 256" using ml by simp
  have a: "unat (max_primary pt + num_logical pt) = unat (max_primary pt) + length (pt_logicals pt)"
    using lt nl by (subst unat_add_no_wrap) auto
  show "unat (max_primary pt + num_logical pt + 1)
      = unat (max_primary pt) + length (pt_logicals pt) + 1"
    using a lt by (subst unat_add_no_wrap) auto
qed

lemma create_logical_numbers:
  assumes lay: "pt_layout pt" and nums: "slot_numbers pt" and poss: "is_logical_possible pt"
    and range: "6 \<le> dev_range (pt_dev pt)"
  shows "slot_numbers (add_partition (new_partition sid
    (max_primary pt + num_logical pt + 1) r LOGICAL) pt)"
proof -
  note room = logical_room [OF lay nums poss range]
  let ?n = "max_primary pt + num_logical pt + 1"
  have img: "(unat \<circ> p_number) ` set (pt_logicals pt)
      = {unat (max_primary pt) <.. unat (max_primary pt) + length (pt_logicals pt)}"
    using nums by (simp only: slot_numbers_def)
  have "?n \<notin> p_number ` set (pt_logicals pt)"
  proof
    assume "?n \<in> p_number ` set (pt_logicals pt)"
    then have "unat ?n \<in> (unat \<circ> p_number) ` set (pt_logicals pt)" by auto
    then show False unfolding img room(2) by simp
  qed
  moreover have "{unat (max_primary pt) <.. unat (max_primary pt) + length (pt_logicals pt) + 1}
      = insert (unat ?n) {unat (max_primary pt) <.. unat (max_primary pt) + length (pt_logicals pt)}"
    unfolding room(2) by auto
  moreover have "unat (max_primary pt) + length (pt_logicals pt) + 1 < 4294967296"
    using room(1) unat_lt32 [of "max_logical pt"] by (simp del: unat_lt32)
  ultimately show ?thesis
    using nums img unfolding slot_numbers_def max_primary_add
    by (simp add: add_partition_def new_partition_def)
qed

section \<open>Deleting a partition\<close>

lemma delete_base_primary:
  assumes lay: "pt_layout pt" and nums: "slot_numbers pt" and p: "p \<in> set (get_partitions pt)"
    and ty: "pt_type pt = GPT \<or> pt_type pt = MSDOS" and pr: "p_type p \<noteq> LOGICAL"
  shows "slot_numbers (delete_partition_base p pt)"
    and "\<forall>q \<in> set (get_partitions (remove_partition p pt)). p_in_system q \<longrightarrow>
      new_number (shift_new (p_number p) (sort_key p_number (get_partitions (remove_partition p pt)))) q
      = p_number q"
proof -
  let ?pt = "remove_partition p pt"
  let ?ss = "sort_key p_number (get_partitions ?pt)"
  let ?ns = "shift_new (p_number p) ?ss"
  note parts = pt_layout_partitions(1) [OF lay]
  have lay': "pt_layout ?pt" by (rule layout_remove [OF lay p])
  note parts' = pt_layout_partitions(1) [OF lay']
  have pc: "p \<in> set (pt_children pt)" using p pr lay by (auto simp: parts pt_layout_def)
  note np = slot_numbers_parts [OF lay nums]
  have sub: "set (get_partitions ?pt) \<subseteq> set (get_partitions pt)"
    unfolding parts parts' by (auto simp: remove_partition_def)
  have ne: "q \<noteq> p" if "q \<in> set (get_partitions ?pt)" for q
    using that pr lay unfolding parts'
    by (auto simp: remove_partition_def pt_layout_def split: if_splits)
  have inj: "inj_on p_number (set (get_partitions pt))" using np(1) by (simp add: distinct_map)
  have old: "p_number p \<notin> p_number ` set (get_partitions ?pt)"
    using inj sub ne p unfolding inj_on_def by blast
  have sid: "distinct (List.map p_sid (get_partitions ?pt))"
    using lay' unfolding parts' pt_layout_def by blast
  have dist: "distinct (List.map p_number (get_partitions ?pt))"
    using sid inj_on_subset [OF inj sub] by (simp add: distinct_map)
  have sids: "distinct (List.map p_sid ?ss)" using sid by (simp add: distinct_map)
  have s: "inj_on (new_number ?ns) (set ?ss)
      \<and> (\<forall>q \<in> set ?ss. p_type q = LOGICAL \<longrightarrow> new_number ?ns q = p_number q)
      \<and> (\<forall>q \<in> set ?ss. p_in_system q \<longrightarrow> new_number ?ns q = p_number q)
      \<and> (\<forall>q \<in> set ?ss. new_number ?ns q \<le> p_number q)
      \<and> (\<forall>q \<in> set ?ss. p_type q \<noteq> LOGICAL \<longrightarrow> new_number ?ns q
           \<in> insert (p_number p) (p_number ` {q \<in> set ?ss. p_type q \<noteq> LOGICAL}))"
    by (rule shift_new_numbers [OF sorted_parts [OF dist] sids]) (use old in simp)
  then show "\<forall>q \<in> set (get_partitions ?pt). p_in_system q \<longrightarrow> new_number ?ns q = p_number q"
    by simp
  have inj': "inj_on (new_number ?ns) (set (pt_children ?pt) \<union> set (pt_logicals ?pt))"
    using s parts' by simp
  have log: "\<forall>q \<in> set (pt_logicals ?pt). new_number ?ns q = p_number q"
    using s lay' parts' by (simp add: pt_layout_def)
  have range: "\<forall>q \<in> set (pt_children ?pt). 1 \<le> new_number ?ns q \<and> new_number ?ns q \<le> max_primary pt"
  proof
    fix q assume q: "q \<in> set (pt_children ?pt)"
    have "p_type q \<noteq> LOGICAL" using q lay' by (auto simp: pt_layout_def)
    then have "new_number ?ns q \<in> insert (p_number p) (p_number ` {q \<in> set ?ss. p_type q \<noteq> LOGICAL})"
      using s q parts' by simp
    also have "\<dots> \<subseteq> p_number ` set (pt_children pt)"
      using pc sub lay by (auto simp: parts pt_layout_def)
    finally show "1 \<le> new_number ?ns q \<and> new_number ?ns q \<le> max_primary pt"
      using nums by (auto simp: slot_numbers_def)
  qed
  have eq: "delete_partition_base p pt = apply_numbers_pt ?ns ?pt"
    using ty pr by (cases "p_type p") (auto simp: delete_partition_base_def Let_def)
  have mp: "max_primary (apply_numbers_pt ?ns ?pt) = max_primary pt"
    by (rule usable_region_cong(3)) (simp_all add: apply_numbers_pt_def remove_partition_def)
  have dc: "distinct (pt_children ?pt)"
    using sid unfolding parts' by (simp add: distinct_map)
  have ch: "distinct (List.map (new_number ?ns) (pt_children ?pt))"
    using inj' dc by (simp add: distinct_map inj_on_Un)
  have lo: "pt_logicals ?pt = pt_logicals pt \<or> pt_logicals ?pt = []"
  proof (cases "p_type p = EXTENDED")
    case False
    have "p_sid q \<noteq> p_sid p" if "q \<in> set (pt_logicals pt)" for q
      using lay pc that unfolding pt_layout_def by auto
    then show ?thesis using False by (auto simp: remove_partition_def filter_id_conv)
  qed (simp add: remove_partition_def)
  have lmap: "List.map (new_number ?ns) (pt_logicals ?pt) = List.map p_number (pt_logicals ?pt)"
    using log by simp
  show "slot_numbers (delete_partition_base p pt)"
    unfolding slot_numbers_def eq mp
  proof (intro conjI)
    show "distinct (List.map p_number (pt_children (apply_numbers_pt ?ns ?pt)))"
      using ch by (simp add: apply_numbers_pt_def apply_numbers_number comp_def)
    show "\<forall>q \<in> set (pt_children (apply_numbers_pt ?ns ?pt)). 1 \<le> p_number q \<and> p_number q \<le> max_primary pt"
      using range by (simp add: apply_numbers_pt_def apply_numbers_number)
    show "distinct (List.map p_number (pt_logicals (apply_numbers_pt ?ns ?pt)))"
    proof -
      have "distinct (List.map p_number (pt_logicals ?pt))"
        using lo nums by (auto simp: slot_numbers_def)
      then have "distinct (List.map (new_number ?ns) (pt_logicals ?pt))" by (simp only: lmap)
      then show ?thesis by (simp add: apply_numbers_pt_def apply_numbers_number comp_def)
    qed
    have "(unat \<circ> p_number) ` set (pt_logicals (apply_numbers_pt ?ns ?pt))
        = (unat \<circ> p_number) ` set (pt_logicals ?pt)"
      using log by (simp add: apply_numbers_pt_def apply_numbers_number image_image)
    then show "(unat \<circ> p_number) ` set (pt_logicals (apply_numbers_pt ?ns ?pt))
        = {unat (max_primary pt) <.. unat (max_primary pt)
            + length (pt_logicals (apply_numbers_pt ?ns ?pt))}"
      using lo nums by (auto simp: apply_numbers_pt_def apply_numbers_number slot_numbers_def)
    show "unat (max_primary pt) + length (pt_logicals (apply_numbers_pt ?ns ?pt)) < 4294967296"
      using lo nums by (auto simp: apply_numbers_pt_def apply_numbers_number slot_numbers_def)
  qed
qed

lemma new_number_map:
  assumes "distinct (List.map p_sid qs)" and "q \<in> set qs"
  shows "new_number (List.map (\<lambda>q. (p_sid q, f q)) (filter P qs)) q = (if P q then f q else p_number q)"
proof -
  let ?m = "List.map (\<lambda>q. (p_sid q, f q)) (filter P qs)"
  have inj: "inj_on p_sid (set qs)" and d: "distinct qs" using assms(1) by (simp_all add: distinct_map)
  have "map fst ?m = map p_sid (filter P qs)" by (simp add: comp_def)
  moreover have "distinct (map p_sid (filter P qs))" by (rule distinct_map_filter [OF assms(1)])
  ultimately have dm: "distinct (map fst ?m)" by (simp only:)
  show ?thesis
  proof (cases "P q")
    case True
    then have "(p_sid q, f q) \<in> set ?m" using assms(2) by auto
    then have "map_of ?m (p_sid q) = Some (f q)" using dm by (simp only: map_of_eq_Some_iff)
    then show ?thesis using True by (simp add: new_number_def)
  next
    case False
    have "p_sid q \<notin> fst ` set ?m"
    proof
      assume "p_sid q \<in> fst ` set ?m"
      then obtain x where "x \<in> set qs" "P x" "p_sid x = p_sid q" by auto
      with inj_onD [OF inj this(3) this(1) assms(2)] False show False by simp
    qed
    then show ?thesis using False by (simp add: new_number_skip)
  qed
qed

lemma shift_down_image:
  fixes a n old :: nat
  assumes "old \<in> {a <.. a + n}"
  shows "(\<lambda>m. if old < m then m - 1 else m) ` ({a <.. a + n} - {old}) = {a <.. a + (n - 1)}"
    (is "?f ` ?S = ?T")
proof
  show "?f ` ?S \<subseteq> ?T"
  proof
    fix x assume "x \<in> ?f ` ?S"
    then obtain m where "m \<in> ?S" and m4: "x = ?f m" by (rule imageE)
    then have m: "a < m" "m \<le> a + n" "m \<noteq> old" by simp_all
    then show "x \<in> ?T" using assms m4 by (cases "old < m") auto
  qed
  show "?T \<subseteq> ?f ` ?S"
  proof
    fix m assume m: "m \<in> ?T"
    show "m \<in> ?f ` ?S"
    proof (cases "m < old")
      case True
      then show ?thesis using m assms by (intro image_eqI [of _ _ m]) auto
    next
      case False
      then show ?thesis using m assms by (intro image_eqI [of _ _ "m + 1"]) auto
    qed
  qed
qed

lemma delete_logical_numbers:
  assumes lay: "pt_layout pt" and nums: "slot_numbers pt" and p: "p \<in> set (get_partitions pt)"
    and lg: "p_type p = LOGICAL" and ty: "pt_type pt = MSDOS"
  shows "\<exists>pt'. delete_partition p pt = Inr pt' \<and> slot_numbers pt'"
proof -
  let ?pt = "remove_partition p pt"
  let ?ns = "List.map (\<lambda>q. (p_sid q, p_number q - 1))
    (filter (\<lambda>q. p_number p < p_number q) (get_partitions ?pt))"
  let ?a = "unat (max_primary pt)" and ?n = "length (pt_logicals pt)"
  let ?f = "\<lambda>m::nat. if unat (p_number p) < m then m - 1 else m"
  note parts = pt_layout_partitions(1) [OF lay]
  have lay': "pt_layout ?pt" by (rule layout_remove [OF lay p])
  note parts' = pt_layout_partitions(1) [OF lay']
  have sid: "distinct (List.map p_sid (get_partitions ?pt))"
    and sid0: "distinct (List.map p_sid (pt_children pt @ pt_logicals pt))"
    using lay lay' unfolding parts' pt_layout_def by blast+
  have chty: "\<forall>q \<in> set (pt_children pt). p_type q \<noteq> LOGICAL"
    using lay unfolding pt_layout_def by auto
  have pl: "p \<in> set (pt_logicals pt)" using p lg chty by (auto simp: parts)
  have ch: "pt_children ?pt = pt_children pt"
    using sid0 pl by (auto simp: remove_partition_def filter_id_conv)
  have lo: "pt_logicals ?pt = filter (\<lambda>q. p_sid q \<noteq> p_sid p) (pt_logicals pt)"
    using lg by (simp add: remove_partition_def)
  have injs: "inj_on p_sid (set (pt_logicals pt))" using sid0 by (simp add: distinct_map)
  then have los: "set (pt_logicals ?pt) = set (pt_logicals pt) - {p}"
    using pl unfolding lo by (auto simp: inj_on_def)
  have img: "(unat \<circ> p_number) ` set (pt_logicals pt) = {?a <.. ?a + ?n}"
    and dn: "distinct (List.map p_number (pt_logicals pt))" and bound: "?a + ?n < 4294967296"
    and cn: "\<forall>q \<in> set (pt_children pt). 1 \<le> p_number q \<and> p_number q \<le> max_primary pt"
    using nums unfolding slot_numbers_def by blast+
  have inj: "inj_on (unat \<circ> p_number) (set (pt_logicals pt))"
    using dn by (auto simp: distinct_map inj_on_def) (metis word_unat_eq_iff)
  have old: "unat (p_number p) \<in> {?a <.. ?a + ?n}" using pl img by (metis comp_apply imageI)
  have img': "(unat \<circ> p_number) ` set (pt_logicals ?pt) = {?a <.. ?a + ?n} - {unat (p_number p)}"
    unfolding los using inj_on_image_set_diff [OF inj, of "set (pt_logicals pt)" "{p}"] pl img by simp
  have nn: "new_number ?ns q = (if p_number p < p_number q then p_number q - 1 else p_number q)"
    if "q \<in> set (get_partitions ?pt)" for q
    by (rule new_number_map [OF sid that])
  have unn: "(unat \<circ> new_number ?ns) q = (?f \<circ> (unat \<circ> p_number)) q"
    if "q \<in> set (pt_logicals ?pt)" for q
  proof -
    have "unat (p_number q - 1) = unat (p_number q) - 1" if "p_number p < p_number q"
      using that by (subst unat_sub_no_wrap) (auto simp: word_less_nat_alt)
    then show ?thesis using nn [of q] that by (auto simp: parts' word_less_nat_alt)
  qed
  have cnn: "new_number ?ns q = p_number q" if "q \<in> set (pt_children pt)" for q
  proof -
    have "\<not> p_number p < p_number q" using cn that old by (auto simp: word_le_nat_alt word_less_nat_alt)
    then show ?thesis using nn [of q] that by (simp add: parts' ch)
  qed
  have lens: "length (pt_logicals ?pt) = ?n - 1"
  proof -
    have "distinct (pt_logicals ?pt)" "distinct (pt_logicals pt)"
      using sid0 lo by (simp_all add: distinct_map)
    then show ?thesis using los pl by (metis card_Diff_singleton distinct_card)
  qed
  have newset: "(unat \<circ> new_number ?ns) ` set (pt_logicals ?pt) = {?a <.. ?a + (?n - 1)}"
  proof -
    have "(unat \<circ> new_number ?ns) ` set (pt_logicals ?pt) = (?f \<circ> (unat \<circ> p_number)) ` set (pt_logicals ?pt)"
      by (rule image_cong [OF refl unn])
    also have "\<dots> = ?f ` ({?a <.. ?a + ?n} - {unat (p_number p)})"
      unfolding img' [symmetric] image_comp ..
    also have "\<dots> = {?a <.. ?a + (?n - 1)}" by (rule shift_down_image [OF old])
    finally show ?thesis .
  qed
  have newdist: "distinct (List.map (new_number ?ns) (pt_logicals ?pt))"
  proof -
    have "card ((unat \<circ> new_number ?ns) ` set (pt_logicals ?pt)) = length (pt_logicals ?pt)"
      unfolding newset lens by simp
    then have "distinct (List.map (unat \<circ> new_number ?ns) (pt_logicals ?pt))"
      by (intro card_distinct) (simp only: list.set_map length_map)
    then show ?thesis by (auto simp: distinct_map inj_on_def)
  qed
  let ?pt' = "apply_numbers_pt ?ns ?pt"
  have eq: "delete_partition p pt = Inr ?pt'"
    using ty lg by (simp add: delete_partition_defs delete_partition_base_def Let_def)
  have mp: "max_primary ?pt' = max_primary pt"
    by (rule usable_region_cong(3)) (simp_all add: apply_numbers_pt_def remove_partition_def)
  have cmap: "List.map (new_number ?ns) (pt_children pt) = List.map p_number (pt_children pt)"
    using cnn by simp
  have "slot_numbers ?pt'"
    unfolding slot_numbers_def mp
  proof (intro conjI)
    have "distinct (List.map (new_number ?ns) (pt_children pt))"
      using nums unfolding cmap slot_numbers_def by simp
    then show "distinct (List.map p_number (pt_children ?pt'))"
      by (simp add: apply_numbers_pt_def apply_numbers_number comp_def ch)
    show "\<forall>q \<in> set (pt_children ?pt'). 1 \<le> p_number q \<and> p_number q \<le> max_primary pt"
      using cn cnn by (simp add: apply_numbers_pt_def apply_numbers_number ch)
    show "distinct (List.map p_number (pt_logicals ?pt'))"
      using newdist by (simp add: apply_numbers_pt_def apply_numbers_number comp_def)
    show "(unat \<circ> p_number) ` set (pt_logicals ?pt') = {?a <.. ?a + length (pt_logicals ?pt')}"
      using newset lens by (simp add: apply_numbers_pt_def apply_numbers_number image_image comp_def)
    show "?a + length (pt_logicals ?pt') < 4294967296"
      using bound lens by (simp add: apply_numbers_pt_def apply_numbers_number)
  qed
  then show ?thesis using eq by blast
qed

section \<open>DASD tables\<close>

lemma dasd_shift_eq:
  assumes "\<forall>p \<in> set ps. equal_block_size r (p_region p)"
  shows "dasd_shift r d ps = Inr (List.map (\<lambda>p. (p_sid p, p_number p + d))
    (filter (\<lambda>p. r_start r < r_start (p_region p)) ps))"
  using assms by (induction ps) (simp_all add: region_less_def)

lemma count_before_eq:
  assumes "\<forall>p \<in> set ps. equal_block_size (p_region p) r"
  shows "count_before r (List.map p_region ps) = Inr (word_of_nat (dasd_rank r ps))"
  using assms by (induction ps) (simp_all add: region_less_def dasd_rank_def emap_def)

lemma dasd_rank_map:
  assumes "\<And>p. p_region (f p) = p_region p"
  shows "dasd_rank r (List.map f ps) = dasd_rank r ps"
  using assms by (simp add: dasd_rank_def filter_map comp_def)

lemma dasd_rank_append:
  "dasd_rank r (ps @ [p]) = dasd_rank r ps + (if r_start (p_region p) < r_start r then 1 else 0)"
  by (simp add: dasd_rank_def)

lemma dasd_rank_remove:
  assumes "distinct (List.map p_sid ps)" and "p \<in> set ps"
  shows "dasd_rank r ps = dasd_rank r (filter (\<lambda>q. p_sid q \<noteq> p_sid p) ps)
    + (if r_start (p_region p) < r_start r then 1 else 0)"
  using assms
proof (induction ps)
  case (Cons a ps)
  show ?case
  proof (cases "a = p")
    case True
    then have "\<forall>q \<in> set ps. p_sid q \<noteq> p_sid p"
      using Cons.prems(1) by (metis distinct.simps(2) image_eqI list.simps(9) list.set_map)
    then have "filter (\<lambda>q. p_sid q \<noteq> p_sid p) ps = ps" by (simp add: filter_id_conv)
    then show ?thesis using True by (simp add: dasd_rank_def)
  next
    case False
    then have "p \<in> set ps" using Cons.prems(2) by simp
    moreover from this have "p_sid a \<noteq> p_sid p"
      using Cons.prems(1) by (metis distinct.simps(2) image_eqI list.simps(9) list.set_map)
    ultimately show ?thesis using Cons by (simp add: dasd_rank_def)
  qed
qed simp

lemma dasd_parts:
  assumes "pt_layout pt" and "pt_type pt = DASD"
  shows "pt_logicals pt = []" and "get_partitions pt = pt_children pt"
    and "\<forall>p \<in> set (pt_children pt). p_type p = PRIMARY"
    and "distinct (List.map p_sid (pt_children pt))"
    and "\<forall>p \<in> set (pt_children pt). part_ok (dev_region (pt_dev pt)) p"
proof -
  show ty: "\<forall>p \<in> set (pt_children pt). p_type p = PRIMARY"
    using assms unfolding pt_layout_def by auto
  have "\<forall>p \<in> set (pt_logicals pt). \<exists>e \<in> set (pt_children pt). p_type e = EXTENDED"
    using assms(1) unfolding pt_layout_def by blast
  then show l: "pt_logicals pt = []" using ty by (cases "pt_logicals pt") auto
  then show "get_partitions pt = pt_children pt" by (simp add: pt_layout_partitions(1) [OF assms(1)])
  show "distinct (List.map p_sid (pt_children pt))"
    using assms(1) l unfolding pt_layout_def by simp
  show "\<forall>p \<in> set (pt_children pt). part_ok (dev_region (pt_dev pt)) p"
    using assms(1) unfolding pt_layout_def by simp
qed

lemma dasd_create_numbers:
  assumes lay: "pt_layout pt" and nums: "dasd_numbers pt" and ty: "pt_type pt = DASD"
    and slots: "primary_slots pt ALIGN_START_KEEP_END aty = Inr ps" and slot: "slot \<in> set ps"
    and poss: "is_primary_possible pt" and t: "t \<noteq> LOGICAL"
    and r: "valid_region r" "equal_block_size (slot_region slot) r"
      "blocks r \<subseteq> blocks (slot_region slot)"
    and fresh: "sid \<notin> p_sid ` set (pt_children pt @ pt_logicals pt)"
    and eq: "create_partition sid (slot_number slot) r t pt = Inr pt'"
  shows "dasd_numbers pt'"
proof -
  let ?p = "new_partition sid (slot_number slot) r t"
  let ?c = "pt_children pt"
  note d = dasd_parts [OF lay ty]
  have place: "primary_place pt (slot_region slot)"
    using primary_slot_place [OF pt_layout_partitions(2) [OF lay] slots slot] by simp
  have bs: "\<forall>p \<in> set ?c. equal_block_size (p_region p) (slot_region slot)"
    using d(5) place by (auto simp: part_ok_def primary_place_def equal_block_size_def)
  have start: "r_start (p_region q) < r_start (slot_region slot) \<longleftrightarrow> r_start (p_region q) < r_start r"
    if q: "q \<in> set ?c" for q
  proof -
    have vq: "valid_region (p_region q)" using d(5) q by (simp add: part_ok_def)
    then have "unat (r_start (p_region q)) \<in> blocks (p_region q)"
      by (auto simp: blocks_def valid_region_def)
    moreover have "blocks (slot_region slot) \<inter> blocks (p_region q) = {}"
      using place q pt_layout_partitions(3) [OF lay] by (simp add: primary_place_def)
    ultimately have "unat (r_start (p_region q)) \<notin> blocks (slot_region slot)" by auto
    moreover have "unat (r_start r) \<in> blocks (slot_region slot)"
      using r(1,3) by (auto simp: blocks_def valid_region_def)
    ultimately show ?thesis by (auto simp: blocks_def word_less_nat_alt)
  qed
  have sorted_count: "dasd_rank s (filter (\<lambda>p. p_type p \<noteq> LOGICAL) (sort_key p_number ?c)) = dasd_rank s ?c"
    for s
  proof -
    have "filter (\<lambda>p. p_type p \<noteq> LOGICAL) (sort_key p_number ?c) = sort_key p_number ?c"
      using d(3) by (simp add: filter_id_conv)
    moreover have "length (filter P (sort_key p_number ?c)) = length (filter P ?c)" for P
      by (metis filter_sort length_sort)
    ultimately show ?thesis by (simp add: dasd_rank_def)
  qed
  have "count_before (slot_region slot) (List.map p_region
      (filter (\<lambda>p. p_type p \<noteq> LOGICAL) (sort_key p_number ?c)))
      = Inr (word_of_nat (dasd_rank (slot_region slot) ?c))"
    by (subst count_before_eq) (use bs sorted_count in auto)
  then have num: "slot_number slot = word_of_nat (1 + dasd_rank (slot_region slot) ?c)"
    using primary_slots_number [OF slots slot] ty d(2) by (simp add: emap_def add.commute)
  have rank: "dasd_rank (slot_region slot) ?c = dasd_rank r ?c"
    unfolding dasd_rank_def using start by (simp cong: filter_cong)
  let ?cs = "?c @ [?p]"
  have bs': "\<forall>p \<in> set ?cs. equal_block_size r (p_region p)"
    using bs r(2) by (auto simp: equal_block_size_def new_partition_def)
  let ?ns = "List.map (\<lambda>p. (p_sid p, p_number p + 1))
    (filter (\<lambda>p. r_start r < r_start (p_region p)) ?cs)"
  have add: "get_partitions (add_partition ?p pt) = ?cs" "pt_children (add_partition ?p pt) = ?cs"
    using ty t d(1) by (simp_all add: add_partition_def new_partition_def get_partitions_def)
  from eq have pt': "pt' = apply_numbers_pt ?ns (add_partition ?p pt)"
  proof (cases rule: create_partition_cases)
    case (2 ns)
    then show ?thesis using dasd_shift_eq [OF bs'] add by simp
  qed (use ty in simp)
  have sids: "distinct (List.map p_sid ?cs)" using d(1,4) fresh by (simp add: new_partition_def)
  have nn: "new_number ?ns q = (if r_start r < r_start (p_region q) then p_number q + 1 else p_number q)"
    if "q \<in> set ?cs" for q
    by (rule new_number_map [OF sids that])
  have ch: "pt_children pt' = List.map (\<lambda>q. q\<lparr>p_number := new_number ?ns q\<rparr>) ?cs"
    using add unfolding pt' by (simp add: apply_numbers_pt_def apply_numbers_number)
  have mp: "max_primary pt' = max_primary pt"
    unfolding pt' by (rule usable_region_cong(3)) (simp_all add: apply_numbers_pt_def add_partition_def)
  have rk: "dasd_rank s (pt_children pt') = dasd_rank s ?c + (if r_start r < r_start s then 1 else 0)" for s
    unfolding ch by (subst dasd_rank_map) (simp_all add: dasd_rank_append new_partition_def)
  have "p_number q = word_of_nat (1 + dasd_rank (p_region q) (pt_children pt'))"
    if "q \<in> set (pt_children pt')" for q
  proof -
    from that obtain q0 where q0: "q0 \<in> set ?cs" "q = q0\<lparr>p_number := new_number ?ns q0\<rparr>"
      unfolding ch by auto
    have "p_number q0 = word_of_nat (1 + dasd_rank (p_region q0) ?c)"
    proof (cases "q0 \<in> set ?c")
      case True
      then show ?thesis using nums by (simp add: dasd_numbers_def)
    next
      case False
      then have "q0 = ?p" using q0(1) by simp
      then show ?thesis using num rank by (simp add: new_partition_def)
    qed
    then show ?thesis using nn [OF q0(1)] q0(2) unfolding rk by simp
  qed
  moreover have "length (pt_children pt') \<le> unat (max_primary pt')"
  proof -
    have "length ?c \<le> unat (max_primary pt)" using nums by (simp add: dasd_numbers_def)
    then have "length ?c < 4294967296" by (rule le_less_trans) simp
    then have "length ?c < unat (max_primary pt)" using count_children [OF lay] poss by simp
    then show ?thesis unfolding ch mp by simp
  qed
  ultimately show ?thesis by (simp add: dasd_numbers_def)
qed

lemma dasd_delete_numbers:
  assumes lay: "pt_layout pt" and nums: "dasd_numbers pt" and ty: "pt_type pt = DASD"
    and p: "p \<in> set (get_partitions pt)" and eq: "delete_partition p pt = Inr pt'"
  shows "dasd_numbers pt'"
proof -
  let ?pt = "remove_partition p pt"
  let ?c = "pt_children pt"
  let ?cs = "filter (\<lambda>q. p_sid q \<noteq> p_sid p) ?c"
  note d = dasd_parts [OF lay ty]
  have pc: "p \<in> set ?c" using p d(2) by simp
  have lay': "pt_layout ?pt" by (rule layout_remove [OF lay p])
  have base: "delete_partition_base p pt = ?pt" and ty': "pt_type ?pt = DASD"
    and cs: "pt_children ?pt = ?cs"
    using ty by (simp_all add: delete_partition_base_def remove_partition_def)
  note d' = dasd_parts [OF lay' ty']
  have bs: "\<forall>q \<in> set ?cs. equal_block_size (p_region p) (p_region q)"
  proof
    fix q assume "q \<in> set ?cs"
    then have "part_ok (dev_region (pt_dev pt)) q" using d(5) by simp
    moreover have "part_ok (dev_region (pt_dev pt)) p" using d(5) pc by simp
    ultimately show "equal_block_size (p_region p) (p_region q)"
      by (simp add: part_ok_def equal_block_size_def)
  qed
  let ?ns = "List.map (\<lambda>q. (p_sid q, p_number q + (- 1)))
    (filter (\<lambda>q. r_start (p_region p) < r_start (p_region q)) ?cs)"
  have pt': "pt' = apply_numbers_pt ?ns ?pt"
    using eq ty base d'(2) cs dasd_shift_eq [OF bs]
    by (simp add: delete_partition_defs Let_def emap_def)
  have sids: "distinct (List.map p_sid ?cs)" using d'(4) cs by simp
  have nn: "new_number ?ns q
      = (if r_start (p_region p) < r_start (p_region q) then p_number q + (- 1) else p_number q)"
    if "q \<in> set ?cs" for q
    by (rule new_number_map [OF sids that])
  have ch: "pt_children pt' = List.map (\<lambda>q. q\<lparr>p_number := new_number ?ns q\<rparr>) ?cs"
    using cs unfolding pt' by (simp add: apply_numbers_pt_def apply_numbers_number)
  have mp: "max_primary pt' = max_primary pt"
    unfolding pt' by (rule usable_region_cong(3)) (simp_all add: apply_numbers_pt_def remove_partition_def)
  have rk: "dasd_rank s ?c = dasd_rank s (pt_children pt')
      + (if r_start (p_region p) < r_start s then 1 else 0)" for s
    unfolding ch by (subst dasd_rank_map) (simp_all add: dasd_rank_remove [OF d(4) pc])
  have "p_number q = word_of_nat (1 + dasd_rank (p_region q) (pt_children pt'))"
    if "q \<in> set (pt_children pt')" for q
  proof -
    from that obtain q0 where q0: "q0 \<in> set ?cs" "q = q0\<lparr>p_number := new_number ?ns q0\<rparr>"
      unfolding ch by auto
    have "p_number q0 = word_of_nat (1 + dasd_rank (p_region q0) ?c)"
      using nums q0(1) by (simp add: dasd_numbers_def)
    then show ?thesis using nn [OF q0(1)] q0(2) rk [of "p_region q0"] by simp
  qed
  moreover have "length (pt_children pt') \<le> unat (max_primary pt')"
  proof -
    have "length ?cs \<le> length ?c" by (rule length_filter_le)
    also have "\<dots> \<le> unat (max_primary pt)" using nums by (simp add: dasd_numbers_def)
    finally show ?thesis unfolding ch mp by simp
  qed
  ultimately show ?thesis by (simp add: dasd_numbers_def)
qed

section \<open>The numbering is an invariant\<close>

lemma pt_step_frame:
  assumes "pt_step pt pt'"
  shows "pt_type pt' = pt_type pt" and "pt_dev pt' = pt_dev pt"
    and "pt_partition_slots pt' = pt_partition_slots pt"
proof -
  have "pt_type pt' = pt_type pt \<and> pt_dev pt' = pt_dev pt
      \<and> pt_partition_slots pt' = pt_partition_slots pt"
    using assms
  proof (cases rule: pt_step.cases)
    case (step_create ty slots slot t r sid)
    from create_same_layout [OF step_create(8)] show ?thesis
      by (auto simp: same_layout_def add_partition_def split: if_splits)
  next
    case (step_delete p)
    from delete_same_layout [OF step_delete(2)] show ?thesis
      by (auto simp: same_layout_def remove_partition_def)
  next
    case (step_resize p children ri bytes)
    from step_resize(6) show ?thesis by (rule set_size_cases) (simp add: update_partition_def)
  next
    case (step_boot p boot)
    from set_boot_same_layout [OF step_boot(2)] show ?thesis by (simp add: same_layout_def)
  next
    case (step_id p caps i)
    from set_id_same_layout [OF step_id(2)] show ?thesis by (simp add: same_layout_def)
  qed (simp add: committed_def)
  then show "pt_type pt' = pt_type pt" and "pt_dev pt' = pt_dev pt"
    and "pt_partition_slots pt' = pt_partition_slots pt" by simp_all
qed

lemma create_no_dasd:
  assumes "create_partition sid n r t pt = Inr pt'" and "pt_type pt \<noteq> DASD"
  shows "pt' = add_partition (new_partition sid n r t) pt"
  using assms by (cases rule: create_partition_cases) auto

lemma create_keeps_numbers:
  assumes lay: "pt_layout pt" and nums: "pt_numbers pt"
    and range: "pt_type pt = MSDOS \<Longrightarrow> 6 \<le> dev_range (pt_dev pt)"
    and slots: "get_unused_partition_slots pt ALIGN_START_KEEP_END ty = Inr slots"
    and slot: "slot \<in> set slots" and poss: "is_possible slot t"
    and r: "valid_region r" "equal_block_size (slot_region slot) r"
      "blocks r \<subseteq> blocks (slot_region slot)"
    and fresh: "sid \<notin> p_sid ` set (pt_children pt @ pt_logicals pt)"
    and eq: "create_partition sid (slot_number slot) r t pt = Inr pt'"
  shows "pt_numbers pt'"
proof -
  have step: "pt_step pt pt'"
    by (rule step_create [OF slots slot poss r fresh eq])
  have ni: "pt_type pt \<noteq> IMPLICIT"
    using slots slot by (auto simp: get_unused_partition_slots_def)
  from slots slot show ?thesis
  proof (cases rule: slots_cases)
    case (1 ps)
    note flags = primary_slots_flags [OF 1]
    have t: "t \<noteq> LOGICAL" "is_primary_possible pt"
      using poss flags by (cases t; simp add: is_possible_def is_extended_possible_def)+
    show ?thesis
    proof (cases "pt_type pt = DASD")
      case True
      have "dasd_numbers pt'"
        by (rule dasd_create_numbers [OF lay _ True 1 t(2) t(1) r fresh eq])
          (use nums True in \<open>simp add: pt_numbers_def\<close>)
      then show ?thesis using True pt_step_frame [OF step] by (simp add: pt_numbers_def)
    next
      case False
      have sn: "slot_numbers pt" using nums False ni by (cases "pt_type pt") (simp_all add: pt_numbers_def)
      have "slot_number slot = first_missing_number p_number (sort_key p_number (get_partitions pt)) 1"
        using primary_slots_number [OF 1] False by simp
      then have "slot_numbers pt'"
        using create_primary_numbers [OF lay sn t(2,1)] create_no_dasd [OF eq False] by simp
      then show ?thesis using pt_step_frame [OF step] False
        by (cases "pt_type pt") (simp_all add: pt_numbers_def)
    qed
  next
    case (2 ls)
    note flags = logical_slots_flags [OF 2]
    have t: "t = LOGICAL" "is_logical_possible pt"
      using poss flags by (cases t; simp add: is_possible_def)+
    then have ms: "pt_type pt = MSDOS" by (simp add: is_logical_possible_def has_extended_def)
    have sn: "slot_numbers pt" using nums ms by (simp add: pt_numbers_def)
    have "slot_numbers pt'"
      using create_logical_numbers [OF lay sn t(2) range [OF ms]] create_no_dasd [OF eq] flags(4) t ms
      by simp
    then show ?thesis using pt_step_frame [OF step] ms by (simp add: pt_numbers_def)
  qed
qed

lemma delete_keeps_numbers:
  assumes lay: "pt_layout pt" and nums: "pt_numbers pt" and p: "p \<in> set (get_partitions pt)"
    and eq: "delete_partition p pt = Inr pt'"
  shows "pt_numbers pt'"
proof (cases "pt_type pt")
  case DASD
  then show ?thesis
    using dasd_delete_numbers [OF lay _ DASD p eq] nums pt_step_frame(1) [OF step_delete [OF p eq]]
    by (simp add: pt_numbers_def)
next
  case IMPLICIT
  then show ?thesis using pt_step_frame(1) [OF step_delete [OF p eq]] by (simp add: pt_numbers_def)
next
  case MSDOS
  have sn: "slot_numbers pt" using nums MSDOS by (simp add: pt_numbers_def)
  have "slot_numbers pt'"
  proof (cases "p_type p = LOGICAL")
    case True
    then show ?thesis using delete_logical_numbers [OF lay sn p True MSDOS] eq by simp
  next
    case False
    then show ?thesis using delete_base_primary(1) [OF lay sn p _ False] eq MSDOS
      by (simp add: delete_partition_defs Let_def)
  qed
  then show ?thesis using MSDOS pt_step_frame(1) [OF step_delete [OF p eq]] by (simp add: pt_numbers_def)
next
  case GPT
  have sn: "slot_numbers pt" using nums GPT by (simp add: pt_numbers_def)
  have "p \<in> set (pt_children pt)"
  proof (rule ccontr)
    assume "p \<notin> set (pt_children pt)"
    then have "p \<in> set (pt_logicals pt)" using p by (simp add: pt_layout_partitions(1) [OF lay])
    then obtain e where "e \<in> set (pt_children pt)" "p_type e = EXTENDED"
      using lay unfolding pt_layout_def by blast
    then show False using lay GPT unfolding pt_layout_def by auto
  qed
  then have "p_type p \<noteq> LOGICAL" using lay unfolding pt_layout_def by auto
  then have "slot_numbers pt'"
    using delete_base_primary(1) [OF lay sn p] eq GPT by (simp add: delete_partition_defs)
  then show ?thesis using GPT pt_step_frame(1) [OF step_delete [OF p eq]] by (simp add: pt_numbers_def)
qed

lemma commit_keeps_numbers: "pt_numbers pt \<Longrightarrow> pt_numbers (committed pt)"
proof -
  have mp: "max_primary (committed pt) = max_primary pt"
    by (rule usable_region_cong(3)) (simp_all add: committed_def)
  have "dasd_numbers pt \<Longrightarrow> dasd_numbers (committed pt)"
    unfolding dasd_numbers_def mp by (simp add: committed_def dasd_rank_map)
  moreover have "slot_numbers pt \<Longrightarrow> slot_numbers (committed pt)"
    unfolding slot_numbers_def mp by (simp add: committed_def comp_def image_image)
  moreover have "pt_type (committed pt) = pt_type pt" by (simp add: committed_def)
  ultimately show "pt_numbers pt \<Longrightarrow> pt_numbers (committed pt)"
    by (cases "pt_type pt") (simp_all add: pt_numbers_def)
qed

text \<open>Steps that keep the numbers and the starts of all partitions.\<close>

definition same_number :: "partition \<Rightarrow> partition \<Rightarrow> bool" where
  "same_number p q \<longleftrightarrow> p_number p = p_number q \<and> r_start (p_region p) = r_start (p_region q)"

definition same_numbers :: "ptable \<Rightarrow> ptable \<Rightarrow> bool" where
  "same_numbers a b \<longleftrightarrow>
     pt_type a = pt_type b \<and> pt_dev a = pt_dev b \<and> pt_partition_slots a = pt_partition_slots b \<and>
     list_all2 same_number (pt_children a) (pt_children b) \<and> list_all2 same_number (pt_logicals a) (pt_logicals b)"

lemma same_number_maps:
  assumes "list_all2 same_number ps qs"
  shows "List.map p_number ps = List.map p_number qs"
    and "List.map (\<lambda>p. (p_number p, r_start (p_region p))) ps = List.map (\<lambda>p. (p_number p, r_start (p_region p))) qs"
    and "dasd_rank r ps = dasd_rank r qs" and "length ps = length qs"
  using assms by (induction rule: list_all2_induct) (auto simp: same_number_def dasd_rank_def)

lemma pt_numbers_same:
  assumes same: "same_numbers a b" and nums: "pt_numbers a"
  shows "pt_numbers b"
proof -
  have ch: "list_all2 same_number (pt_children a) (pt_children b)"
    and lo: "list_all2 same_number (pt_logicals a) (pt_logicals b)" and ty: "pt_type b = pt_type a"
    using same by (simp_all add: same_numbers_def)
  have mp: "max_primary b = max_primary a" using same by (simp add: same_numbers_def max_primary_defs split: pt_class.splits)
  note c = same_number_maps [OF ch] and l = same_number_maps [OF lo]
  have sets: "p_number ` set (pt_children b) = p_number ` set (pt_children a)"
    "p_number ` set (pt_logicals b) = p_number ` set (pt_logicals a)"
    using arg_cong [OF c(1), of set] arg_cong [OF l(1), of set] by simp_all
  have "slot_numbers b" if "slot_numbers a"
  proof -
    have "(\<forall>p \<in> set (pt_children b). 1 \<le> p_number p \<and> p_number p \<le> max_primary a)
        \<longleftrightarrow> (\<forall>n \<in> p_number ` set (pt_children b). 1 \<le> n \<and> n \<le> max_primary a)" by simp
    moreover have "(unat \<circ> p_number) ` set (pt_logicals b) = unat ` p_number ` set (pt_logicals b)"
      by (simp only: image_comp)
    ultimately show ?thesis
      using that c(1) l(1,4) unfolding slot_numbers_def mp sets image_comp [symmetric] by simp
  qed
  moreover have "dasd_numbers b" if "dasd_numbers a"
  proof -
    have "\<forall>p \<in> set (pt_children b). p_number p = word_of_nat (1 + dasd_rank (p_region p) (pt_children b))"
    proof
      fix q assume "q \<in> set (pt_children b)"
      then have "(p_number q, r_start (p_region q))
          \<in> (\<lambda>p. (p_number p, r_start (p_region p))) ` set (pt_children a)"
        using arg_cong [OF c(2), of set] by force
      then obtain p where p: "p \<in> set (pt_children a)" "p_number q = p_number p"
        "r_start (p_region q) = r_start (p_region p)" by blast
      have "p_number p = word_of_nat (1 + dasd_rank (p_region p) (pt_children a))"
        using that p(1) by (simp only: dasd_numbers_def)
      moreover have "dasd_rank (p_region p) (pt_children a) = dasd_rank (p_region q) (pt_children b)"
        using c(3) [of "p_region p"] p(3) by (simp add: dasd_rank_def)
      ultimately show "p_number q = word_of_nat (1 + dasd_rank (p_region q) (pt_children b))" using p(2) by simp
    qed
    then show ?thesis using that c(4) by (simp add: dasd_numbers_def mp)
  qed
  ultimately show ?thesis using nums ty by (cases "pt_type a") (simp_all add: pt_numbers_def)
qed

lemma same_numbers_refl: "same_numbers pt pt"
  by (simp add: same_numbers_def list.rel_refl same_number_def)

lemma same_numbers_trans: "same_numbers a b \<Longrightarrow> same_numbers b c \<Longrightarrow> same_numbers a c"
proof -
  have *: "list_all2 same_number xs zs"
    if "list_all2 same_number xs ys" "list_all2 same_number ys zs" for xs ys zs
    by (rule list_all2_trans [OF _ that]) (simp add: same_number_def)
  show "same_numbers a b \<Longrightarrow> same_numbers b c \<Longrightarrow> same_numbers a c" using * unfolding same_numbers_def by metis
qed

lemma same_numbers_update:
  assumes "\<And>q. q \<in> set (pt_children pt @ pt_logicals pt) \<Longrightarrow> p_sid q = sid \<Longrightarrow> same_number q (f q)"
  shows "same_numbers pt (update_partition sid f pt)"
proof -
  have *: "list_all2 same_number ps (List.map (\<lambda>q. if p_sid q = sid then f q else q) ps)"
    if "set ps \<subseteq> set (pt_children pt @ pt_logicals pt)" for ps
    unfolding list.rel_map(2) using that assms
    by (intro list.rel_refl_strong) (auto simp: same_number_def)
  from * [of "pt_children pt"] * [of "pt_logicals pt"] show ?thesis
    by (simp add: same_numbers_def update_partition_def)
qed

lemma set_id_same_numbers: "partition_set_id caps sid i pt = Inr pt' \<Longrightarrow> same_numbers pt pt'"
  by (auto simp: partition_set_id_def same_number_def intro!: same_numbers_update split: if_splits)

lemma set_boot_same_numbers:
  assumes "partition_set_boot p boot pt = Inr pt'"
  shows "same_numbers pt pt'"
proof -
  have one: "same_numbers qt (update_partition sid (\<lambda>q. q\<lparr>p_boot := b\<rparr>) qt)" for qt sid b
    by (rule same_numbers_update) (simp add: same_number_def)
  have clear: "same_numbers qt (fold (\<lambda>q. update_partition (p_sid q) (\<lambda>q. q\<lparr>p_boot := False\<rparr>)) qs qt)" for qs qt
  proof (induction qs arbitrary: qt)
    case (Cons q qs)
    show ?case using same_numbers_trans [OF one Cons.IH] by simp
  qed (simp add: same_numbers_refl)
  show ?thesis
    using assms one same_numbers_trans [OF clear one]
    by (auto simp: partition_set_boot_def Let_def split: if_splits)
qed

lemma set_size_same_numbers:
  assumes "pt_layout pt" and "p \<in> set (get_partitions pt)" and "partition_set_size p bytes pt = Inr pt'"
  shows "same_numbers pt pt'"
  using assms(3)
proof (cases rule: set_size_cases)
  case (1 r)
  have "p \<in> set (pt_children pt @ pt_logicals pt)"
    using assms(2) by (simp only: pt_layout_partitions(1) [OF assms(1)])
  then have "q = p" if "q \<in> set (pt_children pt @ pt_logicals pt)" "p_sid q = p_sid p" for q
    using inj_sid [OF pt_layoutD(3) [OF assms(1)]] that by blast
  then show ?thesis unfolding 1(2) by (intro same_numbers_update) (auto simp: same_number_def 1(1))
qed

lemma pt_step_numbers:
  assumes step: "pt_step pt pt'" and lay: "pt_layout pt" and nums: "pt_numbers pt"
    and range: "pt_type pt = MSDOS \<Longrightarrow> 6 \<le> dev_range (pt_dev pt)"
  shows "pt_numbers pt'"
  using step
proof (cases rule: pt_step.cases)
  case (step_create ty slots slot t r sid)
  from create_keeps_numbers [OF lay nums range step_create] show ?thesis .
next
  case (step_delete p)
  from delete_keeps_numbers [OF lay nums step_delete] show ?thesis .
next
  case (step_resize p children ri bytes)
  from pt_numbers_same [OF set_size_same_numbers [OF lay step_resize(1,6)] nums] show ?thesis .
next
  case (step_boot p boot)
  from pt_numbers_same [OF set_boot_same_numbers [OF step_boot(2)] nums] show ?thesis .
next
  case (step_id p caps i)
  from pt_numbers_same [OF set_id_same_numbers [OF step_id(2)] nums] show ?thesis .
next
  case step_commit
  with commit_keeps_numbers [OF nums] show ?thesis by simp
qed

lemma pt_numbers_new: "pt_numbers (ptable_new c dev)"
proof -
  have "unat (max_primary (ptable_new c dev)) < 4294967296" by simp
  then show ?thesis
    by (cases c) (simp_all add: pt_numbers_def slot_numbers_def dasd_numbers_def ptable_new_def)
qed

lemma pt_reachable_frame:
  "pt_reachable init pt \<Longrightarrow> pt_type pt = pt_type init \<and> pt_dev pt = pt_dev init"
  by (induction rule: pt_reachable.induct) (auto dest: pt_step_frame)

lemma pt_reachable_numbers:
  assumes "pt_reachable init pt" and "pt_layout init" and "pt_numbers init"
    and range: "pt_type init = MSDOS \<Longrightarrow> 6 \<le> dev_range (pt_dev init)"
  shows "pt_numbers pt"
  using assms(1)
proof (induction rule: pt_reachable.induct)
  case reach_init
  show ?case by (rule assms(3))
next
  case (reach_step pt pt')
  show ?case
    by (rule pt_step_numbers [OF reach_step(2) pt_reachable_layout [OF reach_step(1) assms(2)] reach_step.IH])
      (use range pt_reachable_frame [OF reach_step(1)] in simp)
qed

section \<open>An example table\<close>

text \<open>
  A disk of 1000000 blocks with an MS-DOS table, filled in three steps: a primary partition, an
  extended one in the rest of the disk, and a logical one in it.
\<close>

definition demo_disk :: partitionable where
  "demo_disk = \<lparr>dev_region = \<lparr>r_start = 0, r_length = 1000000, r_block_size = 512\<rparr>,
     dev_range = 256, dev_topology = topology_new 0 1048576,
     dev_dasd_type = DASDTYPE_UNKNOWN, dev_dasd_format = DASDF_NONE\<rparr>"

definition demo_region :: "u64 \<Rightarrow> u64 \<Rightarrow> region" where
  "demo_region s l = \<lparr>r_start = s, r_length = l, r_block_size = 512\<rparr>"

definition demo1 :: ptable where
  "demo1 = add_partition (new_partition 1 1 (demo_region 2048 204800) PRIMARY) (ptable_new MSDOS demo_disk)"

definition demo2 :: ptable where
  "demo2 = add_partition (new_partition 2 2 (demo_region 206848 793152) EXTENDED) demo1"

definition demo3 :: ptable where
  "demo3 = add_partition (new_partition 3 5 (demo_region 208896 10000) LOGICAL) demo2"

lemma demo_blocks:
  assumes "unat (r_start s) \<le> unat (r_start r)"
    and "unat (r_start r) + unat (r_length r) \<le> unat (r_start s) + unat (r_length s)"
  shows "blocks r \<subseteq> blocks s"
  using assms by (auto simp: blocks_def)

lemma demo_step1: "pt_step (ptable_new MSDOS demo_disk) demo1"
proof -
  let ?s = "\<lparr>slot_region = demo_region 2048 997952, slot_number = 1, primary_slot = True,
    primary_possible = True, extended_slot = True, extended_possible_slot = True,
    logical_slot = False, logical_possible = False\<rparr>"
  have slots: "get_unused_partition_slots (ptable_new MSDOS demo_disk) ALIGN_START_KEEP_END OPTIMAL
      = Inr [?s]"
    by code_simp
  have c: "create_partition 1 (slot_number ?s) (demo_region 2048 204800) PRIMARY
      (ptable_new MSDOS demo_disk) = Inr demo1"
    by code_simp
  show ?thesis
    by (rule step_create [OF slots _ _ _ _ _ _ c])
      (simp_all add: is_possible_def valid_region_def equal_block_size_def demo_region_def
        demo_blocks ptable_new_def)
qed

lemma demo_step2: "pt_step demo1 demo2"
proof -
  let ?s = "\<lparr>slot_region = demo_region 206848 793152, slot_number = 2, primary_slot = True,
    primary_possible = True, extended_slot = True, extended_possible_slot = True,
    logical_slot = False, logical_possible = False\<rparr>"
  have slots: "get_unused_partition_slots demo1 ALIGN_START_KEEP_END OPTIMAL = Inr [?s]"
    by code_simp
  have c: "create_partition 2 (slot_number ?s) (demo_region 206848 793152) EXTENDED demo1 = Inr demo2"
    by code_simp
  show ?thesis
    by (rule step_create [OF slots _ _ _ _ _ _ c])
      (simp_all add: is_possible_def valid_region_def equal_block_size_def demo_region_def
        demo_blocks demo1_def add_partition_def new_partition_def ptable_new_def)
qed

lemma demo_step3: "pt_step demo2 demo3"
proof -
  let ?s = "\<lparr>slot_region = demo_region 208896 791104, slot_number = 5, primary_slot = False,
    primary_possible = False, extended_slot = False, extended_possible_slot = False,
    logical_slot = True, logical_possible = True\<rparr>"
  have slots: "get_unused_partition_slots demo2 ALIGN_START_KEEP_END OPTIMAL = Inr [?s]"
    by code_simp
  have c: "create_partition 3 (slot_number ?s) (demo_region 208896 10000) LOGICAL demo2 = Inr demo3"
    by code_simp
  show ?thesis
    by (rule step_create [OF slots _ _ _ _ _ _ c])
      (simp_all add: is_possible_def valid_region_def equal_block_size_def demo_region_def
        demo_blocks demo2_def demo1_def add_partition_def new_partition_def ptable_new_def)
qed

lemma demo_reachable: "pt_reachable (ptable_new MSDOS demo_disk) demo3"
  by (intro reach_step [OF reach_step [OF reach_step [OF reach_init demo_step1] demo_step2] demo_step3])

lemma demo_dev_ok: "dev_ok (ptable_new MSDOS demo_disk)"
  by (simp add: dev_ok_def ptable_new_def demo_disk_def valid_region_def)

section \<open>The check of a DASD table\<close>

lemma adjacent_ok_iff:
  assumes "\<forall>p \<in> set ps. \<forall>q \<in> set ps. equal_block_size (p_region p) (p_region q)"
  shows "dasd_adjacent_ok ps = Inr (sorted_wrt (\<lambda>p q. r_start (p_region p) < r_start (p_region q)) ps)"
  using assms
proof (induction ps rule: dasd_adjacent_ok.induct)
  case (3 p q ps)
  let ?less = "\<lambda>p q. r_start (p_region p) < r_start (p_region q)"
  have "sorted_wrt ?less (p # q # ps) \<longleftrightarrow> ?less p q \<and> sorted_wrt ?less (q # ps)"
    by (auto intro: less_trans)
  then show ?case using 3 by (simp add: region_less_def)
qed simp_all

lemma dasd_rank_mono:
  assumes "p \<in> set ps" and "r_start (p_region p) < r_start r"
  shows "dasd_rank (p_region p) ps < dasd_rank r ps"
proof -
  let ?A = "filter (\<lambda>q. r_start (p_region q) < r_start (p_region p)) ps"
  have "filter (\<lambda>q. r_start (p_region q) < r_start (p_region p))
      (filter (\<lambda>q. r_start (p_region q) < r_start r) ps) = ?A"
    using assms(2) by (auto intro: filter_cong less_trans)
  moreover have "\<exists>q \<in> set (filter (\<lambda>q. r_start (p_region q) < r_start r) ps).
      \<not> r_start (p_region q) < r_start (p_region p)"
    using assms by auto
  ultimately show ?thesis
    unfolding dasd_rank_def by (metis length_filter_less)
qed

lemma dasd_check_ok:
  assumes lay: "pt_layout pt" and nums: "dasd_numbers pt" and ty: "pt_type pt = DASD"
  shows "dasd_check pt = Inr ()"
proof -
  let ?c = "pt_children pt"
  let ?less = "\<lambda>p q. r_start (p_region p) < r_start (p_region q)"
  note d = dasd_parts [OF lay ty]
  have mp: "unat (max_primary pt) \<le> 3"
    using ty by (simp add: max_primary_defs unat_min)
  have len: "length ?c \<le> 3" using nums mp by (simp add: dasd_numbers_def)
  have num: "unat (p_number p) = 1 + dasd_rank (p_region p) ?c" if p: "p \<in> set ?c" for p
  proof -
    have "dasd_rank (p_region p) ?c \<le> length ?c" unfolding dasd_rank_def by (rule length_filter_le)
    then have "unat (word_of_nat (1 + dasd_rank (p_region p) ?c) :: u32) = 1 + dasd_rank (p_region p) ?c"
      using len by (intro unat_word_of_nat) simp
    then show ?thesis using nums p by (simp add: dasd_numbers_def)
  qed
  have start_ne: "r_start (p_region p) \<noteq> r_start (p_region q)"
    if "p \<in> set ?c" "q \<in> set ?c" "p_sid p \<noteq> p_sid q" for p q
  proof -
    have "valid_region (p_region p)" "valid_region (p_region q)"
      using d(5) that by (simp_all add: part_ok_def)
    then have "unat (r_start (p_region p)) \<in> blocks (p_region p)"
      "unat (r_start (p_region q)) \<in> blocks (p_region q)"
      by (simp_all add: blocks_def valid_region_def)
    moreover have "blocks (p_region p) \<inter> blocks (p_region q) = {}"
      using lay that unfolding pt_layout_def apart_def by blast
    ultimately show ?thesis by auto
  qed
  have "sorted_wrt ?less (sort_key p_number ?c)"
  proof (rule sorted_wrt_mono_rel)
    have "distinct (List.map p_sid (sort_key p_number ?c))"
      using d(4) by (simp add: distinct_map)
    then have "sorted_wrt (\<lambda>p q. p_sid p \<noteq> p_sid q) (sort_key p_number ?c)"
      by (simp add: distinct_conv_nth sorted_wrt_iff_nth_less)
    moreover have "sorted_wrt (\<lambda>p q. p_number p \<le> p_number q) (sort_key p_number ?c)"
      using sorted_sort_key [of p_number ?c] by (simp add: sorted_wrt_map)
    ultimately show "sorted_wrt (\<lambda>p q. p_sid p \<noteq> p_sid q \<and> p_number p \<le> p_number q) (sort_key p_number ?c)"
      by (simp add: sorted_wrt_iff_nth_less)
  next
    fix p q
    assume p: "p \<in> set (sort_key p_number ?c)" and q: "q \<in> set (sort_key p_number ?c)"
      and pq: "p_sid p \<noteq> p_sid q \<and> p_number p \<le> p_number q"
    have "\<not> ?less q p"
      using dasd_rank_mono [of q ?c "p_region p"] p q pq num [of p] num [of q]
      by (auto simp: word_le_nat_alt)
    then show "?less p q" using start_ne p q pq by (metis linorder_cases set_sort)
  qed
  moreover have "\<forall>p \<in> set ?c. \<forall>q \<in> set ?c. equal_block_size (p_region p) (p_region q)"
    using d(5) unfolding part_ok_def equal_block_size_def by metis
  ultimately show ?thesis
    using adjacent_ok_iff [of "sort_key p_number ?c"] d(2) by (simp add: dasd_check_def)
qed

section \<open>What holds of every reachable table\<close>

text \<open>
  C1: in every table that can be reached from an empty one by creating partitions in the slots the
  library offers, deleting partitions, resizing them within the detected limits, changing their flags
  and ids and committing, the primary and extended partitions do not
  overlap and lie in the usable region of the table, and the logical partitions do not overlap and
  lie in the extended partition.
\<close>

theorem reachable_partitions_apart:
  assumes "dev_ok (ptable_new c dev)" and "pt_reachable (ptable_new c dev) pt"
    and "p \<in> set (get_partitions pt)"
  shows "valid_region (p_region p) \<and>
    (\<forall>q \<in> set (get_partitions pt). p_sid p \<noteq> p_sid q \<and>
      (p_type p = LOGICAL \<longleftrightarrow> p_type q = LOGICAL) \<longrightarrow> blocks (p_region p) \<inter> blocks (p_region q) = {}) \<and>
    (if p_type p = LOGICAL
     then \<exists>e. get_extended pt = Inr e \<and> blocks (p_region p) \<subseteq> blocks (p_region e)
     else \<exists>u. get_usable_region pt = Inr u \<and> blocks (p_region p) \<subseteq> blocks u)"
proof -
  have lay: "pt_layout pt" by (rule pt_reachable_layout [OF assms(2) pt_layout_new [OF assms(1)]])
  note parts = pt_layout_partitions(1) [OF lay]
  have chty: "\<forall>q \<in> set (pt_children pt). p_type q \<noteq> LOGICAL"
    and loty: "\<forall>q \<in> set (pt_logicals pt). p_type q = LOGICAL"
    using lay unfolding pt_layout_def by auto
  have ap: "apart (pt_children pt)" "apart (pt_logicals pt)"
    and us: "\<forall>p \<in> set (pt_children pt). \<exists>u. get_usable_region pt = Inr u \<and> blocks (p_region p) \<subseteq> blocks u"
    and ex: "\<forall>p \<in> set (pt_logicals pt). \<exists>e \<in> set (pt_children pt).
        p_type e = EXTENDED \<and> blocks (p_region p) \<subseteq> blocks (p_region e)"
    and ok: "\<forall>p \<in> set (pt_children pt @ pt_logicals pt). part_ok (dev_region (pt_dev pt)) p"
    using lay unfolding pt_layout_def by blast+
  have "blocks (p_region p) \<inter> blocks (p_region q) = {}"
    if "q \<in> set (get_partitions pt)" "p_sid p \<noteq> p_sid q" "p_type p = LOGICAL \<longleftrightarrow> p_type q = LOGICAL" for q
  proof (cases "p_type p = LOGICAL")
    case True
    then have "p \<in> set (pt_logicals pt)" "q \<in> set (pt_logicals pt)"
      using assms(3) that chty by (auto simp: parts)
    then show ?thesis using ap(2) that(2) unfolding apart_def by blast
  next
    case False
    then have "p \<in> set (pt_children pt)" "q \<in> set (pt_children pt)"
      using assms(3) that loty by (auto simp: parts)
    then show ?thesis using ap(1) that(2) unfolding apart_def by blast
  qed
  moreover have "valid_region (p_region p)" using ok assms(3) by (simp add: parts part_ok_def)
  moreover have "if p_type p = LOGICAL
      then \<exists>e. get_extended pt = Inr e \<and> blocks (p_region p) \<subseteq> blocks (p_region e)
      else \<exists>u. get_usable_region pt = Inr u \<and> blocks (p_region p) \<subseteq> blocks u"
  proof (cases "p_type p = LOGICAL")
    case True
    then have "p \<in> set (pt_logicals pt)" using assms(3) chty by (auto simp: parts)
    then show ?thesis using ex True layout_extended [OF lay] by fastforce
  next
    case False
    then have "p \<in> set (pt_children pt)" using assms(3) loty by (auto simp: parts)
    then show ?thesis using us False by simp
  qed
  ultimately show ?thesis by blast
qed

lemma reachable_partitions_apart_witness:
  "\<exists>u. get_usable_region demo3 = Inr u \<and> blocks (demo_region 206848 793152) \<subseteq> blocks u"
  using reachable_partitions_apart [OF demo_dev_ok demo_reachable,
      of "new_partition 2 2 (demo_region 206848 793152) EXTENDED"]
  by (simp add: demo3_def demo2_def demo1_def add_partition_def new_partition_def ptable_new_def
      get_partitions_def)

text \<open>
  C12: in every reachable MS-DOS or GPT table of a device with a range of at least 6 (minors, and so
  the device itself and five partitions) the partitions have distinct numbers from 1 on, those
  of the primary and extended partitions are at most \<open>max_primary\<close>, and the logical partitions have
  the numbers behind \<open>max_primary\<close> without a gap, so the numbers survive every creation and deletion.
  On a device with a smaller range logical partitions are offered that the device cannot have, see
  \<open>small_range_offers_logical\<close> below.
\<close>

theorem reachable_numbers:
  assumes "dev_ok (ptable_new c dev)" and "pt_reachable (ptable_new c dev) pt"
    and "c = GPT \<or> c = MSDOS" and "6 \<le> dev_range dev"
  shows "distinct (List.map p_number (get_partitions pt)) \<and>
    (\<forall>p \<in> set (get_partitions pt). p_type p \<noteq> LOGICAL \<longrightarrow>
      1 \<le> p_number p \<and> p_number p \<le> max_primary pt) \<and>
    (unat \<circ> p_number) ` set (logicals pt)
      = {unat (max_primary pt) <.. unat (max_primary pt) + length (logicals pt)}"
proof -
  have lay: "pt_layout pt" by (rule pt_reachable_layout [OF assms(2) pt_layout_new [OF assms(1)]])
  have init: "pt_type (ptable_new c dev) = c" "pt_dev (ptable_new c dev) = dev"
    by (simp_all add: ptable_new_def)
  have "pt_numbers pt"
    by (rule pt_reachable_numbers [OF assms(2) pt_layout_new [OF assms(1)] pt_numbers_new])
      (use assms(4) init in simp)
  moreover have "pt_type pt = c" using pt_reachable_frame [OF assms(2)] init by simp
  ultimately have nums: "slot_numbers pt" using assms(3) by (auto simp: pt_numbers_def)
  note parts = pt_layout_partitions(1) [OF lay]
  have chty: "\<forall>q \<in> set (pt_children pt). p_type q \<noteq> LOGICAL"
    and loty: "\<forall>q \<in> set (pt_logicals pt). p_type q = LOGICAL"
    using lay unfolding pt_layout_def by auto
  have log: "logicals pt = pt_logicals pt"
    using chty loty by (simp add: logicals_def parts filter_id_conv)
  have "distinct (List.map p_number (get_partitions pt))"
    by (rule slot_numbers_parts(1) [OF lay nums])
  moreover have "\<forall>p \<in> set (get_partitions pt). p_type p \<noteq> LOGICAL \<longrightarrow>
      1 \<le> p_number p \<and> p_number p \<le> max_primary pt"
    using nums loty by (auto simp: parts slot_numbers_def)
  moreover have "(unat \<circ> p_number) ` set (logicals pt)
      = {unat (max_primary pt) <.. unat (max_primary pt) + length (logicals pt)}"
    using nums unfolding log slot_numbers_def by blast
  ultimately show ?thesis by blast
qed

lemma reachable_numbers_witness:
  "distinct (List.map p_number (get_partitions demo3)) \<and> length (get_partitions demo3) = 3"
proof
  show "distinct (List.map p_number (get_partitions demo3))"
    using reachable_numbers [OF demo_dev_ok demo_reachable] by (simp add: demo_disk_def)
  show "length (get_partitions demo3) = 3" by code_simp
qed

text \<open>
  With a range of 5 no logical partition is possible (\<open>max_logical\<close> is 0), but
  \<open>get_unused_partition_slots\<close> compares the number of logical partitions with the unsigned difference
  of \<open>max_logical\<close> and \<open>max_primary\<close>, which wraps around: it offers a logical slot with the number 5.
\<close>

definition demo_small_range :: ptable where
  "demo_small_range = add_partition (new_partition 1 1 (demo_region 206848 793152) EXTENDED)
     (ptable_new MSDOS (demo_disk\<lparr>dev_range := 5\<rparr>))"

lemma small_range_offers_logical:
  "max_logical demo_small_range = 0 \<and>
   (\<exists>slots slot. get_unused_partition_slots demo_small_range ALIGN_START_KEEP_END OPTIMAL = Inr slots \<and>
     slot \<in> set slots \<and> logical_slot slot \<and> logical_possible slot \<and> slot_number slot = 5)"
proof
  show "max_logical demo_small_range = 0" by code_simp
  have "(case get_unused_partition_slots demo_small_range ALIGN_START_KEEP_END OPTIMAL of
      Inl e \<Rightarrow> False | Inr slots \<Rightarrow> list_ex (\<lambda>s. logical_slot s \<and> logical_possible s \<and> slot_number s = 5) slots)"
    by code_simp
  then show "\<exists>slots slot. get_unused_partition_slots demo_small_range ALIGN_START_KEEP_END OPTIMAL = Inr slots \<and>
      slot \<in> set slots \<and> logical_slot slot \<and> logical_possible slot \<and> slot_number slot = 5"
    by (auto split: sum.splits simp: list_ex_iff)
qed

text \<open>
  The ordering check of a DASD partition table passes in every reachable table: creating and
  deleting partitions keeps the numbers in the order of the start blocks.
\<close>

theorem reachable_dasd_check:
  assumes "dev_ok (ptable_new DASD dev)" and "pt_reachable (ptable_new DASD dev) pt"
  shows "dasd_check pt = Inr ()"
proof (rule dasd_check_ok)
  show "pt_layout pt" by (rule pt_reachable_layout [OF assms(2) pt_layout_new [OF assms(1)]])
  have init: "pt_type (ptable_new DASD dev) = DASD" by (simp add: ptable_new_def)
  have "pt_numbers pt"
    by (rule pt_reachable_numbers [OF assms(2) pt_layout_new [OF assms(1)] pt_numbers_new])
      (use init in simp)
  moreover show "pt_type pt = DASD" using pt_reachable_frame [OF assms(2)] init by simp
  ultimately show "dasd_numbers pt" by (simp add: pt_numbers_def)
qed

definition demo_dasd :: partitionable where
  "demo_dasd = \<lparr>dev_region = \<lparr>r_start = 0, r_length = 100000, r_block_size = 4096\<rparr>,
     dev_range = 4, dev_topology = topology_new 0 1048576,
     dev_dasd_type = ECKD, dev_dasd_format = CDL\<rparr>"

definition demo_dasd1 :: ptable where
  "demo_dasd1 = add_partition
     (new_partition 1 1 \<lparr>r_start = 1536, r_length = 768, r_block_size = 4096\<rparr> PRIMARY)
     (ptable_new DASD demo_dasd)"

definition demo_dasd2 :: ptable where
  "demo_dasd2 = apply_numbers_pt [(1, 2)] (add_partition
     (new_partition 2 1 \<lparr>r_start = 768, r_length = 768, r_block_size = 4096\<rparr> PRIMARY) demo_dasd1)"

lemma demo_dasd_step1: "pt_step (ptable_new DASD demo_dasd) demo_dasd1"
proof -
  let ?r = "\<lparr>r_start = 1536, r_length = 768, r_block_size = 4096\<rparr>"
  let ?s = "\<lparr>slot_region = \<lparr>r_start = 768, r_length = 99232, r_block_size = 4096\<rparr>, slot_number = 1,
    primary_slot = True, primary_possible = True, extended_slot = False,
    extended_possible_slot = False, logical_slot = False, logical_possible = False\<rparr>"
  have slots: "get_unused_partition_slots (ptable_new DASD demo_dasd) ALIGN_START_KEEP_END OPTIMAL
      = Inr [?s]"
    by code_simp
  have c: "create_partition 1 (slot_number ?s) ?r PRIMARY (ptable_new DASD demo_dasd) = Inr demo_dasd1"
    by code_simp
  show ?thesis
    by (rule step_create [OF slots _ _ _ _ _ _ c])
      (simp_all add: is_possible_def valid_region_def equal_block_size_def demo_blocks ptable_new_def)
qed

lemma demo_dasd_step2: "pt_step demo_dasd1 demo_dasd2"
proof -
  let ?r = "\<lparr>r_start = 768, r_length = 768, r_block_size = 4096\<rparr>"
  let ?s = "\<lparr>slot_region = ?r, slot_number = 1,
    primary_slot = True, primary_possible = True, extended_slot = False,
    extended_possible_slot = False, logical_slot = False, logical_possible = False\<rparr>"
  let ?t = "\<lparr>slot_region = \<lparr>r_start = 2304, r_length = 97696, r_block_size = 4096\<rparr>, slot_number = 2,
    primary_slot = True, primary_possible = True, extended_slot = False,
    extended_possible_slot = False, logical_slot = False, logical_possible = False\<rparr>"
  have slots: "get_unused_partition_slots demo_dasd1 ALIGN_START_KEEP_END OPTIMAL = Inr [?s, ?t]"
    by code_simp
  have c: "create_partition 2 (slot_number ?s) ?r PRIMARY demo_dasd1 = Inr demo_dasd2"
    by code_simp
  show ?thesis
    by (rule step_create [OF slots _ _ _ _ _ _ c])
      (simp_all add: is_possible_def valid_region_def equal_block_size_def demo_blocks ptable_new_def
        demo_dasd1_def add_partition_def new_partition_def)
qed

lemma reachable_dasd_check_witness: "dasd_check demo_dasd2 = Inr ()"
proof (rule reachable_dasd_check [of demo_dasd])
  show "dev_ok (ptable_new DASD demo_dasd)"
    by (simp add: dev_ok_def ptable_new_def demo_dasd_def valid_region_def)
  show "pt_reachable (ptable_new DASD demo_dasd) demo_dasd2"
    by (intro reach_step [OF reach_step [OF reach_init demo_dasd_step1] demo_dasd_step2])
qed

text \<open>
  Deleting a primary or extended partition of a reachable MS-DOS or GPT table never changes
  the number of a partition that exists on disk, whatever numbers the partitions not yet created
  get.
\<close>

theorem delete_keeps_disk_numbers:
  assumes "dev_ok (ptable_new c dev)" and "pt_reachable (ptable_new c dev) pt"
    and "c = GPT \<or> c = MSDOS" and "6 \<le> dev_range dev"
    and "p \<in> set (get_partitions pt)" and "p_type p \<noteq> LOGICAL"
  shows "\<exists>pt'. delete_partition p pt = Inr pt' \<and>
    (\<forall>q \<in> set (get_partitions pt). p_sid q \<noteq> p_sid p \<and> p_in_system q \<and>
      (p_type p = EXTENDED \<longrightarrow> p_type q \<noteq> LOGICAL) \<longrightarrow> q \<in> set (get_partitions pt'))"
proof -
  have lay: "pt_layout pt" by (rule pt_reachable_layout [OF assms(2) pt_layout_new [OF assms(1)]])
  have init: "pt_type (ptable_new c dev) = c" "pt_dev (ptable_new c dev) = dev"
    by (simp_all add: ptable_new_def)
  have nums: "pt_numbers pt"
    by (rule pt_reachable_numbers [OF assms(2) pt_layout_new [OF assms(1)] pt_numbers_new])
      (use assms(4) init in simp)
  have ty: "pt_type pt = c" using pt_reachable_frame [OF assms(2)] init by simp
  then have sn: "slot_numbers pt" using nums assms(3) by (auto simp: pt_numbers_def)
  have gm: "pt_type pt = GPT \<or> pt_type pt = MSDOS" using ty assms(3) by simp
  let ?pt = "remove_partition p pt"
  let ?ns = "shift_new (p_number p) (sort_key p_number (get_partitions ?pt))"
  let ?pt' = "apply_numbers_pt ?ns ?pt"
  note keep = delete_base_primary(2) [OF lay sn assms(5) gm assms(6)]
  have pp: "p_type p = PRIMARY \<or> p_type p = EXTENDED" using assms(6) by (cases "p_type p") auto
  have eq: "delete_partition p pt = Inr ?pt'"
    using gm assms(6) pp by (auto simp: delete_partition_defs delete_partition_base_def Let_def)
  have lay': "pt_layout ?pt'"
    by (rule pt_step_layout [OF step_delete [OF assms(5) eq] lay])
  have lay1: "pt_layout ?pt" by (rule layout_remove [OF lay assms(5)])
  have "q \<in> set (get_partitions ?pt')"
    if q: "q \<in> set (get_partitions pt)" "p_sid q \<noteq> p_sid p" "p_in_system q"
      "p_type p = EXTENDED \<longrightarrow> p_type q \<noteq> LOGICAL" for q
  proof -
    have loty: "\<forall>q \<in> set (pt_logicals pt). p_type q = LOGICAL"
      using lay unfolding pt_layout_def by blast
    have q1: "q \<in> set (get_partitions ?pt)"
      using q(1,2,4) loty
      unfolding pt_layout_partitions(1) [OF lay] pt_layout_partitions(1) [OF lay1]
      by (auto simp: remove_partition_def)
    then have "new_number ?ns q = p_number q" using keep q(3) by blast
    then have same: "q\<lparr>p_number := new_number ?ns q\<rparr> = q" by simp
    have img: "set (get_partitions ?pt')
        = (\<lambda>q. q\<lparr>p_number := new_number ?ns q\<rparr>) ` set (get_partitions ?pt)"
    proof -
      have ch: "pt_children ?pt' = List.map (\<lambda>q. q\<lparr>p_number := new_number ?ns q\<rparr>) (pt_children ?pt)"
        and lo: "pt_logicals ?pt' = List.map (\<lambda>q. q\<lparr>p_number := new_number ?ns q\<rparr>) (pt_logicals ?pt)"
        by (rule apply_numbers_pt_lists)+
      have "set (get_partitions ?pt') = set (pt_children ?pt' @ pt_logicals ?pt')"
        by (simp only: pt_layout_partitions(1) [OF lay'])
      also have "\<dots> = (\<lambda>q. q\<lparr>p_number := new_number ?ns q\<rparr>) ` set (pt_children ?pt @ pt_logicals ?pt)"
        unfolding ch lo by (simp only: set_append list.set_map image_Un)
      also have "\<dots> = (\<lambda>q. q\<lparr>p_number := new_number ?ns q\<rparr>) ` set (get_partitions ?pt)"
        by (simp only: pt_layout_partitions(1) [OF lay1])
      finally show ?thesis .
    qed
    show ?thesis unfolding img by (rule image_eqI [where x = q], rule same [symmetric], rule q1)
  qed
  then show ?thesis using eq by blast
qed

definition demo4 :: ptable where
  "demo4 = committed demo3"

lemma delete_keeps_disk_numbers_witness:
  "\<exists>pt'. delete_partition ((new_partition 1 1 (demo_region 2048 204800) PRIMARY)\<lparr>p_in_system := True\<rparr>)
      demo4 = Inr pt' \<and>
    (new_partition 2 2 (demo_region 206848 793152) EXTENDED)\<lparr>p_in_system := True\<rparr>
      \<in> set (get_partitions pt')"
proof -
  have reach: "pt_reachable (ptable_new MSDOS demo_disk) demo4"
    unfolding demo4_def by (rule reach_step [OF demo_reachable step_commit])
  have parts: "get_partitions demo4 = List.map (\<lambda>p. p\<lparr>p_in_system := True\<rparr>)
      [new_partition 1 1 (demo_region 2048 204800) PRIMARY,
       new_partition 2 2 (demo_region 206848 793152) EXTENDED,
       new_partition 3 5 (demo_region 208896 10000) LOGICAL]"
    by (simp add: demo4_def demo3_def demo2_def demo1_def committed_def add_partition_def
        new_partition_def ptable_new_def get_partitions_def)
  show ?thesis
    using delete_keeps_disk_numbers [OF demo_dev_ok reach, of
        "(new_partition 1 1 (demo_region 2048 204800) PRIMARY)\<lparr>p_in_system := True\<rparr>"] parts
    by (auto simp: demo_disk_def new_partition_def)
qed

text \<open>
  C9: With the default policy \<open>ALIGN_START_KEEP_END\<close> and any align type every slot of
  \<open>get_unused_partition_slots\<close> can be used: a primary slot lies in the usable
  region and overlaps no primary or extended partition, a logical slot lies in the extended
  partition, overlaps no logical partition and leaves room for the EBR in front of it and, unless
  it reaches the end of the extended partition, for the EBR of the partition behind it. With the
  other policy, \<open>ALIGN_START_KEEP_SIZE\<close>, a slot can end behind the device, see
  \<open>kept_size_leaves_disk\<close> below.
\<close>

theorem unused_slots_usable:
  assumes "pt_ok pt" and "get_unused_partition_slots pt ALIGN_START_KEEP_END ty = Inr slots"
    and "slot \<in> set slots"
  shows "if logical_slot slot
    then logical_place pt (slot_region slot) \<and> ebr_room pt (slot_region slot)
    else primary_slot slot \<and> primary_place pt (slot_region slot)"
  using assms(2,3)
proof (cases rule: slots_cases)
  case (1 ps)
  then show ?thesis using primary_slot_place [OF assms(1) 1] by simp
next
  case (2 ls)
  then show ?thesis using logical_slot_place [OF assms(1) 2] by simp
qed

lemma unused_slots_usable_witness:
  "\<exists>slot. get_unused_partition_slots demo3 ALIGN_START_KEEP_END OPTIMAL = Inr [slot]
    \<and> logical_slot slot \<and> ebr_room demo3 (slot_region slot)"
proof -
  let ?s = "\<lparr>slot_region = demo_region 219136 780864, slot_number = 6, primary_slot = False,
    primary_possible = False, extended_slot = False, extended_possible_slot = False,
    logical_slot = True, logical_possible = True\<rparr>"
  have slots: "get_unused_partition_slots demo3 ALIGN_START_KEEP_END OPTIMAL = Inr [?s]"
    by code_simp
  have "pt_layout demo3"
    by (rule pt_reachable_layout [OF demo_reachable pt_layout_new [OF demo_dev_ok]])
  then have "pt_ok demo3" by (rule pt_layout_partitions(2))
  from unused_slots_usable [OF this slots, of ?s] slots show ?thesis by auto
qed

text \<open>
  The policy \<open>ALIGN_START_KEEP_SIZE\<close> moves the start of an unused region and keeps its length, and
  \<open>get_unused_partition_slots\<close> does not check where the result ends: behind a partition that ends
  within a grain the slot reaches over the end of the disk.
\<close>

definition demo_gap_table :: ptable where
  "demo_gap_table = add_partition (new_partition 1 1 (demo_region 2048 1000) PRIMARY) (ptable_new MSDOS demo_disk)"

lemma kept_size_leaves_disk:
  "\<exists>slot. get_unused_partition_slots demo_gap_table ALIGN_START_KEEP_SIZE OPTIMAL = Inr [slot] \<and>
    primary_slot slot \<and> slot_region slot = demo_region 4096 996952 \<and>
    \<not> blocks (slot_region slot) \<subseteq> blocks (dev_region demo_disk)"
proof -
  let ?s = "\<lparr>slot_region = demo_region 4096 996952, slot_number = 2, primary_slot = True,
    primary_possible = True, extended_slot = True, extended_possible_slot = True,
    logical_slot = False, logical_possible = False\<rparr>"
  have "get_unused_partition_slots demo_gap_table ALIGN_START_KEEP_SIZE OPTIMAL = Inr [?s]"
    by code_simp
  moreover have "1000000 \<in> blocks (demo_region 4096 996952)" "1000000 \<notin> blocks (dev_region demo_disk)"
    by (simp_all add: blocks_def demo_region_def demo_disk_def)
  ultimately show ?thesis by auto
qed

end
