(* ===== verification/PartitionFlags.thy ===== *)
theory PartitionFlags
  imports PartitionNumbers
begin

text \<open>
  More invariants of the partition tables of \<open>PartitionSteps\<close>: at most one partition has the boot
  flag. And what a resize can do to the partition behind a logical one.
\<close>

section \<open>The boot flag\<close>

definition boot_sids :: "ptable \<Rightarrow> nat set" where
  "boot_sids pt = p_sid ` {p \<in> set (pt_children pt @ pt_logicals pt). p_boot p}"

lemma boot_sids_mono:
  assumes "\<And>q. q \<in> set (pt_children b @ pt_logicals b) \<Longrightarrow> p_boot q \<Longrightarrow>
    \<exists>p \<in> set (pt_children a @ pt_logicals a). p_boot p \<and> p_sid p = p_sid q"
  shows "boot_sids b \<subseteq> boot_sids a"
proof
  fix s assume "s \<in> boot_sids b"
  then obtain q where "q \<in> set (pt_children b @ pt_logicals b)" "p_boot q" "s = p_sid q"
    by (auto simp: boot_sids_def)
  with assms [of q] obtain p where "p \<in> set (pt_children a @ pt_logicals a)" "p_boot p" "p_sid p = s"
    by blast
  then show "s \<in> boot_sids a" unfolding boot_sids_def by blast
qed

lemma boot_sids_apply: "boot_sids (apply_numbers_pt ns pt) \<subseteq> boot_sids pt"
  by (rule boot_sids_mono) (auto simp: apply_numbers_pt_lists)

lemma boot_sids_add: "\<not> p_boot p \<Longrightarrow> boot_sids (add_partition p pt) \<subseteq> boot_sids pt"
  by (rule boot_sids_mono) (auto simp: add_partition_def split: if_splits)

lemma boot_sids_remove: "boot_sids (remove_partition p pt) \<subseteq> boot_sids pt"
  by (rule boot_sids_mono) (auto simp: remove_partition_def split: if_splits)

lemma boot_sids_update:
  assumes "\<And>q. p_sid (f q) = p_sid q" and "\<And>q. p_boot (f q) \<Longrightarrow> p_boot q"
  shows "boot_sids (update_partition sid f pt) \<subseteq> boot_sids pt"
  by (rule boot_sids_mono) (use assms in \<open>fastforce simp: update_partition_def split: if_splits\<close>)

lemma boot_sids_create:
  assumes "create_partition sid n r t pt = Inr pt'"
  shows "boot_sids pt' \<subseteq> boot_sids pt"
proof -
  have new: "boot_sids (add_partition (new_partition sid n r t) pt) \<subseteq> boot_sids pt"
    by (rule boot_sids_add) (simp add: new_partition_def)
  from assms show ?thesis
    by (cases rule: create_partition_cases) (use new boot_sids_apply in blast)+
qed

lemma boot_sids_delete:
  assumes "delete_partition p pt = Inr pt'"
  shows "boot_sids pt' \<subseteq> boot_sids pt"
proof -
  have base: "boot_sids (delete_partition_base p pt) \<subseteq> boot_sids pt"
    using boot_sids_apply boot_sids_remove by (auto simp: delete_partition_base_def Let_def) blast+
  then have more: "boot_sids (apply_numbers_pt ns (delete_partition_base p pt)) \<subseteq> boot_sids pt" for ns
    using boot_sids_apply by blast
  show ?thesis
    using assms base more
    by (auto simp: delete_partition_defs Let_def result_simps split: pt_class.splits if_splits)
qed

lemma clear_boot:
  "boot_sids (fold (\<lambda>q. update_partition (p_sid q) (\<lambda>q. q\<lparr>p_boot := False\<rparr>)) qs pt) \<subseteq> boot_sids pt - p_sid ` set qs"
proof (induction qs arbitrary: pt)
  case (Cons q qs)
  have "boot_sids (update_partition (p_sid q) (\<lambda>q. q\<lparr>p_boot := False\<rparr>) pt) \<subseteq> boot_sids pt - {p_sid q}"
    by (auto simp: boot_sids_def update_partition_def)
  with Cons.IH [of "update_partition (p_sid q) (\<lambda>q. q\<lparr>p_boot := False\<rparr>) pt"] show ?case by auto
qed simp

lemma boot_sids_set_boot:
  assumes "pt_layout pt" and "p \<in> set (get_partitions pt)" and "boot_sids pt \<subseteq> {s}"
    and "partition_set_boot p boot pt = Inr pt'"
  shows "\<exists>s. boot_sids pt' \<subseteq> {s}"
proof -
  have parts: "get_partitions pt = pt_children pt @ pt_logicals pt"
    by (rule pt_layout_partitions(1) [OF assms(1)])
  have upd: "boot_sids (update_partition (p_sid p) (\<lambda>q. q\<lparr>p_boot := b\<rparr>) qt) \<subseteq> boot_sids qt \<union> (if b then {p_sid p} else {})"
    for b qt by (auto simp: boot_sids_def update_partition_def)
  show ?thesis
  proof (cases "boot \<and> \<not> p_boot p")
    case True
    let ?qt = "fold (\<lambda>q. update_partition (p_sid q) (\<lambda>q. q\<lparr>p_boot := False\<rparr>)) (get_partitions pt) pt"
    have "boot_sids ?qt = {}" using clear_boot [of "get_partitions pt" pt] by (auto simp: boot_sids_def parts)
    then have "boot_sids pt' \<subseteq> {p_sid p}"
      using upd [of True ?qt] assms(4) True by (auto simp: partition_set_boot_def Let_def split: if_splits)
    then show ?thesis by blast
  next
    case False
    then have eq: "pt' = update_partition (p_sid p) (\<lambda>q. q\<lparr>p_boot := boot\<rparr>) pt"
      using assms(4) by (auto simp: partition_set_boot_def Let_def split: if_splits)
    show ?thesis
    proof (cases boot)
      case True
      then have "p_sid p \<in> boot_sids pt" using False assms(2) by (auto simp: boot_sids_def parts)
      then show ?thesis using upd [of True pt] assms(3) True unfolding eq by auto
    next
      case 2: False
      then show ?thesis using upd [of False pt] assms(3) unfolding eq by auto
    qed
  qed
qed

lemma pt_step_boot:
  assumes "pt_step pt pt'" and "pt_layout pt" and "boot_sids pt \<subseteq> {s}"
  shows "\<exists>s. boot_sids pt' \<subseteq> {s}"
  using assms(1)
proof (cases rule: pt_step.cases)
  case (step_create ty slots slot t r sid)
  from boot_sids_create [OF step_create(8)] assms(3) show ?thesis by blast
next
  case (step_delete p)
  from boot_sids_delete [OF step_delete(2)] assms(3) show ?thesis by blast
next
  case (step_resize p children ri bytes)
  obtain r where pt': "pt' = update_partition (p_sid p) (\<lambda>p. p\<lparr>p_region := r\<rparr>) pt"
    using step_resize(6) by (rule set_size_cases)
  have "boot_sids pt' \<subseteq> boot_sids pt" unfolding pt' by (rule boot_sids_update) simp_all
  with assms(3) show ?thesis by blast
next
  case (step_boot p boot)
  from boot_sids_set_boot [OF assms(2) step_boot(1) assms(3) step_boot(2)] show ?thesis .
next
  case (step_id p caps i)
  have pt': "pt' = update_partition (p_sid p) (\<lambda>p. p\<lparr>p_id := i\<rparr>) pt"
    using step_id(2) by (simp add: partition_set_id_def split: if_splits)
  have "boot_sids pt' \<subseteq> boot_sids pt" unfolding pt' by (rule boot_sids_update) simp_all
  with assms(3) show ?thesis by blast
next
  case step_commit
  then have "boot_sids pt' \<subseteq> boot_sids pt" by (auto simp: boot_sids_def committed_def)
  with assms(3) show ?thesis by blast
qed

text \<open>
  C15: In every table that can be reached from an empty one, at most one partition has the boot flag.
\<close>

theorem reachable_one_boot:
  assumes "dev_ok (ptable_new c dev)" and "pt_reachable (ptable_new c dev) pt"
    and "p \<in> set (get_partitions pt)" and "q \<in> set (get_partitions pt)" and "p_boot p" and "p_boot q"
  shows "p = q"
proof -
  let ?init = "ptable_new c dev"
  have "pt_layout pt \<and> (\<exists>s. boot_sids pt \<subseteq> {s})"
    using assms(2)
  proof (induction rule: pt_reachable.induct)
    case reach_init
    then show ?case using pt_layout_new [OF assms(1)] by (simp add: boot_sids_def ptable_new_def)
  next
    case (reach_step pt pt')
    then show ?case using pt_step_layout pt_step_boot by blast
  qed
  then obtain s where lay: "pt_layout pt" and s: "boot_sids pt \<subseteq> {s}" by blast
  note parts = pt_layout_partitions(1) [OF lay]
  have "p_sid p = p_sid q" using s assms(3-6) by (auto simp: boot_sids_def parts)
  then show ?thesis
    using inj_sid [OF pt_layoutD(3) [OF lay], of q p] assms(3,4) by (simp add: parts)
qed
definition demo_boot :: ptable where
  "demo_boot = update_partition 1 (\<lambda>q. q\<lparr>p_boot := True\<rparr>) demo3"

lemma demo_boot_reachable: "pt_reachable (ptable_new MSDOS demo_disk) demo_boot"
proof (rule pt_reachable.reach_step [OF demo_reachable])
  let ?p = "new_partition 1 1 (demo_region 2048 204800) PRIMARY"
  have "?p \<in> set (get_partitions demo3)"
    by (simp add: demo3_def demo2_def demo1_def add_partition_def new_partition_def ptable_new_def get_partitions_def)
  moreover have "partition_set_boot ?p True demo3 = Inr demo_boot"
    by (simp add: partition_set_boot_def is_partition_boot_flag_supported_def demo_boot_def demo3_def demo2_def
        demo1_def add_partition_def new_partition_def ptable_new_def get_partitions_def update_partition_def)
  ultimately show "pt_step demo3 demo_boot" by (rule pt_step.step_boot)
qed

definition demo_active :: partition where
  "demo_active = (new_partition 1 1 (demo_region 2048 204800) PRIMARY)\<lparr>p_boot := True\<rparr>"

lemma reachable_one_boot_witness: "{q \<in> set (get_partitions demo_boot). p_boot q} = {demo_active}"
proof -
  have in_demo: "demo_active \<in> set (get_partitions demo_boot)"
    by (simp add: demo_boot_def demo3_def demo2_def demo1_def add_partition_def new_partition_def ptable_new_def
        get_partitions_def update_partition_def demo_active_def)
  have boot: "p_boot demo_active" by (simp add: demo_active_def)
  have "q = demo_active" if "q \<in> set (get_partitions demo_boot)" "p_boot q" for q
    using reachable_one_boot [OF demo_dev_ok demo_boot_reachable in_demo that(1) boot that(2)] by simp
  then show ?thesis using in_demo boot by blast
qed

section \<open>Growing a logical partition\<close>

text \<open>
  A slot for a logical partition leaves 128 blocks for the EBR of the partition behind it. The
  limits of a resize do not: the first logical partition can be grown up to the start of the
  second one.
\<close>

definition demo_logicals :: ptable where
  "demo_logicals = add_partition (new_partition 4 6 (demo_region 220000 10000) LOGICAL) demo3"

definition demo_first :: partition where
  "demo_first = new_partition 3 5 (demo_region 208896 10000) LOGICAL"

lemma logical_grows_over_ebr:
  "emap max_size (partition_resize_info [] demo_first demo_logicals) = Inr (11104 * 512)"
  "emap (\<lambda>pt. List.map (\<lambda>p. get_end (p_region p)) (pt_logicals pt))
     (partition_set_size demo_first (11104 * 512) demo_logicals) = Inr [Inr 219999, Inr 229999]"
  by code_simp+

end
