(* ===== verification/GraphSearch.thy ===== *)
theory GraphSearch
  imports Prelude
begin

text \<open>
  The two searches of the Boost Graph Library the devicegraph uses, on a list of edges in the order
  of the graph: breadth first search recording the vertices in the order they are discovered
  (\<open>VertexRecorder\<close>), and depth first search with an explicit stack, looking for a back edge
  (\<open>CycleDetector\<close>). The searches are shown to terminate, to visit exactly what can be reached, and
  to find a back edge exactly when the graph has a cycle.
\<close>

section \<open>Breadth first search\<close>

text \<open>The targets of the edges out of a vertex, in the order of the edges.\<close>

definition succs :: "(nat \<times> nat) list \<Rightarrow> nat \<Rightarrow> nat list" where
  "succs es u = List.map snd (filter (\<lambda>e. fst e = u) es)"

lemma set_succs [simp]: "set (succs es u) = {v. (u, v) \<in> set es}"
  by (force simp: succs_def)

text \<open>Examining the edges out of one vertex: the targets not seen yet are recorded and queued.\<close>

fun examine :: "nat list \<Rightarrow> nat list \<Rightarrow> nat list \<Rightarrow> nat list \<times> nat list" where
  "examine [] q seen = (q, seen)"
| "examine (v # vs) q seen =
     (if v \<in> set seen then examine vs q seen else examine vs (q @ [v]) (seen @ [v]))"

lemma examine_new:
  "\<exists>new. examine vs q seen = (q @ new, seen @ new) \<and> set new = set vs - set seen \<and> distinct new"
proof (induction vs q seen rule: examine.induct)
  case (1 q seen)
  then show ?case by simp
next
  case (2 v vs q seen)
  show ?case
  proof (cases "v \<in> set seen")
    case True
    then obtain new where "examine vs q seen = (q @ new, seen @ new)" "set new = set vs - set seen"
      "distinct new" using "2.IH"(1) by auto
    then show ?thesis using True by (intro exI [of _ new]) auto
  next
    case False
    then obtain new where "examine vs (q @ [v]) (seen @ [v]) = (q @ [v] @ new, seen @ [v] @ new)"
      "set new = set vs - set (seen @ [v])" "distinct new" using "2.IH"(2) by auto
    then show ?thesis using False by (intro exI [of _ "v # new"]) auto
  qed
qed

function bfs :: "(nat \<times> nat) list \<Rightarrow> nat list \<Rightarrow> nat list \<Rightarrow> nat list" where
  "bfs es [] seen = seen"
| "bfs es (u # q) seen =
     (let (q', seen') = examine (succs es u) q seen in bfs es q' seen')"
  by pat_completeness auto

termination
proof (relation "measures [\<lambda>(es, q, seen). card (snd ` set es - set seen), \<lambda>(es, q, seen). length q]")
  fix es u q seen q' seen' x
  assume x: "x = examine (succs es u) q seen" and pair: "(q', seen') = x"
  obtain new where ex: "examine (succs es u) q seen = (q @ new, seen @ new)"
    and new: "set new = set (succs es u) - set seen"
    using examine_new by blast
  have eqs: "q' = q @ new" "seen' = seen @ new" using ex x pair by auto
  show "((es, q', seen'), (es, u # q, seen))
      \<in> measures [\<lambda>(es, q, seen). card (snd ` set es - set seen), \<lambda>(es, q, seen). length q]"
  proof (cases "new = []")
    case True
    then show ?thesis by (simp add: eqs)
  next
    case False
    then obtain v where "v \<in> set new" by (cases new) auto
    then have "v \<in> snd ` set es - set seen" and "v \<notin> snd ` set es - set seen'"
      using new eqs by force+
    moreover have "snd ` set es - set seen' \<subseteq> snd ` set es - set seen" using eqs by auto
    ultimately have "snd ` set es - set seen' \<subset> snd ` set es - set seen" by blast
    then have "card (snd ` set es - set seen') < card (snd ` set es - set seen)"
      by (intro psubset_card_mono) auto
    then show ?thesis by simp
  qed
qed simp

text \<open>
  What has been seen grows by vertices that can be reached from it until it is closed under
  edges.
\<close>

lemma bfs_reaches:
  assumes "distinct seen" and "set q \<subseteq> set seen"
    and "\<forall>u \<in> set seen - set q. \<forall>v. (u, v) \<in> set es \<longrightarrow> v \<in> set seen"
  shows "distinct (bfs es q seen) \<and> set (bfs es q seen) = (set es)\<^sup>* `` set seen"
  using assms
proof (induction es q seen rule: bfs.induct)
  case (1 es seen)
  have "(set es)\<^sup>* `` set seen \<subseteq> set seen"
    by (rule Image_closed_trancl [THEN equalityD1]) (use 1 in auto)
  then show ?case using 1 by auto
next
  case (2 es u q seen)
  obtain new where ex: "examine (succs es u) q seen = (q @ new, seen @ new)"
    and new: "set new = {v. (u, v) \<in> set es} - set seen" and dist: "distinct new"
    using examine_new [of "succs es u" q seen] by auto
  have "distinct (bfs es (q @ new) (seen @ new)) \<and>
      set (bfs es (q @ new) (seen @ new)) = (set es)\<^sup>* `` set (seen @ new)"
  proof (rule "2.IH" [OF ex [symmetric] refl])
    show "distinct (seen @ new)" using "2.prems"(1) new dist by auto
    show "set (q @ new) \<subseteq> set (seen @ new)" using "2.prems"(2) by auto
    show "\<forall>w \<in> set (seen @ new) - set (q @ new). \<forall>v. (w, v) \<in> set es \<longrightarrow> v \<in> set (seen @ new)"
    proof (intro ballI allI impI)
      fix w v assume w: "w \<in> set (seen @ new) - set (q @ new)" and e: "(w, v) \<in> set es"
      show "v \<in> set (seen @ new)"
      proof (cases "w = u")
        case True
        then show ?thesis using e new by auto
      next
        case False
        then have "w \<in> set seen - set (u # q)" using w by auto
        then have "v \<in> set seen" using "2.prems"(3) e by blast
        then show ?thesis by simp
      qed
    qed
  qed
  moreover have "(set es)\<^sup>* `` set (seen @ new) = (set es)\<^sup>* `` set seen"
  proof
    show "(set es)\<^sup>* `` set (seen @ new) \<subseteq> (set es)\<^sup>* `` set seen"
    proof
      fix w assume "w \<in> (set es)\<^sup>* `` set (seen @ new)"
      then obtain x where x: "x \<in> set seen \<or> x \<in> set new" "(x, w) \<in> (set es)\<^sup>*" by auto
      show "w \<in> (set es)\<^sup>* `` set seen"
      proof (cases "x \<in> set seen")
        case False
        then have "(u, x) \<in> set es" using x(1) new by simp
        then have "(u, w) \<in> (set es)\<^sup>*" using x(2) by (rule converse_rtrancl_into_rtrancl)
        moreover have "u \<in> set seen" using "2.prems"(2) by simp
        ultimately show ?thesis by blast
      qed (use x(2) in blast)
    qed
    show "(set es)\<^sup>* `` set seen \<subseteq> (set es)\<^sup>* `` set (seen @ new)" by auto
  qed
  ultimately show ?case by (simp add: ex)
qed

lemma bfs_from:
  "distinct (bfs es [v] [v]) \<and> set (bfs es [v] [v]) = {w. (v, w) \<in> (set es)\<^sup>*}"
  using bfs_reaches [of "[v]" "[v]" es] by auto

lemma bfs_prefix: "\<exists>new. bfs es q seen = seen @ new"
proof (induction es q seen rule: bfs.induct)
  case (2 es u q seen)
  obtain new where ex: "examine (succs es u) q seen = (q @ new, seen @ new)"
    using examine_new by blast
  from "2.IH" [OF ex [symmetric] refl] show ?case by (simp add: ex) blast
qed simp

section \<open>Depth first search for a back edge\<close>

definition dfs_white :: "(nat \<times> nat) list \<Rightarrow> (nat \<times> nat list) list \<Rightarrow> nat list \<Rightarrow> nat set" where
  "dfs_white es st black =
     (snd ` set es \<union> \<Union> ((set \<circ> snd) ` set st)) - (fst ` set st \<union> set black)"

lemma finite_dfs_white [simp]: "finite (dfs_white es st black)"
  by (simp add: dfs_white_def)

definition dfs_work :: "(nat \<times> nat list) list \<Rightarrow> nat" where
  "dfs_work st = sum_list (List.map (\<lambda>(u, vs). Suc (length vs)) st)"

text \<open>
  The stack holds the vertices on the current path (the gray ones), each with the targets of its
  edges that have not been examined yet; the vertices that are finished are black. An edge to a
  vertex on the stack is a back edge.
\<close>

function dfs_visit :: "(nat \<times> nat) list \<Rightarrow> (nat \<times> nat list) list \<Rightarrow> nat list \<Rightarrow> bool \<Rightarrow> nat list \<times> bool" where
  "dfs_visit es [] black cyc = (black, cyc)"
| "dfs_visit es ((u, []) # st) black cyc = dfs_visit es st (u # black) cyc"
| "dfs_visit es ((u, v # vs) # st) black cyc =
     (if v \<in> fst ` set ((u, vs) # st) then dfs_visit es ((u, vs) # st) black True
      else if v \<in> set black then dfs_visit es ((u, vs) # st) black cyc
      else dfs_visit es ((v, succs es v) # (u, vs) # st) black cyc)"
  by pat_completeness auto

termination
proof (relation "measures [\<lambda>(es, st, black, cyc). card (dfs_white es st black),
    \<lambda>(es, st, black, cyc). dfs_work st]")
  show "wf (measures [\<lambda>(es, st, black, cyc). card (dfs_white es st black),
    \<lambda>(es, st, black, cyc). dfs_work st])" by simp
next
  fix es :: "(nat \<times> nat) list" and u :: nat and st :: "(nat \<times> nat list) list"
    and black :: "nat list" and cyc :: bool
  show "((es, st, u # black, cyc), (es, (u, []) # st, black, cyc))
    \<in> measures [\<lambda>(es, st, black, cyc). card (dfs_white es st black),
        \<lambda>(es, st, black, cyc). dfs_work st]"
  proof -
    have "dfs_white es st (u # black) = dfs_white es ((u, []) # st) black"
      by (simp add: dfs_white_def)
    then show ?thesis by (simp add: dfs_work_def)
  qed
next
  fix es :: "(nat \<times> nat) list" and u v :: nat and vs :: "nat list"
    and st :: "(nat \<times> nat list) list" and black :: "nat list" and cyc :: bool
  assume "v \<in> fst ` set ((u, vs) # st)"
  have "dfs_white es ((u, vs) # st) black \<subseteq> dfs_white es ((u, v # vs) # st) black"
    by (auto simp: dfs_white_def)
  then have "card (dfs_white es ((u, vs) # st) black) \<le> card (dfs_white es ((u, v # vs) # st) black)"
    by (intro card_mono) auto
  then show "((es, (u, vs) # st, black, True), (es, (u, v # vs) # st, black, cyc))
    \<in> measures [\<lambda>(es, st, black, cyc). card (dfs_white es st black),
        \<lambda>(es, st, black, cyc). dfs_work st]"
    by (simp add: dfs_work_def le_less)
next
  fix es :: "(nat \<times> nat) list" and u v :: nat and vs :: "nat list"
    and st :: "(nat \<times> nat list) list" and black :: "nat list" and cyc :: bool
  have "dfs_white es ((u, vs) # st) black \<subseteq> dfs_white es ((u, v # vs) # st) black"
    by (auto simp: dfs_white_def)
  then have "card (dfs_white es ((u, vs) # st) black) \<le> card (dfs_white es ((u, v # vs) # st) black)"
    by (intro card_mono) auto
  then show "((es, (u, vs) # st, black, cyc), (es, (u, v # vs) # st, black, cyc))
    \<in> measures [\<lambda>(es, st, black, cyc). card (dfs_white es st black),
        \<lambda>(es, st, black, cyc). dfs_work st]"
    by (simp add: dfs_work_def le_less)
next
  fix es :: "(nat \<times> nat) list" and u v :: nat and vs :: "nat list"
    and st :: "(nat \<times> nat list) list" and black :: "nat list" and cyc :: bool
  assume v: "v \<notin> fst ` set ((u, vs) # st)" "v \<notin> set black"
  let ?new = "dfs_white es ((v, succs es v) # (u, vs) # st) black"
  let ?old = "dfs_white es ((u, v # vs) # st) black"
  have "?new \<subseteq> ?old" by (force simp: dfs_white_def)
  moreover have "v \<in> ?old" "v \<notin> ?new" using v by (auto simp: dfs_white_def)
  ultimately have "?new \<subset> ?old" by blast
  then have "card ?new < card ?old" by (intro psubset_card_mono) auto
  then show "((es, (v, succs es v) # (u, vs) # st, black, cyc), (es, (u, v # vs) # st, black, cyc))
    \<in> measures [\<lambda>(es, st, black, cyc). card (dfs_white es st black),
        \<lambda>(es, st, black, cyc). dfs_work st]"
    by simp
qed

text \<open>All vertices in turn, skipping those already visited.\<close>

fun dfs_all :: "(nat \<times> nat) list \<Rightarrow> nat list \<Rightarrow> nat list \<Rightarrow> bool \<Rightarrow> nat list \<times> bool" where
  "dfs_all es [] black cyc = (black, cyc)"
| "dfs_all es (r # rs) black cyc =
     (if r \<in> set black then dfs_all es rs black cyc
      else let (black', cyc') = dfs_visit es [(r, succs es r)] black cyc in dfs_all es rs black' cyc')"

definition has_back_edge :: "(nat \<times> nat) list \<Rightarrow> nat list \<Rightarrow> bool" where
  "has_back_edge es vs = snd (dfs_all es vs [] False)"

section \<open>A back edge is a cycle\<close>

text \<open>
  In the list of the finished vertices, the last one finished first, every successor of a vertex
  comes later in the list.
\<close>

fun finished_order :: "(nat \<times> nat) list \<Rightarrow> nat list \<Rightarrow> bool" where
  "finished_order es [] = True"
| "finished_order es (u # bs) \<longleftrightarrow> set (succs es u) \<subseteq> set bs \<and> finished_order es bs"

text \<open>The stack is a path, from the bottom to the top.\<close>

fun stack_path :: "(nat \<times> nat) list \<Rightarrow> (nat \<times> nat list) list \<Rightarrow> bool" where
  "stack_path es [] = True"
| "stack_path es [(u, vs)] \<longleftrightarrow> set vs \<subseteq> set (succs es u)"
| "stack_path es ((u, vs) # (w, ws) # st) \<longleftrightarrow>
     set vs \<subseteq> set (succs es u) \<and> (w, u) \<in> set es \<and> stack_path es ((w, ws) # st)"

text \<open>
  The successors of a vertex on the stack are finished, still to be examined, or the vertex above
  it on the stack.
\<close>

fun stack_done :: "(nat \<times> nat) list \<Rightarrow> nat list \<Rightarrow> nat set \<Rightarrow> (nat \<times> nat list) list \<Rightarrow> bool" where
  "stack_done es black tops [] = True"
| "stack_done es black tops ((u, vs) # st) \<longleftrightarrow>
     set (succs es u) \<subseteq> set vs \<union> set black \<union> tops \<and> stack_done es black {u} st"

definition dfs_inv :: "(nat \<times> nat) list \<Rightarrow> (nat \<times> nat list) list \<Rightarrow> nat list \<Rightarrow> bool \<Rightarrow> bool" where
  "dfs_inv es st black cyc \<longleftrightarrow>
     stack_path es st \<and> distinct (List.map fst st @ black) \<and>
     (if cyc then \<exists>v. (v, v) \<in> (set es)\<^sup>+
      else stack_done es black {} st \<and> finished_order es black)"

lemma stack_path_tail: "stack_path es (f # st) \<Longrightarrow> stack_path es st"
  by (cases "(es, f # st)" rule: stack_path.cases) auto

lemma stack_path_shrink: "stack_path es ((u, v # vs) # st) \<Longrightarrow> stack_path es ((u, vs) # st)"
  by (cases st) auto

lemma stack_path_reaches:
  assumes "stack_path es ((u, vs) # st)" and "v \<in> fst ` set ((u, vs) # st)"
  shows "(v, u) \<in> (set es)\<^sup>*"
  using assms
proof (induction st arbitrary: u vs)
  case Nil
  then show ?case by simp
next
  case (Cons f st)
  obtain w ws where f: "f = (w, ws)" by (cases f)
  show ?case
  proof (cases "v = u")
    case False
    then have "v \<in> fst ` set ((w, ws) # st)" using Cons.prems(2) f by simp
    then have "(v, w) \<in> (set es)\<^sup>*" using Cons.IH [of w ws] Cons.prems(1) f by simp
    then show ?thesis using Cons.prems(1) f by (auto intro: rtrancl_into_rtrancl)
  qed simp
qed

lemma stack_done_finish:
  "stack_done es black {u} st \<Longrightarrow> stack_done es (u # black) {} st"
proof -
  have mono: "stack_done es black a st \<Longrightarrow> stack_done es (u # black) a st" for a st
    by (induction st arbitrary: a) auto
  show "stack_done es black {u} st \<Longrightarrow> stack_done es (u # black) {} st"
    by (cases st) (auto intro: mono)
qed

lemma back_edge_cycle:
  assumes "stack_path es ((u, v # vs) # st)" and "v \<in> fst ` set ((u, vs) # st)"
  shows "(v, v) \<in> (set es)\<^sup>+"
proof -
  have "(v, u) \<in> (set es)\<^sup>*"
    by (rule stack_path_reaches [OF stack_path_shrink [OF assms(1)] assms(2)])
  moreover have "(u, v) \<in> set es" using assms(1) by (cases st) auto
  ultimately show ?thesis by (rule rtrancl_into_trancl1)
qed

lemma dfs_visit_inv:
  assumes "dfs_inv es st black cyc"
  shows "dfs_inv es [] (fst (dfs_visit es st black cyc)) (snd (dfs_visit es st black cyc))
    \<and> set black \<union> fst ` set st \<subseteq> set (fst (dfs_visit es st black cyc))"
  using assms
proof (induction es st black cyc rule: dfs_visit.induct)
  case (1 es black cyc)
  then show ?case by simp
next
  case (2 es u st black cyc)
  have "dfs_inv es st (u # black) cyc"
    using "2.prems" stack_path_tail stack_done_finish
    by (auto simp: dfs_inv_def split: if_splits)
  from "2.IH" [OF this] show ?case by auto
next
  case (3 es u v vs st black cyc)
  show ?case
  proof (cases "v \<in> fst ` set ((u, vs) # st)")
    case True
    have path: "stack_path es ((u, v # vs) # st)" using "3.prems" by (simp only: dfs_inv_def)
    have "dfs_inv es ((u, vs) # st) black True"
      using "3.prems" stack_path_shrink [OF path] back_edge_cycle [OF path True]
      by (auto simp: dfs_inv_def)
    from "3.IH"(1) [OF True this] True show ?thesis by simp
  next
    case gray: False
    show ?thesis
    proof (cases "v \<in> set black")
      case True
      have "dfs_inv es ((u, vs) # st) black cyc"
        using "3.prems" stack_path_shrink True by (auto simp: dfs_inv_def split: if_splits)
      from "3.IH"(2) [OF gray True this] gray True show ?thesis by simp
    next
      case False
      have path: "stack_path es ((u, v # vs) # st)" using "3.prems" by (simp only: dfs_inv_def)
      have "dfs_inv es ((v, succs es v) # (u, vs) # st) black cyc"
        using "3.prems" gray False stack_path_shrink [OF path] path
        by (cases st) (auto simp: dfs_inv_def split: if_splits)
      from "3.IH"(3) [OF gray False this] gray False show ?thesis by simp
    qed
  qed
qed

lemma dfs_all_inv:
  assumes "dfs_inv es [] black cyc"
  shows "dfs_inv es [] (fst (dfs_all es rs black cyc)) (snd (dfs_all es rs black cyc))
    \<and> set black \<union> set rs \<subseteq> set (fst (dfs_all es rs black cyc))"
  using assms
proof (induction es rs black cyc rule: dfs_all.induct)
  case (1 es black cyc)
  then show ?case by simp
next
  case (2 es r rs black cyc)
  show ?case
  proof (cases "r \<in> set black")
    case True
    then show ?thesis using "2.IH"(1) "2.prems" by auto
  next
    case False
    obtain b c where v: "dfs_visit es [(r, succs es r)] black cyc = (b, c)" by fastforce
    have "dfs_inv es [(r, succs es r)] black cyc"
      using "2.prems" False by (auto simp: dfs_inv_def split: if_splits)
    from dfs_visit_inv [OF this] have "dfs_inv es [] b c" "set black \<union> {r} \<subseteq> set b"
      using v by auto
    then show ?thesis using "2.IH"(2) [OF False v [symmetric] refl] False v by auto
  qed
qed

lemma finished_order_acyclic:
  assumes "finished_order es bs" and "distinct bs" and "(u, v) \<in> (set es)\<^sup>+" and "u \<in> set bs"
  shows "v \<in> set bs \<and> length (dropWhile (\<lambda>x. x \<noteq> v) bs) < length (dropWhile (\<lambda>x. x \<noteq> u) bs)"
proof -
  have one: "y \<in> set bs \<and> length (dropWhile (\<lambda>x. x \<noteq> y) bs) < length (dropWhile (\<lambda>x. x \<noteq> x') bs)"
    if "(x', y) \<in> set es" "x' \<in> set bs" for x' y
    using assms(1,2) that
  proof (induction bs)
    case (Cons b bs)
    show ?case
    proof (cases "x' = b")
      case True
      then have "y \<in> set bs" using Cons.prems by auto
      moreover have "y \<noteq> b" using calculation Cons.prems(2) by auto
      ultimately show ?thesis using True by (simp add: length_dropWhile_le less_Suc_eq_le)
    next
      case False
      then have "x' \<in> set bs" using Cons.prems by simp
      then have ih: "y \<in> set bs"
        "length (dropWhile (\<lambda>x. x \<noteq> y) bs) < length (dropWhile (\<lambda>x. x \<noteq> x') bs)"
        using Cons by auto
      have "y \<noteq> b" using ih(1) Cons.prems(2) by auto
      then show ?thesis using ih False by simp
    qed
  qed simp
  show ?thesis
    using assms(3,4)
  proof (induction rule: trancl_induct)
    case (base y)
    then show ?case using one by blast
  next
    case (step y z)
    have y: "y \<in> set bs" "length (dropWhile (\<lambda>x. x \<noteq> y) bs) < length (dropWhile (\<lambda>x. x \<noteq> u) bs)"
      using step.IH step.prems by simp_all
    with one [OF step.hyps(2) y(1)] show ?case by simp
  qed
qed

lemma has_back_edge_iff:
  assumes "snd ` set es \<subseteq> set vs"
  shows "has_back_edge es vs \<longleftrightarrow> \<not> acyclic (set es)"
proof -
  obtain b c where r: "dfs_all es vs [] False = (b, c)" by fastforce
  have "dfs_inv es [] [] False" by (simp add: dfs_inv_def)
  from dfs_all_inv [OF this, of vs] have inv: "dfs_inv es [] b c" and all: "set vs \<subseteq> set b"
    using r by simp_all
  show ?thesis
  proof (cases c)
    case True
    then show ?thesis using inv r by (auto simp: has_back_edge_def dfs_inv_def acyclic_def)
  next
    case False
    have "acyclic (set es)"
      unfolding acyclic_def
    proof (intro allI notI)
      fix v assume cyc: "(v, v) \<in> (set es)\<^sup>+"
      then obtain w where "(w, v) \<in> set es" by (auto dest: tranclD2)
      then have "v \<in> set b" using assms all by force
      then show False
        using finished_order_acyclic [OF _ _ cyc] inv False by (auto simp: dfs_inv_def)
    qed
    then show ?thesis using r False by (simp add: has_back_edge_def)
  qed
qed

end
