(* ===== verification/Devicegraph.thy ===== *)
theory Devicegraph
  imports GraphSearch
begin

text \<open>
  The devicegraph (storage/DevicegraphImpl.cc with the graph operations of
  storage/Devices/DeviceImpl.cc and storage/Holders/HolderImpl.cc): devices as vertices, holders
  as edges. A vertex or an edge is known by its descriptor, which stays valid until it is removed
  and is never used again: a natural number here. Parallel edges are allowed.
\<close>

section \<open>Devices, holders and views\<close>

datatype view = VIEW_ALL | VIEW_CLASSIC | VIEW_REMOVE

datatype lv_type =
  LV_UNKNOWN | LV_NORMAL | LV_THIN_POOL | LV_THIN | LV_RAID | LV_CACHE_POOL
| LV_CACHE | LV_WRITECACHE | LV_SNAPSHOT | LV_MIRROR

text \<open>The classes of devices the graph itself looks at; the others by their name.\<close>

datatype device_class =
  C_LvmLv lv_type
| C_Btrfs
| C_BtrfsQgroup "nat \<times> nat"
| C_Device string

datatype holder_class =
  C_Subdevice | C_User | C_FilesystemUser | C_MdUser | C_MdSubdevice | C_Snapshot
| C_BtrfsQgroupRelation

text \<open>The attributes that \<open>equal\<close> compares are kept as a list of names and values.\<close>

record device =
  d_sid :: nat
  d_class :: device_class
  d_attrs :: "(string \<times> string) list"

record holder =
  h_class :: holder_class
  h_attrs :: "(string \<times> string) list"

record edge =
  e_id :: nat
  e_source :: nat
  e_target :: nat
  e_holder :: holder

record devicegraph =
  dg_vertices :: "(nat \<times> device) list"
  dg_edges :: "edge list"
  dg_next :: nat

definition dg_empty :: devicegraph where
  "dg_empty = \<lparr>dg_vertices = [], dg_edges = [], dg_next = 0\<rparr>"

text \<open>\<open>graph[vertex]\<close>: a descriptor that is not in the graph must not be dereferenced.\<close>

definition device_at :: "devicegraph \<Rightarrow> nat \<Rightarrow> device option" where
  "device_at g v = map_of (dg_vertices g) v"

definition sid_of :: "devicegraph \<Rightarrow> nat \<Rightarrow> nat option" where
  "sid_of g v = map_option d_sid (device_at g v)"

definition device_in_view :: "view \<Rightarrow> device \<Rightarrow> bool" where
  "device_in_view view d =
     (case d_class d of
        C_BtrfsQgroup _ \<Rightarrow> (case view of VIEW_ALL \<Rightarrow> True | VIEW_CLASSIC \<Rightarrow> False | VIEW_REMOVE \<Rightarrow> True)
      | _ \<Rightarrow> True)"

definition snapshot_in_view :: "devicegraph \<Rightarrow> view \<Rightarrow> edge \<Rightarrow> bool" where
  "snapshot_in_view g view e =
     (case view of
        VIEW_ALL \<Rightarrow> True
      | VIEW_CLASSIC \<Rightarrow> False
      | VIEW_REMOVE \<Rightarrow> (case map_option d_class (device_at g (e_source e)) of
          Some (C_LvmLv t) \<Rightarrow> t \<noteq> LV_THIN
        | _ \<Rightarrow> False))"

text \<open>The target of a qgroup relation is a qgroup; \<open>(0, 0)\<close> is \<open>unknown_id\<close>.\<close>

definition relation_in_view :: "devicegraph \<Rightarrow> view \<Rightarrow> edge \<Rightarrow> bool" where
  "relation_in_view g view e =
     (case view of
        VIEW_ALL \<Rightarrow> True
      | VIEW_CLASSIC \<Rightarrow> False
      | VIEW_REMOVE \<Rightarrow>
          map_option d_class (device_at g (e_source e)) = Some C_Btrfs \<or>
          map_option d_class (device_at g (e_target e)) = Some (C_BtrfsQgroup (0, 0)))"

definition holder_in_view :: "devicegraph \<Rightarrow> view \<Rightarrow> edge \<Rightarrow> bool" where
  "holder_in_view g view e =
     (case h_class (e_holder e) of
        C_Snapshot \<Rightarrow> snapshot_in_view g view e
      | C_BtrfsQgroupRelation \<Rightarrow> relation_in_view g view e
      | _ \<Rightarrow> True)"

definition vertex_filter :: "devicegraph \<Rightarrow> view \<Rightarrow> nat \<Rightarrow> bool" where
  "vertex_filter g view v = (case device_at g v of None \<Rightarrow> False | Some d \<Rightarrow> device_in_view view d)"

section \<open>Queries\<close>

definition vertices :: "devicegraph \<Rightarrow> nat list" where
  "vertices g = List.map fst (dg_vertices g)"

definition num_devices :: "devicegraph \<Rightarrow> nat" where
  "num_devices g = length (dg_vertices g)"

definition num_holders :: "devicegraph \<Rightarrow> nat" where
  "num_holders g = length (dg_edges g)"

definition get_device_sids :: "devicegraph \<Rightarrow> nat set" where
  "get_device_sids g = (\<lambda>(v, d). d_sid d) ` set (dg_vertices g)"

definition get_holder_sid_pairs :: "devicegraph \<Rightarrow> (nat option \<times> nat option) set" where
  "get_holder_sid_pairs g = (\<lambda>e. (sid_of g (e_source e), sid_of g (e_target e))) ` set (dg_edges g)"

definition device_exists :: "devicegraph \<Rightarrow> nat \<Rightarrow> bool" where
  "device_exists g sid = list_ex (\<lambda>(v, d). d_sid d = sid) (dg_vertices g)"

definition joins_sids :: "devicegraph \<Rightarrow> nat \<Rightarrow> nat \<Rightarrow> edge \<Rightarrow> bool" where
  "joins_sids g ssid tsid e \<longleftrightarrow>
     sid_of g (e_source e) = Some ssid \<and> sid_of g (e_target e) = Some tsid"

definition holder_exists :: "devicegraph \<Rightarrow> nat \<Rightarrow> nat \<Rightarrow> bool" where
  "holder_exists g ssid tsid = list_ex (joins_sids g ssid tsid) (dg_edges g)"

definition find_vertex :: "devicegraph \<Rightarrow> nat \<Rightarrow> nat result" where
  "find_vertex g sid =
     (case find (\<lambda>(v, d). d_sid d = sid) (dg_vertices g) of
        None \<Rightarrow> Inl DeviceNotFound
      | Some (v, d) \<Rightarrow> Inr v)"

definition find_edges :: "devicegraph \<Rightarrow> nat \<Rightarrow> nat \<Rightarrow> edge list" where
  "find_edges g ssid tsid = filter (joins_sids g ssid tsid) (dg_edges g)"

definition find_edge :: "devicegraph \<Rightarrow> nat \<Rightarrow> nat \<Rightarrow> edge result" where
  "find_edge g ssid tsid =
     (case find_edges g ssid tsid of
        [] \<Rightarrow> Inl HolderNotFound
      | [e] \<Rightarrow> Inr e
      | es \<Rightarrow> Inl (WrongNumberOfHolders (length es) 1))"

section \<open>Changing the graph\<close>

definition add_vertex :: "device \<Rightarrow> devicegraph \<Rightarrow> nat \<times> devicegraph" where
  "add_vertex d g =
     (dg_next g, g\<lparr>dg_vertices := dg_vertices g @ [(dg_next g, d)], dg_next := dg_next g + 1\<rparr>)"

text \<open>No second holder of the same class between the same devices.\<close>

definition add_edge :: "nat \<Rightarrow> nat \<Rightarrow> holder \<Rightarrow> devicegraph \<Rightarrow> (nat \<times> devicegraph) result" where
  "add_edge sv tv h g =
     (case (sid_of g sv, sid_of g tv) of
        (Some ssid, Some tsid) \<Rightarrow>
          if list_ex (\<lambda>e. h_class (e_holder e) = h_class h) (find_edges g ssid tsid)
          then Inl HolderAlreadyExists
          else Inr (dg_next g,
            g\<lparr>dg_edges := dg_edges g @
                [\<lparr>e_id = dg_next g, e_source = sv, e_target = tv, e_holder = h\<rparr>],
              dg_next := dg_next g + 1\<rparr>)
      | _ \<Rightarrow> Inl UndefinedBehaviour)"

definition remove_vertex :: "nat \<Rightarrow> devicegraph \<Rightarrow> devicegraph" where
  "remove_vertex v g =
     g\<lparr>dg_vertices := filter (\<lambda>(w, d). w \<noteq> v) (dg_vertices g),
       dg_edges := filter (\<lambda>e. e_source e \<noteq> v \<and> e_target e \<noteq> v) (dg_edges g)\<rparr>"

definition remove_edge :: "nat \<Rightarrow> devicegraph \<Rightarrow> devicegraph" where
  "remove_edge i g = g\<lparr>dg_edges := filter (\<lambda>e. e_id e \<noteq> i) (dg_edges g)\<rparr>"

definition edge_at :: "devicegraph \<Rightarrow> nat \<Rightarrow> edge option" where
  "edge_at g i = find (\<lambda>e. e_id e = i) (dg_edges g)"

text \<open>
  \<open>set_source\<close> and \<open>set_target\<close> add a new edge with a copy of the holder, remove the old one and
  tell the target that it has a new parent. What the classes do then is the parameter
  \<open>has_new_parent\<close>.
\<close>

definition set_source ::
  "(nat \<Rightarrow> devicegraph \<Rightarrow> devicegraph) \<Rightarrow> nat \<Rightarrow> nat \<Rightarrow> devicegraph \<Rightarrow> (nat \<times> devicegraph) result" where
  "set_source has_new_parent i sv g =
     (case edge_at g i of
        None \<Rightarrow> Inl UndefinedBehaviour
      | Some e \<Rightarrow>
          ebind (add_edge sv (e_target e) (e_holder e) g) (\<lambda>(i', g').
            Inr (i', has_new_parent (e_target e) (remove_edge i g'))))"

definition set_target ::
  "(nat \<Rightarrow> devicegraph \<Rightarrow> devicegraph) \<Rightarrow> nat \<Rightarrow> nat \<Rightarrow> devicegraph \<Rightarrow> (nat \<times> devicegraph) result" where
  "set_target has_new_parent i tv g =
     (case edge_at g i of
        None \<Rightarrow> Inl UndefinedBehaviour
      | Some e \<Rightarrow>
          ebind (add_edge (e_source e) tv (e_holder e) g) (\<lambda>(i', g').
            Inr (i', has_new_parent tv (remove_edge i g'))))"

text \<open>\<open>Device::copy_to_devicegraph\<close> and \<open>Holder::copy_to_devicegraph\<close>.\<close>

definition copy_device :: "device \<Rightarrow> devicegraph \<Rightarrow> (nat \<times> devicegraph) result" where
  "copy_device d g =
     (if device_exists g (d_sid d) then Inl (Exn ''device already exists'') else Inr (add_vertex d g))"

definition copy_holder :: "nat \<Rightarrow> nat \<Rightarrow> holder \<Rightarrow> devicegraph \<Rightarrow> (nat \<times> devicegraph) result" where
  "copy_holder ssid tsid h g =
     (if \<not> device_exists g ssid then Inl (Exn ''source device does not exist'')
      else if \<not> device_exists g tsid then Inl (Exn ''target device does not exist'')
      else if holder_exists g ssid tsid then Inl (Exn ''holder already exists'')
      else ebind (find_vertex g ssid) (\<lambda>s. ebind (find_vertex g tsid) (\<lambda>t. add_edge s t h g)))"

section \<open>Walking the graph\<close>

text \<open>
  The edges of the filtered graph out of (into) any vertex: the edge and its target (source) are
  in the view.
\<close>

definition out_edges_view :: "devicegraph \<Rightarrow> view \<Rightarrow> edge list" where
  "out_edges_view g view =
     filter (\<lambda>e. holder_in_view g view e \<and> vertex_filter g view (e_target e)) (dg_edges g)"

definition in_edges_view :: "devicegraph \<Rightarrow> view \<Rightarrow> edge list" where
  "in_edges_view g view =
     filter (\<lambda>e. holder_in_view g view e \<and> vertex_filter g view (e_source e)) (dg_edges g)"

definition out_edges :: "devicegraph \<Rightarrow> view \<Rightarrow> nat \<Rightarrow> edge list" where
  "out_edges g view v = filter (\<lambda>e. e_source e = v) (out_edges_view g view)"

definition in_edges :: "devicegraph \<Rightarrow> view \<Rightarrow> nat \<Rightarrow> edge list" where
  "in_edges g view v = filter (\<lambda>e. e_target e = v) (in_edges_view g view)"

definition out_edge :: "devicegraph \<Rightarrow> view \<Rightarrow> nat \<Rightarrow> edge result" where
  "out_edge g view v =
     (case out_edges g view v of
        [e] \<Rightarrow> Inr e
      | es \<Rightarrow> Inl (WrongNumberOfChildren (length es) 1))"

definition in_edge :: "devicegraph \<Rightarrow> view \<Rightarrow> nat \<Rightarrow> edge result" where
  "in_edge g view v =
     (case in_edges g view v of
        [e] \<Rightarrow> Inr e
      | es \<Rightarrow> Inl (WrongNumberOfParents (length es) 1))"

definition num_children :: "devicegraph \<Rightarrow> view \<Rightarrow> nat \<Rightarrow> nat" where
  "num_children g view v = length (out_edges g view v)"

definition num_parents :: "devicegraph \<Rightarrow> view \<Rightarrow> nat \<Rightarrow> nat" where
  "num_parents g view v = length (in_edges g view v)"

definition child :: "devicegraph \<Rightarrow> view \<Rightarrow> nat \<Rightarrow> nat result" where
  "child g view v = emap e_target (out_edge g view v)"

definition parent :: "devicegraph \<Rightarrow> view \<Rightarrow> nat \<Rightarrow> nat result" where
  "parent g view v = emap e_source (in_edge g view v)"

definition children :: "devicegraph \<Rightarrow> view \<Rightarrow> nat \<Rightarrow> nat list" where
  "children g view v = List.map e_target (out_edges g view v)"

definition parents :: "devicegraph \<Rightarrow> view \<Rightarrow> nat \<Rightarrow> nat list" where
  "parents g view v = List.map e_source (in_edges g view v)"

definition siblings :: "devicegraph \<Rightarrow> view \<Rightarrow> bool \<Rightarrow> nat \<Rightarrow> nat list" where
  "siblings g view itself v =
     remdups (sort (filter (\<lambda>c. itself \<or> v \<noteq> c) (concat (List.map (children g view) (parents g view v)))))"

definition down :: "devicegraph \<Rightarrow> view \<Rightarrow> (nat \<times> nat) list" where
  "down g view = List.map (\<lambda>e. (e_source e, e_target e)) (out_edges_view g view)"

definition up :: "devicegraph \<Rightarrow> view \<Rightarrow> (nat \<times> nat) list" where
  "up g view = List.map (\<lambda>e. (e_target e, e_source e)) (in_edges_view g view)"

definition without :: "bool \<Rightarrow> nat \<Rightarrow> nat list \<Rightarrow> nat list" where
  "without itself v vs = (if itself then vs else filter (\<lambda>w. w \<noteq> v) vs)"

definition descendants :: "devicegraph \<Rightarrow> view \<Rightarrow> bool \<Rightarrow> nat \<Rightarrow> nat list" where
  "descendants g view itself v = without itself v (bfs (down g view) [v] [v])"

definition ancestors :: "devicegraph \<Rightarrow> view \<Rightarrow> bool \<Rightarrow> nat \<Rightarrow> nat list" where
  "ancestors g view itself v = without itself v (bfs (up g view) [v] [v])"

definition leaves :: "devicegraph \<Rightarrow> view \<Rightarrow> bool \<Rightarrow> nat \<Rightarrow> nat list" where
  "leaves g view itself v =
     without itself v (filter (\<lambda>w. num_children g view w = 0) (bfs (down g view) [v] [v]))"

definition roots :: "devicegraph \<Rightarrow> view \<Rightarrow> bool \<Rightarrow> nat \<Rightarrow> nat list" where
  "roots g view itself v =
     without itself v (filter (\<lambda>w. num_parents g view w = 0) (bfs (up g view) [v] [v]))"

text \<open>\<open>Device::remove_descendants\<close>: the descendants are calculated before the first one goes.\<close>

definition remove_descendants :: "view \<Rightarrow> nat \<Rightarrow> devicegraph \<Rightarrow> devicegraph" where
  "remove_descendants view v g = fold remove_vertex (descendants g view False v) g"

section \<open>Copy, comparison and check\<close>

text \<open>\<open>boost::copy_graph\<close> into the cleared destination: new descriptors in the same order.\<close>

fun copy_vertices :: "(nat \<times> device) list \<Rightarrow> devicegraph \<Rightarrow> (nat \<times> nat) list \<times> devicegraph" where
  "copy_vertices [] dest = ([], dest)"
| "copy_vertices ((v, d) # vs) dest =
     (let (v', dest') = add_vertex d dest; (m, dest'') = copy_vertices vs dest'
      in ((v, v') # m, dest''))"

fun copy_edges :: "(nat \<times> nat) list \<Rightarrow> edge list \<Rightarrow> devicegraph \<Rightarrow> devicegraph" where
  "copy_edges m [] dest = dest"
| "copy_edges m (e # es) dest =
     copy_edges m es
       (case (map_of m (e_source e), map_of m (e_target e)) of
          (Some s, Some t) \<Rightarrow>
            dest\<lparr>dg_edges := dg_edges dest @
                [\<lparr>e_id = dg_next dest, e_source = s, e_target = t, e_holder = e_holder e\<rparr>],
              dg_next := dg_next dest + 1\<rparr>
        | _ \<Rightarrow> dest)"

definition copy :: "devicegraph \<Rightarrow> devicegraph \<Rightarrow> devicegraph" where
  "copy g dest =
     (let cleared = dest\<lparr>dg_vertices := [], dg_edges := []\<rparr>;
          (m, dest') = copy_vertices (dg_vertices g) cleared
      in copy_edges m (dg_edges g) dest')"

definition is_permutation :: "'a list \<Rightarrow> 'a list \<Rightarrow> bool" where
  "is_permutation xs ys \<longleftrightarrow>
     length xs = length ys \<and> (\<forall>x \<in> set xs. count_list xs x = count_list ys x)"

definition device_of_sid :: "devicegraph \<Rightarrow> nat \<Rightarrow> device option" where
  "device_of_sid g sid = (case find_vertex g sid of Inl _ \<Rightarrow> None | Inr v \<Rightarrow> device_at g v)"

definition holders_of_pair :: "devicegraph \<Rightarrow> nat option \<times> nat option \<Rightarrow> holder list" where
  "holders_of_pair g p =
     (case p of (Some ssid, Some tsid) \<Rightarrow> List.map e_holder (find_edges g ssid tsid) | _ \<Rightarrow> [])"

definition devicegraph_equal :: "devicegraph \<Rightarrow> devicegraph \<Rightarrow> bool" where
  "devicegraph_equal a b \<longleftrightarrow>
     get_device_sids a = get_device_sids b \<and>
     get_holder_sid_pairs a = get_holder_sid_pairs b \<and>
     (\<forall>sid \<in> get_device_sids a. device_of_sid a sid = device_of_sid b sid) \<and>
     (\<forall>p \<in> get_holder_sid_pairs a. is_permutation (holders_of_pair a p) (holders_of_pair b p))"

text \<open>
  \<open>check\<close>: the sids are unique, the classic view has no cycle, and then every device is checked in
  turn, which can throw. \<open>chk\<close> stands for the check of a device: a virtual function that looks at the
  device and its neighbours and informs the caller by the check callbacks. The uniqueness of the
  objects and the back references are properties of pointers.
\<close>

definition dg_check :: "(devicegraph \<Rightarrow> nat \<Rightarrow> unit result) \<Rightarrow> devicegraph \<Rightarrow> unit result" where
  "dg_check chk g =
     (if \<not> distinct (List.map (\<lambda>(v, d). d_sid d) (dg_vertices g))
      then Inl (Exn ''sid not unique within graph'')
      else if has_back_edge (down g VIEW_CLASSIC) (filter (vertex_filter g VIEW_CLASSIC) (vertices g))
      then Inl (Exn ''devicegraph has a cycle'')
      else efold (\<lambda>v _. chk g v) (vertices g) ())"

definition used_features :: "(device \<Rightarrow> u64) \<Rightarrow> devicegraph \<Rightarrow> u64" where
  "used_features features g = fold (\<lambda>(v, d) ret. or ret (features d)) (dg_vertices g) 0"

section \<open>Well-formed graphs\<close>

definition wf_graph :: "devicegraph \<Rightarrow> bool" where
  "wf_graph g \<longleftrightarrow>
     distinct (vertices g) \<and> (\<forall>v \<in> set (vertices g). v < dg_next g) \<and>
     distinct (List.map (\<lambda>(v, d). d_sid d) (dg_vertices g)) \<and>
     distinct (List.map e_id (dg_edges g)) \<and> (\<forall>e \<in> set (dg_edges g). e_id e < dg_next g) \<and>
     (\<forall>e \<in> set (dg_edges g). e_source e \<in> set (vertices g) \<and> e_target e \<in> set (vertices g)) \<and>
     (\<forall>e \<in> set (dg_edges g). \<forall>f \<in> set (dg_edges g). e_source e = e_source f \<longrightarrow>
        e_target e = e_target f \<longrightarrow> h_class (e_holder e) = h_class (e_holder f) \<longrightarrow> e = f)"

lemma wf_graphD:
  assumes "wf_graph g"
  shows "distinct (vertices g)" and "\<And>v. v \<in> set (vertices g) \<Longrightarrow> v < dg_next g"
    and "distinct (List.map (\<lambda>(v, d). d_sid d) (dg_vertices g))"
    and "distinct (List.map e_id (dg_edges g))"
    and "\<And>e. e \<in> set (dg_edges g) \<Longrightarrow> e_id e < dg_next g"
    and "\<And>e. e \<in> set (dg_edges g) \<Longrightarrow> e_source e \<in> set (vertices g)"
    and "\<And>e. e \<in> set (dg_edges g) \<Longrightarrow> e_target e \<in> set (vertices g)"
    and "\<And>e f. e \<in> set (dg_edges g) \<Longrightarrow> f \<in> set (dg_edges g) \<Longrightarrow> e_source e = e_source f \<Longrightarrow>
        e_target e = e_target f \<Longrightarrow> h_class (e_holder e) = h_class (e_holder f) \<Longrightarrow> e = f"
  using assms unfolding wf_graph_def by blast+

lemma device_at_iff:
  "distinct (vertices g) \<Longrightarrow> device_at g v = Some d \<longleftrightarrow> (v, d) \<in> set (dg_vertices g)"
  by (simp add: device_at_def vertices_def)

lemma device_at_vertices: "v \<in> set (vertices g) \<longleftrightarrow> (\<exists>d. device_at g v = Some d)"
  using map_of_eq_None_iff [of "dg_vertices g" v] by (auto simp: device_at_def vertices_def)

lemma sid_of_inj:
  assumes wf: "wf_graph g" and "sid_of g v = Some s" and "sid_of g w = Some s"
  shows "v = w"
proof -
  obtain d where d: "(v, d) \<in> set (dg_vertices g)" "d_sid d = s"
    using assms(2) device_at_iff [OF wf_graphD(1) [OF wf]] by (auto simp: sid_of_def)
  obtain d' where d': "(w, d') \<in> set (dg_vertices g)" "d_sid d' = s"
    using assms(3) device_at_iff [OF wf_graphD(1) [OF wf]] by (auto simp: sid_of_def)
  have "inj_on (\<lambda>(v, d). d_sid d) (set (dg_vertices g))"
    using wf_graphD(3) [OF wf] by (simp add: distinct_map)
  from inj_onD [OF this, of "(v, d)" "(w, d')"] d d' show ?thesis by simp
qed

lemma wf_empty: "wf_graph dg_empty"
  by (simp add: wf_graph_def dg_empty_def vertices_def)

lemma wf_add_vertex:
  assumes "wf_graph g" and "d_sid d \<notin> get_device_sids g"
  shows "wf_graph (snd (add_vertex d g))"
proof -
  have vs: "vertices (snd (add_vertex d g)) = vertices g @ [dg_next g]"
    by (simp add: add_vertex_def vertices_def)
  have "distinct (List.map (\<lambda>(v, d). d_sid d) (dg_vertices g @ [(dg_next g, d)]))"
    using wf_graphD(3) [OF assms(1)] assms(2) by (auto simp: get_device_sids_def)
  moreover have "distinct (vertices g @ [dg_next g])"
    using wf_graphD(1,2) [OF assms(1)] by auto
  moreover have "dg_vertices (snd (add_vertex d g)) = dg_vertices g @ [(dg_next g, d)]"
    "dg_edges (snd (add_vertex d g)) = dg_edges g" "dg_next (snd (add_vertex d g)) = dg_next g + 1"
    by (simp_all add: add_vertex_def)
  ultimately show ?thesis
    using wf_graphD(2,4,5,6,7,8) [OF assms(1)] unfolding wf_graph_def vs
    by (auto intro: less_SucI)
qed

lemma add_edge_cases:
  assumes "add_edge sv tv h g = Inr (i, g')"
  obtains ssid tsid where "sid_of g sv = Some ssid" and "sid_of g tv = Some tsid"
    and "\<forall>e \<in> set (find_edges g ssid tsid). h_class (e_holder e) \<noteq> h_class h"
    and "i = dg_next g"
    and "g' = g\<lparr>dg_edges := dg_edges g @ [\<lparr>e_id = i, e_source = sv, e_target = tv, e_holder = h\<rparr>],
      dg_next := dg_next g + 1\<rparr>"
  using assms
  by (auto simp: add_edge_def list_ex_iff split: option.splits if_splits)

lemma wf_add_edge:
  assumes wf: "wf_graph g" and eq: "add_edge sv tv h g = Inr (i, g')"
  shows "wf_graph g'"
  using eq
proof (cases rule: add_edge_cases)
  case (1 ssid tsid)
  let ?e = "\<lparr>e_id = i, e_source = sv, e_target = tv, e_holder = h\<rparr>"
  have vs: "vertices g' = vertices g" "dg_vertices g' = dg_vertices g"
    "dg_edges g' = dg_edges g @ [?e]" "dg_next g' = dg_next g + 1"
    using 1 by (simp_all add: vertices_def)
  have ends: "sv \<in> set (vertices g)" "tv \<in> set (vertices g)"
    using 1 by (auto simp: sid_of_def device_at_vertices)
  have none: "\<not> (e_source e = sv \<and> e_target e = tv \<and> h_class (e_holder e) = h_class h)"
    if "e \<in> set (dg_edges g)" for e
    using 1(1-3) that by (auto simp: find_edges_def joins_sids_def)
  have "i \<notin> e_id ` set (dg_edges g)"
    using wf_graphD(5) [OF wf] 1(4) by (metis imageE less_irrefl)
  then have ids: "distinct (List.map e_id (dg_edges g @ [?e]))"
    using wf_graphD(4) [OF wf] by simp
  show ?thesis
    unfolding wf_graph_def vs
  proof (intro conjI)
    show "\<forall>e \<in> set (dg_edges g @ [?e]). \<forall>f \<in> set (dg_edges g @ [?e]). e_source e = e_source f \<longrightarrow>
        e_target e = e_target f \<longrightarrow> h_class (e_holder e) = h_class (e_holder f) \<longrightarrow> e = f"
    proof (intro ballI impI)
      fix e f
      assume e: "e \<in> set (dg_edges g @ [?e])" and f: "f \<in> set (dg_edges g @ [?e])"
        and same: "e_source e = e_source f" "e_target e = e_target f"
          "h_class (e_holder e) = h_class (e_holder f)"
      consider "e \<in> set (dg_edges g)" "f \<in> set (dg_edges g)" | "e = ?e" "f = ?e"
        | "e = ?e" "f \<in> set (dg_edges g)" | "e \<in> set (dg_edges g)" "f = ?e"
        using e f by auto
      then show "e = f"
      proof cases
        case 1
        then show ?thesis using wf_graphD(8) [OF wf] same by blast
      next
        case 3
        then show ?thesis using none [of f] same by simp
      next
        case 4
        then show ?thesis using none [of e] same by simp
      qed simp
    qed
  qed (use wf_graphD(1-7) [OF wf] ends ids 1(4) in \<open>auto intro: less_SucI\<close>)
qed

lemma distinct_map_sub: "distinct (List.map f xs) \<Longrightarrow> distinct (List.map f (filter P xs))"
  by (rule distinct_map_filter)

lemma vertices_remove_vertex: "vertices (remove_vertex v g) = filter (\<lambda>w. w \<noteq> v) (vertices g)"
  by (simp add: remove_vertex_def vertices_def filter_map comp_def case_prod_unfold)

lemma wf_remove_vertex:
  assumes wf: "wf_graph g"
  shows "wf_graph (remove_vertex v g)"
proof -
  have eqs: "dg_vertices (remove_vertex v g) = filter (\<lambda>(w, d). w \<noteq> v) (dg_vertices g)"
    "dg_edges (remove_vertex v g) = filter (\<lambda>e. e_source e \<noteq> v \<and> e_target e \<noteq> v) (dg_edges g)"
    "dg_next (remove_vertex v g) = dg_next g"
    by (simp_all add: remove_vertex_def)
  show ?thesis
    unfolding wf_graph_def eqs vertices_remove_vertex
    using wf_graphD(1,2,5,6,7,8) [OF wf] distinct_map_sub [OF wf_graphD(3) [OF wf]]
      distinct_map_sub [OF wf_graphD(4) [OF wf]]
    by simp
qed

lemma wf_remove_edge:
  assumes wf: "wf_graph g"
  shows "wf_graph (remove_edge i g)"
proof -
  have eqs: "vertices (remove_edge i g) = vertices g" "dg_vertices (remove_edge i g) = dg_vertices g"
    "dg_edges (remove_edge i g) = filter (\<lambda>e. e_id e \<noteq> i) (dg_edges g)"
    "dg_next (remove_edge i g) = dg_next g"
    by (simp_all add: remove_edge_def vertices_def)
  show ?thesis
    unfolding wf_graph_def eqs
    using wf_graphD(1,2,3,5,6,7,8) [OF wf] distinct_map_sub [OF wf_graphD(4) [OF wf]]
    by simp
qed

section \<open>Removing the descendants\<close>

lemma fold_remove_vertex:
  "dg_vertices (fold remove_vertex ws g) = filter (\<lambda>(v, d). v \<notin> set ws) (dg_vertices g)"
  "dg_edges (fold remove_vertex ws g)
    = filter (\<lambda>e. e_source e \<notin> set ws \<and> e_target e \<notin> set ws) (dg_edges g)"
  by (induction ws arbitrary: g)
    (auto simp: remove_vertex_def filter_filter case_prod_unfold conj_ac intro!: filter_cong)

lemma wf_fold_remove_vertex: "wf_graph g \<Longrightarrow> wf_graph (fold remove_vertex ws g)"
  by (induction ws arbitrary: g) (auto intro: wf_remove_vertex)

lemma set_descendants:
  "set (descendants g view False v) = {w. (v, w) \<in> (set (down g view))\<^sup>*} - {v}"
  using bfs_from [of "down g view" v] by (auto simp: descendants_def without_def)

lemma in_down:
  "(v, w) \<in> set (down g view) \<longleftrightarrow> (\<exists>e \<in> set (dg_edges g). e_source e = v \<and> e_target e = w \<and>
     holder_in_view g view e \<and> vertex_filter g view w)"
  by (auto simp: down_def out_edges_view_def)

lemma device_at_remove:
  assumes "v \<notin> set ws"
  shows "device_at (fold remove_vertex ws g) v = device_at g v"
proof -
  have "map_of (filter (\<lambda>(v, d). v \<notin> set ws) xs) v = map_of xs v" for xs :: "(nat \<times> device) list"
    using assms by (induction xs) auto
  then show ?thesis by (simp add: device_at_def fold_remove_vertex)
qed

lemma in_view_remove:
  assumes "e_source e \<notin> set ws" and "e_target e \<notin> set ws"
  shows "holder_in_view (fold remove_vertex ws g) view e = holder_in_view g view e"
    and "vertex_filter (fold remove_vertex ws g) view (e_target e) = vertex_filter g view (e_target e)"
proof -
  have at: "device_at (fold remove_vertex ws g) (e_source e) = device_at g (e_source e)"
    "device_at (fold remove_vertex ws g) (e_target e) = device_at g (e_target e)"
    using assms by (simp_all add: device_at_remove)
  show "holder_in_view (fold remove_vertex ws g) view e = holder_in_view g view e"
    unfolding holder_in_view_def snapshot_in_view_def relation_in_view_def at by (rule refl)
  show "vertex_filter (fold remove_vertex ws g) view (e_target e) = vertex_filter g view (e_target e)"
    unfolding vertex_filter_def at by (rule refl)
qed

lemma no_children_left:
  assumes acyclic: "acyclic (set (down g view))"
  shows "children (remove_descendants view v g) view v = []"
proof -
  let ?ws = "descendants g view False v"
  have "out_edges (remove_descendants view v g) view v = []"
  proof (rule ccontr)
    assume "out_edges (remove_descendants view v g) view v \<noteq> []"
    then obtain e where e: "e \<in> set (out_edges (remove_descendants view v g) view v)" by (meson list.set_sel(1))
    then have in_g: "e \<in> set (dg_edges g)" "e_source e \<notin> set ?ws" "e_target e \<notin> set ?ws" "e_source e = v"
      and "holder_in_view (fold remove_vertex ?ws g) view e"
      and "vertex_filter (fold remove_vertex ?ws g) view (e_target e)"
      by (auto simp: out_edges_def out_edges_view_def remove_descendants_def fold_remove_vertex)
    then have "(v, e_target e) \<in> set (down g view)"
      using in_view_remove [OF in_g(2,3)] by (auto simp: in_down)
    then have "e_target e = v" using in_g(3) unfolding set_descendants by auto
    with \<open>(v, e_target e) \<in> set (down g view)\<close> acyclic show False by (auto simp: acyclic_def)
  qed
  then show ?thesis by (simp add: children_def)
qed

section \<open>The check\<close>

lemma down_targets:
  assumes "wf_graph g"
  shows "snd ` set (down g view) \<subseteq> set (filter (vertex_filter g view) (vertices g))"
  using wf_graphD(7) [OF assms] by (auto simp: down_def out_edges_view_def)

lemma dg_check_wf:
  assumes "wf_graph g"
  shows "dg_check chk g = (if acyclic (set (down g VIEW_CLASSIC)) then efold (\<lambda>v _. chk g v) (vertices g) ()
    else Inl (Exn ''devicegraph has a cycle''))"
  using wf_graphD(3) [OF assms] has_back_edge_iff [OF down_targets [OF assms]]
  by (simp add: dg_check_def)

lemma check_each_passes: "efold (\<lambda>v _. chk v) vs u = Inr () \<longleftrightarrow> (\<forall>v \<in> set vs. chk v = Inr ())"
  by (induction vs arbitrary: u) (auto simp: ebind_eq_Inr)

lemma check_each_fails:
  assumes "\<forall>u \<in> set us. chk u = Inr ()" and "chk v = Inl e"
  shows "efold (\<lambda>v _. chk v) (us @ v # vs) u = Inl e"
  using assms(1)
proof (induction us arbitrary: u)
  case Nil
  then show ?case using assms(2) by simp
qed simp

section \<open>Copying\<close>

lemma copy_vertices_eq:
  "copy_vertices vs dest =
     (zip (List.map fst vs) [dg_next dest ..< dg_next dest + length vs],
      dest\<lparr>dg_vertices := dg_vertices dest @
          zip [dg_next dest ..< dg_next dest + length vs] (List.map snd vs),
        dg_next := dg_next dest + length vs\<rparr>)"
proof (induction vs arbitrary: dest)
  case (Cons p vs)
  obtain v d where p: "p = (v, d)" by (cases p)
  have "[dg_next dest ..< dg_next dest + length (p # vs)]
      = dg_next dest # [dg_next dest + 1 ..< dg_next dest + 1 + length vs]"
    by (subst upt_conv_Cons) simp_all
  then show ?case by (simp add: p add_vertex_def Cons.IH Let_def del: upt_Suc)
qed simp

definition copied :: "(nat \<times> nat) list \<Rightarrow> nat \<Rightarrow> edge \<Rightarrow> edge" where
  "copied m i e =
     \<lparr>e_id = i, e_source = the (map_of m (e_source e)), e_target = the (map_of m (e_target e)),
      e_holder = e_holder e\<rparr>"

lemma copy_edges_eq:
  assumes "\<forall>e \<in> set es. e_source e \<in> fst ` set m \<and> e_target e \<in> fst ` set m"
  shows "copy_edges m es dest =
    dest\<lparr>dg_edges := dg_edges dest @
        List.map (\<lambda>(i, e). copied m i e) (zip [dg_next dest ..< dg_next dest + length es] es),
      dg_next := dg_next dest + length es\<rparr>"
  using assms
proof (induction es arbitrary: dest)
  case (Cons e es)
  obtain s where s: "map_of m (e_source e) = Some s"
    using Cons.prems by (metis list.set_intros(1) map_of_eq_None_iff option.exhaust)
  obtain t where t: "map_of m (e_target e) = Some t"
    using Cons.prems by (metis list.set_intros(1) map_of_eq_None_iff option.exhaust)
  have "[dg_next dest ..< dg_next dest + length (e # es)]
      = dg_next dest # [dg_next dest + 1 ..< dg_next dest + 1 + length es]"
    by (subst upt_conv_Cons) simp_all
  then show ?case using Cons.IH Cons.prems s t by (simp add: copied_def del: upt_Suc)
qed simp

text \<open>
  A copy is the graph with every descriptor replaced: \<open>f\<close> is the new descriptor of a vertex.
\<close>

lemma copy_isomorphic:
  assumes wf: "wf_graph g"
  obtains f where "inj_on f (set (vertices g))"
    and "dg_vertices (copy g dest) = List.map (\<lambda>(v, d). (f v, d)) (dg_vertices g)"
    and "\<exists>ids. distinct ids \<and> length ids = length (dg_edges g) \<and>
      (\<forall>i \<in> set ids. i < dg_next (copy g dest)) \<and>
      dg_edges (copy g dest) = List.map (\<lambda>(i, e). \<lparr>e_id = i, e_source = f (e_source e),
        e_target = f (e_target e), e_holder = e_holder e\<rparr>) (zip ids (dg_edges g))"
    and "\<forall>v \<in> set (vertices g). f v < dg_next (copy g dest)"
proof -
  let ?n = "dg_next dest" and ?vs = "dg_vertices g"
  let ?new = "[?n ..< ?n + length ?vs]"
  let ?m = "zip (List.map fst ?vs) ?new"
  let ?ids = "[?n + length ?vs ..< ?n + length ?vs + length (dg_edges g)]"
  define f where "f v = the (map_of ?m v)" for v
  have len: "length (List.map fst ?vs) = length ?new" by simp
  have dist: "distinct (List.map fst ?vs)" using wf_graphD(1) [OF wf] by (simp add: vertices_def)
  have at: "map_of ?m (fst (?vs ! i)) = Some (?n + i)" if "i < length ?vs" for i
    using map_of_zip_nth [OF len dist] that by simp
  have dom: "fst ` set ?m = set (vertices g)"
    using len by (metis list.set_map map_fst_zip vertices_def)
  have ends: "\<forall>e \<in> set (dg_edges g). e_source e \<in> fst ` set ?m \<and> e_target e \<in> fst ` set ?m"
    using wf_graphD(6,7) [OF wf] dom by simp
  let ?c = "dest\<lparr>dg_vertices := [], dg_edges := []\<rparr>"
  have cv: "copy_vertices ?vs ?c = (?m, ?c\<lparr>dg_vertices := zip ?new (List.map snd ?vs),
      dg_next := ?n + length ?vs\<rparr>)"
    by (simp add: copy_vertices_eq)
  have copy: "copy g dest = ?c\<lparr>dg_vertices := zip ?new (List.map snd ?vs),
      dg_edges := List.map (\<lambda>(i, e). copied ?m i e) (zip ?ids (dg_edges g)),
      dg_next := ?n + length ?vs + length (dg_edges g)\<rparr>"
    unfolding copy_def Let_def cv prod.case by (subst copy_edges_eq [OF ends]) simp
  have fval: "f (fst (?vs ! i)) = ?n + i" if "i < length ?vs" for i
    using at [OF that] by (simp add: f_def)
  have inj: "inj_on f (set (vertices g))"
  proof (rule inj_onI)
    fix v w assume v: "v \<in> set (vertices g)" and w: "w \<in> set (vertices g)" and eq: "f v = f w"
    from v obtain i where i: "i < length ?vs" "v = fst (?vs ! i)"
      by (auto simp: vertices_def in_set_conv_nth)
    from w obtain j where j: "j < length ?vs" "w = fst (?vs ! j)"
      by (auto simp: vertices_def in_set_conv_nth)
    show "v = w" using eq fval i j by simp
  qed
  have vs: "zip ?new (List.map snd ?vs) = List.map (\<lambda>(v, d). (f v, d)) ?vs"
    by (rule nth_equalityI) (auto simp: fval case_prod_unfold)
  have bound: "f v < dg_next (copy g dest)" if v: "v \<in> set (vertices g)" for v
  proof -
    from v obtain i where i: "i < length ?vs" "v = fst (?vs ! i)"
      by (auto simp: vertices_def in_set_conv_nth)
    then show ?thesis by (simp add: fval copy)
  qed
  have es: "List.map (\<lambda>(i, e). copied ?m i e) (zip ?ids (dg_edges g))
      = List.map (\<lambda>(i, e). \<lparr>e_id = i, e_source = f (e_source e), e_target = f (e_target e),
          e_holder = e_holder e\<rparr>) (zip ?ids (dg_edges g))"
    by (simp add: copied_def f_def)
  show thesis
  proof (rule that [OF inj])
    show "dg_vertices (copy g dest) = List.map (\<lambda>(v, d). (f v, d)) ?vs" by (simp add: copy vs)
    show "\<exists>ids. distinct ids \<and> length ids = length (dg_edges g) \<and>
      (\<forall>i \<in> set ids. i < dg_next (copy g dest)) \<and>
      dg_edges (copy g dest) = List.map (\<lambda>(i, e). \<lparr>e_id = i, e_source = f (e_source e),
        e_target = f (e_target e), e_holder = e_holder e\<rparr>) (zip ids (dg_edges g))"
      by (rule exI [of _ ?ids]) (simp add: copy es)
    show "\<forall>v \<in> set (vertices g). f v < dg_next (copy g dest)" using bound by blast
  qed
qed

lemma device_at_copy:
  assumes wf: "wf_graph g" and inj: "inj_on f (set (vertices g))"
    and vs: "dg_vertices h = List.map (\<lambda>(v, d). (f v, d)) (dg_vertices g)"
    and v: "v \<in> set (vertices g)"
  shows "device_at h (f v) = device_at g v"
proof -
  have main: "map_of (List.map (\<lambda>(v, d). (f v, d)) xs) (f v) = map_of xs v"
    if "inj_on f (insert v (fst ` set xs))" for xs :: "(nat \<times> device) list"
    using that
  proof (induction xs)
    case (Cons p xs)
    obtain w d where p: "p = (w, d)" by (cases p)
    have "f v = f w \<longleftrightarrow> v = w" using Cons.prems p by (auto simp: inj_on_def)
    moreover have "inj_on f (insert v (fst ` set xs))" using Cons.prems by (rule inj_on_subset) auto
    ultimately show ?case using Cons.IH p by simp
  qed simp
  have eq: "insert v (fst ` set (dg_vertices g)) = set (vertices g)"
    using v by (auto simp: vertices_def)
  have "inj_on f (insert v (fst ` set (dg_vertices g)))" unfolding eq by (rule inj)
  from main [OF this] show ?thesis by (simp add: device_at_def vs)
qed

lemma copy_wf:
  assumes wf: "wf_graph g"
  shows "wf_graph (copy g dest)"
proof -
  obtain f where inj: "inj_on f (set (vertices g))"
    and vs: "dg_vertices (copy g dest) = List.map (\<lambda>(v, d). (f v, d)) (dg_vertices g)"
    and es: "\<exists>ids. distinct ids \<and> length ids = length (dg_edges g) \<and>
      (\<forall>i \<in> set ids. i < dg_next (copy g dest)) \<and>
      dg_edges (copy g dest) = List.map (\<lambda>(i, e). \<lparr>e_id = i, e_source = f (e_source e),
        e_target = f (e_target e), e_holder = e_holder e\<rparr>) (zip ids (dg_edges g))"
    and lt: "\<forall>v \<in> set (vertices g). f v < dg_next (copy g dest)"
    by (rule copy_isomorphic [OF wf, of dest])
  from es obtain ids where ids: "distinct ids" "length ids = length (dg_edges g)"
    "\<forall>i \<in> set ids. i < dg_next (copy g dest)"
    and edges: "dg_edges (copy g dest) = List.map (\<lambda>(i, e). \<lparr>e_id = i, e_source = f (e_source e),
        e_target = f (e_target e), e_holder = e_holder e\<rparr>) (zip ids (dg_edges g))" by blast
  have verts: "vertices (copy g dest) = List.map f (vertices g)"
    by (simp add: vertices_def vs case_prod_unfold)
  have sids: "List.map (\<lambda>(v, d). d_sid d) (dg_vertices (copy g dest))
      = List.map (\<lambda>(v, d). d_sid d) (dg_vertices g)"
    by (simp add: vs case_prod_unfold)
  have eid: "List.map e_id (dg_edges (copy g dest)) = ids"
    using ids(2) by (simp add: edges case_prod_unfold comp_def map_fst_zip)
  have in_e: "\<exists>i d. (i, d) \<in> set (zip ids (dg_edges g)) \<and> e = \<lparr>e_id = i, e_source = f (e_source d),
      e_target = f (e_target d), e_holder = e_holder d\<rparr>" if "e \<in> set (dg_edges (copy g dest))" for e
    using that unfolding edges by auto
  show ?thesis
    unfolding wf_graph_def
  proof (intro conjI)
    show "distinct (vertices (copy g dest))"
      using wf_graphD(1) [OF wf] inj by (simp add: verts distinct_map)
    show "\<forall>v \<in> set (vertices (copy g dest)). v < dg_next (copy g dest)"
      using lt by (simp add: verts)
    show "distinct (List.map (\<lambda>(v, d). d_sid d) (dg_vertices (copy g dest)))"
      using wf_graphD(3) [OF wf] by (simp only: sids)
    show "distinct (List.map e_id (dg_edges (copy g dest)))" using ids(1) by (simp only: eid)
    show "\<forall>e \<in> set (dg_edges (copy g dest)). e_id e < dg_next (copy g dest)"
    proof
      fix e assume "e \<in> set (dg_edges (copy g dest))"
      then have "e_id e \<in> set ids" using eid by (metis imageI list.set_map)
      then show "e_id e < dg_next (copy g dest)" using ids(3) by blast
    qed
    show "\<forall>e \<in> set (dg_edges (copy g dest)).
        e_source e \<in> set (vertices (copy g dest)) \<and> e_target e \<in> set (vertices (copy g dest))"
    proof
      fix e assume "e \<in> set (dg_edges (copy g dest))"
      then obtain i d where "(i, d) \<in> set (zip ids (dg_edges g))" "e_source e = f (e_source d)"
        "e_target e = f (e_target d)" using in_e by fastforce
      then show "e_source e \<in> set (vertices (copy g dest)) \<and> e_target e \<in> set (vertices (copy g dest))"
        using wf_graphD(6,7) [OF wf, of d] by (auto simp: verts dest: set_zip_rightD)
    qed
    show "\<forall>e \<in> set (dg_edges (copy g dest)). \<forall>e' \<in> set (dg_edges (copy g dest)).
        e_source e = e_source e' \<longrightarrow> e_target e = e_target e' \<longrightarrow>
        h_class (e_holder e) = h_class (e_holder e') \<longrightarrow> e = e'"
    proof (intro ballI impI)
      fix e e'
      assume "e \<in> set (dg_edges (copy g dest))" "e' \<in> set (dg_edges (copy g dest))"
        and same: "e_source e = e_source e'" "e_target e = e_target e'"
          "h_class (e_holder e) = h_class (e_holder e')"
      then obtain i d i' d' where z: "(i, d) \<in> set (zip ids (dg_edges g))" "(i', d') \<in> set (zip ids (dg_edges g))"
        and e: "e = \<lparr>e_id = i, e_source = f (e_source d), e_target = f (e_target d), e_holder = e_holder d\<rparr>"
        and e': "e' = \<lparr>e_id = i', e_source = f (e_source d'), e_target = f (e_target d'), e_holder = e_holder d'\<rparr>"
        using in_e by meson
      have d: "d \<in> set (dg_edges g)" "d' \<in> set (dg_edges g)" using z by (auto dest: set_zip_rightD)
      have "e_source d = e_source d'" "e_target d = e_target d'"
        using same(1,2) e e' inj_onD [OF inj] wf_graphD(6,7) [OF wf] d by simp_all
      then have dd: "d = d'" using wf_graphD(8) [OF wf d] same(3) e e' by simp
      have "distinct (dg_edges g)" using wf_graphD(4) [OF wf] by (simp add: distinct_map)
      then have "i = i'"
        using z dd ids(2) by (metis distinct_conv_nth in_set_zip fst_conv snd_conv)
      then show "e = e'" using e e' dd by simp
    qed
  qed
qed

text \<open>Every sid and every pair of sids finds the same devices and holders in the copy.\<close>

lemma find_vertex_wf:
  assumes "wf_graph g"
  shows "device_of_sid g sid = (if sid \<in> get_device_sids g
    then find (\<lambda>d. d_sid d = sid) (List.map snd (dg_vertices g)) else None)"
proof (cases "find (\<lambda>(v, d). d_sid d = sid) (dg_vertices g)")
  case None
  then have "sid \<notin> get_device_sids g" by (auto simp: find_None_iff get_device_sids_def)
  then show ?thesis using None by (simp add: device_of_sid_def find_vertex_def)
next
  case (Some p)
  obtain v d where p: "p = (v, d)" by (cases p)
  have in_g: "(v, d) \<in> set (dg_vertices g)" "d_sid d = sid" using Some p
    by (auto simp: find_Some_iff) (metis nth_mem)
  then have "sid \<in> get_device_sids g" by (force simp: get_device_sids_def)
  moreover have "device_at g v = Some d"
    using in_g(1) by (simp add: device_at_iff [OF wf_graphD(1) [OF assms]])
  moreover have "find (\<lambda>d. d_sid d = sid) (List.map snd xs) = map_option snd (find (\<lambda>(v, d). d_sid d = sid) xs)"
    for xs :: "(nat \<times> device) list"
    by (induction xs) auto
  ultimately show ?thesis using Some p by (simp add: device_of_sid_def find_vertex_def)
qed

lemma copy_equal:
  assumes wf: "wf_graph g"
  shows "devicegraph_equal (copy g dest) g"
proof -
  obtain f where inj: "inj_on f (set (vertices g))"
    and vs: "dg_vertices (copy g dest) = List.map (\<lambda>(v, d). (f v, d)) (dg_vertices g)"
    and es: "\<exists>ids. distinct ids \<and> length ids = length (dg_edges g) \<and>
      (\<forall>i \<in> set ids. i < dg_next (copy g dest)) \<and>
      dg_edges (copy g dest) = List.map (\<lambda>(i, e). \<lparr>e_id = i, e_source = f (e_source e),
        e_target = f (e_target e), e_holder = e_holder e\<rparr>) (zip ids (dg_edges g))"
    by (rule copy_isomorphic [OF wf, of dest])
  let ?h = "copy g dest"
  from es obtain ids where len: "length ids = length (dg_edges g)"
    and edges: "dg_edges ?h = List.map (\<lambda>(i, e). \<lparr>e_id = i, e_source = f (e_source e),
        e_target = f (e_target e), e_holder = e_holder e\<rparr>) (zip ids (dg_edges g))" by blast
  have snds: "List.map snd (dg_vertices ?h) = List.map snd (dg_vertices g)"
    by (simp add: vs case_prod_unfold)
  have sids: "get_device_sids ?h = get_device_sids g"
    by (force simp: get_device_sids_def vs image_image case_prod_unfold)
  have at: "sid_of ?h (f v) = sid_of g v" if "v \<in> set (vertices g)" for v
    by (simp add: sid_of_def device_at_copy [OF wf inj vs that])
  let ?P = "\<lambda>g e. (sid_of g (e_source e), sid_of g (e_target e), e_holder e)"
  have "List.map (?P ?h) (dg_edges ?h) = List.map (?P g) (List.map snd (zip ids (dg_edges g)))"
    unfolding edges list.map_comp
  proof (rule list.map_cong [OF refl])
    fix z assume "z \<in> set (zip ids (dg_edges g))"
    moreover obtain i e where z: "z = (i, e)" by (cases z)
    ultimately have "e \<in> set (dg_edges g)" by (simp add: set_zip_rightD)
    with z show "(?P ?h \<circ> (\<lambda>(i, e). \<lparr>e_id = i, e_source = f (e_source e), e_target = f (e_target e),
        e_holder = e_holder e\<rparr>)) z = (?P g \<circ> snd) z"
      using at wf_graphD(6,7) [OF wf] by simp
  qed
  then have keys: "List.map (?P ?h) (dg_edges ?h) = List.map (?P g) (dg_edges g)"
    using len by simp
  have pairs: "get_holder_sid_pairs g = (\<lambda>(s, t, _). (s, t)) ` set (List.map (?P g) (dg_edges g))" for g
    by (force simp: get_holder_sid_pairs_def image_image)
  have held: "holders_of_pair g (Some s, Some t) = List.map (\<lambda>(_, _, h). h)
      (filter (\<lambda>(s', t', _). s' = Some s \<and> t' = Some t) (List.map (?P g) (dg_edges g)))" for g s t
    by (simp add: holders_of_pair_def find_edges_def joins_sids_def [abs_def] filter_map comp_def)
  have "holders_of_pair ?h p = holders_of_pair g p" for p
  proof (cases p)
    case (Pair a b)
    show ?thesis
    proof (cases "a = None \<or> b = None")
      case True
      then show ?thesis using Pair by (cases a; cases b) (auto simp: holders_of_pair_def)
    next
      case False
      then obtain s t where p: "p = (Some s, Some t)" using Pair by auto
      show ?thesis unfolding p held keys ..
    qed
  qed
  moreover have "get_holder_sid_pairs ?h = get_holder_sid_pairs g"
    unfolding pairs keys ..
  moreover have "device_of_sid ?h sid = device_of_sid g sid" for sid
    by (simp add: find_vertex_wf [OF wf] find_vertex_wf [OF copy_wf [OF wf]] sids snds)
  ultimately show ?thesis by (simp add: devicegraph_equal_def sids is_permutation_def)
qed

section \<open>The graph operations as steps\<close>

text \<open>
  What users of a devicegraph do to it. A new device has a sid of its own, as the generator of the
  sids guarantees; a copied one is checked. The hook of \<open>set_source\<close> and \<open>set_target\<close> changes
  devices, not the graph.
\<close>

inductive dg_step :: "devicegraph \<Rightarrow> devicegraph \<Rightarrow> bool" where
  dg_add_vertex: "d_sid d \<notin> get_device_sids g \<Longrightarrow> dg_step g (snd (add_vertex d g))"
| dg_add_edge: "add_edge sv tv h g = Inr (i, g') \<Longrightarrow> dg_step g g'"
| dg_copy_device: "copy_device d g = Inr (v, g') \<Longrightarrow> dg_step g g'"
| dg_copy_holder: "copy_holder s t h g = Inr (i, g') \<Longrightarrow> dg_step g g'"
| dg_remove_vertex: "dg_step g (remove_vertex v g)"
| dg_remove_edge: "dg_step g (remove_edge i g)"
| dg_set_source: "set_source (\<lambda>_ g. g) i sv g = Inr (j, g') \<Longrightarrow> dg_step g g'"
| dg_set_target: "set_target (\<lambda>_ g. g) i tv g = Inr (j, g') \<Longrightarrow> dg_step g g'"
| dg_remove_descendants: "dg_step g (remove_descendants view v g)"
| dg_copy: "wf_graph h \<Longrightarrow> dg_step g (copy h g)"

inductive dg_reachable :: "devicegraph \<Rightarrow> bool" where
  dg_init: "dg_reachable dg_empty"
| dg_next_step: "dg_reachable g \<Longrightarrow> dg_step g g' \<Longrightarrow> dg_reachable g'"

lemma device_exists_iff: "device_exists g sid \<longleftrightarrow> sid \<in> get_device_sids g"
  by (force simp: device_exists_def list_ex_iff get_device_sids_def)

lemma dg_step_wf: "dg_step g g' \<Longrightarrow> wf_graph g \<Longrightarrow> wf_graph g'"
proof (induction rule: dg_step.induct)
  case (dg_add_vertex d g)
  then show ?case by (intro wf_add_vertex)
next
  case (dg_add_edge sv tv h g i g')
  then show ?case by (blast intro: wf_add_edge)
next
  case (dg_copy_device d g v g')
  then have "d_sid d \<notin> get_device_sids g" "g' = snd (add_vertex d g)"
    by (auto simp: copy_device_def device_exists_iff split: if_splits)
  with dg_copy_device.prems wf_add_vertex show ?case by simp
next
  case (dg_copy_holder s t h g i g')
  then show ?case
    by (auto simp: copy_holder_def ebind_eq_Inr split: if_splits intro: wf_add_edge)
next
  case (dg_remove_vertex g v)
  then show ?case by (intro wf_remove_vertex)
next
  case (dg_remove_edge g i)
  then show ?case by (intro wf_remove_edge)
next
  case (dg_set_source i sv g j g')
  then show ?case
    by (auto simp: set_source_def ebind_eq_Inr split: option.splits intro: wf_add_edge wf_remove_edge)
next
  case (dg_set_target i tv g j g')
  then show ?case
    by (auto simp: set_target_def ebind_eq_Inr split: option.splits intro: wf_add_edge wf_remove_edge)
next
  case (dg_remove_descendants g view v)
  then show ?case by (simp add: remove_descendants_def wf_fold_remove_vertex)
next
  case (dg_copy h g)
  then show ?case by (intro copy_wf)
qed

lemma dg_reachable_wf: "dg_reachable g \<Longrightarrow> wf_graph g"
  by (induction rule: dg_reachable.induct) (auto intro: wf_empty dg_step_wf)

section \<open>An example graph\<close>

definition demo_device :: "nat \<Rightarrow> device_class \<Rightarrow> device" where
  "demo_device sid c = \<lparr>d_sid = sid, d_class = c, d_attrs = []\<rparr>"

definition demo_holder :: "holder_class \<Rightarrow> holder" where
  "demo_holder c = \<lparr>h_class = c, h_attrs = []\<rparr>"

text \<open>A thick logical volume (vertex 0) with a snapshot (1) and a filesystem on each of them.\<close>

definition demo_graph :: devicegraph where
  "demo_graph =
     \<lparr>dg_vertices = [(0, demo_device 42 (C_LvmLv LV_NORMAL)), (1, demo_device 43 (C_LvmLv LV_SNAPSHOT)),
        (2, demo_device 44 (C_Device ''Ext4'')), (3, demo_device 45 (C_Device ''Ext4''))],
      dg_edges = [\<lparr>e_id = 4, e_source = 0, e_target = 1, e_holder = demo_holder C_Snapshot\<rparr>,
        \<lparr>e_id = 5, e_source = 0, e_target = 2, e_holder = demo_holder C_FilesystemUser\<rparr>,
        \<lparr>e_id = 6, e_source = 1, e_target = 3, e_holder = demo_holder C_FilesystemUser\<rparr>],
      dg_next = 7\<rparr>"

lemma demo_graph_wf: "wf_graph demo_graph"
  by (simp add: wf_graph_def demo_graph_def vertices_def demo_device_def demo_holder_def)

section \<open>What the graph operations promise\<close>

text \<open>
  C23: every graph built from the empty one by the operations of the devicegraph is well-formed: the
  sids and the descriptors are unique, every holder joins two devices of the graph, and no two
  holders of the same class join the same two devices.
\<close>

theorem reachable_graph_wf:
  assumes "dg_reachable g"
  shows "wf_graph g"
  using assms by (rule dg_reachable_wf)

lemma reachable_graph_wf_witness:
  "wf_graph (remove_vertex 0 (snd (add_vertex (demo_device 42 C_Btrfs) dg_empty)))"
  by (rule reachable_graph_wf, rule dg_next_step [OF dg_next_step [OF dg_init dg_add_vertex] dg_remove_vertex])
    (simp add: get_device_sids_def dg_empty_def)

text \<open>
  \<open>descendants\<close> and \<open>ancestors\<close> return, each once, the other devices that can be reached from the
  device along (against) the holders in the view, and nothing else.
\<close>

theorem descendants_ancestors:
  "distinct (descendants g view False v) \<and> distinct (ancestors g view False v) \<and>
   set (descendants g view False v) = {w. (v, w) \<in> (set (down g view))\<^sup>*} - {v} \<and>
   set (ancestors g view False v) = {w. (v, w) \<in> (set (up g view))\<^sup>*} - {v}"
  using bfs_from [of "down g view" v] bfs_from [of "up g view" v]
  by (auto simp: descendants_def ancestors_def without_def)

text \<open>
  C38: \<open>remove_descendants\<close> removes exactly the devices below the given one and the holders that touch
  them, keeps the graph well-formed and leaves the device without a child in the view, provided the
  view has no cycle.
\<close>

theorem remove_descendants_exact:
  assumes "wf_graph g" and "acyclic (set (down g view))"
  shows "let g' = remove_descendants view v g; gone = {w. (v, w) \<in> (set (down g view))\<^sup>+} in
    wf_graph g' \<and> children g' view v = [] \<and>
    dg_vertices g' = filter (\<lambda>(w, d). w \<notin> gone) (dg_vertices g) \<and>
    dg_edges g' = filter (\<lambda>e. e_source e \<notin> gone \<and> e_target e \<notin> gone) (dg_edges g)"
proof -
  have "(v, v) \<notin> (set (down g view))\<^sup>+" using assms(2) by (simp add: acyclic_def)
  then have gone: "set (descendants g view False v) = {w. (v, w) \<in> (set (down g view))\<^sup>+}"
    unfolding set_descendants by (auto simp: rtrancl_eq_or_trancl)
  show ?thesis
    unfolding Let_def gone [symmetric]
    using no_children_left [OF assms(2)] wf_fold_remove_vertex [OF assms(1)]
    by (simp add: remove_descendants_def fold_remove_vertex)
qed

lemma remove_descendants_exact_witness:
  "children (remove_descendants VIEW_REMOVE 0 demo_graph) VIEW_REMOVE 0 = []"
proof -
  have d: "down demo_graph VIEW_REMOVE = [(0, 1), (0, 2), (1, 3)]" by code_simp
  have "acyclic (set (down demo_graph VIEW_REMOVE))"
    unfolding d by (rule acyclic_subset [OF wf_acyclic [OF wf_less]]) auto
  from remove_descendants_exact [OF demo_graph_wf this, of 0] show ?thesis by (simp add: Let_def)
qed

text \<open>
  C24: for a well-formed graph \<open>check\<close> throws that the graph has a cycle exactly when the classic view,
  in which snapshots and qgroup relations are invisible, has one: the depth first search finds every
  cycle. Without a cycle the devices are checked in the order of the graph: \<open>check\<close> succeeds when the
  checks of all devices do, otherwise it throws what the first one that fails throws. The checks
  of the devices, which depend on their class, are the parameter \<open>chk\<close>.
\<close>

theorem check_finds_cycles:
  assumes "wf_graph g"
  shows "(dg_check chk g = Inr () \<longleftrightarrow>
      acyclic (set (down g VIEW_CLASSIC)) \<and> (\<forall>v \<in> set (vertices g). chk g v = Inr ())) \<and>
    (\<not> acyclic (set (down g VIEW_CLASSIC)) \<longrightarrow> dg_check chk g = Inl (Exn ''devicegraph has a cycle'')) \<and>
    (\<forall>us v vs e. acyclic (set (down g VIEW_CLASSIC)) \<and> vertices g = us @ v # vs \<and>
      (\<forall>u \<in> set us. chk g u = Inr ()) \<and> chk g v = Inl e \<longrightarrow> dg_check chk g = Inl e)"
  using dg_check_wf [OF assms, of chk] check_each_passes [of "chk g" "vertices g"] check_each_fails [of _ "chk g"]
  by simp

lemma check_finds_cycles_witness:
  "acyclic (set (down demo_graph VIEW_CLASSIC)) \<and>
    dg_check (\<lambda>_ v. if v = 2 then Inl (Exn ''no device'') else Inr ()) demo_graph = Inl (Exn ''no device'')"
proof -
  have "dg_check (\<lambda>_ _. Inr ()) demo_graph = Inr ()" by code_simp
  then have a: "acyclic (set (down demo_graph VIEW_CLASSIC))"
    using check_finds_cycles [OF demo_graph_wf] by blast
  have v: "vertices demo_graph = [0, 1] @ 2 # [3]" by code_simp
  note c = check_finds_cycles [OF demo_graph_wf, THEN conjunct2, THEN conjunct2, rule_format]
  have "dg_check (\<lambda>_ v. if v = 2 then Inl (Exn ''no device'') else Inr ()) demo_graph = Inl (Exn ''no device'')"
    by (rule c [where us = "[0, 1]" and v = 2 and vs = "[3]"]) (use a v in auto)
  with a show ?thesis ..
qed

text \<open>
  \<open>copy\<close> makes a well-formed graph that compares equal to the original, whatever was in the
  destination before.
\<close>

theorem copy_is_equal:
  assumes "wf_graph g"
  shows "wf_graph (copy g dest) \<and> devicegraph_equal (copy g dest) g"
  using copy_wf [OF assms] copy_equal [OF assms] by blast

lemma copy_is_equal_witness: "devicegraph_equal (copy demo_graph demo_graph) demo_graph"
  using copy_is_equal [OF demo_graph_wf, of demo_graph] by blast

end
