(* ===== verification/Layers.thy ===== *)
theory Layers
  imports Devicegraph "HOL-Library.Multiset"
begin

text \<open>
  Devices between a block device and what is on it (storage/Devices/BlkDeviceImpl.cc): creating and
  removing an encryption, creating a bcache, a bcache set and a filesystem.
\<close>

section \<open>Operations\<close>

text \<open>
  What the classes of devices do when a parent changes are hooks: \<open>new_parent\<close> for
  \<open>has_new_parent\<close>, \<open>new_region\<close> for \<open>parent_has_new_region\<close>, \<open>mount_by\<close> for
  \<open>set_default_mount_by\<close>. They change attributes of devices.
\<close>

definition get_single_child ::
  "(device_class \<Rightarrow> bool) \<Rightarrow> devicegraph \<Rightarrow> nat \<Rightarrow> nat result" where
  "get_single_child P g v =
     ebind (child g VIEW_CLASSIC v) (\<lambda>w.
       case device_at g w of
         Some d \<Rightarrow> if P (d_class d) then Inr w else Inl (Exn ''device has wrong type'')
       | None \<Rightarrow> Inl UndefinedBehaviour)"

definition has_single_child :: "(device_class \<Rightarrow> bool) \<Rightarrow> devicegraph \<Rightarrow> nat \<Rightarrow> bool" where
  "has_single_child P g v =
     (if num_children g VIEW_CLASSIC v \<noteq> 1 then False
      else case child g VIEW_CLASSIC v of
        Inr w \<Rightarrow> (case device_at g w of Some d \<Rightarrow> P (d_class d) | None \<Rightarrow> False)
      | Inl _ \<Rightarrow> False)"

text \<open>The loop over the out edges, taken before anything changes.\<close>

definition move_sources ::
  "(nat \<Rightarrow> devicegraph \<Rightarrow> devicegraph) \<Rightarrow> nat list \<Rightarrow> nat \<Rightarrow> devicegraph \<Rightarrow> devicegraph result" where
  "move_sources new_parent es w = efold (\<lambda>i g. emap snd (set_source new_parent i w g)) es"

text \<open>The device \<open>d\<close> is created by the constructor that is registered for the type.\<close>

definition create_encryption ::
  "(nat \<Rightarrow> devicegraph \<Rightarrow> devicegraph) \<Rightarrow> (nat \<Rightarrow> devicegraph \<Rightarrow> devicegraph) \<Rightarrow>
   (nat \<Rightarrow> devicegraph \<Rightarrow> devicegraph) \<Rightarrow> device option \<Rightarrow> nat \<Rightarrow> devicegraph \<Rightarrow> (nat \<times> devicegraph) result" where
  "create_encryption new_parent mount_by new_region created v g =
     (case created of
        None \<Rightarrow> Inl (Exn ''invalid encryption type'')
      | Some d \<Rightarrow>
          let es = List.map e_id (out_edges g VIEW_CLASSIC v);
              (w, g) = add_vertex d g
          in ebind (add_edge v w \<lparr>h_class = C_User, h_attrs = []\<rparr> g) (\<lambda>(_, g).
             ebind (move_sources new_parent es w g) (\<lambda>g.
               Inr (w, new_region w (mount_by w g)))))"

definition remove_encryption ::
  "(nat \<Rightarrow> devicegraph \<Rightarrow> devicegraph) \<Rightarrow> (device_class \<Rightarrow> bool) \<Rightarrow> nat \<Rightarrow> devicegraph \<Rightarrow> devicegraph result" where
  "remove_encryption new_parent is_encryption v g =
     ebind (get_single_child is_encryption g v) (\<lambda>w.
     ebind (move_sources new_parent (List.map e_id (out_edges g VIEW_CLASSIC w)) v g) (\<lambda>g.
       Inr (remove_vertex w g)))"

definition create_bcache ::
  "(nat \<Rightarrow> devicegraph \<Rightarrow> devicegraph) \<Rightarrow> (nat \<Rightarrow> devicegraph \<Rightarrow> devicegraph) \<Rightarrow>
   device \<Rightarrow> nat \<Rightarrow> devicegraph \<Rightarrow> (nat \<times> devicegraph) result" where
  "create_bcache new_parent new_region d v g =
     (let es = List.map e_id (out_edges g VIEW_CLASSIC v);
          (w, g) = add_vertex d g
      in ebind (add_edge v w \<lparr>h_class = C_User, h_attrs = []\<rparr> g) (\<lambda>(_, g).
         ebind (move_sources new_parent es w g) (\<lambda>g. Inr (w, new_region w g))))"

definition create_bcache_cset :: "device \<Rightarrow> nat \<Rightarrow> devicegraph \<Rightarrow> (nat \<times> devicegraph) result" where
  "create_bcache_cset d v g =
     (if num_children g VIEW_CLASSIC v \<noteq> 0 then Inl (WrongNumberOfChildren (num_children g VIEW_CLASSIC v) 0)
      else let (w, g) = add_vertex d g
           in emap (\<lambda>(_, g). (w, g)) (add_edge v w \<lparr>h_class = C_User, h_attrs = []\<rparr> g))"

text \<open>A type that is not registered has no device; those of NFS have a message of their own.\<close>

definition create_blk_filesystem :: "bool \<Rightarrow> device option \<Rightarrow> nat \<Rightarrow> devicegraph \<Rightarrow> (nat \<times> devicegraph) result" where
  "create_blk_filesystem is_nfs created v g =
     (if num_children g VIEW_CLASSIC v \<noteq> 0 then Inl (WrongNumberOfChildren (num_children g VIEW_CLASSIC v) 0)
      else case created of
        None \<Rightarrow> Inl (Exn (if is_nfs then ''cannot create Nfs on BlkDevice'' else ''unsupported filesystem type''))
      | Some d \<Rightarrow> let (w, g) = add_vertex d g
           in emap (\<lambda>(_, g). (w, g)) (add_edge v w \<lparr>h_class = C_FilesystemUser, h_attrs = []\<rparr> g))"

section \<open>Moving edges\<close>

text \<open>An edge without its descriptor.\<close>

definition link :: "edge \<Rightarrow> nat \<times> nat \<times> holder" where
  "link e = (e_source e, e_target e, e_holder e)"

definition links :: "devicegraph \<Rightarrow> (nat \<times> nat \<times> holder) list" where
  "links g = List.map link (dg_edges g)"

text \<open>Descriptors, sids and classes of the devices: the part of the vertices the graph looks at.\<close>

definition nodes :: "devicegraph \<Rightarrow> (nat \<times> nat \<times> device_class) list" where
  "nodes g = List.map (\<lambda>(v, d). (v, d_sid d, d_class d)) (dg_vertices g)"

definition graph_hook :: "(nat \<Rightarrow> devicegraph \<Rightarrow> devicegraph) \<Rightarrow> bool" where
  "graph_hook h \<longleftrightarrow>
     (\<forall>v g. nodes (h v g) = nodes g \<and> dg_edges (h v g) = dg_edges g \<and> dg_next (h v g) = dg_next g)"

lemma vertices_nodes: "vertices g = List.map fst (nodes g)"
  by (simp add: nodes_def vertices_def comp_def case_prod_unfold)

lemma nodes_vertices: "nodes g' = nodes g \<Longrightarrow> vertices g' = vertices g"
  by (simp add: vertices_nodes)

lemma nodes_class:
  "map_of (nodes g) v = map_option (\<lambda>d. (d_sid d, d_class d)) (device_at g v)"
proof -
  have "map_of (List.map (\<lambda>(v, d). (v, d_sid d, d_class d)) vs) v = map_option (\<lambda>d. (d_sid d, d_class d)) (map_of vs v)"
    for vs :: "(nat \<times> device) list"
    by (induction vs) auto
  then show ?thesis by (simp add: nodes_def device_at_def)
qed

lemma nodes_device:
  assumes "nodes g' = nodes g"
  shows "sid_of g' v = sid_of g v" and "map_option d_class (device_at g' v) = map_option d_class (device_at g v)"
proof -
  have "map_option (\<lambda>d. (d_sid d, d_class d)) (device_at g' v)
      = map_option (\<lambda>d. (d_sid d, d_class d)) (device_at g v)"
    using assms by (simp only: nodes_class [symmetric])
  then show "sid_of g' v = sid_of g v" "map_option d_class (device_at g' v) = map_option d_class (device_at g v)"
    by (cases "device_at g' v"; cases "device_at g v"; simp add: sid_of_def)+
qed

lemma nodes_wf:
  assumes "wf_graph g" and "nodes g' = nodes g" and "dg_edges g' = dg_edges g" and "dg_next g' = dg_next g"
  shows "wf_graph g'"
proof -
  have "List.map (\<lambda>(v, d). d_sid d) (dg_vertices g') = List.map (\<lambda>(v, d). d_sid d) (dg_vertices g)"
    using arg_cong [OF assms(2), of "List.map (fst \<circ> snd)"] by (simp add: nodes_def comp_def case_prod_unfold)
  then show ?thesis using assms(1) unfolding wf_graph_def nodes_vertices [OF assms(2)] assms(3,4) by simp
qed

text \<open>\<open>set_source\<close> of one edge, when the new source has no such edge yet.\<close>

lemma set_source_link:
  assumes wf: "wf_graph g" and hook: "graph_hook h" and e: "e \<in> set (dg_edges g)" and w: "w \<in> set (vertices g)"
    and free: "\<forall>f \<in> set (dg_edges g). e_source f = w \<longrightarrow> e_target f = e_target e \<longrightarrow>
      h_class (e_holder f) \<noteq> h_class (e_holder e)"
  shows "\<exists>i g'. set_source h (e_id e) w g = Inr (i, g') \<and> wf_graph g' \<and> nodes g' = nodes g \<and>
    dg_edges g' = filter (\<lambda>f. e_id f \<noteq> e_id e) (dg_edges g)
      @ [\<lparr>e_id = dg_next g, e_source = w, e_target = e_target e, e_holder = e_holder e\<rparr>] \<and> dg_next g' = dg_next g + 1"
proof -
  have "find (\<lambda>f. e_id f = e_id e) (dg_edges g) = Some e"
  proof -
    obtain f where f: "find (\<lambda>f. e_id f = e_id e) (dg_edges g) = Some f"
      using e by (cases "find (\<lambda>f. e_id f = e_id e) (dg_edges g)") (auto simp: find_None_iff)
    then have "f \<in> set (dg_edges g)" "e_id f = e_id e" by (auto simp: find_Some_iff)
    then have "f = e" using e wf_graphD(4) [OF wf] unfolding distinct_map by (metis inj_onD)
    with f show ?thesis by simp
  qed
  then have at: "edge_at g (e_id e) = Some e" by (simp add: edge_at_def)
  obtain ssid tsid where sid: "sid_of g w = Some ssid" "sid_of g (e_target e) = Some tsid"
    using w wf_graphD(7) [OF wf e] by (auto simp: device_at_vertices sid_of_def)
  let ?new = "\<lparr>e_id = dg_next g, e_source = w, e_target = e_target e, e_holder = e_holder e\<rparr>"
  let ?g1 = "g\<lparr>dg_edges := dg_edges g @ [?new], dg_next := dg_next g + 1\<rparr>"
  have "h_class (e_holder f) \<noteq> h_class (e_holder e)" if f: "f \<in> set (find_edges g ssid tsid)" for f
  proof -
    have "f \<in> set (dg_edges g)" "sid_of g (e_source f) = Some ssid" "sid_of g (e_target f) = Some tsid"
      using f by (auto simp: find_edges_def joins_sids_def)
    moreover from this have "e_source f = w" "e_target f = e_target e" using sid_of_inj [OF wf] sid by blast+
    ultimately show ?thesis using free by blast
  qed
  then have add: "add_edge w (e_target e) (e_holder e) g = Inr (dg_next g, ?g1)"
    by (auto simp: add_edge_def sid list_ex_iff)
  let ?g2 = "h (e_target e) (remove_edge (e_id e) ?g1)"
  have "e_id e \<noteq> dg_next g" using wf_graphD(5) [OF wf e] by simp
  then have g2: "nodes ?g2 = nodes g" "dg_edges ?g2 = filter (\<lambda>f. e_id f \<noteq> e_id e) (dg_edges g) @ [?new]"
    "dg_next ?g2 = dg_next g + 1"
    using hook by (simp_all add: graph_hook_def remove_edge_def nodes_def)
  have "wf_graph (remove_edge (e_id e) ?g1)" using wf_remove_edge wf_add_edge [OF wf add] by blast
  then have "wf_graph ?g2"
    by (rule nodes_wf) (use hook in \<open>simp_all add: graph_hook_def\<close>)
  then show ?thesis using g2 by (simp add: set_source_def at add)
qed

lemma move_sources_links:
  assumes "wf_graph g" and "graph_hook h" and "distinct es" and "set es \<subseteq> set (dg_edges g)" and "w \<in> set (vertices g)"
    and "\<forall>e \<in> set es. e_source e = v" and "v \<noteq> w"
    and "\<forall>e \<in> set es. \<forall>f \<in> set (dg_edges g). e_source f = w \<longrightarrow> e_target f = e_target e \<longrightarrow>
      h_class (e_holder f) \<noteq> h_class (e_holder e)"
  shows "\<exists>g'. move_sources h (List.map e_id es) w g = Inr g' \<and> wf_graph g' \<and> nodes g' = nodes g \<and>
    (\<exists>new. dg_edges g' = filter (\<lambda>f. f \<notin> set es) (dg_edges g) @ new \<and>
      List.map link new = List.map (\<lambda>e. (w, e_target e, e_holder e)) es)"
  using assms
proof (induction es arbitrary: g)
  case Nil
  then show ?case by (auto simp: move_sources_def filter_id_conv)
next
  case (Cons e es)
  let ?new = "\<lparr>e_id = dg_next g, e_source = w, e_target = e_target e, e_holder = e_holder e\<rparr>"
  have e: "e \<in> set (dg_edges g)" using Cons.prems(4) by simp
  obtain i g1 where g1: "set_source h (e_id e) w g = Inr (i, g1)" "wf_graph g1" "nodes g1 = nodes g"
    "dg_edges g1 = filter (\<lambda>f. e_id f \<noteq> e_id e) (dg_edges g) @ [?new]"
    using set_source_link [OF Cons.prems(1,2) e Cons.prems(5)] Cons.prems(8) by auto
  have ids: "e_id f \<noteq> e_id e \<longleftrightarrow> f \<noteq> e" if "f \<in> set (dg_edges g)" for f
    using that e wf_graphD(4) [OF Cons.prems(1)] unfolding distinct_map by (metis inj_onD)
  have fil: "filter (\<lambda>f. e_id f \<noteq> e_id e) (dg_edges g) = filter (\<lambda>f. f \<noteq> e) (dg_edges g)"
    using ids by (intro filter_cong) auto
  have edges: "dg_edges g1 = filter (\<lambda>f. f \<noteq> e) (dg_edges g) @ [?new]" using g1(4) fil by simp
  have src: "e_source x = v" if "x \<in> set es" for x using Cons.prems(6) that by simp
  have nin: "?new \<notin> set es" using src [of ?new] Cons.prems(7) by auto
  have uniq: "x = e" if "x \<in> set (dg_edges g)" "e_source x = e_source e" "e_target x = e_target e"
      "h_class (e_holder x) = h_class (e_holder e)" for x
    using wf_graphD(8) [OF Cons.prems(1) that(1) e] that by blast
  have "\<exists>g'. move_sources h (List.map e_id es) w g1 = Inr g' \<and> wf_graph g' \<and> nodes g' = nodes g1 \<and>
    (\<exists>new. dg_edges g' = filter (\<lambda>f. f \<notin> set es) (dg_edges g1) @ new \<and>
      List.map link new = List.map (\<lambda>e. (w, e_target e, e_holder e)) es)"
  proof (rule Cons.IH [OF g1(2) Cons.prems(2)])
    show "distinct es" using Cons.prems(3) by simp
    show "set es \<subseteq> set (dg_edges g1)" using Cons.prems(3,4) by (auto simp: edges)
    show "w \<in> set (vertices g1)" using Cons.prems(5) nodes_vertices [OF g1(3)] by simp
    show "\<forall>e \<in> set es. e_source e = v" using src by simp
    show "v \<noteq> w" by (rule Cons.prems(7))
    show "\<forall>x \<in> set es. \<forall>f \<in> set (dg_edges g1). e_source f = w \<longrightarrow> e_target f = e_target x \<longrightarrow>
        h_class (e_holder f) \<noteq> h_class (e_holder x)"
    proof (intro ballI impI)
      fix x f assume x: "x \<in> set es" and f: "f \<in> set (dg_edges g1)" "e_source f = w" "e_target f = e_target x"
      show "h_class (e_holder f) \<noteq> h_class (e_holder x)"
      proof (cases "f = ?new")
        case True
        have "x \<in> set (dg_edges g)" "x \<noteq> e" "e_source x = e_source e"
          using x Cons.prems(3,4,6) by auto
        with uniq [of x] f(3) show ?thesis by (auto simp: True)
      next
        case False
        then have "f \<in> set (dg_edges g)" using f(1) by (auto simp: edges)
        then show ?thesis using Cons.prems(8) x f(2,3) by simp
      qed
    qed
  qed
  then obtain g' new where g': "move_sources h (List.map e_id es) w g1 = Inr g'" "wf_graph g'" "nodes g' = nodes g1"
    "dg_edges g' = filter (\<lambda>f. f \<notin> set es) (dg_edges g1) @ new"
    "List.map link new = List.map (\<lambda>e. (w, e_target e, e_holder e)) es" by blast
  have "move_sources h (List.map e_id (e # es)) w g = Inr g'"
    using g1(1) g'(1) by (simp add: move_sources_def)
  moreover have "dg_edges g' = filter (\<lambda>f. f \<notin> set (e # es)) (dg_edges g) @ (?new # new)"
    using g'(4) nin by (simp add: edges conj_commute)
  moreover have "List.map link (?new # new) = List.map (\<lambda>e. (w, e_target e, e_holder e)) (e # es)"
    using g'(5) by (simp add: link_def)
  moreover have "nodes g' = nodes g" using g'(3) g1(3) by simp
  ultimately show ?case using g'(2) by blast
qed

section \<open>The graph as a list of links\<close>

text \<open>Whether a link is in the classic view.\<close>

definition classic :: "(nat \<times> nat \<times> device_class) list \<Rightarrow> nat \<times> nat \<times> holder \<Rightarrow> bool" where
  "classic ns l =
     (h_class (snd (snd l)) \<noteq> C_Snapshot \<and> h_class (snd (snd l)) \<noteq> C_BtrfsQgroupRelation \<and>
      (case map_of ns (fst (snd l)) of
         None \<Rightarrow> False
       | Some (_, c) \<Rightarrow> (case c of C_BtrfsQgroup _ \<Rightarrow> False | _ \<Rightarrow> True)))"

definition from_to :: "nat \<Rightarrow> nat \<times> nat \<times> holder \<Rightarrow> nat \<times> nat \<times> holder" where
  "from_to v l = (v, snd l)"

definition leaves_at :: "(nat \<times> nat \<times> device_class) list \<Rightarrow> nat \<Rightarrow> nat \<times> nat \<times> holder \<Rightarrow> bool" where
  "leaves_at ns v l \<longleftrightarrow> fst l = v \<and> classic ns l"

lemma out_edges_classic: "out_edges g VIEW_CLASSIC v = filter (\<lambda>e. leaves_at (nodes g) v (link e)) (dg_edges g)"
proof -
  have "holder_in_view g VIEW_CLASSIC e \<and> vertex_filter g VIEW_CLASSIC (e_target e) \<longleftrightarrow> classic (nodes g) (link e)" for e
    by (cases "device_at g (e_target e)")
      (auto simp: classic_def link_def nodes_class holder_in_view_def snapshot_in_view_def relation_in_view_def
        vertex_filter_def device_in_view_def split: holder_class.splits device_class.splits)
  then show ?thesis
    unfolding out_edges_def out_edges_view_def filter_filter
    by (intro filter_cong) (auto simp: leaves_at_def link_def)
qed

lemma out_links: "List.map link (out_edges g VIEW_CLASSIC v) = filter (leaves_at (nodes g) v) (links g)"
  by (simp add: out_edges_classic links_def filter_map comp_def)

lemma children_links: "children g VIEW_CLASSIC v = List.map (\<lambda>l. fst (snd l)) (filter (leaves_at (nodes g) v) (links g))"
  by (simp add: children_def out_links [symmetric] link_def comp_def)

lemma num_children_links: "num_children g VIEW_CLASSIC v = length (filter (leaves_at (nodes g) v) (links g))"
  unfolding num_children_def out_links [symmetric] by simp

lemma child_links: "children g VIEW_CLASSIC v = [w] \<Longrightarrow> child g VIEW_CLASSIC v = Inr w"
  by (auto simp: children_def child_def out_edge_def)

lemma moved_links:
  "List.map (\<lambda>e. (w, e_target e, e_holder e)) (out_edges g VIEW_CLASSIC v)
     = List.map (from_to w) (filter (leaves_at (nodes g) v) (links g))"
  unfolding out_links [symmetric] by (simp add: from_to_def link_def)

lemma kept_links:
  "List.map link (filter (\<lambda>f. f \<notin> set (out_edges g VIEW_CLASSIC v)) (dg_edges g))
     = filter (\<lambda>l. \<not> leaves_at (nodes g) v l) (links g)"
proof -
  have "filter (\<lambda>f. f \<notin> set (out_edges g VIEW_CLASSIC v)) (dg_edges g)
      = filter (\<lambda>f. \<not> leaves_at (nodes g) v (link f)) (dg_edges g)"
    by (intro filter_cong) (auto simp: out_edges_classic)
  then show ?thesis by (simp add: links_def filter_map comp_def)
qed

text \<open>All children of \<open>v\<close> become children of \<open>w\<close>.\<close>

lemma move_all:
  assumes wf: "wf_graph g" and hook: "graph_hook h" and w: "w \<in> set (vertices g)" and "v \<noteq> w"
    and free: "\<forall>l \<in> set (links g). \<forall>k \<in> set (links g). leaves_at (nodes g) v l \<longrightarrow> fst k = w \<longrightarrow>
      fst (snd k) = fst (snd l) \<longrightarrow> h_class (snd (snd k)) \<noteq> h_class (snd (snd l))"
  shows "\<exists>g'. move_sources h (List.map e_id (out_edges g VIEW_CLASSIC v)) w g = Inr g' \<and> wf_graph g' \<and>
    nodes g' = nodes g \<and>
    links g' = filter (\<lambda>l. \<not> leaves_at (nodes g) v l) (links g)
      @ List.map (from_to w) (filter (leaves_at (nodes g) v) (links g))"
proof -
  let ?es = "out_edges g VIEW_CLASSIC v"
  have es: "set ?es = {e \<in> set (dg_edges g). leaves_at (nodes g) v (link e)}" by (simp add: out_edges_classic)
  have "distinct (dg_edges g)" using wf_graphD(4) [OF wf] by (simp add: distinct_map)
  then have "distinct ?es" by (simp add: out_edges_classic)
  have "\<exists>g'. move_sources h (List.map e_id ?es) w g = Inr g' \<and> wf_graph g' \<and> nodes g' = nodes g \<and>
    (\<exists>new. dg_edges g' = filter (\<lambda>f. f \<notin> set ?es) (dg_edges g) @ new \<and>
      List.map link new = List.map (\<lambda>e. (w, e_target e, e_holder e)) ?es)"
  proof (rule move_sources_links [OF wf hook \<open>distinct ?es\<close> _ w _ assms(4)])
    show "\<forall>e \<in> set ?es. e_source e = v" by (simp add: es leaves_at_def link_def)
    show "\<forall>e \<in> set ?es. \<forall>f \<in> set (dg_edges g). e_source f = w \<longrightarrow> e_target f = e_target e \<longrightarrow>
      h_class (e_holder f) \<noteq> h_class (e_holder e)"
    proof (intro ballI impI)
      fix e f assume ef: "e \<in> set ?es" "f \<in> set (dg_edges g)" "e_source f = w" "e_target f = e_target e"
      then have "link e \<in> set (links g)" "link f \<in> set (links g)" "leaves_at (nodes g) v (link e)"
        by (simp_all add: es links_def)
      from free [rule_format, OF this] ef(3,4) show "h_class (e_holder f) \<noteq> h_class (e_holder e)"
        by (simp add: link_def)
    qed
  qed (auto simp: es)
  then obtain g' new where g': "move_sources h (List.map e_id ?es) w g = Inr g'" "wf_graph g'" "nodes g' = nodes g"
    "dg_edges g' = filter (\<lambda>f. f \<notin> set ?es) (dg_edges g) @ new"
    "List.map link new = List.map (\<lambda>e. (w, e_target e, e_holder e)) ?es" by blast
  then have "links g' = filter (\<lambda>l. \<not> leaves_at (nodes g) v l) (links g)
      @ List.map (from_to w) (filter (leaves_at (nodes g) v) (links g))"
    by (simp only: links_def [of g'] map_append kept_links moved_links)
  with g'(1-3) show ?thesis by blast
qed

section \<open>Inserting and removing a layer\<close>

definition user_link :: "nat \<Rightarrow> nat \<Rightarrow> nat \<times> nat \<times> holder" where
  "user_link v w = (v, w, \<lparr>h_class = C_User, h_attrs = []\<rparr>)"

definition inserted :: "nat \<Rightarrow> nat \<Rightarrow> devicegraph \<Rightarrow> (nat \<times> nat \<times> holder) list" where
  "inserted v w g =
     filter (\<lambda>l. \<not> leaves_at (nodes g) v l) (links g) @ user_link v w #
     List.map (from_to w) (filter (leaves_at (nodes g) v) (links g))"

lemma link_ends:
  assumes "wf_graph g" and "l \<in> set (links g)"
  shows "fst l \<in> fst ` set (nodes g)" and "fst (snd l) \<in> fst ` set (nodes g)"
proof -
  have "set (vertices g) = fst ` set (nodes g)" by (simp add: vertices_nodes)
  then show "fst l \<in> fst ` set (nodes g)" "fst (snd l) \<in> fst ` set (nodes g)"
    using assms(2) wf_graphD(6,7) [OF assms(1)] by (auto simp: links_def link_def)
qed

lemma classic_append:
  assumes "fst (snd l) \<in> fst ` set ns"
  shows "classic (ns @ ms) l = classic ns l" and "leaves_at (ns @ ms) v l = leaves_at ns v l"
proof -
  have "map_of (ns @ ms) (fst (snd l)) = map_of ns (fst (snd l))"
    using assms by (simp add: map_add_dom_app_simps(1) map_of_append dom_map_of_conv_image_fst)
  then show "classic (ns @ ms) l = classic ns l" and "leaves_at (ns @ ms) v l = leaves_at ns v l"
    by (simp_all add: classic_def leaves_at_def)
qed

lemma fresh_vertex:
  assumes "wf_graph g"
  shows "dg_next g \<notin> fst ` set (nodes g)" and "v \<in> set (vertices g) \<Longrightarrow> v \<noteq> dg_next g"
proof -
  have vs: "set (vertices g) = fst ` set (nodes g)" by (simp add: vertices_nodes)
  show "dg_next g \<notin> fst ` set (nodes g)" unfolding vs [symmetric] using wf_graphD(2) [OF assms] by blast
  show "v \<in> set (vertices g) \<Longrightarrow> v \<noteq> dg_next g" using wf_graphD(2) [OF assms] by blast
qed

lemma insert_layer:
  assumes wf: "wf_graph g" and v: "v \<in> set (vertices g)" and fresh: "d_sid d \<notin> get_device_sids g"
    and hook: "graph_hook h"
  shows "\<exists>i g1 g2. add_edge v (dg_next g) \<lparr>h_class = C_User, h_attrs = []\<rparr> (snd (add_vertex d g)) = Inr (i, g1) \<and>
    move_sources h (List.map e_id (out_edges g VIEW_CLASSIC v)) (dg_next g) g1 = Inr g2 \<and> wf_graph g2 \<and>
    nodes g2 = nodes g @ [(dg_next g, d_sid d, d_class d)] \<and> links g2 = inserted v (dg_next g) g"
proof -
  let ?w = "dg_next g" and ?g0 = "snd (add_vertex d g)" and ?h = "\<lparr>h_class = C_User, h_attrs = []\<rparr>"
  have wf0: "wf_graph ?g0" by (rule wf_add_vertex [OF wf fresh])
  have n0: "nodes ?g0 = nodes g @ [(?w, d_sid d, d_class d)]" and e0: "dg_edges ?g0 = dg_edges g"
    and next0: "dg_next ?g0 = ?w + 1"
    by (simp_all add: add_vertex_def nodes_def)
  have vw: "v \<noteq> ?w" by (rule fresh_vertex(2) [OF wf v])
  have vs0: "set (vertices ?g0) = insert ?w (set (vertices g))" by (simp add: add_vertex_def vertices_def)
  then obtain ssid tsid where sid: "sid_of ?g0 v = Some ssid" "sid_of ?g0 ?w = Some tsid"
    using v by (metis (no_types, opaque_lifting) device_at_vertices insertCI option.simps(9) sid_of_def)
  have "find_edges ?g0 ssid tsid = []"
  proof -
    have "\<not> joins_sids ?g0 ssid tsid e" if e: "e \<in> set (dg_edges g)" for e
    proof
      assume "joins_sids ?g0 ssid tsid e"
      then have "e_target e = ?w" using sid_of_inj [OF wf0 _ sid(2)] by (simp add: joins_sids_def)
      then show False using wf_graphD(2,7) [OF wf] e by force
    qed
    then show ?thesis by (simp add: find_edges_def e0 filter_empty_conv)
  qed
  then obtain g1 where g1: "add_edge v ?w ?h ?g0 = Inr (?w + 1, g1)"
    and g1_def: "g1 = ?g0\<lparr>dg_edges := dg_edges g @ [\<lparr>e_id = ?w + 1, e_source = v, e_target = ?w, e_holder = ?h\<rparr>],
      dg_next := ?w + 2\<rparr>"
    by (simp add: add_edge_def sid e0 next0)
  have wf1: "wf_graph g1" by (rule wf_add_edge [OF wf0 g1])
  have n1: "nodes g1 = nodes g @ [(?w, d_sid d, d_class d)]" using n0 by (simp add: g1_def nodes_def)
  have l1: "links g1 = links g @ [user_link v ?w]" by (simp add: g1_def links_def link_def user_link_def)
  have at: "leaves_at (nodes g) v l = leaves_at (nodes g1) v l" if "l \<in> set (links g)" for l
    unfolding n1 by (rule classic_append(2) [symmetric], rule link_ends(2) [OF wf that])
  let ?es = "out_edges g VIEW_CLASSIC v"
  have es: "set ?es = {e \<in> set (dg_edges g). leaves_at (nodes g) v (link e)}" by (simp add: out_edges_classic)
  have "distinct (dg_edges g)" using wf_graphD(4) [OF wf] by (simp add: distinct_map)
  then have "distinct ?es" by (simp add: out_edges_classic)
  have no_w: "e_source f \<noteq> ?w" if "f \<in> set (dg_edges g1)" for f
    using that vw wf_graphD(2,6) [OF wf] by (fastforce simp: g1_def)
  have "\<exists>g'. move_sources h (List.map e_id ?es) ?w g1 = Inr g' \<and> wf_graph g' \<and> nodes g' = nodes g1 \<and>
    (\<exists>new. dg_edges g' = filter (\<lambda>f. f \<notin> set ?es) (dg_edges g1) @ new \<and>
      List.map link new = List.map (\<lambda>e. (?w, e_target e, e_holder e)) ?es)"
  proof (rule move_sources_links [OF wf1 hook \<open>distinct ?es\<close> _ _ _ vw])
    show "set ?es \<subseteq> set (dg_edges g1)" by (auto simp: es g1_def)
    show "?w \<in> set (vertices g1)" by (simp add: vertices_nodes n1)
    show "\<forall>e \<in> set ?es. e_source e = v" by (simp add: es leaves_at_def link_def)
  qed (use no_w in blast)
  then obtain g2 new where g2: "move_sources h (List.map e_id ?es) ?w g1 = Inr g2" "wf_graph g2" "nodes g2 = nodes g1"
    "dg_edges g2 = filter (\<lambda>f. f \<notin> set ?es) (dg_edges g1) @ new"
    "List.map link new = List.map (\<lambda>e. (?w, e_target e, e_holder e)) ?es" by blast
  have new_edge: "\<lparr>e_id = ?w + 1, e_source = v, e_target = ?w, e_holder = ?h\<rparr> \<notin> set (dg_edges g)"
    using wf_graphD(5) [OF wf] by force
  then have "filter (\<lambda>f. f \<notin> set ?es) (dg_edges g1) = filter (\<lambda>f. f \<notin> set ?es) (dg_edges g)
      @ [\<lparr>e_id = ?w + 1, e_source = v, e_target = ?w, e_holder = ?h\<rparr>]"
    by (simp add: g1_def es)
  then have "links g2 = inserted v ?w g"
    unfolding links_def [of g2] g2(4) inserted_def map_append kept_links [symmetric] g2(5) moved_links [symmetric]
    by (simp add: link_def user_link_def)
  then show ?thesis using g1 g2(1-3) n1 by auto
qed

lemma inserted_leaves:
  fixes s :: nat
  assumes wf: "wf_graph g" and v: "v \<in> set (vertices g)" and c: "\<And>i. c \<noteq> C_BtrfsQgroup i"
  defines "w \<equiv> dg_next g"
  defines "ns \<equiv> nodes g @ [(w, s, c)]"
  shows "filter (leaves_at ns v) (inserted v w g) = [user_link v w]"
    and "filter (leaves_at ns w) (inserted v w g) = List.map (from_to w) (filter (leaves_at (nodes g) v) (links g))"
    and "filter (\<lambda>l. \<not> leaves_at ns w l) (inserted v w g)
      = filter (\<lambda>l. \<not> leaves_at (nodes g) v l) (links g) @ [user_link v w]"
proof -
  let ?P = "leaves_at (nodes g) v" and ?L = "links g"
  have vw: "v \<noteq> w" using fresh_vertex(2) [OF wf v] by (simp add: w_def)
  have old: "leaves_at ns u l = leaves_at (nodes g) u l" "classic ns l = classic (nodes g) l" "fst l \<noteq> w"
    if "l \<in> set ?L" for u l
  proof -
    show "leaves_at ns u l = leaves_at (nodes g) u l" "classic ns l = classic (nodes g) l"
      unfolding ns_def using classic_append link_ends(2) [OF wf that] by blast+
    show "fst l \<noteq> w" using link_ends(1) [OF wf that] fresh_vertex(1) [OF wf] unfolding w_def by metis
  qed
  have "map_of ns w = Some (s, c)"
  proof -
    have "map_of (nodes g) w = None" using fresh_vertex(1) [OF wf] by (simp add: map_of_eq_None_iff w_def)
    then show ?thesis by (simp add: ns_def map_add_def)
  qed
  then have user: "leaves_at ns v (user_link v w)" "\<not> leaves_at ns w (user_link v w)"
    using vw c by (cases c; simp add: leaves_at_def classic_def user_link_def)+
  have moved: "\<not> leaves_at ns v (from_to w l)" "?P l \<Longrightarrow> l \<in> set ?L \<Longrightarrow> leaves_at ns w (from_to w l)" for l
  proof -
    show "\<not> leaves_at ns v (from_to w l)" using vw by (simp add: leaves_at_def from_to_def)
    assume l: "?P l" "l \<in> set ?L"
    then have "classic ns l" using old(2) by (simp add: leaves_at_def)
    then show "leaves_at ns w (from_to w l)" by (simp add: leaves_at_def from_to_def classic_def)
  qed
  have "filter (leaves_at ns v) (filter (\<lambda>l. \<not> ?P l) ?L) = []" using old(1) by (auto simp: filter_empty_conv)
  moreover have "filter (leaves_at ns w) (filter (\<lambda>l. \<not> ?P l) ?L) = []"
    using old(3) by (auto simp: filter_empty_conv leaves_at_def)
  moreover have "filter (\<lambda>l. \<not> leaves_at ns w l) (filter (\<lambda>l. \<not> ?P l) ?L) = filter (\<lambda>l. \<not> ?P l) ?L"
    by (rule filter_True) (use old(3) in \<open>auto simp: leaves_at_def\<close>)
  moreover have "filter (leaves_at ns v) (List.map (from_to w) (filter ?P ?L)) = []"
    using moved(1) by (auto simp: filter_empty_conv)
  moreover have "filter (leaves_at ns w) (List.map (from_to w) (filter ?P ?L)) = List.map (from_to w) (filter ?P ?L)"
    using moved(2) by (auto simp: filter_id_conv)
  moreover have "filter (\<lambda>l. \<not> leaves_at ns w l) (List.map (from_to w) (filter ?P ?L)) = []"
    using moved(2) by (auto simp: filter_empty_conv)
  ultimately show "filter (leaves_at ns v) (inserted v w g) = [user_link v w]"
    "filter (leaves_at ns w) (inserted v w g) = List.map (from_to w) (filter ?P ?L)"
    "filter (\<lambda>l. \<not> leaves_at ns w l) (inserted v w g) = filter (\<lambda>l. \<not> ?P l) ?L @ [user_link v w]"
    using user by (simp_all add: inserted_def)
qed

text \<open>Hooks keep everything the graph looks at.\<close>

lemma hook_same:
  assumes "graph_hook h" and "wf_graph g"
  shows "wf_graph (h v g)" and "nodes (h v g) = nodes g" and "links (h v g) = links g"
    and "children (h v g) view u = children g view u"
proof -
  have same: "nodes (h v g) = nodes g" "dg_edges (h v g) = dg_edges g" "dg_next (h v g) = dg_next g"
    using assms(1) by (simp_all add: graph_hook_def)
  show "wf_graph (h v g)" by (rule nodes_wf [OF assms(2) same])
  show "nodes (h v g) = nodes g" "links (h v g) = links g" using same by (simp_all add: links_def)
  have cls: "map_option d_class (device_at (h v g) x) = map_option d_class (device_at g x)" for x
    by (rule nodes_device(2) [OF same(1)])
  have "vertex_filter (h v g) view x = vertex_filter g view x" for x
    using cls [of x] by (cases "device_at (h v g) x"; cases "device_at g x")
      (auto simp: vertex_filter_def device_in_view_def)
  moreover have "holder_in_view (h v g) view e = holder_in_view g view e" for e
    unfolding holder_in_view_def snapshot_in_view_def relation_in_view_def cls ..
  ultimately show "children (h v g) view u = children g view u"
    by (simp add: children_def out_edges_def out_edges_view_def same(2))
qed

lemma inserted_children:
  assumes wf: "wf_graph g" and v: "v \<in> set (vertices g)" and c: "\<And>i. d_class d \<noteq> C_BtrfsQgroup i"
    and n: "nodes g' = nodes g @ [(dg_next g, d_sid d, d_class d)]" and l: "links g' = inserted v (dg_next g) g"
  shows "children g' VIEW_CLASSIC v = [dg_next g]" and "children g' VIEW_CLASSIC (dg_next g) = children g VIEW_CLASSIC v"
  unfolding children_links n l inserted_leaves [OF wf v c]
  by (simp_all add: user_link_def from_to_def comp_def)

lemma create_encryption_result:
  assumes wf: "wf_graph g" and v: "v \<in> set (vertices g)" and fresh: "d_sid d \<notin> get_device_sids g"
    and hooks: "graph_hook np" "graph_hook mb" "graph_hook nr"
  obtains g' where "create_encryption np mb nr (Some d) v g = Inr (dg_next g, g')" and "wf_graph g'"
    and "nodes g' = nodes g @ [(dg_next g, d_sid d, d_class d)]" and "links g' = inserted v (dg_next g) g"
proof -
  let ?w = "dg_next g"
  obtain i g1 g2 where g2: "add_edge v ?w \<lparr>h_class = C_User, h_attrs = []\<rparr> (snd (add_vertex d g)) = Inr (i, g1)"
    "move_sources np (List.map e_id (out_edges g VIEW_CLASSIC v)) ?w g1 = Inr g2" "wf_graph g2"
    "nodes g2 = nodes g @ [(?w, d_sid d, d_class d)]" "links g2 = inserted v ?w g"
    using insert_layer [OF wf v fresh hooks(1)] by metis
  have "fst (add_vertex d g) = ?w" by (simp add: add_vertex_def)
  then have "create_encryption np mb nr (Some d) v g = Inr (?w, nr ?w (mb ?w g2))"
    using g2(1,2) by (simp add: create_encryption_def Let_def case_prod_unfold)
  moreover note mb = hook_same [OF hooks(2) g2(3), of ?w] and nr = hook_same [OF hooks(3) mb(1), of ?w]
  ultimately show thesis using that nr(1-3) mb(2,3) g2(4,5) by simp
qed

lemma create_bcache_result:
  assumes wf: "wf_graph g" and v: "v \<in> set (vertices g)" and fresh: "d_sid d \<notin> get_device_sids g"
    and hooks: "graph_hook np" "graph_hook nr"
  obtains g' where "create_bcache np nr d v g = Inr (dg_next g, g')" and "wf_graph g'"
    and "nodes g' = nodes g @ [(dg_next g, d_sid d, d_class d)]" and "links g' = inserted v (dg_next g) g"
proof -
  let ?w = "dg_next g"
  obtain i g1 g2 where g2: "add_edge v ?w \<lparr>h_class = C_User, h_attrs = []\<rparr> (snd (add_vertex d g)) = Inr (i, g1)"
    "move_sources np (List.map e_id (out_edges g VIEW_CLASSIC v)) ?w g1 = Inr g2" "wf_graph g2"
    "nodes g2 = nodes g @ [(?w, d_sid d, d_class d)]" "links g2 = inserted v ?w g"
    using insert_layer [OF wf v fresh hooks(1)] by metis
  have "fst (add_vertex d g) = ?w" by (simp add: add_vertex_def)
  then have "create_bcache np nr d v g = Inr (?w, nr ?w g2)"
    using g2(1,2) by (simp add: create_bcache_def Let_def case_prod_unfold)
  then show thesis using that hook_same [OF hooks(2) g2(3), of ?w] g2(4,5) by simp
qed

text \<open>
  C13: A new encryption or bcache comes between its device and what was on it: it is the only child of
  the device, and it has the former children of the device, in the same order. Everything else stays:
  the devices are the old ones (vertex, sid and class) and the new layer, and of the holders only
  those change that leave the device in the classic view. They leave the layer now, with their target,
  class and attributes (\<open>from_to\<close>); a user from the device to the layer is the only new one
  (\<open>inserted\<close>). The graph stays well-formed. The names, mount-by methods and numbers that the creation
  sets are parameters that change only attributes of devices.
\<close>

theorem created_layer_between:
  assumes "wf_graph g" and "v \<in> set (vertices g)" and "d_sid d \<notin> get_device_sids g"
    and "\<And>i. d_class d \<noteq> C_BtrfsQgroup i" and "graph_hook np" and "graph_hook mb" and "graph_hook nr"
  shows "\<exists>w g1 g2. create_encryption np mb nr (Some d) v g = Inr (w, g1) \<and> create_bcache np nr d v g = Inr (w, g2) \<and>
    w \<notin> set (vertices g) \<and> wf_graph g1 \<and> wf_graph g2 \<and>
    children g1 VIEW_CLASSIC v = [w] \<and> children g1 VIEW_CLASSIC w = children g VIEW_CLASSIC v \<and>
    children g2 VIEW_CLASSIC v = [w] \<and> children g2 VIEW_CLASSIC w = children g VIEW_CLASSIC v \<and>
    nodes g1 = nodes g @ [(w, d_sid d, d_class d)] \<and> links g1 = inserted v w g \<and>
    nodes g2 = nodes g @ [(w, d_sid d, d_class d)] \<and> links g2 = inserted v w g"
proof -
  obtain g1 where g1: "create_encryption np mb nr (Some d) v g = Inr (dg_next g, g1)" "wf_graph g1"
    "nodes g1 = nodes g @ [(dg_next g, d_sid d, d_class d)]" "links g1 = inserted v (dg_next g) g"
    by (rule create_encryption_result [OF assms(1-3,5-7)])
  obtain g2 where g2: "create_bcache np nr d v g = Inr (dg_next g, g2)" "wf_graph g2"
    "nodes g2 = nodes g @ [(dg_next g, d_sid d, d_class d)]" "links g2 = inserted v (dg_next g) g"
    by (rule create_bcache_result [OF assms(1-3,5,7)])
  have "dg_next g \<notin> set (vertices g)" using fresh_vertex(1) [OF assms(1)] by (simp add: vertices_nodes)
  with inserted_children [OF assms(1,2,4) g1(3,4)] inserted_children [OF assms(1,2,4) g2(3,4)] g1 g2
  show ?thesis by blast
qed

definition demo_lv :: device where
  "demo_lv = \<lparr>d_sid = 50, d_class = C_Device ''Luks'', d_attrs = []\<rparr>"

lemma graph_hook_id: "graph_hook (\<lambda>_ g. g)"
  by (simp add: graph_hook_def)

lemma demo_layer: "0 \<in> set (vertices demo_graph)" "d_sid demo_lv \<notin> get_device_sids demo_graph"
  "d_class demo_lv \<noteq> C_BtrfsQgroup i"
  by (simp_all add: vertices_def demo_graph_def get_device_sids_def demo_lv_def demo_device_def)

lemma created_layer_between_witness:
  "\<exists>w g1 g2. create_encryption (\<lambda>_ g. g) (\<lambda>_ g. g) (\<lambda>_ g. g) (Some demo_lv) 0 demo_graph = Inr (w, g1) \<and>
    create_bcache (\<lambda>_ g. g) (\<lambda>_ g. g) demo_lv 0 demo_graph = Inr (w, g2) \<and>
    w \<notin> set (vertices demo_graph) \<and> wf_graph g1 \<and> wf_graph g2 \<and>
    children g1 VIEW_CLASSIC 0 = [w] \<and> children g1 VIEW_CLASSIC w = children demo_graph VIEW_CLASSIC 0 \<and>
    children g2 VIEW_CLASSIC 0 = [w] \<and> children g2 VIEW_CLASSIC w = children demo_graph VIEW_CLASSIC 0 \<and>
    nodes g1 = nodes demo_graph @ [(w, d_sid demo_lv, d_class demo_lv)] \<and> links g1 = inserted 0 w demo_graph \<and>
    nodes g2 = nodes demo_graph @ [(w, d_sid demo_lv, d_class demo_lv)] \<and> links g2 = inserted 0 w demo_graph"
  by (rule created_layer_between [OF demo_graph_wf demo_layer graph_hook_id graph_hook_id graph_hook_id])

text \<open>
  C14: Removing an encryption that was just created gives the graph from before: the same devices and
  the same holders between them, including those that are not in the classic view, like the
  snapshots of a logical volume.
\<close>

theorem encryption_removed_again:
  assumes "wf_graph g" and "v \<in> set (vertices g)" and "d_sid d \<notin> get_device_sids g"
    and "\<And>i. d_class d \<noteq> C_BtrfsQgroup i" and "graph_hook np" and "graph_hook mb" and "graph_hook nr"
    and "is_encryption (d_class d)"
  shows "\<exists>w g1 g2. create_encryption np mb nr (Some d) v g = Inr (w, g1) \<and>
    remove_encryption np is_encryption v g1 = Inr g2 \<and> wf_graph g2 \<and> nodes g2 = nodes g \<and>
    mset (links g2) = mset (links g)"
proof -
  let ?w = "dg_next g" and ?P = "leaves_at (nodes g) v"
  obtain g1 where g1: "create_encryption np mb nr (Some d) v g = Inr (?w, g1)" "wf_graph g1"
    "nodes g1 = nodes g @ [(?w, d_sid d, d_class d)]" "links g1 = inserted v ?w g"
    by (rule create_encryption_result [OF assms(1-3,5-7)])
  note lv = inserted_leaves [OF assms(1,2,4), of "d_sid d", folded g1(3,4)]
  have vw: "?w \<noteq> v" using fresh_vertex(2) [OF assms(1,2)] by simp
  have nw: "map_of (nodes g) ?w = None" using fresh_vertex(1) [OF assms(1)] by (simp add: map_of_eq_None_iff)
  then have "map_of (nodes g1) ?w = Some (d_sid d, d_class d)" by (simp add: g1(3) map_add_def)
  then obtain d' where "device_at g1 ?w = Some d'" "d_class d' = d_class d"
    unfolding nodes_class by auto
  then have child: "get_single_child is_encryption g1 v = Inr ?w"
    using child_links [OF inserted_children(1) [OF assms(1,2,4) g1(3,4)]] assms(8)
    by (simp add: get_single_child_def)
  have vin: "v \<in> set (vertices g1)" using assms(2) by (simp add: vertices_nodes g1(3))
  have "\<exists>g2. move_sources np (List.map e_id (out_edges g1 VIEW_CLASSIC ?w)) v g1 = Inr g2 \<and> wf_graph g2 \<and>
      nodes g2 = nodes g1 \<and> links g2 = filter (\<lambda>l. \<not> leaves_at (nodes g1) ?w l) (links g1)
        @ List.map (from_to v) (filter (leaves_at (nodes g1) ?w) (links g1))"
  proof (rule move_all [OF g1(2) assms(5) vin vw], intro ballI impI)
    fix l k assume l: "l \<in> set (links g1)" "leaves_at (nodes g1) ?w l" and k: "k \<in> set (links g1)" "fst k = v"
      and same: "fst (snd k) = fst (snd l)"
    have "l \<in> set (List.map (from_to ?w) (filter ?P (links g)))" unfolding lv(2) [symmetric] using l by simp
    then obtain l' where l': "l' \<in> set (links g)" "?P l'" "l = from_to ?w l'" by auto
    then have t: "fst (snd l) \<noteq> ?w" using link_ends(2) [OF assms(1) l'(1)] fresh_vertex(1) [OF assms(1)]
      by (metis from_to_def snd_conv)
    have "k \<in> set (filter (\<lambda>l. \<not> leaves_at (nodes g1) ?w l) (links g1))"
      using k vw by (auto simp: leaves_at_def)
    then have "k \<in> set (links g) \<and> \<not> ?P k" using t same unfolding lv(3) by (auto simp: user_link_def)
    then have "\<not> classic (nodes g) k" using k(2) by (simp add: leaves_at_def)
    moreover have "classic (nodes g) l'" using l'(2) by (simp add: leaves_at_def)
    ultimately show "h_class (snd (snd k)) \<noteq> h_class (snd (snd l))"
      using same unfolding classic_def l'(3) from_to_def by auto
  qed
  then obtain g2 where g2: "move_sources np (List.map e_id (out_edges g1 VIEW_CLASSIC ?w)) v g1 = Inr g2" "wf_graph g2"
    "nodes g2 = nodes g1" "links g2 = (filter (\<lambda>l. \<not> ?P l) (links g) @ [user_link v ?w])
      @ List.map (from_to v) (List.map (from_to ?w) (filter ?P (links g)))"
    unfolding lv(2,3) by blast
  have "List.map (from_to v) (List.map (from_to ?w) (filter ?P (links g))) = filter ?P (links g)"
    unfolding map_map by (rule map_idI) (auto simp: from_to_def leaves_at_def)
  then have l2: "links g2 = filter (\<lambda>l. \<not> ?P l) (links g) @ user_link v ?w # filter ?P (links g)"
    using g2(4) by simp
  have "links (remove_vertex ?w g2) = filter (\<lambda>l. fst l \<noteq> ?w \<and> fst (snd l) \<noteq> ?w) (links g2)"
    by (simp add: links_def remove_vertex_def link_def filter_map comp_def)
  also have "\<dots> = filter (\<lambda>l. \<not> ?P l) (links g) @ filter ?P (links g)"
  proof -
    have "fst l \<noteq> ?w \<and> fst (snd l) \<noteq> ?w" if "l \<in> set (links g)" for l
      using link_ends [OF assms(1) that] fresh_vertex(1) [OF assms(1)] by metis
    then have keep: "filter (\<lambda>l. fst l \<noteq> ?w \<and> fst (snd l) \<noteq> ?w) (filter Q (links g)) = filter Q (links g)" for Q
      by (intro filter_True) simp
    show ?thesis unfolding l2 filter_append filter.simps keep by (simp add: user_link_def)
  qed
  finally have "mset (links (remove_vertex ?w g2)) = mset (links g)" by simp
  moreover have "nodes (remove_vertex ?w g2) = nodes g"
  proof -
    have "nodes (remove_vertex ?w g2) = filter (\<lambda>n. fst n \<noteq> ?w) (nodes g2)"
      by (simp add: nodes_def remove_vertex_def filter_map comp_def case_prod_unfold)
    also have "\<dots> = nodes g"
      using fresh_vertex(1) [OF assms(1)] by (force simp: g2(3) g1(3) filter_id_conv)
    finally show ?thesis .
  qed
  moreover have "remove_encryption np is_encryption v g1 = Inr (remove_vertex ?w g2)"
    by (simp add: remove_encryption_def child g2(1))
  ultimately show ?thesis using g1(1) wf_remove_vertex [OF g2(2)] by blast
qed

lemma encryption_removed_again_witness:
  "\<exists>w g1 g2. create_encryption (\<lambda>_ g. g) (\<lambda>_ g. g) (\<lambda>_ g. g) (Some demo_lv) 0 demo_graph = Inr (w, g1) \<and>
    remove_encryption (\<lambda>_ g. g) (\<lambda>c. c = C_Device ''Luks'') 0 g1 = Inr g2 \<and> wf_graph g2 \<and>
    nodes g2 = nodes demo_graph \<and> mset (links g2) = mset (links demo_graph)"
  by (rule encryption_removed_again [OF demo_graph_wf demo_layer graph_hook_id graph_hook_id graph_hook_id])
    (simp add: demo_lv_def)

end
