(* ===== verification/ConfigText.thy ===== *)
theory ConfigText
  imports Prelude "HOL-Library.Sublist"
begin

text \<open>
  Strings as the parsers of the configuration files treat them: white space, prefixes, splitting
  and replacing as in the string algorithms of boost, and the octal escapes of fstab(5) and
  crypttab(5).
\<close>

section \<open>White space and splitting\<close>

definition is_ws :: "char \<Rightarrow> bool" where
  "is_ws c \<longleftrightarrow> c = CHR '' '' \<or> c = CHR 0x09"

definition backslash :: char where
  "backslash = CHR 0x5C"

definition strip_trailing :: "string \<Rightarrow> string" where
  "strip_trailing s = rev (dropWhile is_ws (rev s))"

text \<open>The position of the first occurrence.\<close>

fun find_sub :: "string \<Rightarrow> string \<Rightarrow> nat option" where
  "find_sub pat s =
     (if prefix pat s then Some 0
      else case s of [] \<Rightarrow> None | c # cs \<Rightarrow> map_option Suc (find_sub pat cs))"

declare find_sub.simps [simp del]

text \<open>
  \<open>boost::split\<close> with \<open>token_compress_on\<close>: a run of separators is one separator, but one at the
  start or the end of the text has an empty token beside it.
\<close>

function split_any :: "(char \<Rightarrow> bool) \<Rightarrow> string \<Rightarrow> string list" where
  "split_any d s =
     (let t = takeWhile (\<lambda>c. \<not> d c) s; r = dropWhile (\<lambda>c. \<not> d c) s
      in if r = [] then [t] else t # split_any d (dropWhile d r))"
  by pat_completeness auto

termination
proof (relation "measure (\<lambda>(d, s). length s)")
  show "wf (measure (\<lambda>(d, s). length s))" by simp
  fix d s t r
  assume "t = takeWhile (\<lambda>c. \<not> d c) s" and r: "r = dropWhile (\<lambda>c. \<not> d c) s" "r \<noteq> []"
  from r(2) obtain c cs where c: "r = c # cs" by (cases r) auto
  have "\<not> \<not> d (hd r)" unfolding r(1) by (rule hd_dropWhile) (use r in simp)
  then have "length (dropWhile d r) \<le> length cs" using c length_dropWhile_le [of d cs] by simp
  also have "length cs < length s" using length_dropWhile_le [of "\<lambda>c. \<not> d c" s] unfolding r(1) [symmetric] c by simp
  finally show "((d, dropWhile d r), d, s) \<in> measure (\<lambda>(d, s). length s)" by simp
qed

declare split_any.simps [simp del]

text \<open>\<open>boost::replace_all\<close>: from left to right, not inside what was put in.\<close>

function replace_all :: "string \<Rightarrow> string \<Rightarrow> string \<Rightarrow> string" where
  "replace_all pat rep s =
     (if pat \<noteq> [] \<and> prefix pat s then rep @ replace_all pat rep (drop (length pat) s)
      else case s of [] \<Rightarrow> [] | c # cs \<Rightarrow> c # replace_all pat rep cs)"
  by pat_completeness auto

termination
  by (relation "measure (\<lambda>(pat, rep, s). length s)") (auto simp: prefix_def)

declare replace_all.simps [simp del]

text \<open>A list of texts with a separator, which is left out while the result is empty.\<close>

fun join_from :: "string \<Rightarrow> string \<Rightarrow> string list \<Rightarrow> string" where
  "join_from sep result [] = result"
| "join_from sep result (s # ss) = join_from sep ((if result \<noteq> [] then result @ sep else result) @ s) ss"

section \<open>Facts\<close>

lemma replace_all_Nil [simp]: "replace_all pat rep [] = []"
  by (subst replace_all.simps) auto

lemma split_any_no_sep: "\<forall>c \<in> set s. \<not> d c \<Longrightarrow> split_any d s = [s]"
  by (subst split_any.simps) (simp add: Let_def)

lemma split_any_cons:
  assumes "\<forall>c \<in> set t. \<not> d c" and "seps \<noteq> []" and "\<forall>c \<in> set seps. d c"
    and "s = [] \<or> \<not> d (hd s)"
  shows "split_any d (t @ seps @ s) = t # split_any d s"
proof -
  have ne: "dropWhile (\<lambda>c. \<not> d c) (seps @ s) = seps @ s" "takeWhile (\<lambda>c. \<not> d c) (seps @ s) = []"
    using assms(2,3) by (cases seps, simp_all)+
  have t: "takeWhile (\<lambda>c. \<not> d c) (t @ seps @ s) = t" "dropWhile (\<lambda>c. \<not> d c) (t @ seps @ s) = seps @ s"
    using assms(1) ne by simp_all
  have "dropWhile d (seps @ s) = dropWhile d s" using assms(3) by simp
  also have "\<dots> = s" using assms(4) by (cases s) auto
  finally show ?thesis using t assms(2) by (subst split_any.simps) (simp add: Let_def)
qed

lemma join_from_eq:
  "result \<noteq> [] \<Longrightarrow> join_from sep result ss = result @ concat (map (\<lambda>s. sep @ s) ss)"
  by (induction ss arbitrary: result) auto

text \<open>Splitting undoes joining with separators.\<close>

lemma split_join:
  assumes "\<forall>t \<in> set (t # ts). t \<noteq> [] \<and> (\<forall>c \<in> set t. \<not> d c)" and "sep \<noteq> []" and "\<forall>c \<in> set sep. d c"
  shows "split_any d (join_from sep [] (t # ts)) = t # ts"
proof -
  have "split_any d (t @ concat (map (\<lambda>s. sep @ s) ts)) = t # ts"
    using assms(1)
  proof (induction ts arbitrary: t)
    case Nil
    then show ?case by (simp add: split_any_no_sep)
  next
    case (Cons u us)
    have "hd (u @ concat (map (\<lambda>s. sep @ s) us)) = hd u" using Cons.prems by simp
    then have "\<not> d (hd (u @ concat (map (\<lambda>s. sep @ s) us)))" using Cons.prems by simp
    then have "split_any d (t @ sep @ (u @ concat (map (\<lambda>s. sep @ s) us)))
        = t # split_any d (u @ concat (map (\<lambda>s. sep @ s) us))"
      using Cons.prems assms(2,3) by (intro split_any_cons) auto
    then show ?case using Cons.IH [of u] Cons.prems by simp
  qed
  then show ?thesis using assms(1) by (simp add: join_from_eq)
qed

end
