(* ===== verification/Escapes.thy ===== *)
theory Escapes
  imports ConfigText
begin

text \<open>
  The escapes of /etc/fstab and /etc/crypttab (EtcFstab::encode, decode in storage/EtcFstab.cc and
  EtcCrypttab.cc): sequences of replacements over the whole text. They are compared with a coding
  character by character. Decoding undoes encoding unless the text itself has a backslash followed
  by one of the codes.
\<close>

section \<open>Definitions\<close>

definition fstab_encode :: "string \<Rightarrow> string" where
  "fstab_encode s =
     (let s = replace_all [backslash] [backslash, backslash] s;
          s = replace_all [CHR 0x09] (backslash # ''011'') s;
          s = replace_all [CHR 0x0A] (backslash # ''012'') s
      in replace_all '' '' (backslash # ''040'') s)"

definition fstab_decode :: "string \<Rightarrow> string" where
  "fstab_decode s =
     (let s = replace_all (backslash # ''011'') [CHR 0x09] s;
          s = replace_all (backslash # ''012'') [CHR 0x0A] s;
          s = replace_all (backslash # ''040'') '' '' s;
          s = replace_all (backslash # ''134'') [backslash] s;
          s = replace_all (backslash # ''043'') ''#'' s
      in replace_all [backslash, backslash] [backslash] s)"

definition crypttab_encode :: "string \<Rightarrow> string" where
  "crypttab_encode s =
     (let s = replace_all [backslash] [backslash, backslash] s
      in replace_all '' '' (backslash # ''040'') s)"

definition crypttab_decode :: "string \<Rightarrow> string" where
  "crypttab_decode s =
     (let s = replace_all (backslash # ''040'') '' '' s;
          s = replace_all (backslash # ''043'') ''#'' s
      in replace_all [backslash, backslash] [backslash] s)"

section \<open>Codings\<close>

lemma replace_char:
  "replace_all [c] rep s = concat (map (\<lambda>x. if x = c then rep else [x]) s)"
  by (induction s) (auto simp: replace_all.simps [where s = "_ # _"])

text \<open>A code for every character: itself, an escape of four characters, or a doubled backslash.\<close>

definition escape_code :: "(char \<Rightarrow> string) \<Rightarrow> bool" where
  "escape_code f \<longleftrightarrow> f backslash = [backslash, backslash] \<and>
     (\<forall>c. c \<noteq> backslash \<longrightarrow> f c = [c] \<or> (\<exists>q. f c = backslash # q \<and> length q = 3 \<and> backslash \<notin> set q))"

lemma escape_code_cases:
  assumes "escape_code f"
  obtains "c = backslash" "f c = [backslash, backslash]"
    | "c \<noteq> backslash" "f c = [c]"
    | q where "c \<noteq> backslash" "f c = backslash # q" "length q = 3" "backslash \<notin> set q"
proof (cases "c = backslash")
  case True
  then have "f c = [backslash, backslash]" using assms unfolding escape_code_def by blast
  with True show ?thesis by (rule that(1))
next
  case False
  then have "f c = [c] \<or> (\<exists>q. f c = backslash # q \<and> length q = 3 \<and> backslash \<notin> set q)"
    using assms unfolding escape_code_def by blast
  then show ?thesis
  proof (elim disjE exE conjE)
    assume "f c = [c]"
    then show ?thesis by (rule that(2) [OF False])
  next
    fix q assume "f c = backslash # q" "length q = 3" "backslash \<notin> set q"
    then show ?thesis by (rule that(3) [OF False])
  qed
qed

lemma prefix_code:
  assumes "escape_code f" and "backslash \<notin> set p" and "prefix p (concat (map f s))"
  shows "prefix p s"
  using assms(2,3)
proof (induction p arbitrary: s)
  case Nil
  then show ?case by simp
next
  case (Cons a p)
  show ?case
  proof (cases s)
    case Nil
    then show ?thesis using Cons.prems by simp
  next
    case s: (Cons c cs)
    have b: "a \<noteq> backslash" "backslash \<notin> set p" using Cons.prems(1) by auto
    show ?thesis
    proof (rule escape_code_cases [OF assms(1), where c = c])
      assume "c \<noteq> backslash" "f c = [c]"
      then have "a = c \<and> prefix p (concat (map f cs))" using Cons.prems(2) s by simp
      then show ?thesis using Cons.IH [OF b(2)] s by simp
    next
      assume "f c = [backslash, backslash]"
      then show ?thesis using Cons.prems(2) s b(1) by simp
    next
      fix q assume "f c = backslash # q"
      then show ?thesis using Cons.prems(2) s b(1) by simp
    qed
  qed
qed

lemma replace_escape:
  assumes f: "escape_code f" and p: "length p = 3" "backslash \<notin> set p"
    and "\<not> sublist (backslash # p) s"
  shows "replace_all (backslash # p) rep (concat (map f s))
    = concat (map (\<lambda>x. if f x = backslash # p then rep else f x) s)"
  using assms(4)
proof (induction s)
  case Nil
  then show ?case by (simp add: replace_all_Nil)
next
  case (Cons c s)
  have no: "\<not> sublist (backslash # p) s" using Cons.prems by (auto simp: sublist_Cons_right)
  note ih = Cons.IH [OF no]
  show ?case
  proof (rule escape_code_cases [OF f, where c = c])
    assume 1: "c = backslash" "f c = [backslash, backslash]"
    have "\<not> prefix (backslash # p) (c # s)" using Cons.prems by (auto simp: sublist_Cons_right)
    then have "\<not> prefix p (concat (map f s))" using prefix_code [OF f p(2)] 1(1) by auto
    moreover have "\<not> prefix p (backslash # concat (map f s))" using p by (cases p) auto
    ultimately have "replace_all (backslash # p) rep (backslash # backslash # concat (map f s))
        = backslash # backslash # replace_all (backslash # p) rep (concat (map f s))"
      by (subst replace_all.simps, simp, subst replace_all.simps, simp)
    then show ?thesis using ih 1 p(1) by auto
  next
    assume "c \<noteq> backslash" "f c = [c]"
    then show ?thesis using ih by (subst replace_all.simps) simp
  next
    fix q assume 3: "c \<noteq> backslash" "f c = backslash # q" "length q = 3" "backslash \<notin> set q"
    show ?thesis
    proof (cases "q = p")
      case True
      have d: "drop 3 (p @ concat (map f s)) = concat (map f s)" using p(1) by simp
      have "replace_all (backslash # p) rep (backslash # p @ concat (map f s))
          = rep @ replace_all (backslash # p) rep (concat (map f s))"
        using p(1) d by (subst replace_all.simps) simp
      then show ?thesis using ih 3 True by simp
    next
      case False
      have "\<not> prefix p (q @ concat (map f s))" using False 3(3) p(1) by (auto simp: prefix_def append_eq_append_conv)
      then have "replace_all (backslash # p) rep (backslash # q @ concat (map f s))
          = backslash # replace_all (backslash # p) rep (q @ concat (map f s))"
        by (subst replace_all.simps) simp
      also have "replace_all (backslash # p) rep (q @ concat (map f s))
          = q @ replace_all (backslash # p) rep (concat (map f s))"
        using 3(4) by (induction q) (auto simp: replace_all.simps [where s = "_ # _"])
      finally show ?thesis using ih 3 False by simp
    qed
  qed
qed

lemma replace_double:
  "replace_all [backslash, backslash] [backslash]
     (concat (map (\<lambda>c. if c = backslash then [backslash, backslash] else [c]) s)) = s"
proof (induction s)
  case Nil
  then show ?case by (simp add: replace_all_Nil)
next
  case (Cons c s)
  then show ?case by (cases "c = backslash") (simp_all add: replace_all.simps [where s = "_ # _"])
qed

section \<open>Round trips\<close>

definition fstab_code :: "char \<Rightarrow> string" where
  "fstab_code c =
     (if c = backslash then [backslash, backslash]
      else if c = CHR 0x09 then backslash # ''011''
      else if c = CHR 0x0A then backslash # ''012''
      else if c = CHR '' '' then backslash # ''040''
      else [c])"

lemma concat_map_map: "concat (map g (concat (map f s))) = concat (map (\<lambda>c. concat (map g (f c))) s)"
  by (induction s) simp_all

lemma fstab_encode_code: "fstab_encode s = concat (map fstab_code s)"
proof -
  have "fstab_encode s = concat (map (\<lambda>c. concat (map (\<lambda>c. concat (map (\<lambda>c. concat (map
      (\<lambda>x. if x = CHR '' '' then backslash # ''040'' else [x])
      (if c = CHR 0x0A then backslash # ''012'' else [c])))
      (if c = CHR 0x09 then backslash # ''011'' else [c])))
      (if c = backslash then [backslash, backslash] else [c]))) s)"
    by (simp add: fstab_encode_def replace_char concat_map_map)
  also have "\<dots> = concat (map fstab_code s)"
    by (intro arg_cong [of _ _ concat] map_cong refl) (simp add: fstab_code_def backslash_def)
  finally show ?thesis .
qed

text \<open>The escapes that decoding looks for.\<close>

definition no_escape :: "string list \<Rightarrow> string \<Rightarrow> bool" where
  "no_escape codes s \<longleftrightarrow> (\<forall>p \<in> set codes. \<not> sublist (backslash # p) s)"

definition fstab_codes :: "string list" where
  "fstab_codes = [''011'', ''012'', ''040'', ''134'', ''043'']"

lemma replace_code:
  assumes "escape_code f" and "length p = 3" and "backslash \<notin> set p" and "\<not> sublist (backslash # p) s"
    and "\<And>x. (if f x = backslash # p then rep else f x) = g x"
  shows "replace_all (backslash # p) rep (concat (map f s)) = concat (map g s)"
  using replace_escape [OF assms(1-4)] assms(5) by simp

lemma fstab_roundtrip:
  assumes "no_escape fstab_codes s"
  shows "fstab_decode (fstab_encode s) = s"
proof -
  define f1 where "f1 = fstab_code (CHR 0x09 := [CHR 0x09])"
  define f2 where "f2 = f1 (CHR 0x0A := [CHR 0x0A])"
  define f3 where "f3 = f2 (CHR '' '' := '' '')"
  have no: "\<not> sublist (backslash # p) s" if "p \<in> {''011'', ''012'', ''040'', ''134'', ''043''}" for p
    using assms that unfolding no_escape_def fstab_codes_def by auto
  have ec: "escape_code fstab_code" "escape_code f1" "escape_code f2" "escape_code f3"
    by (simp_all add: escape_code_def f1_def f2_def f3_def fstab_code_def backslash_def)
  have f3: "f3 = (\<lambda>c. if c = backslash then [backslash, backslash] else [c])"
    by (simp add: fun_eq_iff f1_def f2_def f3_def fstab_code_def backslash_def)
  have 1: "replace_all (backslash # ''011'') [CHR 0x09] (concat (map fstab_code s)) = concat (map f1 s)"
    by (rule replace_code [OF ec(1) _ _ no]) (auto simp: f1_def fstab_code_def backslash_def)
  have 2: "replace_all (backslash # ''012'') [CHR 0x0A] (concat (map f1 s)) = concat (map f2 s)"
    by (rule replace_code [OF ec(2) _ _ no]) (auto simp: f1_def f2_def fstab_code_def backslash_def)
  have 3: "replace_all (backslash # ''040'') '' '' (concat (map f2 s)) = concat (map f3 s)"
    by (rule replace_code [OF ec(3) _ _ no]) (auto simp: f1_def f2_def f3_def fstab_code_def backslash_def)
  have 4: "replace_all (backslash # ''134'') [backslash] (concat (map f3 s)) = concat (map f3 s)"
    by (rule replace_code [OF ec(4) _ _ no]) (auto simp: f3 backslash_def)
  have 5: "replace_all (backslash # ''043'') ''#'' (concat (map f3 s)) = concat (map f3 s)"
    by (rule replace_code [OF ec(4) _ _ no]) (auto simp: f3 backslash_def)
  show ?thesis
    unfolding fstab_decode_def fstab_encode_code Let_def 1 2 3 4 5 unfolding f3 by (rule replace_double)
qed

text \<open>What the encoding produces is a single column.\<close>

lemma fstab_encode_no_ws: "\<forall>c \<in> set (fstab_encode s). \<not> is_ws c"
  unfolding fstab_encode_code by (auto simp: fstab_code_def is_ws_def backslash_def split: if_splits)

lemma fstab_encode_Nil_iff: "fstab_encode s = [] \<longleftrightarrow> s = []"
  by (cases s) (auto simp: fstab_encode_code fstab_code_def)

lemma fstab_encode_hd: "s \<noteq> [] \<Longrightarrow> hd (fstab_encode s) = (if is_ws (hd s) \<or> hd s = CHR 0x0A then backslash else hd s)"
  by (cases s) (auto simp: fstab_encode_code fstab_code_def is_ws_def)

definition crypttab_code :: "char \<Rightarrow> string" where
  "crypttab_code c =
     (if c = backslash then [backslash, backslash]
      else if c = CHR '' '' then backslash # ''040''
      else [c])"

lemma crypttab_encode_code: "crypttab_encode s = concat (map crypttab_code s)"
proof -
  have "crypttab_encode s = concat (map (\<lambda>c. concat (map
      (\<lambda>x. if x = CHR '' '' then backslash # ''040'' else [x])
      (if c = backslash then [backslash, backslash] else [c]))) s)"
    by (simp add: crypttab_encode_def replace_char concat_map_map)
  also have "\<dots> = concat (map crypttab_code s)"
    by (intro arg_cong [of _ _ concat] map_cong refl) (simp add: crypttab_code_def backslash_def)
  finally show ?thesis .
qed

definition crypttab_codes :: "string list" where
  "crypttab_codes = [''040'', ''043'']"

lemma crypttab_roundtrip:
  assumes "no_escape crypttab_codes s"
  shows "crypttab_decode (crypttab_encode s) = s"
proof -
  define f where "f = crypttab_code (CHR '' '' := '' '')"
  have no: "\<not> sublist (backslash # p) s" if "p \<in> {''040'', ''043''}" for p
    using assms that unfolding no_escape_def crypttab_codes_def by auto
  have ec: "escape_code crypttab_code" "escape_code f"
    by (simp_all add: escape_code_def f_def crypttab_code_def backslash_def)
  have f: "f = (\<lambda>c. if c = backslash then [backslash, backslash] else [c])"
    by (simp add: fun_eq_iff f_def crypttab_code_def backslash_def)
  have 1: "replace_all (backslash # ''040'') '' '' (concat (map crypttab_code s)) = concat (map f s)"
    by (rule replace_code [OF ec(1) _ _ no]) (auto simp: f_def crypttab_code_def backslash_def)
  have 2: "replace_all (backslash # ''043'') ''#'' (concat (map f s)) = concat (map f s)"
    by (rule replace_code [OF ec(2) _ _ no]) (auto simp: f backslash_def)
  show ?thesis
    unfolding crypttab_decode_def crypttab_encode_code Let_def 1 2 unfolding f by (rule replace_double)
qed

text \<open>
  Decoding a field of /etc/fstab undoes encoding, for every text without a backslash that is
  followed by one of the codes 011, 012, 040, 134 and 043: blanks, tabs, newlines and backslashes
  alone or in pairs survive.
\<close>

theorem fstab_escape_roundtrip:
  assumes "no_escape fstab_codes s"
  shows "fstab_decode (fstab_encode s) = s"
  using assms by (rule fstab_roundtrip)

lemma fstab_escape_roundtrip_witness:
  "no_escape fstab_codes (''/my disk/'' @ [backslash, backslash, CHR 0x09])
    \<and> fstab_encode ''/my disk'' = ''/my'' @ backslash # ''040disk''
    \<and> fstab_decode (fstab_encode (''/my disk/'' @ [backslash, backslash, CHR 0x09]))
      = ''/my disk/'' @ [backslash, backslash, CHR 0x09]"
proof -
  have ok: "no_escape fstab_codes (''/my disk/'' @ [backslash, backslash, CHR 0x09])" by code_simp
  have "fstab_encode ''/my disk'' = ''/my'' @ backslash # ''040disk''" by code_simp
  then show ?thesis using ok fstab_escape_roundtrip [OF ok] by blast
qed

text \<open>
  With one of the codes the text is lost: the encoding doubles the backslash, and the decoding
  takes the second one together with the digits for an escape.
\<close>

lemma fstab_escape_lost:
  "fstab_decode (fstab_encode (backslash # ''040'')) = [backslash, CHR '' '']"
  by code_simp

end
