(* ===== verification/Decimal.thy ===== *)
theory Decimal
  imports Prelude
begin

text \<open>
  Decimal numbers as the standard library prints them without grouping, and the value of a run of
  digits.
\<close>

definition is_digit :: "char \<Rightarrow> bool" where
  "is_digit c \<longleftrightarrow> 48 \<le> (of_char c :: nat) \<and> (of_char c :: nat) \<le> 57"

definition digit :: "int \<Rightarrow> char" where
  "digit n = char_of (48 + n)"

definition digit_value :: "char \<Rightarrow> int" where
  "digit_value c = of_char c - 48"

fun decimal :: "int \<Rightarrow> string" where
  "decimal n = (if n < 10 then [digit n] else decimal (n div 10) @ [digit (n mod 10)])"

definition number_of_digits :: "string \<Rightarrow> int" where
  "number_of_digits ds = foldl (\<lambda>v d. 10 * v + digit_value d) 0 ds"

declare decimal.simps [simp del]

lemma digit_facts:
  assumes "0 \<le> n" and "n < 10"
  shows "is_digit (digit n)" and "digit_value (digit n) = n"
proof -
  obtain k :: nat where k: "n = int k" "k < 10" using assms zero_le_imp_eq_int by auto
  have c: "digit n = char_of (48 + k)"
    using char_of_nat [of "48 + k"] by (simp add: k digit_def)
  have "of_char (digit n) = 48 + k" unfolding c using k(2) by simp
  then show "is_digit (digit n)" using k(2) by (simp add: is_digit_def)
  have "(of_char (digit n) :: int) = 48 + n"
    unfolding digit_def using assms by (simp add: of_char_of)
  then show "digit_value (digit n) = n" by (simp add: digit_value_def)
qed

lemma number_of_digits_snoc: "number_of_digits (ds @ [d]) = 10 * number_of_digits ds + digit_value d"
  by (simp add: number_of_digits_def)

lemma decimal_facts:
  assumes "0 \<le> n"
  shows "decimal n \<noteq> []" and "\<forall>d \<in> set (decimal n). is_digit d" and "number_of_digits (decimal n) = n"
proof -
  have "decimal n \<noteq> [] \<and> (\<forall>d \<in> set (decimal n). is_digit d) \<and> number_of_digits (decimal n) = n"
    using assms
  proof (induction n rule: decimal.induct)
    case (1 n)
    show ?case
    proof (cases "n < 10")
      case True
      then have "decimal n = [digit n]" by (simp add: decimal.simps)
      then show ?thesis using digit_facts [OF 1(2) True] by (simp add: number_of_digits_def)
    next
      case False
      then have d: "decimal n = decimal (n div 10) @ [digit (n mod 10)]" by (subst decimal.simps) simp
      have m: "0 \<le> n mod 10" "n mod 10 < 10" by simp_all
      have "0 \<le> n div 10" using 1(2) by simp
      from 1(1) [OF False this] show ?thesis
        unfolding d number_of_digits_snoc using digit_facts [OF m] by auto
    qed
  qed
  then show "decimal n \<noteq> []" and "\<forall>d \<in> set (decimal n). is_digit d" and "number_of_digits (decimal n) = n"
    by blast+
qed

end
