(* ===== verification/Diff.thy ===== *)
theory Diff
  imports Decimal
begin

text \<open>
  Differences of texts (storage/Utils/Diff.h, Diff.cc), with which the configuration files log
  their changes: the lines both texts have in common are cut out, longest sequence first, and what
  is left are the hunks. The hunks of a difference, applied to the old lines, give the new lines.

  Line numbers are \<open>int\<close> in the code and here; a text has fewer than \<open>2 ^ 31\<close> lines,
  and the context is so small that no sum with a line number overflows.
\<close>

section \<open>Ranges and hunks\<close>

record range =
  rg_start :: int
  rg_end :: int

definition rg_length :: "range \<Rightarrow> int" where
  "rg_length r = rg_end r - rg_start r + 1"

definition rg_empty :: "range \<Rightarrow> bool" where
  "rg_empty r \<longleftrightarrow> rg_length r < 1"

definition whole :: "string list \<Rightarrow> range" where
  "whole lines = \<lparr>rg_start = 0, rg_end = int (length lines) - 1\<rparr>"

record hunk =
  lines_removed :: "string list"
  lines_added :: "string list"
  removed_start_pos :: int
  added_start_pos :: int
  context_lines_before :: "string list"
  context_lines_after :: "string list"

text \<open>The lines of a range that exist, as \<open>add_lines\<close> appends them.\<close>

definition range_lines :: "string list \<Rightarrow> range \<Rightarrow> string list" where
  "range_lines lines r =
     List.map (\<lambda>i. lines ! nat i) (filter (\<lambda>i. i < int (length lines)) [rg_start r..rg_end r])"

definition removed_range :: "hunk \<Rightarrow> range" where
  "removed_range h = \<lparr>rg_start = removed_start_pos h - int (length (context_lines_before h)),
     rg_end = removed_start_pos h + int (length (lines_removed h)) + int (length (context_lines_after h)) - 1\<rparr>"

definition added_range :: "hunk \<Rightarrow> range" where
  "added_range h = \<lparr>rg_start = added_start_pos h - int (length (context_lines_before h)),
     rg_end = added_start_pos h + int (length (lines_added h)) + int (length (context_lines_after h)) - 1\<rparr>"

section \<open>Common lines\<close>

text \<open>The two loops that skip common lines at the start and at the end.\<close>

function skip_start :: "string list \<Rightarrow> string list \<Rightarrow> range \<Rightarrow> range \<Rightarrow> range \<times> range" where
  "skip_start la lb a b =
     (if rg_start a \<le> rg_end a \<and> rg_start b \<le> rg_end b \<and> la ! nat (rg_start a) = lb ! nat (rg_start b)
      then skip_start la lb (a\<lparr>rg_start := rg_start a + 1\<rparr>) (b\<lparr>rg_start := rg_start b + 1\<rparr>)
      else (a, b))"
  by pat_completeness auto
termination
  by (relation "measure (\<lambda>(la, lb, a, b). nat (rg_end a - rg_start a + 1))") auto

function skip_end :: "string list \<Rightarrow> string list \<Rightarrow> range \<Rightarrow> range \<Rightarrow> range \<times> range" where
  "skip_end la lb a b =
     (if rg_start a < rg_end a \<and> rg_start b < rg_end b \<and> la ! nat (rg_end a) = lb ! nat (rg_end b)
      then skip_end la lb (a\<lparr>rg_end := rg_end a - 1\<rparr>) (b\<lparr>rg_end := rg_end b - 1\<rparr>)
      else (a, b))"
  by pat_completeness auto
termination
  by (relation "measure (\<lambda>(la, lb, a, b). nat (rg_end a - rg_start a + 1))") auto

text \<open>The number of equal lines from two positions on.\<close>

function common_length :: "string list \<Rightarrow> string list \<Rightarrow> range \<Rightarrow> range \<Rightarrow> int \<Rightarrow> int \<Rightarrow> int" where
  "common_length la lb a b i j =
     (if i \<le> rg_end a \<and> j \<le> rg_end b \<and> la ! nat i = lb ! nat j
      then 1 + common_length la lb a b (i + 1) (j + 1) else 0)"
  by pat_completeness auto
termination
  by (relation "measure (\<lambda>(la, lb, a, b, i, j). nat (rg_end a - i + 1))") auto

declare skip_start.simps [simp del] skip_end.simps [simp del] common_length.simps [simp del]

record sub_sequence =
  pos_a :: int
  pos_b :: int
  seq_len :: int

definition consider_start :: "string list \<Rightarrow> string list \<Rightarrow> range \<Rightarrow> range \<Rightarrow> int \<times> int \<Rightarrow> sub_sequence \<Rightarrow> sub_sequence" where
  "consider_start la lb a b = (\<lambda>(pa, pb) seq.
     if la ! nat pa = lb ! nat pb \<and> seq_len seq < 1 + common_length la lb a b (pa + 1) (pb + 1)
     then \<lparr>pos_a = pa, pos_b = pb, seq_len = 1 + common_length la lb a b (pa + 1) (pb + 1)\<rparr>
     else seq)"

definition find_common_subsequence :: "string list \<Rightarrow> string list \<Rightarrow> range \<Rightarrow> range \<Rightarrow> sub_sequence" where
  "find_common_subsequence la lb a b =
     fold (consider_start la lb a b)
       (concat (List.map (\<lambda>pa. List.map (\<lambda>pb. (pa, pb)) [rg_start b..rg_end b]) [rg_start a..rg_end a]))
       \<lparr>pos_a = - 1, pos_b = - 1, seq_len = 0\<rparr>"

section \<open>The hunks\<close>

text \<open>A hunk with its context; the loop variables keep a context empty at the ends of the text.\<close>

definition make_hunk :: "string list \<Rightarrow> string list \<Rightarrow> int \<Rightarrow> range \<Rightarrow> range \<Rightarrow> hunk" where
  "make_hunk la lb context_lines a b =
     (let last = int (length la) - 1;
          before = (if 0 < context_lines \<and> 0 < rg_start a
            then range_lines la \<lparr>rg_start = max 0 (rg_start a - context_lines), rg_end = max 0 (rg_start a - 1)\<rparr> else []);
          after = (if 0 < context_lines \<and> rg_end a < last
            then range_lines la \<lparr>rg_start = min last (rg_end a + 1), rg_end = min last (rg_end a + context_lines)\<rparr> else [])
      in \<lparr>lines_removed = range_lines la a, lines_added = range_lines lb b,
          removed_start_pos = rg_start a, added_start_pos = rg_start b,
          context_lines_before = before, context_lines_after = after\<rparr>)"

definition inside_range :: "int \<Rightarrow> int \<Rightarrow> range \<Rightarrow> bool" where
  "inside_range pos len r \<longleftrightarrow> rg_start r \<le> pos \<and> pos + len \<le> rg_end r + 1"

lemma common_length_bounds:
  "0 \<le> common_length la lb a b i j"
  "i \<le> rg_end a + 1 \<Longrightarrow> i + common_length la lb a b i j \<le> rg_end a + 1"
  "j \<le> rg_end b + 1 \<Longrightarrow> j + common_length la lb a b i j \<le> rg_end b + 1"
proof -
  have "0 \<le> common_length la lb a b i j \<and>
      (i \<le> rg_end a + 1 \<longrightarrow> i + common_length la lb a b i j \<le> rg_end a + 1) \<and>
      (j \<le> rg_end b + 1 \<longrightarrow> j + common_length la lb a b i j \<le> rg_end b + 1)"
  proof (induction la lb a b i j rule: common_length.induct)
    case (1 la lb a b i j)
    show ?case
    proof (cases "i \<le> rg_end a \<and> j \<le> rg_end b \<and> la ! nat i = lb ! nat j")
      case True
      then have c: "common_length la lb a b i j = 1 + common_length la lb a b (i + 1) (j + 1)"
        by (subst common_length.simps) simp
      show ?thesis using 1 [OF True] True unfolding c by linarith
    next
      case False
      have c: "common_length la lb a b i j = 0" by (subst common_length.simps) (rule if_not_P [OF False])
      show ?thesis unfolding c by simp
    qed
  qed
  then show "0 \<le> common_length la lb a b i j"
    "i \<le> rg_end a + 1 \<Longrightarrow> i + common_length la lb a b i j \<le> rg_end a + 1"
    "j \<le> rg_end b + 1 \<Longrightarrow> j + common_length la lb a b i j \<le> rg_end b + 1"
    by blast+
qed

text \<open>A sequence that is found lies in both ranges, and its lines are equal.\<close>

definition good_sequence :: "string list \<Rightarrow> string list \<Rightarrow> range \<Rightarrow> range \<Rightarrow> sub_sequence \<Rightarrow> bool" where
  "good_sequence la lb a b seq \<longleftrightarrow> seq_len seq = 0 \<or>
     (0 < seq_len seq \<and> inside_range (pos_a seq) (seq_len seq) a \<and> inside_range (pos_b seq) (seq_len seq) b \<and>
      (\<forall>k. 0 \<le> k \<longrightarrow> k < seq_len seq \<longrightarrow> la ! nat (pos_a seq + k) = lb ! nat (pos_b seq + k)))"

lemma common_length_equal:
  "0 \<le> k \<Longrightarrow> k < common_length la lb a b i j \<Longrightarrow> la ! nat (i + k) = lb ! nat (j + k)"
proof (induction la lb a b i j arbitrary: k rule: common_length.induct)
  case (1 la lb a b i j)
  have t: "i \<le> rg_end a \<and> j \<le> rg_end b \<and> la ! nat i = lb ! nat j"
    using "1.prems" by (subst (asm) common_length.simps) (auto split: if_splits)
  then have c: "common_length la lb a b i j = 1 + common_length la lb a b (i + 1) (j + 1)"
    by (subst common_length.simps) simp
  show ?case
  proof (cases "k = 0")
    case True
    then show ?thesis using t by simp
  next
    case False
    then show ?thesis using "1.IH" [OF t, of "k - 1"] "1.prems" c by simp
  qed
qed

lemma consider_start_good:
  assumes "good_sequence la lb a b seq" and "pa \<in> set [rg_start a..rg_end a]" and "pb \<in> set [rg_start b..rg_end b]"
  shows "good_sequence la lb a b (consider_start la lb a b (pa, pb) seq)"
proof (cases "la ! nat pa = lb ! nat pb \<and> seq_len seq < 1 + common_length la lb a b (pa + 1) (pb + 1)")
  case True
  let ?c = "common_length la lb a b (pa + 1) (pb + 1)"
  have "la ! nat (pa + k) = lb ! nat (pb + k)" if "0 \<le> k" "k < 1 + ?c" for k
  proof (cases "k = 0")
    case False
    then show ?thesis using common_length_equal [of "k - 1" la lb a b "pa + 1" "pb + 1"] that by simp
  qed (use True in simp)
  moreover have "pa + 1 + ?c \<le> rg_end a + 1" "pb + 1 + ?c \<le> rg_end b + 1" "0 \<le> ?c"
    using assms(2,3) common_length_bounds by auto
  ultimately show ?thesis
    using True assms(2,3) by (auto simp: consider_start_def good_sequence_def inside_range_def)
next
  case False
  then show ?thesis using assms(1) by (auto simp: consider_start_def)
qed

lemma find_common_good: "good_sequence la lb a b (find_common_subsequence la lb a b)"
proof -
  have g: "good_sequence la lb a b (fold (consider_start la lb a b) ps seq)"
    if "good_sequence la lb a b seq" "set ps \<subseteq> set [rg_start a..rg_end a] \<times> set [rg_start b..rg_end b]" for ps seq
    using that
  proof (induction ps arbitrary: seq)
    case Nil
    then show ?case by simp
  next
    case (Cons p ps)
    obtain pa pb where p: "p = (pa, pb)" by (cases p)
    have "good_sequence la lb a b (consider_start la lb a b (pa, pb) seq)"
      using Cons.prems by (intro consider_start_good) (auto simp: p)
    then show ?case using Cons by (simp add: p)
  qed
  show ?thesis unfolding find_common_subsequence_def by (rule g) (auto simp: good_sequence_def)
qed

text \<open>What the loops skip: equal lines at both ends, at least none.\<close>

lemma skip_start_skips:
  assumes "skip_start la lb a b = (a', b')"
  shows "\<exists>n \<ge> 0. a' = a\<lparr>rg_start := rg_start a + n\<rparr> \<and> b' = b\<lparr>rg_start := rg_start b + n\<rparr> \<and>
    (n = 0 \<or> rg_start a + n \<le> rg_end a + 1 \<and> rg_start b + n \<le> rg_end b + 1) \<and>
    (\<forall>k. 0 \<le> k \<longrightarrow> k < n \<longrightarrow> la ! nat (rg_start a + k) = lb ! nat (rg_start b + k))"
  using assms
proof (induction la lb a b rule: skip_start.induct)
  case (1 la lb a b)
  show ?case
  proof (cases "rg_start a \<le> rg_end a \<and> rg_start b \<le> rg_end b \<and> la ! nat (rg_start a) = lb ! nat (rg_start b)")
    case True
    have "skip_start la lb a b =
        skip_start la lb (a\<lparr>rg_start := rg_start a + 1\<rparr>) (b\<lparr>rg_start := rg_start b + 1\<rparr>)"
      by (subst skip_start.simps) (rule if_P [OF True])
    from "1.IH" [OF True, unfolded this [symmetric], OF "1.prems"] obtain n where n: "n \<ge> 0"
      "a' = a\<lparr>rg_start := rg_start a + 1 + n\<rparr>" "b' = b\<lparr>rg_start := rg_start b + 1 + n\<rparr>"
      "n = 0 \<or> rg_start a + 1 + n \<le> rg_end a + 1 \<and> rg_start b + 1 + n \<le> rg_end b + 1"
      "\<forall>k. 0 \<le> k \<longrightarrow> k < n \<longrightarrow> la ! nat (rg_start a + 1 + k) = lb ! nat (rg_start b + 1 + k)"
      by auto
    have "la ! nat (rg_start a + k) = lb ! nat (rg_start b + k)" if "0 \<le> k" "k < n + 1" for k
    proof (cases "k = 0")
      case False
      then show ?thesis using n(5) [rule_format, of "k - 1"] that by simp
    qed (use True in simp)
    then show ?thesis using n(1-4) True by (intro exI [of _ "n + 1"]) (auto simp: add.assoc add.commute [of 1])
  next
    case False
    have "skip_start la lb a b = (a, b)" by (subst skip_start.simps) (rule if_not_P [OF False])
    then show ?thesis using "1.prems" by (intro exI [of _ 0]) simp
  qed
qed

lemma skip_end_skips:
  assumes "skip_end la lb a b = (a', b')"
  shows "\<exists>n \<ge> 0. a' = a\<lparr>rg_end := rg_end a - n\<rparr> \<and> b' = b\<lparr>rg_end := rg_end b - n\<rparr> \<and>
    (n = 0 \<or> rg_start a \<le> rg_end a - n \<and> rg_start b \<le> rg_end b - n) \<and>
    (\<forall>k. 0 \<le> k \<longrightarrow> k < n \<longrightarrow> la ! nat (rg_end a - k) = lb ! nat (rg_end b - k))"
  using assms
proof (induction la lb a b rule: skip_end.induct)
  case (1 la lb a b)
  show ?case
  proof (cases "rg_start a < rg_end a \<and> rg_start b < rg_end b \<and> la ! nat (rg_end a) = lb ! nat (rg_end b)")
    case True
    have "skip_end la lb a b = skip_end la lb (a\<lparr>rg_end := rg_end a - 1\<rparr>) (b\<lparr>rg_end := rg_end b - 1\<rparr>)"
      by (subst skip_end.simps) (rule if_P [OF True])
    from "1.IH" [OF True, unfolded this [symmetric], OF "1.prems"] obtain n where n: "n \<ge> 0"
      "a' = a\<lparr>rg_end := rg_end a - 1 - n\<rparr>" "b' = b\<lparr>rg_end := rg_end b - 1 - n\<rparr>"
      "n = 0 \<or> rg_start a \<le> rg_end a - 1 - n \<and> rg_start b \<le> rg_end b - 1 - n"
      "\<forall>k. 0 \<le> k \<longrightarrow> k < n \<longrightarrow> la ! nat (rg_end a - 1 - k) = lb ! nat (rg_end b - 1 - k)"
      by auto
    have "la ! nat (rg_end a - k) = lb ! nat (rg_end b - k)" if "0 \<le> k" "k < n + 1" for k
    proof (cases "k = 0")
      case False
      then show ?thesis using n(5) [rule_format, of "k - 1"] that by simp
    qed (use True in simp)
    then show ?thesis using n(1-4) True by (intro exI [of _ "n + 1"]) (auto simp: algebra_simps)
  next
    case False
    have "skip_end la lb a b = (a, b)" by (subst skip_end.simps) (rule if_not_P [OF False])
    then show ?thesis using "1.prems" by (intro exI [of _ 0]) simp
  qed
qed

lemma skip_shrinks:
  assumes "skip_start la lb a b = (a1, b1)" and "skip_end la lb a1 b1 = (a2, b2)"
  shows "rg_start a \<le> rg_start a2" and "rg_end a2 \<le> rg_end a" and "rg_start b \<le> rg_start b2" and "rg_end b2 \<le> rg_end b"
  using skip_start_skips [OF assms(1)] skip_end_skips [OF assms(2)] by auto

function diff_ranges :: "string list \<Rightarrow> string list \<Rightarrow> int \<Rightarrow> range \<Rightarrow> range \<Rightarrow> hunk list" where
  "diff_ranges la lb context_lines a b =
     (case skip_start la lb a b of (a, b) \<Rightarrow>
      case skip_end la lb a b of (a, b) \<Rightarrow>
        if rg_start a \<le> rg_end a \<or> rg_start b \<le> rg_end b
        then let seq = find_common_subsequence la lb a b
          in if 0 < seq_len seq
             then diff_ranges la lb context_lines \<lparr>rg_start = rg_start a, rg_end = pos_a seq - 1\<rparr>
                    \<lparr>rg_start = rg_start b, rg_end = pos_b seq - 1\<rparr>
                @ diff_ranges la lb context_lines \<lparr>rg_start = pos_a seq + seq_len seq, rg_end = rg_end a\<rparr>
                    \<lparr>rg_start = pos_b seq + seq_len seq, rg_end = rg_end b\<rparr>
             else [make_hunk la lb context_lines a b]
        else [])"
  by pat_completeness auto
termination
proof (relation "measure (\<lambda>(la, lb, c, a, b). nat (rg_end a - rg_start a + 1))", goal_cases)
  case 1
  then show ?case by simp
next
  case (2 la lb c a b a1 b1 a2 b2 seq)
  then have s: "skip_start la lb a b = (a1, b1)" "skip_end la lb a1 b1 = (a2, b2)" by simp_all
  have "good_sequence la lb a2 b2 seq" using 2 find_common_good by simp
  then show ?case
    using 2 skip_shrinks [OF s] by (auto simp: good_sequence_def inside_range_def)
next
  case (3 la lb c a b a1 b1 a2 b2 seq)
  then have s: "skip_start la lb a b = (a1, b1)" "skip_end la lb a1 b1 = (a2, b2)" by simp_all
  have "good_sequence la lb a2 b2 seq" using 3 find_common_good by simp
  then show ?case
    using 3 skip_shrinks [OF s] by (auto simp: good_sequence_def inside_range_def)
qed

declare diff_ranges.simps [simp del]

section \<open>Overlapping contexts and the text\<close>

text \<open>The loop takes lines from the end of the previous context and from the start of the current one.\<close>

function shrink_contexts :: "int \<Rightarrow> string list \<Rightarrow> string list \<Rightarrow> string list \<times> string list" where
  "shrink_contexts overlap prev cur =
     (if 0 < overlap \<and> 0 < length prev + length cur
      then case (if prev \<noteq> [] then (butlast prev, overlap - 1) else (prev, overlap)) of (prev, overlap) \<Rightarrow>
        if 0 < overlap \<and> cur \<noteq> [] then shrink_contexts (overlap - 1) prev (tl cur)
        else shrink_contexts overlap prev cur
      else (prev, cur))"
  by pat_completeness auto
termination
  by (relation "measure (\<lambda>(overlap, prev, cur). length prev + length cur)") (auto split: if_splits simp: neq_Nil_conv)

declare shrink_contexts.simps [simp del]

fun fix_hunk_overlap :: "hunk list \<Rightarrow> hunk list" where
  "fix_hunk_overlap (prev # h # hs) =
     (let overlap = rg_end (removed_range prev) - rg_start (removed_range h) + 1;
          (after, before) = shrink_contexts overlap (context_lines_after prev) (context_lines_before h)
      in prev\<lparr>context_lines_after := after\<rparr> # fix_hunk_overlap (h\<lparr>context_lines_before := before\<rparr> # hs))"
| "fix_hunk_overlap hs = hs"

definition diff_hunks :: "string list \<Rightarrow> string list \<Rightarrow> int \<Rightarrow> hunk list" where
  "diff_hunks la lb context_lines = fix_hunk_overlap (diff_ranges la lb context_lines (whole la) (whole lb))"

definition get_hunk :: "hunk list \<Rightarrow> int \<Rightarrow> hunk result" where
  "get_hunk hunks i = (if i < 0 \<or> int (length hunks) \<le> i then Inl (Exn ''hunk index out of range'') else Inr (hunks ! nat i))"

definition format_int :: "int \<Rightarrow> string" where
  "format_int i = (if i < 0 then CHR ''-'' # decimal (- i) else decimal i)"

definition format_header :: "range \<Rightarrow> range \<Rightarrow> string" where
  "format_header a b = ''@@ -'' @ format_int (if rg_empty a then 0 else rg_start a + 1) @ '','' @ format_int (rg_length a)
     @ '' +'' @ format_int (if rg_empty b then 0 else rg_start b + 1) @ '','' @ format_int (rg_length b) @ '' @@''"

definition format_lines :: "hunk \<Rightarrow> string list" where
  "format_lines h = List.map ((@) '' '') (context_lines_before h) @ List.map ((@) ''-'') (lines_removed h) @
     List.map ((@) ''+'') (lines_added h) @ List.map ((@) '' '') (context_lines_after h)"

definition format_hunk :: "hunk \<Rightarrow> string list" where
  "format_hunk h = format_header (removed_range h) (added_range h) # format_lines h"

text \<open>Hunks that touch the next one are merged: the pending lines and their ranges.\<close>

fun format_loop :: "hunk list \<Rightarrow> string list \<Rightarrow> range \<Rightarrow> range \<Rightarrow> string list" where
  "format_loop [] merged a b = []"
| "format_loop (h # hs) merged a b =
     (let merging = (case hs of [] \<Rightarrow> False
            | next # _ \<Rightarrow> rg_start (removed_range next) \<le> rg_end (removed_range h) + 1);
          (a, b, merged) = (if merging \<or> merged \<noteq> []
            then (if merged = [] then (removed_range h, added_range h, merged @ format_lines h)
              else (a\<lparr>rg_end := rg_end (removed_range h)\<rparr>, b\<lparr>rg_end := rg_end (added_range h)\<rparr>, merged @ format_lines h))
            else (a, b, merged))
      in if merging then format_loop hs merged a b
         else if merged \<noteq> [] then format_header a b # merged @ format_loop hs [] a b
         else format_hunk h @ format_loop hs [] a b)"

definition format_hunks :: "hunk list \<Rightarrow> string list" where
  "format_hunks hunks = format_loop hunks [] \<lparr>rg_start = - 1, rg_end = - 1\<rparr> \<lparr>rg_start = - 1, rg_end = - 1\<rparr>"

definition diff :: "string list \<Rightarrow> string list \<Rightarrow> int \<Rightarrow> string list" where
  "diff la lb context_lines = format_hunks (diff_hunks la lb context_lines)"

definition format_patch_header :: "string \<Rightarrow> string \<Rightarrow> string list" where
  "format_patch_header old new = [''--- '' @ old, ''+++ '' @ new]"

section \<open>The hunks applied to the old lines\<close>

text \<open>The lines from \<open>pos\<close> to \<open>e\<close> with each hunk's removed lines replaced by the added ones.\<close>

fun patch :: "string list \<Rightarrow> int \<Rightarrow> int \<Rightarrow> hunk list \<Rightarrow> string list" where
  "patch la pos e [] = range_lines la \<lparr>rg_start = pos, rg_end = e\<rparr>"
| "patch la pos e (h # hs) = range_lines la \<lparr>rg_start = pos, rg_end = removed_start_pos h - 1\<rparr> @ lines_added h @
     patch la (removed_start_pos h + int (length (lines_removed h))) e hs"

text \<open>Hunks that follow one another between \<open>pos\<close> and \<open>e\<close> and remove the lines of the text.\<close>

fun within :: "string list \<Rightarrow> int \<Rightarrow> int \<Rightarrow> hunk list \<Rightarrow> bool" where
  "within la pos e [] \<longleftrightarrow> pos \<le> e + 1"
| "within la pos e (h # hs) \<longleftrightarrow> pos \<le> removed_start_pos h \<and>
     lines_removed h = range_lines la \<lparr>rg_start = removed_start_pos h,
       rg_end = removed_start_pos h + int (length (lines_removed h)) - 1\<rparr> \<and>
     within la (removed_start_pos h + int (length (lines_removed h))) e hs"

lemma range_lines_eta [simp]: "range_lines l \<lparr>rg_start = rg_start r, rg_end = rg_end r\<rparr> = range_lines l r"
  by (simp add: range_lines_def)

lemma range_lines_split:
  assumes "s \<le> m + 1" and "m \<le> e"
  shows "range_lines l \<lparr>rg_start = s, rg_end = m\<rparr> @ range_lines l \<lparr>rg_start = m + 1, rg_end = e\<rparr> =
    range_lines l \<lparr>rg_start = s, rg_end = e\<rparr>"
proof (cases "s \<le> m")
  case True
  then have "[s..e] = [s..m] @ [m + 1..e]" using assms(2) by (intro upto_split2)
  then show ?thesis by (simp add: range_lines_def)
next
  case False
  then have "s = m + 1" using assms(1) by simp
  then show ?thesis by (simp add: range_lines_def)
qed

lemma range_lines_empty: "e < s \<Longrightarrow> range_lines l \<lparr>rg_start = s, rg_end = e\<rparr> = []"
  by (simp add: range_lines_def)

lemma range_lines_nth:
  assumes "0 \<le> s" and "e < int (length l)"
  shows "length (range_lines l \<lparr>rg_start = s, rg_end = e\<rparr>) = nat (e - s + 1)"
    and "k < nat (e - s + 1) \<Longrightarrow> range_lines l \<lparr>rg_start = s, rg_end = e\<rparr> ! k = l ! nat (s + int k)"
proof -
  have "filter (\<lambda>i. i < int (length l)) [s..e] = [s..e]" using assms by (intro filter_True) auto
  then show "length (range_lines l \<lparr>rg_start = s, rg_end = e\<rparr>) = nat (e - s + 1)"
    "k < nat (e - s + 1) \<Longrightarrow> range_lines l \<lparr>rg_start = s, rg_end = e\<rparr> ! k = l ! nat (s + int k)"
    by (simp_all add: range_lines_def nth_upto)
qed

lemma range_lines_equal:
  assumes "0 \<le> s" and "e < int (length la)" and "0 \<le> t" and "f < int (length lb)" and "e - s = f - t"
    and "\<forall>k. 0 \<le> k \<longrightarrow> k < e - s + 1 \<longrightarrow> la ! nat (s + k) = lb ! nat (t + k)"
  shows "range_lines la \<lparr>rg_start = s, rg_end = e\<rparr> = range_lines lb \<lparr>rg_start = t, rg_end = f\<rparr>"
proof (rule nth_equalityI)
  note a = range_lines_nth [OF assms(1,2)] and b = range_lines_nth [OF assms(3,4)]
  show "length (range_lines la \<lparr>rg_start = s, rg_end = e\<rparr>) = length (range_lines lb \<lparr>rg_start = t, rg_end = f\<rparr>)"
    unfolding a(1) b(1) using assms(5) by simp
  show "range_lines la \<lparr>rg_start = s, rg_end = e\<rparr> ! k = range_lines lb \<lparr>rg_start = t, rg_end = f\<rparr> ! k"
    if "k < length (range_lines la \<lparr>rg_start = s, rg_end = e\<rparr>)" for k
  proof -
    have k: "k < nat (e - s + 1)" "k < nat (f - t + 1)" using that assms(5) unfolding a(1) by simp_all
    show ?thesis unfolding a(2) [OF k(1)] b(2) [OF k(2)] using assms(6) k(1) by simp
  qed
qed

lemma within_extend: "within la pos e hs \<Longrightarrow> pos' \<le> pos \<Longrightarrow> e \<le> e' \<Longrightarrow> within la pos' e' hs"
  by (induction hs arbitrary: pos pos') auto

lemma within_pos: "within la pos e hs \<Longrightarrow> pos \<le> e + 1"
  by (induction hs arbitrary: pos) fastforce+

lemma within_append:
  "within la pos m hs \<Longrightarrow> within la (m + 1) e hs' \<Longrightarrow> within la pos e (hs @ hs')"
proof (induction hs arbitrary: pos)
  case Nil
  then show ?case using within_extend [of la "m + 1" e hs' pos e] by simp
next
  case (Cons h hs)
  then show ?case by simp
qed

lemma patch_append:
  "within la pos m hs \<Longrightarrow> within la (m + 1) e hs' \<Longrightarrow>
    patch la pos e (hs @ hs') = patch la pos m hs @ patch la (m + 1) e hs'"
proof (induction hs arbitrary: pos)
  case Nil
  show ?case
  proof (cases hs')
    case Nil
    then show ?thesis using Nil.prems range_lines_split [of pos m e la] by simp
  next
    case (Cons h hs)
    then show ?thesis
      using Nil.prems range_lines_split [of pos m "removed_start_pos h - 1" la] by simp
  qed
next
  case (Cons h hs)
  then show ?case by simp
qed

text \<open>Ranges within the texts; an empty range ends before it starts.\<close>

definition range_of :: "string list \<Rightarrow> range \<Rightarrow> bool" where
  "range_of l r \<longleftrightarrow> 0 \<le> rg_start r \<and> rg_start r \<le> rg_end r + 1 \<and> rg_end r < int (length l)"

definition patches :: "string list \<Rightarrow> string list \<Rightarrow> range \<Rightarrow> range \<Rightarrow> hunk list \<Rightarrow> bool" where
  "patches la lb a b hs \<longleftrightarrow> within la (rg_start a) (rg_end a) hs \<and>
     patch la (rg_start a) (rg_end a) hs = range_lines lb b"

lemma patches_eta [simp]:
  "patches la lb \<lparr>rg_start = rg_start a, rg_end = rg_end a\<rparr> \<lparr>rg_start = rg_start b, rg_end = rg_end b\<rparr> hs =
    patches la lb a b hs"
  by (simp add: patches_def)

lemma patches_append:
  assumes "patches la lb \<lparr>rg_start = s, rg_end = m\<rparr> \<lparr>rg_start = t, rg_end = n\<rparr> hs"
    and "patches la lb \<lparr>rg_start = m + 1, rg_end = e\<rparr> \<lparr>rg_start = n + 1, rg_end = f\<rparr> hs'"
    and "t \<le> n + 1" and "n \<le> f"
  shows "patches la lb \<lparr>rg_start = s, rg_end = e\<rparr> \<lparr>rg_start = t, rg_end = f\<rparr> (hs @ hs')"
  using assms within_append [of la s m hs e hs'] patch_append [of la s m hs e hs'] range_lines_split [of t n f lb]
  by (simp add: patches_def)

lemma patches_same:
  assumes "range_of la \<lparr>rg_start = s, rg_end = e\<rparr>" and "range_of lb \<lparr>rg_start = t, rg_end = f\<rparr>" and "e - s = f - t"
    and "\<forall>k. 0 \<le> k \<longrightarrow> k < e - s + 1 \<longrightarrow> la ! nat (s + k) = lb ! nat (t + k)"
  shows "patches la lb \<lparr>rg_start = s, rg_end = e\<rparr> \<lparr>rg_start = t, rg_end = f\<rparr> []"
  using assms range_lines_equal [of s e la t f lb] by (simp add: patches_def range_of_def)

lemma patches_hunk:
  assumes "range_of la a" and "range_of lb b"
  shows "patches la lb a b [make_hunk la lb c a b]"
proof -
  have "length (range_lines la a) = nat (rg_end a - rg_start a + 1)"
    using range_lines_nth(1) [of "rg_start a" "rg_end a" la] assms(1) by (simp add: range_of_def)
  then have "rg_start a + int (length (range_lines la a)) - 1 = rg_end a"
    using assms(1) by (simp add: range_of_def)
  moreover have "\<lparr>rg_start = rg_start a, rg_end = rg_end a\<rparr> = a" by simp
  ultimately show ?thesis
    by (simp add: patches_def make_hunk_def Let_def range_lines_empty)
qed

lemma diff_ranges_patches:
  "range_of la a \<Longrightarrow> range_of lb b \<Longrightarrow> patches la lb a b (diff_ranges la lb c a b)"
proof (induction la lb c a b rule: diff_ranges.induct)
  case (1 la lb c a b)
  obtain a1 b1 where s: "skip_start la lb a b = (a1, b1)" by fastforce
  obtain a2 b2 where e: "skip_end la lb a1 b1 = (a2, b2)" by fastforce
  obtain n where n: "n \<ge> 0" "a1 = a\<lparr>rg_start := rg_start a + n\<rparr>" "b1 = b\<lparr>rg_start := rg_start b + n\<rparr>"
    "n = 0 \<or> rg_start a + n \<le> rg_end a + 1 \<and> rg_start b + n \<le> rg_end b + 1"
    "\<forall>k. 0 \<le> k \<longrightarrow> k < n \<longrightarrow> la ! nat (rg_start a + k) = lb ! nat (rg_start b + k)"
    using skip_start_skips [OF s] by blast
  obtain m where m: "m \<ge> 0" "a2 = a1\<lparr>rg_end := rg_end a1 - m\<rparr>" "b2 = b1\<lparr>rg_end := rg_end b1 - m\<rparr>"
    "m = 0 \<or> rg_start a1 \<le> rg_end a1 - m \<and> rg_start b1 \<le> rg_end b1 - m"
    "\<forall>k. 0 \<le> k \<longrightarrow> k < m \<longrightarrow> la ! nat (rg_end a1 - k) = lb ! nat (rg_end b1 - k)"
    using skip_end_skips [OF e] by blast
  let ?hs = "diff_ranges la lb c a b"
  have ra: "0 \<le> rg_start a" "rg_start a \<le> rg_end a + 1" "rg_end a < int (length la)"
    and rb: "0 \<le> rg_start b" "rg_start b \<le> rg_end b + 1" "rg_end b < int (length lb)"
    using "1.prems" by (simp_all add: range_of_def)
  have r2: "range_of la a2" "range_of lb b2"
    using ra rb n(1-4) m(1-4) by (auto simp: range_of_def)
  have a2: "rg_start a2 = rg_start a + n" "rg_end a2 = rg_end a - m"
    and b2: "rg_start b2 = rg_start b + n" "rg_end b2 = rg_end b - m"
    using n(2,3) m(2,3) by simp_all
  have middle: "patches la lb a2 b2 ?hs"
  proof (cases "rg_start a2 \<le> rg_end a2 \<or> rg_start b2 \<le> rg_end b2")
    case False
    have "?hs = []" using False by (subst diff_ranges.simps) (simp add: s e)
    then show ?thesis
      using False r2 range_lines_empty [of "rg_end a2" "rg_start a2" la] range_lines_empty [of "rg_end b2" "rg_start b2" lb]
      by (simp add: patches_def range_of_def)
  next
    case True
    let ?seq = "find_common_subsequence la lb a2 b2"
    show ?thesis
    proof (cases "0 < seq_len ?seq")
      case False
      have "?hs = [make_hunk la lb c a2 b2]" using True False by (subst diff_ranges.simps) (simp add: s e)
      then show ?thesis using patches_hunk [OF r2] by simp
    next
      case len: True
      let ?a1 = "\<lparr>rg_start = rg_start a2, rg_end = pos_a ?seq - 1\<rparr>" and ?b1 = "\<lparr>rg_start = rg_start b2, rg_end = pos_b ?seq - 1\<rparr>"
      let ?ea = "pos_a ?seq + seq_len ?seq" and ?eb = "pos_b ?seq + seq_len ?seq"
      let ?a3 = "\<lparr>rg_start = ?ea, rg_end = rg_end a2\<rparr>" and ?b3 = "\<lparr>rg_start = ?eb, rg_end = rg_end b2\<rparr>"
      have hs: "?hs = diff_ranges la lb c ?a1 ?b1 @ diff_ranges la lb c ?a3 ?b3"
        using True len by (subst diff_ranges.simps) (simp add: s e Let_def)
      have g: "inside_range (pos_a ?seq) (seq_len ?seq) a2" "inside_range (pos_b ?seq) (seq_len ?seq) b2"
        "\<forall>k. 0 \<le> k \<longrightarrow> k < seq_len ?seq \<longrightarrow> la ! nat (pos_a ?seq + k) = lb ! nat (pos_b ?seq + k)"
        using find_common_good [of la lb a2 b2] len by (simp_all add: good_sequence_def)
      note d = g(1,2) [unfolded inside_range_def] r2 [unfolded range_of_def]
      have "range_of la ?a1" "range_of lb ?b1" "range_of la ?a3" "range_of lb ?b3"
        using d len by (simp_all add: range_of_def)
      then have p1: "patches la lb ?a1 ?b1 (diff_ranges la lb c ?a1 ?b1)"
        and p3: "patches la lb ?a3 ?b3 (diff_ranges la lb c ?a3 ?b3)"
        using "1.IH" [OF s [symmetric] e [symmetric] True refl len] by simp_all
      have p2: "patches la lb \<lparr>rg_start = pos_a ?seq, rg_end = ?ea - 1\<rparr> \<lparr>rg_start = pos_b ?seq, rg_end = ?eb - 1\<rparr> []"
        using d len g(3) by (intro patches_same) (simp_all add: range_of_def)
      have p23: "patches la lb \<lparr>rg_start = pos_a ?seq, rg_end = rg_end a2\<rparr> \<lparr>rg_start = pos_b ?seq, rg_end = rg_end b2\<rparr>
          ([] @ diff_ranges la lb c ?a3 ?b3)"
        using d len p3 by (intro patches_append [OF p2]) simp_all
      have "patches la lb \<lparr>rg_start = rg_start a2, rg_end = rg_end a2\<rparr> \<lparr>rg_start = rg_start b2, rg_end = rg_end b2\<rparr>
          (diff_ranges la lb c ?a1 ?b1 @ [] @ diff_ranges la lb c ?a3 ?b3)"
        using d len p23 by (intro patches_append [OF p1]) simp_all
      then show ?thesis by (simp add: hs)
    qed
  qed
  have first: "patches la lb \<lparr>rg_start = rg_start a, rg_end = rg_start a2 - 1\<rparr> \<lparr>rg_start = rg_start b, rg_end = rg_start b2 - 1\<rparr> []"
    using ra rb n(1,4,5) unfolding a2 b2 by (intro patches_same) (auto simp: range_of_def)
  have last: "patches la lb \<lparr>rg_start = rg_end a2 + 1, rg_end = rg_end a\<rparr> \<lparr>rg_start = rg_end b2 + 1, rg_end = rg_end b\<rparr> []"
  proof (rule patches_same)
    show "range_of la \<lparr>rg_start = rg_end a2 + 1, rg_end = rg_end a\<rparr>" "range_of lb \<lparr>rg_start = rg_end b2 + 1, rg_end = rg_end b\<rparr>"
      using ra rb r2 m(1) unfolding a2 b2 range_of_def by simp_all
    show "rg_end a - (rg_end a2 + 1) = rg_end b - (rg_end b2 + 1)" unfolding a2 b2 by simp
    show "\<forall>k. 0 \<le> k \<longrightarrow> k < rg_end a - (rg_end a2 + 1) + 1 \<longrightarrow> la ! nat (rg_end a2 + 1 + k) = lb ! nat (rg_end b2 + 1 + k)"
    proof (intro allI impI)
      fix k assume k: "0 \<le> k" "k < rg_end a - (rg_end a2 + 1) + 1"
      then show "la ! nat (rg_end a2 + 1 + k) = lb ! nat (rg_end b2 + 1 + k)"
        using m(5) [rule_format, of "m - 1 - k"] n(2,3) unfolding a2 b2 by (simp add: algebra_simps)
    qed
  qed
  have ord: "rg_start b \<le> rg_start b2" "rg_start b2 \<le> rg_end b2 + 1" "rg_end b2 \<le> rg_end b" "rg_start b \<le> rg_end b2 + 1"
    using r2(2) n(1) m(1) unfolding range_of_def b2 by simp_all
  have "patches la lb \<lparr>rg_start = rg_start a, rg_end = rg_end a2\<rparr> \<lparr>rg_start = rg_start b, rg_end = rg_end b2\<rparr> ([] @ ?hs)"
  proof (rule patches_append [OF first])
    show "patches la lb \<lparr>rg_start = rg_start a2 - 1 + 1, rg_end = rg_end a2\<rparr>
        \<lparr>rg_start = rg_start b2 - 1 + 1, rg_end = rg_end b2\<rparr> ?hs"
      using middle by simp
  qed (use ord in simp_all)
  from patches_append [OF this last ord(4,3)] show ?case by simp
qed

section \<open>The contexts do not matter\<close>

definition core :: "hunk \<Rightarrow> int \<times> string list \<times> string list" where
  "core h = (removed_start_pos h, lines_removed h, lines_added h)"

lemma patch_core: "List.map core hs = List.map core hs' \<Longrightarrow> patch la pos e hs = patch la pos e hs'"
proof (induction hs arbitrary: hs' pos)
  case Nil
  then show ?case by simp
next
  case (Cons h hs)
  then obtain h' ks where "hs' = h' # ks" "core h = core h'" "List.map core hs = List.map core ks"
    by (cases hs') auto
  then have k: "hs' = h' # ks" "removed_start_pos h = removed_start_pos h'" "lines_removed h = lines_removed h'"
    "lines_added h = lines_added h'" "List.map core hs = List.map core ks"
    by (simp_all add: core_def)
  show ?case unfolding k(1) patch.simps k(2-4) Cons.IH [OF k(5)] ..
qed

lemma fix_hunk_overlap_core: "List.map core (fix_hunk_overlap hs) = List.map core hs"
  by (induction hs rule: fix_hunk_overlap.induct) (simp_all add: core_def split: prod.splits)

text \<open>
  C40: The hunks of the difference of two texts, applied to the old lines, give the new lines,
  whatever the number of context lines.
\<close>

theorem diff_patches:
  "patch old 0 (int (length old) - 1) (diff_hunks old new context_lines) = new"
proof -
  have r: "range_of old (whole old)" "range_of new (whole new)" by (simp_all add: range_of_def whole_def)
  have "range_lines new (whole new) = new"
    using range_lines_nth [of 0 "int (length new) - 1" new] by (intro nth_equalityI) (simp_all add: whole_def)
  moreover have "patch old 0 (int (length old) - 1) (diff_hunks old new context_lines) =
      patch old 0 (int (length old) - 1) (diff_ranges old new context_lines (whole old) (whole new))"
    unfolding diff_hunks_def by (rule patch_core [OF fix_hunk_overlap_core])
  ultimately show ?thesis
    using diff_ranges_patches [OF r] by (simp add: patches_def whole_def)
qed

end
