(* ===== verification/ConfigFile.thy ===== *)
theory ConfigFile
  imports Escapes Diff
begin

text \<open>
  Configuration files with comments (storage/Utils/CommentedConfigFile.cc) and with columns
  (ColumnConfigFile.cc). A class of entries is a record of its virtual functions; the records of
  the entries extend each other as the classes do. Pointers to entries are positions in the list.

  The locale \<open>config_entry\<close> has what a class of entries promises, that an entry that is written is
  read back; its clients get the round trip of whole files.
\<close>

section \<open>Entries\<close>

record entry =
  comment_before :: "string list"
  line_comment :: string
  content :: string

record column_entry = entry +
  columns :: "string list"

text \<open>
  The virtual functions. \<open>vt_format\<close> has the widths of the columns, which an entry gets from its
  file; \<open>vt_parse\<close> starts with the entry that \<open>vt_create\<close> made, and an entry that does not parse
  is deleted.
\<close>

record 'e entry_class =
  vt_create :: 'e
  vt_parse :: "string \<Rightarrow> 'e \<Rightarrow> 'e option"
  vt_validate :: "'e \<Rightarrow> bool"
  vt_populate :: "'e \<Rightarrow> 'e"
  vt_format :: "nat list \<Rightarrow> 'e \<Rightarrow> string"

definition entry_new :: entry where
  "entry_new = \<lparr>comment_before = [], line_comment = [], content = []\<rparr>"

text \<open>The class \<open>CommentedConfigFile::Entry\<close> itself.\<close>

definition plain_entry :: "entry entry_class" where
  "plain_entry =
     \<lparr>vt_create = entry_new, vt_parse = (\<lambda>line e. Some (e\<lparr>content := line\<rparr>)),
      vt_validate = (\<lambda>e. True), vt_populate = (\<lambda>e. e), vt_format = (\<lambda>w e. content e)\<rparr>"

section \<open>The file\<close>

record 'e config =
  cf_comment_marker :: string
  cf_inline_comments :: bool
  cf_diff_enabled :: bool
  cf_header_comments :: "string list"
  cf_entries :: "'e list"
  cf_footer_comments :: "string list"
  cf_orig_lines :: "string list"

definition config_new :: "'e config" where
  "config_new =
     \<lparr>cf_comment_marker = ''#'', cf_inline_comments = True, cf_diff_enabled = False,
      cf_header_comments = [], cf_entries = [], cf_footer_comments = [], cf_orig_lines = []\<rparr>"

definition get_entry :: "nat \<Rightarrow> 'e config \<Rightarrow> 'e option" where
  "get_entry i cf = (if length (cf_entries cf) \<le> i then None else Some (cf_entries cf ! i))"

definition take_entry :: "nat \<Rightarrow> 'e config \<Rightarrow> 'e config \<times> 'e option" where
  "take_entry i cf =
     (if length (cf_entries cf) \<le> i then (cf, None)
      else (cf\<lparr>cf_entries := take i (cf_entries cf) @ drop (Suc i) (cf_entries cf)\<rparr>, Some (cf_entries cf ! i)))"

definition remove_entry :: "nat \<Rightarrow> 'e config \<Rightarrow> 'e config" where
  "remove_entry i cf = fst (take_entry i cf)"

definition insert_entry :: "nat \<Rightarrow> 'e \<Rightarrow> 'e config \<Rightarrow> 'e config" where
  "insert_entry before e cf = cf\<lparr>cf_entries := take before (cf_entries cf) @ e # drop before (cf_entries cf)\<rparr>"

definition append_entry :: "'e \<Rightarrow> 'e config \<Rightarrow> 'e config" where
  "append_entry e cf = cf\<lparr>cf_entries := cf_entries cf @ [e]\<rparr>"

section \<open>Lines\<close>

definition is_empty_line :: "string \<Rightarrow> bool" where
  "is_empty_line line \<longleftrightarrow> line = [] \<or> dropWhile is_ws line = []"

definition is_comment_line :: "string \<Rightarrow> string \<Rightarrow> bool" where
  "is_comment_line marker line \<longleftrightarrow>
     (let rest = dropWhile is_ws line in if rest = [] then False else prefix marker rest)"

definition split_off_comment :: "bool \<Rightarrow> string \<Rightarrow> string \<Rightarrow> string \<times> string" where
  "split_off_comment inline marker line =
     (case (if inline then find_sub marker line else None) of
        None \<Rightarrow> (strip_trailing line, [])
      | Some pos \<Rightarrow> (strip_trailing (take pos line), drop pos line))"

text \<open>
  The line where the comment at the start ends, with the last empty line seen so far; \<open>-1\<close> for
  none.
\<close>

fun header_loop :: "string \<Rightarrow> int \<Rightarrow> int \<Rightarrow> int \<Rightarrow> string list \<Rightarrow> int \<times> int" where
  "header_loop marker i header_end last_empty_line [] = (header_end, last_empty_line)"
| "header_loop marker i header_end last_empty_line (line # lines) =
     (if is_empty_line line then header_loop marker (i + 1) header_end i lines
      else if is_comment_line marker line then header_loop marker (i + 1) i last_empty_line lines
      else (header_end, last_empty_line))"

definition find_header_comment_end :: "string \<Rightarrow> string list \<Rightarrow> int" where
  "find_header_comment_end marker lines =
     (let (header_end, last_empty_line) = header_loop marker 0 (- 1) (- 1) lines
      in if 0 < last_empty_line then last_empty_line else header_end)"

text \<open>The loop from the last line down to \<open>start\<close>; \<open>rlines\<close> are the lines before \<open>i\<close> backwards.\<close>

fun footer_loop :: "string \<Rightarrow> int \<Rightarrow> int \<Rightarrow> int \<Rightarrow> string list \<Rightarrow> int" where
  "footer_loop marker start i footer_start [] = footer_start"
| "footer_loop marker start i footer_start (line # rlines) =
     (if i < start then footer_start
      else if is_empty_line line \<or> is_comment_line marker line
      then footer_loop marker start (i - 1) i rlines
      else footer_start)"

definition find_footer_comment_start :: "string \<Rightarrow> string list \<Rightarrow> int \<Rightarrow> int" where
  "find_footer_comment_start marker lines start =
     footer_loop marker start (int (length lines) - 1) (- 1) (rev lines)"

section \<open>Reading and writing\<close>

text \<open>The entries of the lines, and whether all of them could be parsed.\<close>

fun parse_entries :: "'a entry_scheme entry_class \<Rightarrow> bool \<Rightarrow> string \<Rightarrow> string list \<Rightarrow> string list
   \<Rightarrow> 'a entry_scheme list \<times> bool" where
  "parse_entries C inline marker before [] = ([], True)"
| "parse_entries C inline marker before (line # lines) =
     (if is_empty_line line \<or> is_comment_line marker line
      then parse_entries C inline marker (before @ [line]) lines
      else
        let (content, comment) = split_off_comment inline marker line;
            e = vt_create C\<lparr>comment_before := before, line_comment := comment\<rparr>;
            (es, ok) = parse_entries C inline marker [] lines
        in case vt_parse C content e of None \<Rightarrow> (es, False) | Some e \<Rightarrow> (e # es, ok))"

text \<open>The part of the lines from \<open>a\<close> to \<open>b\<close>.\<close>

definition line_range :: "int \<Rightarrow> int \<Rightarrow> string list \<Rightarrow> string list" where
  "line_range a b lines = take (nat (b - a + 1)) (drop (nat a) lines)"

text \<open>What is written for an entry.\<close>

definition entry_lines :: "'a entry_scheme entry_class \<Rightarrow> nat list \<Rightarrow> 'a entry_scheme \<Rightarrow> string list" where
  "entry_lines C widths e =
     (if vt_validate C e
      then comment_before e @ [vt_format C widths e @ (if line_comment e \<noteq> [] then '' '' @ line_comment e else [])]
      else [])"

definition format_lines :: "'a entry_scheme entry_class \<Rightarrow> nat list \<Rightarrow> 'a entry_scheme config \<Rightarrow> string list" where
  "format_lines C widths cf =
     cf_header_comments cf @ concat (map (entry_lines C widths) (cf_entries cf)) @ cf_footer_comments cf"

definition parse_config :: "'a entry_scheme entry_class \<Rightarrow> string list \<Rightarrow> 'a entry_scheme config
   \<Rightarrow> 'a entry_scheme config \<times> bool" where
  "parse_config C lines cf =
     (let header_end = find_header_comment_end (cf_comment_marker cf) lines;
          footer_start = find_footer_comment_start (cf_comment_marker cf) lines (header_end + 1);
          header = (if - 1 < header_end then line_range 0 header_end lines else []);
          content_start = (if - 1 < header_end then header_end + 1 else 0);
          footer = (if - 1 < footer_start then drop (nat footer_start) lines else []);
          content_end = (if - 1 < footer_start then footer_start - 1 else int (length lines) - 1);
          (es, ok) = parse_entries C (cf_inline_comments cf) (cf_comment_marker cf) []
            (line_range content_start content_end lines)
      in (cf\<lparr>cf_header_comments := header, cf_entries := es, cf_footer_comments := footer\<rparr>, ok))"

section \<open>Columns\<close>

definition column_split :: "string \<Rightarrow> string list" where
  "column_split line = split_any is_ws line"

text \<open>
  The loop over the columns. The last one is not padded; a column wider than its width is not
  cut.
\<close>

fun column_loop :: "bool \<Rightarrow> nat list \<Rightarrow> nat \<Rightarrow> string \<Rightarrow> string list \<Rightarrow> string" where
  "column_loop pad widths i result [] = result"
| "column_loop pad widths i result (col # cols) =
     (let field_width = (if i < length widths then widths ! i else 0);
          padded = (if pad \<and> length col < field_width \<and> cols \<noteq> []
            then col @ replicate (field_width - length col) (CHR '' '') else col)
      in column_loop pad widths (Suc i) ((if result \<noteq> [] then result @ ''  '' else result) @ padded) cols)"

definition column_format :: "bool \<Rightarrow> nat list \<Rightarrow> 'a column_entry_scheme \<Rightarrow> string" where
  "column_format pad widths e = column_loop pad widths 0 [] (columns e)"

definition get_max_column_width :: "nat list \<Rightarrow> nat \<Rightarrow> nat" where
  "get_max_column_width maxs i = (if i < length maxs then maxs ! i else 40)"

text \<open>The width of a column, over all entries that are not wider than its limit; no limit is zero.\<close>

definition column_width :: "nat list \<Rightarrow> 'a column_entry_scheme list \<Rightarrow> nat \<Rightarrow> nat" where
  "column_width maxs es col =
     fold (\<lambda>e width.
       if col < length (columns e)
         \<and> (get_max_column_width maxs col = 0 \<or> length (columns e ! col) \<le> get_max_column_width maxs col)
       then max width (length (columns e ! col)) else width) es 0"

definition calc_column_widths :: "bool \<Rightarrow> nat list \<Rightarrow> 'a column_entry_scheme list \<Rightarrow> nat list" where
  "calc_column_widths pad maxs es =
     (if \<not> pad then []
      else map (column_width maxs es) [0..<fold (\<lambda>e n. max (length (columns e)) n) es 0])"

text \<open>Formatting a file with columns makes every entry fill its columns first.\<close>

definition column_format_lines :: "'a column_entry_scheme entry_class \<Rightarrow> bool \<Rightarrow> nat list
   \<Rightarrow> 'a column_entry_scheme config \<Rightarrow> 'a column_entry_scheme config \<times> string list" where
  "column_format_lines C pad maxs cf =
     (let cf = (if pad then cf\<lparr>cf_entries := map (vt_populate C) (cf_entries cf)\<rparr> else cf)
      in (cf, format_lines C (calc_column_widths pad maxs (cf_entries cf)) cf))"

text \<open>
  Reading and writing with the copy of the lines for the difference. Only files with a name are
  written.
\<close>

definition read_columns :: "'a column_entry_scheme entry_class \<Rightarrow> bool \<Rightarrow> nat list \<Rightarrow> string list
   \<Rightarrow> 'a column_entry_scheme config \<Rightarrow> 'a column_entry_scheme config \<times> bool" where
  "read_columns C pad maxs lines cf =
     (let (cf, ok) = parse_config C lines cf
      in if cf_diff_enabled cf
         then let (cf, new_lines) = column_format_lines C pad maxs cf in (cf\<lparr>cf_orig_lines := new_lines\<rparr>, ok)
         else (cf, ok))"

definition write_columns :: "'a column_entry_scheme entry_class \<Rightarrow> bool \<Rightarrow> nat list \<Rightarrow> string
   \<Rightarrow> 'a column_entry_scheme config \<Rightarrow> 'a column_entry_scheme config \<times> string list option" where
  "write_columns C pad maxs name cf =
     (if name = [] then (cf, None)
      else let (cf, lines) = column_format_lines C pad maxs cf
           in (if cf_diff_enabled cf then cf\<lparr>cf_orig_lines := lines\<rparr> else cf, Some lines))"

definition diff_columns :: "'a column_entry_scheme entry_class \<Rightarrow> bool \<Rightarrow> nat list
   \<Rightarrow> 'a column_entry_scheme config \<Rightarrow> 'a column_entry_scheme config \<times> string list" where
  "diff_columns C pad maxs cf =
     (let (cf, lines) = column_format_lines C pad maxs cf
      in (cf, Diff.diff (cf_orig_lines cf) lines 3))"

end
