(* ===== verification/ConfigRound.thy ===== *)
theory ConfigRound
  imports ConfigFile
begin

text \<open>
  Round trips of configuration files. The lines of a file are the comment at the start, the
  entries with the comments before them, and the comment at the end; which lines these are only
  depends on which lines are empty or comments. A locale states what a class of entries promises;
  inside it a file that was read, written and read again has the same entries and comments.
\<close>

section \<open>Comments and content\<close>

definition comment_like :: "string \<Rightarrow> string \<Rightarrow> bool" where
  "comment_like marker line \<longleftrightarrow> is_empty_line line \<or> is_comment_line marker line"

definition same_kind :: "string \<Rightarrow> string \<Rightarrow> string \<Rightarrow> bool" where
  "same_kind marker a b \<longleftrightarrow> is_empty_line a = is_empty_line b \<and> is_comment_line marker a = is_comment_line marker b"

lemma same_kind_refl [simp]: "same_kind marker a a"
  by (simp add: same_kind_def)

lemma same_kind_comment_like: "same_kind marker a b \<Longrightarrow> comment_like marker a = comment_like marker b"
  by (simp add: same_kind_def comment_like_def)

lemma header_loop_ge:
  "- 1 \<le> a \<Longrightarrow> - 1 \<le> b \<Longrightarrow> 0 \<le> i \<Longrightarrow> header_loop marker i a b lines = (x, y) \<Longrightarrow> - 1 \<le> x \<and> - 1 \<le> y"
  by (induction marker i a b lines rule: header_loop.induct) (auto split: if_splits)

lemma header_end_ge: "- 1 \<le> find_header_comment_end marker lines"
  using header_loop_ge [of "- 1" "- 1" 0 marker lines]
  by (auto simp: find_header_comment_end_def split: prod.splits)

lemma header_loop_same:
  "list_all2 (same_kind marker) lines lines' \<Longrightarrow>
     header_loop marker i a b lines = header_loop marker i a b lines'"
  by (induction lines lines' arbitrary: i a b rule: list_all2_induct) (auto simp: same_kind_def)

lemma header_end_same:
  "list_all2 (same_kind marker) lines lines' \<Longrightarrow>
     find_header_comment_end marker lines = find_header_comment_end marker lines'"
  by (simp add: find_header_comment_end_def header_loop_same)

text \<open>The loop from the end counts the comments and empty lines there.\<close>

lemma footer_loop_count:
  "footer_loop marker start i footer_start rlines =
     (let k = length (takeWhile (comment_like marker) (take (nat (i + 1 - start)) rlines))
      in if k = 0 then footer_start else i + 1 - int k)"
proof (induction rlines arbitrary: i footer_start)
  case Nil
  then show ?case by simp
next
  case (Cons line rlines)
  show ?case
  proof (cases "i < start \<or> \<not> comment_like marker line")
    case True
    then show ?thesis by (auto simp: comment_like_def Let_def take_Cons' split: if_splits)
  next
    case False
    then have "start \<le> i" by simp
    then have n: "nat (i + 1 - start) = Suc (nat (i - start))" by linarith
    show ?thesis using False Cons.IH [of "i - 1" i] unfolding n by (auto simp: comment_like_def Let_def)
  qed
qed

lemma footer_start_count:
  assumes "0 \<le> start" and "k = length (takeWhile (comment_like marker) (rev (drop (nat start) lines)))"
  shows "find_footer_comment_start marker lines start = (if k = 0 then - 1 else int (length lines - k))"
proof -
  have n: "nat (int (length lines) - start) = length lines - nat start" using assms(1) by simp
  have "take (length lines - nat start) (rev lines) = rev (drop (nat start) lines)" by (simp add: rev_drop)
  moreover have "k \<le> length lines"
    using assms(2) length_takeWhile_le [of "comment_like marker" "rev (drop (nat start) lines)"] by simp
  ultimately show ?thesis
    unfolding find_footer_comment_start_def footer_loop_count using assms(2) by (simp add: n Let_def of_nat_diff)
qed

text \<open>The three parts of the lines.\<close>

definition header_count :: "string \<Rightarrow> string list \<Rightarrow> nat" where
  "header_count marker lines = nat (find_header_comment_end marker lines + 1)"

definition body_part :: "string \<Rightarrow> string list \<Rightarrow> string list" where
  "body_part marker rest = rev (dropWhile (comment_like marker) (rev rest))"

definition footer_part :: "string \<Rightarrow> string list \<Rightarrow> string list" where
  "footer_part marker rest = rev (takeWhile (comment_like marker) (rev rest))"

lemma body_footer: "body_part marker rest @ footer_part marker rest = rest"
proof -
  have "rev (body_part marker rest @ footer_part marker rest) = rev rest"
    by (simp add: body_part_def footer_part_def)
  then show ?thesis by (simp only: rev_is_rev_conv)
qed

lemma parse_config_parts:
  "parse_config C lines cf =
     (let marker = cf_comment_marker cf; h = header_count marker lines; rest = drop h lines;
          (es, ok) = parse_entries C (cf_inline_comments cf) marker [] (body_part marker rest)
      in (cf\<lparr>cf_header_comments := take h lines, cf_entries := es, cf_footer_comments := footer_part marker rest\<rparr>, ok))"
proof -
  define marker where "marker = cf_comment_marker cf"
  define h where "h = find_header_comment_end marker lines"
  define rest where "rest = drop (header_count marker lines) lines"
  define k where "k = length (takeWhile (comment_like marker) (rev rest))"
  have h: "- 1 \<le> h" by (simp add: h_def header_end_ge)
  have hc: "header_count marker lines = nat (h + 1)" by (simp add: header_count_def h_def)
  have f: "find_footer_comment_start marker lines (h + 1) = (if k = 0 then - 1 else int (length lines - k))"
    by (rule footer_start_count) (use h in \<open>simp_all add: k_def rest_def hc\<close>)
  have kr: "k \<le> length rest" using length_takeWhile_le [of "comment_like marker" "rev rest"] by (simp add: k_def)
  have split: "length (footer_part marker rest) = k" "length (body_part marker rest) = length rest - k"
    using arg_cong [OF body_footer [of marker rest], of length] by (simp_all add: footer_part_def k_def)
  have header: "(if - 1 < h then line_range 0 h lines else []) = take (nat (h + 1)) lines"
    using h by (auto simp: line_range_def)
  have lines: "lines = take (nat (h + 1)) lines @ body_part marker rest @ footer_part marker rest"
    unfolding body_footer rest_def hc by simp
  have len: "length lines = length (take (nat (h + 1)) lines) + length rest"
    by (simp add: rest_def hc)
  have footer: "(if - 1 < find_footer_comment_start marker lines (h + 1)
      then drop (nat (find_footer_comment_start marker lines (h + 1))) lines else []) = footer_part marker rest"
  proof (cases "k = 0")
    case True
    then show ?thesis using split(1) f by simp
  next
    case False
    have "drop (length lines - k) lines = footer_part marker rest"
      by (subst (2) lines) (use len kr split in simp)
    then show ?thesis using False f by simp
  qed
  have body: "line_range (if - 1 < h then h + 1 else 0)
      (if - 1 < find_footer_comment_start marker lines (h + 1)
       then find_footer_comment_start marker lines (h + 1) - 1 else int (length lines) - 1) lines
      = body_part marker rest"
  proof -
    have start: "(if - 1 < h then h + 1 else 0) = h + 1" using h by simp
    have stop: "(if - 1 < find_footer_comment_start marker lines (h + 1)
       then find_footer_comment_start marker lines (h + 1) - 1 else int (length lines) - 1)
       = int (length lines - k) - 1" using f by simp
    have "nat (int (length lines - k) - 1 - (h + 1) + 1) = length lines - k - nat (h + 1)" using h by linarith
    moreover have "length lines - k - nat (h + 1) = length rest - k" by (simp add: rest_def hc)
    moreover have "take (length rest - k) rest = body_part marker rest"
      by (subst (2) body_footer [of marker rest, symmetric]) (simp add: split)
    ultimately show ?thesis unfolding start stop line_range_def by (simp add: rest_def hc)
  qed
  show ?thesis
    unfolding parse_config_def marker_def [symmetric] h_def [symmetric] hc [symmetric] Let_def
    unfolding header footer body unfolding hc [symmetric] rest_def [symmetric] by simp
qed

section \<open>Classes of entries\<close>

text \<open>
  The contract of a class of entries: a well-formed entry, once it has filled its columns, is
  written as a line of content whose parsing gives an entry of the same value; parsing and filling
  the columns leave the comments alone.
\<close>

locale config_entry =
  fixes C :: "'a entry_scheme entry_class"
    and marker :: string
    and val :: "'a entry_scheme \<Rightarrow> 'v"
    and ok_entry :: "'a entry_scheme \<Rightarrow> bool"
  assumes parse_format: "ok_entry e \<Longrightarrow> f = vt_populate C e \<Longrightarrow>
      \<exists>e'. vt_parse C (strip_trailing (vt_format C w f))
          (vt_create C\<lparr>comment_before := comment_before e, line_comment := line_comment e\<rparr>) = Some e'
        \<and> val e' = val f"
    and format_content: "ok_entry e \<Longrightarrow> \<not> comment_like marker (vt_format C w (vt_populate C e))"
    and valid: "ok_entry e \<Longrightarrow> vt_validate C (vt_populate C e)"
    and parse_keeps: "vt_parse C s e = Some e' \<Longrightarrow> comment_before e' = comment_before e \<and> line_comment e' = line_comment e"
    and populate_keeps: "comment_before (vt_populate C e) = comment_before e \<and> line_comment (vt_populate C e) = line_comment e"
begin

definition written :: "nat list \<Rightarrow> 'a entry_scheme list \<Rightarrow> string list" where
  "written w es = concat (map (\<lambda>e. entry_lines C w (vt_populate C e)) es)"

lemma parsed_body:
  assumes "parse_entries C False marker before body = (es, True)" and "\<forall>e \<in> set es. ok_entry e"
    and "body = [] \<longrightarrow> before = []" and "body \<noteq> [] \<longrightarrow> \<not> comment_like marker (last body)"
  shows "\<exists>body'. written w es = before @ body' \<and> list_all2 (same_kind marker) body body'
    \<and> (\<exists>es'. parse_entries C False marker before body' = (es', True) \<and> map val es' = map (\<lambda>e. val (vt_populate C e)) es)"
  using assms
proof (induction body arbitrary: before es)
  case Nil
  then show ?case by (simp add: written_def)
next
  case (Cons line lines)
  have last: "lines \<noteq> [] \<longrightarrow> \<not> comment_like marker (last lines)" using Cons.prems(4) by auto
  show ?case
  proof (cases "comment_like marker line")
    case True
    then have k: "is_empty_line line \<or> is_comment_line marker line" by (simp add: comment_like_def)
    have ne: "lines \<noteq> []" using Cons.prems(4) True by auto
    have p: "parse_entries C False marker (before @ [line]) lines = (es, True)" using Cons.prems(1) k by simp
    from Cons.IH [OF p Cons.prems(2) _ last] ne obtain body' es' where
      b: "written w es = (before @ [line]) @ body'" "list_all2 (same_kind marker) lines body'"
        "parse_entries C False marker (before @ [line]) body' = (es', True)"
        "map val es' = map (\<lambda>e. val (vt_populate C e)) es" by blast
    have "parse_entries C False marker before (line # body') = (es', True)" using b(3) k by simp
    then show ?thesis using b(1,2,4) by (intro exI [of _ "line # body'"] conjI exI [of _ es']) simp_all
  next
    case False
    then have k: "\<not> (is_empty_line line \<or> is_comment_line marker line)" by (simp add: comment_like_def)
    obtain es1 ok where rec: "parse_entries C False marker [] lines = (es1, ok)" by fastforce
    let ?e0 = "vt_create C\<lparr>comment_before := before, line_comment := []\<rparr>"
    from Cons.prems(1) k rec obtain e where e: "vt_parse C (strip_trailing line) ?e0 = Some e" "es = e # es1" "ok"
      by (auto simp: split_off_comment_def Let_def split: option.splits)
    have cm: "comment_before e = before" "line_comment e = []" using parse_keeps [OF e(1)] by simp_all
    have ok: "ok_entry e" "\<forall>e \<in> set es1. ok_entry e" using Cons.prems(2) e(2) by simp_all
    have p: "parse_entries C False marker [] lines = (es1, True)" using rec e(3) by simp
    from Cons.IH [OF p ok(2) _ last] obtain body' es' where
      b: "written w es1 = body'" "list_all2 (same_kind marker) lines body'"
        "parse_entries C False marker [] body' = (es', True)"
        "map val es' = map (\<lambda>e. val (vt_populate C e)) es1" by auto
    let ?line = "vt_format C w (vt_populate C e)"
    have line: "\<not> comment_like marker ?line" by (rule format_content [OF ok(1)])
    have pk: "comment_before (vt_populate C e) = before" "line_comment (vt_populate C e) = []"
      using populate_keeps [of e] cm by simp_all
    have "entry_lines C w (vt_populate C e) = before @ [?line]"
      using valid [OF ok(1)] pk by (simp add: entry_lines_def)
    then have w: "written w es = before @ ?line # body'" using b(1) e(2) by (simp add: written_def)
    have kind: "same_kind marker line ?line" using False line by (simp add: same_kind_def comment_like_def)
    from parse_format [OF ok(1) refl, of w] cm obtain e' where
      e': "vt_parse C (strip_trailing ?line) ?e0 = Some e'" "val e' = val (vt_populate C e)" by auto
    have "parse_entries C False marker before (?line # body') = (e' # es', True)"
      using line e'(1) b(3) by (simp add: comment_like_def split_off_comment_def)
    then show ?thesis using w kind b(2,4) e(2) e'(2)
      by (intro exI [of _ "?line # body'"] conjI exI [of _ "e' # es'"]) simp_all
  qed
qed

text \<open>A file that was read without an error is written and read again with the same values.\<close>

lemma file_round_trip:
  assumes parse: "parse_config C lines cf = (cf1, True)" and marker: "cf_comment_marker cf = marker"
    and inline: "\<not> cf_inline_comments cf" and ok: "\<forall>e \<in> set (cf_entries cf1). ok_entry e"
  shows "\<exists>cf2. parse_config C (format_lines C w (cf1\<lparr>cf_entries := map (vt_populate C) (cf_entries cf1)\<rparr>)) cf = (cf2, True)
    \<and> cf_header_comments cf2 = cf_header_comments cf1 \<and> cf_footer_comments cf2 = cf_footer_comments cf1
    \<and> map val (cf_entries cf2) = map (\<lambda>e. val (vt_populate C e)) (cf_entries cf1)"
proof -
  define h where "h = header_count marker lines"
  define body where "body = body_part marker (drop h lines)"
  define footer where "footer = footer_part marker (drop h lines)"
  have in': "cf_inline_comments cf = False" using inline by simp
  obtain es where es: "parse_entries C False marker [] body = (es, True)"
    and cf1: "cf1 = cf\<lparr>cf_header_comments := take h lines, cf_entries := es, cf_footer_comments := footer\<rparr>"
    using parse unfolding parse_config_parts marker in' Let_def h_def [symmetric] body_def [symmetric] footer_def [symmetric]
    by (auto split: prod.splits)
  have lines: "lines = take h lines @ body @ footer" by (simp add: body_def footer_def body_footer)
  have last: "body \<noteq> [] \<longrightarrow> \<not> comment_like marker (last body)"
  proof
    assume "body \<noteq> []"
    then have "dropWhile (comment_like marker) (rev (drop h lines)) \<noteq> []" by (simp add: body_def body_part_def)
    from hd_dropWhile [OF this] show "\<not> comment_like marker (last body)"
      by (simp add: body_def body_part_def last_rev)
  qed
  have ok': "\<forall>e \<in> set es. ok_entry e" using ok by (simp add: cf1)
  from parsed_body [OF es ok' _ last, of w] obtain body' es' where
    b: "written w es = body'" "list_all2 (same_kind marker) body body'"
      "parse_entries C False marker [] body' = (es', True)"
      "map val es' = map (\<lambda>e. val (vt_populate C e)) es" by auto
  define lines' where "lines' = take h lines @ body' @ footer"
  have fl: "format_lines C w (cf1\<lparr>cf_entries := map (vt_populate C) (cf_entries cf1)\<rparr>) = lines'"
    using b(1) by (simp add: format_lines_def cf1 lines'_def written_def comp_def)
  have refl: "list_all2 (same_kind marker) xs xs" for xs by (rule list_all2_refl) simp
  have "list_all2 (same_kind marker) (take h lines @ body @ footer) lines'"
    unfolding lines'_def using b(2) refl by (intro list_all2_appendI)
  then have same: "list_all2 (same_kind marker) lines lines'" using lines by simp
  have h': "header_count marker lines' = h"
    unfolding h_def header_count_def using header_end_same [OF same] by simp
  have len: "length body' = length body" using b(2) by (simp add: list_all2_lengthD)
  have parts: "take h lines' = take h lines \<and> drop h lines' = body' @ footer"
  proof (cases "h \<le> length lines")
    case True
    then show ?thesis by (simp add: lines'_def)
  next
    case False
    then have "body = [] \<and> footer = []" by (simp add: body_def footer_def body_part_def footer_part_def)
    then show ?thesis using len False by (simp add: lines'_def)
  qed
  have foot: "\<forall>l \<in> set (rev footer). comment_like marker l"
    by (auto simp: footer_def footer_part_def dest: set_takeWhileD)
  have body': "body' = [] \<or> \<not> comment_like marker (hd (rev body'))"
  proof (cases "body = []")
    case True
    then show ?thesis using len by simp
  next
    case False
    then have "body' \<noteq> []" using len by auto
    have k: "same_kind marker (last body) (last body')"
      using list_all2_nthD [OF b(2), of "length body - 1"] False \<open>body' \<noteq> []\<close> len by (simp add: last_conv_nth)
    have "\<not> comment_like marker (last body')" using last False same_kind_comment_like [OF k] by simp
    then show ?thesis by (simp add: hd_rev)
  qed
  have fp: "footer_part marker (body' @ footer) = footer" and bp: "body_part marker (body' @ footer) = body'"
  proof -
    have "takeWhile (comment_like marker) (rev body') = [] \<and> dropWhile (comment_like marker) (rev body') = rev body'"
      using body' by (cases "rev body'") auto
    then show "footer_part marker (body' @ footer) = footer" and "body_part marker (body' @ footer) = body'"
      using foot unfolding footer_part_def body_part_def rev_append
      by (simp_all add: takeWhile_append dropWhile_append)
  qed
  show ?thesis
    unfolding fl parse_config_parts marker in' Let_def h' using parts fp bp b(3,4) by (simp add: cf1)
qed

end

text \<open>The entries of \<open>CommentedConfigFile\<close> itself: every line of content without trailing blanks.\<close>

definition plain_ok :: "entry \<Rightarrow> bool" where
  "plain_ok e \<longleftrightarrow> strip_trailing (content e) = content e \<and> \<not> comment_like ''#'' (content e)"

interpretation plain: config_entry plain_entry "''#''" "\<lambda>e. e" plain_ok
  by unfold_locales (auto simp: plain_entry_def plain_ok_def entry_new_def)

end
