(* ===== verification/Fstab.thy ===== *)
theory Fstab
  imports ConfigRound Decimal
begin

text \<open>
  /etc/fstab (storage/EtcFstab.cc): mount options, entries, and the file. An entry extends the
  entries with columns; its virtual functions are \<open>fstab_entry_class\<close>. The order of the entries is
  in \<open>FstabOrder\<close>.
\<close>

section \<open>Mount options\<close>

definition opts_remove :: "string \<Rightarrow> string list \<Rightarrow> string list" where
  "opts_remove opt opts = filter (\<lambda>o'. o' \<noteq> opt) opts"

definition opts_new :: "string list \<Rightarrow> string list" where
  "opts_new opts = opts_remove ''defaults'' opts"

definition get_opt :: "int \<Rightarrow> string list \<Rightarrow> string" where
  "get_opt i opts = (if 0 \<le> i \<and> i < int (length opts) then opts ! nat i else [])"

definition set_opt :: "int \<Rightarrow> string \<Rightarrow> string list \<Rightarrow> string list" where
  "set_opt i new_val opts = (if 0 \<le> i \<and> i < int (length opts) then opts[nat i := new_val] else opts)"

definition opts_contains :: "string \<Rightarrow> string list \<Rightarrow> bool" where
  "opts_contains wanted opts \<longleftrightarrow> list_ex (\<lambda>o'. o' = wanted) opts"

fun index_loop :: "string \<Rightarrow> int \<Rightarrow> string list \<Rightarrow> int" where
  "index_loop wanted i [] = - 1"
| "index_loop wanted i (opt # opts) = (if opt = wanted then i else index_loop wanted (i + 1) opts)"

definition get_index_of :: "string \<Rightarrow> string list \<Rightarrow> int" where
  "get_index_of wanted opts = index_loop wanted 0 opts"

definition opts_remove_at :: "int \<Rightarrow> string list \<Rightarrow> string list" where
  "opts_remove_at i opts =
     (if 0 \<le> i \<and> i < int (length opts) then take (nat i) opts @ drop (Suc (nat i)) opts else opts)"

definition opts_append :: "string \<Rightarrow> string list \<Rightarrow> string list" where
  "opts_append opt opts = opts @ [opt]"

definition opts_format :: "string list \<Rightarrow> string" where
  "opts_format opts = (if opts = [] then ''defaults'' else join_from '','' [] opts)"

definition opts_parse :: "string \<Rightarrow> string list" where
  "opts_parse opt_string =
     opts_remove ''defaults'' (split_any (\<lambda>c. c = CHR '','') (fstab_decode opt_string))"

text \<open>
  Options of btrfs. The regular expressions match the number behind zeros and the path behind
  slashes.
\<close>

definition matches_padded :: "string \<Rightarrow> char \<Rightarrow> string \<Rightarrow> string \<Rightarrow> bool" where
  "matches_padded key pad val opt \<longleftrightarrow>
     prefix key opt \<and>
     (let rest = drop (length key) opt
      in length val \<le> length rest \<and> drop (length rest - length val) rest = val
         \<and> list_all (\<lambda>c. c = pad) (take (length rest - length val) rest))"

definition signed_decimal :: "int \<Rightarrow> string" where
  "signed_decimal n = (if n < 0 then CHR ''-'' # decimal (- n) else decimal n)"

definition has_subvol :: "string list \<Rightarrow> bool" where
  "has_subvol opts \<longleftrightarrow> list_ex (\<lambda>o'. prefix ''subvolid='' o' \<or> prefix ''subvol='' o') opts"

definition has_subvol_id :: "int \<Rightarrow> string list \<Rightarrow> bool" where
  "has_subvol_id i opts \<longleftrightarrow> list_ex (matches_padded ''subvolid='' (CHR ''0'') (signed_decimal i)) opts"

definition has_subvol_path :: "int \<Rightarrow> string \<Rightarrow> string list \<Rightarrow> bool" where
  "has_subvol_path i path opts \<longleftrightarrow>
     list_ex (\<lambda>o'. matches_padded ''subvolid='' (CHR ''0'') (signed_decimal i) o'
       \<or> matches_padded ''subvol='' (CHR ''/'') path o') opts"

section \<open>Paths\<close>

fun collapse_slashes :: "string \<Rightarrow> string" where
  "collapse_slashes [] = []"
| "collapse_slashes (c # cs) =
     (if c = CHR ''/'' \<and> cs \<noteq> [] \<and> hd cs = CHR ''/'' then collapse_slashes cs else c # collapse_slashes cs)"

definition normalize_path :: "string \<Rightarrow> string" where
  "normalize_path path =
     (let tmp = collapse_slashes path
      in if tmp \<noteq> ''/'' \<and> tmp \<noteq> [] \<and> last tmp = CHR ''/'' then butlast tmp else tmp)"

section \<open>File system types\<close>

datatype fs_type = UNKNOWN | AUTO | REISERFS | EXT2 | EXT3 | EXT4 | BTRFS | VFAT | XFS | JFS | HFS | NTFS | SWAP
  | HFSPLUS | NFS | NFS4 | TMPFS | ISO9660 | UDF | NILFS2 | MINIX | NTFS3G | F2FS | EXFAT | BITLOCKER | VBOXSF
  | BCACHEFS | SQUASHFS | EROFS1

definition fs_types :: "fs_type list" where
  "fs_types = [UNKNOWN, AUTO, REISERFS, EXT2, EXT3, EXT4, BTRFS, VFAT, XFS, JFS, HFS, NTFS, SWAP,
     HFSPLUS, NFS, NFS4, TMPFS, ISO9660, UDF, NILFS2, MINIX, NTFS3G, F2FS, EXFAT, BITLOCKER, VBOXSF,
     BCACHEFS, SQUASHFS, EROFS1]"

definition fs_names :: "string list" where
  "fs_names = [''unknown'', ''auto'', ''reiserfs'', ''ext2'', ''ext3'', ''ext4'', ''btrfs'', ''vfat'', ''xfs'',
     ''jfs'', ''hfs'', ''ntfs'', ''swap'', ''hfsplus'', ''nfs'', ''nfs4'', ''tmpfs'', ''iso9660'', ''udf'',
     ''nilfs2'', ''minix'', ''ntfs-3g'', ''f2fs'', ''exfat'', ''BitLocker'', ''vboxsf'', ''bcachefs'',
     ''squashfs'', ''erofs'']"

definition fs_name :: "fs_type \<Rightarrow> string" where
  "fs_name t = the (map_of (zip fs_types fs_names) t)"

definition fs_value :: "string \<Rightarrow> fs_type option" where
  "fs_value s = map_of (zip fs_names fs_types) s"

section \<open>Entries\<close>

text \<open>
  The last two fields are \<open>int\<close>. They are read with \<open>atoi\<close>, which for the C library of Linux is
  \<open>strtol\<close> cut to an \<open>int\<close>.
\<close>

record fstab_entry = column_entry +
  fe_spec :: string
  fe_mount_point :: string
  fe_fs_type :: fs_type
  fe_mount_opts :: "string list"
  fe_dump_pass :: u32
  fe_fsck_pass :: u32

definition is_space :: "char \<Rightarrow> bool" where
  "is_space c \<longleftrightarrow> of_char c \<in> {9, 10, 11, 12, 13, 32 :: nat}"

definition strtol :: "string \<Rightarrow> int" where
  "strtol s =
     (let s = dropWhile is_space s;
          neg = (s \<noteq> [] \<and> hd s = CHR ''-'');
          s = (if s \<noteq> [] \<and> (hd s = CHR ''-'' \<or> hd s = CHR ''+'') then tl s else s);
          v = number_of_digits (takeWhile is_digit s)
      in max (- (2 ^ 63)) (min (2 ^ 63 - 1) (if neg then - v else v)))"

definition atoi :: "string \<Rightarrow> u32" where
  "atoi s = word_of_int (strtol s)"

definition fstab_entry_new :: fstab_entry where
  "fstab_entry_new =
     \<lparr>comment_before = [], line_comment = [], content = [], columns = [], fe_spec = [], fe_mount_point = [],
      fe_fs_type = UNKNOWN, fe_mount_opts = [], fe_dump_pass = 0, fe_fsck_pass = 0\<rparr>"

definition set_mount_point :: "string \<Rightarrow> fstab_entry \<Rightarrow> fstab_entry" where
  "set_mount_point p e = e\<lparr>fe_mount_point := normalize_path p\<rparr>"

definition fstab_validate :: "fstab_entry \<Rightarrow> bool" where
  "fstab_validate e \<longleftrightarrow> fe_spec e \<noteq> [] \<and> fe_mount_point e \<noteq> []"

text \<open>\<open>resize\<close> to six columns; of an unknown type the old content of the column is kept.\<close>

definition old_type :: "fstab_entry \<Rightarrow> string" where
  "old_type e = (if 2 < length (columns e) then columns e ! 2 else [])"

definition fstab_populate :: "fstab_entry \<Rightarrow> fstab_entry" where
  "fstab_populate e =
     e\<lparr>columns :=
       [fstab_encode (fe_spec e),
        fstab_encode (fe_mount_point e),
        if fe_fs_type e \<noteq> UNKNOWN then fs_name (fe_fs_type e)
        else if old_type e \<noteq> [] then old_type e else ''unknown'',
        opts_format (fe_mount_opts e),
        signed_decimal (sint (fe_dump_pass e)),
        signed_decimal (sint (fe_fsck_pass e))]\<rparr>"

definition fstab_parse :: "string \<Rightarrow> fstab_entry \<Rightarrow> fstab_entry option" where
  "fstab_parse line e =
     (let cols = column_split line;
          e = e\<lparr>content := line, columns := cols\<rparr>;
          n = length cols
      in if n < 4 \<or> 6 < n then None
         else
           let e = e\<lparr>fe_spec := fstab_decode (cols ! 0)\<rparr>;
               e = set_mount_point (fstab_decode (cols ! 1)) e;
               e = e\<lparr>fe_fs_type := (case fs_value (cols ! 2) of Some t \<Rightarrow> t | None \<Rightarrow> UNKNOWN)\<rparr>;
               e = e\<lparr>fe_mount_opts := opts_parse (fstab_decode (cols ! 3))\<rparr>;
               e = e\<lparr>fe_dump_pass := (if 5 \<le> n then atoi (cols ! 4) else 0)\<rparr>
           in Some (e\<lparr>fe_fsck_pass := (if n = 6 then atoi (cols ! 5) else 0)\<rparr>))"

definition fstab_entry_class :: "fstab_entry entry_class" where
  "fstab_entry_class =
     \<lparr>vt_create = fstab_entry_new, vt_parse = fstab_parse, vt_validate = fstab_validate,
      vt_populate = fstab_populate, vt_format = column_format True\<rparr>"

section \<open>The file\<close>

definition fstab_widths :: "nat list" where
  "fstab_widths = [45, 25, 10, 30, 1, 1]"

definition fstab_new :: "fstab_entry config" where
  "fstab_new = config_new\<lparr>cf_inline_comments := False, cf_diff_enabled := True\<rparr>"

definition read_fstab :: "string list \<Rightarrow> fstab_entry config \<Rightarrow> fstab_entry config \<times> bool" where
  "read_fstab = read_columns fstab_entry_class True fstab_widths"

definition write_fstab :: "string \<Rightarrow> fstab_entry config \<Rightarrow> fstab_entry config \<times> string list option" where
  "write_fstab = write_columns fstab_entry_class True fstab_widths"

definition find_all_by_spec_and_mount_point :: "string \<Rightarrow> string \<Rightarrow> fstab_entry list \<Rightarrow> fstab_entry list" where
  "find_all_by_spec_and_mount_point spec mount_point es =
     filter (\<lambda>e. spec = fe_spec e \<and> mount_point = fe_mount_point e) es"

definition find_mount_point :: "string \<Rightarrow> fstab_entry list \<Rightarrow> fstab_entry option" where
  "find_mount_point mount_point es = find (\<lambda>e. fe_mount_point e = mount_point) es"

datatype mount_by = DEVICE | UUID | LABEL | ID | PATH | PARTUUID | PARTLABEL

definition get_mount_by :: "string \<Rightarrow> mount_by" where
  "get_mount_by spec =
     (if prefix ''UUID='' spec \<or> prefix ''/dev/disk/by-uuid/'' spec then UUID
      else if prefix ''LABEL='' spec \<or> prefix ''/dev/disk/by-label/'' spec then LABEL
      else if prefix ''/dev/disk/by-id/'' spec then ID
      else if prefix ''/dev/disk/by-path/'' spec then PATH
      else if prefix ''PARTUUID='' spec \<or> prefix ''/dev/disk/by-partuuid/'' spec then PARTUUID
      else if prefix ''PARTLABEL='' spec \<or> prefix ''/dev/disk/by-partlabel/'' spec then PARTLABEL
      else DEVICE)"

end
