(* ===== verification/BlkFilesystems.thy ===== *)
theory BlkFilesystems
  imports ResizeInfo Fstab
begin

text \<open>
  Filesystems on block devices (storage/Filesystems/BlkFilesystemImpl.cc and the classes of the
  filesystems): what each of them supports, the actions that create or modify one, and the limits
  of its size.
\<close>

section \<open>What the filesystems support\<close>

text \<open>
  The virtual functions that are constants. The greatest size of UDF depends on the block size of
  the device.
\<close>

record fs_class =
  fc_min_size :: u64
  fc_max_size :: "u64 \<Rightarrow> u64 result"
  fc_mounted_shrink :: bool
  fc_mounted_grow :: bool
  fc_unmounted_shrink :: bool
  fc_unmounted_grow :: bool
  fc_label :: bool
  fc_modify_label :: bool
  fc_max_labelsize :: u32
  fc_uuid :: bool
  fc_modify_uuid :: bool
  fc_external_journal :: bool
  fc_tune_options :: bool

definition ext_max_size :: "u64 \<Rightarrow> bool \<Rightarrow> u64" where
  "ext_max_size block_size feature_64bit =
     (if feature_64bit then block_size * push_bit 45 1 else block_size * push_bit 32 1)"

definition udf_max_size :: "u64 \<Rightarrow> u64 result" where
  "udf_max_size block_size =
     (if block_size < 512 \<or> 4 * KiB < block_size \<or> \<not> is_power_of_two block_size
      then Inl InvalidBlockSize else Inr (4 * GiB * block_size))"

text \<open>The class the three of ext are derived from, with the sizes of the first one.\<close>

definition ext_class :: fs_class where
  "ext_class =
     \<lparr>fc_min_size = 0, fc_max_size = \<lambda>_. Inl (Exn ''pure virtual''),
      fc_mounted_shrink = False, fc_mounted_grow = True, fc_unmounted_shrink = True,
      fc_unmounted_grow = True, fc_label = True, fc_modify_label = True, fc_max_labelsize = 16,
      fc_uuid = True, fc_modify_uuid = True, fc_external_journal = False, fc_tune_options = True\<rparr>"

definition ext2_class :: fs_class where
  "ext2_class =
     ext_class\<lparr>fc_min_size := 512 * KiB, fc_max_size := \<lambda>_. Inr (ext_max_size (4 * KiB) False)\<rparr>"

definition ext3_class :: fs_class where
  "ext3_class =
     ext_class\<lparr>fc_min_size := 10 * MiB, fc_max_size := \<lambda>_. Inr (ext_max_size (4 * KiB) False),
       fc_external_journal := True\<rparr>"

definition ext4_class :: fs_class where
  "ext4_class =
     ext_class\<lparr>fc_min_size := 32 * MiB, fc_max_size := \<lambda>_. Inr (ext_max_size (4 * KiB) True),
       fc_external_journal := True\<rparr>"

definition btrfs_class :: fs_class where
  "btrfs_class =
     \<lparr>fc_min_size = 256 * MiB, fc_max_size = \<lambda>_. Inr (16 * EiB - 1),
      fc_mounted_shrink = True, fc_mounted_grow = True, fc_unmounted_shrink = False,
      fc_unmounted_grow = False, fc_label = True, fc_modify_label = True, fc_max_labelsize = 256,
      fc_uuid = True, fc_modify_uuid = False, fc_external_journal = False, fc_tune_options = False\<rparr>"

definition xfs_class :: fs_class where
  "xfs_class =
     \<lparr>fc_min_size = 300 * MiB, fc_max_size = \<lambda>_. Inr (8 * EiB - 1),
      fc_mounted_shrink = False, fc_mounted_grow = True, fc_unmounted_shrink = False,
      fc_unmounted_grow = False, fc_label = True, fc_modify_label = True, fc_max_labelsize = 12,
      fc_uuid = True, fc_modify_uuid = True, fc_external_journal = True, fc_tune_options = False\<rparr>"

definition swap_class :: fs_class where
  "swap_class =
     \<lparr>fc_min_size = 40 * KiB, fc_max_size = \<lambda>_. Inr (1 * TiB),
      fc_mounted_shrink = False, fc_mounted_grow = False, fc_unmounted_shrink = True,
      fc_unmounted_grow = True, fc_label = True, fc_modify_label = True, fc_max_labelsize = 15,
      fc_uuid = True, fc_modify_uuid = True, fc_external_journal = False, fc_tune_options = False\<rparr>"

definition vfat_class :: fs_class where
  "vfat_class =
     \<lparr>fc_min_size = 64 * KiB, fc_max_size = \<lambda>_. Inr (2 * TiB),
      fc_mounted_shrink = False, fc_mounted_grow = False, fc_unmounted_shrink = False,
      fc_unmounted_grow = False, fc_label = True, fc_modify_label = True, fc_max_labelsize = 11,
      fc_uuid = True, fc_modify_uuid = False, fc_external_journal = False, fc_tune_options = False\<rparr>"

definition ntfs_class :: fs_class where
  "ntfs_class =
     \<lparr>fc_min_size = 1 * MiB, fc_max_size = \<lambda>_. Inr (256 * TiB - 64 * KiB),
      fc_mounted_shrink = False, fc_mounted_grow = False, fc_unmounted_shrink = True,
      fc_unmounted_grow = True, fc_label = True, fc_modify_label = True, fc_max_labelsize = 32,
      fc_uuid = True, fc_modify_uuid = False, fc_external_journal = False, fc_tune_options = False\<rparr>"

definition udf_class :: fs_class where
  "udf_class =
     \<lparr>fc_min_size = 256 * KiB, fc_max_size = udf_max_size,
      fc_mounted_shrink = False, fc_mounted_grow = False, fc_unmounted_shrink = False,
      fc_unmounted_grow = False, fc_label = True, fc_modify_label = False, fc_max_labelsize = 30,
      fc_uuid = True, fc_modify_uuid = False, fc_external_journal = False, fc_tune_options = False\<rparr>"

definition jfs_class :: fs_class where
  "jfs_class =
     \<lparr>fc_min_size = 16 * MiB, fc_max_size = \<lambda>_. Inr (32 * PiB),
      fc_mounted_shrink = False, fc_mounted_grow = False, fc_unmounted_shrink = False,
      fc_unmounted_grow = False, fc_label = True, fc_modify_label = True, fc_max_labelsize = 16,
      fc_uuid = True, fc_modify_uuid = True, fc_external_journal = False, fc_tune_options = False\<rparr>"

definition f2fs_class :: fs_class where
  "f2fs_class =
     \<lparr>fc_min_size = 29 * MiB, fc_max_size = \<lambda>_. Inr (16 * TiB),
      fc_mounted_shrink = False, fc_mounted_grow = False, fc_unmounted_shrink = False,
      fc_unmounted_grow = False, fc_label = True, fc_modify_label = False, fc_max_labelsize = 511,
      fc_uuid = True, fc_modify_uuid = False, fc_external_journal = False, fc_tune_options = False\<rparr>"

definition exfat_class :: fs_class where
  "exfat_class =
     \<lparr>fc_min_size = 86 * KiB, fc_max_size = \<lambda>_. Inr (128 * PiB),
      fc_mounted_shrink = False, fc_mounted_grow = False, fc_unmounted_shrink = False,
      fc_unmounted_grow = False, fc_label = True, fc_modify_label = True, fc_max_labelsize = 15,
      fc_uuid = True, fc_modify_uuid = False, fc_external_journal = False, fc_tune_options = False\<rparr>"

definition nilfs2_class :: fs_class where
  "nilfs2_class =
     \<lparr>fc_min_size = 129 * MiB, fc_max_size = \<lambda>_. Inr (8 * EiB - 1),
      fc_mounted_shrink = True, fc_mounted_grow = True, fc_unmounted_shrink = False,
      fc_unmounted_grow = False, fc_label = True, fc_modify_label = True, fc_max_labelsize = 80,
      fc_uuid = True, fc_modify_uuid = True, fc_external_journal = False, fc_tune_options = True\<rparr>"

definition reiserfs_class :: fs_class where
  "reiserfs_class =
     \<lparr>fc_min_size = 64 * MiB, fc_max_size = \<lambda>_. Inr (16 * TiB),
      fc_mounted_shrink = False, fc_mounted_grow = True, fc_unmounted_shrink = True,
      fc_unmounted_grow = True, fc_label = True, fc_modify_label = True, fc_max_labelsize = 16,
      fc_uuid = True, fc_modify_uuid = True, fc_external_journal = False, fc_tune_options = True\<rparr>"

definition iso9660_class :: fs_class where
  "iso9660_class =
     \<lparr>fc_min_size = 0, fc_max_size = \<lambda>_. Inr (2 * TiB),
      fc_mounted_shrink = False, fc_mounted_grow = False, fc_unmounted_shrink = False,
      fc_unmounted_grow = False, fc_label = True, fc_modify_label = False, fc_max_labelsize = 30,
      fc_uuid = True, fc_modify_uuid = False, fc_external_journal = False, fc_tune_options = False\<rparr>"

definition squashfs_class :: fs_class where
  "squashfs_class =
     \<lparr>fc_min_size = 0, fc_max_size = \<lambda>_. Inr (8 * EiB),
      fc_mounted_shrink = False, fc_mounted_grow = False, fc_unmounted_shrink = False,
      fc_unmounted_grow = False, fc_label = False, fc_modify_label = False, fc_max_labelsize = 0,
      fc_uuid = False, fc_modify_uuid = False, fc_external_journal = False, fc_tune_options = False\<rparr>"

definition erofs_class :: fs_class where
  "erofs_class =
     \<lparr>fc_min_size = 0, fc_max_size = \<lambda>_. Inr (1 * EiB),
      fc_mounted_shrink = False, fc_mounted_grow = False, fc_unmounted_shrink = False,
      fc_unmounted_grow = False, fc_label = True, fc_modify_label = False, fc_max_labelsize = 15,
      fc_uuid = True, fc_modify_uuid = False, fc_external_journal = False, fc_tune_options = False\<rparr>"

definition bcachefs_class :: fs_class where
  "bcachefs_class =
     \<lparr>fc_min_size = 16 * MiB, fc_max_size = \<lambda>_. Inr (8 * EiB - 1),
      fc_mounted_shrink = False, fc_mounted_grow = False, fc_unmounted_shrink = False,
      fc_unmounted_grow = True, fc_label = True, fc_modify_label = False, fc_max_labelsize = 32,
      fc_uuid = True, fc_modify_uuid = False, fc_external_journal = False, fc_tune_options = False\<rparr>"

definition bitlocker_class :: fs_class where
  "bitlocker_class =
     \<lparr>fc_min_size = 1 * MiB, fc_max_size = \<lambda>_. Inr (4 * TiB),
      fc_mounted_shrink = False, fc_mounted_grow = False, fc_unmounted_shrink = False,
      fc_unmounted_grow = False, fc_label = False, fc_modify_label = False, fc_max_labelsize = 0,
      fc_uuid = False, fc_modify_uuid = False, fc_external_journal = False, fc_tune_options = False\<rparr>"

text \<open>The registry of the classes.\<close>

definition fs_class_of :: "fs_type \<Rightarrow> fs_class option" where
  "fs_class_of t =
     (case t of
        BCACHEFS \<Rightarrow> Some bcachefs_class
      | BITLOCKER \<Rightarrow> Some bitlocker_class
      | BTRFS \<Rightarrow> Some btrfs_class
      | EROFS1 \<Rightarrow> Some erofs_class
      | EXFAT \<Rightarrow> Some exfat_class
      | EXT2 \<Rightarrow> Some ext2_class
      | EXT3 \<Rightarrow> Some ext3_class
      | EXT4 \<Rightarrow> Some ext4_class
      | F2FS \<Rightarrow> Some f2fs_class
      | ISO9660 \<Rightarrow> Some iso9660_class
      | JFS \<Rightarrow> Some jfs_class
      | NILFS2 \<Rightarrow> Some nilfs2_class
      | NTFS \<Rightarrow> Some ntfs_class
      | REISERFS \<Rightarrow> Some reiserfs_class
      | SQUASHFS \<Rightarrow> Some squashfs_class
      | SWAP \<Rightarrow> Some swap_class
      | UDF \<Rightarrow> Some udf_class
      | VFAT \<Rightarrow> Some vfat_class
      | XFS \<Rightarrow> Some xfs_class
      | _ \<Rightarrow> None)"

definition supports_shrink :: "fs_class \<Rightarrow> bool" where
  "supports_shrink c \<longleftrightarrow> fc_mounted_shrink c \<or> fc_unmounted_shrink c"

definition supports_grow :: "fs_class \<Rightarrow> bool" where
  "supports_grow c \<longleftrightarrow> fc_mounted_grow c \<or> fc_unmounted_grow c"

text \<open>A resize mode is \<open>True\<close> for growing.\<close>

definition supports_mounted_resize :: "fs_class \<Rightarrow> bool \<Rightarrow> bool" where
  "supports_mounted_resize c grow = (if grow then fc_mounted_grow c else fc_mounted_shrink c)"

definition supports_unmounted_resize :: "fs_class \<Rightarrow> bool \<Rightarrow> bool" where
  "supports_unmounted_resize c grow = (if grow then fc_unmounted_grow c else fc_unmounted_shrink c)"

section \<open>A filesystem\<close>

text \<open>
  The devices are those it is on, ordered by their names: sid, size and block size. The mount point
  is its state: active and read-only. The limits are cached, those of a Btrfs on several devices
  separately.
\<close>

record fs_device =
  fd_sid :: nat
  fd_size :: u64
  fd_block_size :: u64

record blk_filesystem =
  bf_type :: fs_type
  bf_devices :: "fs_device list"
  bf_mount_point :: "(bool \<times> bool) option"
  bf_label :: string
  bf_uuid :: string
  bf_tune_options :: "string \<times> string list"
  bf_resize_info :: "resize_info option"
  bf_multi_device_resize_info :: "resize_info option"

definition get_blk_device :: "blk_filesystem \<Rightarrow> fs_device result" where
  "get_blk_device fs =
     (case bf_devices fs of [] \<Rightarrow> Inl (WrongNumberOfParents 0 1) | d # _ \<Rightarrow> Inr d)"

definition fs_class_at :: "blk_filesystem \<Rightarrow> fs_class result" where
  "fs_class_at fs = (case fs_class_of (bf_type fs) of Some c \<Rightarrow> Inr c | None \<Rightarrow> Inl UndefinedBehaviour)"

text \<open>The greatest size; only UDF asks for the device.\<close>

definition fs_max_size :: "blk_filesystem \<Rightarrow> fs_class \<Rightarrow> u64 result" where
  "fs_max_size fs c =
     (if bf_type fs = UDF then ebind (get_blk_device fs) (\<lambda>d. fc_max_size c (fd_block_size d))
      else fc_max_size c 0)"

text \<open>Actions that change the filesystem itself.\<close>

datatype fs_action = CreateFs | SetLabel | SetUuid | SetTuneOptions

definition fs_create_actions :: "fs_class \<Rightarrow> blk_filesystem \<Rightarrow> fs_action list" where
  "fs_create_actions c fs =
     [CreateFs]
     @ (if bf_label fs \<noteq> [] \<and> fc_modify_label c then [SetLabel] else [])
     @ (if bf_uuid fs \<noteq> [] \<and> fc_modify_uuid c then [SetUuid] else [])
     @ (if fst (bf_tune_options fs) \<noteq> [] \<or> snd (bf_tune_options fs) \<noteq> [] then [SetTuneOptions] else [])"

definition fs_modify_actions :: "blk_filesystem \<Rightarrow> blk_filesystem \<Rightarrow> fs_action list result" where
  "fs_modify_actions lhs rhs =
     (if bf_type rhs \<noteq> bf_type lhs then Inl (Exn ''cannot change filesystem type'')
      else Inr (
        (if bf_label rhs \<noteq> bf_label lhs then [SetLabel] else [])
        @ (if bf_uuid rhs \<noteq> bf_uuid lhs then [SetUuid] else [])
        @ (if bf_tune_options rhs \<noteq> bf_tune_options lhs then [SetTuneOptions] else [])))"

section \<open>Limits of the size\<close>

definition RB_SHRINK_NOT_SUPPORTED_BY_FILESYSTEM :: u32 where
  "RB_SHRINK_NOT_SUPPORTED_BY_FILESYSTEM = push_bit 2 1"

definition RB_GROW_NOT_SUPPORTED_BY_FILESYSTEM :: u32 where
  "RB_GROW_NOT_SUPPORTED_BY_FILESYSTEM = push_bit 3 1"

definition RB_FILESYSTEM_INCONSISTENT :: u32 where
  "RB_FILESYSTEM_INCONSISTENT = push_bit 4 1"

definition RB_MIN_SIZE_FOR_FILESYSTEM :: u32 where
  "RB_MIN_SIZE_FOR_FILESYSTEM = push_bit 5 1"

definition RB_MAX_SIZE_FOR_FILESYSTEM :: u32 where
  "RB_MAX_SIZE_FOR_FILESYSTEM = push_bit 6 1"

definition RB_FILESYSTEM_FULL :: u32 where
  "RB_FILESYSTEM_FULL = push_bit 7 1"

definition RB_SHRINK_NOT_SUPPORTED_BY_MULTIDEVICE_FILESYSTEM :: u32 where
  "RB_SHRINK_NOT_SUPPORTED_BY_MULTIDEVICE_FILESYSTEM = push_bit 17 1"

definition RB_FILESYSTEM_MOUNT_READ_ONLY :: u32 where
  "RB_FILESYSTEM_MOUNT_READ_ONLY = push_bit 20 1"

text \<open>
  What the system says: the free and the used size of the mounted filesystem, the least number of
  blocks, the block size and the 64 bit feature of ext, the least size of NTFS, and the product of
  a size with 1.5 as a \<open>double\<close>.
\<close>

record fs_answers =
  ans_free :: "u64 result"
  ans_used :: "u64 result"
  ans_ext :: "(u64 \<times> u64 \<times> bool) result"
  ans_ntfs :: "u64 result"
  ans_margin :: "u64 \<Rightarrow> u64"

text \<open>Exceptions are caught; undefined behaviour is not an exception.\<close>

definition catch_exception :: "'a result \<Rightarrow> 'a result \<Rightarrow> 'a result" where
  "catch_exception m handler =
     (case m of
        Inl e \<Rightarrow> if List.member [DivisionByZero, UndefinedBehaviour, Diverges] e then Inl e else handler
      | Inr a \<Rightarrow> Inr a)"

text \<open>Even if shrinking or growing is not supported the original size is possible.\<close>

definition limit_below :: "fs_answers \<Rightarrow> fs_class \<Rightarrow> u64 \<Rightarrow> resize_info \<Rightarrow> resize_info result" where
  "limit_below ans c sz ri =
     (if \<not> supports_shrink c
      then Inr (add_reason RB_SHRINK_NOT_SUPPORTED_BY_FILESYSTEM (ri\<lparr>min_size := sz\<rparr>))
      else ebind (ans_free ans) (\<lambda>free.
        let m = max (min_size ri) (sz - free);
            ri = (if sz \<le> m then add_reason RB_FILESYSTEM_FULL ri else ri)\<lparr>min_size := min m sz\<rparr>
        in Inr (if sz \<le> fc_min_size c then add_reason RB_MIN_SIZE_FOR_FILESYSTEM ri else ri)))"

definition limit_above :: "fs_class \<Rightarrow> u64 \<Rightarrow> u64 \<Rightarrow> resize_info \<Rightarrow> resize_info" where
  "limit_above c sz hi ri =
     (if \<not> supports_grow c
      then add_reason RB_GROW_NOT_SUPPORTED_BY_FILESYSTEM (ri\<lparr>max_size := sz\<rparr>)
      else if hi \<le> sz then add_reason RB_MAX_SIZE_FOR_FILESYSTEM ri else ri)"

definition full_reason :: "resize_info \<Rightarrow> resize_info" where
  "full_reason ri = (if max_size ri \<le> min_size ri then add_reason RB_FILESYSTEM_FULL ri else ri)"

definition blk_filesystem_on_disk :: "fs_answers \<Rightarrow> blk_filesystem \<Rightarrow> fs_class \<Rightarrow> resize_info result" where
  "blk_filesystem_on_disk ans fs c =
     ebind (fs_max_size fs c) (\<lambda>hi.
     ebind (resize_info_new True 0 (fc_min_size c) hi) (\<lambda>ri.
     ebind (get_blk_device fs) (\<lambda>d.
     ebind (limit_below ans c (fd_size d) ri) (\<lambda>ri.
       Inr (full_reason (limit_above c (fd_size d) hi ri))))))"

definition ext_on_disk :: "fs_answers \<Rightarrow> blk_filesystem \<Rightarrow> resize_info result" where
  "ext_on_disk ans fs =
     ebind (get_blk_device fs) (\<lambda>d.
       catch_exception
         (ebind (ans_ext ans) (\<lambda>(min_blocks, block_size, feature_64bit).
          ebind (resize_info_any True 0) (\<lambda>ri.
          ebind (combine_block_size block_size
              (ri\<lparr>min_size := min (min_blocks * block_size) (fd_size d),
                 max_size := ext_max_size block_size feature_64bit\<rparr>)) (\<lambda>ri.
            Inr (full_reason ri)))))
         (resize_info_any False RB_FILESYSTEM_INCONSISTENT))"

definition ntfs_on_disk :: "fs_answers \<Rightarrow> blk_filesystem \<Rightarrow> fs_class \<Rightarrow> resize_info result" where
  "ntfs_on_disk ans fs c =
     ebind (get_blk_device fs) (\<lambda>d.
       catch_exception
         (ebind (ans_ntfs ans) (\<lambda>least.
          ebind (fs_max_size fs c) (\<lambda>hi.
          ebind (resize_info_new True 0 (least + 100 * MiB) hi) (\<lambda>ri.
            Inr (full_reason (ri\<lparr>min_size := min (min_size ri) (fd_size d)\<rparr>))))))
         (resize_info_any False RB_FILESYSTEM_INCONSISTENT))"

text \<open>The limits of a Btrfs on several devices, as a whole or of one of its devices.\<close>

definition btrfs_on_disk ::
  "fs_answers \<Rightarrow> fs_device option \<Rightarrow> blk_filesystem \<Rightarrow> fs_class \<Rightarrow> resize_info result" where
  "btrfs_on_disk ans query fs c =
     (if length (bf_devices fs) = 1 then blk_filesystem_on_disk ans fs c
      else
        ebind (fs_max_size fs c) (\<lambda>hi.
        ebind (resize_info_new True 0 (fc_min_size c) hi) (\<lambda>ri.
          case query of
            None \<Rightarrow> ebind (ans_used ans) (\<lambda>used.
              Inr (full_reason (add_reason RB_SHRINK_NOT_SUPPORTED_BY_MULTIDEVICE_FILESYSTEM
                (ri\<lparr>min_size := ans_margin ans (min_size ri + used)\<rparr>))))
          | Some d \<Rightarrow>
              Inr (if list_ex (\<lambda>e. fd_sid e = fd_sid d) (bf_devices fs)
                then add_reason RB_SHRINK_NOT_SUPPORTED_BY_MULTIDEVICE_FILESYSTEM
                  (ri\<lparr>min_size := max (min_size ri) (fd_size d)\<rparr>)
                else ri))))"

definition fs_detect_on_disk :: "fs_answers \<Rightarrow> fs_device option \<Rightarrow> blk_filesystem \<Rightarrow> resize_info result" where
  "fs_detect_on_disk ans query fs =
     ebind (fs_class_at fs) (\<lambda>c.
       if List.member [EXT2, EXT3, EXT4] (bf_type fs) then ext_on_disk ans fs
       else if bf_type fs = NTFS then ntfs_on_disk ans fs c
       else if bf_type fs = BTRFS then btrfs_on_disk ans query fs c
       else blk_filesystem_on_disk ans fs c)"

text \<open>
  The limits of a filesystem that may not be on disk yet: \<open>sys\<close> is the filesystem in the system.
  The limits on disk are cached, not those of a filesystem that is mounted read-only.
\<close>

definition blk_filesystem_detect ::
  "fs_answers \<Rightarrow> blk_filesystem option \<Rightarrow> fs_device option \<Rightarrow> blk_filesystem \<Rightarrow>
   (resize_info \<times> blk_filesystem) result" where
  "blk_filesystem_detect ans sys query fs =
     (case sys of
        None \<Rightarrow>
          ebind (fs_class_at fs) (\<lambda>c.
          ebind (fs_max_size fs c) (\<lambda>hi.
          ebind (resize_info_new True 0 (fc_min_size c) hi) (\<lambda>ri.
          ebind (get_blk_device fs) (\<lambda>d.
            let ri = (if fd_size d \<le> fc_min_size c then add_reason RB_MIN_SIZE_FOR_FILESYSTEM ri else ri);
                ri = (if hi \<le> fd_size d then add_reason RB_MAX_SIZE_FOR_FILESYSTEM ri else ri)
            in Inr (ri, fs)))))
      | Some s \<Rightarrow>
          (case bf_resize_info fs of
             Some ri \<Rightarrow> Inr (ri, fs)
           | None \<Rightarrow>
               if bf_mount_point s = Some (True, True)
               then emap (\<lambda>ri. (ri, fs)) (resize_info_any False RB_FILESYSTEM_MOUNT_READ_ONLY)
               else emap (\<lambda>ri. (ri, fs\<lparr>bf_resize_info := Some ri\<rparr>)) (fs_detect_on_disk ans query s)))"

definition btrfs_detect ::
  "fs_answers \<Rightarrow> blk_filesystem option \<Rightarrow> fs_device option \<Rightarrow> blk_filesystem \<Rightarrow> fs_class \<Rightarrow>
   (resize_info \<times> blk_filesystem) result" where
  "btrfs_detect ans sys query fs c =
     (if \<exists>d \<in> set_option query. \<not> list_ex (\<lambda>e. fd_sid e = fd_sid d) (bf_devices fs)
      then Inl (Exn ''function called with wrong device'')
      else
        ebind (fs_max_size fs c) (\<lambda>hi.
        ebind (resize_info_new True 0 (fc_min_size c) hi) (\<lambda>default_resize_info.
          case sys of
            None \<Rightarrow>
              if length (bf_devices fs) = 1 then blk_filesystem_detect ans None None fs
              else Inr (default_resize_info, fs)
          | Some s \<Rightarrow>
              if length (bf_devices s) = 1
              then
                (case query of
                   None \<Rightarrow> blk_filesystem_detect ans sys None fs
                 | Some d \<Rightarrow>
                     ebind (get_blk_device s) (\<lambda>e.
                       if fd_sid d \<noteq> fd_sid e then Inr (default_resize_info, fs)
                       else blk_filesystem_detect ans sys None fs))
              else
                (case query of
                   Some d \<Rightarrow> emap (\<lambda>ri. (ri, fs)) (fs_detect_on_disk ans query s)
                 | None \<Rightarrow>
                     (case bf_multi_device_resize_info fs of
                        Some ri \<Rightarrow> Inr (ri, fs)
                      | None \<Rightarrow> emap (\<lambda>ri. (ri, fs\<lparr>bf_multi_device_resize_info := Some ri\<rparr>))
                          (fs_detect_on_disk ans None s))))))"

definition fs_detect_resize_info ::
  "fs_answers \<Rightarrow> blk_filesystem option \<Rightarrow> fs_device option \<Rightarrow> blk_filesystem \<Rightarrow>
   (resize_info \<times> blk_filesystem) result" where
  "fs_detect_resize_info ans sys query fs =
     ebind (fs_class_at fs) (\<lambda>c.
       if bf_type fs = SWAP
       then ebind (fs_max_size fs c) (\<lambda>hi. emap (\<lambda>ri. (ri, fs)) (resize_info_new True 0 (fc_min_size c) hi))
       else if bf_type fs = BTRFS then btrfs_detect ans sys query fs c
       else blk_filesystem_detect ans sys query fs)"

section \<open>The limits are safe\<close>

lemma round_one [simp]: "round_up x 1 = Inr x" "round_down x 1 = Inr x"
  by (simp_all add: round_up_def round_down_def)

lemma resize_info_new_facts:
  assumes "resize_info_new ok r lo hi = Inr ri"
  shows "min_size ri = lo" and "max_size ri = hi" and "ri_block_size ri = 1" and "resize_ok ri \<Longrightarrow> ok"
  using assms by (auto simp: resize_info_new_def ri_check_def Let_def add_reason_def split: if_splits)

lemma resize_info_False: "resize_info_any False r = Inr ri \<Longrightarrow> \<not> resize_ok ri"
  using resize_info_new_facts(4) by (auto simp: resize_info_any_def)

lemma add_reason_simps [simp]:
  "min_size (add_reason r ri) = min_size ri" "max_size (add_reason r ri) = max_size ri"
  "ri_block_size (add_reason r ri) = ri_block_size ri" "resize_ok (add_reason r ri) = resize_ok ri"
  by (simp_all add: add_reason_def)

lemma full_reason_simps [simp]:
  "min_size (full_reason ri) = min_size ri" "max_size (full_reason ri) = max_size ri"
  "ri_block_size (full_reason ri) = ri_block_size ri" "resize_ok (full_reason ri) = resize_ok ri"
  by (simp_all add: full_reason_def)

text \<open>A size is enough for what the system says is on the device.\<close>

definition holds_data :: "fs_answers \<Rightarrow> fs_type \<Rightarrow> fs_device \<Rightarrow> nat \<Rightarrow> bool" where
  "holds_data ans t d s =
     (if List.member [EXT2, EXT3, EXT4] t
      then case ans_ext ans of Inr (n, b, f) \<Rightarrow> unat n * unat b \<le> s | Inl _ \<Rightarrow> False
      else if t = NTFS
      then case ans_ntfs ans of Inr m \<Rightarrow> unat m + 100 * 2 ^ 20 \<le> s | Inl _ \<Rightarrow> False
      else case ans_free ans of Inr free \<Rightarrow> unat (fd_size d) \<le> s + unat free | Inl _ \<Rightarrow> False)"

text \<open>The sizes the system says fit into 64 bits.\<close>

definition fitting_answers :: "fs_answers \<Rightarrow> fs_device \<Rightarrow> bool" where
  "fitting_answers ans d \<longleftrightarrow>
     (\<forall>n b f. ans_ext ans = Inr (n, b, f) \<longrightarrow> unat n * unat b < 2 ^ 64 \<and> unat (fd_size d) + unat b \<le> 2 ^ 64) \<and>
     (\<forall>m. ans_ntfs ans = Inr m \<longrightarrow> unat m + 100 * 2 ^ 20 < 2 ^ 64)"

lemma limit_below_facts:
  assumes "limit_below ans c sz ri = Inr ri'"
  shows "max_size ri' = max_size ri" and "ri_block_size ri' = ri_block_size ri" and "min_size ri' \<le> sz"
    and "unat (min_size ri') \<le> s \<Longrightarrow> s < unat sz \<Longrightarrow>
      supports_shrink c \<and> (\<exists>free. ans_free ans = Inr free \<and> unat sz \<le> s + unat free)"
proof -
  have "max_size ri' = max_size ri \<and> ri_block_size ri' = ri_block_size ri \<and> min_size ri' \<le> sz \<and>
    (unat (min_size ri') \<le> s \<longrightarrow> s < unat sz \<longrightarrow>
      supports_shrink c \<and> (\<exists>free. ans_free ans = Inr free \<and> unat sz \<le> s + unat free))"
  proof (cases "supports_shrink c")
    case False
    then show ?thesis using assms by (auto simp: limit_below_def)
  next
    case True
    then obtain free where free: "ans_free ans = Inr free"
      using assms by (auto simp: limit_below_def result_simps)
    have ri': "max_size ri' = max_size ri" "ri_block_size ri' = ri_block_size ri"
      "min_size ri' = min (max (min_size ri) (sz - free)) sz"
      using assms True by (auto simp: limit_below_def free Let_def)
    have "unat ((sz - free) + free) \<le> unat (sz - free) + unat free"
      by (simp only: unat_word_ariths(1) mod_less_eq_dividend)
    then have "unat sz \<le> unat (sz - free) + unat free" by simp
    then show ?thesis using True free ri' by (auto simp: unat_min unat_max)
  qed
  then show "max_size ri' = max_size ri" "ri_block_size ri' = ri_block_size ri" "min_size ri' \<le> sz"
    "unat (min_size ri') \<le> s \<Longrightarrow> s < unat sz \<Longrightarrow>
      supports_shrink c \<and> (\<exists>free. ans_free ans = Inr free \<and> unat sz \<le> s + unat free)"
    by blast+
qed

lemma base_limits:
  assumes "blk_filesystem_on_disk ans fs c = Inr ri" and "bf_devices fs = [d]" and "allowed ri s"
  shows "s < unat (fd_size d) \<Longrightarrow>
      supports_shrink c \<and> (\<exists>free. ans_free ans = Inr free \<and> unat (fd_size d) \<le> s + unat free)"
    and "unat (fd_size d) < s \<Longrightarrow> supports_grow c"
proof -
  obtain hi ri1 ri2 where r: "fs_max_size fs c = Inr hi" "resize_info_new True 0 (fc_min_size c) hi = Inr ri1"
    "limit_below ans c (fd_size d) ri1 = Inr ri2" "ri = full_reason (limit_above c (fd_size d) hi ri2)"
    using assms(1,2) by (auto simp: blk_filesystem_on_disk_def get_blk_device_def result_simps)
  have mins: "min_size ri = min_size ri2" by (simp add: r(4) limit_above_def)
  then show "s < unat (fd_size d) \<Longrightarrow>
      supports_shrink c \<and> (\<exists>free. ans_free ans = Inr free \<and> unat (fd_size d) \<le> s + unat free)"
    using assms(3) by (intro limit_below_facts(4) [OF r(3)]) (simp_all add: allowed_def)
  show "unat (fd_size d) < s \<Longrightarrow> supports_grow c"
    using assms(3) by (rule_tac ccontr) (simp add: r(4) limit_above_def allowed_def)
qed

lemma round_up_grows:
  assumes "round_up x m = Inr w" and "unat x + unat m \<le> 2 ^ 64"
  shows "unat x \<le> unat w" and "unat w < unat x + unat m"
proof -
  have m: "m \<noteq> 0" using assms(1) by (auto simp: round_up_def)
  then have m0: "0 < unat m" by (simp add: unat_gt_0)
  have "up_to (unat m) (unat x) < 2 ^ 64" using up_to_less [OF m0, of "unat x"] assms(2) by linarith
  from round_up_spec [OF m this] have "unat w = up_to (unat m) (unat x)" using assms(1) by auto
  then show "unat x \<le> unat w" "unat w < unat x + unat m"
    using up_to_less [OF m0, of "unat x"] up_to_ge [of "unat x" "unat m"] by simp_all
qed

lemma ntfs_limits:
  assumes "ntfs_on_disk ans fs c = Inr ri" and "resize_ok ri" and "bf_devices fs = [d]" and "allowed ri s"
    and "fitting_answers ans d" and "s < unat (fd_size d)"
  shows "\<exists>m. ans_ntfs ans = Inr m \<and> unat m + 100 * 2 ^ 20 \<le> s"
proof -
  obtain m hi ri1 where r: "ans_ntfs ans = Inr m" "resize_info_new True 0 (m + 100 * MiB) hi = Inr ri1"
    "ri = full_reason (ri1\<lparr>min_size := min (min_size ri1) (fd_size d)\<rparr>)"
    using assms(1-3) resize_info_False
    by (auto simp: ntfs_on_disk_def get_blk_device_def catch_exception_def ebind_def split: sum.splits if_splits)
  have "unat m + unat (100 * MiB) < 2 ^ 64"
    using assms(5) r(1) by (simp add: fitting_answers_def MiB_def KiB_def)
  then have "unat (m + 100 * MiB) = unat m + 100 * 2 ^ 20"
    by (subst unat_add_no_wrap) (simp_all add: MiB_def KiB_def)
  then show ?thesis
    using assms(4,6) r(1) resize_info_new_facts(1) [OF r(2)] by (auto simp: r(3) allowed_def unat_min)
qed

lemma ext_limits:
  assumes "ext_on_disk ans fs = Inr ri" and "resize_ok ri" and "bf_devices fs = [d]" and "allowed ri s"
    and "fitting_answers ans d" and "s < unat (fd_size d)"
  shows "\<exists>n b f. ans_ext ans = Inr (n, b, f) \<and> unat n * unat b \<le> s"
proof -
  obtain n b f ri1 ri2 where r: "ans_ext ans = Inr (n, b, f)" "resize_info_any True 0 = Inr ri1"
    "combine_block_size b (ri1\<lparr>min_size := min (n * b) (fd_size d), max_size := ext_max_size b f\<rparr>) = Inr ri2"
    "ri = full_reason ri2"
    using assms(1-3) resize_info_False
    by (auto simp: ext_on_disk_def get_blk_device_def catch_exception_def ebind_def split: sum.splits if_splits)
  let ?lo = "min (n * b) (fd_size d)"
  have fits: "unat n * unat b < 2 ^ 64" "unat (fd_size d) + unat b \<le> 2 ^ 64"
    using assms(5) r(1) by (auto simp: fitting_answers_def)
  have nb: "unat (n * b) = unat n * unat b" using fits(1) by (simp add: unat_word_ariths)
  have "ri_block_size ri1 = 1" using resize_info_new_facts(3) r(2) by (simp add: resize_info_any_def)
  then have l: "lcm_u64 (ri_block_size ri1) b = b" by (simp add: lcm_u64_def)
  then obtain w where w: "round_up ?lo b = Inr w" "min_size ri2 = w"
    using r(3) by (auto simp: combine_block_size_def ri_check_def Let_def result_simps split: if_splits)
  have "unat ?lo \<le> unat w" using round_up_grows(1) [OF w(1)] fits(2) by (simp add: unat_min)
  then show ?thesis using assms(4,6) r(1) w(2) nb by (auto simp: r(4) allowed_def unat_min)
qed

text \<open>
  The limits that are detected for a filesystem on a device are safe: a smaller size is allowed
  only when the filesystem can shrink and what the system says is on it still fits, a greater size
  only when it can grow.
\<close>

theorem filesystem_limits_safe:
  assumes "fs_detect_on_disk ans query fs = Inr ri" and "resize_ok ri" and "bf_devices fs = [d]"
    and "fs_class_of (bf_type fs) = Some c" and "fitting_answers ans d" and "allowed ri s"
  shows "(s < unat (fd_size d) \<longrightarrow> supports_shrink c \<and> holds_data ans (bf_type fs) d s) \<and>
    (unat (fd_size d) < s \<longrightarrow> supports_grow c)"
proof -
  have c: "fs_class_at fs = Inr c" using assms(4) by (simp add: fs_class_at_def)
  consider (ext) "List.member [EXT2, EXT3, EXT4] (bf_type fs)" "ext_on_disk ans fs = Inr ri"
    | (ntfs) "bf_type fs = NTFS" "ntfs_on_disk ans fs c = Inr ri"
    | (base) "\<not> List.member [EXT2, EXT3, EXT4] (bf_type fs)" "bf_type fs \<noteq> NTFS"
        "blk_filesystem_on_disk ans fs c = Inr ri"
    using assms(1,3) by (auto simp: fs_detect_on_disk_def c btrfs_on_disk_def split: if_splits)
  then show ?thesis
  proof cases
    case ext
    then have "supports_shrink c \<and> supports_grow c"
      using assms(4) by (auto simp: fs_class_of_def supports_shrink_def supports_grow_def
          ext2_class_def ext3_class_def ext4_class_def ext_class_def)
    then show ?thesis using ext_limits [OF ext(2) assms(2,3,6,5)] ext(1) by (auto simp: holds_data_def)
  next
    case ntfs
    then have "supports_shrink c \<and> supports_grow c"
      using assms(4) by (auto simp: fs_class_of_def supports_shrink_def supports_grow_def ntfs_class_def)
    then show ?thesis using ntfs_limits [OF ntfs(2) assms(2,3,6,5)] ntfs(1) by (auto simp: holds_data_def)
  next
    case base
    then show ?thesis using base_limits [OF base(3) assms(3,6)] by (auto simp: holds_data_def)
  qed
qed

end
