(* ===== verification/Names.thy ===== *)
theory Names
  imports Prelude "HOL-Library.Sublist"
begin

text \<open>
  The names of logical volumes and of device mapper tables: which names of volume groups and
  logical volumes are valid (\<open>is_valid_vg_name\<close> in storage/Devices/LvmVgImpl.cc and
  \<open>is_valid_lv_name\<close> in LvmLvImpl.cc), the block device name and the table name made of them, and
  the encoding of names below /dev/mapper (storage/Utils/Dm.cc).

  The lemmas show that no two volumes share a name, and which table names are encoded alike.
\<close>

section \<open>Valid names\<close>

text \<open>The character classes of the regular expression.\<close>

definition code :: "char \<Rightarrow> nat" where
  "code c = of_char c"

definition name_char :: "char \<Rightarrow> bool" where
  "name_char c \<longleftrightarrow> (97 \<le> code c \<and> code c \<le> 122) \<or> (65 \<le> code c \<and> code c \<le> 90) \<or>
     (48 \<le> code c \<and> code c \<le> 57) \<or> c \<in> set ''+_.''"

definition name_regex :: "string \<Rightarrow> bool" where
  "name_regex s =
     (case s of [] \<Rightarrow> False | c # cs \<Rightarrow> name_char c \<and> list_all (\<lambda>d. name_char d \<or> d = CHR ''-'') cs)"

definition is_valid_vg_name :: "string \<Rightarrow> bool" where
  "is_valid_vg_name s \<longleftrightarrow> name_regex s \<and> \<not> (s = ''.'' \<or> s = ''..'') \<and> length s \<le> 127"

definition illegal_subnames :: "string list" where
  "illegal_subnames = [''_cdata'', ''_cmeta'', ''_corig'', ''_mlog'', ''_mimage'', ''_pmspare'', ''_rimage'',
     ''_rmeta'', ''_tdata'', ''_tmeta'', ''_vorigin'', ''_vdata'']"

definition is_valid_lv_name :: "string \<Rightarrow> bool" where
  "is_valid_lv_name s \<longleftrightarrow> name_regex s \<and>
     \<not> (s = ''.'' \<or> s = ''..'' \<or> s = ''snapshot'' \<or> s = ''pvmove'') \<and> length s \<le> 127 \<and>
     list_all (\<lambda>i. \<not> sublist i s) illegal_subnames"

section \<open>Names made of them\<close>

definition make_name :: "string \<Rightarrow> string \<Rightarrow> string" where
  "make_name vg lv = ''/dev/'' @ vg @ ''/'' @ lv"

definition double_dashes :: "string \<Rightarrow> string" where
  "double_dashes s = concat (map (\<lambda>c. if c = CHR ''-'' then ''--'' else [c]) s)"

definition make_dm_table_name :: "string \<Rightarrow> string \<Rightarrow> string" where
  "make_dm_table_name vg lv = double_dashes vg @ ''-'' @ double_dashes lv"

text \<open>
  \<open>dm_encode\<close> looks for the next character to be encoded from a position on, and replaces it: what
  is before the position is final, so the loop is a recursion on the rest.
\<close>

definition hex_digit :: "nat \<Rightarrow> char" where
  "hex_digit n = char_of (if n < 10 then 48 + n else 87 + n)"

definition hex_escape :: "char \<Rightarrow> string" where
  "hex_escape c = CHR 0x5C # CHR ''x'' # [hex_digit (code c div 16), hex_digit (code c mod 16)]"

definition special :: "char \<Rightarrow> bool" where
  "special c \<longleftrightarrow> c \<in> set '' !$%*~''"

function dm_encode :: "string \<Rightarrow> string" where
  "dm_encode r = takeWhile (Not \<circ> special) r @
     (case dropWhile (Not \<circ> special) r of [] \<Rightarrow> [] | c # cs \<Rightarrow> hex_escape c @ dm_encode cs)"
  by auto
termination
proof (relation "measure length")
  fix r c cs
  assume "dropWhile (Not \<circ> special) r = c # cs"
  then have "length (c # cs) \<le> length r" by (metis length_dropWhile_le)
  then show "(cs, r) \<in> measure length" by simp
qed simp

declare dm_encode.simps [simp del]

text \<open>The name of an encryption device.\<close>

definition encryption_name :: "string \<Rightarrow> string" where
  "encryption_name dm_table_name = ''/dev/mapper/'' @ dm_encode dm_table_name"

section \<open>Distinct volumes have distinct names\<close>

lemma double_dashes_simps [simp]:
  "double_dashes [] = []"
  "double_dashes (CHR ''-'' # s) = CHR ''-'' # CHR ''-'' # double_dashes s"
  "c \<noteq> CHR ''-'' \<Longrightarrow> double_dashes (c # s) = c # double_dashes s"
  by (simp_all add: double_dashes_def)

lemma double_dashes_inj: "double_dashes s = double_dashes t \<Longrightarrow> s = t"
proof (induction s arbitrary: t)
  case Nil
  then show ?case by (cases t) (auto simp: double_dashes_def split: if_splits)
next
  case (Cons c s)
  then show ?case by (cases t) (auto simp: double_dashes_def split: if_splits)
qed

text \<open>The separator is found from the left, where two dashes are one of the first name.\<close>

definition starts_plain :: "string \<Rightarrow> bool" where
  "starts_plain s \<longleftrightarrow> s \<noteq> [] \<and> hd s \<noteq> CHR ''-''"

lemma hd_double_dashes:
  assumes "starts_plain s"
  shows "\<exists>c u. double_dashes s = c # u \<and> c \<noteq> CHR ''-''"
  using assms by (cases s) (auto simp: starts_plain_def)

lemma separator_unique:
  assumes "double_dashes v @ CHR ''-'' # double_dashes l = double_dashes v' @ CHR ''-'' # double_dashes l'"
    and "starts_plain l" and "starts_plain l'"
  shows "v = v' \<and> l = l'"
  using assms(1)
proof (induction v arbitrary: v')
  case Nil
  show ?case
  proof (cases v')
    case Nil
    then show ?thesis using Nil.prems double_dashes_inj by simp
  next
    case (Cons c w)
    then show ?thesis
      using Nil.prems hd_double_dashes [OF assms(2)] by (cases "c = CHR ''-''") auto
  qed
next
  case (Cons c v)
  show ?case
  proof (cases v')
    case Nil
    then show ?thesis
      using Cons.prems hd_double_dashes [OF assms(3)] by (cases "c = CHR ''-''") auto
  next
    case (Cons d w)
    then have "c = d" "double_dashes v @ CHR ''-'' # double_dashes l = double_dashes w @ CHR ''-'' # double_dashes l'"
      using Cons.prems by (cases "c = CHR ''-''"; cases "d = CHR ''-''"; simp)+
    then show ?thesis using Cons.IH [of w] Cons by simp
  qed
qed

lemma name_char_not_dash [simp]: "\<not> name_char CHR ''-''" "\<not> name_char CHR ''/''"
  by (simp_all add: name_char_def code_def)

lemma name_regex_starts_plain: "name_regex s \<Longrightarrow> starts_plain s"
  by (auto simp: name_regex_def starts_plain_def split: list.splits)

lemma name_regex_no_slash: "name_regex s \<Longrightarrow> CHR ''/'' \<notin> set s"
  by (auto simp: name_regex_def list_all_iff split: list.splits)

lemma append_slash_inj:
  assumes "v @ CHR ''/'' # l = v' @ CHR ''/'' # l'" and "CHR ''/'' \<notin> set v" and "CHR ''/'' \<notin> set v'"
  shows "v = v' \<and> l = l'"
  using assms
proof (induction v arbitrary: v')
  case Nil
  then show ?case by (cases v') auto
next
  case (Cons c v)
  then show ?case by (cases v') auto
qed

text \<open>
  For valid names of volume groups and logical volumes both the name of the block device and
  the name of the device mapper table determine the volume group and the logical volume, so two
  volumes never share either.
\<close>

theorem lv_names_unique:
  assumes "is_valid_vg_name vg" and "is_valid_lv_name lv" and "is_valid_vg_name vg'" and "is_valid_lv_name lv'"
  shows "(make_dm_table_name vg lv = make_dm_table_name vg' lv' \<longleftrightarrow> vg = vg' \<and> lv = lv') \<and>
    (make_name vg lv = make_name vg' lv' \<longleftrightarrow> vg = vg' \<and> lv = lv')"
proof -
  have r: "name_regex vg" "name_regex lv" "name_regex vg'" "name_regex lv'"
    using assms by (simp_all add: is_valid_vg_name_def is_valid_lv_name_def)
  have "make_dm_table_name vg lv = make_dm_table_name vg' lv' \<Longrightarrow> vg = vg' \<and> lv = lv'"
    using separator_unique [OF _ name_regex_starts_plain [OF r(2)] name_regex_starts_plain [OF r(4)], of vg vg']
    by (simp add: make_dm_table_name_def)
  moreover have "make_name vg lv = make_name vg' lv' \<Longrightarrow> vg = vg' \<and> lv = lv'"
    using append_slash_inj [OF _ name_regex_no_slash [OF r(1)] name_regex_no_slash [OF r(3)], of lv lv']
    by (simp add: make_name_def)
  ultimately show ?thesis by blast
qed

text \<open>The dashes of both names and the separator: my--vg-home--1 against my-vg--home--1.\<close>

theorem lv_names_unique_witness:
  "make_dm_table_name ''my-vg'' ''home-1'' = ''my--vg-home--1'' \<and>
   make_dm_table_name ''my-vg'' ''home-1'' \<noteq> make_dm_table_name ''my'' ''vg-home-1''"
proof -
  have v: "is_valid_vg_name ''my-vg''" "is_valid_lv_name ''home-1''" "is_valid_vg_name ''my''"
    "is_valid_lv_name ''vg-home-1''"
    by code_simp+
  have e: "make_dm_table_name ''my-vg'' ''home-1'' = ''my--vg-home--1''" by code_simp
  have "''my-vg'' \<noteq> ''my''" by simp
  then have "make_dm_table_name ''my-vg'' ''home-1'' \<noteq> make_dm_table_name ''my'' ''vg-home-1''"
    using lv_names_unique [OF v] by blast
  then show ?thesis using e by blast
qed

section \<open>The encoding of table names\<close>

definition encode_char :: "char \<Rightarrow> string" where
  "encode_char c = (if special c then hex_escape c else [c])"

lemma encode_char_simps [simp]:
  "special c \<Longrightarrow> encode_char c = hex_escape c"
  "\<not> special c \<Longrightarrow> encode_char c = [c]"
  by (simp_all add: encode_char_def)

lemma concat_encode_plain: "\<forall>c \<in> set s. \<not> special c \<Longrightarrow> concat (map encode_char s) = s"
  by (induction s) simp_all

text \<open>The loop encodes character by character, and passes over what it inserts.\<close>

lemma dm_encode_eq: "dm_encode s = concat (map encode_char s)"
proof (induction s rule: dm_encode.induct)
  case (1 r)
  let ?p = "takeWhile (Not \<circ> special) r" and ?d = "dropWhile (Not \<circ> special) r"
  have p: "concat (map encode_char ?p) = ?p"
    by (rule concat_encode_plain) (auto dest: set_takeWhileD)
  have r: "concat (map encode_char r) = ?p @ concat (map encode_char ?d)"
    using p by (metis concat_append map_append takeWhile_dropWhile_id)
  have e: "dm_encode r = ?p @ (case ?d of [] \<Rightarrow> [] | c # cs \<Rightarrow> hex_escape c @ dm_encode cs)"
    by (rule dm_encode.simps)
  show ?case
  proof (cases ?d)
    case Nil
    show ?thesis unfolding e r Nil by simp
  next
    case (Cons c cs)
    have "special c" using hd_dropWhile [of "Not \<circ> special" r] Cons by simp
    then show ?thesis unfolding e r Cons using 1 [OF Cons] by simp
  qed
qed

lemma hex_digit_inj: "m < 16 \<Longrightarrow> n < 16 \<Longrightarrow> hex_digit m = hex_digit n \<Longrightarrow> m = n"
proof -
  assume a: "m < 16" "n < 16" "hex_digit m = hex_digit n"
  have e: "code (hex_digit k) = (if k < 10 then 48 + k else 87 + k)" if "k < 16" for k
    using that by (simp add: hex_digit_def code_def)
  have c: "code (hex_digit m) = code (hex_digit n)" using a(3) by simp
  show "m = n"
  proof (cases "m < 10"; cases "n < 10")
  qed (use c e [OF a(1)] e [OF a(2)] a(1,2) in simp_all)
qed

lemma code_less: "code c < 256"
  unfolding code_def by (metis of_char_mod_256 mod_less_divisor zero_less_numeral)

lemma hex_escape_inj: "hex_escape c = hex_escape d \<Longrightarrow> c = d"
proof -
  assume "hex_escape c = hex_escape d"
  then have d: "hex_digit (code c div 16) = hex_digit (code d div 16)"
    "hex_digit (code c mod 16) = hex_digit (code d mod 16)"
    by (simp_all add: hex_escape_def)
  have "code c div 16 = code d div 16"
    by (rule hex_digit_inj [OF _ _ d(1)]) (use code_less [of c] code_less [of d] in linarith)+
  moreover have "code c mod 16 = code d mod 16" by (rule hex_digit_inj [OF _ _ d(2)]) simp_all
  ultimately have "code c = code d" by (metis div_mult_mod_eq)
  then show "c = d" by (simp add: code_def)
qed

lemma encode_inj:
  assumes "concat (map encode_char s) = concat (map encode_char t)"
    and "CHR 0x5C \<notin> set s" and "CHR 0x5C \<notin> set t"
  shows "s = t"
  using assms
proof (induction s arbitrary: t)
  case Nil
  then show ?case by (cases t) (auto simp: encode_char_def hex_escape_def split: if_splits)
next
  case (Cons c s)
  then obtain d u where t: "t = d # u" by (cases t) (auto simp: encode_char_def hex_escape_def split: if_splits)
  have "encode_char c = encode_char d \<and> concat (map encode_char s) = concat (map encode_char u)"
    using Cons.prems unfolding t
    by (cases "special c"; cases "special d") (simp_all add: hex_escape_def, blast?)
  then have e: "encode_char c = encode_char d" "concat (map encode_char s) = concat (map encode_char u)"
    by blast+
  have "c = d"
    using e(1) Cons.prems(2,3) t hex_escape_inj [of c d]
    by (cases "special c"; cases "special d") (simp_all add: hex_escape_def)
  then show ?case using Cons.IH [of u] e(2) Cons.prems(2,3) t by simp
qed

text \<open>With a backslash the encoded character and its code in plain text are the same name.\<close>

lemma encryption_name_collision:
  "encryption_name ''cr home'' = encryption_name (''cr'' @ CHR 0x5C # ''x20home'')"
  by code_simp

text \<open>
  Table names without a backslash have distinct names below /dev/mapper.
\<close>

theorem encryption_name_unique:
  assumes "CHR 0x5C \<notin> set s" and "CHR 0x5C \<notin> set t"
  shows "encryption_name s = encryption_name t \<longleftrightarrow> s = t"
  using encode_inj [OF _ assms] by (auto simp: encryption_name_def dm_encode_eq)

theorem encryption_name_unique_witness:
  "encryption_name ''cr home'' = ''/dev/mapper/cr'' @ CHR 0x5C # ''x20home'' \<and>
   encryption_name ''cr home'' \<noteq> encryption_name ''cr~home''"
proof -
  have "CHR 0x5C \<notin> set ''cr home''" "CHR 0x5C \<notin> set ''cr~home''" by simp_all
  then have "encryption_name ''cr home'' \<noteq> encryption_name ''cr~home''"
    using encryption_name_unique [of "''cr home''" "''cr~home''"] by simp
  moreover have "encryption_name ''cr home'' = ''/dev/mapper/cr'' @ CHR 0x5C # ''x20home''" by code_simp
  ultimately show ?thesis by blast
qed

end
