(* ===== verification/Lvm.thy ===== *)
theory Lvm
  imports ResizeInfo Region Names GraphSearch
begin

text \<open>
  Volume groups (storage/Devices/LvmVgImpl.cc) with their physical volumes (LvmPvImpl.cc) and
  logical volumes (LvmLvImpl.cc): the extents, who uses them, and the limits of new and of resized
  logical volumes.

  A volume group is a record with what the code finds in the devicegraph around it: the physical
  volumes (its parents) with the region and the topology of the block device below, the logical
  volumes that are its children, the thin volumes (children of thin pools, with the sid of the
  pool) and the snapshot holders (origin and snapshot).
\<close>

section \<open>State\<close>

datatype lv_type = UNKNOWN | NORMAL | THIN_POOL | THIN | RAID | CACHE_POOL | CACHE | WRITECACHE | SNAPSHOT | MIRROR

record lvm_pv =
  pv_pe_start :: u64
  pv_region :: region
  pv_topology :: topology

text \<open>\<open>lv_system_size\<close> is the size of the volume in the probed system, when it is there.\<close>

record lvm_lv =
  lv_sid :: nat
  lv_name :: string
  lv_type :: lv_type
  lv_region :: region
  lv_used_extents :: u64
  lv_stripes :: u32
  lv_stripe_size :: u64
  lv_chunk_size :: u64
  lv_system_size :: "u64 option"

record lvm_vg =
  vg_name :: string
  vg_region :: region
  vg_reserved_extents :: u64
  vg_pvs :: "lvm_pv list"
  vg_lvs :: "lvm_lv list"
  vg_thins :: "(nat \<times> lvm_lv) list"
  vg_snapshots :: "(nat \<times> nat) list"

definition default_extent_size :: u64 where
  "default_extent_size = 4 * MiB"

definition max_extent_number :: u64 where
  "max_extent_number = 0xFFFFFFFF"

definition default_pe_start :: u64 where
  "default_pe_start = MiB"

definition lvm_vg_new :: "string \<Rightarrow> lvm_vg result" where
  "lvm_vg_new name =
     ebind (region_new 0 0 default_extent_size) (\<lambda>r.
       Inr \<lparr>vg_name = name, vg_region = r, vg_reserved_extents = 0, vg_pvs = [], vg_lvs = [],
         vg_thins = [], vg_snapshots = []\<rparr>)"

text \<open>An integer division, undefined for the divisor zero; a loop that changes each element.\<close>

definition divide :: "u64 \<Rightarrow> u64 \<Rightarrow> u64 result" where
  "divide a b = (if b = 0 then Inl DivisionByZero else Inr (a div b))"

fun each :: "('a \<Rightarrow> 'b result) \<Rightarrow> 'a list \<Rightarrow> 'b list result" where
  "each f [] = Inr []"
| "each f (x # xs) = ebind (f x) (\<lambda>y. emap (\<lambda>ys. y # ys) (each f xs))"

section \<open>Physical volumes\<close>

definition calculate_pe_start :: "lvm_pv \<Rightarrow> lvm_pv" where
  "calculate_pe_start pv = pv\<lparr>pv_pe_start := max default_pe_start (optimal_io_size (pv_topology pv))\<rparr>"

definition get_usable_size :: "lvm_pv \<Rightarrow> u64 result" where
  "get_usable_size pv =
     ebind (to_bytes (pv_region pv) (r_length (pv_region pv))) (\<lambda>s.
       Inr (if s \<le> pv_pe_start pv then 0 else s - pv_pe_start pv))"

section \<open>Extents of a volume group\<close>

definition get_extent_size :: "lvm_vg \<Rightarrow> u64" where
  "get_extent_size vg = r_block_size (vg_region vg)"

definition vg_get_size :: "lvm_vg \<Rightarrow> u64 result" where
  "vg_get_size vg = to_bytes (vg_region vg) (r_length (vg_region vg))"

definition calculate_region :: "lvm_vg \<Rightarrow> lvm_vg result" where
  "calculate_region vg =
     ebind (efold (\<lambda>pv n.
         ebind (get_usable_size pv) (\<lambda>u.
           if 0 < u then emap ((+) n) (divide u (r_block_size (vg_region vg))) else Inr n)) (vg_pvs vg) 0) (\<lambda>n.
       Inr (vg\<lparr>vg_region := (vg_region vg)\<lparr>r_length := n\<rparr>\<rparr>))"

text \<open>Thin volumes use no extents of the group.\<close>

definition lv_set_region :: "region \<Rightarrow> lvm_lv \<Rightarrow> lvm_lv" where
  "lv_set_region r lv =
     (let lv = lv\<lparr>lv_region := r\<rparr>
      in if lv_type lv \<noteq> THIN then lv\<lparr>lv_used_extents := r_length r\<rparr> else lv)"

definition lv_get_size :: "lvm_lv \<Rightarrow> u64 result" where
  "lv_get_size lv = to_bytes (lv_region lv) (r_length (lv_region lv))"

definition lv_set_size :: "u64 \<Rightarrow> lvm_lv \<Rightarrow> lvm_lv result" where
  "lv_set_size s lv =
     ebind (to_blocks (lv_region lv) s) (\<lambda>n.
     ebind (region_new (r_start (lv_region lv)) n (r_block_size (lv_region lv))) (\<lambda>r.
       Inr (lv_set_region r lv)))"

definition set_lv_extent_size :: "u64 \<Rightarrow> u64 \<Rightarrow> lvm_lv \<Rightarrow> lvm_lv result" where
  "set_lv_extent_size old n lv =
     ebind (region_set_block_size n (lv_region lv)) (\<lambda>r.
     ebind (divide (r_length r * old) n) (\<lambda>l.
       Inr (lv_set_region (r\<lparr>r_length := l\<rparr>) lv)))"

definition set_extent_size :: "u64 \<Rightarrow> lvm_vg \<Rightarrow> lvm_vg result" where
  "set_extent_size n vg =
     (let old = r_block_size (vg_region vg)
      in if \<not> is_power_of_two n then Inl (InvalidExtentSize ''extent size not a power of two'')
         else ebind (is_multiple_of n (128 * KiB)) (\<lambda>ok.
           if \<not> ok then Inl (InvalidExtentSize ''extent size not multiple of 128 KiB'')
           else ebind (region_set_block_size n (vg_region vg)) (\<lambda>r.
             ebind (calculate_region (vg\<lparr>vg_region := r\<rparr>)) (\<lambda>vg.
             ebind (each (set_lv_extent_size old n) (vg_lvs vg)) (\<lambda>lvs.
               Inr (vg\<lparr>vg_lvs := lvs\<rparr>))))))"

section \<open>Chunks and metadata of thin pools\<close>

definition default_chunk_size :: "u64 \<Rightarrow> u64 result" where
  "default_chunk_size s =
     ebind (next_power_of_two (drop_bit 21 s)) (\<lambda>t. Inr (clamp t (64 * KiB) (1 * GiB)))"

definition default_metadata_size :: "u64 \<Rightarrow> u64 \<Rightarrow> u64 \<Rightarrow> u64 result" where
  "default_metadata_size s chunk extent =
     ebind (divide s chunk) (\<lambda>q.
     ebind (round_up (q * 64) extent) (\<lambda>t.
       Inr (clamp t (2 * MiB) (16 * GiB))))"

definition lv_default_metadata_size :: "lvm_lv \<Rightarrow> u64 result" where
  "lv_default_metadata_size lv =
     ebind (if 0 < lv_chunk_size lv then Inr (lv_chunk_size lv) else ebind (lv_get_size lv) default_chunk_size) (\<lambda>c.
     ebind (lv_get_size lv) (\<lambda>s. default_metadata_size s c (r_block_size (lv_region lv))))"

section \<open>Used and free extents\<close>

text \<open>The loop keeps the used extents and the greatest metadata of a thin pool that is not in the system yet.\<close>

definition used_step :: "nat list \<Rightarrow> u64 \<Rightarrow> lvm_lv \<Rightarrow> u64 \<times> u64 \<Rightarrow> (u64 \<times> u64) result" where
  "used_step ignored extent lv = (\<lambda>(ret, spare).
     if lv_sid lv \<in> set ignored then Inr (ret, spare)
     else
       let ret = ret + lv_used_extents lv
       in if lv_type lv = THIN_POOL \<and> lv_system_size lv = None
          then ebind (lv_default_metadata_size lv) (\<lambda>m.
               ebind (divide m extent) (\<lambda>k. Inr (ret + k, max spare k)))
          else Inr (ret, spare))"

definition number_of_used_extents :: "nat list \<Rightarrow> lvm_vg \<Rightarrow> u64 result" where
  "number_of_used_extents ignored vg =
     emap (\<lambda>(ret, spare). ret + spare) (efold (used_step ignored (get_extent_size vg)) (vg_lvs vg) (0, 0))"

definition number_of_extents :: "lvm_vg \<Rightarrow> u64" where
  "number_of_extents vg = r_length (vg_region vg)"

definition number_of_free_extents :: "nat list \<Rightarrow> lvm_vg \<Rightarrow> u64 result" where
  "number_of_free_extents ignored vg =
     ebind (number_of_used_extents ignored vg) (\<lambda>u.
       let a = number_of_extents vg; b = u + vg_reserved_extents vg
       in Inr (if a \<le> b then 0 else a - b))"

definition is_overcommitted :: "lvm_vg \<Rightarrow> bool result" where
  "is_overcommitted vg =
     ebind (number_of_used_extents [] vg) (\<lambda>u.
       let a = number_of_extents vg; b = u + vg_reserved_extents vg in Inr (a < b))"

definition calculate_reserved_extents :: "u64 \<Rightarrow> lvm_vg \<Rightarrow> lvm_vg result" where
  "calculate_reserved_extents free_extent_count vg =
     ebind (number_of_free_extents [] vg) (\<lambda>f. Inr (vg\<lparr>vg_reserved_extents := f - free_extent_count\<rparr>))"

definition max_size_for_lvm_lv :: "lv_type \<Rightarrow> nat list \<Rightarrow> lvm_vg \<Rightarrow> u64 result" where
  "max_size_for_lvm_lv t ignored vg =
     (case t of
        NORMAL \<Rightarrow> ebind (number_of_free_extents ignored vg) (\<lambda>f. Inr (f * get_extent_size vg))
      | THIN_POOL \<Rightarrow>
          ebind (number_of_free_extents ignored vg) (\<lambda>f.
            let data_size = f * get_extent_size vg
            in ebind (default_chunk_size data_size) (\<lambda>c.
               ebind (default_metadata_size data_size c (get_extent_size vg)) (\<lambda>m.
                 Inr (if data_size \<le> 2 * m then 0 else data_size - 2 * m))))
      | _ \<Rightarrow> Inr 0)"

text \<open>The greatest size of a volume in the thin pool or other volume \<open>t\<close> of the group.\<close>

definition lv_max_size_for_lvm_lv :: "lv_type \<Rightarrow> lvm_vg \<Rightarrow> u64" where
  "lv_max_size_for_lvm_lv t vg = (if t = THIN then max_extent_number * get_extent_size vg else 0)"

section \<open>Changing a volume group\<close>

text \<open>The children of the block device that becomes a physical volume.\<close>

datatype blk_child = UsableLvmPv lvm_pv bool | OtherChild

definition add_lvm_pv :: "region \<Rightarrow> topology \<Rightarrow> blk_child list \<Rightarrow> lvm_vg \<Rightarrow> lvm_vg result" where
  "add_lvm_pv r t children vg =
     ebind (case children of
         [] \<Rightarrow> Inr \<lparr>pv_pe_start = default_pe_start, pv_region = r, pv_topology = t\<rparr>
       | [UsableLvmPv pv has_children] \<Rightarrow> if has_children then Inl (WrongNumberOfChildren 1 0) else Inr pv
       | [OtherChild] \<Rightarrow> Inl (Exn ''device has wrong type'')
       | _ \<Rightarrow> Inl (Exn ''illegal number of children'')) (\<lambda>pv.
       calculate_region (vg\<lparr>vg_pvs := vg_pvs vg @ [calculate_pe_start (pv\<lparr>pv_region := r, pv_topology := t\<rparr>)]\<rparr>))"

text \<open>\<open>LvmLv::Impl::Impl\<close> with the region \<open>create_lvm_lv\<close> sets.\<close>

definition lvm_lv_new :: "nat \<Rightarrow> string \<Rightarrow> lv_type \<Rightarrow> lvm_lv" where
  "lvm_lv_new sid name t = \<lparr>lv_sid = sid, lv_name = name, lv_type = t,
     lv_region = \<lparr>r_start = 0, r_length = 0, r_block_size = 512\<rparr>, lv_used_extents = 0,
     lv_stripes = (if t = THIN then 0 else 1), lv_stripe_size = 0, lv_chunk_size = 0, lv_system_size = None\<rparr>"

definition create_lvm_lv :: "nat \<Rightarrow> string \<Rightarrow> lv_type \<Rightarrow> u64 \<Rightarrow> lvm_vg \<Rightarrow> lvm_vg result" where
  "create_lvm_lv sid name t s vg =
     (let extent = r_block_size (vg_region vg)
      in ebind (divide s extent) (\<lambda>n.
         ebind (region_new 0 n extent) (\<lambda>r.
           Inr (vg\<lparr>vg_lvs := vg_lvs vg @ [lv_set_region r (lvm_lv_new sid name t)]\<rparr>))))"

text \<open>A volume in the thin pool \<open>pool\<close>.\<close>

definition create_thin_lv :: "nat \<Rightarrow> nat \<Rightarrow> string \<Rightarrow> lv_type \<Rightarrow> u64 \<Rightarrow> lvm_vg \<Rightarrow> lvm_vg result" where
  "create_thin_lv pool sid name t s vg =
     (let extent = get_extent_size vg
      in ebind (divide s extent) (\<lambda>n.
         ebind (region_new 0 n extent) (\<lambda>r.
           Inr (vg\<lparr>vg_thins := vg_thins vg @ [(pool, lv_set_region r (lvm_lv_new sid name t))]\<rparr>))))"

definition get_lvm_lv :: "string \<Rightarrow> lvm_vg \<Rightarrow> lvm_lv result" where
  "get_lvm_lv name vg =
     (case find (\<lambda>lv. lv_name lv = name) (vg_lvs vg) of None \<Rightarrow> Inl DeviceNotFound | Some lv \<Rightarrow> Inr lv)"

section \<open>Removing a logical volume\<close>

definition vg_volumes :: "lvm_vg \<Rightarrow> lvm_lv list" where
  "vg_volumes vg = vg_lvs vg @ map snd (vg_thins vg)"

text \<open>
  What is below a volume in the view for removing: the thin volumes of a pool and the snapshots,
  unless the origin is a thin volume (\<open>Snapshot::Impl::is_in_view\<close>). Removing a volume removes
  all that can be reached, with the holders to and from it.
\<close>

definition vg_below :: "lvm_vg \<Rightarrow> (nat \<times> nat) list" where
  "vg_below vg =
     map (\<lambda>(pool, lv). (pool, lv_sid lv)) (vg_thins vg) @
     filter (\<lambda>(origin, _). list_ex (\<lambda>lv. lv_sid lv = origin \<and> lv_type lv \<noteq> THIN) (vg_volumes vg)) (vg_snapshots vg)"

definition delete_lvm_lv :: "nat \<Rightarrow> lvm_vg \<Rightarrow> lvm_vg" where
  "delete_lvm_lv sid vg =
     (let gone = bfs (vg_below vg) [sid] [sid]
      in vg\<lparr>vg_lvs := filter (\<lambda>lv. lv_sid lv \<notin> set gone) (vg_lvs vg),
            vg_thins := filter (\<lambda>(pool, lv). lv_sid lv \<notin> set gone) (vg_thins vg),
            vg_snapshots := filter (\<lambda>(origin, snapshot). origin \<notin> set gone \<and> snapshot \<notin> set gone) (vg_snapshots vg)\<rparr>)"

section \<open>Changing a logical volume\<close>

definition is_usable_as_blk_device :: "lvm_lv \<Rightarrow> bool" where
  "is_usable_as_blk_device lv \<longleftrightarrow> lv_type lv \<in> {NORMAL, THIN, RAID, CACHE, WRITECACHE, SNAPSHOT, MIRROR}"

definition supports_stripes :: "lvm_lv \<Rightarrow> bool" where
  "supports_stripes lv \<longleftrightarrow> lv_type lv = NORMAL \<or> lv_type lv = THIN_POOL"

definition set_stripes :: "u32 \<Rightarrow> lvm_lv \<Rightarrow> lvm_lv result" where
  "set_stripes n lv = (if 128 < n then Inl (Exn ''stripes above 128'') else Inr (lv\<lparr>lv_stripes := n\<rparr>))"

definition set_stripe_size :: "u64 \<Rightarrow> lvm_lv \<Rightarrow> lvm_lv result" where
  "set_stripe_size s lv =
     (if 0 < s \<and> s < 4 * KiB then Inl (InvalidStripeSize ''stripe size below 4 KiB'')
      else if 0 < s \<and> \<not> is_power_of_two s then Inl (InvalidStripeSize ''stripe size not a power of two'')
      else Inr (lv\<lparr>lv_stripe_size := s\<rparr>))"

definition supports_chunk_size :: "lvm_lv \<Rightarrow> bool" where
  "supports_chunk_size lv \<longleftrightarrow> lv_type lv = THIN_POOL \<or> lv_type lv = CACHE_POOL \<or> lv_type lv = CACHE"

definition set_chunk_size :: "u64 \<Rightarrow> lvm_lv \<Rightarrow> lvm_lv result" where
  "set_chunk_size c lv =
     (if 0 < c
      then if c < 64 * KiB then Inl (InvalidChunkSize ''chunk size below 64 KiB'')
        else if 1 * GiB < c then Inl (InvalidChunkSize ''chunk size above 1 GiB'')
        else ebind (is_multiple_of c (64 * KiB)) (\<lambda>ok.
          if \<not> ok then Inl (InvalidChunkSize ''chunk size not multiple of 64 KiB'')
          else Inr (lv\<lparr>lv_chunk_size := c\<rparr>))
      else Inr (lv\<lparr>lv_chunk_size := c\<rparr>))"

text \<open>A change of what cannot be changed in the system is refused; a new name is a rename action.\<close>

definition lv_add_modify_actions :: "lvm_lv \<Rightarrow> lvm_lv \<Rightarrow> bool result" where
  "lv_add_modify_actions lhs rhs =
     (if lv_type rhs \<noteq> lv_type lhs then Inl (Exn ''changing lv type not supported'')
      else if lv_stripes rhs \<noteq> lv_stripes lhs then Inl (Exn ''changing stripes not supported'')
      else if lv_stripe_size rhs \<noteq> lv_stripe_size lhs then Inl (Exn ''changing stripe size not supported'')
      else if lv_chunk_size rhs \<noteq> lv_chunk_size lhs then Inl (Exn ''changing chunk size not supported'')
      else Inr (lv_name rhs \<noteq> lv_name lhs))"

section \<open>Checks\<close>

datatype check_error = Overcommitted | ExtentsNotMultipleOfStripes | StripeSizeAboveExtentSize | ChunkSizeTooSmall

definition vg_check :: "lvm_vg \<Rightarrow> check_error list result" where
  "vg_check vg =
     (if vg_name vg = [] then Inl (Exn ''LvmVg has no vg-name'')
      else emap (\<lambda>over. if over then [Overcommitted] else []) (is_overcommitted vg))"

definition check_stripes :: "lvm_lv \<Rightarrow> check_error list result" where
  "check_stripes lv =
     (if 1 < lv_stripes lv
      then emap (\<lambda>ok. if ok then [] else [ExtentsNotMultipleOfStripes])
        (is_multiple_of (lv_used_extents lv) (ucast (lv_stripes lv)))
      else Inr [])"

definition check_chunk_size :: "lvm_lv \<Rightarrow> check_error list result" where
  "check_chunk_size lv =
     (if lv_type lv = THIN_POOL \<and> 0 < lv_chunk_size lv
      then emap (\<lambda>s. if lv_chunk_size lv * 265289728 < s then [ChunkSizeTooSmall] else []) (lv_get_size lv)
      else Inr [])"

definition lv_check :: "lvm_vg \<Rightarrow> lvm_lv \<Rightarrow> check_error list result" where
  "lv_check vg lv =
     (if r_block_size (lv_region lv) = 0 then Inl (Exn ''block size is zero'')
      else if lv_name lv = [] then Inl (Exn ''LvmLv has no lv-name'')
      else if r_start (lv_region lv) \<noteq> 0 then Inl (Exn ''LvmLv region start not zero'')
      else ebind (check_stripes lv) (\<lambda>e1.
        let e2 = (if 0 < lv_stripe_size lv \<and> get_extent_size vg < lv_stripe_size lv
                  then [StripeSizeAboveExtentSize] else [])
        in emap (\<lambda>e3. e1 @ e2 @ e3) (check_chunk_size lv)))"

section \<open>Limits of a resize\<close>

definition has_snapshots :: "lvm_vg \<Rightarrow> lvm_lv \<Rightarrow> bool" where
  "has_snapshots vg lv \<longleftrightarrow> lv_sid lv \<in> fst ` set (vg_snapshots vg)"

definition reason_if :: "bool \<Rightarrow> u32 \<Rightarrow> resize_info \<Rightarrow> resize_info" where
  "reason_if c r ri = (if c then add_reason r ri else ri)"

definition stripe_extents :: "lvm_vg \<Rightarrow> lvm_lv \<Rightarrow> u64" where
  "stripe_extents vg lv = ucast (max 1 (lv_stripes lv)) * get_extent_size vg"

text \<open>
  \<open>children\<close> is the result of \<open>BlkDevice::Impl::detect_resize_info\<close>: the limits of what is on the
  volume.
\<close>

definition detect_resize_info_normal :: "resize_info \<Rightarrow> lvm_vg \<Rightarrow> lvm_lv \<Rightarrow> resize_info result" where
  "detect_resize_info_normal children vg lv =
     (if has_snapshots vg lv then resize_info_any False RB_RESIZE_NOT_SUPPORTED_DUE_TO_SNAPSHOTS
      else ebind (number_of_free_extents [lv_sid lv] vg) (\<lambda>f.
        ebind (resize_info_new True 0 (get_extent_size vg) (f * get_extent_size vg)) (\<lambda>own.
        ebind (ri_combine children own) (\<lambda>ri.
          combine_block_size (stripe_extents vg lv)
            (reason_if (f \<le> r_length (lv_region lv)) RB_NO_SPACE_IN_LVM_VG
              (reason_if (r_length (lv_region lv) \<le> 1) RB_MIN_SIZE_FOR_LVM_LV ri))))))"

definition detect_resize_info_thin_pool :: "lvm_vg \<Rightarrow> lvm_lv \<Rightarrow> resize_info result" where
  "detect_resize_info_thin_pool vg lv =
     (let extent = get_extent_size vg
      in case lv_system_size lv of
        Some s \<Rightarrow> ebind (number_of_free_extents [] vg) (\<lambda>f.
          let data_size = (f + lv_used_extents lv) * extent
          in ebind (resize_info_new True RB_SHRINK_NOT_SUPPORTED_FOR_LVM_LV_TYPE s data_size) (\<lambda>ri.
            combine_block_size (stripe_extents vg lv)
              (reason_if (data_size \<le> r_length (lv_region lv) * extent) RB_NO_SPACE_IN_LVM_VG ri)))
      | None \<Rightarrow> ebind (max_size_for_lvm_lv (lv_type lv) [lv_sid lv] vg) (\<lambda>data_size.
          ebind (resize_info_new True 0 extent data_size) (\<lambda>ri.
            combine_block_size (stripe_extents vg lv)
              (reason_if (data_size \<le> r_length (lv_region lv) * extent) RB_NO_SPACE_IN_LVM_VG
                (reason_if (r_length (lv_region lv) \<le> 1) RB_MIN_SIZE_FOR_LVM_LV ri)))))"

definition detect_resize_info_thin :: "resize_info \<Rightarrow> lvm_vg \<Rightarrow> lvm_lv \<Rightarrow> resize_info result" where
  "detect_resize_info_thin children vg lv =
     (let extent = get_extent_size vg; data_size = lv_max_size_for_lvm_lv THIN vg
      in ebind (resize_info_new True 0 extent data_size) (\<lambda>own.
         ebind (ri_combine children own) (\<lambda>ri.
           combine_block_size extent
             (reason_if (data_size \<le> r_length (lv_region lv) * extent) RB_MAX_SIZE_FOR_LVM_LV_THIN
               (reason_if (r_length (lv_region lv) \<le> 1) RB_MIN_SIZE_FOR_LVM_LV ri)))))"

definition detect_resize_info :: "resize_info \<Rightarrow> lvm_vg \<Rightarrow> lvm_lv \<Rightarrow> resize_info result" where
  "detect_resize_info children vg lv =
     (case lv_type lv of
        NORMAL \<Rightarrow> detect_resize_info_normal children vg lv
      | THIN_POOL \<Rightarrow> detect_resize_info_thin_pool vg lv
      | THIN \<Rightarrow> detect_resize_info_thin children vg lv
      | _ \<Rightarrow> resize_info_any False RB_RESIZE_NOT_SUPPORTED_FOR_LVM_LV_TYPE)"

definition vg_detect_resize_info :: "resize_info result" where
  "vg_detect_resize_info = resize_info_any False RB_RESIZE_NOT_SUPPORTED_BY_DEVICE"

text \<open>\<open>set_size\<close> on the logical volume with the sid \<open>sid\<close>.\<close>

definition set_lv_size :: "nat \<Rightarrow> u64 \<Rightarrow> lvm_vg \<Rightarrow> lvm_vg result" where
  "set_lv_size sid s vg =
     emap (\<lambda>lvs. vg\<lparr>vg_lvs := lvs\<rparr>)
       (each (\<lambda>lv. if lv_sid lv = sid then lv_set_size s lv else Inr lv) (vg_lvs vg))"

text \<open>
  Removing the i-th physical volume, and the notification that the block device below it has a
  new region: the extents are counted anew.
\<close>

definition remove_lvm_pv :: "nat \<Rightarrow> lvm_vg \<Rightarrow> lvm_vg result" where
  "remove_lvm_pv i vg =
     (if i < length (vg_pvs vg)
      then calculate_region (vg\<lparr>vg_pvs := take i (vg_pvs vg) @ drop (Suc i) (vg_pvs vg)\<rparr>)
      else Inl (Exn ''not a blk device of volume group''))"

definition parent_has_new_region :: "nat \<Rightarrow> region \<Rightarrow> lvm_vg \<Rightarrow> lvm_vg result" where
  "parent_has_new_region i r vg =
     calculate_region (vg\<lparr>vg_pvs := (vg_pvs vg)[i := (vg_pvs vg ! i)\<lparr>pv_region := r\<rparr>]\<rparr>)"

end
