(* ===== verification/Luks.thy ===== *)
theory Luks
  imports BlkFilesystems Partitions Lvm
begin

text \<open>
  Limits of a resize through the layers on a block device: LUKS and other encryptions
  (storage/Devices/LuksImpl.cc, PlainEncryptionImpl.cc, BitlockerV2Impl.cc), physical volumes
  (LvmPvImpl.cc), and the devices that cannot be resized. A content is never given less than the
  limits that were detected for it.
\<close>

section \<open>LUKS\<close>

datatype encryption_type =
  ET_NONE | ET_TWOFISH | ET_TWOFISH_OLD | ET_TWOFISH256_OLD | ET_LUKS1 | ET_UNKNOWN | ET_LUKS2
| ET_PLAIN | ET_BITLOCKER

record luks =
  lk_type :: encryption_type
  lk_integrity :: string
  lk_password :: string
  lk_region :: region
  lk_topology :: topology

definition v1_metadata_size :: u64 where
  "v1_metadata_size = 2 * MiB"

definition v2_metadata_size :: u64 where
  "v2_metadata_size = 16 * MiB"

definition luks_metadata_size :: "encryption_type \<Rightarrow> u64 result" where
  "luks_metadata_size t =
     (case t of
        ET_LUKS1 \<Rightarrow> Inr v1_metadata_size
      | ET_LUKS2 \<Rightarrow> Inr v2_metadata_size
      | _ \<Rightarrow> Inl (Exn ''invalid encryption type''))"

text \<open>
  The size for the region and topology of the device below; \<open>pessimistic\<close> is the product with 0.85
  as a \<open>double\<close>. During probing the device below may not be known yet.
\<close>

definition luks_calculate :: "(u64 \<Rightarrow> u64) \<Rightarrow> (region \<times> topology) option \<Rightarrow> luks \<Rightarrow> luks result" where
  "luks_calculate pessimistic parent lk =
     (case parent of
        None \<Rightarrow> Inr lk
      | Some (r, t) \<Rightarrow>
          ebind (to_bytes r (r_length r)) (\<lambda>bytes.
          ebind (luks_metadata_size (lk_type lk)) (\<lambda>metadata.
            let payload_offset = max metadata (optimal_io_size t);
                bytes = (if payload_offset < bytes then bytes - payload_offset else 0);
                bytes = (if lk_integrity lk \<noteq> [] then pessimistic bytes else bytes)
            in ebind (to_blocks (lk_region lk) bytes) (\<lambda>n.
               ebind (region_new (r_start (lk_region lk)) n (r_block_size (lk_region lk))) (\<lambda>lr.
                 Inr (lk\<lparr>lk_region := lr, lk_topology := topology_new 0 (optimal_io_size t)\<rparr>))))))"

definition luks_set_type ::
  "(u64 \<Rightarrow> u64) \<Rightarrow> (region \<times> topology) option \<Rightarrow> encryption_type \<Rightarrow> luks \<Rightarrow> luks result" where
  "luks_set_type pessimistic parent t lk = luks_calculate pessimistic parent (lk\<lparr>lk_type := t\<rparr>)"

definition luks_set_integrity ::
  "(u64 \<Rightarrow> u64) \<Rightarrow> (region \<times> topology) option \<Rightarrow> string \<Rightarrow> luks \<Rightarrow> luks result" where
  "luks_set_integrity pessimistic parent i lk = luks_calculate pessimistic parent (lk\<lparr>lk_integrity := i\<rparr>)"

definition luks_parent_has_new_region ::
  "(u64 \<Rightarrow> u64) \<Rightarrow> (region \<times> topology) option \<Rightarrow> luks \<Rightarrow> luks result" where
  "luks_parent_has_new_region = luks_calculate"

definition do_resize_needs_password :: "luks \<Rightarrow> bool" where
  "do_resize_needs_password lk \<longleftrightarrow> lk_type lk = ET_LUKS2"

definition RB_PASSWORD_REQUIRED :: u32 where
  "RB_PASSWORD_REQUIRED = push_bit 18 1"

definition luks_resize_info :: "resize_info result list \<Rightarrow> luks \<Rightarrow> resize_info result" where
  "luks_resize_info children lk =
     (if do_resize_needs_password lk \<and> lk_password lk = [] then resize_info_any False RB_PASSWORD_REQUIRED
      else if lk_integrity lk \<noteq> [] then resize_info_any False RB_RESIZE_NOT_SUPPORTED_BY_DEVICE
      else ebind (blk_device_resize_info children) (\<lambda>ri.
           ebind (luks_metadata_size (lk_type lk)) (\<lambda>metadata. ri_shift metadata ri)))"

section \<open>Other devices\<close>

text \<open>A plain encryption has the size and the topology of the device below, and its limits.\<close>

definition plain_calculate :: "region \<Rightarrow> topology \<Rightarrow> region \<Rightarrow> (region \<times> topology) result" where
  "plain_calculate parent t r =
     ebind (to_bytes parent (r_length parent)) (\<lambda>bytes.
     ebind (to_blocks r bytes) (\<lambda>n.
     ebind (region_new (r_start r) n (r_block_size r)) (\<lambda>r. Inr (r, t))))"

text \<open>Disks, DASDs, multipath, BIOS RAIDs, RAIDs, bcaches, stray devices and BitLocker.\<close>

definition fixed_resize_info :: "resize_info result" where
  "fixed_resize_info = resize_info_any False RB_RESIZE_NOT_SUPPORTED_BY_DEVICE"

text \<open>
  A physical volume; \<open>extent_size\<close> is that of its volume group, \<open>on_disk\<close> the size of its device
  when it is on disk already.
\<close>

definition lvm_pv_resize_info :: "lvm_pv \<Rightarrow> u64 option \<Rightarrow> u64 option \<Rightarrow> resize_info result" where
  "lvm_pv_resize_info pv extent_size on_disk =
     ebind (resize_info_any True 0) (\<lambda>ri.
       let ri = ri\<lparr>min_size := pv_pe_start pv\<rparr>;
           ri = (case extent_size of None \<Rightarrow> ri | Some e \<Rightarrow> ri\<lparr>min_size := min_size ri + e\<rparr>)
       in Inr (case on_disk of None \<Rightarrow> ri | Some b \<Rightarrow> ri\<lparr>min_size := b\<rparr>))"

section \<open>Limits only get tighter\<close>

text \<open>\<open>tightens n r r'\<close>: the limits \<open>r'\<close> allow less than \<open>r\<close>, the least size is at most \<open>n\<close> more.\<close>

definition tightens :: "nat \<Rightarrow> resize_info \<Rightarrow> resize_info \<Rightarrow> bool" where
  "tightens n r r' \<longleftrightarrow>
     unat (min_size r) \<le> unat (min_size r') \<and> unat (min_size r') \<le> unat (min_size r) + n \<and>
     max_size r' \<le> max_size r \<and> (resize_ok r' \<longrightarrow> resize_ok r)"

lemma ri_check_tightens:
  assumes "ri_check r = Inr r'" and "unat (min_size r) + unat (ri_block_size r) \<le> 2 ^ 64"
  shows "tightens (unat (ri_block_size r)) r r'" and "ri_block_size r' = ri_block_size r"
proof -
  obtain lo where lo: "round_up (min_size r) (ri_block_size r) = Inr lo" "min_size r' = lo"
    using assms(1) by (auto simp: ri_check_def Let_def result_simps split: if_splits)
  have "resize_ok r' \<longrightarrow> resize_ok r" "ri_block_size r' = ri_block_size r"
    using assms(1) by (auto simp: ri_check_def Let_def result_simps split: if_splits)
  then show "tightens (unat (ri_block_size r)) r r'" "ri_block_size r' = ri_block_size r"
    using round_up_grows [OF lo(1) assms(2)] ri_check_le [OF assms(1)] by (simp_all add: tightens_def lo(2))
qed

lemma tightens_trans: "tightens m r r' \<Longrightarrow> tightens n r' r'' \<Longrightarrow> tightens (m + n) r r''"
  unfolding tightens_def using order_trans [of "max_size r''" "max_size r'" "max_size r"] by auto

lemma tightens_allowed:
  assumes "tightens n r r'" and "allowed r' s"
  shows "unat (min_size r) \<le> s" and "s \<le> unat (max_size r)"
  using assms by (auto simp: tightens_def allowed_def word_le_nat_alt)

lemma lcm_one [simp]: "lcm_u64 1 b = b"
  by (simp add: lcm_u64_def)

lemma single_child:
  assumes "blk_device_resize_info [Inr c] = Inr r"
    and "unat (min_size c) \<le> 2 ^ 62" and "unat (ri_block_size c) \<le> 2 ^ 60"
  shows "tightens (2 * unat (ri_block_size c)) c r" and "ri_block_size r = ri_block_size c"
proof -
  obtain r0 where r0: "resize_info_any True 0 = Inr r0" by (simp add: resize_info_any_def resize_info_new_def ri_check_def Let_def)
  have f0: "min_size r0 = 0" "max_size r0 = - 1" "ri_block_size r0 = 1"
    using resize_info_new_facts(1-3) r0 unfolding resize_info_any_def by blast+
  define r1 where "r1 = r0\<lparr>resize_ok := resize_ok r0 \<and> resize_ok c, reasons := or (reasons r0) (reasons c)\<rparr>"
  obtain r2 r3 r4 where r: "combine_min (min_size c) r1 = Inr r2" "combine_max (max_size c) r2 = Inr r3"
    "combine_block_size (ri_block_size c) r3 = Inr r4" "ri_check r4 = Inr r"
    using assms(1) r0 by (auto simp: blk_device_resize_info_def ri_combine_def r1_def result_simps)
  let ?b = "unat (ri_block_size c)"
  have f2: "min_size r2 = min_size c" "ri_block_size r2 = 1" "resize_ok r2 \<longrightarrow> resize_ok c"
    using r(1) f0 by (auto simp: combine_min_def ri_check_def Let_def result_simps r1_def split: if_splits)
  have f3: "min_size r3 = min_size c" "max_size r3 = min (max_size r2) (max_size c)" "ri_block_size r3 = 1"
    "resize_ok r3 \<longrightarrow> resize_ok c"
    using r(2) f2 by (auto simp: combine_max_def ri_check_def Let_def result_simps split: if_splits)
  let ?r3 = "r3\<lparr>ri_block_size := ri_block_size c\<rparr>"
  have r4: "ri_check ?r3 = Inr r4" using r(3) by (simp add: combine_block_size_def f3)
  have fits: "unat (min_size ?r3) + unat (ri_block_size ?r3) \<le> 2 ^ 64" using assms(2,3) by (simp add: f3)
  note t4 = ri_check_tightens [OF r4 fits]
  have b4: "ri_block_size r4 = ri_block_size c" using t4(2) by simp
  have "unat (min_size r4) \<le> unat (min_size c) + ?b" using t4(1) by (simp add: tightens_def f3)
  then have "unat (min_size r4) + unat (ri_block_size r4) \<le> 2 ^ 64" using assms(2,3) b4 by simp
  note t = ri_check_tightens [OF r(4) this]
  show "ri_block_size r = ri_block_size c" using t(2) b4 by simp
  have "tightens (?b + ?b) ?r3 r" using tightens_trans [OF t4(1) t(1)] b4 by simp
  then show "tightens (2 * ?b) c r" by (auto simp: tightens_def f3)
qed

section \<open>A resized LUKS holds its content\<close>

lemma metadata_bounds:
  assumes "luks_metadata_size t = Inr m"
  shows "unat m \<le> 2 ^ 24" and "2 ^ 21 dvd unat m"
  using assms by (auto simp: luks_metadata_size_def v1_metadata_size_def v2_metadata_size_def MiB_def KiB_def
      split: encryption_type.splits)

lemma shift_limits:
  assumes "ri_shift m r = Inr r'" and "unat (min_size r) + unat m + unat (ri_block_size r) \<le> 2 ^ 64"
    and "allowed r' s" and "0 < unat (ri_block_size r)"
  shows "unat (min_size r) + unat m \<le> s" and "s \<le> unat (max_size r) + unat m" and "resize_ok r' \<Longrightarrow> resize_ok r"
proof -
  let ?r = "r\<lparr>min_size := shifted m (min_size r), max_size := shifted m (max_size r)\<rparr>"
  have sum: "shifted m x = x + m \<and> unat (x + m) = unat x + unat m" if "unat x + unat m < 2 ^ 64" for x
    using that by (simp add: shifted_def unat_add_no_wrap word_less_nat_alt)
  have shifted: "unat (shifted m x) \<le> unat x + unat m" for x
  proof (cases "unat x + unat m < 2 ^ 64")
    case True
    then show ?thesis using sum [of x] by simp
  next
    case False
    have "unat (shifted m x) < 2 ^ 64" using unat_lt64 by simp
    with False show ?thesis by linarith
  qed
  have lo: "unat (shifted m (min_size r)) = unat (min_size r) + unat m"
    using sum [of "min_size r"] assms(2,4) by simp
  have check: "ri_check ?r = Inr r'" using assms(1) by (simp add: ri_shift_def)
  have "unat (min_size ?r) + unat (ri_block_size ?r) \<le> 2 ^ 64" using assms(2) lo by simp
  note t = ri_check_tightens(1) [OF check this]
  show "unat (min_size r) + unat m \<le> s" using tightens_allowed(1) [OF t assms(3)] lo by simp
  show "s \<le> unat (max_size r) + unat m" using tightens_allowed(2) [OF t assms(3)] shifted [of "max_size r"] by simp
  show "resize_ok r' \<Longrightarrow> resize_ok r" using t by (simp add: tightens_def)
qed

text \<open>
  C7: When a device with LUKS on it is resized within the limits that are detected for it, the LUKS
  gets a size that is within the limits of its content, provided the optimal io size of the device
  is not above the size of the metadata. Without that proviso it is false of the code, see
  \<open>luks_loses_content\<close> below. The block size of the LUKS divides the new size of the device and
  2 MiB, and the limits of the content are far enough from 64 bits (a minimum up to 2 ^ 62, blocks
  up to 2 ^ 60).
\<close>

theorem resized_luks_holds_content:
  assumes info: "luks_resize_info [Inr cri] lk = Inr ri" "resize_ok ri" "allowed ri (unat bytes)"
    and bounds: "unat (min_size cri) \<le> 2 ^ 62" "unat (ri_block_size cri) \<le> 2 ^ 60" "ri_block_size cri \<noteq> 0"
    and device: "to_bytes r (r_length r) = Inr bytes"
    and luks: "luks_parent_has_new_region pess (Some (r, t)) lk = Inr lk'"
    and metadata: "luks_metadata_size (lk_type lk) = Inr m" "optimal_io_size t \<le> m"
    and blocks: "unat (r_block_size (lk_region lk)) dvd unat bytes" "unat (r_block_size (lk_region lk)) dvd 2 ^ 21"
  shows "\<exists>content. to_bytes (lk_region lk') (r_length (lk_region lk')) = Inr content \<and> resize_ok cri \<and>
    min_size cri \<le> content \<and> content \<le> max_size cri"
proof -
  let ?bs = "r_block_size (lk_region lk)"
  have plain: "lk_integrity lk = []"
    using info(1,2) resize_info_False by (auto simp: luks_resize_info_def split: if_splits)
  obtain r1 where r1: "blk_device_resize_info [Inr cri] = Inr r1" "ri_shift m r1 = Inr ri"
    using info(1,2) metadata(1) resize_info_False
    by (auto simp: luks_resize_info_def result_simps split: if_splits)
  note c = single_child [OF r1(1) bounds(1,2)]
  have sum: "unat (min_size r1) + unat m + unat (ri_block_size r1) \<le> 2 ^ 64"
    using c bounds(1,2) metadata_bounds(1) [OF metadata(1)] by (simp add: tightens_def)
  have "0 < unat (ri_block_size r1)" using c(2) bounds(3) by (simp add: unat_gt_0)
  note s = shift_limits [OF r1(2) sum info(3) this]
  have m_le: "m \<le> bytes" using s(1) by (simp add: word_le_nat_alt)
  have pay: "max m (optimal_io_size t) = m" using metadata(2) by simp
  have w: "(if m < bytes then bytes - m else 0) = bytes - m" using m_le by auto
  have calc: "luks_parent_has_new_region pess (Some (r, t)) lk =
      ebind (to_blocks (lk_region lk) (bytes - m)) (\<lambda>n.
      ebind (region_new (r_start (lk_region lk)) n ?bs) (\<lambda>lr.
        Inr (lk\<lparr>lk_region := lr, lk_topology := topology_new 0 (optimal_io_size t)\<rparr>)))"
    by (simp only: luks_parent_has_new_region_def luks_calculate_def option.case prod.case device metadata(1)
        ebind_Inr Let_def pay w plain simp_thms if_False)
  obtain n where n: "to_blocks (lk_region lk) (bytes - m) = Inr n"
    "lk_region lk' = \<lparr>r_start = r_start (lk_region lk), r_length = n, r_block_size = ?bs\<rparr>"
    using luks [unfolded calc] by (auto simp: region_new_def result_simps split: if_splits)
  have bs: "?bs \<noteq> 0" "n = (bytes - m) div ?bs" using n(1) by (auto simp: to_blocks_def split: if_splits)
  have um: "unat (bytes - m) = unat bytes - unat m" using m_le by (simp add: unat_sub_no_wrap word_le_nat_alt)
  have "unat ?bs dvd unat (bytes - m)"
    unfolding um using blocks metadata_bounds(2) [OF metadata(1)] by (meson dvd_diff_nat dvd_trans)
  then have "unat (n * ?bs) = unat (bytes - m)"
    by (simp add: bs(2) unat_word_ariths(2) unat_div)
  then have "n * ?bs = bytes - m" by (simp add: word_unat_eq_iff)
  then have out: "to_bytes (lk_region lk') (r_length (lk_region lk')) = Inr (bytes - m)"
    by (simp add: n(2) to_bytes_def bs(1))
  have "unat (min_size cri) \<le> unat (bytes - m)" "unat (bytes - m) \<le> unat (max_size cri)"
    using s(1,2) c(1) by (auto simp: um tightens_def word_le_nat_alt)
  moreover have "resize_ok cri" using s(3) info(2) c(1) by (simp add: tightens_def)
  ultimately show ?thesis using out by (simp add: word_le_nat_alt)
qed

text \<open>
  The limits take the size of the metadata, the calculated size the optimal io size when that is
  greater: here the content is given 98 MiB, less than the 100 MiB it needs.
\<close>

definition demo_content :: resize_info where
  "demo_content = \<lparr>resize_ok = True, reasons = 0, min_size = 100 * MiB, max_size = 1000 * MiB, ri_block_size = 1\<rparr>"

definition demo_luks :: luks where
  "demo_luks = \<lparr>lk_type = ET_LUKS1, lk_integrity = '''', lk_password = '''',
     lk_region = \<lparr>r_start = 0, r_length = 405504, r_block_size = 512\<rparr>, lk_topology = topology_new 0 0\<rparr>"

definition demo_below :: region where
  "demo_below = \<lparr>r_start = 2048, r_length = 208896, r_block_size = 512\<rparr>"

lemma luks_loses_content:
  "\<exists>ri lk' content. luks_resize_info [Inr demo_content] demo_luks = Inr ri \<and> resize_ok ri \<and>
    to_bytes demo_below (r_length demo_below) = Inr (102 * MiB) \<and> allowed ri (unat (102 * MiB :: u64)) \<and>
    luks_parent_has_new_region id (Some (demo_below, topology_new 0 (4 * MiB))) demo_luks = Inr lk' \<and>
    to_bytes (lk_region lk') (r_length (lk_region lk')) = Inr content \<and> content < min_size demo_content"
proof -
  have "luks_resize_info [Inr demo_content] demo_luks =
      Inr \<lparr>resize_ok = True, reasons = 0, min_size = 102 * MiB, max_size = 1002 * MiB, ri_block_size = 1\<rparr>"
    by code_simp
  moreover have "luks_parent_has_new_region id (Some (demo_below, topology_new 0 (4 * MiB))) demo_luks =
      Inr (demo_luks\<lparr>lk_region := \<lparr>r_start = 0, r_length = 200704, r_block_size = 512\<rparr>,
        lk_topology := topology_new 0 (4 * MiB)\<rparr>)"
    by code_simp
  ultimately show ?thesis
    by (auto simp: allowed_def to_bytes_def demo_below_def demo_content_def MiB_def KiB_def)
qed

lemma resized_luks_holds_content_witness:
  "\<exists>content. to_bytes \<lparr>r_start = 0, r_length = 204800, r_block_size = 512\<rparr> 204800 = Inr content \<and>
    resize_ok demo_content \<and> min_size demo_content \<le> content \<and> content \<le> max_size demo_content"
proof -
  have i: "luks_resize_info [Inr demo_content] demo_luks =
      Inr \<lparr>resize_ok = True, reasons = 0, min_size = 102 * MiB, max_size = 1002 * MiB, ri_block_size = 1\<rparr>"
    by code_simp
  have l: "luks_parent_has_new_region id (Some (demo_below, topology_new 0 MiB)) demo_luks =
      Inr (demo_luks\<lparr>lk_region := \<lparr>r_start = 0, r_length = 204800, r_block_size = 512\<rparr>,
        lk_topology := topology_new 0 MiB\<rparr>)"
    by code_simp
  have m: "luks_metadata_size (lk_type demo_luks) = Inr (2 * MiB)" by code_simp
  have le: "optimal_io_size (topology_new 0 MiB) \<le> 2 * MiB" by code_simp
  have d: "to_bytes demo_below (r_length demo_below) = Inr (102 * MiB)" by code_simp
  have "\<exists>content. to_bytes (lk_region (demo_luks\<lparr>lk_region := \<lparr>r_start = 0, r_length = 204800, r_block_size = 512\<rparr>,
        lk_topology := topology_new 0 MiB\<rparr>)) (r_length (lk_region (demo_luks\<lparr>lk_region :=
          \<lparr>r_start = 0, r_length = 204800, r_block_size = 512\<rparr>, lk_topology := topology_new 0 MiB\<rparr>))) = Inr content \<and>
      resize_ok demo_content \<and> min_size demo_content \<le> content \<and> content \<le> max_size demo_content"
    by (rule resized_luks_holds_content [OF i _ _ _ _ _ d l m le])
      (simp_all add: allowed_def demo_content_def demo_luks_def MiB_def KiB_def)
  then show ?thesis by simp
qed

section \<open>A resized partition holds its filesystem\<close>

lemma combine_min_tightens:
  assumes "combine_min lo r = Inr r'"
    and "max (unat (min_size r)) (unat lo) + unat (ri_block_size r) \<le> 2 ^ 64"
  shows "tightens (unat lo + unat (ri_block_size r)) r r'" and "ri_block_size r' = ri_block_size r"
proof -
  let ?r = "r\<lparr>min_size := max (min_size r) lo\<rparr>"
  note t = ri_check_tightens [of ?r r'] assms
  then show "tightens (unat lo + unat (ri_block_size r)) r r'" "ri_block_size r' = ri_block_size r"
    by (auto simp: combine_min_def tightens_def unat_max)
qed

lemma combine_max_tightens:
  assumes "combine_max hi r = Inr r'" and "unat (min_size r) + unat (ri_block_size r) \<le> 2 ^ 64"
  shows "tightens (unat (ri_block_size r)) r r'" and "ri_block_size r' = ri_block_size r"
  using ri_check_tightens [of "r\<lparr>max_size := min (max_size r) hi\<rparr>" r'] assms
  by (auto simp: combine_max_def tightens_def)

lemma combine_block_size_tightens:
  assumes "combine_block_size b r = Inr r'"
    and "unat (min_size r) + lcm (unat (ri_block_size r)) (unat b) \<le> 2 ^ 64"
    and "lcm (unat (ri_block_size r)) (unat b) < 2 ^ 64"
  shows "tightens (lcm (unat (ri_block_size r)) (unat b)) r r'"
    and "unat (ri_block_size r') = lcm (unat (ri_block_size r)) (unat b)"
  using ri_check_tightens [of "r\<lparr>ri_block_size := lcm_u64 (ri_block_size r) b\<rparr>" r'] assms unat_lcm_u64 [OF assms(3)]
  by (auto simp: combine_block_size_def tightens_def)

definition same_limits :: "resize_info \<Rightarrow> resize_info \<Rightarrow> bool" where
  "same_limits r r' \<longleftrightarrow> min_size r' = min_size r \<and> max_size r' = max_size r \<and>
     ri_block_size r' = ri_block_size r \<and> resize_ok r' = resize_ok r"

lemma same_limits_reason: "same_limits r (if c then add_reason x r else r)"
  by (simp add: same_limits_def)

text \<open>The limits of a partition allow only what its content allows.\<close>

lemma partition_allows_content:
  assumes "partition_resize_info [Inr cri] p pt = Inr ri" and "resize_ok ri" and "allowed ri s"
    and "unat (min_size cri) \<le> 2 ^ 62"
    and "lcm (unat (ri_block_size cri)) (unat (r_block_size (p_region p))) \<le> 2 ^ 60"
    and "ri_block_size cri \<noteq> 0" and "r_block_size (p_region p) \<noteq> 0" and "unat (r_block_size (p_region p)) < 2 ^ 32"
  shows "resize_ok cri" and "allowed cri s"
proof -
  let ?bs = "ucast (get_block_size32 (p_region p)) :: u64"
  let ?b = "unat (ri_block_size cri)" and ?l = "lcm (unat (ri_block_size cri)) (unat (r_block_size (p_region p)))"
  have bs: "?bs = r_block_size (p_region p)"
    using assms(8) by (simp add: get_block_size32_def ucast_ucast_small)
  have pos: "0 < ?b" "0 < unat (r_block_size (p_region p))" using assms(6,7) by (simp_all add: unat_gt_0)
  have le: "?b \<le> ?l" "unat ?bs \<le> ?l" using pos by (simp_all add: bs dvd_imp_le lcm_pos_nat)
  have small: "?b \<le> 2 ^ 60" "unat ?bs \<le> 2 ^ 60" using le assms(5) by linarith+
  have np: "p_type p \<noteq> EXTENDED" "pt_type pt \<noteq> IMPLICIT"
    using assms(1,2) resize_info_False by (auto simp: partition_resize_info_def split: if_splits)
  obtain r1 r2 r2' r3 r3' bytes where r: "blk_device_resize_info [Inr cri] = Inr r1" "combine_min ?bs r1 = Inr r2"
      "combine_max bytes r2' = Inr r3" "combine_block_size ?bs r3' = Inr ri"
    and same: "same_limits r2 r2'" "same_limits r3 r3'"
    using assms(1) np
    by (simp add: partition_resize_info_def Let_def result_simps split del: if_split)
      (elim exE conjE, rule that, (assumption | rule same_limits_reason)+)
  note c = single_child [OF r(1) assms(4) small(1)]
  have m1: "max (unat (min_size r1)) (unat ?bs) + unat (ri_block_size r1) \<le> 2 ^ 64"
    using c assms(4) small by (simp add: tightens_def max_def)
  note t2 = combine_min_tightens [OF r(2) m1]
  have f2: "min_size r2' = min_size r2" "ri_block_size r2' = ri_block_size cri"
    using t2(2) c(2) same(1) by (simp_all add: same_limits_def)
  have "unat (min_size r2) \<le> 2 ^ 62 + 2 * 2 ^ 60 + (2 ^ 60 + 2 ^ 60)"
    using t2(1) c assms(4) small by (simp add: tightens_def)
  then have m2: "unat (min_size r2') + unat (ri_block_size r2') \<le> 2 ^ 64" unfolding f2 using small by simp
  note t3 = combine_max_tightens [OF r(3) m2]
  have f3: "min_size r3' = min_size r3" "ri_block_size r3' = ri_block_size cri"
    using t3(2) f2(2) same(2) by (simp_all add: same_limits_def)
  have "unat (min_size r3) \<le> 2 ^ 62 + 2 * 2 ^ 60 + (2 ^ 60 + 2 ^ 60) + 2 ^ 60"
    using t3(1) f2 \<open>unat (min_size r2) \<le> _\<close> small by (simp add: tightens_def)
  then have m3: "unat (min_size r3') + lcm (unat (ri_block_size r3')) (unat ?bs) \<le> 2 ^ 64"
    "lcm (unat (ri_block_size r3')) (unat ?bs) < 2 ^ 64"
    unfolding f3 bs using assms(5) by simp_all
  note t4 = combine_block_size_tightens [OF r(4) m3]
  have steps: "tightens (unat ?bs + ?b) r1 r2'" "tightens ?b r2' r3'" "tightens ?l r3' ri"
    using t2(1) t3(1) t4(1) same c(2) f2 f3 by (simp_all add: tightens_def same_limits_def bs)
  have t: "tightens (2 * ?b + (unat ?bs + ?b) + ?b + ?l) cri ri"
    by (rule tightens_trans [OF tightens_trans [OF tightens_trans [OF c(1) steps(1)] steps(2)] steps(3)])
  then show "resize_ok cri" using assms(2) by (simp add: tightens_def)
  have "unat (ri_block_size ri) dvd s" using assms(3) by (simp add: allowed_def)
  then have "?b dvd s" unfolding t4(2) f3 using dvd_trans [OF dvd_lcm1] by blast
  then show "allowed cri s" using tightens_allowed [OF t assms(3)] by (simp add: allowed_def)
qed

text \<open>
  C6: The limits of a partition with a filesystem are safe: a partition is made smaller only when the
  filesystem can shrink and what the system says is on it still fits, and greater only when the
  filesystem can grow. The minimum of the filesystem and the block sizes are far enough from 64 bits
  (up to 2 ^ 62, and a least common multiple up to 2 ^ 60).
\<close>

theorem resized_partition_holds_filesystem:
  assumes "fs_detect_on_disk ans query fs = Inr fri" and "bf_devices fs = [d]"
    and "fs_class_of (bf_type fs) = Some c" and "fitting_answers ans d"
    and "to_bytes (p_region p) (r_length (p_region p)) = Inr (fd_size d)"
    and "partition_resize_info [Inr fri] p pt = Inr ri" and "resize_ok ri" and "allowed ri s"
    and "unat (min_size fri) \<le> 2 ^ 62" and "ri_block_size fri \<noteq> 0"
    and "lcm (unat (ri_block_size fri)) (unat (r_block_size (p_region p))) \<le> 2 ^ 60"
    and "unat (r_block_size (p_region p)) < 2 ^ 32"
  shows "(s < unat (fd_size d) \<longrightarrow> supports_shrink c \<and> holds_data ans (bf_type fs) d s) \<and>
    (unat (fd_size d) < s \<longrightarrow> supports_grow c)"
proof -
  have bs: "r_block_size (p_region p) \<noteq> 0" using assms(5) by (auto simp: to_bytes_def split: if_splits)
  note content = partition_allows_content [OF assms(6-9,11,10) bs assms(12)]
  show ?thesis by (rule filesystem_limits_safe [OF assms(1) content(1) assms(2-4) content(2)])
qed

text \<open>
  A partition of 100 MiB with a ReiserFS of which 20 MiB are free: 90 MiB are allowed, and enough.
\<close>

definition demo_fs_device :: fs_device where
  "demo_fs_device = \<lparr>fd_sid = 1, fd_size = 100 * MiB, fd_block_size = 512\<rparr>"

definition demo_fs :: blk_filesystem where
  "demo_fs = \<lparr>bf_type = REISERFS, bf_devices = [demo_fs_device], bf_mount_point = None, bf_label = [],
     bf_uuid = [], bf_tune_options = ([], []), bf_resize_info = None, bf_multi_device_resize_info = None\<rparr>"

definition demo_answers :: fs_answers where
  "demo_answers = \<lparr>ans_free = Inr (20 * MiB), ans_used = Inr (80 * MiB), ans_ext = Inl (Exn []),
     ans_ntfs = Inl (Exn []), ans_margin = id\<rparr>"

definition demo_fs_limits :: resize_info where
  "demo_fs_limits = \<lparr>resize_ok = True, reasons = 0, min_size = 80 * MiB, max_size = 16 * TiB, ri_block_size = 1\<rparr>"

definition demo_fs_partition :: partition where
  "demo_fs_partition = \<lparr>p_sid = 1, p_number = 1, p_region = \<lparr>r_start = 2048, r_length = 204800, r_block_size = 512\<rparr>,
     p_type = PRIMARY, p_id = ID_LINUX, p_boot = False, p_in_system = True\<rparr>"

definition demo_fs_table :: ptable where
  "demo_fs_table = demo_gap\<lparr>pt_dev := (pt_dev demo_gap)\<lparr>dev_region := \<lparr>r_start = 0, r_length = 1000000, r_block_size = 512\<rparr>\<rparr>,
     pt_children := [demo_fs_partition]\<rparr>"

lemma resized_partition_holds_filesystem_witness:
  "supports_shrink reiserfs_class \<and> holds_data demo_answers REISERFS demo_fs_device (90 * 2 ^ 20)"
proof -
  have fs: "fs_detect_on_disk demo_answers None demo_fs = Inr demo_fs_limits" by code_simp
  have dev: "bf_devices demo_fs = [demo_fs_device]" "fs_class_of (bf_type demo_fs) = Some reiserfs_class"
    by (simp_all add: demo_fs_def fs_class_of_def)
  have fit: "fitting_answers demo_answers demo_fs_device" by (simp add: fitting_answers_def demo_answers_def)
  have bytes: "to_bytes (p_region demo_fs_partition) (r_length (p_region demo_fs_partition)) = Inr (fd_size demo_fs_device)"
    by code_simp
  define ri where "ri = \<lparr>resize_ok = True, reasons = 0, min_size = 83886080, max_size = 510934528, ri_block_size = (512 :: u64)\<rparr>"
  have ri: "partition_resize_info [Inr demo_fs_limits] demo_fs_partition demo_fs_table = Inr ri"
    unfolding ri_def by code_simp
  have al: "resize_ok ri" "allowed ri (90 * 2 ^ 20)" by (simp_all add: ri_def allowed_def)
  from resized_partition_holds_filesystem [OF fs dev fit bytes ri al] show ?thesis
    by (simp add: demo_fs_limits_def demo_fs_device_def demo_fs_partition_def demo_fs_def MiB_def KiB_def)
qed

end
