(* ===== verification/TopoSort.thy ===== *)
theory TopoSort
  imports GraphSearch
begin

text \<open>
  The two ways \<open>Actiongraph::calculate_order\<close> (storage/ActiongraphImpl.cc) sorts the actions:
  \<open>boost::topological_sort\<close>, a depth first search, and \<open>prioritised_topological_sort\<close>, Kahn's
  algorithm with a queue sorted by priority. Both return every action once with every edge going
  forward exactly when the graph has no cycle; the second one moreover always takes an action of
  the highest priority among those that are ready.
\<close>

section \<open>Kahn's algorithm with priorities\<close>

definition in_degree :: "(nat \<times> nat) list \<Rightarrow> nat \<Rightarrow> nat" where
  "in_degree es v = length (filter (\<lambda>e. snd e = v) es)"

text \<open>
  \<open>--in_degrees[v2] == 0\<close> for every edge out of the vertex taken: parallel edges count one each. The
  degree of a vertex that still has an edge into it is positive, so the unsigned decrement does not
  wrap around.
\<close>

fun release :: "nat list \<Rightarrow> (nat \<Rightarrow> nat) \<Rightarrow> nat list \<Rightarrow> (nat \<Rightarrow> nat) \<times> nat list" where
  "release [] deg q = (deg, q)"
| "release (w # ws) deg q =
     release ws (deg(w := deg w - 1)) (if deg w = 1 then q @ [w] else q)"

text \<open>The degrees only matter at the targets of edges.\<close>

definition degree_sum :: "(nat \<times> nat) list \<Rightarrow> (nat \<Rightarrow> nat) \<Rightarrow> nat" where
  "degree_sum es deg = (\<Sum>w \<in> snd ` set es. deg w)"

lemma release_degree_sum:
  assumes "set ws \<subseteq> snd ` set es"
  shows "degree_sum es (fst (release ws deg q)) + length (snd (release ws deg q))
    \<le> degree_sum es deg + length q"
  using assms
proof (induction ws deg q rule: release.induct)
  case (1 deg q)
  then show ?case by simp
next
  case (2 w ws deg q)
  let ?deg = "deg(w := deg w - 1)"
  have w: "w \<in> snd ` set es" using "2.prems" by simp
  have split: "degree_sum es d = d w + (\<Sum>v \<in> snd ` set es - {w}. d v)" for d
    unfolding degree_sum_def using w by (simp add: sum.remove)
  have rest: "(\<Sum>v \<in> snd ` set es - {w}. ?deg v) = (\<Sum>v \<in> snd ` set es - {w}. deg v)"
    by (rule sum.cong) auto
  have "degree_sum es ?deg + length (if deg w = 1 then q @ [w] else q) \<le> degree_sum es deg + length q"
    unfolding split [of deg] split [of ?deg] rest by simp
  moreover have "degree_sum es (fst (release (w # ws) deg q)) + length (snd (release (w # ws) deg q))
      \<le> degree_sum es ?deg + length (if deg w = 1 then q @ [w] else q)"
    using "2.IH" "2.prems" by (simp only: release.simps list.set insert_subset)
  ultimately show ?case by linarith
qed

text \<open>
  The queue is sorted by ascending priority, keeping the order of equal ones, and its last element
  is taken.
\<close>

function kahn ::
  "(nat \<times> nat) list \<Rightarrow> (nat \<Rightarrow> int) \<Rightarrow> nat list \<Rightarrow> (nat \<Rightarrow> nat) \<Rightarrow> nat list \<Rightarrow> nat list" where
  "kahn es prio [] deg order = order"
| "kahn es prio (u # us) deg order =
     (let q = sort_key prio (u # us); v = last q;
          (deg', q') = release (succs es v) deg (butlast q)
      in kahn es prio q' deg' (order @ [v]))"
  by pat_completeness auto

termination
proof (relation "measure (\<lambda>(es, prio, q, deg, order). degree_sum es deg + length q)")
  fix es prio u us deg order and q :: "nat list" and v x deg' q'
  assume q: "q = sort_key prio (u # us)" and v: "v = last q"
    and x: "x = release (succs es v) deg (butlast q)" and pair: "(deg', q') = x"
  have len: "length q = Suc (length us)" using q by simp
  have "set (succs es v) \<subseteq> snd ` set es" by force
  from release_degree_sum [OF this, of deg "butlast q"]
  have "degree_sum es deg' + length q' \<le> degree_sum es deg + length us"
    using x pair len by (cases "release (succs es v) deg (butlast q)") simp
  then show "((es, prio, q', deg', order @ [v]), (es, prio, u # us, deg, order))
      \<in> measure (\<lambda>(es, prio, q, deg, order). degree_sum es deg + length q)"
    by simp
qed simp

definition prioritised_topological_sort ::
  "(nat \<times> nat) list \<Rightarrow> nat list \<Rightarrow> (nat \<Rightarrow> int) \<Rightarrow> nat list result" where
  "prioritised_topological_sort es vs prio =
     (let deg = in_degree es;
          order = kahn es prio (filter (\<lambda>v. deg v = 0) vs) deg []
      in if length order \<noteq> length vs then Inl NotADag else Inr order)"

text \<open>
  \<open>boost::topological_sort\<close> into a front inserter: the vertices finished last come first, and a back
  edge throws.
\<close>

definition topological_sort :: "(nat \<times> nat) list \<Rightarrow> nat list \<Rightarrow> nat list result" where
  "topological_sort es vs =
     (let (black, cyc) = dfs_all es vs [] False in if cyc then Inl NotADag else Inr black)"

section \<open>The invariant of the loop\<close>

text \<open>
  The edges into a vertex from vertices not taken yet.
\<close>

definition pending :: "(nat \<times> nat) list \<Rightarrow> nat list \<Rightarrow> nat \<Rightarrow> nat" where
  "pending es order w = length (filter (\<lambda>e. snd e = w \<and> fst e \<notin> set order) es)"

lemma pending_Nil: "pending es [] w = in_degree es w"
  by (simp add: pending_def in_degree_def)

lemma pending_zero: "pending es order w = 0 \<longleftrightarrow> (\<forall>u. (u, w) \<in> set es \<longrightarrow> u \<in> set order)"
  by (force simp: pending_def filter_empty_conv)

lemma pending_take:
  assumes "v \<notin> set order"
  shows "pending es order w = pending es (order @ [v]) w + count_list (succs es v) w"
proof (induction es)
  case Nil
  then show ?case by (simp add: pending_def succs_def)
next
  case (Cons e es)
  then show ?case using assms by (cases e) (auto simp: pending_def succs_def)
qed

text \<open>Releasing counts the edges down and queues the vertices that reach zero.\<close>

lemma release_spec:
  assumes "\<forall>w. count_list ws w \<le> deg w" and "distinct q" and "\<forall>w \<in> set q. deg w = 0"
  shows "fst (release ws deg q) w = deg w - count_list ws w \<and>
    (\<exists>new. snd (release ws deg q) = q @ new \<and> distinct new \<and>
      set new = {w \<in> set ws. deg w = count_list ws w})"
  using assms
proof (induction ws deg q arbitrary: w rule: release.induct)
  case (1 deg q)
  then show ?case by simp
next
  case (2 v ws deg q)
  let ?deg = "deg(v := deg v - 1)" and ?q = "if deg v = 1 then q @ [v] else q"
  have dv: "1 \<le> deg v" using "2.prems"(1) by (metis count_list.simps(2) le_add2 le_trans)
  have c: "\<forall>w. count_list ws w \<le> ?deg w"
  proof
    fix w show "count_list ws w \<le> ?deg w"
      using spec [OF "2.prems"(1), of w] by (cases "w = v") simp_all
  qed
  have "v \<notin> set q" using "2.prems"(3) dv by auto
  then have dq: "distinct ?q" "\<forall>w \<in> set ?q. ?deg w = 0" using "2.prems"(2,3) by auto
  note ih = "2.IH" [OF c dq]
  obtain new where new: "snd (release ws ?deg ?q) = ?q @ new" "distinct new"
    "set new = {w \<in> set ws. ?deg w = count_list ws w}" using ih by blast
  have r: "release (v # ws) deg q = release ws ?deg ?q" by (rule release.simps(2))
  have "fst (release ws ?deg ?q) w = ?deg w - count_list ws w" using ih [of w] by blast
  also have "\<dots> = deg w - count_list (v # ws) w" by (cases "w = v") simp_all
  finally have deg: "fst (release (v # ws) deg q) w = deg w - count_list (v # ws) w" unfolding r .
  have iff: "?deg w = count_list ws w \<longleftrightarrow> deg w = count_list (v # ws) w" for w
    using dv by (cases "w = v") auto
  have set_new: "set new = {w \<in> set ws. deg w = count_list (v # ws) w}"
    using new(3) by (simp only: iff)
  show ?case
  proof (cases "deg v = 1")
    case True
    then have zero: "count_list ws v = 0" using spec [OF c, of v] by simp
    then have v: "v \<notin> set ws" by (simp add: count_list_0_iff)
    have "deg v = count_list (v # ws) v" using True zero by simp
    then have "set (v # new) = {w \<in> set (v # ws). deg w = count_list (v # ws) w}"
      unfolding list.set(2) set_new by blast
    moreover have "distinct (v # new)" using new(2) set_new v by simp
    moreover have "snd (release (v # ws) deg q) = q @ v # new"
      unfolding r new(1) using True by simp
    ultimately show ?thesis using deg by blast
  next
    case False
    have "v \<in> set ws" if "deg v = count_list (v # ws) v"
    proof (rule ccontr)
      assume "v \<notin> set ws"
      then have "count_list ws v = 0" by (simp add: count_list_0_iff)
      then show False using that False by simp
    qed
    then have "set new = {w \<in> set (v # ws). deg w = count_list (v # ws) w}"
      unfolding list.set(2) set_new by blast
    moreover have "snd (release (v # ws) deg q) = q @ new"
      unfolding r new(1) using False by simp
    ultimately show ?thesis using deg new(2) by blast
  qed
qed

text \<open>
  The invariant: the degrees are the pending edges, the queue holds exactly the vertices that are
  ready, the predecessors of a vertex come before it in the order, and every vertex was taken with
  at least the priority of the vertices that were ready then.
\<close>

definition kahn_inv ::
  "(nat \<times> nat) list \<Rightarrow> nat list \<Rightarrow> (nat \<Rightarrow> int) \<Rightarrow> nat list \<Rightarrow> (nat \<Rightarrow> nat) \<Rightarrow> nat list \<Rightarrow> bool" where
  "kahn_inv es vs prio q deg order \<longleftrightarrow>
     distinct (order @ q) \<and> set (order @ q) \<subseteq> set vs \<and>
     (\<forall>w. deg w = pending es order w) \<and>
     (\<forall>w \<in> set vs. w \<notin> set order \<longrightarrow> (w \<in> set q \<longleftrightarrow> pending es order w = 0)) \<and>
     (\<forall>i < length order. \<forall>u. (u, order ! i) \<in> set es \<longrightarrow> u \<in> set (take i order)) \<and>
     (\<forall>i < length order. \<forall>w \<in> set vs. w \<notin> set (take i order) \<longrightarrow>
        pending es (take i order) w = 0 \<longrightarrow> prio w \<le> prio (order ! i))"

lemma pending_taken:
  assumes "\<forall>i < length order. \<forall>u. (u, order ! i) \<in> set es \<longrightarrow> u \<in> set (take i order)"
    and "w \<in> set order"
  shows "pending es order w = 0"
proof -
  from assms(2) obtain i where i: "i < length order" "order ! i = w" by (auto simp: in_set_conv_nth)
  then have "\<forall>u. (u, w) \<in> set es \<longrightarrow> u \<in> set order" using assms(1) by (metis in_set_takeD)
  then show ?thesis by (simp add: pending_zero)
qed

lemma last_sorted_max:
  assumes "w \<in> set q" shows "prio w \<le> prio (last (sort_key prio q))"
proof -
  let ?s = "sort_key prio q"
  have w: "w \<in> set ?s" using assms by simp
  then obtain xs x where s: "?s = xs @ [x]" by (cases ?s rule: rev_cases) auto
  have "sorted (List.map prio ?s)" by (rule sorted_sort_key)
  then have "\<forall>y \<in> set xs. prio y \<le> prio x" unfolding s by (simp add: sorted_append)
  then show ?thesis using w unfolding s by auto
qed

lemma butlast_distinct:
  assumes "distinct q" and "q \<noteq> []"
  shows "distinct (butlast q) \<and> set (butlast q) = set q - {last q} \<and> last q \<in> set q"
  using assms by (cases q rule: rev_cases) auto

lemma kahn_inv_step:
  assumes inv: "kahn_inv es vs prio (u # us) deg order"
    and ends: "snd ` set es \<subseteq> set vs"
    and q: "q = sort_key prio (u # us)" and v: "v = last q"
    and rel: "release (succs es v) deg (butlast q) = (deg', q')"
  shows "kahn_inv es vs prio q' deg' (order @ [v])"
proof -
  let ?Q = "set (u # us)" and ?o = "order @ [v]"
  have dist: "distinct (order @ u # us)" and sub: "set (order @ u # us) \<subseteq> set vs"
    and deg: "\<And>w. deg w = pending es order w"
    and ready: "\<And>w. w \<in> set vs \<Longrightarrow> w \<notin> set order \<Longrightarrow> w \<in> ?Q \<longleftrightarrow> pending es order w = 0"
    and topo: "\<forall>i < length order. \<forall>u. (u, order ! i) \<in> set es \<longrightarrow> u \<in> set (take i order)"
    and prios: "\<forall>i < length order. \<forall>w \<in> set vs. w \<notin> set (take i order) \<longrightarrow>
        pending es (take i order) w = 0 \<longrightarrow> prio w \<le> prio (order ! i)"
    using inv unfolding kahn_inv_def by blast+
  have sq: "set q = ?Q" unfolding q by (rule set_sort)
  have "distinct q" unfolding q using dist by (simp only: distinct_sort distinct_append)
  moreover have "q \<noteq> []" using sq by auto
  ultimately have bl: "distinct (butlast q)" "set (butlast q) = ?Q - {v}" "v \<in> ?Q"
    using butlast_distinct [of q] sq v by auto
  have vo: "v \<notin> set order" "v \<in> set vs" using bl(3) dist sub by auto
  have v0: "pending es order v = 0" using ready [OF vo(2,1)] bl(3) by blast
  have take: "pending es order w = pending es ?o w + count_list (succs es v) w" for w
    by (rule pending_take [OF vo(1)])
  have "\<forall>w. count_list (succs es v) w \<le> deg w"
  proof
    fix w show "count_list (succs es v) w \<le> deg w" using deg [of w] take [of w] by linarith
  qed
  moreover have bl0: "pending es order w = 0" if "w \<in> set (butlast q)" for w
  proof -
    have "w \<in> ?Q" using that bl(2) by blast
    moreover from this have "w \<in> set vs" "w \<notin> set order" using dist sub by auto
    ultimately show ?thesis using ready by blast
  qed
  moreover have "\<forall>w \<in> set (butlast q). deg w = 0" using bl0 deg by simp
  ultimately have spec: "fst (release (succs es v) deg (butlast q)) w = deg w - count_list (succs es v) w \<and>
      (\<exists>new. snd (release (succs es v) deg (butlast q)) = butlast q @ new \<and> distinct new \<and>
        set new = {w \<in> set (succs es v). deg w = count_list (succs es v) w})" for w
    using release_spec [OF _ bl(1)] by blast
  obtain new where q': "q' = butlast q @ new" and dn: "distinct new"
    and "set new = {w \<in> set (succs es v). deg w = count_list (succs es v) w}"
    using spec rel by auto
  moreover have "deg w = count_list (succs es v) w \<longleftrightarrow> pending es ?o w = 0" for w
    using deg [of w] take [of w] by linarith
  ultimately have new: "set new = {w \<in> set (succs es v). pending es ?o w = 0}" by simp
  have deg': "deg' w = pending es ?o w" for w
    using spec [of w] rel deg [of w] take [of w] by simp
  have succ_pos: "0 < pending es order w" if "w \<in> set (succs es v)" for w
    using that take [of w] by (metis add_gr_0 count_list_0_iff neq0_conv)
  have new_fresh: "w \<notin> set order \<and> w \<notin> set (butlast q) \<and> w \<noteq> v" if "w \<in> set new" for w
  proof -
    have "w \<in> set (succs es v)" using that new by simp
    then have "pending es order w \<noteq> 0" using succ_pos by simp
    then show ?thesis using pending_taken [OF topo, of w] bl0 [of w] v0 by metis
  qed
  show ?thesis
    unfolding kahn_inv_def
  proof (intro conjI)
    show "distinct (?o @ q')"
      using dist vo bl dn new_fresh unfolding q' by auto
    have "set new \<subseteq> set vs" using new ends by auto
    then show "set (?o @ q') \<subseteq> set vs" using sub vo bl unfolding q' by auto
    show "\<forall>w. deg' w = pending es ?o w" using deg' by blast
    show "\<forall>w \<in> set vs. w \<notin> set ?o \<longrightarrow> (w \<in> set q' \<longleftrightarrow> pending es ?o w = 0)"
    proof (intro ballI impI)
      fix w assume w: "w \<in> set vs" "w \<notin> set ?o"
      have "w \<in> set q' \<longleftrightarrow> (w \<in> ?Q \<or> w \<in> set new)" using w bl unfolding q' by auto
      also have "\<dots> \<longleftrightarrow> pending es ?o w = 0"
      proof (cases "w \<in> set (succs es v)")
        case True
        then have "w \<notin> ?Q" using ready [OF w(1)] w(2) succ_pos [OF True] by auto
        then show ?thesis using new True by auto
      next
        case False
        then have "pending es order w = pending es ?o w"
          using take [of w] by (metis add.right_neutral count_list_0_iff)
        then show ?thesis using ready [OF w(1)] w(2) new False by auto
      qed
      finally show "w \<in> set q' \<longleftrightarrow> pending es ?o w = 0" .
    qed
    show "\<forall>i < length ?o. \<forall>u. (u, ?o ! i) \<in> set es \<longrightarrow> u \<in> set (take i ?o)"
      using topo v0 by (auto simp: nth_append less_Suc_eq pending_zero)
    show "\<forall>i < length ?o. \<forall>w \<in> set vs. w \<notin> set (take i ?o) \<longrightarrow>
        pending es (take i ?o) w = 0 \<longrightarrow> prio w \<le> prio (?o ! i)"
    proof (intro allI ballI impI)
      fix i w
      assume i: "i < length ?o" and w: "w \<in> set vs" "w \<notin> set (take i ?o)"
        "pending es (take i ?o) w = 0"
      show "prio w \<le> prio (?o ! i)"
      proof (cases "i < length order")
        case True
        then show ?thesis using prios w by (simp add: nth_append)
      next
        case False
        then have i: "i = length order" using i by simp
        then have "w \<in> ?Q" using ready [OF w(1)] w(2,3) by simp
        from last_sorted_max [OF this, of prio] show ?thesis
          unfolding i v q by (simp only: nth_append_length)
      qed
    qed
  qed
qed

lemma kahn_ends:
  assumes "kahn_inv es vs prio q deg order" and "snd ` set es \<subseteq> set vs"
  shows "\<exists>deg'. kahn_inv es vs prio [] deg' (kahn es prio q deg order)"
  using assms
proof (induction es prio q deg order rule: kahn.induct)
  case (1 es prio deg order)
  then show ?case by auto
next
  case (2 es prio u us deg order)
  let ?q = "sort_key prio (u # us)"
  obtain deg' q' where rel: "release (succs es (last ?q)) deg (butlast ?q) = (deg', q')" by fastforce
  have "kahn_inv es vs prio q' deg' (order @ [last ?q])"
    by (rule kahn_inv_step [OF "2.prems" refl refl rel])
  from "2.IH" [OF refl refl rel [symmetric] refl this "2.prems"(2)]
  show ?case using rel by (simp add: Let_def)
qed

section \<open>Both sorts are right\<close>

definition topological :: "(nat \<times> nat) list \<Rightarrow> nat list \<Rightarrow> bool" where
  "topological es order \<longleftrightarrow>
     (\<forall>i < length order. \<forall>j < length order. (order ! i, order ! j) \<in> set es \<longrightarrow> i < j)"

lemma topological_acyclic:
  assumes "topological es order" and "fst ` set es \<subseteq> set order" and "snd ` set es \<subseteq> set order"
  shows "acyclic (set es)"
proof -
  define pos where "pos v = (LEAST i. i < length order \<and> order ! i = v)" for v
  have pos: "pos v < length order \<and> order ! pos v = v" if v: "v \<in> set order" for v
  proof -
    from v obtain i where "i < length order \<and> order ! i = v" by (auto simp: in_set_conv_nth)
    then show ?thesis unfolding pos_def by (rule LeastI)
  qed
  have step: "(a, b) \<in> set es \<Longrightarrow> pos a < pos b" for a b
  proof -
    assume e: "(a, b) \<in> set es"
    then have "a \<in> set order" "b \<in> set order" using assms(2,3) by force+
    then show "pos a < pos b" using pos assms(1) e unfolding topological_def by metis
  qed
  have "(a, b) \<in> (set es)\<^sup>+ \<Longrightarrow> pos a < pos b" for a b
    by (induction rule: trancl_induct) (auto intro: less_trans step)
  then show ?thesis by (auto simp: acyclic_def)
qed

text \<open>If vertices are left over, each of them has a predecessor that is left over too.\<close>

lemma left_over_cycle:
  assumes "finite R" and "R \<noteq> {}" and "\<forall>w \<in> R. \<exists>u \<in> R. (u, w) \<in> E"
  shows "\<not> acyclic E"
proof
  assume ac: "acyclic E"
  have "finite (E \<inter> R \<times> R)" using assms(1) by (meson finite_Int finite_SigmaI)
  moreover have "acyclic (E \<inter> R \<times> R)" using ac by (rule acyclic_subset) auto
  ultimately have "wf (E \<inter> R \<times> R)" by (rule finite_acyclic_wf)
  then obtain w where "w \<in> R" "\<forall>u. (u, w) \<in> E \<inter> R \<times> R \<longrightarrow> u \<notin> R"
    using assms(2) by (meson ex_in_conv wfE_min)
  then show False using assms(3) by blast
qed

lemma kahn_result:
  fixes prio :: "nat \<Rightarrow> int"
  assumes ends: "fst ` set es \<subseteq> set vs" "snd ` set es \<subseteq> set vs" and dist: "distinct vs"
  defines "order \<equiv> kahn es prio (filter (\<lambda>v. in_degree es v = 0) vs) (in_degree es) []"
  shows "distinct order \<and> set order \<subseteq> set vs \<and> topological es order \<and>
    (length order = length vs \<longleftrightarrow> acyclic (set es)) \<and>
    (\<forall>i < length order. \<forall>w \<in> set vs. w \<notin> set (take i order) \<longrightarrow>
      (\<forall>u. (u, w) \<in> set es \<longrightarrow> u \<in> set (take i order)) \<longrightarrow> prio w \<le> prio (order ! i))"
proof -
  have "kahn_inv es vs prio (filter (\<lambda>v. in_degree es v = 0) vs) (in_degree es) []"
    using dist by (auto simp: kahn_inv_def pending_Nil)
  from kahn_ends [OF this ends(2)] obtain deg where inv: "kahn_inv es vs prio [] deg order"
    unfolding order_def by blast
  have d: "distinct order" and sub: "set order \<subseteq> set vs"
    and left: "\<And>w. w \<in> set vs \<Longrightarrow> w \<notin> set order \<Longrightarrow> pending es order w \<noteq> 0"
    and topo: "\<forall>i < length order. \<forall>u. (u, order ! i) \<in> set es \<longrightarrow> u \<in> set (take i order)"
    and prios: "\<forall>i < length order. \<forall>w \<in> set vs. w \<notin> set (take i order) \<longrightarrow>
        pending es (take i order) w = 0 \<longrightarrow> prio w \<le> prio (order ! i)"
    using inv unfolding kahn_inv_def by auto
  have top: "topological es order"
    unfolding topological_def
  proof (intro allI impI)
    fix i j assume i: "i < length order" and j: "j < length order" and e: "(order ! i, order ! j) \<in> set es"
    then have "order ! i \<in> set (take j order)" using topo by blast
    then obtain k where "k < j" "order ! k = order ! i" "k < length order"
      by (auto simp: in_set_conv_nth)
    then show "i < j" using d i by (simp add: nth_eq_iff_index_eq)
  qed
  have len: "length order = length vs \<longleftrightarrow> set order = set vs"
    using d dist sub by (metis card_subset_eq distinct_card List.finite_set)
  have "set order = set vs \<longleftrightarrow> acyclic (set es)"
  proof
    assume "set order = set vs"
    then show "acyclic (set es)" using topological_acyclic [OF top] ends by simp
  next
    assume ac: "acyclic (set es)"
    show "set order = set vs"
    proof (rule ccontr)
      assume "set order \<noteq> set vs"
      then have "set vs - set order \<noteq> {}" using sub by blast
      moreover have "\<forall>w \<in> set vs - set order. \<exists>u \<in> set vs - set order. (u, w) \<in> set es"
        using left ends(1) unfolding pending_zero by force
      ultimately show False using left_over_cycle [of "set vs - set order" "set es"] ac by blast
    qed
  qed
  then show ?thesis using d sub top prios unfolding len by (auto simp: pending_zero)
qed

lemma finished_order_topological:
  assumes "finished_order es bs" and "distinct bs"
  shows "topological es bs"
  using assms
proof (induction bs)
  case Nil
  then show ?case by (simp add: topological_def)
next
  case (Cons b bs)
  then have ih: "topological es bs" by simp
  show ?case
    unfolding topological_def
  proof (intro allI impI)
    fix i j assume i: "i < length (b # bs)" and j: "j < length (b # bs)"
      and e: "((b # bs) ! i, (b # bs) ! j) \<in> set es"
    show "i < j"
    proof (cases i)
      case 0
      then have "(b # bs) ! j \<in> set bs" using e Cons.prems(1) by auto
      then have "j \<noteq> 0" using Cons.prems(2) by (cases j) simp_all
      then show ?thesis using 0 by simp
    next
      case (Suc k)
      then have k: "bs ! k \<in> set bs" using i by simp
      have "finished_order es bs" using Cons.prems(1) by simp
      have "j \<noteq> 0"
      proof
        assume "j = 0"
        then have "(bs ! k, b) \<in> (set es)\<^sup>+" using e Suc by auto
        from finished_order_acyclic [OF _ _ this k] Cons.prems show False by simp
      qed
      then obtain l where "j = Suc l" by (cases j) auto
      then show ?thesis using ih e i j Suc unfolding topological_def by auto
    qed
  qed
qed

lemma dfs_visit_subset:
  assumes "snd ` set es \<subseteq> V" and "fst ` set st \<subseteq> V" and "\<Union> ((set \<circ> snd) ` set st) \<subseteq> V"
    and "set black \<subseteq> V"
  shows "set (fst (dfs_visit es st black cyc)) \<subseteq> V"
  using assms
proof (induction es st black cyc rule: dfs_visit.induct)
  case (3 es u v vs st black cyc)
  have "set (succs es v) \<subseteq> V" using "3.prems"(1) by force
  then show ?case using 3 by (auto split: if_splits)
qed auto

lemma dfs_all_subset:
  assumes "snd ` set es \<subseteq> V" and "set black \<subseteq> V" and "set rs \<subseteq> V"
  shows "set (fst (dfs_all es rs black cyc)) \<subseteq> V"
  using assms
proof (induction es rs black cyc rule: dfs_all.induct)
  case (2 es r rs black cyc)
  show ?case
  proof (cases "r \<in> set black")
    case True
    then show ?thesis using "2.IH"(1) "2.prems" by simp
  next
    case False
    obtain b c where v: "dfs_visit es [(r, succs es r)] black cyc = (b, c)" by fastforce
    have "set (succs es r) \<subseteq> V" using "2.prems"(1) by force
    then have "set b \<subseteq> V"
      using dfs_visit_subset [of es V "[(r, succs es r)]" black cyc] "2.prems" v by simp
    then show ?thesis using "2.IH"(2) [OF False v [symmetric] refl] "2.prems" False v by simp
  qed
qed simp

lemma topological_sort_result:
  assumes ends: "fst ` set es \<subseteq> set vs" "snd ` set es \<subseteq> set vs" and dist: "distinct vs"
  shows "case topological_sort es vs of
      Inl e \<Rightarrow> e = NotADag \<and> \<not> acyclic (set es)
    | Inr order \<Rightarrow> distinct order \<and> set order = set vs \<and> topological es order"
proof -
  obtain b c where r: "dfs_all es vs [] False = (b, c)" by fastforce
  have "dfs_inv es [] [] False" by (simp add: dfs_inv_def)
  from dfs_all_inv [OF this, of vs] have inv: "dfs_inv es [] b c" and all: "set vs \<subseteq> set b"
    using r by simp_all
  have sub: "set b \<subseteq> set vs"
    using dfs_all_subset [OF ends(2) _ subset_refl, of "[]" False] r by simp
  show ?thesis
  proof (cases c)
    case True
    then show ?thesis using inv r by (auto simp: topological_sort_def dfs_inv_def acyclic_def)
  next
    case False
    then have "finished_order es b" "distinct b" using inv by (simp_all add: dfs_inv_def)
    then show ?thesis
      using False r all sub finished_order_topological by (simp add: topological_sort_def)
  qed
qed

end
