(* ===== verification/Actiongraph.thy ===== *)
theory Actiongraph
  imports Devicegraph TopoSort "HOL-Library.Char_ord" "HOL-Library.List_Lexorder"
begin

text \<open>
  The actiongraph (storage/ActiongraphImpl.cc and storage/Actions): the actions that turn one
  devicegraph into another as vertices, their dependencies as edges. Modelled are the changes of
  the graph from the first chain of actions to the calculated order: adding chains, merging
  duplicate mounts, the dependencies between mounts and between devices, removing the
  synchronisation points, the priorities, the order and the check for taboo devices. What the
  classes of devices and holders add themselves are parameters.
\<close>

section \<open>Actions and their graph\<close>

text \<open>
  A mount or unmount action carries what \<open>get_rootprefixed_path\<close> returns for its mount point and
  whether the filesystem type is swap. A resize action knows whether it grows, \<open>RenameIn\<close> the
  sid of the renamed block device.
\<close>

datatype action_kind =
  Create
| Delete
| Mount string bool
| Unmount string bool
| Reallot bool nat
| Resize bool
| RenameIn nat
| Repair
| OtherAction string

datatype affect = AffectDevice nat | AffectHolder nat nat

record action =
  a_kind :: action_kind
  a_affect :: affect
  a_first :: bool
  a_last :: bool
  a_only_sync :: bool
  a_nop :: bool
  a_priority :: int

definition action_new :: "action_kind \<Rightarrow> affect \<Rightarrow> bool \<Rightarrow> bool \<Rightarrow> action" where
  "action_new k af only_sync nop =
     \<lparr>a_kind = k, a_affect = af, a_first = False, a_last = False, a_only_sync = only_sync,
      a_nop = nop, a_priority = 0\<rparr>"

definition affects_device :: "action \<Rightarrow> bool" where
  "affects_device a = (case a_affect a of AffectDevice _ \<Rightarrow> True | AffectHolder _ _ \<Rightarrow> False)"

text \<open>The sid is the first member of the union in either case.\<close>

definition a_sid :: "action \<Rightarrow> nat" where
  "a_sid a = (case a_affect a of AffectDevice s \<Rightarrow> s | AffectHolder s _ \<Rightarrow> s)"

definition is_mount :: "action \<Rightarrow> bool" where
  "is_mount a = (case a_kind a of Mount _ _ \<Rightarrow> True | _ \<Rightarrow> False)"

definition is_unmount :: "action \<Rightarrow> bool" where
  "is_unmount a = (case a_kind a of Unmount _ _ \<Rightarrow> True | _ \<Rightarrow> False)"

text \<open>\<open>Action::Unmount\<close> is derived from \<open>Action::Delete\<close>, and the test is a \<open>dynamic_cast\<close>.\<close>

definition is_delete :: "action \<Rightarrow> bool" where
  "is_delete a = (case a_kind a of Delete \<Rightarrow> True | Unmount _ _ \<Rightarrow> True | _ \<Rightarrow> False)"

text \<open>\<open>Action::Mount\<close> is derived from \<open>Action::Create\<close>.\<close>

definition is_create :: "action \<Rightarrow> bool" where
  "is_create a = (case a_kind a of Create \<Rightarrow> True | Mount _ _ \<Rightarrow> True | _ \<Rightarrow> False)"

definition is_swap_mount :: "action \<Rightarrow> bool" where
  "is_swap_mount a = (case a_kind a of Mount _ swap \<Rightarrow> swap | _ \<Rightarrow> False)"

record actiongraph =
  ag_vertices :: "(nat \<times> action) list"
  ag_edges :: "(nat \<times> nat) list"
  ag_next :: nat

definition ag_empty :: actiongraph where
  "ag_empty = \<lparr>ag_vertices = [], ag_edges = [], ag_next = 0\<rparr>"

definition action_at :: "actiongraph \<Rightarrow> nat \<Rightarrow> action option" where
  "action_at g v = map_of (ag_vertices g) v"

definition ag_vs :: "actiongraph \<Rightarrow> nat list" where
  "ag_vs g = List.map fst (ag_vertices g)"

definition num_actions :: "actiongraph \<Rightarrow> nat" where
  "num_actions g = length (ag_vertices g)"

definition ag_children :: "actiongraph \<Rightarrow> nat \<Rightarrow> nat list" where
  "ag_children g v = succs (ag_edges g) v"

definition ag_parents :: "actiongraph \<Rightarrow> nat \<Rightarrow> nat list" where
  "ag_parents g v = List.map fst (filter (\<lambda>e. snd e = v) (ag_edges g))"

definition ag_add_vertex :: "action \<Rightarrow> actiongraph \<Rightarrow> nat \<times> actiongraph" where
  "ag_add_vertex a g =
     (ag_next g, g\<lparr>ag_vertices := ag_vertices g @ [(ag_next g, a)], ag_next := ag_next g + 1\<rparr>)"

text \<open>Parallel edges are allowed: adding an edge always succeeds.\<close>

definition ag_add_edge :: "nat \<Rightarrow> nat \<Rightarrow> actiongraph \<Rightarrow> actiongraph" where
  "ag_add_edge a b g = g\<lparr>ag_edges := ag_edges g @ [(a, b)]\<rparr>"

section \<open>Chains\<close>

text \<open>A chain of new actions; the first and the last one are marked.\<close>

fun add_chain_from :: "bool \<Rightarrow> nat \<Rightarrow> action list \<Rightarrow> actiongraph \<Rightarrow> actiongraph" where
  "add_chain_from at_begin v1 [] g = g"
| "add_chain_from at_begin v1 (a # as) g =
     (let (v2, g') = ag_add_vertex (a\<lparr>a_first := at_begin, a_last := (as = [])\<rparr>) g;
          g'' = (if at_begin then g' else ag_add_edge v1 v2 g')
      in add_chain_from False v2 as g'')"

definition add_chain :: "action list \<Rightarrow> actiongraph \<Rightarrow> actiongraph" where
  "add_chain as g = add_chain_from True 0 as g"

text \<open>A chain of edges along existing actions.\<close>

fun add_chain_vertices :: "nat list \<Rightarrow> actiongraph \<Rightarrow> actiongraph" where
  "add_chain_vertices (v # w # vs) g = add_chain_vertices (w # vs) (ag_add_edge v w g)"
| "add_chain_vertices _ g = g"

text \<open>Every action of a group before every action of the next non-empty group.\<close>

fun add_chain_pairs :: "nat list list \<Rightarrow> actiongraph \<Rightarrow> actiongraph" where
  "add_chain_pairs (ls # rs # vss) g =
     add_chain_pairs (rs # vss) (fold (\<lambda>l. fold (\<lambda>r. ag_add_edge l r) rs) ls g)"
| "add_chain_pairs _ g = g"

definition add_chain_groups :: "nat list list \<Rightarrow> actiongraph \<Rightarrow> actiongraph" where
  "add_chain_groups vss g = add_chain_pairs (filter (\<lambda>vs. vs \<noteq> []) vss) g"

section \<open>Actions of a device\<close>

datatype actions_filter = ONLY_FIRST | ONLY_LAST

definition actions_with_sid :: "actiongraph \<Rightarrow> nat \<Rightarrow> nat list" where
  "actions_with_sid g sid =
     List.map fst (filter (\<lambda>(v, a). affects_device a \<and> a_sid a = sid) (ag_vertices g))"

definition actions_with_sid_filter :: "actiongraph \<Rightarrow> nat \<Rightarrow> actions_filter \<Rightarrow> nat list" where
  "actions_with_sid_filter g sid fl =
     filter (\<lambda>v. case action_at g v of
         None \<Rightarrow> False
       | Some a \<Rightarrow> (case fl of ONLY_FIRST \<Rightarrow> a_first a | ONLY_LAST \<Rightarrow> a_last a))
       (actions_with_sid g sid)"

text \<open>
  The devices that only the right devicegraph has are created, those in both modified, those only
  the left one has deleted, each group by ascending sid. \<open>Device::add_create_actions\<close> and its
  companions are virtual: parameters.
\<close>

definition get_device_actions ::
  "(nat \<Rightarrow> actiongraph \<Rightarrow> actiongraph) \<Rightarrow> (nat \<Rightarrow> actiongraph \<Rightarrow> actiongraph) \<Rightarrow>
   (nat \<Rightarrow> actiongraph \<Rightarrow> actiongraph) \<Rightarrow> devicegraph \<Rightarrow> devicegraph \<Rightarrow> actiongraph \<Rightarrow> actiongraph" where
  "get_device_actions create modify delete lhs rhs g =
     (let l = get_device_sids lhs; r = get_device_sids rhs
      in fold delete (sorted_list_of_set (l - r))
           (fold modify (sorted_list_of_set (l \<inter> r))
             (fold create (sorted_list_of_set (r - l)) g)))"

text \<open>What class \<open>Device\<close> itself does.\<close>

definition device_create_actions :: "nat \<Rightarrow> actiongraph \<Rightarrow> actiongraph" where
  "device_create_actions sid g = add_chain [action_new Create (AffectDevice sid) False False] g"

definition device_delete_actions :: "nat \<Rightarrow> actiongraph \<Rightarrow> actiongraph" where
  "device_delete_actions sid g = add_chain [action_new Delete (AffectDevice sid) False False] g"

text \<open>
  \<open>Device::add_reallot_actions\<close>: one action per parent that was added (extend) or removed
  (reduce). They are added without a chain, so they are neither first nor last.
\<close>

definition parent_sids :: "devicegraph \<Rightarrow> nat \<Rightarrow> nat set" where
  "parent_sids d sid =
     (case find_vertex d sid of
        Inl _ \<Rightarrow> {}
      | Inr v \<Rightarrow> {s. \<exists>p \<in> set (parents d VIEW_CLASSIC v). sid_of d p = Some s})"

definition add_reallot_actions :: "nat set \<Rightarrow> nat set \<Rightarrow> nat \<Rightarrow> actiongraph \<Rightarrow> actiongraph" where
  "add_reallot_actions lhs_parents rhs_parents sid g =
     fold (\<lambda>p g. snd (ag_add_vertex (action_new (Reallot False p) (AffectDevice sid) False False) g))
       (sorted_list_of_set (lhs_parents - rhs_parents))
       (fold (\<lambda>p g. snd (ag_add_vertex (action_new (Reallot True p) (AffectDevice sid) False False) g))
         (sorted_list_of_set (rhs_parents - lhs_parents)) g)"

section \<open>Dependencies of create and delete actions\<close>

definition create_dependency ::
  "devicegraph \<Rightarrow> (nat \<Rightarrow> bool) \<Rightarrow> nat \<Rightarrow> nat \<Rightarrow> nat \<Rightarrow> actiongraph \<Rightarrow> actiongraph result" where
  "create_dependency lhs has_dependency_manager sid vertex parent_sid g =
     (if \<not> device_exists lhs parent_sid
      then
        case actions_with_sid_filter g parent_sid ONLY_LAST of
          [] \<Rightarrow> Inl (Exn ''no parent create action'')
        | t # _ \<Rightarrow> Inr (ag_add_edge t vertex g)
      else if has_dependency_manager sid then Inr g
      else
        ebind (find_vertex lhs parent_sid) (\<lambda>p.
          Inr (fold (\<lambda>c g. case sid_of lhs c of
              None \<Rightarrow> g
            | Some child_sid \<Rightarrow>
                (case actions_with_sid_filter g child_sid ONLY_LAST of
                   [] \<Rightarrow> g
                 | t # _ \<Rightarrow>
                     (case action_at g t of
                        Some a \<Rightarrow> if is_delete a then ag_add_edge t vertex g else g
                      | None \<Rightarrow> g)))
            (children lhs VIEW_REMOVE p) g)))"

text \<open>\<open>Create::add_device_dependencies\<close>: parents before children, old children before new ones.\<close>

definition add_create_dependencies ::
  "devicegraph \<Rightarrow> devicegraph \<Rightarrow> (nat \<Rightarrow> bool) \<Rightarrow> nat \<Rightarrow> nat \<Rightarrow> actiongraph \<Rightarrow> actiongraph result" where
  "add_create_dependencies lhs rhs has_dependency_manager sid vertex g =
     ebind (find_vertex rhs sid) (\<lambda>v.
       efold (\<lambda>p g. case sid_of rhs p of
           None \<Rightarrow> Inl UndefinedBehaviour
         | Some parent_sid \<Rightarrow> create_dependency lhs has_dependency_manager sid vertex parent_sid g)
         (parents rhs VIEW_ALL v) g)"

text \<open>\<open>Delete::add_device_dependencies\<close>: a child is deleted before the actions of its parents start.\<close>

definition add_delete_dependencies :: "devicegraph \<Rightarrow> nat \<Rightarrow> nat \<Rightarrow> actiongraph \<Rightarrow> actiongraph result" where
  "add_delete_dependencies lhs sid vertex g =
     ebind (find_vertex lhs sid) (\<lambda>v.
       efold (\<lambda>p g. case sid_of lhs p of
           None \<Rightarrow> Inl UndefinedBehaviour
         | Some parent_sid \<Rightarrow>
             Inr (fold (\<lambda>t. ag_add_edge vertex t) (actions_with_sid_filter g parent_sid ONLY_FIRST) g))
         (parents lhs VIEW_REMOVE v) g)"

section \<open>Duplicate mounts\<close>

definition is_duplicate :: "action \<Rightarrow> action \<Rightarrow> bool" where
  "is_duplicate a b \<longleftrightarrow>
     a_sid a = a_sid b \<and> (is_mount a \<and> is_mount b \<or> is_unmount a \<and> is_unmount b)"

fun duplicate_pairs :: "(nat \<times> action) list \<Rightarrow> (nat \<times> nat) list" where
  "duplicate_pairs [] = []"
| "duplicate_pairs ((v, a) # vs) =
     List.map (\<lambda>(w, b). (v, w)) (filter (\<lambda>(w, b). is_duplicate a b) vs) @ duplicate_pairs vs"

definition ag_remove_vertex :: "nat \<Rightarrow> actiongraph \<Rightarrow> actiongraph" where
  "ag_remove_vertex v g =
     g\<lparr>ag_vertices := filter (\<lambda>(w, a). w \<noteq> v) (ag_vertices g),
       ag_edges := filter (\<lambda>(a, b). a \<noteq> v \<and> b \<noteq> v) (ag_edges g)\<rparr>"

text \<open>A descriptor of a vertex that has been removed must not be used again.\<close>

definition merge_duplicate :: "nat \<Rightarrow> nat \<Rightarrow> actiongraph \<Rightarrow> actiongraph result" where
  "merge_duplicate v w g =
     (if action_at g v = None \<or> action_at g w = None then Inl UndefinedBehaviour
      else
        let g1 = fold (\<lambda>p. ag_add_edge p v) (ag_parents g w) g;
            g2 = fold (\<lambda>c. ag_add_edge v c) (ag_children g1 w) g1
        in Inr (ag_remove_vertex w g2))"

definition remove_duplicates :: "actiongraph \<Rightarrow> actiongraph result" where
  "remove_duplicates g = efold (\<lambda>(v, w). merge_duplicate v w) (duplicate_pairs (ag_vertices g)) g"

section \<open>Mounts and their parents\<close>

text \<open>\<open>string::rfind\<close> of a slash.\<close>

definition rfind_slash :: "string \<Rightarrow> nat option" where
  "rfind_slash s =
     (case dropWhile (\<lambda>c. c \<noteq> CHR ''/'') (rev s) of
        [] \<Rightarrow> None
      | r \<Rightarrow> Some (length r - 1))"

lemma rfind_slash_split: "CHR ''/'' \<notin> set b \<Longrightarrow> rfind_slash (a @ CHR ''/'' # b) = Some (length a)"
proof -
  assume "CHR ''/'' \<notin> set b"
  then have "dropWhile (\<lambda>c. c \<noteq> CHR ''/'') (rev b @ CHR ''/'' # rev a) = CHR ''/'' # rev a"
    by (subst dropWhile_append2) auto
  then show ?thesis by (simp add: rfind_slash_def)
qed

lemma rfind_slash_None: "CHR ''/'' \<notin> set s \<Longrightarrow> rfind_slash s = None"
proof -
  assume "CHR ''/'' \<notin> set s"
  then have "dropWhile (\<lambda>c. c \<noteq> CHR ''/'') (rev s) = []"
    unfolding dropWhile_eq_Nil_conv by auto
  then show ?thesis unfolding rfind_slash_def by (simp only: list.case)
qed

lemma path_cases:
  obtains (no_slash) "CHR ''/'' \<notin> set s" | (slash) a b where "s = a @ CHR ''/'' # b" "CHR ''/'' \<notin> set b"
  using split_list_last [of "CHR ''/''" s] by blast

text \<open>
  The nearest mount point above a path: \<open>mount.erase(pos)\<close> cuts at the last slash, what is left of
  the root directory is \<open>"/"\<close>. A path without a slash has no parent.
\<close>

definition parent_path :: "string \<Rightarrow> string option" where
  "parent_path path =
     (case rfind_slash path of
        None \<Rightarrow> None
      | Some pos \<Rightarrow> Some (if take pos path = '''' then ''/'' else take pos path))"

lemma parent_path_split:
  "CHR ''/'' \<notin> set b \<Longrightarrow>
    parent_path (a @ CHR ''/'' # b) = Some (if a = '''' then ''/'' else a)"
  using rfind_slash_split [of b a] by (cases "a = ''''") (simp_all add: parent_path_def)

lemma parent_path_shorter:
  assumes "parent_path path = Some p" and "path \<noteq> ''/''"
  shows "length p < length path"
proof (cases path rule: path_cases)
  case no_slash
  then show ?thesis using assms by (simp add: parent_path_def rfind_slash_None)
next
  case (slash a b)
  then show ?thesis
    using assms by (cases b) (auto simp: parent_path_split split: if_splits)
qed

function find_mount_parent :: "(string \<times> nat) list \<Rightarrow> string \<Rightarrow> nat option" where
  "find_mount_parent m path =
     (if path = ''/'' then None
      else
        case parent_path path of
          None \<Rightarrow> None
        | Some p \<Rightarrow>
            (case map_of m p of
               Some v \<Rightarrow> Some v
             | None \<Rightarrow> find_mount_parent m p))"
  by pat_completeness auto

termination
  by (relation "measure (\<lambda>(m, path). length path)") (auto intro: parent_path_shorter)

declare find_mount_parent.simps [simp del]

text \<open>\<open>mounts[path] = vertex\<close>: a map from paths to vertices, ascending; the last action wins.\<close>

definition mount_path :: "action \<Rightarrow> string option" where
  "mount_path a = (case a_kind a of Mount p False \<Rightarrow> Some p | _ \<Rightarrow> None)"

definition unmount_path :: "action \<Rightarrow> string option" where
  "unmount_path a = (case a_kind a of Unmount p False \<Rightarrow> Some p | _ \<Rightarrow> None)"

definition mount_map :: "(action \<Rightarrow> string option) \<Rightarrow> (nat \<times> action) list \<Rightarrow> (string \<times> nat) list" where
  "mount_map path vs =
     sort_key fst (fold (\<lambda>(v, a) m. case path a of
         None \<Rightarrow> m
       | Some p \<Rightarrow> (p, v) # filter (\<lambda>(q, w). q \<noteq> p) m) vs [])"

definition add_mount_dependencies :: "actiongraph \<Rightarrow> actiongraph" where
  "add_mount_dependencies g =
     (let mounts = mount_map mount_path (ag_vertices g);
          unmounts = mount_map unmount_path (ag_vertices g);
          g1 = fold (\<lambda>(p, v) g. case find_mount_parent mounts p of
                 None \<Rightarrow> g
               | Some w \<Rightarrow> ag_add_edge w v g) mounts g
      in fold (\<lambda>(p, v) g. case find_mount_parent unmounts p of
                 None \<Rightarrow> g
               | Some w \<Rightarrow> ag_add_edge v w g) unmounts g1)"

section \<open>Removing the synchronisation points\<close>

text \<open>
  Every parent of the removed vertex comes before every child. An edge from the vertex to itself
  would be added while the edges of the vertex are walked.
\<close>

definition bypass :: "nat \<Rightarrow> actiongraph \<Rightarrow> actiongraph result" where
  "bypass v g =
     (if (v, v) \<in> set (ag_edges g) then Inl UndefinedBehaviour
      else Inr (ag_remove_vertex v
        (fold (\<lambda>p. fold (\<lambda>c. ag_add_edge p c) (ag_children g v)) (ag_parents g v) g)))"

definition remove_only_syncs :: "actiongraph \<Rightarrow> actiongraph result" where
  "remove_only_syncs g =
     efold bypass (List.map fst (filter (\<lambda>(v, a). a_only_sync a) (ag_vertices g))) g"

section \<open>Priorities\<close>

definition priority_at :: "actiongraph \<Rightarrow> nat \<Rightarrow> int" where
  "priority_at g v = (case action_at g v of Some a \<Rightarrow> a_priority a | None \<Rightarrow> 1)"

definition set_priority :: "nat \<Rightarrow> int \<Rightarrow> actiongraph \<Rightarrow> actiongraph" where
  "set_priority v p g =
     g\<lparr>ag_vertices := List.map (\<lambda>(w, a). (w, if w = v then a\<lparr>a_priority := p\<rparr> else a)) (ag_vertices g)\<rparr>"

lemma ag_vs_set_priority [simp]: "ag_vs (set_priority v p g) = ag_vs g"
  by (simp add: ag_vs_def set_priority_def case_prod_beta comp_def)

lemma action_at_set_priority:
  "action_at (set_priority v p g) w =
     map_option (\<lambda>a. if w = v then a\<lparr>a_priority := p\<rparr> else a) (action_at g w)"
proof -
  have "map_of (List.map (\<lambda>(w, a). (w, if w = v then a\<lparr>a_priority := p\<rparr> else a)) vs) w =
      map_option (\<lambda>a. if w = v then a\<lparr>a_priority := p\<rparr> else a) (map_of vs w)" for vs
    by (induction vs) auto
  then show ?thesis by (simp add: action_at_def set_priority_def)
qed

lemma action_at_None: "action_at g v = None \<longleftrightarrow> v \<notin> set (ag_vs g)"
  by (simp add: action_at_def ag_vs_def map_of_eq_None_iff)

lemma priority_at_set_priority:
  "priority_at (set_priority v p g) w =
     (if w = v \<and> v \<in> set (ag_vs g) then p else priority_at g w)"
  using action_at_None [of g w]
  by (auto simp: priority_at_def action_at_set_priority split: option.splits)

lemma priority_at_outside: "v \<notin> set (ag_vs g) \<Longrightarrow> priority_at g v = 1"
  using action_at_None [of g v] by (simp add: priority_at_def)

text \<open>Every call with a priority below one raises it, which happens once for each vertex.\<close>

definition low_priority :: "actiongraph \<Rightarrow> nat set" where
  "low_priority g = {w \<in> set (ag_vs g). priority_at g w < 1}"

lemma low_priority_set:
  assumes "priority_at g v < 1" and "1 \<le> p"
  shows "low_priority (set_priority v p g) = low_priority g - {v}" and "v \<in> low_priority g"
  using assms priority_at_outside [of v g]
  by (auto simp: low_priority_def priority_at_set_priority split: if_splits)

text \<open>
  The recursive calls as a list of the vertices still to be looked at: the parents of the vertex
  come before the remaining parents of its callers.
\<close>

function set_priorities_upward :: "nat list \<Rightarrow> actiongraph \<Rightarrow> actiongraph" where
  "set_priorities_upward [] g = g"
| "set_priorities_upward (v # vs) g =
     (if priority_at g v < 1
      then set_priorities_upward (ag_parents g v @ vs) (set_priority v 1 g)
      else set_priorities_upward vs g)"
  by pat_completeness auto

termination
proof (relation "measures [\<lambda>(vs, g). card (low_priority g), \<lambda>(vs, g). length vs]")
  fix v :: nat and vs :: "nat list" and g :: actiongraph
  assume low: "priority_at g v < 1"
  have "finite (low_priority g)" by (simp add: low_priority_def)
  then have "card (low_priority (set_priority v 1 g)) < card (low_priority g)"
    using card_Diff1_less [of "low_priority g" v] low_priority_set [OF low, of 1] by simp
  then show "((ag_parents g v @ vs, set_priority v 1 g), v # vs, g)
      \<in> measures [\<lambda>(vs, g). card (low_priority g), \<lambda>(vs, g). length vs]"
    by simp
qed simp_all

definition set_priorities :: "actiongraph \<Rightarrow> actiongraph" where
  "set_priorities g =
     fold (\<lambda>(v, a) g.
         if is_swap_mount a then set_priorities_upward (ag_parents g v) (set_priority v 2 g) else g)
       (ag_vertices g) g"

section \<open>The order and the taboos\<close>

definition calculate_order :: "nat \<Rightarrow> actiongraph \<Rightarrow> nat list result" where
  "calculate_order method g =
     (if method = 0 then topological_sort (ag_edges g) (ag_vs g)
      else if method = 1 then prioritised_topological_sort (ag_edges g) (ag_vs g) (priority_at g)
      else Inl (Exn ''unknown topological sort method''))"

text \<open>A device that is deleted (or unmounted) must not be on top of a taboo device.\<close>

definition check_taboo :: "devicegraph \<Rightarrow> nat set \<Rightarrow> action \<Rightarrow> unit result" where
  "check_taboo lhs taboos a =
     (if affects_device a \<and> is_delete a
      then ebind (find_vertex lhs (a_sid a)) (\<lambda>v.
        if list_ex (\<lambda>w. case sid_of lhs w of Some s \<Rightarrow> s \<in> taboos | None \<Rightarrow> False)
            (ancestors lhs VIEW_CLASSIC True v)
        then Inl (Exn ''taboo device used in actiongraph'')
        else Inr ())
      else Inr ())"

definition check_taboos :: "devicegraph \<Rightarrow> nat set \<Rightarrow> actiongraph \<Rightarrow> unit result" where
  "check_taboos lhs taboos g = efold (\<lambda>(v, a) _. check_taboo lhs taboos a) (ag_vertices g) ()"

section \<open>The changes of the edges\<close>

lemma ag_vertices_add_edge [simp]: "ag_vertices (ag_add_edge a b g) = ag_vertices g"
  and ag_edges_add_edge [simp]: "ag_edges (ag_add_edge a b g) = ag_edges g @ [(a, b)]"
  and ag_next_add_edge [simp]: "ag_next (ag_add_edge a b g) = ag_next g"
  by (simp_all add: ag_add_edge_def)

lemma ag_vs_add_edge [simp]: "ag_vs (ag_add_edge a b g) = ag_vs g"
  by (simp add: ag_vs_def)

text \<open>Loops that only add edges.\<close>

lemma fold_add_edges:
  "fold (\<lambda>x. ag_add_edge (f x) (h x)) xs g = g\<lparr>ag_edges := ag_edges g @ List.map (\<lambda>x. (f x, h x)) xs\<rparr>"
  by (induction xs arbitrary: g) (simp_all add: ag_add_edge_def)

lemma fold_fold_add_edges:
  "fold (\<lambda>x. fold (\<lambda>y. ag_add_edge (f x) (h y)) ys) xs g =
     g\<lparr>ag_edges := ag_edges g @ concat (List.map (\<lambda>x. List.map (\<lambda>y. (f x, h y)) ys) xs)\<rparr>"
  by (induction xs arbitrary: g) (simp_all add: fold_add_edges)

lemma fold_add_some_edges:
  "fold (\<lambda>x g. case f x of None \<Rightarrow> g | Some w \<Rightarrow> ag_add_edge (s x w) (t x w) g) xs g =
     g\<lparr>ag_edges := ag_edges g @
       concat (List.map (\<lambda>x. case f x of None \<Rightarrow> [] | Some w \<Rightarrow> [(s x w, t x w)]) xs)\<rparr>"
  by (induction xs arbitrary: g) (simp_all add: ag_add_edge_def split: option.splits)

lemma ag_vs_edges [simp]: "ag_vs (g\<lparr>ag_edges := es\<rparr>) = ag_vs g"
  by (simp add: ag_vs_def)

lemma set_ag_parents: "set (ag_parents g v) = {p. (p, v) \<in> set (ag_edges g)}"
  by (force simp: ag_parents_def)

lemma set_ag_children: "set (ag_children g v) = {c. (v, c) \<in> set (ag_edges g)}"
  by (force simp: ag_children_def succs_def)

lemma ag_vs_remove_vertex: "ag_vs (ag_remove_vertex v g) = filter (\<lambda>w. w \<noteq> v) (ag_vs g)"
  by (simp add: ag_vs_def ag_remove_vertex_def filter_map comp_def case_prod_unfold)

section \<open>Well-formed actiongraphs\<close>

definition wf_ag :: "actiongraph \<Rightarrow> bool" where
  "wf_ag g \<longleftrightarrow> distinct (ag_vs g) \<and> (\<forall>v \<in> set (ag_vs g). v < ag_next g) \<and>
     (\<forall>(a, b) \<in> set (ag_edges g). a \<in> set (ag_vs g) \<and> b \<in> set (ag_vs g))"

lemma wf_agD:
  assumes "wf_ag g"
  shows "distinct (ag_vs g)" and "\<And>v. v \<in> set (ag_vs g) \<Longrightarrow> v < ag_next g"
    and "\<And>a b. (a, b) \<in> set (ag_edges g) \<Longrightarrow> a \<in> set (ag_vs g)"
    and "\<And>a b. (a, b) \<in> set (ag_edges g) \<Longrightarrow> b \<in> set (ag_vs g)"
  using assms unfolding wf_ag_def by blast+

lemma wf_ag_ends:
  assumes "wf_ag g"
  shows "fst ` set (ag_edges g) \<subseteq> set (ag_vs g)" and "snd ` set (ag_edges g) \<subseteq> set (ag_vs g)"
  using wf_agD(3,4) [OF assms] by force+

lemma wf_ag_empty: "wf_ag ag_empty"
  by (simp add: wf_ag_def ag_empty_def ag_vs_def)

lemma wf_ag_add_vertex:
  assumes "wf_ag g"
  shows "wf_ag (snd (ag_add_vertex a g))"
proof -
  have "ag_vs (snd (ag_add_vertex a g)) = ag_vs g @ [ag_next g]"
    by (simp add: ag_vs_def ag_add_vertex_def)
  moreover have "ag_edges (snd (ag_add_vertex a g)) = ag_edges g"
    "ag_next (snd (ag_add_vertex a g)) = Suc (ag_next g)"
    by (simp_all add: ag_add_vertex_def)
  ultimately show ?thesis
    using wf_agD [OF assms] unfolding wf_ag_def by (auto intro: less_SucI)
qed

lemma wf_ag_add_edges:
  assumes "wf_ag g" and "\<And>a b. (a, b) \<in> set es \<Longrightarrow> a \<in> set (ag_vs g) \<and> b \<in> set (ag_vs g)"
  shows "wf_ag (g\<lparr>ag_edges := ag_edges g @ es\<rparr>)"
  using assms unfolding wf_ag_def by (auto simp: ag_vs_def)

lemma wf_ag_add_edge:
  assumes "wf_ag g" and "a \<in> set (ag_vs g)" and "b \<in> set (ag_vs g)"
  shows "wf_ag (ag_add_edge a b g)"
  using wf_ag_add_edges [OF assms(1), of "[(a, b)]"] assms(2,3) by (simp add: ag_add_edge_def)

lemma wf_ag_remove_vertex:
  assumes "wf_ag g"
  shows "wf_ag (ag_remove_vertex v g)"
proof -
  have "ag_edges (ag_remove_vertex v g) = filter (\<lambda>(a, b). a \<noteq> v \<and> b \<noteq> v) (ag_edges g)"
    "ag_next (ag_remove_vertex v g) = ag_next g"
    by (simp_all add: ag_remove_vertex_def)
  then show ?thesis
    using wf_agD [OF assms] unfolding wf_ag_def ag_vs_remove_vertex by auto
qed

section \<open>The order\<close>

lemma topological_trancl:
  assumes "topological es order" and "(a, b) \<in> (set es)\<^sup>+"
    and ends: "fst ` set es \<subseteq> set order" "snd ` set es \<subseteq> set order" and "distinct order"
  shows "\<exists>i j. i < j \<and> j < length order \<and> order ! i = a \<and> order ! j = b"
proof -
  have step: "\<exists>i j. i < j \<and> j < length order \<and> order ! i = a \<and> order ! j = b"
    if e: "(a, b) \<in> set es" for a b
  proof -
    have "a \<in> set order" "b \<in> set order" using e ends by force+
    then obtain i j where ij: "i < length order" "j < length order" "order ! i = a" "order ! j = b"
      by (auto simp: in_set_conv_nth)
    then have "i < j" using assms(1) e unfolding topological_def by blast
    then show ?thesis using ij by blast
  qed
  show ?thesis using assms(2)
  proof (induction rule: trancl_induct)
    case (base b)
    then show ?case by (rule step)
  next
    case (step b c)
    obtain i j where ij: "i < j" "j < length order" "order ! i = a" "order ! j = b" using step.IH by blast
    obtain k l where kl: "k < l" "l < length order" "order ! k = b" "order ! l = c"
      using \<open>\<And>a b. (a, b) \<in> set es \<Longrightarrow> _\<close> [OF step.hyps(2)] by blast
    have "j = k"
      using nth_eq_iff_index_eq [OF assms(5) ij(2) less_trans [OF kl(1,2)]] ij(4) kl(3) by simp
    then show ?case using ij kl by (intro exI [of _ i] exI [of _ l]) simp
  qed
qed

lemma calculate_order_result:
  assumes wf: "wf_ag g" and "method < 2"
  shows "case calculate_order method g of
      Inl e \<Rightarrow> e = NotADag \<and> \<not> acyclic (set (ag_edges g))
    | Inr order \<Rightarrow> distinct order \<and> set order = set (ag_vs g) \<and> topological (ag_edges g) order \<and>
        acyclic (set (ag_edges g))"
proof (cases "method = 0")
  case True
  have "case topological_sort (ag_edges g) (ag_vs g) of
      Inl e \<Rightarrow> e = NotADag \<and> \<not> acyclic (set (ag_edges g))
    | Inr order \<Rightarrow> distinct order \<and> set order = set (ag_vs g) \<and> topological (ag_edges g) order"
    by (rule topological_sort_result [OF wf_ag_ends [OF wf] wf_agD(1) [OF wf]])
  then show ?thesis
    using True topological_acyclic [of "ag_edges g"] wf_ag_ends [OF wf]
    by (auto simp: calculate_order_def split: sum.splits)
next
  case False
  define order where "order = kahn (ag_edges g) (priority_at g)
    (filter (\<lambda>v. in_degree (ag_edges g) v = 0) (ag_vs g)) (in_degree (ag_edges g)) []"
  have r: "distinct order" "set order \<subseteq> set (ag_vs g)" "topological (ag_edges g) order"
    "length order = length (ag_vs g) \<longleftrightarrow> acyclic (set (ag_edges g))"
    using kahn_result [OF wf_ag_ends [OF wf] wf_agD(1) [OF wf], of "priority_at g"]
    unfolding order_def by blast+
  have eq: "calculate_order method g =
      (if length order \<noteq> length (ag_vs g) then Inl NotADag else Inr order)"
    using False assms(2)
    by (simp add: calculate_order_def prioritised_topological_sort_def order_def Let_def)
  show ?thesis
  proof (cases "length order = length (ag_vs g)")
    case True
    then have "set order = set (ag_vs g)"
      using r(1,2) wf_agD(1) [OF wf] by (metis card_subset_eq distinct_card List.finite_set)
    then show ?thesis using True eq r by simp
  next
    case False
    then show ?thesis using eq r(4) by simp
  qed
qed

section \<open>Removing the synchronisation points keeps the order\<close>

definition bypassed :: "nat \<Rightarrow> (nat \<times> nat) set \<Rightarrow> (nat \<times> nat) set" where
  "bypassed v E = {(a, b). ((a, b) \<in> E \<or> (a, v) \<in> E \<and> (v, b) \<in> E) \<and> a \<noteq> v \<and> b \<noteq> v}"

lemma bypassed_trancl:
  assumes "(v, v) \<notin> E" and "a \<noteq> v" and "b \<noteq> v"
  shows "(a, b) \<in> (bypassed v E)\<^sup>+ \<longleftrightarrow> (a, b) \<in> E\<^sup>+"
proof
  assume "(a, b) \<in> (bypassed v E)\<^sup>+"
  moreover have "(a, b) \<in> bypassed v E \<Longrightarrow> (a, b) \<in> E\<^sup>+" for a b
    by (auto simp: bypassed_def intro: trancl_into_trancl2)
  ultimately show "(a, b) \<in> E\<^sup>+"
    by (induction rule: trancl_induct) (blast intro: trancl_trans)+
next
  assume "(a, b) \<in> E\<^sup>+"
  then have "(b \<noteq> v \<longrightarrow> (a, b) \<in> (bypassed v E)\<^sup>+) \<and>
      (b = v \<longrightarrow> (\<exists>p. p \<noteq> v \<and> (p, v) \<in> E \<and> (a = p \<or> (a, p) \<in> (bypassed v E)\<^sup>+)))"
  proof (induction rule: trancl_induct)
    case (base b)
    then show ?case using assms(2) by (auto simp: bypassed_def)
  next
    case (step b c)
    show ?case
    proof (cases "b = v")
      case True
      then obtain p where p: "p \<noteq> v" "(p, v) \<in> E" "a = p \<or> (a, p) \<in> (bypassed v E)\<^sup>+"
        using step.IH by blast
      have "c \<noteq> v" using True step.hyps(2) assms(1) by blast
      then have "(p, c) \<in> bypassed v E" using p(1,2) True step.hyps(2) by (simp add: bypassed_def)
      then show ?thesis using p(3) \<open>c \<noteq> v\<close> by (auto intro: trancl_into_trancl)
    next
      case False
      then have "(a, b) \<in> (bypassed v E)\<^sup>+" using step.IH by blast
      moreover have "c \<noteq> v \<Longrightarrow> (b, c) \<in> bypassed v E"
        using False step.hyps(2) by (simp add: bypassed_def)
      ultimately show ?thesis using False step.hyps(2) by (blast intro: trancl_into_trancl)
    qed
  qed
  then show "(a, b) \<in> (bypassed v E)\<^sup>+" using assms(3) by blast
qed

lemma bypass_spec:
  assumes "bypass v g = Inr g'"
  shows "(v, v) \<notin> set (ag_edges g)" and "ag_vs g' = filter (\<lambda>w. w \<noteq> v) (ag_vs g)"
    and "ag_vertices g' = filter (\<lambda>(w, a). w \<noteq> v) (ag_vertices g)"
    and "set (ag_edges g') = bypassed v (set (ag_edges g))"
    and "ag_next g' = ag_next g"
proof -
  show loop: "(v, v) \<notin> set (ag_edges g)" using assms by (auto simp: bypass_def split: if_splits)
  have eq: "g' = ag_remove_vertex v (g\<lparr>ag_edges := ag_edges g @
      concat (List.map (\<lambda>p. List.map (\<lambda>c. (p, c)) (ag_children g v)) (ag_parents g v))\<rparr>)"
    using assms loop by (simp add: bypass_def fold_fold_add_edges)
  show "ag_vs g' = filter (\<lambda>w. w \<noteq> v) (ag_vs g)"
    unfolding eq by (simp add: ag_vs_remove_vertex)
  show "ag_vertices g' = filter (\<lambda>(w, a). w \<noteq> v) (ag_vertices g)"
    "ag_next g' = ag_next g"
    unfolding eq by (simp_all add: ag_remove_vertex_def)
  show "set (ag_edges g') = bypassed v (set (ag_edges g))"
    unfolding eq by (auto simp: ag_remove_vertex_def bypassed_def set_ag_parents set_ag_children)
qed

lemma wf_ag_bypass:
  assumes "bypass v g = Inr g'" and "wf_ag g"
  shows "wf_ag g'"
  using wf_agD [OF assms(2)] bypass_spec(2,4,5) [OF assms(1)]
  unfolding wf_ag_def by (auto simp: bypassed_def)

lemma efold_bypass:
  assumes "efold bypass vs g = Inr g'" and "wf_ag g"
  shows "wf_ag g' \<and> ag_vertices g' = filter (\<lambda>(w, a). w \<notin> set vs) (ag_vertices g) \<and>
    (\<forall>a b. a \<notin> set vs \<longrightarrow> b \<notin> set vs \<longrightarrow>
      (a, b) \<in> (set (ag_edges g'))\<^sup>+ \<longleftrightarrow> (a, b) \<in> (set (ag_edges g))\<^sup>+)"
  using assms
proof (induction vs arbitrary: g)
  case Nil
  then show ?case by (simp add: case_prod_unfold)
next
  case (Cons v vs)
  then obtain h where h: "bypass v g = Inr h" "efold bypass vs h = Inr g'"
    by (auto simp: result_simps)
  have "wf_ag h" using wf_ag_bypass [OF h(1)] Cons.prems(2) by blast
  from Cons.IH [OF h(2) this]
  have ih: "wf_ag g'" "ag_vertices g' = filter (\<lambda>(w, a). w \<notin> set vs) (ag_vertices h)"
    and tr: "\<And>a b. a \<notin> set vs \<Longrightarrow> b \<notin> set vs \<Longrightarrow>
      (a, b) \<in> (set (ag_edges g'))\<^sup>+ \<longleftrightarrow> (a, b) \<in> (set (ag_edges h))\<^sup>+"
    by blast+
  have "ag_vertices g' = filter (\<lambda>(w, a). w \<notin> set (v # vs)) (ag_vertices g)"
    unfolding ih(2) bypass_spec(3) [OF h(1)] filter_filter by (rule filter_cong) auto
  moreover have "(a, b) \<in> (set (ag_edges g'))\<^sup>+ \<longleftrightarrow> (a, b) \<in> (set (ag_edges g))\<^sup>+"
    if "a \<notin> set (v # vs)" "b \<notin> set (v # vs)" for a b
    using tr [of a b] bypassed_trancl [OF bypass_spec(1) [OF h(1)], of a b] bypass_spec(4) [OF h(1)]
      that by simp
  ultimately show ?case using ih(1) by blast
qed

text \<open>The sync vertices of an acyclic graph can all be removed.\<close>

lemma bypass_acyclic:
  assumes "acyclic (set (ag_edges g))"
  shows "\<exists>g'. bypass v g = Inr g' \<and> acyclic (set (ag_edges g'))"
proof -
  have loop: "(v, v) \<notin> set (ag_edges g)" using assms by (auto simp: acyclic_def)
  then obtain g' where g': "bypass v g = Inr g'" by (simp add: bypass_def)
  have "acyclic (set (ag_edges g'))"
    unfolding acyclic_def
  proof (intro allI notI)
    fix a assume a: "(a, a) \<in> (set (ag_edges g'))\<^sup>+"
    then have "a \<noteq> v"
      unfolding bypass_spec(4) [OF g'] by (auto simp: bypassed_def elim: tranclE)
    then show False
      using a bypassed_trancl [OF loop, of a a] assms unfolding bypass_spec(4) [OF g'] acyclic_def
      by blast
  qed
  then show ?thesis using g' by blast
qed

lemma efold_bypass_acyclic:
  "acyclic (set (ag_edges g)) \<Longrightarrow> \<exists>g'. efold bypass vs g = Inr g' \<and> acyclic (set (ag_edges g'))"
proof (induction vs arbitrary: g)
  case Nil
  then show ?case by simp
next
  case (Cons v vs)
  obtain h where "bypass v g = Inr h" "acyclic (set (ag_edges h))"
    using bypass_acyclic [OF Cons.prems] by blast
  then show ?case using Cons.IH [of h] by simp
qed

section \<open>The priorities\<close>

text \<open>
  Priorities are raised upward: the parents of a vertex of high priority have a high priority or
  are still to be looked at.
\<close>

definition raised :: "nat list \<Rightarrow> actiongraph \<Rightarrow> bool" where
  "raised vs g \<longleftrightarrow>
     (\<forall>(p, c) \<in> set (ag_edges g). 1 \<le> priority_at g c \<longrightarrow> 1 \<le> priority_at g p \<or> p \<in> set vs)"

definition above_any :: "actiongraph \<Rightarrow> nat list \<Rightarrow> nat \<Rightarrow> bool" where
  "above_any g vs w \<longleftrightarrow> (\<exists>v \<in> set vs. (w, v) \<in> (set (ag_edges g))\<^sup>*)"

lemma ag_edges_set_priority [simp]: "ag_edges (set_priority v p g) = ag_edges g"
  by (simp add: set_priority_def)

lemma ag_parents_set_priority [simp]: "ag_parents (set_priority v p g) = ag_parents g"
  by (simp add: ag_parents_def fun_eq_iff)

lemma above_any_parents:
  "above_any g (v # vs) w \<longleftrightarrow> w = v \<or> above_any g (ag_parents g v @ vs) w"
proof -
  have "(w, v) \<in> (set (ag_edges g))\<^sup>* \<longleftrightarrow> w = v \<or> (\<exists>p. (w, p) \<in> (set (ag_edges g))\<^sup>* \<and> (p, v) \<in> set (ag_edges g))"
    by (auto elim: rtranclE intro: rtrancl_into_rtrancl)
  then show ?thesis by (auto simp: above_any_def set_ag_parents)
qed

lemma raised_above:
  assumes "raised vs g" and "1 \<le> priority_at g v" and "(w, v) \<in> (set (ag_edges g))\<^sup>*"
  shows "1 \<le> priority_at g w \<or> above_any g vs w"
  using assms(3)
proof (induction rule: converse_rtrancl_induct)
  case base
  then show ?case using assms(2) by simp
next
  case (step p c)
  from step.IH show ?case
  proof
    assume "1 \<le> priority_at g c"
    then show ?thesis using assms(1) step.hyps(1) by (auto simp: raised_def above_any_def)
  next
    assume "above_any g vs c"
    then show ?thesis using step.hyps(1) by (auto simp: above_any_def intro: converse_rtrancl_into_rtrancl)
  qed
qed

lemma raisedD:
  "raised vs g \<Longrightarrow> (p, c) \<in> set (ag_edges g) \<Longrightarrow> 1 \<le> priority_at g c \<Longrightarrow>
    1 \<le> priority_at g p \<or> p \<in> set vs"
  by (auto simp: raised_def)

lemma raised_set_priority:
  assumes "raised (v # vs) g" and "1 \<le> q"
  shows "raised (ag_parents g v @ vs) (set_priority v q g)"
  unfolding raised_def
proof (clarify)
  fix p c
  assume e: "(p, c) \<in> set (ag_edges (set_priority v q g))" and c: "1 \<le> priority_at (set_priority v q g) c"
    and p: "p \<notin> set (ag_parents g v @ vs)"
  then have "c \<noteq> v" by (auto simp: set_ag_parents)
  then have "1 \<le> priority_at g c" using c by (simp add: priority_at_set_priority)
  then have "1 \<le> priority_at g p \<or> p = v" using raisedD [OF assms(1)] e p by fastforce
  then show "1 \<le> priority_at (set_priority v q g) p"
    using assms(2) priority_at_outside [of v g] by (auto simp: priority_at_set_priority)
qed

lemma raised_drop:
  assumes "raised (v # vs) g" and "1 \<le> priority_at g v"
  shows "raised vs g"
  using assms by (auto simp: raised_def)

lemma set_priorities_upward_spec:
  assumes "raised vs g"
  shows "raised [] (set_priorities_upward vs g) \<and>
    ag_vs (set_priorities_upward vs g) = ag_vs g \<and>
    ag_edges (set_priorities_upward vs g) = ag_edges g \<and>
    (\<forall>w. priority_at (set_priorities_upward vs g) w =
       (if priority_at g w < 1 \<and> above_any g vs w then 1 else priority_at g w))"
  using assms
proof (induction vs g rule: set_priorities_upward.induct)
  case (1 g)
  then show ?case by (simp add: above_any_def)
next
  case (2 v vs g)
  show ?case
  proof (cases "priority_at g v < 1")
    case True
    let ?g = "set_priority v 1 g" and ?vs = "ag_parents g v @ vs"
    have mem: "v \<in> set (ag_vs g)" using True priority_at_outside [of v g] by fastforce
    from "2.IH"(1) [OF True raised_set_priority [OF "2.prems"]]
    have ih: "raised [] (set_priorities_upward ?vs ?g)"
      "ag_vs (set_priorities_upward ?vs ?g) = ag_vs g"
      "ag_edges (set_priorities_upward ?vs ?g) = ag_edges g"
      "\<And>w. priority_at (set_priorities_upward ?vs ?g) w =
         (if priority_at ?g w < 1 \<and> above_any ?g ?vs w then 1 else priority_at ?g w)"
      by simp_all
    have ab: "above_any ?g ?vs w = above_any g ?vs w" for w by (simp add: above_any_def)
    have "priority_at (set_priorities_upward ?vs ?g) w =
       (if priority_at g w < 1 \<and> above_any g (v # vs) w then 1 else priority_at g w)" for w
      unfolding ih(4) ab above_any_parents [of g v] using True mem
      by (auto simp: priority_at_set_priority)
    then show ?thesis using ih(1-3) True by simp
  next
    case False
    then have high: "1 \<le> priority_at g v" by simp
    have "above_any g (v # vs) w \<longleftrightarrow> above_any g vs w" if "priority_at g w < 1" for w
      using raised_above [OF raised_drop [OF "2.prems" high] high, of w] that
      by (auto simp: above_any_def)
    then have "(priority_at g w < 1 \<and> above_any g (v # vs) w) = (priority_at g w < 1 \<and> above_any g vs w)"
      for w by blast
    then show ?thesis
      using "2.IH"(2) [OF False raised_drop [OF "2.prems" high]] False by simp
  qed
qed

text \<open>Swap spaces first, then what they depend on, then all the rest.\<close>

definition expected_priority :: "actiongraph \<Rightarrow> nat set \<Rightarrow> nat \<Rightarrow> int" where
  "expected_priority g swaps w =
     (if w \<in> swaps then 2
      else if \<exists>v \<in> swaps. (w, v) \<in> (set (ag_edges g))\<^sup>+ then 1 else 0)"

definition swap_mounts :: "(nat \<times> action) list \<Rightarrow> nat set" where
  "swap_mounts vs = {v. \<exists>a. (v, a) \<in> set vs \<and> is_swap_mount a}"

lemma above_any_ag_parents: "above_any g (ag_parents g v) w \<longleftrightarrow> (w, v) \<in> (set (ag_edges g))\<^sup>+"
  by (auto simp: above_any_def set_ag_parents intro: rtrancl_into_trancl1 dest: tranclD2)

lemma set_priorities_loop:
  assumes "raised [] g" and "set (ag_vs g) = V" and "ag_edges g = ag_edges g0"
    and "fst ` set (done @ vs) \<subseteq> V"
    and "\<forall>w \<in> V. priority_at g w = expected_priority g0 (swap_mounts done) w"
  shows "let g' = fold (\<lambda>(v, a) g.
         if is_swap_mount a then set_priorities_upward (ag_parents g v) (set_priority v 2 g) else g) vs g
    in ag_vs g' = ag_vs g \<and> ag_edges g' = ag_edges g \<and>
       (\<forall>w \<in> V. priority_at g' w = expected_priority g0 (swap_mounts (done @ vs)) w)"
  using assms
proof (induction vs arbitrary: g "done")
  case Nil
  then show ?case by simp
next
  case (Cons x vs)
  obtain v a where x: "x = (v, a)" by (cases x)
  have app: "done @ x # vs = (done @ [x]) @ vs" by simp
  show ?case
  proof (cases "is_swap_mount a")
    case False
    then have "swap_mounts (done @ [x]) = swap_mounts done" by (auto simp: swap_mounts_def x)
    then show ?thesis
      using Cons.IH [of g "done @ [x]"] Cons.prems False unfolding app x by simp
  next
    case True
    let ?g1 = "set_priority v 2 g"
    let ?g = "set_priorities_upward (ag_parents g v) ?g1"
    have swaps: "swap_mounts (done @ [x]) = insert v (swap_mounts done)"
      using True by (auto simp: swap_mounts_def x)
    have v: "v \<in> V" using Cons.prems(4) by (simp add: x)
    have "raised [v] g" using Cons.prems(1) by (auto simp: raised_def)
    from raised_set_priority [OF this, of 2] have "raised (ag_parents g v) ?g1" by simp
    from set_priorities_upward_spec [OF this]
    have up: "raised [] ?g" "ag_vs ?g = ag_vs g" "ag_edges ?g = ag_edges g"
      "\<And>w. priority_at ?g w =
         (if priority_at ?g1 w < 1 \<and> above_any ?g1 (ag_parents g v) w then 1 else priority_at ?g1 w)"
      by simp_all
    have ab: "above_any ?g1 (ag_parents g v) w \<longleftrightarrow> (w, v) \<in> (set (ag_edges g0))\<^sup>+" for w
      using above_any_ag_parents [of g v w] Cons.prems(3) by (simp add: above_any_def)
    have "\<forall>w \<in> V. priority_at ?g w = expected_priority g0 (swap_mounts (done @ [x])) w"
      unfolding swaps up(4) ab using Cons.prems(2,5) v
      by (auto simp: priority_at_set_priority expected_priority_def)
    from Cons.IH [OF up(1) _ _ _ this] up(2,3) Cons.prems(2,3,4)
    show ?thesis using True unfolding app x by (simp add: Let_def)
  qed
qed

end
