(* ===== verification/ActionOrder.thy ===== *)
theory ActionOrder
  imports Actiongraph
begin

text \<open>
  From the actions to their order (storage/ActiongraphImpl.cc): the parent of a mount point, the
  duplicates, the functions that add dependencies, and the order that comes out.
\<close>

section \<open>The nearest mount point above\<close>

definition above_path :: "string \<Rightarrow> string \<Rightarrow> bool" where
  "above_path p q \<longleftrightarrow> q \<noteq> ''/'' \<and>
     (p = ''/'' \<and> (\<exists>r. q = ''/'' @ r) \<or> p \<noteq> '''' \<and> (\<exists>r. q = p @ ''/'' @ r))"

lemma above_path_shorter: "above_path p q \<Longrightarrow> length p < length q"
  by (auto simp: above_path_def)

lemma append_slash_cases:
  assumes "a @ CHR ''/'' # b = p @ CHR ''/'' # r" and "CHR ''/'' \<notin> set b"
  shows "p = a \<or> (\<exists>s. a = p @ CHR ''/'' # s)"
  using assms by (auto simp: append_eq_append_conv2 Cons_eq_append_conv append_eq_Cons_conv)

lemma above_parent_path:
  assumes "parent_path q = Some a" and "q \<noteq> ''/''"
  shows "above_path p q \<longleftrightarrow> p = a \<or> above_path p a"
proof (cases q rule: path_cases)
  case no_slash
  then show ?thesis using assms(1) by (simp add: parent_path_def rfind_slash_None)
next
  case (slash u b)
  have a: "a = (if u = '''' then ''/'' else u)"
    using assms(1) slash by (simp add: parent_path_split)
  show ?thesis
  proof (cases "u = ''''")
    case True
    have "above_path p q \<longleftrightarrow> p = ''/''"
      using slash assms(2) True by (auto simp: above_path_def Cons_eq_append_conv)
    moreover have "\<not> above_path p ''/''" by (simp add: above_path_def)
    ultimately show ?thesis using a True by simp
  next
    case False
    then have au: "a = u" using a by simp
    have "above_path p q \<longleftrightarrow> p = u \<or> above_path p u"
    proof
      assume ab: "above_path p q"
      then consider "p = ''/''" "\<exists>r. q = ''/'' @ r" | "p \<noteq> ''''" "\<exists>r. q = p @ ''/'' @ r"
        unfolding above_path_def by blast
      then show "p = u \<or> above_path p u"
      proof cases
        case 1
        then have "\<exists>r. u = ''/'' @ r" using slash False by (cases u) auto
        then show ?thesis using 1 unfolding above_path_def by blast
      next
        case 2
        then obtain r where "u @ CHR ''/'' # b = p @ CHR ''/'' # r" using slash by auto
        from append_slash_cases [OF this slash(2)] show ?thesis
          using 2(1) by (cases p) (auto simp: above_path_def)
      qed
    next
      assume "p = u \<or> above_path p u"
      then show "above_path p q"
        using False assms(2) slash(1)
        by (cases p) (auto simp: above_path_def)
    qed
    then show ?thesis using au by simp
  qed
qed

lemma no_parent_path:
  assumes "parent_path q = None"
  shows "\<not> above_path p q"
proof (cases q rule: path_cases)
  case no_slash
  then show ?thesis by (auto simp: above_path_def)
next
  case (slash u b)
  then show ?thesis using assms by (simp add: parent_path_split)
qed

lemma find_mount_parent_nearest:
  "case find_mount_parent m q of
     None \<Rightarrow> \<forall>p. above_path p q \<longrightarrow> map_of m p = None
   | Some v \<Rightarrow> \<exists>p. above_path p q \<and> map_of m p = Some v \<and>
       (\<forall>p'. above_path p' q \<longrightarrow> length p < length p' \<longrightarrow> map_of m p' = None)"
proof (induction m q rule: find_mount_parent.induct)
  case (1 m q)
  show ?case
  proof (cases "q = ''/'' \<or> parent_path q = None")
    case True
    then have "find_mount_parent m q = None"
      by (subst find_mount_parent.simps) (auto split: option.splits)
    moreover have "\<not> above_path p q" for p using True no_parent_path [of q p] by (auto simp: above_path_def)
    ultimately show ?thesis by simp
  next
    case False
    then obtain a where a: "parent_path q = Some a" and q: "q \<noteq> ''/''" by blast
    note above = above_parent_path [OF a q]
    show ?thesis
    proof (cases "map_of m a")
      case (Some v)
      then have "find_mount_parent m q = Some v"
        using a q by (subst find_mount_parent.simps) simp
      then show ?thesis using Some above above_path_shorter [of _ a]
        by (auto intro!: exI [of _ a] dest: less_asym)
    next
      case None
      then have "find_mount_parent m q = find_mount_parent m a"
        using a q by (subst find_mount_parent.simps) simp
      then show ?thesis
        using "1.IH" [OF q a None] None above by (auto split: option.splits)
    qed
  qed
qed

section \<open>The maps of the mounts\<close>

lemma mount_map_loop:
  assumes "distinct (List.map fst m)"
  shows "let m' = fold (\<lambda>(v, a) m. case path a of
         None \<Rightarrow> m
       | Some p \<Rightarrow> (p, v) # filter (\<lambda>(q, w). q \<noteq> p) m) vs m
    in distinct (List.map fst m') \<and>
       (\<forall>p v. (p, v) \<in> set m' \<longrightarrow> (p, v) \<in> set m \<or> (\<exists>a. (v, a) \<in> set vs \<and> path a = Some p)) \<and>
       (\<forall>p. (\<exists>v. (p, v) \<in> set m') \<longleftrightarrow> (\<exists>v. (p, v) \<in> set m) \<or> (\<exists>v a. (v, a) \<in> set vs \<and> path a = Some p))"
  using assms
proof (induction vs arbitrary: m)
  case Nil
  then show ?case by simp
next
  case (Cons x vs)
  obtain v a where x: "x = (v, a)" by (cases x)
  show ?case
  proof (cases "path a")
    case None
    then show ?thesis using Cons.IH [OF Cons.prems] by (fastforce simp: x Let_def)
  next
    case (Some p)
    let ?m = "(p, v) # filter (\<lambda>(q, w). q \<noteq> p) m"
    have "distinct (List.map fst ?m)" using Cons.prems by (auto simp: distinct_filter_map)
    from Cons.IH [OF this] show ?thesis by (fastforce simp: x Some Let_def)
  qed
qed

lemma mount_map_spec:
  shows "distinct (List.map fst (mount_map path vs))"
    and "(p, v) \<in> set (mount_map path vs) \<Longrightarrow> \<exists>a. (v, a) \<in> set vs \<and> path a = Some p"
    and "(\<exists>v. (p, v) \<in> set (mount_map path vs)) \<longleftrightarrow> (\<exists>v a. (v, a) \<in> set vs \<and> path a = Some p)"
  using mount_map_loop [of "[]" path vs]
  by (auto simp: mount_map_def Let_def distinct_map inj_on_def)

section \<open>Merging duplicate mounts\<close>

definition renamed :: "nat \<Rightarrow> nat \<Rightarrow> nat \<Rightarrow> nat" where
  "renamed v w x = (if x = w then v else x)"

lemma renamed_eq: "v \<noteq> w \<Longrightarrow> renamed v w c = a \<longleftrightarrow> a \<noteq> w \<and> (c = a \<or> c = w \<and> a = v)"
  by (auto simp: renamed_def)

lemma merge_duplicate_spec:
  assumes "merge_duplicate v w g = Inr g'" and "v \<noteq> w"
  shows "v \<in> set (ag_vs g)" and "w \<in> set (ag_vs g)"
    and "ag_vertices g' = filter (\<lambda>(x, a). x \<noteq> w) (ag_vertices g)"
    and "ag_vs g' = filter (\<lambda>x. x \<noteq> w) (ag_vs g)"
    and "ag_next g' = ag_next g"
    and "set (ag_edges g') = map_prod (renamed v w) (renamed v w) ` set (ag_edges g)"
proof -
  show "v \<in> set (ag_vs g)" "w \<in> set (ag_vs g)"
    using assms(1) by (auto simp: merge_duplicate_def action_at_None split: if_splits)
  define g1 where "g1 = fold (\<lambda>p. ag_add_edge p v) (ag_parents g w) g"
  define g2 where "g2 = fold (\<lambda>c. ag_add_edge v c) (ag_children g1 w) g1"
  have g': "g' = ag_remove_vertex w g2"
    using assms(1) by (simp add: merge_duplicate_def g1_def g2_def Let_def split: if_splits)
  have same: "ag_vertices g2 = ag_vertices g" "ag_next g2 = ag_next g"
    by (simp_all add: g1_def g2_def fold_add_edges)
  show "ag_vertices g' = filter (\<lambda>(x, a). x \<noteq> w) (ag_vertices g)" "ag_next g' = ag_next g"
    using same by (simp_all add: g' ag_remove_vertex_def)
  show "ag_vs g' = filter (\<lambda>x. x \<noteq> w) (ag_vs g)"
    using same(1) by (simp add: g' ag_vs_remove_vertex) (simp add: ag_vs_def)
  have e1: "set (ag_edges g1) = set (ag_edges g) \<union> {(p, v) | p. (p, w) \<in> set (ag_edges g)}"
    by (auto simp: g1_def fold_add_edges set_ag_parents)
  have e2: "set (ag_edges g2) = set (ag_edges g1) \<union> {(v, c) | c. (w, c) \<in> set (ag_edges g1)}"
    by (auto simp: g2_def fold_add_edges set_ag_children)
  show "set (ag_edges g') = map_prod (renamed v w) (renamed v w) ` set (ag_edges g)"
  proof (intro set_eqI, clarify)
    fix a b
    have "(a, b) \<in> set (ag_edges g') \<longleftrightarrow> a \<noteq> w \<and> b \<noteq> w \<and> (a, b) \<in> set (ag_edges g2)"
      by (auto simp: g' ag_remove_vertex_def)
    also have "\<dots> \<longleftrightarrow> (\<exists>c d. (c, d) \<in> set (ag_edges g) \<and> renamed v w c = a \<and> renamed v w d = b)"
      unfolding e2 e1 renamed_eq [OF assms(2)] by blast
    also have "\<dots> \<longleftrightarrow> (a, b) \<in> map_prod (renamed v w) (renamed v w) ` set (ag_edges g)"
      by force
    finally show "(a, b) \<in> set (ag_edges g') \<longleftrightarrow>
        (a, b) \<in> map_prod (renamed v w) (renamed v w) ` set (ag_edges g)" .
  qed
qed

lemma wf_ag_merge:
  assumes "merge_duplicate v w g = Inr g'" and "v \<noteq> w" and "wf_ag g"
  shows "wf_ag g'"
  using wf_agD [OF assms(3)] merge_duplicate_spec [OF assms(1,2)] assms(2)
  unfolding wf_ag_def by (auto simp: renamed_def split: if_splits)

lemma is_duplicate_sym: "is_duplicate a b \<Longrightarrow> is_duplicate b a"
  and is_duplicate_trans: "is_duplicate a b \<Longrightarrow> is_duplicate b c \<Longrightarrow> is_duplicate a c"
  by (auto simp: is_duplicate_def is_mount_def is_unmount_def split: action_kind.splits)

lemma duplicate_pairs_iff:
  assumes "distinct (List.map fst vs)"
  shows "(v, w) \<in> set (duplicate_pairs vs) \<longleftrightarrow>
    (\<exists>i j. i < j \<and> j < length vs \<and> fst (vs ! i) = v \<and> fst (vs ! j) = w \<and>
       is_duplicate (snd (vs ! i)) (snd (vs ! j)))"
  (is "_ \<longleftrightarrow> ?r vs")
  using assms
proof (induction vs rule: duplicate_pairs.induct)
  case 1
  then show ?case by simp
next
  case (2 u a vs)
  have "?r ((u, a) # vs) \<longleftrightarrow> (u = v \<and> (\<exists>j < length vs. fst (vs ! j) = w \<and> is_duplicate a (snd (vs ! j)))) \<or> ?r vs"
  proof
    assume "?r ((u, a) # vs)"
    then obtain i j where ij: "i < j" "j < Suc (length vs)" "fst (((u, a) # vs) ! i) = v"
      "fst (((u, a) # vs) ! j) = w" "is_duplicate (snd (((u, a) # vs) ! i)) (snd (((u, a) # vs) ! j))"
      by auto
    then obtain k where j: "j = Suc k" by (cases j) auto
    show "(u = v \<and> (\<exists>j < length vs. fst (vs ! j) = w \<and> is_duplicate a (snd (vs ! j)))) \<or> ?r vs"
    proof (cases i)
      case 0
      then show ?thesis using ij j by auto
    next
      case (Suc l)
      then have "l < k \<and> k < length vs \<and> fst (vs ! l) = v \<and> fst (vs ! k) = w \<and>
          is_duplicate (snd (vs ! l)) (snd (vs ! k))" using ij j by simp
      then show ?thesis by blast
    qed
  next
    assume "(u = v \<and> (\<exists>j < length vs. fst (vs ! j) = w \<and> is_duplicate a (snd (vs ! j)))) \<or> ?r vs"
    then show "?r ((u, a) # vs)"
    proof
      assume "u = v \<and> (\<exists>j < length vs. fst (vs ! j) = w \<and> is_duplicate a (snd (vs ! j)))"
      then obtain j where "j < length vs" "fst (vs ! j) = w" "is_duplicate a (snd (vs ! j))" "u = v" by blast
      then show ?thesis by (intro exI [of _ 0] exI [of _ "Suc j"]) simp
    next
      assume "?r vs"
      then obtain i j where "i < j" "j < length vs" "fst (vs ! i) = v" "fst (vs ! j) = w"
        "is_duplicate (snd (vs ! i)) (snd (vs ! j))" by blast
      then show ?thesis by (intro exI [of _ "Suc i"] exI [of _ "Suc j"]) simp
    qed
  qed
  moreover have "(v, w) \<in> set (duplicate_pairs ((u, a) # vs)) \<longleftrightarrow>
      (u = v \<and> (\<exists>j < length vs. fst (vs ! j) = w \<and> is_duplicate a (snd (vs ! j)))) \<or>
      (v, w) \<in> set (duplicate_pairs vs)"
    by (auto simp: in_set_conv_nth image_iff) (metis nth_mem prod.collapse)+
  ultimately show ?case using "2.IH" "2.prems" by simp
qed

lemma duplicate_pairs_ends:
  assumes "distinct (List.map fst vs)" and "(v, w) \<in> set (duplicate_pairs vs)"
  obtains a b where "(v, a) \<in> set vs" and "(w, b) \<in> set vs" and "v \<noteq> w" and "is_duplicate a b"
proof -
  from duplicate_pairs_iff [OF assms(1)] assms(2) obtain i j where
    ij: "i < j" "j < length vs" "fst (vs ! i) = v" "fst (vs ! j) = w"
      "is_duplicate (snd (vs ! i)) (snd (vs ! j))" by blast
  have i: "i < length vs" using ij(1,2) by simp
  have "v \<noteq> w"
    using nth_eq_iff_index_eq [OF assms(1), of i j] ij i by simp
  moreover have "(v, snd (vs ! i)) \<in> set vs" "(w, snd (vs ! j)) \<in> set vs"
    using nth_mem [OF i] nth_mem [OF ij(2)] ij(3,4) by (metis prod.collapse)+
  ultimately show thesis using ij(5) that by blast
qed

lemma distinct_duplicate_pairs:
  "distinct (List.map fst vs) \<Longrightarrow> distinct (duplicate_pairs vs)"
proof (induction vs rule: duplicate_pairs.induct)
  case 1
  then show ?case by simp
next
  case (2 v a vs)
  have dist: "distinct (List.map fst vs)" using "2.prems" by simp
  then have "distinct vs" unfolding distinct_map by blast
  have inj: "inj_on (\<lambda>(w, b). (v, w)) (set vs)"
    by (auto simp: inj_on_def dest: eq_key_imp_eq_value [OF dist])
  have "inj_on (\<lambda>(w, b). (v, w)) (set (filter (\<lambda>(w, b). is_duplicate a b) vs))"
    by (rule inj_on_subset [OF inj]) simp
  with \<open>distinct vs\<close> have "distinct (List.map (\<lambda>(w, b). (v, w)) (filter (\<lambda>(w, b). is_duplicate a b) vs))"
    unfolding distinct_map by simp
  moreover have "(v, w) \<notin> set (duplicate_pairs vs)" for w
  proof
    assume "(v, w) \<in> set (duplicate_pairs vs)"
    then obtain b where "(v, b) \<in> set vs" using duplicate_pairs_ends [OF dist] by blast
    then show False using "2.prems" by (auto simp: image_iff)
  qed
  then have "set (List.map (\<lambda>(w, b). (v, w)) (filter (\<lambda>(w, b). is_duplicate a b) vs)) \<inter>
      set (duplicate_pairs vs) = {}" by auto
  ultimately show ?case using "2.IH" [OF dist] by simp
qed

text \<open>What a successful run of the loop over any list of pairs does.\<close>

lemma efold_merge:
  assumes "efold (\<lambda>(v, w). merge_duplicate v w) ps g = Inr g'" and "\<forall>(v, w) \<in> set ps. v \<noteq> w" and "wf_ag g"
  shows "wf_ag g' \<and> ag_vertices g' = filter (\<lambda>(x, a). x \<notin> snd ` set ps) (ag_vertices g) \<and>
    (\<exists>r. (\<forall>x. r x = x \<or> (\<exists>y. (x, y) \<in> (set (List.map (\<lambda>(v, w). (w, v)) ps))\<^sup>+ \<and> r x = y)) \<and>
      set (ag_edges g') = map_prod r r ` set (ag_edges g))"
  using assms
proof (induction ps arbitrary: g)
  case Nil
  then show ?case by (auto simp: case_prod_unfold intro!: exI [of _ "\<lambda>x. x"] simp: map_prod_def)
next
  case (Cons p ps)
  obtain v w where p: "p = (v, w)" by (cases p)
  then obtain h where h: "merge_duplicate v w g = Inr h"
    "efold (\<lambda>(v, w). merge_duplicate v w) ps h = Inr g'"
    using Cons.prems(1) by (auto simp: result_simps)
  have vw: "v \<noteq> w" using Cons.prems(2) p by simp
  note m = merge_duplicate_spec [OF h(1) vw]
  from Cons.IH [OF h(2) _ wf_ag_merge [OF h(1) vw Cons.prems(3)]] Cons.prems(2)
  obtain r where ih: "wf_ag g'" "ag_vertices g' = filter (\<lambda>(x, a). x \<notin> snd ` set ps) (ag_vertices h)"
    and r: "\<And>x. r x = x \<or> (\<exists>y. (x, y) \<in> (set (List.map (\<lambda>(v, w). (w, v)) ps))\<^sup>+ \<and> r x = y)"
    and e: "set (ag_edges g') = map_prod r r ` set (ag_edges h)"
    by auto
  have vs: "ag_vertices g' = filter (\<lambda>(x, a). x \<notin> snd ` set (p # ps)) (ag_vertices g)"
    unfolding ih(2) m(3) filter_filter by (rule filter_cong) (auto simp: p)
  let ?P = "set (List.map (\<lambda>(v, w). (w, v)) ps)" and ?Q = "set (List.map (\<lambda>(v, w). (w, v)) (p # ps))"
  have sub: "?P\<^sup>+ \<subseteq> ?Q\<^sup>+" by (rule subsetI, erule trancl_mono) auto
  have step: "(w, v) \<in> ?Q" by (simp add: p)
  have "(r \<circ> renamed v w) x = x \<or> (\<exists>y. (x, y) \<in> ?Q\<^sup>+ \<and> (r \<circ> renamed v w) x = y)" for x
  proof (cases "x = w")
    case True
    have "r v = v \<or> (v, r v) \<in> ?Q\<^sup>+" using r [of v] sub by blast
    then have "(w, r v) \<in> ?Q\<^sup>+" using step by (metis r_into_trancl' trancl_into_trancl2)
    then show ?thesis using True by (simp add: renamed_def)
  next
    case False
    then show ?thesis using r [of x] sub by (auto simp: renamed_def)
  qed
  moreover have "set (ag_edges g') = map_prod (r \<circ> renamed v w) (r \<circ> renamed v w) ` set (ag_edges g)"
    unfolding e m(6) by (simp add: image_comp map_prod.comp)
  ultimately show ?case using ih(1) vs by blast
qed

text \<open>Pairs that share no vertex are merged without touching a removed one.\<close>

lemma efold_merge_disjoint:
  assumes "\<forall>(v, w) \<in> set ps. v \<noteq> w \<and> v \<in> set (ag_vs g) \<and> w \<in> set (ag_vs g)" and "distinct ps"
    and "\<forall>p \<in> set ps. \<forall>q \<in> set ps. p \<noteq> q \<longrightarrow> snd p \<noteq> fst q \<and> snd p \<noteq> snd q"
  shows "\<exists>g'. efold (\<lambda>(v, w). merge_duplicate v w) ps g = Inr g'"
  using assms
proof (induction ps arbitrary: g)
  case Nil
  then show ?case by simp
next
  case (Cons p ps)
  obtain v w where p: "p = (v, w)" by (cases p)
  have "v \<noteq> w" "v \<in> set (ag_vs g)" "w \<in> set (ag_vs g)" using Cons.prems(1) p by auto
  then have "action_at g v \<noteq> None" "action_at g w \<noteq> None" by (simp_all add: action_at_None)
  then obtain h where h: "merge_duplicate v w g = Inr h"
    by (simp add: merge_duplicate_def Let_def)
  have "\<forall>(x, y) \<in> set ps. x \<noteq> y \<and> x \<in> set (ag_vs h) \<and> y \<in> set (ag_vs h)"
  proof clarify
    fix x y assume q: "(x, y) \<in> set ps"
    then have "p \<noteq> (x, y)" using Cons.prems(2) by auto
    then have "w \<noteq> x \<and> w \<noteq> y" using Cons.prems(3) q p by fastforce
    then show "x \<noteq> y \<and> x \<in> set (ag_vs h) \<and> y \<in> set (ag_vs h)"
      using Cons.prems(1) q merge_duplicate_spec(4) [OF h \<open>v \<noteq> w\<close>] by auto
  qed
  from Cons.IH [OF this] Cons.prems(2,3) h p show ?case by simp
qed

definition duplicates :: "actiongraph \<Rightarrow> nat \<Rightarrow> nat \<Rightarrow> bool" where
  "duplicates g v w \<longleftrightarrow> v \<noteq> w \<and>
     (case (action_at g v, action_at g w) of
        (Some a, Some b) \<Rightarrow> is_duplicate a b
      | _ \<Rightarrow> False)"

lemma action_at_iff: "wf_ag g \<Longrightarrow> action_at g v = Some a \<longleftrightarrow> (v, a) \<in> set (ag_vertices g)"
  using wf_agD(1) [of g] by (simp add: action_at_def ag_vs_def)

lemma duplicates_iff:
  assumes "wf_ag g"
  shows "duplicates g v w \<longleftrightarrow> v \<noteq> w \<and>
    (\<exists>a b. (v, a) \<in> set (ag_vertices g) \<and> (w, b) \<in> set (ag_vertices g) \<and> is_duplicate a b)"
  unfolding duplicates_def using action_at_iff [OF assms]
  by (auto split: option.splits) (metis option.distinct(1) option.inject)+

lemma duplicates_sym: "duplicates g v w \<Longrightarrow> duplicates g w v"
  by (auto simp: duplicates_def split: option.splits intro: is_duplicate_sym)

lemma duplicates_trans: "duplicates g u v \<Longrightarrow> duplicates g v w \<Longrightarrow> u \<noteq> w \<Longrightarrow> duplicates g u w"
  by (auto simp: duplicates_def split: option.splits intro: is_duplicate_trans)

lemma pairs_duplicates:
  assumes wf: "wf_ag g"
  shows "(v, w) \<in> set (duplicate_pairs (ag_vertices g)) \<Longrightarrow> duplicates g v w"
    and "duplicates g v w \<Longrightarrow>
      (v, w) \<in> set (duplicate_pairs (ag_vertices g)) \<or> (w, v) \<in> set (duplicate_pairs (ag_vertices g))"
proof -
  have dist: "distinct (List.map fst (ag_vertices g))" using wf_agD(1) [OF wf] by (simp add: ag_vs_def)
  note iff = duplicate_pairs_iff [OF dist]
  {
    assume "(v, w) \<in> set (duplicate_pairs (ag_vertices g))"
    then show "duplicates g v w"
      using duplicate_pairs_ends [OF dist] unfolding duplicates_iff [OF wf] by blast
  next
    assume d: "duplicates g v w"
    then obtain a b where "(v, a) \<in> set (ag_vertices g)" "(w, b) \<in> set (ag_vertices g)"
      "is_duplicate a b" "v \<noteq> w" unfolding duplicates_iff [OF wf] by blast
    then obtain i where i: "i < length (ag_vertices g)" "ag_vertices g ! i = (v, a)"
      by (auto simp: in_set_conv_nth)
    obtain j where j: "j < length (ag_vertices g)" "ag_vertices g ! j = (w, b)"
      using \<open>(w, b) \<in> set (ag_vertices g)\<close> by (auto simp: in_set_conv_nth)
    note ij = i j
    have "i \<noteq> j" using i j \<open>v \<noteq> w\<close> by auto
    show "(v, w) \<in> set (duplicate_pairs (ag_vertices g)) \<or> (w, v) \<in> set (duplicate_pairs (ag_vertices g))"
    proof (cases "i < j")
      case True
      then have "(v, w) \<in> set (duplicate_pairs (ag_vertices g))"
        using ij \<open>is_duplicate a b\<close> unfolding iff by (intro exI [of _ i] exI [of _ j]) simp
      then show ?thesis ..
    next
      case False
      then have "(w, v) \<in> set (duplicate_pairs (ag_vertices g))"
        using ij \<open>i \<noteq> j\<close> is_duplicate_sym [OF \<open>is_duplicate a b\<close>] unfolding iff
        by (intro exI [of _ j] exI [of _ i]) simp
      then show ?thesis ..
    qed
  }
qed

lemma merge_duplicate_error: "merge_duplicate v w g = Inl e \<Longrightarrow> e = UndefinedBehaviour"
  by (auto simp: merge_duplicate_def Let_def split: if_splits)

lemma efold_merge_error:
  "efold (\<lambda>(v, w). merge_duplicate v w) ps g = Inl e \<Longrightarrow> e = UndefinedBehaviour"
  by (induction ps arbitrary: g) (auto simp: result_simps dest: merge_duplicate_error)

lemma duplicate_pairs_antisym:
  assumes dist: "distinct (List.map fst vs)" and "(v, w) \<in> set (duplicate_pairs vs)"
  shows "(w, v) \<notin> set (duplicate_pairs vs)"
proof
  assume "(w, v) \<in> set (duplicate_pairs vs)"
  then obtain k l where kl: "k < l" "l < length vs" "fst (vs ! k) = w" "fst (vs ! l) = v"
    unfolding duplicate_pairs_iff [OF dist] by blast
  obtain i j where ij: "i < j" "j < length vs" "fst (vs ! i) = v" "fst (vs ! j) = w"
    using assms(2) unfolding duplicate_pairs_iff [OF dist] by blast
  have "k = j" "l = i"
    using nth_eq_iff_index_eq [OF dist, of k j] nth_eq_iff_index_eq [OF dist, of l i] ij kl by simp_all
  then show False using ij(1) kl(1) by simp
qed

text \<open>Three of a kind are needed for two pairs to share the vertex that is removed.\<close>

definition three_of_a_kind :: "actiongraph \<Rightarrow> bool" where
  "three_of_a_kind g \<longleftrightarrow> (\<exists>u v w. duplicates g u v \<and> duplicates g v w \<and> duplicates g u w)"

lemma pairs_disjoint:
  assumes wf: "wf_ag g" and none: "\<not> three_of_a_kind g"
    and p: "(v, w) \<in> set (duplicate_pairs (ag_vertices g))"
    and q: "(x, y) \<in> set (duplicate_pairs (ag_vertices g))" and ne: "(v, w) \<noteq> (x, y)"
  shows "w \<noteq> x \<and> w \<noteq> y"
proof -
  have dist: "distinct (List.map fst (ag_vertices g))" using wf_agD(1) [OF wf] by (simp add: ag_vs_def)
  note dup = pairs_duplicates(1) [OF wf p] pairs_duplicates(1) [OF wf q]
  have none': "\<And>u v w. duplicates g u v \<Longrightarrow> duplicates g v w \<Longrightarrow> u = w"
    using none duplicates_trans unfolding three_of_a_kind_def by blast
  have "w \<noteq> x"
  proof
    assume "w = x"
    then have "v = y" using none' dup by blast
    then show False using duplicate_pairs_antisym [OF dist p] q \<open>w = x\<close> by blast
  qed
  moreover have "w \<noteq> y"
  proof
    assume "w = y"
    then have "v = x" using none' dup(1) duplicates_sym [OF dup(2)] by blast
    then show False using ne \<open>w = y\<close> by blast
  qed
  ultimately show ?thesis ..
qed

text \<open>
  And they are enough: the loop only succeeds when no vertex is removed twice, but of three
  vertices that are duplicates of each other the last one is removed by two pairs.
\<close>

lemma efold_merge_removed:
  assumes "efold (\<lambda>(v, w). merge_duplicate v w) ps g = Inr g'" and "\<forall>(v, w) \<in> set ps. v \<noteq> w"
  shows "snd ` set ps \<subseteq> set (ag_vs g) \<and> distinct (List.map snd ps)"
  using assms
proof (induction ps arbitrary: g)
  case (Cons p ps)
  obtain v w where p: "p = (v, w)" by (cases p)
  then obtain h where h: "merge_duplicate v w g = Inr h"
    "efold (\<lambda>(v, w). merge_duplicate v w) ps h = Inr g'"
    using Cons.prems(1) by (auto simp: result_simps)
  have vw: "v \<noteq> w" using Cons.prems(2) p by simp
  have "snd ` set ps \<subseteq> set (ag_vs h) \<and> distinct (List.map snd ps)"
    by (rule Cons.IH [OF h(2)]) (use Cons.prems(2) in simp)
  then show ?case using merge_duplicate_spec(2,4) [OF h(1) vw] by (auto simp: p)
qed simp

lemma duplicate_pairs_no_cycle:
  assumes dist: "distinct (List.map fst vs)" and "(u, v) \<in> set (duplicate_pairs vs)"
    and "(v, w) \<in> set (duplicate_pairs vs)"
  shows "(w, u) \<notin> set (duplicate_pairs vs)"
proof
  note iff = duplicate_pairs_iff [OF dist]
  note same = nth_eq_iff_index_eq [OF dist]
  assume "(w, u) \<in> set (duplicate_pairs vs)"
  then obtain m n where mn: "m < n" "n < length vs" "fst (vs ! m) = w" "fst (vs ! n) = u"
    unfolding iff by blast
  obtain i j where ij: "i < j" "j < length vs" "fst (vs ! i) = u" "fst (vs ! j) = v"
    using assms(2) unfolding iff by blast
  obtain k l where kl: "k < l" "l < length vs" "fst (vs ! k) = v" "fst (vs ! l) = w"
    using assms(3) unfolding iff by blast
  have "j = k" "l = m" "n = i" using same [of j k] same [of l m] same [of n i] ij kl mn by simp_all
  then show False using ij(1) kl(1) mn(1) by simp
qed

lemma three_share_target:
  assumes wf: "wf_ag g" and three: "three_of_a_kind g"
  obtains a b c where "a \<noteq> b" and "(a, c) \<in> set (duplicate_pairs (ag_vertices g))"
    and "(b, c) \<in> set (duplicate_pairs (ag_vertices g))"
proof -
  have dist: "distinct (List.map fst (ag_vertices g))" using wf_agD(1) [OF wf] by (simp add: ag_vs_def)
  obtain u v w where d: "duplicates g u v" "duplicates g v w" "duplicates g u w"
    using three unfolding three_of_a_kind_def by blast
  then have ne: "u \<noteq> v" "v \<noteq> w" "u \<noteq> w" by (simp_all add: duplicates_def)
  show ?thesis
    using pairs_duplicates(2) [OF wf d(1)] pairs_duplicates(2) [OF wf d(2)] pairs_duplicates(2) [OF wf d(3)]
      duplicate_pairs_no_cycle [OF dist] ne that by blast
qed

lemma remove_duplicates_no_three:
  assumes wf: "wf_ag g" and ok: "remove_duplicates g = Inr g'"
  shows "\<not> three_of_a_kind g"
proof
  let ?ps = "duplicate_pairs (ag_vertices g)"
  assume "three_of_a_kind g"
  from three_share_target [OF wf this] obtain a b c where
    abc: "a \<noteq> b" "(a, c) \<in> set ?ps" "(b, c) \<in> set ?ps" .
  have "\<forall>(v, w) \<in> set ?ps. v \<noteq> w"
    using pairs_duplicates(1) [OF wf] by (auto simp: duplicates_def)
  then have "inj_on snd (set ?ps)"
    using efold_merge_removed ok by (fastforce simp: remove_duplicates_def distinct_map)
  from inj_onD [OF this _ abc(2,3)] abc(1) show False by simp
qed

lemma remove_duplicates_three:
  assumes wf: "wf_ag g" and err: "remove_duplicates g = Inl e"
  shows "e = UndefinedBehaviour \<and> three_of_a_kind g"
proof
  show "e = UndefinedBehaviour"
    using err efold_merge_error unfolding remove_duplicates_def by blast
  show "three_of_a_kind g"
  proof (rule ccontr)
    assume none: "\<not> three_of_a_kind g"
    let ?ps = "duplicate_pairs (ag_vertices g)"
    have dist: "distinct (List.map fst (ag_vertices g))" using wf_agD(1) [OF wf] by (simp add: ag_vs_def)
    have ends: "\<forall>(v, w) \<in> set ?ps. v \<noteq> w \<and> v \<in> set (ag_vs g) \<and> w \<in> set (ag_vs g)"
      using pairs_duplicates(1) [OF wf] unfolding duplicates_iff [OF wf] by (force simp: ag_vs_def)
    have "\<forall>p \<in> set ?ps. \<forall>q \<in> set ?ps. p \<noteq> q \<longrightarrow> snd p \<noteq> fst q \<and> snd p \<noteq> snd q"
    proof (intro ballI impI)
      fix p q assume "p \<in> set ?ps" "q \<in> set ?ps" "p \<noteq> q"
      then show "snd p \<noteq> fst q \<and> snd p \<noteq> snd q"
        using pairs_disjoint [OF wf none, of "fst p" "snd p" "fst q" "snd q"] by simp
    qed
    then obtain g' where "remove_duplicates g = Inr g'"
      using efold_merge_disjoint [OF ends distinct_duplicate_pairs [OF dist]]
      unfolding remove_duplicates_def by blast
    then show False using err by simp
  qed
qed

lemma remove_duplicates_Inr:
  assumes wf: "wf_ag g" and ok: "remove_duplicates g = Inr g'"
  shows "wf_ag g' \<and> set (ag_vertices g') \<subseteq> set (ag_vertices g) \<and>
    (\<forall>v w. \<not> duplicates g' v w) \<and>
    (\<exists>r. set (ag_edges g') = map_prod r r ` set (ag_edges g) \<and> (\<forall>x. r x = x \<or> duplicates g x (r x)))"
proof -
  let ?ps = "duplicate_pairs (ag_vertices g)"
  let ?Q = "set (List.map (\<lambda>(v, w). (w, v)) ?ps)"
  have ne: "\<forall>(v, w) \<in> set ?ps. v \<noteq> w"
    using pairs_duplicates(1) [OF wf] unfolding duplicates_iff [OF wf] by blast
  from efold_merge [OF ok [unfolded remove_duplicates_def] ne wf]
  obtain r where g': "wf_ag g'" "ag_vertices g' = filter (\<lambda>(x, a). x \<notin> snd ` set ?ps) (ag_vertices g)"
    and r: "\<And>x. r x = x \<or> (\<exists>y. (x, y) \<in> ?Q\<^sup>+ \<and> r x = y)"
    and e: "set (ag_edges g') = map_prod r r ` set (ag_edges g)"
    by blast
  have sub: "set (ag_vertices g') \<subseteq> set (ag_vertices g)" unfolding g'(2) by auto
  have "\<not> duplicates g' v w" for v w
  proof
    assume "duplicates g' v w"
    then have d: "duplicates g v w" and in': "v \<in> fst ` set (ag_vertices g')" "w \<in> fst ` set (ag_vertices g')"
      using sub unfolding duplicates_iff [OF wf] duplicates_iff [OF g'(1)] by force+
    have "v \<notin> snd ` set ?ps" "w \<notin> snd ` set ?ps" using in' unfolding g'(2) by (auto simp: image_iff)
    then show False using pairs_duplicates(2) [OF wf d] by (metis image_eqI snd_conv)
  qed
  moreover have "r x = x \<or> duplicates g x (r x)" for x
  proof -
    have "(x, y) \<in> ?Q\<^sup>+ \<Longrightarrow> y = x \<or> duplicates g x y" for y
    proof (induction rule: trancl_induct)
      case (base y)
      then have "(y, x) \<in> set ?ps" by auto
      then show ?case using duplicates_sym [OF pairs_duplicates(1) [OF wf]] by blast
    next
      case (step y z)
      then have "(z, y) \<in> set ?ps" by auto
      then have "duplicates g y z" using duplicates_sym [OF pairs_duplicates(1) [OF wf]] by blast
      then show ?case using step.IH duplicates_trans by blast
    qed
    then show ?thesis using r [of x] by blast
  qed
  ultimately show ?thesis using g'(1) sub e by blast
qed

section \<open>Generating the order\<close>

definition extends :: "actiongraph \<Rightarrow> actiongraph \<Rightarrow> bool" where
  "extends g g' \<longleftrightarrow> ag_vertices g' = ag_vertices g \<and> ag_next g' = ag_next g \<and>
     set (ag_edges g) \<subseteq> set (ag_edges g') \<and>
     (\<forall>(a, b) \<in> set (ag_edges g') - set (ag_edges g). a \<in> set (ag_vs g) \<and> b \<in> set (ag_vs g))"

lemma extends_refl [intro, simp]: "extends g g"
  by (simp add: extends_def)

lemma extends_vs: "extends g g' \<Longrightarrow> ag_vs g' = ag_vs g"
  by (simp add: extends_def ag_vs_def)

lemma extends_trans: "extends g h \<Longrightarrow> extends h k \<Longrightarrow> extends g k"
  using extends_vs [of g h] unfolding extends_def by fastforce

lemma extends_add_edge [intro]:
  "a \<in> set (ag_vs g) \<Longrightarrow> b \<in> set (ag_vs g) \<Longrightarrow> extends g (ag_add_edge a b g)"
  by (auto simp: extends_def)

lemma extends_wf:
  assumes "extends g g'" and "wf_ag g"
  shows "wf_ag g'"
proof -
  have eq: "ag_vs g' = ag_vs g" "ag_next g' = ag_next g"
    using assms(1) by (simp_all add: extends_def ag_vs_def)
  have "a \<in> set (ag_vs g) \<and> b \<in> set (ag_vs g)" if "(a, b) \<in> set (ag_edges g')" for a b
    using that assms(1) wf_agD(3,4) [OF assms(2), of a b] unfolding extends_def by blast
  then show ?thesis using wf_agD(1,2) [OF assms(2)] unfolding wf_ag_def eq by blast
qed

lemma extends_trancl:
  assumes "extends g g'" and "(a, b) \<in> (set (ag_edges g))\<^sup>+"
  shows "(a, b) \<in> (set (ag_edges g'))\<^sup>+"
  by (rule trancl_mono [OF assms(2)]) (use assms(1) in \<open>simp add: extends_def\<close>)

lemma extends_fold:
  assumes "\<And>x g. x \<in> set xs \<Longrightarrow> ag_vs g = V \<Longrightarrow> extends g (f x g)" and "ag_vs g = V"
  shows "extends g (fold f xs g)"
  using assms
proof (induction xs arbitrary: g)
  case Nil
  then show ?case by simp
next
  case (Cons x xs)
  have "extends g (f x g)" using Cons.prems by simp
  moreover have "extends (f x g) (fold f xs (f x g))"
    using Cons.IH [of "f x g"] Cons.prems extends_vs [OF calculation] by simp
  ultimately show ?case using extends_trans by simp
qed

lemma extends_efold:
  assumes "efold f xs g = Inr g'" and "ag_vs g = V"
    and "\<And>x g g'. x \<in> set xs \<Longrightarrow> ag_vs g = V \<Longrightarrow> f x g = Inr g' \<Longrightarrow> extends g g'"
  shows "extends g g'"
  using assms
proof (induction xs arbitrary: g)
  case Nil
  then show ?case by simp
next
  case (Cons x xs)
  then obtain h where h: "f x g = Inr h" "efold f xs h = Inr g'" by (auto simp: result_simps)
  have e: "extends g h" by (rule Cons.prems(3) [OF _ Cons.prems(2) h(1)]) simp
  have "extends h g'"
  proof (rule Cons.IH [OF h(2)])
    show "ag_vs h = V" using Cons.prems(2) extends_vs [OF e] by simp
  qed (rule Cons.prems(3), simp_all)
  with e show ?case by (rule extends_trans)
qed

text \<open>
  What all functions that add dependencies promise: they only add edges, between actions of the
  graph.
\<close>

locale adds_dependencies =
  fixes deps :: "actiongraph \<Rightarrow> actiongraph result"
  assumes only_adds: "deps g = Inr g' \<Longrightarrow> extends g g'"
begin

lemma keeps_vertices: "deps g = Inr g' \<Longrightarrow> ag_vertices g' = ag_vertices g"
  using only_adds by (simp add: extends_def)

lemma keeps_wf: "deps g = Inr g' \<Longrightarrow> wf_ag g \<Longrightarrow> wf_ag g'"
  using only_adds extends_wf by blast

lemma keeps_order: "deps g = Inr g' \<Longrightarrow> (a, b) \<in> (set (ag_edges g))\<^sup>+ \<Longrightarrow> (a, b) \<in> (set (ag_edges g'))\<^sup>+"
  using only_adds extends_trancl by blast

text \<open>A function of the kind followed by another one is of the kind.\<close>

lemma followed_by:
  assumes "adds_dependencies h"
  shows "adds_dependencies (\<lambda>g. ebind (deps g) h)"
proof
  fix g g' assume "ebind (deps g) h = Inr g'"
  then obtain k where "deps g = Inr k" "h k = Inr g'" by (auto simp: result_simps)
  then show "extends g g'"
    using only_adds adds_dependencies.only_adds [OF assms] extends_trans by blast
qed

end

lemma add_mount_edges:
  "ag_vertices (add_mount_dependencies g) = ag_vertices g"
  "ag_next (add_mount_dependencies g) = ag_next g"
  "(a, b) \<in> set (ag_edges (add_mount_dependencies g)) \<longleftrightarrow> (a, b) \<in> set (ag_edges g) \<or>
     (\<exists>p. (p, b) \<in> set (mount_map mount_path (ag_vertices g)) \<and>
        find_mount_parent (mount_map mount_path (ag_vertices g)) p = Some a) \<or>
     (\<exists>p. (p, a) \<in> set (mount_map unmount_path (ag_vertices g)) \<and>
        find_mount_parent (mount_map unmount_path (ag_vertices g)) p = Some b)"
proof -
  have loop: "fold (\<lambda>(p, v) g. case f p of None \<Rightarrow> g | Some w \<Rightarrow> ag_add_edge (s v w) (t v w) g) xs g =
      g\<lparr>ag_edges := ag_edges g @
        concat (List.map (\<lambda>x. case f (fst x) of None \<Rightarrow> [] | Some w \<Rightarrow> [(s (snd x) w, t (snd x) w)]) xs)\<rparr>"
    for f :: "string \<Rightarrow> nat option" and s t :: "nat \<Rightarrow> nat \<Rightarrow> nat" and xs g
    using fold_add_some_edges [where f = "\<lambda>x. f (fst x)" and s = "\<lambda>x. s (snd x)" and t = "\<lambda>x. t (snd x)"]
    by (simp add: case_prod_unfold)
  note eq = add_mount_dependencies_def Let_def
    loop [where s = "\<lambda>v w. w" and t = "\<lambda>v w. v"] loop [where s = "\<lambda>v w. v" and t = "\<lambda>v w. w"]
  show "ag_vertices (add_mount_dependencies g) = ag_vertices g"
    "ag_next (add_mount_dependencies g) = ag_next g"
    unfolding eq by simp_all
  show "(a, b) \<in> set (ag_edges (add_mount_dependencies g)) \<longleftrightarrow> (a, b) \<in> set (ag_edges g) \<or>
     (\<exists>p. (p, b) \<in> set (mount_map mount_path (ag_vertices g)) \<and>
        find_mount_parent (mount_map mount_path (ag_vertices g)) p = Some a) \<or>
     (\<exists>p. (p, a) \<in> set (mount_map unmount_path (ag_vertices g)) \<and>
        find_mount_parent (mount_map unmount_path (ag_vertices g)) p = Some b)"
    unfolding eq by (auto split: option.splits) force+
qed

lemma find_mount_parent_ran: "find_mount_parent m p = Some v \<Longrightarrow> \<exists>q. (q, v) \<in> set m"
  using find_mount_parent_nearest [where m = m and q = p] by (auto dest: map_of_SomeD)

lemma mount_map_vs: "(p, v) \<in> set (mount_map path (ag_vertices g)) \<Longrightarrow> v \<in> set (ag_vs g)"
  using mount_map_spec(2) [of p v path] by (force simp: ag_vs_def)

interpretation mounts: adds_dependencies "\<lambda>g. Inr (add_mount_dependencies g)"
proof
  fix g g' assume "Inr (add_mount_dependencies g) = (Inr g' :: actiongraph result)"
  then have g': "g' = add_mount_dependencies g" by simp
  have "a \<in> set (ag_vs g) \<and> b \<in> set (ag_vs g)"
    if "(a, b) \<in> set (ag_edges (add_mount_dependencies g))" "(a, b) \<notin> set (ag_edges g)" for a b
    using that mount_map_vs find_mount_parent_ran unfolding add_mount_edges(3) by blast
  then show "extends g g'"
    unfolding extends_def g' add_mount_edges(1,2) by (auto simp: add_mount_edges(3))
qed

text \<open>
  \<open>Actiongraph::Impl::add_dependencies\<close> calls \<open>add_dependencies\<close> of every action. Those of the
  actions that create or delete a device; mount and unmount actions are derived from them. The
  dependencies of holders and of the other actions are the parameter \<open>other\<close>.
\<close>

definition action_dependencies ::
  "devicegraph \<Rightarrow> devicegraph \<Rightarrow> (nat \<Rightarrow> bool) \<Rightarrow>
   (nat \<Rightarrow> action \<Rightarrow> actiongraph \<Rightarrow> actiongraph result) \<Rightarrow>
   nat \<Rightarrow> action \<Rightarrow> actiongraph \<Rightarrow> actiongraph result" where
  "action_dependencies lhs rhs has_dependency_manager other v a g =
     (if affects_device a \<and> is_create a
      then add_create_dependencies lhs rhs has_dependency_manager (a_sid a) v g
      else if affects_device a \<and> is_delete a then add_delete_dependencies lhs (a_sid a) v g
      else other v a g)"

definition add_action_dependencies ::
  "devicegraph \<Rightarrow> devicegraph \<Rightarrow> (nat \<Rightarrow> bool) \<Rightarrow>
   (nat \<Rightarrow> action \<Rightarrow> actiongraph \<Rightarrow> actiongraph result) \<Rightarrow> actiongraph \<Rightarrow> actiongraph result" where
  "add_action_dependencies lhs rhs has_dependency_manager other g =
     efold (\<lambda>(v, a). action_dependencies lhs rhs has_dependency_manager other v a) (ag_vertices g) g"

lemma actions_with_sid_filter_vs:
  "t \<in> set (actions_with_sid_filter g sid fl) \<Longrightarrow> t \<in> set (ag_vs g)"
  by (auto simp: actions_with_sid_filter_def actions_with_sid_def ag_vs_def)

lemma extends_create_dependency:
  assumes "create_dependency lhs hdm sid v parent_sid g = Inr g'" and v: "v \<in> set (ag_vs g)"
  shows "extends g g'"
proof (cases "device_exists lhs parent_sid")
  case False
  then obtain t ts where t: "actions_with_sid_filter g parent_sid ONLY_LAST = t # ts"
    and g': "g' = ag_add_edge t v g"
    using assms(1) by (auto simp: create_dependency_def split: list.splits)
  have "t \<in> set (ag_vs g)" by (rule actions_with_sid_filter_vs [of _ _ parent_sid ONLY_LAST]) (simp add: t)
  then show ?thesis using v unfolding g' by blast
next
  case True
  show ?thesis
  proof (cases "hdm sid")
    case False
    obtain p where g': "g' = fold (\<lambda>c g. case sid_of lhs c of
              None \<Rightarrow> g
            | Some child_sid \<Rightarrow>
                (case actions_with_sid_filter g child_sid ONLY_LAST of
                   [] \<Rightarrow> g
                 | t # _ \<Rightarrow>
                     (case action_at g t of
                        Some a \<Rightarrow> if is_delete a then ag_add_edge t v g else g
                      | None \<Rightarrow> g)))
            (children lhs VIEW_REMOVE p) g"
      using assms(1) True False by (auto simp: create_dependency_def result_simps)
    show ?thesis
      unfolding g'
    proof (rule extends_fold [OF _ refl])
      fix c h assume "ag_vs h = ag_vs g"
      then have "t \<in> set (actions_with_sid_filter h s ONLY_LAST) \<Longrightarrow> extends h (ag_add_edge t v h)" for t s
        using actions_with_sid_filter_vs [of t h s] v by auto
      then show "extends h (case sid_of lhs c of
              None \<Rightarrow> h
            | Some child_sid \<Rightarrow>
                (case actions_with_sid_filter h child_sid ONLY_LAST of
                   [] \<Rightarrow> h
                 | t # _ \<Rightarrow>
                     (case action_at h t of
                        Some a \<Rightarrow> if is_delete a then ag_add_edge t v h else h
                      | None \<Rightarrow> h)))"
        by (auto split: option.splits list.splits) (metis list.set_intros(1))
    qed
  qed (use assms(1) True in \<open>simp add: create_dependency_def\<close>)
qed

lemma extends_add_create:
  assumes "add_create_dependencies lhs rhs hdm sid v g = Inr g'" and "v \<in> set (ag_vs g)"
  shows "extends g g'"
proof -
  obtain r where "efold (\<lambda>p g. case sid_of rhs p of
           None \<Rightarrow> Inl UndefinedBehaviour
         | Some parent_sid \<Rightarrow> create_dependency lhs hdm sid v parent_sid g)
         (parents rhs VIEW_ALL r) g = Inr g'"
    using assms(1) by (auto simp: add_create_dependencies_def result_simps)
  then show ?thesis
    by (rule extends_efold [OF _ refl])
      (use assms(2) in \<open>auto split: option.splits intro: extends_create_dependency\<close>)
qed

lemma extends_add_delete:
  assumes "add_delete_dependencies lhs sid v g = Inr g'" and "v \<in> set (ag_vs g)"
  shows "extends g g'"
proof -
  obtain r where r: "efold (\<lambda>p g. case sid_of lhs p of
           None \<Rightarrow> Inl UndefinedBehaviour
         | Some parent_sid \<Rightarrow>
             Inr (fold (\<lambda>t. ag_add_edge v t) (actions_with_sid_filter g parent_sid ONLY_FIRST) g))
         (parents lhs VIEW_REMOVE r) g = Inr g'"
    using assms(1) by (auto simp: add_delete_dependencies_def result_simps)
  have "extends h (fold (\<lambda>t. ag_add_edge v t) (actions_with_sid_filter h s ONLY_FIRST) h)"
    if "ag_vs h = ag_vs g" for h s
    by (rule extends_fold [OF _ refl])
      (use actions_with_sid_filter_vs [of _ h s] assms(2) that in auto)
  with r show ?thesis
    by (intro extends_efold [OF r refl]) (auto split: option.splits)
qed

text \<open>If what the other actions do is of the kind, so is the whole loop.\<close>

lemma action_dependencies_add:
  assumes "\<And>v a g g'. v \<in> set (ag_vs g) \<Longrightarrow> other v a g = Inr g' \<Longrightarrow> extends g g'"
  shows "adds_dependencies (add_action_dependencies lhs rhs hdm other)"
proof
  fix g g' assume "add_action_dependencies lhs rhs hdm other g = Inr g'"
  then show "extends g g'"
    unfolding add_action_dependencies_def
  proof (rule extends_efold [OF _ refl], clarify)
    fix v a h h'
    assume "(v, a) \<in> set (ag_vertices g)" and vs: "ag_vs h = ag_vs g"
      and "action_dependencies lhs rhs hdm other v a h = Inr h'"
    moreover from this have "v \<in> set (ag_vs h)" by (force simp: ag_vs_def)
    ultimately show "extends h h'"
      using assms extends_add_create extends_add_delete
      by (auto simp: action_dependencies_def split: if_splits)
  qed
qed

interpretation actions: adds_dependencies
  "add_action_dependencies lhs rhs hdm (\<lambda>v a g. Inr g)" for lhs rhs hdm
  by (rule action_dependencies_add) simp

text \<open>
  \<open>Actiongraph::Impl::add_dependencies\<close>: first what the devices and the dependency managers of the
  classes add, then the actions, then the mounts and the special case for DASD.
\<close>

definition add_dependencies ::
  "(actiongraph \<Rightarrow> actiongraph result) \<Rightarrow> (actiongraph \<Rightarrow> actiongraph result) \<Rightarrow>
   (actiongraph \<Rightarrow> actiongraph result) \<Rightarrow> actiongraph \<Rightarrow> actiongraph result" where
  "add_dependencies classes actions dasd g =
     ebind (classes g) (\<lambda>g. ebind (actions g) (\<lambda>g. dasd (add_mount_dependencies g)))"

text \<open>
  The constructor of the actiongraph once all actions are there: the graph and the order. The
  caches \<open>set_special_actions\<close> builds are the searches above.
\<close>

definition generate ::
  "(actiongraph \<Rightarrow> actiongraph result) \<Rightarrow> nat \<Rightarrow> devicegraph \<Rightarrow> nat set \<Rightarrow> actiongraph \<Rightarrow>
   (actiongraph \<times> nat list) result" where
  "generate deps method lhs taboos g =
     ebind (remove_duplicates g) (\<lambda>g.
     ebind (deps g) (\<lambda>g.
     ebind (remove_only_syncs g) (\<lambda>g.
       let g = set_priorities g
       in ebind (calculate_order method g) (\<lambda>order.
          ebind (check_taboos lhs taboos g) (\<lambda>_. Inr (g, order))))))"

lemma ag_next_set_priority: "ag_next (set_priority v p g) = ag_next g"
  by (simp add: set_priority_def)

lemma set_priorities_upward_same:
  "ag_vs (set_priorities_upward vs g) = ag_vs g \<and> ag_edges (set_priorities_upward vs g) = ag_edges g \<and>
   ag_next (set_priorities_upward vs g) = ag_next g"
  by (induction vs g rule: set_priorities_upward.induct) (simp_all add: ag_next_set_priority)

lemma set_priorities_same:
  "ag_vs (set_priorities g) = ag_vs g \<and> ag_edges (set_priorities g) = ag_edges g \<and>
   ag_next (set_priorities g) = ag_next g"
proof -
  let ?P = "\<lambda>h. ag_vs h = ag_vs g \<and> ag_edges h = ag_edges g \<and> ag_next h = ag_next g"
  have step: "?P (if is_swap_mount a
      then set_priorities_upward (ag_parents h v) (set_priority v 2 h) else h)" if "?P h" for v a h
    using that set_priorities_upward_same [of "ag_parents h v" "set_priority v 2 h"]
    by (simp add: ag_next_set_priority)
  show ?thesis
    unfolding set_priorities_def
    by (rule fold_invariant [where Q = "\<lambda>_. True" and P = ?P]) (auto simp only: split: prod.split intro!: step)
qed

lemma generate_cases:
  assumes "generate deps method lhs taboos g = Inr (g', order)"
  obtains g1 g2 g3 where "remove_duplicates g = Inr g1" and "deps g1 = Inr g2"
    and "remove_only_syncs g2 = Inr g3" and "g' = set_priorities g3"
    and "calculate_order method g' = Inr order" and "check_taboos lhs taboos g' = Inr ()"
  using assms by (auto simp: generate_def Let_def result_simps)

definition before :: "nat list \<Rightarrow> nat \<Rightarrow> nat \<Rightarrow> bool" where
  "before order a b \<longleftrightarrow> (\<exists>i j. i < j \<and> j < length order \<and> order ! i = a \<and> order ! j = b)"

text \<open>
  The order respects every chain of dependencies between two actions that are carried out, also
  one through synchronisation points.
\<close>

lemma generate_respects:
  assumes "generate deps method lhs taboos g = Inr (g', order)" and "wf_ag g" and "method < 2"
    and "adds_dependencies deps"
  obtains g1 g2 where "remove_duplicates g = Inr g1" and "deps g1 = Inr g2" and "wf_ag g1" and "wf_ag g2"
    and "ag_vertices g2 = ag_vertices g1"
    and "set order = {v. \<exists>a. (v, a) \<in> set (ag_vertices g1) \<and> \<not> a_only_sync a}"
    and "distinct order"
    and "\<And>a b. a \<in> set order \<Longrightarrow> b \<in> set order \<Longrightarrow> (a, b) \<in> (set (ag_edges g2))\<^sup>+ \<Longrightarrow> before order a b"
proof -
  obtain g1 g2 g3 where g1: "remove_duplicates g = Inr g1" and g2: "deps g1 = Inr g2"
    and g3: "remove_only_syncs g2 = Inr g3" and g': "g' = set_priorities g3"
    and order: "calculate_order method g' = Inr order"
    using generate_cases [OF assms(1)] by metis
  have wf1: "wf_ag g1" using remove_duplicates_Inr [OF assms(2) g1] by blast
  have wf2: "wf_ag g2" by (rule adds_dependencies.keeps_wf [OF assms(4) g2 wf1])
  let ?syncs = "List.map fst (filter (\<lambda>(v, a). a_only_sync a) (ag_vertices g2))"
  have "wf_ag g3" and vs3: "ag_vertices g3 = filter (\<lambda>(w, a). w \<notin> set ?syncs) (ag_vertices g2)"
    and tr: "\<And>a b. a \<notin> set ?syncs \<Longrightarrow> b \<notin> set ?syncs \<Longrightarrow>
        (a, b) \<in> (set (ag_edges g3))\<^sup>+ \<longleftrightarrow> (a, b) \<in> (set (ag_edges g2))\<^sup>+"
    using efold_bypass [OF g3 [unfolded remove_only_syncs_def] wf2] by blast+
  have same: "ag_vs g' = ag_vs g3" "ag_edges g' = ag_edges g3" "ag_next g' = ag_next g3"
    using set_priorities_same [of g3] by (simp_all add: g')
  have wf': "wf_ag g'" using \<open>wf_ag g3\<close> unfolding wf_ag_def same .
  have o: "distinct order" "set order = set (ag_vs g3)" "topological (ag_edges g3) order"
    using calculate_order_result [OF wf' assms(3)] order same by simp_all
  have eq: "ag_vertices g2 = ag_vertices g1"
    by (rule adds_dependencies.keeps_vertices [OF assms(4) g2])
  have inj: "(v, a) \<in> set (ag_vertices g2) \<Longrightarrow> (v, b) \<in> set (ag_vertices g2) \<Longrightarrow> a = b" for v a b
    using wf_agD(1) [OF wf2] unfolding ag_vs_def by (rule eq_key_imp_eq_value)
  have syncs: "v \<in> set ?syncs \<longleftrightarrow> (\<exists>a. (v, a) \<in> set (ag_vertices g2) \<and> a_only_sync a)" for v
    by force
  have members: "set (ag_vs g3) = {v. \<exists>a. (v, a) \<in> set (ag_vertices g2) \<and> \<not> a_only_sync a}"
  proof (intro set_eqI)
    fix v
    have "v \<in> set (ag_vs g3) \<longleftrightarrow> (\<exists>a. (v, a) \<in> set (ag_vertices g2)) \<and> v \<notin> set ?syncs"
      unfolding ag_vs_def vs3 by (auto simp: image_iff)
    then show "v \<in> set (ag_vs g3) \<longleftrightarrow>
        v \<in> {v. \<exists>a. (v, a) \<in> set (ag_vertices g2) \<and> \<not> a_only_sync a}"
      unfolding syncs using inj by blast
  qed
  have resp: "before order a b"
    if ab: "a \<in> set order" "b \<in> set order" "(a, b) \<in> (set (ag_edges g2))\<^sup>+" for a b
  proof -
    have "a \<notin> set ?syncs" "b \<notin> set ?syncs"
      using ab(1,2) inj unfolding syncs o(2) members by blast+
    then have "(a, b) \<in> (set (ag_edges g3))\<^sup>+" using tr ab(3) by blast
    from topological_trancl [OF o(3) this] wf_ag_ends [OF \<open>wf_ag g3\<close>] o(1,2)
    show ?thesis unfolding before_def by simp
  qed
  show thesis
    using that [OF g1 g2 wf1 wf2 eq _ o(1) resp] o(2) members eq by simp
qed

section \<open>Mounts in the order\<close>

lemma above_path_linear:
  "above_path p q \<Longrightarrow> above_path n q \<Longrightarrow> p = n \<or> above_path p n \<or> above_path n p"
proof (induction "length q" arbitrary: q rule: less_induct)
  case less
  have q: "q \<noteq> ''/''" using less.prems(1) by (simp add: above_path_def)
  obtain a where a: "parent_path q = Some a" using no_parent_path less.prems(1) by (cases "parent_path q") auto
  from less.hyps [OF parent_path_shorter [OF a q]] less.prems show ?case
    unfolding above_parent_path [OF a q] by blast
qed

lemma mount_chain:
  assumes "distinct (List.map fst m)"
  shows "map_of m q = Some w \<Longrightarrow> map_of m p = Some v \<Longrightarrow> above_path p q \<Longrightarrow>
    (v, w) \<in> {(a, b). \<exists>r. (r, b) \<in> set m \<and> find_mount_parent m r = Some a}\<^sup>+"
proof (induction "length q" arbitrary: q w rule: less_induct)
  case less
  let ?R = "{(a, b). \<exists>r. (r, b) \<in> set m \<and> find_mount_parent m r = Some a}"
  obtain a where a: "find_mount_parent m q = Some a"
    using find_mount_parent_nearest [where m = m and q = q] less.prems(2,3) by (cases "find_mount_parent m q") auto
  then obtain n where n: "above_path n q" "map_of m n = Some a"
    and nearest: "\<And>p'. above_path p' q \<Longrightarrow> length n < length p' \<Longrightarrow> map_of m p' = None"
    using find_mount_parent_nearest [where m = m and q = q] by auto
  have edge: "(a, w) \<in> ?R" using a map_of_SomeD [OF less.prems(1)] by blast
  have "\<not> above_path n p"
    using nearest [OF less.prems(3)] above_path_shorter [of n p] less.prems(2) by auto
  then have "p = n \<or> above_path p n" using above_path_linear [OF less.prems(3) n(1)] by blast
  then show ?case
  proof
    assume "p = n"
    then have "v = a" using n(2) less.prems(2) by simp
    then show ?thesis using edge by blast
  next
    assume "above_path p n"
    from less.hyps [OF above_path_shorter [OF n(1)] n(2) less.prems(2) this] edge
    show ?thesis by (rule trancl_into_trancl)
  qed
qed

lemma add_dependencies_adds:
  assumes "adds_dependencies classes" and "adds_dependencies actions" and "adds_dependencies dasd"
  shows "adds_dependencies (add_dependencies classes actions dasd)"
proof -
  have eq: "add_dependencies classes actions dasd =
      (\<lambda>g. ebind (classes g) (\<lambda>g. ebind (actions g) (\<lambda>g. ebind (Inr (add_mount_dependencies g)) dasd)))"
    by (simp add: add_dependencies_def fun_eq_iff)
  show ?thesis
    unfolding eq
    by (intro adds_dependencies.followed_by assms mounts.adds_dependencies_axioms)
qed

text \<open>The edges of the mounts are among those of the graph that is sorted.\<close>

lemma mount_edges_sub:
  assumes "add_dependencies classes actions dasd g1 = Inr g2"
    and "adds_dependencies classes" and "adds_dependencies actions" and "adds_dependencies dasd"
  shows "{(a, b). \<exists>r. (r, b) \<in> set (mount_map mount_path (ag_vertices g1)) \<and>
      find_mount_parent (mount_map mount_path (ag_vertices g1)) r = Some a} \<subseteq> set (ag_edges g2)"
    and "{(b, a). \<exists>r. (r, b) \<in> set (mount_map unmount_path (ag_vertices g1)) \<and>
      find_mount_parent (mount_map unmount_path (ag_vertices g1)) r = Some a} \<subseteq> set (ag_edges g2)"
proof -
  obtain h k where h: "classes g1 = Inr h" "actions h = Inr k" "dasd (add_mount_dependencies k) = Inr g2"
    using assms(1) by (auto simp: add_dependencies_def result_simps)
  have vs: "ag_vertices k = ag_vertices g1"
    using adds_dependencies.keeps_vertices [OF assms(2) h(1)]
      adds_dependencies.keeps_vertices [OF assms(3) h(2)] by simp
  have sub: "set (ag_edges (add_mount_dependencies k)) \<subseteq> set (ag_edges g2)"
    using adds_dependencies.only_adds [OF assms(4) h(3)] by (simp add: extends_def)
  show "{(a, b). \<exists>r. (r, b) \<in> set (mount_map mount_path (ag_vertices g1)) \<and>
      find_mount_parent (mount_map mount_path (ag_vertices g1)) r = Some a} \<subseteq> set (ag_edges g2)"
    by (rule subset_trans [OF _ sub]) (auto simp: add_mount_edges(3) vs)
  show "{(b, a). \<exists>r. (r, b) \<in> set (mount_map unmount_path (ag_vertices g1)) \<and>
      find_mount_parent (mount_map unmount_path (ag_vertices g1)) r = Some a} \<subseteq> set (ag_edges g2)"
    by (rule subset_trans [OF _ sub]) (auto simp: add_mount_edges(3) vs)
qed

lemma mounts_before:
  assumes gen: "generate (add_dependencies classes actions dasd) method lhs taboos g = Inr (g', order)"
    and wf: "wf_ag g" "method < 2"
    and adds: "adds_dependencies classes" "adds_dependencies actions" "adds_dependencies dasd"
    and g1: "remove_duplicates g = Inr g1"
    and "v \<in> set order" and "w \<in> set order" and "above_path p q"
  shows "map_of (mount_map mount_path (ag_vertices g1)) p = Some v \<Longrightarrow>
      map_of (mount_map mount_path (ag_vertices g1)) q = Some w \<Longrightarrow> before order v w"
    and "map_of (mount_map unmount_path (ag_vertices g1)) p = Some v \<Longrightarrow>
      map_of (mount_map unmount_path (ag_vertices g1)) q = Some w \<Longrightarrow> before order w v"
proof -
  obtain g2 where g2: "add_dependencies classes actions dasd g1 = Inr g2"
    and resp: "\<And>a b. a \<in> set order \<Longrightarrow> b \<in> set order \<Longrightarrow> (a, b) \<in> (set (ag_edges g2))\<^sup>+ \<Longrightarrow> before order a b"
  proof (rule generate_respects [OF gen wf add_dependencies_adds [OF adds]])
    fix h1 h2
    assume h: "remove_duplicates g = Inr h1" "add_dependencies classes actions dasd h1 = Inr h2"
      and r: "\<And>a b. a \<in> set order \<Longrightarrow> b \<in> set order \<Longrightarrow> (a, b) \<in> (set (ag_edges h2))\<^sup>+ \<Longrightarrow> before order a b"
    show thesis by (rule that [OF _ r]) (use h g1 in simp_all)
  qed
  note sub = mount_edges_sub [OF g2 adds]
  {
    assume "map_of (mount_map mount_path (ag_vertices g1)) p = Some v"
      and "map_of (mount_map mount_path (ag_vertices g1)) q = Some w"
    from mount_chain [OF mount_map_spec(1) this(2,1) assms(10)]
    have "(v, w) \<in> (set (ag_edges g2))\<^sup>+" by (rule trancl_mono [OF _ sub(1)])
    then show "before order v w" using resp assms(8,9) by blast
  next
    assume "map_of (mount_map unmount_path (ag_vertices g1)) p = Some v"
      and "map_of (mount_map unmount_path (ag_vertices g1)) q = Some w"
    from mount_chain [OF mount_map_spec(1) this(2,1) assms(10)]
    have "(w, v) \<in> ({(a, b). \<exists>r. (r, b) \<in> set (mount_map unmount_path (ag_vertices g1)) \<and>
      find_mount_parent (mount_map unmount_path (ag_vertices g1)) r = Some a}\<inverse>)\<^sup>+"
      by (simp add: trancl_converse)
    moreover have "{(a, b). \<exists>r. (r, b) \<in> set (mount_map unmount_path (ag_vertices g1)) \<and>
      find_mount_parent (mount_map unmount_path (ag_vertices g1)) r = Some a}\<inverse> \<subseteq> set (ag_edges g2)"
      using sub(2) by auto
    ultimately have "(w, v) \<in> (set (ag_edges g2))\<^sup>+" by (rule trancl_mono)
    then show "before order w v" using resp assms(8,9) by blast
  }
qed

section \<open>The properties\<close>

definition demo_device :: "nat \<Rightarrow> device_class \<Rightarrow> device" where
  "demo_device s c = \<lparr>d_sid = s, d_class = c, d_attrs = []\<rparr>"

text \<open>
  A disk is created with two mounts on it, the second one twice, and a swap space; between the
  disk and the mounts stands a synchronisation point.
\<close>

definition demo_ag :: actiongraph where
  "demo_ag =
     \<lparr>ag_vertices =
        [(0, action_new Create (AffectDevice 42) False False),
         (1, action_new (OtherAction ''sync'') (AffectDevice 43) True False),
         (2, action_new (Mount ''/home'' False) (AffectDevice 45) False False),
         (3, action_new (Mount ''/'' False) (AffectDevice 44) False False),
         (4, action_new (Mount ''/home'' False) (AffectDevice 45) False False),
         (5, action_new (Mount ''swap'' True) (AffectDevice 46) False False),
         (6, action_new (Unmount ''/mnt'' False) (AffectDevice 47) False False),
         (7, action_new (Unmount ''/mnt/a/b'' False) (AffectDevice 48) False False)],
      ag_edges = [(0, 1), (1, 2), (1, 3), (1, 4), (0, 5)], ag_next = 8\<rparr>"

definition demo_deps :: "actiongraph \<Rightarrow> actiongraph result" where
  "demo_deps = add_dependencies Inr Inr Inr"

lemma wf_demo_ag: "wf_ag demo_ag"
  by (simp add: wf_ag_def ag_vs_def demo_ag_def)

lemma demo_adds: "adds_dependencies Inr"
  by standard simp

definition demo_lhs :: devicegraph where
  "demo_lhs = snd (add_vertex (demo_device 48 (C_Device ''MountPoint''))
     (snd (add_vertex (demo_device 47 (C_Device ''MountPoint'')) dg_empty)))"

definition demo_graph_order :: "nat \<Rightarrow> (actiongraph \<times> nat list) result" where
  "demo_graph_order method = generate demo_deps method demo_lhs {} demo_ag"

definition demo_result :: "nat \<Rightarrow> actiongraph \<times> nat list" where
  "demo_result method = (case demo_graph_order method of Inr r \<Rightarrow> r | Inl _ \<Rightarrow> (ag_empty, []))"

lemma demo_generate: "generate demo_deps 1 demo_lhs {} demo_ag = Inr (demo_result 1)"
  by code_simp

lemma demo_generated:
  "generate (add_dependencies Inr Inr Inr) 1 demo_lhs {} demo_ag = Inr (fst (demo_result 1), snd (demo_result 1))"
  using demo_generate by (simp add: demo_deps_def)

definition demo_merged :: actiongraph where
  "demo_merged = (case remove_duplicates demo_ag of Inr g \<Rightarrow> g | Inl _ \<Rightarrow> ag_empty)"

lemma demo_g1: "remove_duplicates demo_ag = Inr demo_merged"
  by code_simp

lemma demo_mounts:
  "map_of (mount_map mount_path (ag_vertices demo_merged)) ''/'' = Some 3"
  "map_of (mount_map mount_path (ag_vertices demo_merged)) ''/home'' = Some 2"
  by code_simp+

lemma demo_unmounts:
  "map_of (mount_map unmount_path (ag_vertices demo_merged)) ''/mnt'' = Some 6"
  "map_of (mount_map unmount_path (ag_vertices demo_merged)) ''/mnt/a/b'' = Some 7"
  by code_simp+

lemma demo_above: "above_path ''/'' ''/home''" "above_path ''/mnt'' ''/mnt/a/b''"
  by (simp_all add: above_path_def)

lemma demo_order: "snd (demo_result 1) = [0, 5, 3, 2, 7, 6]"
  by code_simp

lemma demo_members:
  "3 \<in> set (snd (demo_result 1))" "2 \<in> set (snd (demo_result 1))"
  "6 \<in> set (snd (demo_result 1))" "7 \<in> set (snd (demo_result 1))"
  unfolding demo_order by simp_all

text \<open>C2: In the order of the actions a file system is mounted after every file system it is
  mounted on, also over several levels, whatever dependencies the other classes and actions add.\<close>

theorem mounts_in_order:
  assumes "generate (add_dependencies classes actions dasd) method lhs taboos g = Inr (g', order)"
    and "wf_ag g" and "method < 2"
    and "adds_dependencies classes" and "adds_dependencies actions" and "adds_dependencies dasd"
    and "remove_duplicates g = Inr g1"
    and "map_of (mount_map mount_path (ag_vertices g1)) p = Some v"
    and "map_of (mount_map mount_path (ag_vertices g1)) q = Some w"
    and "above_path p q" and "v \<in> set order" and "w \<in> set order"
  shows "before order v w"
  using mounts_before(1) [OF assms(1-7,11,12,10,8,9)] .

theorem mounts_in_order_witness:
  "above_path ''/'' ''/home'' \<and> before (snd (demo_result 1)) 3 2"
  using mounts_in_order [OF demo_generated wf_demo_ag _ demo_adds demo_adds demo_adds demo_g1
      demo_mounts demo_above(1) demo_members(1,2)] demo_above(1) by simp

text \<open>C30: In the order of the actions a file system is unmounted before every file system it is
  mounted on.\<close>

theorem unmounts_in_order:
  assumes "generate (add_dependencies classes actions dasd) method lhs taboos g = Inr (g', order)"
    and "wf_ag g" and "method < 2"
    and "adds_dependencies classes" and "adds_dependencies actions" and "adds_dependencies dasd"
    and "remove_duplicates g = Inr g1"
    and "map_of (mount_map unmount_path (ag_vertices g1)) p = Some v"
    and "map_of (mount_map unmount_path (ag_vertices g1)) q = Some w"
    and "above_path p q" and "v \<in> set order" and "w \<in> set order"
  shows "before order w v"
  using mounts_before(2) [OF assms(1-7,11,12,10,8,9)] .

theorem unmounts_in_order_witness:
  "above_path ''/mnt'' ''/mnt/a/b'' \<and> before (snd (demo_result 1)) 7 6"
  using unmounts_in_order [OF demo_generated wf_demo_ag _ demo_adds demo_adds demo_adds demo_g1
      demo_unmounts demo_above(2) demo_members(3,4)] demo_above(2) by simp

text \<open>C18: Both ways of sorting return every action exactly once with all dependencies pointing
  forward, or the error that the actiongraph is not a DAG, and that exactly when the dependencies
  have a cycle.\<close>

theorem order_iff_acyclic:
  assumes "wf_ag g" and "method < 2"
  shows "case calculate_order method g of
      Inl e \<Rightarrow> e = NotADag \<and> \<not> acyclic (set (ag_edges g))
    | Inr order \<Rightarrow> acyclic (set (ag_edges g)) \<and> distinct order \<and> set order = set (ag_vs g) \<and>
        (\<forall>(a, b) \<in> set (ag_edges g). before order a b)"
proof (cases "calculate_order method g")
  case (Inl e)
  then show ?thesis using calculate_order_result [OF assms] by simp
next
  case (Inr order)
  then have o: "distinct order" "set order = set (ag_vs g)" "topological (ag_edges g) order"
    "acyclic (set (ag_edges g))" using calculate_order_result [OF assms] by simp_all
  have "before order a b" if "(a, b) \<in> set (ag_edges g)" for a b
    using topological_trancl [OF o(3) r_into_trancl [OF that]] wf_ag_ends [OF assms(1)] o(1,2)
    by (simp add: before_def)
  then show ?thesis using Inr o by auto
qed

theorem order_iff_acyclic_witness:
  "acyclic (set (ag_edges demo_ag)) \<and> \<not> acyclic (set (ag_edges (ag_add_edge 5 0 demo_ag)))"
proof -
  have "calculate_order 0 demo_ag = Inr [7, 6, 0, 5, 1, 4, 3, 2]" by code_simp
  moreover have "calculate_order 1 (ag_add_edge 5 0 demo_ag) = Inl NotADag" by code_simp
  moreover have "wf_ag (ag_add_edge 5 0 demo_ag)"
    by (rule wf_ag_add_edge [OF wf_demo_ag]) (simp_all add: demo_ag_def ag_vs_def)
  ultimately show ?thesis
    using order_iff_acyclic [OF wf_demo_ag, of 0] order_iff_acyclic [of "ag_add_edge 5 0 demo_ag" 1] by simp
qed

text \<open>The sort with priorities takes an action of the highest priority among those whose
  predecessors have all been taken.\<close>

theorem highest_priority_first:
  assumes "wf_ag g" and "calculate_order 1 g = Inr order" and "i < length order"
    and "w \<in> set (ag_vs g)" and "w \<notin> set (take i order)"
    and "\<forall>u. (u, w) \<in> set (ag_edges g) \<longrightarrow> u \<in> set (take i order)"
  shows "priority_at g w \<le> priority_at g (order ! i)"
proof -
  have "order = kahn (ag_edges g) (priority_at g)
      (filter (\<lambda>v. in_degree (ag_edges g) v = 0) (ag_vs g)) (in_degree (ag_edges g)) []"
    using assms(2)
    by (simp add: calculate_order_def prioritised_topological_sort_def Let_def split: if_splits)
  then show ?thesis
    using kahn_result [OF wf_ag_ends [OF assms(1)] wf_agD(1) [OF assms(1)], of "priority_at g"] assms(3-6)
    by blast
qed

text \<open>A cut of the demo graph with priorities: the swap space comes first, then its disk.\<close>

definition demo_prio :: actiongraph where
  "demo_prio = set_priorities demo_ag"

theorem highest_priority_first_witness:
  "priority_at demo_prio 7 \<le> priority_at demo_prio 5"
proof -
  have o: "calculate_order 1 demo_prio = Inr [0, 5, 1, 4, 3, 2, 7, 6]" by code_simp
  have e: "ag_edges demo_prio = [(0, 1), (1, 2), (1, 3), (1, 4), (0, 5)]"
    "ag_vs demo_prio = [0, 1, 2, 3, 4, 5, 6, 7]" "ag_next demo_prio = 8" by code_simp+
  have "wf_ag demo_prio" unfolding wf_ag_def e by simp
  then show ?thesis using highest_priority_first [OF _ o, of 1 7] e by simp
qed

text \<open>Exactly the mounts of swap spaces get the priority 2 and exactly what they depend on, directly
  or not, the priority 1; the dependencies stay as they are.\<close>

theorem priorities_of_swap:
  assumes "wf_ag g" and "\<forall>v \<in> set (ag_vs g). priority_at g v = 0"
  shows "ag_edges (set_priorities g) = ag_edges g \<and>
    (\<forall>w \<in> set (ag_vs g). priority_at (set_priorities g) w =
       (if \<exists>a. (w, a) \<in> set (ag_vertices g) \<and> is_swap_mount a then 2
        else if \<exists>v a. (v, a) \<in> set (ag_vertices g) \<and> is_swap_mount a \<and> (w, v) \<in> (set (ag_edges g))\<^sup>+
        then 1 else 0))"
proof -
  have "raised [] g"
    using assms(2) wf_agD(4) [OF assms(1)] by (auto simp: raised_def)
  moreover have "\<forall>w \<in> set (ag_vs g). priority_at g w = expected_priority g (swap_mounts []) w"
    using assms(2) by (simp add: expected_priority_def swap_mounts_def)
  ultimately have "\<forall>w \<in> set (ag_vs g). priority_at (set_priorities g) w =
      expected_priority g (swap_mounts (ag_vertices g)) w"
    using set_priorities_loop [of g "set (ag_vs g)" g "[]" "ag_vertices g"]
    by (simp add: set_priorities_def Let_def ag_vs_def)
  moreover have "expected_priority g (swap_mounts (ag_vertices g)) w =
      (if \<exists>a. (w, a) \<in> set (ag_vertices g) \<and> is_swap_mount a then 2
       else if \<exists>v a. (v, a) \<in> set (ag_vertices g) \<and> is_swap_mount a \<and> (w, v) \<in> (set (ag_edges g))\<^sup>+
       then 1 else 0)" for w
    unfolding expected_priority_def swap_mounts_def by (auto; blast)
  ultimately show ?thesis using set_priorities_same [of g] by simp
qed

theorem priorities_of_swap_witness:
  "priority_at (set_priorities demo_ag) 5 = 2 \<and> ag_edges (set_priorities demo_ag) = ag_edges demo_ag"
proof -
  have "\<forall>v \<in> set (ag_vs demo_ag). priority_at demo_ag v = 0" by code_simp
  moreover have "\<exists>a. (5, a) \<in> set (ag_vertices demo_ag) \<and> is_swap_mount a"
    by (simp add: demo_ag_def is_swap_mount_def action_new_def)
  moreover have "5 \<in> set (ag_vs demo_ag)" by code_simp
  ultimately show ?thesis using priorities_of_swap [OF wf_demo_ag] by simp
qed

text \<open>C31: Removing the synchronisation points of an acyclic graph succeeds and keeps, between the
  actions that are left, exactly the order they had, also that through the removed points.\<close>

theorem syncs_keep_order:
  assumes "wf_ag g" and "acyclic (set (ag_edges g))"
  shows "\<exists>g'. remove_only_syncs g = Inr g' \<and> wf_ag g' \<and> acyclic (set (ag_edges g')) \<and>
    ag_vertices g' = filter (\<lambda>(v, a). \<not> a_only_sync a) (ag_vertices g) \<and>
    (\<forall>a \<in> set (ag_vs g'). \<forall>b \<in> set (ag_vs g').
       (a, b) \<in> (set (ag_edges g'))\<^sup>+ \<longleftrightarrow> (a, b) \<in> (set (ag_edges g))\<^sup>+)"
proof -
  let ?syncs = "List.map fst (filter (\<lambda>(v, a). a_only_sync a) (ag_vertices g))"
  obtain g' where g': "efold bypass ?syncs g = Inr g'" "acyclic (set (ag_edges g'))"
    using efold_bypass_acyclic [OF assms(2)] by blast
  define S where "S = set ?syncs"
  have wf': "wf_ag g'" and vs: "ag_vertices g' = filter (\<lambda>(w, a). w \<notin> S) (ag_vertices g)"
    and tr: "\<And>a b. a \<notin> S \<Longrightarrow> b \<notin> S \<Longrightarrow>
        (a, b) \<in> (set (ag_edges g'))\<^sup>+ \<longleftrightarrow> (a, b) \<in> (set (ag_edges g))\<^sup>+"
    using efold_bypass [OF g'(1) assms(1)] unfolding S_def by blast+
  have inj: "(v, a) \<in> set (ag_vertices g) \<Longrightarrow> (v, b) \<in> set (ag_vertices g) \<Longrightarrow> a = b" for v a b
    using wf_agD(1) [OF assms(1)] unfolding ag_vs_def by (rule eq_key_imp_eq_value)
  have S: "v \<in> S \<longleftrightarrow> a_only_sync a" if v: "(v, a) \<in> set (ag_vertices g)" for v a
  proof -
    have "v \<in> S \<longleftrightarrow> (\<exists>b. (v, b) \<in> set (ag_vertices g) \<and> a_only_sync b)" unfolding S_def by force
    then show ?thesis using inj [OF v] v by blast
  qed
  have "filter (\<lambda>(w, a). w \<notin> S) (ag_vertices g) =
      filter (\<lambda>(v, a). \<not> a_only_sync a) (ag_vertices g)"
    by (rule filter_cong [OF refl]) (use S in force)
  then have vs': "ag_vertices g' = filter (\<lambda>(v, a). \<not> a_only_sync a) (ag_vertices g)" using vs by simp
  have left: "v \<notin> S" if "v \<in> set (ag_vs g')" for v
    using that unfolding ag_vs_def vs by auto
  have "\<forall>a \<in> set (ag_vs g'). \<forall>b \<in> set (ag_vs g').
      (a, b) \<in> (set (ag_edges g'))\<^sup>+ \<longleftrightarrow> (a, b) \<in> (set (ag_edges g))\<^sup>+"
    using tr left by blast
  then show ?thesis
    using g' wf' vs' unfolding remove_only_syncs_def by blast
qed

theorem syncs_keep_order_witness:
  "\<exists>g'. remove_only_syncs demo_ag = Inr g' \<and> (0, 2) \<in> (set (ag_edges g'))\<^sup>+"
proof -
  have "calculate_order 0 demo_ag = Inr [7, 6, 0, 5, 1, 4, 3, 2]" by code_simp
  then have "acyclic (set (ag_edges demo_ag))" using calculate_order_result [OF wf_demo_ag, of 0] by simp
  from syncs_keep_order [OF wf_demo_ag this] obtain g' where
    g': "remove_only_syncs demo_ag = Inr g'"
      "ag_vertices g' = filter (\<lambda>(v, a). \<not> a_only_sync a) (ag_vertices demo_ag)"
    and order: "\<forall>a \<in> set (ag_vs g'). \<forall>b \<in> set (ag_vs g').
       (a, b) \<in> (set (ag_edges g'))\<^sup>+ \<longleftrightarrow> (a, b) \<in> (set (ag_edges demo_ag))\<^sup>+" by blast
  have "0 \<in> set (ag_vs g')" "2 \<in> set (ag_vs g')"
    unfolding ag_vs_def g'(2) by (simp_all add: demo_ag_def action_new_def)
  moreover have "(0, 1) \<in> set (ag_edges demo_ag)" "(1, 2) \<in> set (ag_edges demo_ag)"
    by (simp_all add: demo_ag_def)
  then have "(0, 2) \<in> (set (ag_edges demo_ag))\<^sup>+" by (meson r_into_trancl' trancl_into_trancl)
  ultimately show ?thesis using g'(1) order by blast
qed

text \<open>C34: Merging the duplicate mounts uses a vertex after it was removed, which is undefined
  behaviour, exactly when one mount point has three mounts (unmounts). Otherwise it leaves no two
  mounts (unmounts) of the same mount point, with all dependencies of the removed actions moved to
  the kept one.\<close>

theorem duplicates_merged:
  assumes "wf_ag g"
  shows "case remove_duplicates g of
      Inl e \<Rightarrow> e = UndefinedBehaviour \<and> three_of_a_kind g
    | Inr g' \<Rightarrow> \<not> three_of_a_kind g \<and> wf_ag g' \<and> set (ag_vertices g') \<subseteq> set (ag_vertices g) \<and>
        (\<forall>v w. \<not> duplicates g' v w) \<and>
        (\<exists>r. set (ag_edges g') = map_prod r r ` set (ag_edges g) \<and>
           (\<forall>v. r v = v \<or> duplicates g v (r v)))"
  using remove_duplicates_three [OF assms] remove_duplicates_no_three [OF assms] remove_duplicates_Inr [OF assms]
  by (cases "remove_duplicates g") simp_all

definition demo_three :: actiongraph where
  "demo_three =
     \<lparr>ag_vertices =
        [(0, action_new (Mount ''/a'' False) (AffectDevice 42) False False),
         (1, action_new (Mount ''/a'' False) (AffectDevice 42) False False),
         (2, action_new (Mount ''/a'' False) (AffectDevice 42) False False)],
      ag_edges = [], ag_next = 3\<rparr>"

theorem duplicates_merged_witness:
  "three_of_a_kind demo_three \<and> remove_duplicates demo_three = Inl UndefinedBehaviour \<and>
   (\<forall>v w. \<not> duplicates demo_merged v w)"
proof -
  have "wf_ag demo_three" by (simp add: wf_ag_def ag_vs_def demo_three_def)
  moreover have "remove_duplicates demo_three = Inl UndefinedBehaviour" by code_simp
  ultimately show ?thesis
    using duplicates_merged [of demo_three] duplicates_merged [OF wf_demo_ag] demo_g1 by simp
qed

text \<open>The parent of a mount point is the longest path above it that is a mount point, at every
  directory level; there is none exactly when no path above it is one.\<close>

theorem mount_parent_nearest:
  "case find_mount_parent m q of
     None \<Rightarrow> \<forall>p. above_path p q \<longrightarrow> map_of m p = None
   | Some v \<Rightarrow> \<exists>p. above_path p q \<and> map_of m p = Some v \<and>
       (\<forall>p'. above_path p' q \<longrightarrow> length p < length p' \<longrightarrow> map_of m p' = None)"
  by (rule find_mount_parent_nearest)

theorem mount_parent_nearest_witness:
  "find_mount_parent [(''/'', 1), (''/var'', 2)] ''/var/log/x'' = Some 2 \<and>
   map_of [(''/'', 1 :: nat), (''/var'', 2)] ''/var/log'' = None"
proof -
  have "find_mount_parent [(''/'', 1), (''/var'', 2)] ''/var/log/x'' = Some 2" by code_simp
  moreover have "above_path ''/var/log'' ''/var/log/x''" by (simp add: above_path_def)
  moreover obtain p where "above_path p ''/var/log/x''" "map_of [(''/'', 1 :: nat), (''/var'', 2)] p = Some 2"
    "\<And>p'. above_path p' ''/var/log/x'' \<Longrightarrow> length p < length p' \<Longrightarrow>
       map_of [(''/'', 1 :: nat), (''/var'', 2)] p' = None"
    using mount_parent_nearest [where m = "[(''/'', 1), (''/var'', 2)]" and q = "''/var/log/x''"]
      calculation(1) by auto
  moreover from this(2) have "p = ''/var''" by (simp split: if_splits)
  ultimately show ?thesis by simp
qed

end
