(* ===== verification/DependencyManager.thy ===== *)
theory DependencyManager
  imports ActionOrder
begin

text \<open>
  The dependency manager of the partition tables (\<open>PartitionTable::Impl::run_dependency_manager\<close>
  in storage/Devices/PartitionTableImpl.cc): all actions on the partitions of one partition table
  are put into one chain. Parameters are the partitions of the two devicegraphs: the sid of the
  partition table and the number of the partition with a given sid.
\<close>

section \<open>The actions on a partition table\<close>

type_synonym partitions = "nat \<Rightarrow> (nat \<times> u32) option"

datatype pt_kind = Pt_Repair | Pt_Shrink | Pt_Delete | Pt_RenameIn | Pt_Create | Pt_Grow

definition table_of :: "partitions \<Rightarrow> nat \<Rightarrow> nat option" where
  "table_of ps sid = map_option fst (ps sid)"

definition number_of :: "partitions \<Rightarrow> nat \<Rightarrow> u32" where
  "number_of ps sid = (case ps sid of Some (t, n) \<Rightarrow> n | None \<Rightarrow> 0)"

text \<open>\<open>to_partition\<close> of a renamed device that is not a partition throws.\<close>

definition pt_action ::
  "partitions \<Rightarrow> partitions \<Rightarrow> nat set \<Rightarrow> action \<Rightarrow> (nat \<times> pt_kind) option result" where
  "pt_action lhs rhs tables a =
     (if \<not> affects_device a then Inr None
      else if is_create a then Inr (map_option (\<lambda>t. (t, Pt_Create)) (table_of rhs (a_sid a)))
      else if is_delete a then Inr (map_option (\<lambda>t. (t, Pt_Delete)) (table_of lhs (a_sid a)))
      else case a_kind a of
        Resize grow \<Rightarrow>
          Inr (map_option (\<lambda>t. (t, if grow then Pt_Grow else Pt_Shrink)) (table_of rhs (a_sid a)))
      | RenameIn sid \<Rightarrow>
          (case table_of rhs sid of
             Some t \<Rightarrow> Inr (Some (t, Pt_RenameIn))
           | None \<Rightarrow> Inl (Exn ''device has wrong type''))
      | Repair \<Rightarrow> Inr (if a_sid a \<in> tables then Some (a_sid a, Pt_Repair) else None)
      | _ \<Rightarrow> Inr None)"

fun pt_actions ::
  "partitions \<Rightarrow> partitions \<Rightarrow> nat set \<Rightarrow> (nat \<times> action) list \<Rightarrow>
   (nat \<times> action \<times> nat \<times> pt_kind) list result" where
  "pt_actions lhs rhs tables [] = Inr []"
| "pt_actions lhs rhs tables ((v, a) # vs) =
     ebind (pt_action lhs rhs tables a) (\<lambda>k.
       emap (\<lambda>r. case k of Some (t, kind) \<Rightarrow> (v, a, t, kind) # r | None \<Rightarrow> r)
         (pt_actions lhs rhs tables vs))"

section \<open>The order within a partition table\<close>

text \<open>
  The keys: numbers are unsigned, and the second one is converted from unsigned to signed as it is
  returned.
\<close>

definition key1 :: "partitions \<Rightarrow> action \<Rightarrow> u32" where
  "key1 lhs a = number_of lhs (a_sid a)"

definition key2 :: "partitions \<Rightarrow> partitions \<Rightarrow> action \<Rightarrow> int" where
  "key2 lhs rhs a =
     (case a_kind a of
        RenameIn sid \<Rightarrow>
          (let number_lhs = number_of lhs sid; number_rhs = number_of rhs sid
           in sint (if number_rhs < number_lhs then number_rhs else - number_lhs))
      | _ \<Rightarrow> 0)"

definition key3 :: "partitions \<Rightarrow> action \<Rightarrow> u32" where
  "key3 rhs a = number_of rhs (a_sid a)"

text \<open>
  \<open>sort_by_key\<close> is stable; deleted partitions are taken from the last one to the first one.
\<close>

definition pt_chain ::
  "partitions \<Rightarrow> partitions \<Rightarrow> (nat \<times> action \<times> nat \<times> pt_kind) list \<Rightarrow> nat \<Rightarrow> (nat \<times> action) list" where
  "pt_chain lhs rhs acts t =
     (let of_kind = (\<lambda>k. List.map (\<lambda>(v, a, t, k). (v, a)) (filter (\<lambda>(v, a, t', k'). t' = t \<and> k' = k) acts))
      in of_kind Pt_Repair
       @ sort_key (\<lambda>(v, a). key1 lhs a) (of_kind Pt_Shrink)
       @ rev (sort_key (\<lambda>(v, a). key1 lhs a) (of_kind Pt_Delete))
       @ sort_key (\<lambda>(v, a). key2 lhs rhs a) (of_kind Pt_RenameIn)
       @ sort_key (\<lambda>(v, a). key3 rhs a) (of_kind Pt_Create)
       @ sort_key (\<lambda>(v, a). key3 rhs a) (of_kind Pt_Grow))"

definition tables_with_actions :: "(nat \<times> action \<times> nat \<times> pt_kind) list \<Rightarrow> nat list" where
  "tables_with_actions acts = sorted_list_of_set ((\<lambda>(v, a, t, k). t) ` set acts)"

definition run_dependency_manager ::
  "partitions \<Rightarrow> partitions \<Rightarrow> nat set \<Rightarrow> actiongraph \<Rightarrow> actiongraph result" where
  "run_dependency_manager lhs rhs tables g =
     emap (\<lambda>acts. fold (\<lambda>t. add_chain_vertices (List.map fst (pt_chain lhs rhs acts t)))
         (tables_with_actions acts) g)
       (pt_actions lhs rhs tables (ag_vertices g))"

text \<open>The last action on each partition table that is still there, for the special case for DASD.\<close>

definition last_action_on_partition_table ::
  "partitions \<Rightarrow> partitions \<Rightarrow> (nat \<Rightarrow> bool) \<Rightarrow> (nat \<times> action \<times> nat \<times> pt_kind) list \<Rightarrow> nat \<Rightarrow> nat option" where
  "last_action_on_partition_table lhs rhs exists_rhs acts t =
     (if t \<in> set (tables_with_actions acts) \<and> exists_rhs t
      then Some (fst (last (pt_chain lhs rhs acts t))) else None)"

section \<open>Every pair of actions of a table is ordered\<close>

lemma set_pt_actions:
  assumes "pt_actions lhs rhs tables vs = Inr acts"
  shows "(v, a, t, k) \<in> set acts \<longleftrightarrow> (v, a) \<in> set vs \<and> pt_action lhs rhs tables a = Inr (Some (t, k))"
  using assms
  by (induction lhs rhs tables vs arbitrary: acts rule: pt_actions.induct)
    (auto simp: result_simps split: option.splits)

lemma set_pt_chain:
  "(v, a) \<in> set (pt_chain lhs rhs acts t) \<longleftrightarrow> (\<exists>k. (v, a, t, k) \<in> set acts)"
proof -
  have "(\<exists>k. (v, a, t, k) \<in> set acts) \<longleftrightarrow> (v, a, t, Pt_Repair) \<in> set acts \<or> (v, a, t, Pt_Shrink) \<in> set acts \<or>
      (v, a, t, Pt_Delete) \<in> set acts \<or> (v, a, t, Pt_RenameIn) \<in> set acts \<or>
      (v, a, t, Pt_Create) \<in> set acts \<or> (v, a, t, Pt_Grow) \<in> set acts"
    by (metis pt_kind.exhaust)
  moreover have "(v, a) \<in> set (List.map (\<lambda>(v, a, t, k). (v, a)) (filter (\<lambda>(v, a, t', k'). t' = t \<and> k' = k) acts))
      \<longleftrightarrow> (v, a, t, k) \<in> set acts" for k by force
  ultimately show ?thesis unfolding pt_chain_def Let_def by simp
qed

lemma add_chain_vertices_edges:
  "ag_vertices (add_chain_vertices vs g) = ag_vertices g \<and> ag_next (add_chain_vertices vs g) = ag_next g \<and>
   set (ag_edges (add_chain_vertices vs g)) =
     set (ag_edges g) \<union> {(vs ! i, vs ! Suc i) | i. Suc i < length vs}"
proof (induction vs g rule: add_chain_vertices.induct)
  case (1 v w vs g)
  have "{((v # w # vs) ! i, (v # w # vs) ! Suc i) | i. Suc i < length (v # w # vs)} =
      insert (v, w) {((w # vs) ! i, (w # vs) ! Suc i) | i. Suc i < length (w # vs)}"
    (is "?l = ?r")
  proof
    show "?l \<subseteq> ?r"
    proof
      fix x assume "x \<in> ?l"
      then obtain i where "x = ((v # w # vs) ! i, (v # w # vs) ! Suc i)" "Suc i < length (v # w # vs)" by blast
      then show "x \<in> ?r" by (cases i) auto
    qed
    show "?r \<subseteq> ?l" by (auto intro: exI [of _ 0] exI [of _ "Suc _"])
  qed
  then show ?case using 1 by simp
qed simp_all

text \<open>Of two members of a chain the first one reaches the second one.\<close>

lemma chain_trancl:
  assumes "{(vs ! i, vs ! Suc i) | i. Suc i < length vs} \<subseteq> E" and "i < j" and "j < length vs"
  shows "(vs ! i, vs ! j) \<in> E\<^sup>+"
  using assms(2,3)
proof (induction j)
  case 0
  then show ?case by simp
next
  case (Suc j)
  have e: "(vs ! j, vs ! Suc j) \<in> E" using assms(1) Suc.prems(2) by blast
  show ?case
  proof (cases "i = j")
    case True
    then show ?thesis using e by blast
  next
    case False
    then have "(vs ! i, vs ! j) \<in> E\<^sup>+" using Suc by simp
    then show ?thesis using e by (rule trancl_into_trancl)
  qed
qed

definition occurs_before :: "'a \<Rightarrow> 'a \<Rightarrow> 'a list \<Rightarrow> bool" where
  "occurs_before x y xs \<longleftrightarrow> (\<exists>i j. i < j \<and> j < length xs \<and> xs ! i = x \<and> xs ! j = y)"

lemma occurs_before_append:
  "occurs_before x y xs \<Longrightarrow> occurs_before x y (xs @ ys)"
  "occurs_before x y ys \<Longrightarrow> occurs_before x y (xs @ ys)"
  "x \<in> set xs \<Longrightarrow> y \<in> set ys \<Longrightarrow> occurs_before x y (xs @ ys)"
proof -
  show "occurs_before x y xs \<Longrightarrow> occurs_before x y (xs @ ys)"
    unfolding occurs_before_def by (metis length_append less_trans nth_append trans_less_add1)
  {
    assume "occurs_before x y ys"
    then obtain i j where "i < j" "j < length ys" "ys ! i = x" "ys ! j = y"
      unfolding occurs_before_def by blast
    then show "occurs_before x y (xs @ ys)"
      unfolding occurs_before_def
      by (intro exI [of _ "length xs + i"] exI [of _ "length xs + j"]) simp
  next
    assume "x \<in> set xs" and "y \<in> set ys"
    then obtain i j where "i < length xs" "xs ! i = x" "j < length ys" "ys ! j = y"
      by (auto simp: in_set_conv_nth)
    then show "occurs_before x y (xs @ ys)"
      unfolding occurs_before_def
      by (intro exI [of _ i] exI [of _ "length xs + j"]) (simp add: nth_append)
  }
qed

lemma occurs_before_rev: "occurs_before x y xs \<Longrightarrow> occurs_before y x (rev xs)"
proof -
  assume "occurs_before x y xs"
  then obtain i j where ij: "i < j" "j < length xs" "xs ! i = x" "xs ! j = y"
    unfolding occurs_before_def by blast
  then show "occurs_before y x (rev xs)"
    unfolding occurs_before_def
    by (intro exI [of _ "length xs - Suc j"] exI [of _ "length xs - Suc i"]) (auto simp: rev_nth)
qed

lemma occurs_before_sort_key:
  fixes f :: "'a \<Rightarrow> 'b::linorder"
  assumes "x \<in> set xs" and "y \<in> set xs" and "f x < f y"
  shows "occurs_before x y (sort_key f xs)"
proof -
  let ?s = "sort_key f xs"
  obtain i j where ij: "i < length ?s" "?s ! i = x" "j < length ?s" "?s ! j = y"
    using assms(1,2) by (metis in_set_conv_nth set_sort)
  have "i < j"
  proof (rule ccontr)
    assume "\<not> i < j"
    then have "f (?s ! j) \<le> f (?s ! i)"
      using sorted_nth_mono [of "List.map f ?s" j i] ij(1,3) by simp
    then show False using ij assms(3) by simp
  qed
  then show ?thesis using ij unfolding occurs_before_def by blast
qed

fun rank :: "pt_kind \<Rightarrow> nat" where
  "rank Pt_Repair = 0"
| "rank Pt_Shrink = 1"
| "rank Pt_Delete = 2"
| "rank Pt_RenameIn = 3"
| "rank Pt_Create = 4"
| "rank Pt_Grow = 5"

text \<open>
  The order that is wanted: repair, shrink, delete from the last partition to the first, rename,
  create and grow, each from the first partition to the last. Numbers that go down are renamed from
  the lowest new number on, before those that go up, from the highest old number on.
\<close>

definition pt_precedes ::
  "partitions \<Rightarrow> partitions \<Rightarrow> action \<times> pt_kind \<Rightarrow> action \<times> pt_kind \<Rightarrow> bool" where
  "pt_precedes lhs rhs x y =
     (case (x, y) of ((a, k), (b, l)) \<Rightarrow>
        rank k < rank l \<or>
        k = l \<and> (case k of
            Pt_Repair \<Rightarrow> False
          | Pt_Shrink \<Rightarrow> key1 lhs a < key1 lhs b
          | Pt_Delete \<Rightarrow> key1 lhs b < key1 lhs a
          | Pt_RenameIn \<Rightarrow> key2 lhs rhs a < key2 lhs rhs b
          | Pt_Create \<Rightarrow> key3 rhs a < key3 rhs b
          | Pt_Grow \<Rightarrow> key3 rhs a < key3 rhs b))"

lemma pt_chain_order:
  assumes "(v, a, t, k) \<in> set acts" and "(w, b, t, l) \<in> set acts" and "pt_precedes lhs rhs (a, k) (b, l)"
  shows "occurs_before (v, a) (w, b) (pt_chain lhs rhs acts t)"
proof -
  define xs where "xs k = List.map (\<lambda>(v, a, t, k). (v, a)) (filter (\<lambda>(v, a, t', k'). t' = t \<and> k' = k) acts)" for k
  have mem: "(v, a) \<in> set (xs k)" "(w, b) \<in> set (xs l)" using assms(1,2) by (force simp: xs_def)+
  have eq: "pt_chain lhs rhs acts t =
      xs Pt_Repair @ sort_key (\<lambda>(v, a). key1 lhs a) (xs Pt_Shrink) @
      rev (sort_key (\<lambda>(v, a). key1 lhs a) (xs Pt_Delete)) @
      sort_key (\<lambda>(v, a). key2 lhs rhs a) (xs Pt_RenameIn) @
      sort_key (\<lambda>(v, a). key3 rhs a) (xs Pt_Create) @ sort_key (\<lambda>(v, a). key3 rhs a) (xs Pt_Grow)"
    by (simp add: pt_chain_def xs_def)
  show ?thesis
  proof (cases "rank k < rank l")
    case True
    then show ?thesis
      using mem unfolding eq
      by (cases k; cases l) (simp_all add: occurs_before_append)
  next
    case False
    then have kl: "k = l" using assms(3) by (simp add: pt_precedes_def)
    show ?thesis
    proof (cases k)
      case Pt_Repair
      then show ?thesis using assms(3) kl False by (simp add: pt_precedes_def)
    next
      case Pt_Shrink
      then have "occurs_before (v, a) (w, b) (sort_key (\<lambda>(v, a). key1 lhs a) (xs Pt_Shrink))"
        using mem assms(3) kl by (intro occurs_before_sort_key) (simp_all add: pt_precedes_def)
      then show ?thesis unfolding eq by (simp add: occurs_before_append)
    next
      case Pt_Delete
      then have "occurs_before (w, b) (v, a) (sort_key (\<lambda>(v, a). key1 lhs a) (xs Pt_Delete))"
        using mem assms(3) kl by (intro occurs_before_sort_key) (simp_all add: pt_precedes_def)
      from occurs_before_rev [OF this] show ?thesis unfolding eq by (simp add: occurs_before_append)
    next
      case Pt_RenameIn
      then have "occurs_before (v, a) (w, b) (sort_key (\<lambda>(v, a). key2 lhs rhs a) (xs Pt_RenameIn))"
        using mem assms(3) kl by (intro occurs_before_sort_key) (simp_all add: pt_precedes_def)
      then show ?thesis unfolding eq by (simp add: occurs_before_append)
    next
      case Pt_Create
      then have "occurs_before (v, a) (w, b) (sort_key (\<lambda>(v, a). key3 rhs a) (xs Pt_Create))"
        using mem assms(3) kl by (intro occurs_before_sort_key) (simp_all add: pt_precedes_def)
      then show ?thesis unfolding eq by (simp add: occurs_before_append)
    next
      case Pt_Grow
      then have "occurs_before (v, a) (w, b) (sort_key (\<lambda>(v, a). key3 rhs a) (xs Pt_Grow))"
        using mem assms(3) kl by (intro occurs_before_sort_key) (simp_all add: pt_precedes_def)
      then show ?thesis unfolding eq by (simp add: occurs_before_append)
    qed
  qed
qed

lemma fold_chains:
  "ag_vertices (fold (\<lambda>t. add_chain_vertices (f t)) ts g) = ag_vertices g \<and>
   ag_next (fold (\<lambda>t. add_chain_vertices (f t)) ts g) = ag_next g \<and>
   set (ag_edges (fold (\<lambda>t. add_chain_vertices (f t)) ts g)) =
     set (ag_edges g) \<union> (\<Union>t \<in> set ts. {(f t ! i, f t ! Suc i) | i. Suc i < length (f t)})"
proof (induction ts arbitrary: g)
  case Nil
  then show ?case by simp
next
  case (Cons t ts)
  show ?case
    using Cons.IH [of "add_chain_vertices (f t) g"] add_chain_vertices_edges [of "f t" g] by auto
qed

lemma run_dependency_manager_spec:
  assumes "run_dependency_manager lhs rhs tables g = Inr g'"
  obtains acts where "pt_actions lhs rhs tables (ag_vertices g) = Inr acts"
    and "ag_vertices g' = ag_vertices g" and "ag_next g' = ag_next g"
    and "set (ag_edges g') = set (ag_edges g) \<union>
      (\<Union>t \<in> set (tables_with_actions acts).
        {(List.map fst (pt_chain lhs rhs acts t) ! i, List.map fst (pt_chain lhs rhs acts t) ! Suc i) | i.
          Suc i < length (List.map fst (pt_chain lhs rhs acts t))})"
proof -
  obtain acts where acts: "pt_actions lhs rhs tables (ag_vertices g) = Inr acts"
    and g': "g' = fold (\<lambda>t. add_chain_vertices (List.map fst (pt_chain lhs rhs acts t)))
         (tables_with_actions acts) g"
    using assms by (auto simp: run_dependency_manager_def result_simps)
  show thesis
    using fold_chains [of "\<lambda>t. List.map fst (pt_chain lhs rhs acts t)" "tables_with_actions acts" g]
    unfolding g' [symmetric] by (intro that [OF acts]) blast+
qed

interpretation manager: adds_dependencies "run_dependency_manager lhs rhs tables" for lhs rhs tables
proof
  fix g g' assume "run_dependency_manager lhs rhs tables g = Inr g'"
  then obtain acts where acts: "pt_actions lhs rhs tables (ag_vertices g) = Inr acts"
    and vs: "ag_vertices g' = ag_vertices g" "ag_next g' = ag_next g"
    and es: "set (ag_edges g') = set (ag_edges g) \<union>
      (\<Union>t \<in> set (tables_with_actions acts).
        {(List.map fst (pt_chain lhs rhs acts t) ! i, List.map fst (pt_chain lhs rhs acts t) ! Suc i) | i.
          Suc i < length (List.map fst (pt_chain lhs rhs acts t))})"
    by (rule run_dependency_manager_spec)
  have sub: "List.map fst (pt_chain lhs rhs acts t) ! i \<in> set (ag_vs g)"
    if i: "i < length (pt_chain lhs rhs acts t)" for t i
  proof -
    obtain v a where va: "pt_chain lhs rhs acts t ! i = (v, a)" by fastforce
    then have "(v, a) \<in> set (pt_chain lhs rhs acts t)" using nth_mem [OF i] by simp
    then show ?thesis
      using va i set_pt_actions [OF acts] unfolding set_pt_chain by (force simp: ag_vs_def)
  qed
  have "a \<in> set (ag_vs g) \<and> b \<in> set (ag_vs g)"
    if "(a, b) \<in> set (ag_edges g')" "(a, b) \<notin> set (ag_edges g)" for a b
    using that sub unfolding es by auto
  then show "extends g g'" unfolding extends_def vs es by auto
qed

lemma manager_orders:
  assumes "run_dependency_manager lhs rhs tables g = Inr g'"
    and "(v, a) \<in> set (ag_vertices g)" and "pt_action lhs rhs tables a = Inr (Some (t, k))"
    and "(w, b) \<in> set (ag_vertices g)" and "pt_action lhs rhs tables b = Inr (Some (t, l))"
    and "pt_precedes lhs rhs (a, k) (b, l)"
  shows "(v, w) \<in> (set (ag_edges g'))\<^sup>+"
proof -
  obtain acts where acts: "pt_actions lhs rhs tables (ag_vertices g) = Inr acts"
    and es: "set (ag_edges g') = set (ag_edges g) \<union>
      (\<Union>t \<in> set (tables_with_actions acts).
        {(List.map fst (pt_chain lhs rhs acts t) ! i, List.map fst (pt_chain lhs rhs acts t) ! Suc i) | i.
          Suc i < length (List.map fst (pt_chain lhs rhs acts t))})"
    by (rule run_dependency_manager_spec [OF assms(1)])
  have mem: "(v, a, t, k) \<in> set acts" "(w, b, t, l) \<in> set acts"
    using assms(2-5) by (simp_all add: set_pt_actions [OF acts])
  then have "t \<in> set (tables_with_actions acts)" by (force simp: tables_with_actions_def)
  then have "{(List.map fst (pt_chain lhs rhs acts t) ! i, List.map fst (pt_chain lhs rhs acts t) ! Suc i) | i.
          Suc i < length (List.map fst (pt_chain lhs rhs acts t))} \<subseteq> set (ag_edges g')"
    unfolding es by blast
  moreover obtain i j where "i < j" "j < length (pt_chain lhs rhs acts t)"
    "pt_chain lhs rhs acts t ! i = (v, a)" "pt_chain lhs rhs acts t ! j = (w, b)"
    using pt_chain_order [OF mem assms(6)] unfolding occurs_before_def by blast
  ultimately show ?thesis
    using chain_trancl [of "List.map fst (pt_chain lhs rhs acts t)" "set (ag_edges g')" i j] by simp
qed

text \<open>C3: On every partition table the actions are carried out in this order: repair the table,
  shrink partitions, delete partitions from the highest number down, rename, create and grow from
  the lowest number up.\<close>

theorem partition_actions_in_order:
  assumes gen: "generate (add_dependencies (run_dependency_manager lhs rhs tables) actions dasd)
      method lhs_graph taboos g = Inr (g', order)"
    and wf: "wf_ag g" "method < 2"
    and adds: "adds_dependencies actions" "adds_dependencies dasd"
    and g1: "remove_duplicates g = Inr g1"
    and "(v, a) \<in> set (ag_vertices g1)" and "pt_action lhs rhs tables a = Inr (Some (t, k))"
    and "(w, b) \<in> set (ag_vertices g1)" and "pt_action lhs rhs tables b = Inr (Some (t, l))"
    and "pt_precedes lhs rhs (a, k) (b, l)" and "v \<in> set order" and "w \<in> set order"
  shows "before order v w"
proof (rule generate_respects [OF gen wf add_dependencies_adds [OF manager.adds_dependencies_axioms adds]])
  fix h1 h2
  assume h: "remove_duplicates g = Inr h1"
      "add_dependencies (run_dependency_manager lhs rhs tables) actions dasd h1 = Inr h2"
    and r: "\<And>a b. a \<in> set order \<Longrightarrow> b \<in> set order \<Longrightarrow> (a, b) \<in> (set (ag_edges h2))\<^sup>+ \<Longrightarrow> before order a b"
  obtain i j where i: "run_dependency_manager lhs rhs tables g1 = Inr i" and j: "actions i = Inr j"
    and h2: "dasd (add_mount_dependencies j) = Inr h2"
    using h g1 by (auto simp: add_dependencies_def result_simps)
  have "(v, w) \<in> (set (ag_edges i))\<^sup>+" by (rule manager_orders [OF i assms(7-11)])
  then have "(v, w) \<in> (set (ag_edges j))\<^sup>+" by (rule adds_dependencies.keeps_order [OF adds(1) j])
  then have "(v, w) \<in> (set (ag_edges (add_mount_dependencies j)))\<^sup>+"
    by (rule mounts.keeps_order [OF refl])
  then have "(v, w) \<in> (set (ag_edges h2))\<^sup>+" by (rule adds_dependencies.keeps_order [OF adds(2) h2])
  then show ?thesis using r assms(12,13) by blast
qed

text \<open>Two logical partitions are deleted, a new one with the number of the first one is created.\<close>

definition demo_lhs_parts :: partitions where
  "demo_lhs_parts sid = (if sid = 50 then Some (40, 5) else if sid = 51 then Some (40, 6) else None)"

definition demo_rhs_parts :: partitions where
  "demo_rhs_parts sid = (if sid = 52 then Some (40, 5) else None)"

definition demo_parts_graph :: devicegraph where
  "demo_parts_graph = snd (add_vertex (demo_device 51 (C_Device ''Partition''))
     (snd (add_vertex (demo_device 50 (C_Device ''Partition'')) dg_empty)))"

definition demo_parts_ag :: actiongraph where
  "demo_parts_ag =
     \<lparr>ag_vertices =
        [(0, action_new Create (AffectDevice 52) False False),
         (1, action_new Delete (AffectDevice 50) False False),
         (2, action_new Delete (AffectDevice 51) False False)],
      ag_edges = [], ag_next = 3\<rparr>"

definition demo_parts_order :: "actiongraph \<times> nat list" where
  "demo_parts_order =
     (case generate (add_dependencies (run_dependency_manager demo_lhs_parts demo_rhs_parts {}) Inr Inr)
        0 demo_parts_graph {} demo_parts_ag of Inr r \<Rightarrow> r | Inl _ \<Rightarrow> (ag_empty, []))"

theorem partition_actions_in_order_witness:
  "before (snd demo_parts_order) 2 1 \<and> before (snd demo_parts_order) 1 0"
proof -
  have gen: "generate (add_dependencies (run_dependency_manager demo_lhs_parts demo_rhs_parts {}) Inr Inr)
        0 demo_parts_graph {} demo_parts_ag = Inr (fst demo_parts_order, snd demo_parts_order)"
    by code_simp
  have wf: "wf_ag demo_parts_ag" by (simp add: wf_ag_def ag_vs_def demo_parts_ag_def)
  have dup: "remove_duplicates demo_parts_ag = Inr demo_parts_ag" by code_simp
  have o: "snd demo_parts_order = [2, 1, 0]" by code_simp
  let ?a = "\<lambda>k sid. action_new k (AffectDevice sid) False False"
  have mem: "(0, ?a Create 52) \<in> set (ag_vertices demo_parts_ag)"
    "(1, ?a Delete 50) \<in> set (ag_vertices demo_parts_ag)"
    "(2, ?a Delete 51) \<in> set (ag_vertices demo_parts_ag)"
    by (simp_all add: demo_parts_ag_def)
  have act: "pt_action demo_lhs_parts demo_rhs_parts {} (?a Create 52) = Inr (Some (40, Pt_Create))"
    "pt_action demo_lhs_parts demo_rhs_parts {} (?a Delete 50) = Inr (Some (40, Pt_Delete))"
    "pt_action demo_lhs_parts demo_rhs_parts {} (?a Delete 51) = Inr (Some (40, Pt_Delete))"
    by code_simp+
  have prec: "pt_precedes demo_lhs_parts demo_rhs_parts (?a Delete 51, Pt_Delete) (?a Delete 50, Pt_Delete)"
    "pt_precedes demo_lhs_parts demo_rhs_parts (?a Delete 50, Pt_Delete) (?a Create 52, Pt_Create)"
    by code_simp+
  show ?thesis
    using partition_actions_in_order [OF gen wf _ demo_adds demo_adds dup mem(3) act(3) mem(2) act(2) prec(1)]
      partition_actions_in_order [OF gen wf _ demo_adds demo_adds dup mem(2) act(2) mem(1) act(1) prec(2)]
    by (simp add: o)
qed

end
