(* ===== verification/ResizeActions.thy ===== *)
theory ResizeActions
  imports BlkFilesystems DependencyManager
begin

text \<open>
  The actions of a resize (\<open>BlkDevice::Impl::add_modify_actions\<close> in storage/Devices/BlkDeviceImpl.cc):
  with a partition or a logical volume everything on it is resized, in one chain with the unmount
  and the mount of its filesystem.
\<close>

section \<open>Classes of devices\<close>

definition blk_device_classes :: "string list" where
  "blk_device_classes =
     [''Bcache'', ''BitlockerV2'', ''Dasd'', ''Disk'', ''DmRaid'', ''Encryption'', ''Luks'', ''Md'',
      ''MdContainer'', ''MdMember'', ''Multipath'', ''Partition'', ''PlainEncryption'', ''StrayBlkDevice'']"

definition is_blk_device :: "device_class \<Rightarrow> bool" where
  "is_blk_device c = (case c of C_LvmLv _ \<Rightarrow> True | C_Device n \<Rightarrow> List.member blk_device_classes n | _ \<Rightarrow> False)"

definition is_md :: "device_class \<Rightarrow> bool" where
  "is_md c = (case c of C_Device n \<Rightarrow> List.member [''Md'', ''MdContainer'', ''MdMember''] n | _ \<Rightarrow> False)"

definition is_lvm_pv :: "device_class \<Rightarrow> bool" where
  "is_lvm_pv c = (c = C_Device ''LvmPv'')"

text \<open>The type of the filesystem a class of devices is, and its class.\<close>

definition fs_type_named :: "device_class \<Rightarrow> fs_type option" where
  "fs_type_named c =
     (case c of
        C_Btrfs \<Rightarrow> Some BTRFS
      | C_Device n \<Rightarrow>
          map_of [(''Bcachefs'', BCACHEFS), (''Bitlocker'', BITLOCKER), (''Erofs'', EROFS1), (''Exfat'', EXFAT),
            (''Ext2'', EXT2), (''Ext3'', EXT3), (''Ext4'', EXT4), (''F2fs'', F2FS), (''Iso9660'', ISO9660),
            (''Jfs'', JFS), (''Nilfs2'', NILFS2), (''Ntfs'', NTFS), (''Reiserfs'', REISERFS),
            (''Squashfs'', SQUASHFS), (''Swap'', SWAP), (''Udf'', UDF), (''Vfat'', VFAT), (''Xfs'', XFS)] n
      | _ \<Rightarrow> None)"

definition fs_class_named :: "device_class \<Rightarrow> fs_class option" where
  "fs_class_named c = Option.bind (fs_type_named c) fs_class_of"

definition is_blk_filesystem :: "device_class \<Rightarrow> bool" where
  "is_blk_filesystem c \<longleftrightarrow> \<not> Option.is_none (fs_type_named c)"

section \<open>The devices on top\<close>

text \<open>
  Pairs of a block device and a device on it that is resized with it, from the bottom to the top.
  The recursion ends when the graph has no cycle; \<open>n\<close> bounds its depth.
\<close>

fun opt_concat :: "'a list option list \<Rightarrow> 'a list option" where
  "opt_concat [] = Some []"
| "opt_concat (x # xs) =
     (case x of
        None \<Rightarrow> None
      | Some a \<Rightarrow> map_option (\<lambda>b. a @ b) (opt_concat xs))"

definition child_relations ::
  "(nat \<Rightarrow> (nat \<times> nat) list option) \<Rightarrow> devicegraph \<Rightarrow> nat \<Rightarrow> nat \<Rightarrow> (nat \<times> nat) list option" where
  "child_relations rec g v w =
     (case device_at g w of
        None \<Rightarrow> Some []
      | Some d \<Rightarrow>
          map_option (\<lambda>tmp. tmp
              @ (if is_lvm_pv (d_class d) then [(v, w)] else [])
              @ (if is_blk_filesystem (d_class d) then [(v, w)] else []))
            (if is_blk_device (d_class d) \<and> \<not> is_md (d_class d)
             then map_option (\<lambda>tmp. (v, w) # tmp) (rec w) else Some []))"

fun devices_to_resize :: "nat \<Rightarrow> devicegraph \<Rightarrow> nat \<Rightarrow> (nat \<times> nat) list option" where
  "devices_to_resize 0 g v = None"
| "devices_to_resize (Suc n) g v =
     opt_concat (List.map (child_relations (devices_to_resize n g) g v) (children g VIEW_CLASSIC v))"

section \<open>The actions\<close>

text \<open>The active mount point of a filesystem: its sid, its path, and whether it is swap.\<close>

type_synonym active_mount = "nat \<times> string \<times> bool"

definition insert_mount_action :: "active_mount option \<Rightarrow> action list" where
  "insert_mount_action m =
     (case m of
        None \<Rightarrow> []
      | Some (sid, path, swap) \<Rightarrow> [action_new (Mount path swap) (AffectDevice sid) False False])"

definition insert_unmount_action :: "active_mount option \<Rightarrow> action list" where
  "insert_unmount_action m =
     (case m of
        None \<Rightarrow> []
      | Some (sid, path, swap) \<Rightarrow> [action_new (Unmount path swap) (AffectDevice sid) False False])"

definition sid_at :: "devicegraph \<Rightarrow> nat \<Rightarrow> nat" where
  "sid_at g v = (case device_at g v of Some d \<Rightarrow> d_sid d | None \<Rightarrow> 0)"

definition class_at :: "devicegraph \<Rightarrow> nat \<Rightarrow> fs_class option" where
  "class_at g v = (case device_at g v of Some d \<Rightarrow> fs_class_named (d_class d) | None \<Rightarrow> None)"

definition resize_action :: "bool \<Rightarrow> nat \<Rightarrow> action" where
  "resize_action grow sid = action_new (Resize grow) (AffectDevice sid) False False"

text \<open>The last filesystem among the devices on top.\<close>

definition filesystem_on :: "devicegraph \<Rightarrow> (nat \<times> nat) list \<Rightarrow> nat option" where
  "filesystem_on g rs =
     (case filter (\<lambda>w. class_at g w \<noteq> None) (List.map snd rs) of [] \<Rightarrow> None | ws \<Rightarrow> Some (last ws))"

definition need_tmp_unmount :: "devicegraph \<Rightarrow> (nat \<times> nat) list \<Rightarrow> bool \<Rightarrow> bool" where
  "need_tmp_unmount rhs rs grow =
     (case Option.bind (filesystem_on rhs rs) (class_at rhs) of
        None \<Rightarrow> False
      | Some c \<Rightarrow> \<not> supports_mounted_resize c grow)"

text \<open>Devices that the other devicegraph does not have are skipped.\<close>

definition resizes_of :: "devicegraph \<Rightarrow> devicegraph \<Rightarrow> bool \<Rightarrow> (nat \<times> nat) list \<Rightarrow> action list" where
  "resizes_of g other grow rs =
     List.map (\<lambda>(p, c). resize_action grow (sid_at g c)) (filter (\<lambda>(p, c). device_exists other (sid_at g c)) rs)"

definition tmp_mount ::
  "(active_mount option \<Rightarrow> action list) \<Rightarrow> (nat \<Rightarrow> active_mount option) \<Rightarrow> devicegraph \<Rightarrow> devicegraph \<Rightarrow>
   bool \<Rightarrow> (nat \<times> nat) list \<Rightarrow> action list" where
  "tmp_mount ins mounts g other need rs =
     (case filesystem_on g rs of
        None \<Rightarrow> []
      | Some w \<Rightarrow> if need \<and> device_exists other (sid_at g w) then ins (mounts (sid_at g w)) else [])"

definition resize_chain ::
  "devicegraph \<Rightarrow> devicegraph \<Rightarrow> (nat \<Rightarrow> active_mount option) \<Rightarrow> (nat \<Rightarrow> active_mount option) \<Rightarrow>
   bool \<Rightarrow> nat \<Rightarrow> (nat \<times> nat) list \<Rightarrow> (nat \<times> nat) list \<Rightarrow> action list" where
  "resize_chain lhs rhs mounts_lhs mounts_rhs grow sid ls rs =
     (let need = need_tmp_unmount rhs rs grow
      in tmp_mount insert_unmount_action mounts_lhs lhs rhs need ls
       @ (if \<not> grow then resizes_of lhs rhs grow (rev ls) else [])
       @ [resize_action grow sid]
       @ (if grow then resizes_of rhs lhs grow rs else [])
       @ tmp_mount insert_mount_action mounts_rhs rhs lhs need rs)"

text \<open>The lowest device handles the resize, so partitions and logical volumes but not LUKS.\<close>

definition handles_resize :: "devicegraph \<Rightarrow> nat \<Rightarrow> bool" where
  "handles_resize g v =
     (case map_option d_class (device_at g v) of
        Some (C_LvmLv _) \<Rightarrow> True
      | Some c \<Rightarrow> c = C_Device ''Partition''
      | None \<Rightarrow> False)"

definition activation_actions :: "nat \<Rightarrow> bool \<Rightarrow> bool \<Rightarrow> actiongraph \<Rightarrow> actiongraph" where
  "activation_actions sid active_lhs active_rhs g =
     (if \<not> active_lhs \<and> active_rhs
      then snd (ag_add_vertex (action_new (OtherAction ''Activate'') (AffectDevice sid) False False) g)
      else if active_lhs \<and> \<not> active_rhs
      then snd (ag_add_vertex (action_new (OtherAction ''Deactivate'') (AffectDevice sid) False False) g)
      else g)"

text \<open>
  The whole operation for the vertices \<open>lv\<close> and \<open>rv\<close> of a block device in the two devicegraphs.
  \<open>lhs_state\<close> and \<open>rhs_state\<close> are size and activity of the device.
\<close>

definition blk_device_modify_actions ::
  "devicegraph \<Rightarrow> devicegraph \<Rightarrow> (nat \<Rightarrow> active_mount option) \<Rightarrow> (nat \<Rightarrow> active_mount option) \<Rightarrow>
   nat \<Rightarrow> nat \<Rightarrow> u64 \<times> bool \<Rightarrow> u64 \<times> bool \<Rightarrow> actiongraph \<Rightarrow> actiongraph option" where
  "blk_device_modify_actions lhs rhs mounts_lhs mounts_rhs lv rv lhs_state rhs_state g =
     (let sid = sid_at rhs rv; on_off = activation_actions sid (snd lhs_state) (snd rhs_state)
      in if fst lhs_state \<noteq> fst rhs_state \<and> handles_resize rhs rv
         then
           (case (devices_to_resize (num_devices lhs) lhs lv, devices_to_resize (num_devices rhs) rhs rv) of
              (Some ls, Some rs) \<Rightarrow>
                Some (on_off (add_chain (resize_chain lhs rhs mounts_lhs mounts_rhs
                  (\<not> fst rhs_state < fst lhs_state) sid ls rs) g))
            | _ \<Rightarrow> None)
         else Some (on_off g))"

section \<open>All devices on top are found\<close>

text \<open>\<open>resized g v p c\<close>: a resize of \<open>v\<close> resizes \<open>c\<close>, which is on \<open>p\<close>.\<close>

definition passes_on :: "devicegraph \<Rightarrow> nat \<Rightarrow> bool" where
  "passes_on g w \<longleftrightarrow>
     (case device_at g w of Some d \<Rightarrow> is_blk_device (d_class d) \<and> \<not> is_md (d_class d) | None \<Rightarrow> False)"

definition resizable :: "devicegraph \<Rightarrow> nat \<Rightarrow> bool" where
  "resizable g w \<longleftrightarrow> passes_on g w \<or>
     (case device_at g w of Some d \<Rightarrow> is_lvm_pv (d_class d) \<or> is_blk_filesystem (d_class d) | None \<Rightarrow> False)"

inductive resized :: "devicegraph \<Rightarrow> nat \<Rightarrow> nat \<Rightarrow> nat \<Rightarrow> bool" for g where
  resized_child: "w \<in> set (children g VIEW_CLASSIC v) \<Longrightarrow> resizable g w \<Longrightarrow> resized g v v w"
| resized_above: "w \<in> set (children g VIEW_CLASSIC v) \<Longrightarrow> passes_on g w \<Longrightarrow> resized g w p c \<Longrightarrow> resized g v p c"

inductive_simps resized_unfold: "resized g v p c"

lemma opt_concat_Some:
  "opt_concat xs = Some r \<longleftrightarrow> (\<exists>rs. xs = List.map Some rs \<and> r = concat rs)"
proof (induction xs arbitrary: r)
  case Nil
  then show ?case by auto
next
  case (Cons x xs)
  show ?case
  proof (cases x)
    case None
    then show ?thesis by (auto simp: Cons_eq_map_conv)
  next
    case (Some a)
    then show ?thesis using Cons.IH by (auto simp: Cons_eq_map_conv)
  qed
qed

lemma map_eq_Some: "List.map f xs = List.map Some rs \<longleftrightarrow> rs = List.map (the \<circ> f) xs \<and> (\<forall>x \<in> set xs. f x \<noteq> None)"
proof (induction xs arbitrary: rs)
  case Nil
  then show ?case by auto
next
  case (Cons x xs)
  then show ?case by (cases rs) auto
qed

lemma opt_concat_map:
  "opt_concat (List.map f xs) = Some r \<longleftrightarrow>
    (\<forall>x \<in> set xs. f x \<noteq> None) \<and> r = concat (List.map (the \<circ> f) xs)"
  unfolding opt_concat_Some map_eq_Some by auto

lemma set_child_relations:
  assumes "child_relations rec g v w = Some r"
  shows "set r = {(p, c). p = v \<and> c = w \<and> resizable g w} \<union>
    {(p, c). passes_on g w \<and> (\<exists>tmp. rec w = Some tmp \<and> (p, c) \<in> set tmp)}"
  using assms by (auto simp: child_relations_def resizable_def passes_on_def split: option.splits if_splits)

lemma set_devices_to_resize:
  "devices_to_resize n g v = Some rs \<Longrightarrow> (p, c) \<in> set rs \<longleftrightarrow> resized g v p c"
proof (induction n arbitrary: v rs p c)
  case 0
  then show ?case by simp
next
  case (Suc n)
  let ?f = "child_relations (devices_to_resize n g) g v"
  have all: "\<forall>w \<in> set (children g VIEW_CLASSIC v). ?f w \<noteq> None"
    and rs: "rs = concat (List.map (the \<circ> ?f) (children g VIEW_CLASSIC v))"
    using Suc.prems unfolding devices_to_resize.simps opt_concat_map by blast+
  have one: "(p, c) \<in> set (the (?f w)) \<longleftrightarrow>
      p = v \<and> c = w \<and> resizable g w \<or> passes_on g w \<and> resized g w p c"
    if "w \<in> set (children g VIEW_CLASSIC v)" for w
  proof -
    obtain r where r: "?f w = Some r" using all \<open>w \<in> _\<close> by blast
    have "\<exists>tmp. devices_to_resize n g w = Some tmp" if "passes_on g w"
      using r that by (auto simp: child_relations_def passes_on_def split: option.splits)
    then show ?thesis using set_child_relations [OF r] Suc.IH [of w] r by auto
  qed
  show ?case unfolding rs resized_unfold [of g v p c] using one by auto
qed

text \<open>A bound on the number of devices that can be reached is enough.\<close>

lemma children_down: "w \<in> set (children g view v) \<longleftrightarrow> (v, w) \<in> set (down g view)"
  by (auto simp: children_def out_edges_def down_def)

lemma devices_to_resize_ends:
  assumes "acyclic (set (down g VIEW_CLASSIC))"
  shows "card ((set (down g VIEW_CLASSIC))\<^sup>* `` {v}) \<le> n \<Longrightarrow> \<exists>rs. devices_to_resize n g v = Some rs"
proof (induction n arbitrary: v)
  case 0
  have "finite ((set (down g VIEW_CLASSIC))\<^sup>* `` {v})" by (rule finite_rtrancl_Image) simp_all
  then show ?case using 0 by auto
next
  case (Suc n)
  let ?E = "set (down g VIEW_CLASSIC)"
  have fin: "finite (?E\<^sup>* `` {v})" for v by (rule finite_rtrancl_Image) simp_all
  have "child_relations (devices_to_resize n g) g v w \<noteq> None" if "w \<in> set (children g VIEW_CLASSIC v)" for w
  proof -
    have e: "(v, w) \<in> ?E" using that unfolding children_down .
    have "v \<notin> ?E\<^sup>* `` {w}"
      using assms e rtrancl_into_trancl2 [of v w ?E v] by (auto simp: acyclic_def)
    then have "?E\<^sup>* `` {w} \<subset> ?E\<^sup>* `` {v}" using e by (auto intro: converse_rtrancl_into_rtrancl)
    from psubset_card_mono [OF fin this] have "card (?E\<^sup>* `` {w}) \<le> n" using Suc.prems by linarith
    then show ?thesis using Suc.IH [of w] by (auto simp: child_relations_def split: option.splits)
  qed
  then show ?case unfolding devices_to_resize.simps opt_concat_map by blast
qed

lemma devices_to_resize_total:
  assumes "wf_graph g" and "dg_check chk g = Inr ()" and "v \<in> set (vertices g)"
  shows "\<exists>rs. devices_to_resize (num_devices g) g v = Some rs"
proof (rule devices_to_resize_ends)
  let ?E = "set (down g VIEW_CLASSIC)"
  show "acyclic ?E" using dg_check_wf [OF assms(1), of chk] assms(2) by (simp split: if_splits)
  have "?E\<^sup>* `` {v} \<subseteq> insert v (snd ` ?E)"
  proof
    fix x assume "x \<in> ?E\<^sup>* `` {v}"
    then have "(v, x) \<in> ?E\<^sup>*" by simp
    then show "x \<in> insert v (snd ` ?E)" by (cases rule: rtrancl.cases) (auto intro: rev_image_eqI)
  qed
  also have "\<dots> \<subseteq> set (vertices g)" using down_targets [OF assms(1)] assms(3) by auto
  finally have "card (?E\<^sup>* `` {v}) \<le> card (set (vertices g))" by (intro card_mono) simp_all
  also have "\<dots> \<le> num_devices g" using card_length [of "vertices g"] by (simp add: vertices_def num_devices_def)
  finally show "card (?E\<^sup>* `` {v}) \<le> num_devices g" .
qed

section \<open>The order\<close>

text \<open>Every pair comes behind one that has its lower device on top.\<close>

definition linked :: "nat \<Rightarrow> (nat \<times> nat) list \<Rightarrow> bool" where
  "linked v rs \<longleftrightarrow> (\<forall>i < length rs. fst (rs ! i) = v \<or> fst (rs ! i) \<in> snd ` set (take i rs))"

lemma linked_Nil [simp]: "linked v []"
  by (simp add: linked_def)

lemma linked_append:
  assumes "linked v xs" and "linked v ys"
  shows "linked v (xs @ ys)"
  unfolding linked_def
proof (intro allI impI)
  fix i assume i: "i < length (xs @ ys)"
  show "fst ((xs @ ys) ! i) = v \<or> fst ((xs @ ys) ! i) \<in> snd ` set (take i (xs @ ys))"
  proof (cases "i < length xs")
    case True
    then show ?thesis using assms(1) by (simp add: linked_def nth_append)
  next
    case False
    then have "i - length xs < length ys" using i by simp
    then show ?thesis using assms(2) False by (auto simp: linked_def nth_append image_Un)
  qed
qed

lemma linked_Cons:
  assumes "linked w rs"
  shows "linked v ((v, w) # rs)"
  unfolding linked_def
proof (intro allI impI)
  fix i assume "i < length ((v, w) # rs)"
  then show "fst (((v, w) # rs) ! i) = v \<or> fst (((v, w) # rs) ! i) \<in> snd ` set (take i ((v, w) # rs))"
    using assms by (cases i) (auto simp: linked_def)
qed

lemma linked_one [simp]: "linked v [(v, w)]"
  using linked_Cons [OF linked_Nil] by simp

lemma linked_concat: "(\<And>xs. xs \<in> set xss \<Longrightarrow> linked v xs) \<Longrightarrow> linked v (concat xss)"
  by (induction xss) (simp_all add: linked_append)

lemma linked_devices: "devices_to_resize n g v = Some rs \<Longrightarrow> linked v rs"
proof (induction n arbitrary: v rs)
  case 0
  then show ?case by simp
next
  case (Suc n)
  let ?f = "child_relations (devices_to_resize n g) g v"
  have all: "\<forall>w \<in> set (children g VIEW_CLASSIC v). ?f w \<noteq> None"
    and rs: "rs = concat (List.map (the \<circ> ?f) (children g VIEW_CLASSIC v))"
    using Suc.prems unfolding devices_to_resize.simps opt_concat_map by blast+
  have "linked v r" if f: "?f w = Some r" for w r
  proof (cases "device_at g w")
    case None
    then show ?thesis using f by (simp add: child_relations_def)
  next
    case (Some d)
    then obtain tmp where tmp: "tmp = [] \<or> (\<exists>za. tmp = (v, w) # za \<and> devices_to_resize n g w = Some za)"
      and r: "r = tmp @ (if is_lvm_pv (d_class d) then [(v, w)] else [])
        @ (if is_blk_filesystem (d_class d) then [(v, w)] else [])"
      using f by (auto simp: child_relations_def split: if_splits)
    have "linked v tmp" using tmp Suc.IH [of w] linked_Cons [of w _ v] by auto
    moreover have "linked v (if b then [(v, w)] else [])" for b by simp
    ultimately show ?thesis unfolding r by (intro linked_append)
  qed
  then show ?case unfolding rs using all by (intro linked_concat) auto
qed

text \<open>The actions of a list as vertices of a chain, up to the marks of the first and the last one.\<close>

definition deed :: "action \<Rightarrow> action_kind \<times> affect" where
  "deed a = (a_kind a, a_affect a)"

lemma add_chain_from_spec:
  "\<exists>vs. ag_vertices (add_chain_from b v as g) = ag_vertices g @ vs \<and>
    List.map fst vs = [ag_next g ..< ag_next g + length as] \<and> List.map (\<lambda>x. deed (snd x)) vs = List.map deed as \<and>
    set (ag_edges g) \<union> {(ag_next g + i, ag_next g + Suc i) | i. Suc i < length as}
      \<union> (if \<not> b \<and> as \<noteq> [] then {(v, ag_next g)} else {}) \<subseteq> set (ag_edges (add_chain_from b v as g))"
proof (induction as arbitrary: b v g)
  case Nil
  then show ?case by simp
next
  case (Cons a as)
  define a' where "a' = a\<lparr>a_first := b, a_last := (as = [])\<rparr>"
  define g' where "g' = (if b then snd (ag_add_vertex a' g) else ag_add_edge v (ag_next g) (snd (ag_add_vertex a' g)))"
  have step: "add_chain_from b v (a # as) g = add_chain_from False (ag_next g) as g'"
    by (simp add: a'_def g'_def ag_add_vertex_def Let_def)
  have g': "ag_vertices g' = ag_vertices g @ [(ag_next g, a')]" "ag_next g' = Suc (ag_next g)"
    "set (ag_edges g') = set (ag_edges g) \<union> (if \<not> b then {(v, ag_next g)} else {})"
    by (auto simp: g'_def ag_add_vertex_def ag_add_edge_def)
  have deed: "deed a' = deed a" by (simp add: deed_def a'_def)
  obtain vs where vs: "ag_vertices (add_chain_from False (ag_next g) as g') = ag_vertices g' @ vs"
    "List.map fst vs = [ag_next g' ..< ag_next g' + length as]" "List.map (\<lambda>x. deed (snd x)) vs = List.map deed as"
    "set (ag_edges g') \<union> {(ag_next g' + i, ag_next g' + Suc i) | i. Suc i < length as}
      \<union> (if as \<noteq> [] then {(ag_next g, ag_next g')} else {}) \<subseteq> set (ag_edges (add_chain_from False (ag_next g) as g'))"
    using Cons.IH [where g = g' and b = False and v = "ag_next g"] by auto
  have "(ag_next g + i, ag_next g + Suc i) \<in> set (ag_edges (add_chain_from False (ag_next g) as g'))"
    if "Suc i < length (a # as)" for i
    using that vs(4) g'(2) by (cases i) (auto split: if_splits)
  then show ?case
    using vs g' unfolding step
    by (intro exI [of _ "(ag_next g, a') # vs"]) (auto simp: upt_rec [of "ag_next g"] deed split: if_splits)
qed

text \<open>Of two actions of a chain the first one is carried out first, whatever dependencies are added.\<close>

definition does :: "actiongraph \<Rightarrow> nat \<Rightarrow> action \<Rightarrow> bool" where
  "does g x a \<longleftrightarrow> (\<exists>b. (x, b) \<in> set (ag_vertices g) \<and> deed b = deed a)"

lemma chain_before:
  assumes "occurs_before a b as" and "set (ag_vertices (add_chain as g)) \<subseteq> set (ag_vertices h)"
    and "set (ag_edges (add_chain as g)) \<subseteq> set (ag_edges h)" and "wf_ag h" and "method < 2"
    and "calculate_order method h = Inr order"
  shows "\<exists>x y. does h x a \<and> does h y b \<and> before order x y"
proof -
  obtain i j where ij: "i < j" "j < length as" "as ! i = a" "as ! j = b"
    using assms(1) unfolding occurs_before_def by blast
  obtain vs where vs: "ag_vertices (add_chain as g) = ag_vertices g @ vs"
    "List.map fst vs = [ag_next g ..< ag_next g + length as]" "List.map (\<lambda>x. deed (snd x)) vs = List.map deed as"
    "{(ag_next g + i, ag_next g + Suc i) | i. Suc i < length as} \<subseteq> set (ag_edges (add_chain as g))"
    using add_chain_from_spec [of True 0 as g] unfolding add_chain_def by auto
  have len: "length vs = length as" using arg_cong [OF vs(3), of length] by simp
  have at: "does h (ag_next g + k) (as ! k)" if "k < length as" for k
  proof -
    have "fst (vs ! k) = ag_next g + k" using arg_cong [OF vs(2), of "\<lambda>xs. xs ! k"] that len by simp
    moreover have "deed (snd (vs ! k)) = deed (as ! k)" using arg_cong [OF vs(3), of "\<lambda>xs. xs ! k"] that len by simp
    moreover have "vs ! k \<in> set (ag_vertices h)" using assms(2) vs(1) that len by auto
    ultimately show ?thesis unfolding does_def by (metis prod.collapse)
  qed
  let ?ids = "[ag_next g ..< ag_next g + length as]"
  have "{(?ids ! k, ?ids ! Suc k) | k. Suc k < length ?ids} \<subseteq> set (ag_edges h)"
    using vs(4) assms(3) by force
  from chain_trancl [OF this, of i j] have path: "(ag_next g + i, ag_next g + j) \<in> (set (ag_edges h))\<^sup>+"
    using ij(1,2) by simp
  have o: "distinct order" "set order = set (ag_vs h)" "topological (ag_edges h) order"
    using calculate_order_result [OF assms(4,5)] assms(6) by simp_all
  have "before order (ag_next g + i) (ag_next g + j)"
    unfolding before_def
    by (rule topological_trancl [OF o(3) path]) (use wf_ag_ends [OF assms(4)] o(1,2) in simp_all)
  then show ?thesis using at [of i] at [of j] ij by auto
qed

lemma resizes_of_append: "resizes_of g other grow (xs @ ys) = resizes_of g other grow xs @ resizes_of g other grow ys"
  by (simp add: resizes_of_def)

lemma resizes_of_rev: "resizes_of g other grow (rev xs) = rev (resizes_of g other grow xs)"
  by (simp add: resizes_of_def rev_map rev_filter)

lemma in_resizes_of:
  "(p, c) \<in> set rs \<Longrightarrow> device_exists other (sid_at g c) \<Longrightarrow>
    resize_action grow (sid_at g c) \<in> set (resizes_of g other grow rs)"
  by (force simp: resizes_of_def)

text \<open>From the bottom to the top: first a device, then what is on it.\<close>

lemma bottom_up:
  assumes "linked v rs" and "(p, c) \<in> set rs" and "device_exists other (sid_at g c)"
    and "p = v \<or> device_exists other (sid_at g p)"
  shows "occurs_before (resize_action grow (sid_at g p)) (resize_action grow (sid_at g c))
    (resize_action grow (sid_at g v) # resizes_of g other grow rs)"
proof (cases "p = v")
  case True
  then show ?thesis
    using occurs_before_append(3) [of _ "[resize_action grow (sid_at g v)]"] in_resizes_of [OF assms(2,3)] by simp
next
  case False
  obtain i where i: "i < length rs" "rs ! i = (p, c)" using assms(2) by (auto simp: in_set_conv_nth)
  then obtain q where q: "(q, p) \<in> set (take i rs)" using assms(1) False by (force simp: linked_def)
  have "resize_action grow (sid_at g p) \<in> set (resizes_of g other grow (take i rs))"
    using in_resizes_of [OF q] assms(4) False by blast
  moreover have "(p, c) \<in> set (drop i rs)" using i by (metis Cons_nth_drop_Suc list.set_intros(1))
  then have "resize_action grow (sid_at g c) \<in> set (resizes_of g other grow (drop i rs))"
    by (rule in_resizes_of) (rule assms(3))
  ultimately have "occurs_before (resize_action grow (sid_at g p)) (resize_action grow (sid_at g c))
      (resizes_of g other grow (take i rs) @ resizes_of g other grow (drop i rs))"
    by (rule occurs_before_append(3))
  then show ?thesis
    using occurs_before_append(2) [of _ _ _ "[resize_action grow (sid_at g v)]"]
    by (simp add: resizes_of_append [symmetric])
qed

lemma resize_chain_order:
  assumes "linked lv ls" and "linked rv rs" and "sid_at lhs lv = sid" and "sid_at rhs rv = sid"
    and "g = (if grow then rhs else lhs)" and "other = (if grow then lhs else rhs)"
    and "v = (if grow then rv else lv)"
    and "(p, c) \<in> set (if grow then rs else ls)" and "device_exists other (sid_at g c)"
    and "p = v \<or> device_exists other (sid_at g p)"
  shows "occurs_before
    (resize_action grow (sid_at g (if grow then p else c))) (resize_action grow (sid_at g (if grow then c else p)))
    (resize_chain lhs rhs mounts_lhs mounts_rhs grow sid ls rs)"
proof (cases grow)
  case True
  have "occurs_before (resize_action True (sid_at rhs p)) (resize_action True (sid_at rhs c))
      (resize_action True (sid_at rhs rv) # resizes_of rhs lhs True rs)"
    by (rule bottom_up) (use assms True in simp_all)
  then have "occurs_before (resize_action True (sid_at rhs p)) (resize_action True (sid_at rhs c))
      ([resize_action True sid] @ resizes_of rhs lhs True rs)" using assms(4) by simp
  note occurs_before_append(2) [OF occurs_before_append(1) [OF this]]
  then show ?thesis using True assms(5) by (simp add: resize_chain_def Let_def)
next
  case False
  have "occurs_before (resize_action False (sid_at lhs p)) (resize_action False (sid_at lhs c))
      (resize_action False (sid_at lhs lv) # resizes_of lhs rhs False ls)"
    by (rule bottom_up) (use assms False in simp_all)
  from occurs_before_rev [OF this] have "occurs_before (resize_action False (sid_at lhs c)) (resize_action False (sid_at lhs p))
      (resizes_of lhs rhs False (rev ls) @ [resize_action False sid])" using assms(3) by (simp add: resizes_of_rev)
  note occurs_before_append(2) [OF occurs_before_append(1) [OF this]]
  then show ?thesis using False assms(5) by (simp add: resize_chain_def Let_def)
qed

lemma activation_actions_keep:
  "set (ag_vertices g) \<subseteq> set (ag_vertices (activation_actions sid l r g))"
  "ag_edges (activation_actions sid l r g) = ag_edges g"
  by (auto simp: activation_actions_def ag_add_vertex_def)

text \<open>
  C4: When a partition or a logical volume is resized, everything on it is resized with it, in the
  right order: a device that shrinks after what is on it, a device that grows before. \<open>h\<close> is any
  actiongraph with the actions of the resize and possibly more actions and dependencies.
\<close>

theorem resizes_in_order:
  assumes actions: "blk_device_modify_actions lhs rhs mounts_lhs mounts_rhs lv rv lhs_state rhs_state ag = Some ag'"
    and device: "handles_resize rhs rv" "sid_at lhs lv = sid_at rhs rv"
    and sizes: "fst lhs_state \<noteq> fst rhs_state" "grow \<longleftrightarrow> fst lhs_state < fst rhs_state"
    and sides: "g = (if grow then rhs else lhs)" "other = (if grow then lhs else rhs)" "v = (if grow then rv else lv)"
    and above: "resized g v p c" "device_exists other (sid_at g c)" "p = v \<or> device_exists other (sid_at g p)"
    and graph: "set (ag_vertices ag') \<subseteq> set (ag_vertices h)" "set (ag_edges ag') \<subseteq> set (ag_edges h)" "wf_ag h"
    and order: "method < 2" "calculate_order method h = Inr order"
  shows "\<exists>x y. does h x (resize_action grow (sid_at g (if grow then p else c))) \<and>
    does h y (resize_action grow (sid_at g (if grow then c else p))) \<and> before order x y"
proof -
  have mode: "(\<not> fst rhs_state < fst lhs_state) = grow" using sizes by auto
  define as where "as ls rs = resize_chain lhs rhs mounts_lhs mounts_rhs grow (sid_at rhs rv) ls rs" for ls rs
  obtain ls rs where l: "devices_to_resize (num_devices lhs) lhs lv = Some ls"
    and r: "devices_to_resize (num_devices rhs) rhs rv = Some rs"
    and ag': "ag' = activation_actions (sid_at rhs rv) (snd lhs_state) (snd rhs_state) (add_chain (as ls rs) ag)"
    using actions device(1) sizes(1) mode unfolding as_def blk_device_modify_actions_def Let_def
    by (simp split: option.splits)
  note sub = activation_actions_keep [where g = "add_chain (as ls rs) ag" and sid = "sid_at rhs rv" and l = "snd lhs_state"
    and r = "snd rhs_state", folded ag']
  have "(p, c) \<in> set (if grow then rs else ls)"
    using above(1) sides set_devices_to_resize [OF l] set_devices_to_resize [OF r] by (cases grow) simp_all
  from resize_chain_order [OF linked_devices [OF l] linked_devices [OF r] device(2) refl sides this above(2,3)]
  have "occurs_before (resize_action grow (sid_at g (if grow then p else c)))
    (resize_action grow (sid_at g (if grow then c else p))) (as ls rs)" unfolding as_def .
  from chain_before [OF this _ _ graph(3) order, of ag] show ?thesis
    using subset_trans [OF sub(1) graph(1)] graph(2) by (simp only: sub(2))
qed

text \<open>The operation always returns on graphs without a cycle.\<close>

lemma blk_device_modify_actions_total:
  assumes "wf_graph lhs" and "wf_graph rhs" and "dg_check chk lhs = Inr ()" and "dg_check chk rhs = Inr ()"
    and "lv \<in> set (vertices lhs)" and "rv \<in> set (vertices rhs)"
  shows "\<exists>g'. blk_device_modify_actions lhs rhs mounts_lhs mounts_rhs lv rv lhs_state rhs_state g = Some g'"
  using devices_to_resize_total [OF assms(1,3,5)] devices_to_resize_total [OF assms(2,4,6)]
  by (auto simp: blk_device_modify_actions_def Let_def)

text \<open>A LUKS with an ext4 on a partition that grows.\<close>

definition demo_stack :: devicegraph where
  "demo_stack =
     \<lparr>dg_vertices =
        [(0, \<lparr>d_sid = 42, d_class = C_Device ''Partition'', d_attrs = []\<rparr>),
         (1, \<lparr>d_sid = 43, d_class = C_Device ''Luks'', d_attrs = []\<rparr>),
         (2, \<lparr>d_sid = 44, d_class = C_Device ''Ext4'', d_attrs = []\<rparr>)],
      dg_edges =
        [\<lparr>e_id = 3, e_source = 0, e_target = 1, e_holder = \<lparr>h_class = C_User, h_attrs = []\<rparr>\<rparr>,
         \<lparr>e_id = 4, e_source = 1, e_target = 2, e_holder = \<lparr>h_class = C_FilesystemUser, h_attrs = []\<rparr>\<rparr>],
      dg_next = 5\<rparr>"

definition demo_resizes :: actiongraph where
  "demo_resizes = add_chain (List.map (resize_action True) [42, 43, 44]) ag_empty"

lemma demo_resizes_chain:
  "blk_device_modify_actions demo_stack demo_stack (\<lambda>_. None) (\<lambda>_. None) 0 0
    (100, True) (200, True) ag_empty = Some demo_resizes"
  by code_simp

lemma demo_resizes_order: "wf_ag demo_resizes" "calculate_order 0 demo_resizes = Inr [0, 1, 2]"
  by code_simp+

lemma demo_resized: "resized demo_stack 0 1 2"
proof (rule resized_above)
  show "1 \<in> set (children demo_stack VIEW_CLASSIC 0)" and "passes_on demo_stack 1" by code_simp+
  show "resized demo_stack 1 1 2" by (rule resized_child) code_simp+
qed

lemma resizes_in_order_witness:
  "\<exists>x y. does demo_resizes x (resize_action True 43) \<and> does demo_resizes y (resize_action True 44) \<and>
    before [0, 1, 2] x y"
proof -
  have at: "sid_at demo_stack 1 = 43" "sid_at demo_stack 2 = 44" by code_simp+
  have "\<exists>x y. does demo_resizes x (resize_action True (sid_at demo_stack (if True then 1 else 2))) \<and>
      does demo_resizes y (resize_action True (sid_at demo_stack (if True then 2 else 1))) \<and> before [0, 1, 2] x y"
  proof (rule resizes_in_order [OF demo_resizes_chain _ _ _ _ _ _ _ demo_resized _ _ _ _
        demo_resizes_order(1) _ demo_resizes_order(2)])
    show "handles_resize demo_stack 0" by code_simp
    show "device_exists demo_stack (sid_at demo_stack 2)" "1 = (0 :: nat) \<or> device_exists demo_stack (sid_at demo_stack 1)"
      by code_simp+
  qed simp_all
  then show ?thesis by (simp only: at if_True)
qed

text \<open>
  The children of a thin pool are its thin volumes: when a thin pool grows, a resize of every thin
  volume and of what is on it is planned although their sizes do not change.
\<close>

definition demo_pool :: devicegraph where
  "demo_pool =
     \<lparr>dg_vertices =
        [(0, \<lparr>d_sid = 42, d_class = C_LvmLv LV_THIN_POOL, d_attrs = []\<rparr>),
         (1, \<lparr>d_sid = 43, d_class = C_LvmLv LV_THIN, d_attrs = []\<rparr>),
         (2, \<lparr>d_sid = 44, d_class = C_Device ''Ext4'', d_attrs = []\<rparr>)],
      dg_edges =
        [\<lparr>e_id = 3, e_source = 0, e_target = 1, e_holder = \<lparr>h_class = C_Subdevice, h_attrs = []\<rparr>\<rparr>,
         \<lparr>e_id = 4, e_source = 1, e_target = 2, e_holder = \<lparr>h_class = C_FilesystemUser, h_attrs = []\<rparr>\<rparr>],
      dg_next = 5\<rparr>"

lemma thin_pool_resizes_volumes:
  "blk_device_modify_actions demo_pool demo_pool (\<lambda>_. None) (\<lambda>_. None) 0 0 (100, True) (200, True) ag_empty =
    Some demo_resizes"
  by code_simp

end
