(* ===== verification/CompoundActions.thy ===== *)
theory CompoundActions
  imports ResizeActions "HOL-Library.Multiset"
begin

text \<open>
  Compound actions (storage/CompoundAction/Generator.cc, CompoundActionImpl.cc): the actions of the
  actiongraph are put together for the user by the device they are about. Modelled are the search
  for that device and the grouping; the sentences are texts.
\<close>

section \<open>Classes of devices\<close>

definition is_partitionable :: "device_class \<Rightarrow> bool" where
  "is_partitionable c =
     (case c of
        C_Device n \<Rightarrow> List.member [''Bcache'', ''Dasd'', ''Disk'', ''DmRaid'', ''Md'', ''MdContainer'', ''MdMember'', ''Multipath''] n
      | _ \<Rightarrow> False)"

definition is_partition_table :: "device_class \<Rightarrow> bool" where
  "is_partition_table c =
     (case c of C_Device n \<Rightarrow> List.member [''DasdPt'', ''Gpt'', ''ImplicitPt'', ''Msdos''] n | _ \<Rightarrow> False)"

definition is_encryption :: "device_class \<Rightarrow> bool" where
  "is_encryption c =
     (case c of
        C_Device n \<Rightarrow> List.member [''BitlockerV2'', ''Encryption'', ''Luks'', ''PlainEncryption''] n
      | _ \<Rightarrow> False)"

definition is_mount_point :: "device_class \<Rightarrow> bool" where
  "is_mount_point c \<longleftrightarrow> c = C_Device ''MountPoint''"

definition is_btrfs_subvolume :: "device_class \<Rightarrow> bool" where
  "is_btrfs_subvolume c \<longleftrightarrow> c = C_Device ''BtrfsSubvolume''"

definition is_mountable :: "device_class \<Rightarrow> bool" where
  "is_mountable c \<longleftrightarrow> is_blk_filesystem c \<or> is_btrfs_subvolume c \<or> c = C_Device ''Nfs'' \<or> c = C_Device ''Tmpfs''"

definition is_btrfs_qgroup :: "device_class \<Rightarrow> bool" where
  "is_btrfs_qgroup c = (case c of C_BtrfsQgroup _ \<Rightarrow> True | _ \<Rightarrow> False)"

section \<open>Devices above and below\<close>

definition class_of :: "devicegraph \<Rightarrow> nat \<Rightarrow> device_class result" where
  "class_of g v = (case device_at g v of None \<Rightarrow> Inl UndefinedBehaviour | Some d \<Rightarrow> Inr (d_class d))"

definition has_class :: "(device_class \<Rightarrow> bool) \<Rightarrow> devicegraph \<Rightarrow> nat \<Rightarrow> bool" where
  "has_class P g v = (case device_at g v of None \<Rightarrow> False | Some d \<Rightarrow> P (d_class d))"

definition to_device_of_type :: "(device_class \<Rightarrow> bool) \<Rightarrow> devicegraph \<Rightarrow> nat \<Rightarrow> nat result" where
  "to_device_of_type P g v =
     ebind (class_of g v) (\<lambda>c. if P c then Inr v else Inl (Exn ''device has wrong type''))"

definition get_single_parent :: "(device_class \<Rightarrow> bool) \<Rightarrow> devicegraph \<Rightarrow> nat \<Rightarrow> nat result" where
  "get_single_parent P g v = ebind (parent g VIEW_CLASSIC v) (to_device_of_type P g)"

definition get_parents_of_type :: "(device_class \<Rightarrow> bool) \<Rightarrow> devicegraph \<Rightarrow> view \<Rightarrow> nat \<Rightarrow> nat list" where
  "get_parents_of_type P g view v = filter (has_class P g) (parents g view v)"

definition qgroup_btrfs :: "devicegraph \<Rightarrow> nat \<Rightarrow> nat result" where
  "qgroup_btrfs g v =
     (case get_parents_of_type (\<lambda>c. c = C_Btrfs) g VIEW_ALL v of
        [w] \<Rightarrow> Inr w
      | _ \<Rightarrow> Inl (Exn ''Btrfs parent of BtrfsQgroup broken''))"

definition has_btrfs_subvolume :: "devicegraph \<Rightarrow> nat \<Rightarrow> bool" where
  "has_btrfs_subvolume g v \<longleftrightarrow> 0 < length (get_parents_of_type is_btrfs_subvolume g VIEW_ALL v)"

definition get_btrfs_subvolume :: "devicegraph \<Rightarrow> nat \<Rightarrow> nat result" where
  "get_btrfs_subvolume g v =
     (case get_parents_of_type is_btrfs_subvolume g VIEW_ALL v of
        [w] \<Rightarrow> Inr w
      | _ \<Rightarrow> Inl (Exn ''BtrfsSubvolume parent of BtrfsQgroup broken''))"

definition relation_btrfs :: "devicegraph \<Rightarrow> edge \<Rightarrow> nat result" where
  "relation_btrfs g e = ebind (to_device_of_type is_btrfs_qgroup g (e_target e)) (qgroup_btrfs g)"

section \<open>The target device\<close>

text \<open>
  The target of a partition table is its disk, that of an encryption the device below, that of a
  physical volume and of a filesystem the target of the device below, that of a mount point the
  target of what it mounts. \<open>n\<close> bounds the depth of the recursion; three calls are always enough.
\<close>

fun target_device :: "nat \<Rightarrow> devicegraph \<Rightarrow> nat \<Rightarrow> nat result" where
  "target_device 0 g v = Inl Diverges"
| "target_device (Suc n) g v =
     ebind (class_of g v) (\<lambda>c.
       if is_partition_table c then get_single_parent is_partitionable g v
       else if is_encryption c then get_single_parent is_blk_device g v
       else if is_lvm_pv c then ebind (get_single_parent is_blk_device g v) (target_device n g)
       else if is_blk_filesystem c
       then (case get_parents_of_type is_blk_device g VIEW_CLASSIC v of
               [] \<Rightarrow> Inl UndefinedBehaviour
             | [w] \<Rightarrow> target_device n g w
             | _ \<Rightarrow> Inr v)
       else if is_mount_point c then ebind (get_single_parent is_mountable g v) (target_device n g)
       else Inr v)"

definition get_target_device :: "devicegraph \<Rightarrow> nat \<Rightarrow> nat result" where
  "get_target_device g v = target_device 3 g v"

section \<open>The device of an action\<close>

datatype side = LHS | RHS

definition graph_of :: "devicegraph \<Rightarrow> devicegraph \<Rightarrow> side \<Rightarrow> devicegraph" where
  "graph_of lhs rhs s = (case s of LHS \<Rightarrow> lhs | RHS \<Rightarrow> rhs)"

text \<open>A device is known by its side and its vertex: devices of the two graphs are different objects.\<close>

type_synonym placed = "side \<times> nat"

definition find_placed :: "devicegraph \<Rightarrow> devicegraph \<Rightarrow> side \<Rightarrow> nat \<Rightarrow> placed result" where
  "find_placed lhs rhs s sid = emap (Pair s) (find_vertex (graph_of lhs rhs s) sid)"

text \<open>Every action is a creation, a deletion or a modification.\<close>

definition compound_device :: "devicegraph \<Rightarrow> devicegraph \<Rightarrow> action \<Rightarrow> placed result" where
  "compound_device lhs rhs a =
     (if \<not> affects_device a then Inl (Exn ''holder'')
      else if is_create a then find_placed lhs rhs RHS (a_sid a)
      else if is_delete a then find_placed lhs rhs LHS (a_sid a)
      else
        (case find_placed lhs rhs RHS (a_sid a) of
           Inl DeviceNotFound \<Rightarrow> find_placed lhs rhs LHS (a_sid a)
         | r \<Rightarrow> r))"

definition action_target_device :: "devicegraph \<Rightarrow> devicegraph \<Rightarrow> action \<Rightarrow> placed result" where
  "action_target_device lhs rhs a =
     ebind (compound_device lhs rhs a) (\<lambda>(s, v). emap (Pair s) (get_target_device (graph_of lhs rhs s) v))"

datatype compound_type = NORMAL | BTRFS_QUOTA | BTRFS_QGROUPS

type_synonym meta_device = "placed \<times> compound_type"

text \<open>The subvolume of a quota group, or its btrfs.\<close>

definition qgroup_meta :: "devicegraph \<Rightarrow> nat \<Rightarrow> meta_device result" where
  "qgroup_meta rhs v =
     (if has_btrfs_subvolume rhs v
      then emap (\<lambda>w. ((RHS, w), NORMAL)) (get_btrfs_subvolume rhs v)
      else emap (\<lambda>w. ((RHS, w), BTRFS_QGROUPS)) (qgroup_btrfs rhs v))"

text \<open>
  The btrfs of a deleted quota group is looked up in the new graph, so that creations and deletions
  come together.
\<close>

definition redirect_to_rhs :: "devicegraph \<Rightarrow> devicegraph \<Rightarrow> nat \<Rightarrow> meta_device result" where
  "redirect_to_rhs lhs rhs w =
     (case sid_of lhs w of
        None \<Rightarrow> Inl UndefinedBehaviour
      | Some sid \<Rightarrow> emap (\<lambda>u. ((RHS, u), BTRFS_QGROUPS)) (find_vertex rhs sid))"

definition device_meta :: "devicegraph \<Rightarrow> devicegraph \<Rightarrow> action \<Rightarrow> meta_device result" where
  "device_meta lhs rhs a =
     (if a_kind a = OtherAction ''SetQuota''
      then ebind (find_vertex rhs (a_sid a)) (\<lambda>v.
           emap (\<lambda>w. ((RHS, w), BTRFS_QUOTA)) (to_device_of_type (\<lambda>c. c = C_Btrfs) rhs v))
      else if is_create a
      then ebind (find_vertex rhs (a_sid a)) (\<lambda>v.
           if has_class is_btrfs_qgroup rhs v then qgroup_meta rhs v
           else emap (\<lambda>t. (t, NORMAL)) (action_target_device lhs rhs a))
      else if is_delete a
      then ebind (find_vertex lhs (a_sid a)) (\<lambda>v.
           if has_class is_btrfs_qgroup lhs v then ebind (qgroup_btrfs lhs v) (redirect_to_rhs lhs rhs)
           else emap (\<lambda>t. (t, NORMAL)) (action_target_device lhs rhs a))
      else if a_kind a = OtherAction ''SetLimits''
      then ebind (find_vertex rhs (a_sid a)) (\<lambda>v.
           ebind (to_device_of_type is_btrfs_qgroup rhs v) (qgroup_meta rhs))
      else emap (\<lambda>t. (t, NORMAL)) (action_target_device lhs rhs a))"

definition is_qgroup_relation :: "edge \<Rightarrow> bool" where
  "is_qgroup_relation e \<longleftrightarrow> h_class (e_holder e) = C_BtrfsQgroupRelation"

definition holder_meta :: "devicegraph \<Rightarrow> devicegraph \<Rightarrow> action \<Rightarrow> nat \<Rightarrow> nat \<Rightarrow> meta_device result" where
  "holder_meta lhs rhs a ssid tsid =
     (if is_create a
      then ebind (find_edge rhs ssid tsid) (\<lambda>e.
           if is_qgroup_relation e
           then emap (\<lambda>w. ((RHS, w), BTRFS_QGROUPS)) (relation_btrfs rhs e)
           else Inl (Exn ''get_meta_device failed''))
      else if is_delete a
      then ebind (find_edge lhs ssid tsid) (\<lambda>e.
           if is_qgroup_relation e then ebind (relation_btrfs lhs e) (redirect_to_rhs lhs rhs)
           else Inl (Exn ''get_meta_device failed''))
      else Inl (Exn ''get_meta_device failed''))"

definition get_meta_device :: "devicegraph \<Rightarrow> devicegraph \<Rightarrow> action \<Rightarrow> meta_device result" where
  "get_meta_device lhs rhs a =
     (case a_affect a of
        AffectDevice _ \<Rightarrow> device_meta lhs rhs a
      | AffectHolder ssid tsid \<Rightarrow> holder_meta lhs rhs a ssid tsid)"

section \<open>Compound actions\<close>

record compound_action =
  ca_target :: placed
  ca_type :: compound_type
  ca_actions :: "action list"

definition ca_key :: "compound_action \<Rightarrow> meta_device" where
  "ca_key c = (ca_target c, ca_type c)"

text \<open>The action goes to the first compound action with the device and the type, or to a new one.\<close>

fun add_to_compound :: "action \<Rightarrow> meta_device \<Rightarrow> compound_action list \<Rightarrow> compound_action list" where
  "add_to_compound a k [] = [\<lparr>ca_target = fst k, ca_type = snd k, ca_actions = [a]\<rparr>]"
| "add_to_compound a k (c # cs) =
     (if ca_key c = k then c\<lparr>ca_actions := ca_actions c @ [a]\<rparr> # cs else c # add_to_compound a k cs)"

definition generate_compounds :: "devicegraph \<Rightarrow> devicegraph \<Rightarrow> action list \<Rightarrow> compound_action list result" where
  "generate_compounds lhs rhs as =
     efold (\<lambda>a cs. ebind (get_meta_device lhs rhs a) (\<lambda>k. Inr (add_to_compound a k cs))) as []"

text \<open>A compound action deletes its device when one of its actions deletes something of that target.\<close>

fun ca_is_delete_from :: "devicegraph \<Rightarrow> devicegraph \<Rightarrow> placed \<Rightarrow> action list \<Rightarrow> bool result" where
  "ca_is_delete_from lhs rhs t [] = Inr False"
| "ca_is_delete_from lhs rhs t (a # as) =
     (if is_delete a \<and> affects_device a
      then ebind (action_target_device lhs rhs a) (\<lambda>t'.
           if t' = t then Inr True else ca_is_delete_from lhs rhs t as)
      else ca_is_delete_from lhs rhs t as)"

definition ca_is_delete :: "devicegraph \<Rightarrow> devicegraph \<Rightarrow> compound_action \<Rightarrow> bool result" where
  "ca_is_delete lhs rhs c = ca_is_delete_from lhs rhs (ca_target c) (ca_actions c)"

definition find_by_target_device :: "compound_action list \<Rightarrow> placed \<Rightarrow> compound_action result" where
  "find_by_target_device cs t =
     (case find (\<lambda>c. ca_target c = t) cs of None \<Rightarrow> Inl DeviceNotFound | Some c \<Rightarrow> Inr c)"

section \<open>The search for the target ends\<close>

lemma blk_device_class:
  assumes "is_blk_device c"
  shows "\<not> is_partition_table c" "\<not> is_lvm_pv c" "\<not> is_blk_filesystem c" "\<not> is_mount_point c"
  using assms
  by (auto simp: is_blk_device_def blk_device_classes_def is_partition_table_def is_lvm_pv_def is_blk_filesystem_def
    fs_type_named_def is_mount_point_def List.member_iff split: device_class.splits)

lemma get_single_parent_class:
  assumes "get_single_parent P g v = Inr w"
  shows "w \<in> set (parents g VIEW_CLASSIC v) \<and> (\<exists>c. class_of g w = Inr c \<and> P c)"
proof -
  from assms obtain c where "parent g VIEW_CLASSIC v = Inr w" "class_of g w = Inr c" "P c"
    by (auto simp: get_single_parent_def to_device_of_type_def result_simps split: if_splits)
  then show ?thesis
    by (auto simp: parent_def in_edge_def parents_def result_simps split: list.splits)
qed

lemma blk_parent_class:
  assumes "w \<in> set (get_parents_of_type P g view v)"
  shows "w \<in> set (parents g view v) \<and> (\<exists>c. class_of g w = Inr c \<and> P c)"
  using assms by (auto simp: get_parents_of_type_def has_class_def class_of_def split: option.splits)

lemma get_single_parent_ends: "get_single_parent P g v \<noteq> Inl Diverges"
  by (auto simp: get_single_parent_def to_device_of_type_def class_of_def parent_def in_edge_def result_simps
    split: if_splits list.splits option.splits)

lemma target_of_blk_device:
  assumes "class_of g w = Inr c" "is_blk_device c"
  shows "target_device (Suc n) g w = target_device 1 g w" "target_device 1 g w \<noteq> Inl Diverges"
  using assms blk_device_class [OF assms(2)] get_single_parent_ends by simp_all

text \<open>Two ways to go on that agree on every device of a class agree after the search for it.\<close>

lemma same_on_parent:
  assumes "\<And>w c. class_of g w = Inr c \<Longrightarrow> P c \<Longrightarrow> f w = h w \<and> h w \<noteq> Inl Diverges"
  shows "ebind (get_single_parent P g v) f = ebind (get_single_parent P g v) h"
    and "ebind (get_single_parent P g v) h \<noteq> Inl Diverges"
  using get_single_parent_class [of P g v] get_single_parent_ends [of P g v] assms
  by (cases "get_single_parent P g v"; auto)+

lemma same_on_only_parent:
  assumes "\<And>w c. class_of g w = Inr c \<Longrightarrow> P c \<Longrightarrow> f w = h w \<and> h w \<noteq> Inl Diverges"
  shows "(case get_parents_of_type P g view v of [] \<Rightarrow> Inl UndefinedBehaviour | [w] \<Rightarrow> f w | _ \<Rightarrow> Inr v) =
      (case get_parents_of_type P g view v of [] \<Rightarrow> Inl UndefinedBehaviour | [w] \<Rightarrow> h w | _ \<Rightarrow> Inr v)"
    and "(case get_parents_of_type P g view v of [] \<Rightarrow> Inl UndefinedBehaviour | [w] \<Rightarrow> h w | _ \<Rightarrow> Inr v) \<noteq> Inl Diverges"
  using blk_parent_class [of _ P g view v] assms(1)
  by (cases "get_parents_of_type P g view v"; fastforce split: list.splits)+

lemma target_step:
  assumes blk: "\<And>w c. class_of g w = Inr c \<Longrightarrow> is_blk_device c \<Longrightarrow>
      target_device n g w = target_device m g w \<and> target_device m g w \<noteq> Inl Diverges"
    and mnt: "\<And>w c. class_of g w = Inr c \<Longrightarrow> is_mountable c \<Longrightarrow> has_class is_mount_point g v \<Longrightarrow>
      target_device n g w = target_device m g w \<and> target_device m g w \<noteq> Inl Diverges"
  shows "target_device (Suc n) g v = target_device (Suc m) g v \<and> target_device (Suc m) g v \<noteq> Inl Diverges"
proof (cases "class_of g v")
  case (Inl e)
  then show ?thesis by (auto simp: class_of_def split: option.splits)
next
  case (Inr c)
  note pv = same_on_parent [where P = is_blk_device and g = g and v = v, OF blk]
  note fs = same_on_only_parent [where P = is_blk_device and g = g and v = v and view = VIEW_CLASSIC, OF blk]
  consider (table) "is_partition_table c" | (enc) "\<not> is_partition_table c" "is_encryption c"
    | (pv) "\<not> is_partition_table c" "\<not> is_encryption c" "is_lvm_pv c"
    | (fs) "\<not> is_partition_table c" "\<not> is_encryption c" "\<not> is_lvm_pv c" "is_blk_filesystem c"
    | (mp) "\<not> is_partition_table c" "\<not> is_encryption c" "\<not> is_lvm_pv c" "\<not> is_blk_filesystem c" "is_mount_point c"
    | (other) "\<not> is_partition_table c" "\<not> is_encryption c" "\<not> is_lvm_pv c" "\<not> is_blk_filesystem c" "\<not> is_mount_point c"
    by blast
  then show ?thesis
  proof cases
    case mp
    then have "has_class is_mount_point g v"
      using Inr by (auto simp: class_of_def has_class_def split: option.splits)
    note same_on_parent [where P = is_mountable and g = g and v = v, OF mnt [OF _ _ this]]
    then show ?thesis using mp Inr by simp
  qed (use Inr pv fs get_single_parent_ends [of _ g v] in simp_all)
qed

lemma target_above_blk_device:
  assumes "\<not> has_class is_mount_point g v"
  shows "target_device (Suc (Suc n)) g v = target_device 2 g v \<and> target_device 2 g v \<noteq> Inl Diverges"
proof -
  have "target_device (Suc (Suc n)) g v = target_device (Suc 1) g v \<and> target_device (Suc 1) g v \<noteq> Inl Diverges"
  proof (rule target_step)
    fix w c assume "class_of g w = Inr c" "is_blk_device c"
    then show "target_device (Suc n) g w = target_device 1 g w \<and> target_device 1 g w \<noteq> Inl Diverges"
      using target_of_blk_device by blast
  qed (use assms in simp)
  then show ?thesis unfolding Suc_1 .
qed

lemma target_device_ends:
  "target_device (Suc (Suc (Suc n))) g v = get_target_device g v \<and> get_target_device g v \<noteq> Inl Diverges"
proof -
  have *: "target_device (Suc (Suc n)) g w = target_device 2 g w \<and> target_device 2 g w \<noteq> Inl Diverges"
    if "class_of g w = Inr c" "\<not> is_mount_point c" for w c
    using that by (intro target_above_blk_device) (auto simp: class_of_def has_class_def split: option.splits)
  have "\<not> is_mount_point c" if "is_mountable c" for c
    using that by (auto simp: is_mountable_def is_btrfs_subvolume_def is_blk_filesystem_def fs_type_named_def is_mount_point_def)
  with * blk_device_class(4) have
    "target_device (Suc (Suc (Suc n))) g v = target_device (Suc 2) g v \<and> target_device (Suc 2) g v \<noteq> Inl Diverges"
    by (intro target_step) auto
  moreover have "Suc 2 = (3::nat)" by simp
  ultimately show ?thesis unfolding get_target_device_def by (simp del: target_device.simps)
qed

text \<open>The target is the device itself or one below it.\<close>

lemma target_below:
  "target_device n g v = Inr t \<Longrightarrow> (t, v) \<in> {(p, c). p \<in> set (parents g VIEW_CLASSIC c)}\<^sup>*"
proof (induction n arbitrary: v)
  case 0
  then show ?case by simp
next
  case (Suc n)
  let ?R = "{(p, c). p \<in> set (parents g VIEW_CLASSIC c)}"
  have step: "(t, v) \<in> ?R\<^sup>*" if "w \<in> set (parents g VIEW_CLASSIC v)" "(t, w) \<in> ?R\<^sup>*" for w
    using that by (auto intro: rtrancl_into_rtrancl)
  have single: "(t, v) \<in> ?R\<^sup>*" if "get_single_parent P g v = Inr w" "(t, w) \<in> ?R\<^sup>*" for P w
    using get_single_parent_class [OF that(1)] step [OF _ that(2)] by blast
  have only: "(t, v) \<in> ?R\<^sup>*" if "get_parents_of_type P g VIEW_CLASSIC v = [w]" "(t, w) \<in> ?R\<^sup>*" for P w
    using blk_parent_class [of w P g VIEW_CLASSIC v] that step by auto
  from Suc.prems show ?case
    by (auto simp: result_simps split: if_splits list.splits intro: single only Suc.IH)
qed

section \<open>Every action is in one compound action\<close>

text \<open>The devices of all actions, or the first error.\<close>

fun meta_devices :: "devicegraph \<Rightarrow> devicegraph \<Rightarrow> action list \<Rightarrow> meta_device list result" where
  "meta_devices lhs rhs [] = Inr []"
| "meta_devices lhs rhs (a # as) =
     ebind (get_meta_device lhs rhs a) (\<lambda>k. emap (Cons k) (meta_devices lhs rhs as))"

definition in_order_of_first :: "'a list \<Rightarrow> 'a list" where
  "in_order_of_first xs = rev (remdups (rev xs))"

definition compound_of :: "(meta_device \<Rightarrow> action list) \<Rightarrow> meta_device \<Rightarrow> compound_action" where
  "compound_of f k = \<lparr>ca_target = fst k, ca_type = snd k, ca_actions = f k\<rparr>"

definition grouped :: "(meta_device \<times> action) list \<Rightarrow> compound_action list" where
  "grouped xs =
     List.map (compound_of (\<lambda>k. List.map snd (filter (\<lambda>x. fst x = k) xs))) (in_order_of_first (List.map fst xs))"

lemma ca_key_compound_of [simp]: "ca_key (compound_of f k) = k"
  by (simp add: ca_key_def compound_of_def)

lemma add_to_compounds:
  assumes "distinct ks"
  shows "add_to_compound a k (List.map (compound_of f) ks) =
    (if k \<in> set ks then List.map (compound_of (f(k := f k @ [a]))) ks
     else List.map (compound_of f) ks @ [compound_of (\<lambda>_. [a]) k])"
  using assms
proof (induction ks)
  case Nil
  then show ?case by (simp add: compound_of_def)
next
  case (Cons k' ks)
  then show ?case
  proof (cases "k' = k")
    case True
    then have "List.map (compound_of (f(k := f k @ [a]))) ks = List.map (compound_of f) ks"
      using Cons.prems by (intro list.map_cong0) (auto simp: compound_of_def)
    then show ?thesis using True by (simp add: compound_of_def ca_key_def)
  next
    case False
    then have "compound_of (f(k := f k @ [a])) k' = compound_of f k'" by (simp add: compound_of_def)
    moreover have "k \<in> set (k' # ks) \<longleftrightarrow> k \<in> set ks" using False by auto
    ultimately show ?thesis using False Cons.IH Cons.prems by (simp del: fun_upd_apply)
  qed
qed

lemma grouped_snoc: "grouped (xs @ [(k, a)]) = add_to_compound a k (grouped xs)"
proof -
  let ?ks = "in_order_of_first (List.map fst xs)"
  let ?f = "\<lambda>k. List.map snd (filter (\<lambda>x. fst x = k) xs)"
  let ?g = "\<lambda>k'. List.map snd (filter (\<lambda>x. fst x = k') (xs @ [(k, a)]))"
  have ks: "distinct ?ks" "set ?ks = fst ` set xs" by (simp_all add: in_order_of_first_def)
  have g: "?g = ?f(k := ?f k @ [a])" by (auto simp: fun_eq_iff)
  show ?thesis
  proof (cases "k \<in> fst ` set xs")
    case True
    then have "in_order_of_first (List.map fst (xs @ [(k, a)])) = ?ks" by (simp add: in_order_of_first_def)
    then show ?thesis using True ks by (simp add: grouped_def add_to_compounds g [simplified])
  next
    case False
    then have "in_order_of_first (List.map fst (xs @ [(k, a)])) = ?ks @ [k]" by (simp add: in_order_of_first_def)
    moreover have "compound_of ?g k' = compound_of ?f k'" if "k' \<in> set ?ks" for k'
      using that False ks by (auto simp: compound_of_def)
    moreover have "compound_of ?g k = compound_of (\<lambda>_. [a]) k"
      using False by (auto simp: compound_of_def filter_empty_conv image_iff)
    ultimately show ?thesis using False ks
      by (simp add: grouped_def add_to_compounds cong: list.map_cong_simp)
  qed
qed

lemma generate_from:
  "efold (\<lambda>a cs. ebind (get_meta_device lhs rhs a) (\<lambda>k. Inr (add_to_compound a k cs))) as (grouped xs) =
    emap (\<lambda>ks. grouped (xs @ zip ks as)) (meta_devices lhs rhs as)"
proof (induction as arbitrary: xs)
  case Nil
  then show ?case by simp
next
  case (Cons a as)
  then show ?case
  proof (cases "get_meta_device lhs rhs a")
    case (Inr k)
    then show ?thesis using Cons.IH [of "xs @ [(k, a)]"]
      by (cases "meta_devices lhs rhs as") (simp_all add: grouped_snoc)
  qed simp
qed

text \<open>
  C25: The compound actions are the groups of the actions with the same device and type: in the order in
  which the devices come first, each with its actions in the order of the commit, and every action is
  in one of them. They cannot be generated exactly when an action has no device, and the error is
  that of the first such action.
\<close>

theorem generate_groups:
  "generate_compounds lhs rhs as = emap (\<lambda>ks. grouped (zip ks as)) (meta_devices lhs rhs as)"
  using generate_from [of lhs rhs as "[]"] by (simp add: generate_compounds_def grouped_def in_order_of_first_def)

text \<open>Nothing is lost or done twice, and no two compound actions have the same device and type.\<close>

lemma length_meta_devices: "meta_devices lhs rhs as = Inr ks \<Longrightarrow> length ks = length as"
  by (induction as arbitrary: ks) (auto simp: result_simps)

lemma mset_groups:
  "distinct ks \<Longrightarrow> mset (concat (List.map (\<lambda>k. List.map snd (filter (\<lambda>x. fst x = k) xs)) ks)) =
    image_mset snd (filter_mset (\<lambda>x. fst x \<in> set ks) (mset xs))"
proof (induction ks)
  case Nil
  then show ?case by simp
next
  case (Cons k ks)
  have "filter_mset (\<lambda>x. fst x = k \<or> fst x \<in> set ks) (mset xs) =
      filter_mset (\<lambda>x. fst x = k) (mset xs) + filter_mset (\<lambda>x. fst x \<in> set ks) (mset xs)"
    using Cons.prems by (intro multiset_eqI) auto
  then show ?case using Cons by simp
qed

lemma generate_keeps_actions:
  assumes "generate_compounds lhs rhs as = Inr cs"
  shows "mset (concat (List.map ca_actions cs)) = mset as" and "distinct (List.map ca_key cs)"
proof -
  obtain ks where ks: "meta_devices lhs rhs as = Inr ks" and cs: "cs = grouped (zip ks as)"
    using assms generate_from [of lhs rhs as "[]"]
    by (cases "meta_devices lhs rhs as") (auto simp: generate_compounds_def grouped_def in_order_of_first_def)
  let ?o = "in_order_of_first (List.map fst (zip ks as))"
  have o: "distinct ?o" "set ?o = fst ` set (zip ks as)" by (simp_all add: in_order_of_first_def)
  have all: "filter_mset (\<lambda>x. fst x \<in> set ?o) (mset (zip ks as)) = mset (zip ks as)"
    unfolding mset_filter [symmetric] by (subst filter_True) (auto simp: o(2))
  have "List.map ca_actions cs = List.map (\<lambda>k. List.map snd (filter (\<lambda>x. fst x = k) (zip ks as))) ?o"
    by (simp add: cs grouped_def compound_of_def)
  then show "mset (concat (List.map ca_actions cs)) = mset as"
    using mset_groups [OF o(1), of "zip ks as"] length_meta_devices [OF ks] unfolding all
    by (simp flip: mset_map)
  show "distinct (List.map ca_key cs)" using o(1) by (simp add: cs grouped_def comp_def)
qed

text \<open>An unmount is a deletion for \<open>is_delete\<close>, so unmounting a partition reads as deleting it.\<close>

lemma unmount_counts_as_delete:
  assumes "a_kind a = Unmount path swap" "affects_device a" "action_target_device lhs rhs a = Inr t"
  shows "ca_is_delete lhs rhs \<lparr>ca_target = t, ca_type = NORMAL, ca_actions = [a]\<rparr> = Inr True"
  using assms by (simp add: ca_is_delete_def is_delete_def)

end
