(* ===== verification/Bcache.thy ===== *)
theory Bcache
  imports CompoundActions Algorithm Decimal
begin

text \<open>
  Bcaches (storage/Devices/BcacheImpl.cc, BcacheCsetImpl.cc): their names and numbers, which the
  kernel assigns, the caching sets, sizes and actions. The numbers are assigned again whenever a
  device is removed, so that each bcache has the number the kernel will give it.
\<close>

section \<open>Names and numbers\<close>

text \<open>
  \<open>device_to_name_and_number\<close> (Utils/AppUtil.cc): the digits at the end of a name. \<open>atoi\<close> of a
  number beyond \<open>int\<close> is undefined.
\<close>

definition device_to_name_and_number :: "string \<Rightarrow> (string \<times> u32) result" where
  "device_to_name_and_number name =
     (let digits = rev (takeWhile is_digit (rev name));
          pre = take (length name - length digits) name
      in if pre = [] \<or> digits = [] then Inl (Exn ''device name has no number'')
         else if number_of_digits digits < 2 ^ 31 then Inr (pre, word_of_int (number_of_digits digits))
         else Inl UndefinedBehaviour)"

definition name_and_number_to_device :: "string \<Rightarrow> u32 \<Rightarrow> string" where
  "name_and_number_to_device name number = name @ decimal (uint number)"

datatype bcache_type = BACKED | FLASH_ONLY

datatype cache_mode = WRITETHROUGH | WRITEBACK | WRITEAROUND | CACHE_NONE

record bcache =
  bc_sid :: nat
  bc_name :: string
  bc_sysfs_name :: string
  bc_sysfs_path :: string
  bc_type :: bcache_type
  bc_cache_mode :: cache_mode
  bc_sequential_cutoff :: u64
  bc_writeback_percent :: u32

text \<open>\<open>substr\<close> throws for a position behind the end.\<close>

definition bc_update_sysfs :: "bcache \<Rightarrow> bcache result" where
  "bc_update_sysfs b =
     (if length (bc_name b) < 5 then Inl (Exn ''out of range'')
      else Inr (b\<lparr>bc_sysfs_name := drop 5 (bc_name b),
                  bc_sysfs_path := ''/devices/virtual/block/'' @ drop 5 (bc_name b)\<rparr>))"

definition bcache_new :: "nat \<Rightarrow> string \<Rightarrow> bcache_type \<Rightarrow> bcache result" where
  "bcache_new sid name t =
     bc_update_sysfs
       (let b = \<lparr>bc_sid = sid, bc_name = name, bc_sysfs_name = [], bc_sysfs_path = [], bc_type = t,
             bc_cache_mode = CACHE_NONE, bc_sequential_cutoff = 0, bc_writeback_percent = 0\<rparr>
        in if t = BACKED
           then b\<lparr>bc_cache_mode := WRITETHROUGH, bc_sequential_cutoff := 8 * MiB, bc_writeback_percent := 10\<rparr>
           else b)"

definition is_valid_bcache_name :: "string \<Rightarrow> bool" where
  "is_valid_bcache_name name \<longleftrightarrow>
     take 11 name = ''/dev/bcache'' \<and> drop 11 name \<noteq> [] \<and> list_all is_digit (drop 11 name)"

definition bc_number :: "bcache \<Rightarrow> u32 result" where
  "bc_number b = emap snd (device_to_name_and_number (bc_name b))"

definition bc_set_number :: "u32 \<Rightarrow> bcache \<Rightarrow> bcache result" where
  "bc_set_number n b =
     ebind (device_to_name_and_number (bc_name b)) (\<lambda>(pre, _).
       bc_update_sysfs (b\<lparr>bc_name := name_and_number_to_device pre n\<rparr>))"

text \<open>All bcaches sorted by their numbers, which differ.\<close>

fun with_numbers :: "bcache list \<Rightarrow> (u32 \<times> bcache) list result" where
  "with_numbers [] = Inr []"
| "with_numbers (b # bs) = ebind (bc_number b) (\<lambda>n. emap (Cons (n, b)) (with_numbers bs))"

definition by_number :: "bcache list \<Rightarrow> (u32 \<times> bcache) list result" where
  "by_number bs = emap (sort_key fst) (with_numbers bs)"

definition bcache_name :: "u32 \<Rightarrow> string" where
  "bcache_name n = ''/dev/bcache'' @ decimal (uint n)"

definition find_free_name :: "bcache list \<Rightarrow> string result" where
  "find_free_name bs =
     emap (\<lambda>nbs. bcache_name (first_missing_number fst nbs 0)) (by_number bs)"

section \<open>Assigning the numbers again\<close>

text \<open>
  One round: the first bcache with a number above the free one that is not in the system gets the
  free number. \<open>probed\<close> are the sids of the probed devicegraph.
\<close>

definition reassign_step :: "nat set \<Rightarrow> bcache list \<Rightarrow> bcache list option result" where
  "reassign_step probed bs =
     ebind (find_free_name bs) (\<lambda>free_name.
     ebind (device_to_name_and_number free_name) (\<lambda>(_, free).
     ebind (by_number bs) (\<lambda>nbs.
       case find (\<lambda>(n, b). free < n \<and> bc_sid b \<notin> probed) nbs of
         None \<Rightarrow> Inr None
       | Some (n, b) \<Rightarrow>
           ebind (bc_set_number free b) (\<lambda>b'. Inr (Some (List.map (\<lambda>c. if c = b then b' else c) bs))))))"

definition number_or_0 :: "bcache \<Rightarrow> nat" where
  "number_or_0 b = (case bc_number b of Inr n \<Rightarrow> unat n | Inl _ \<Rightarrow> 0)"

definition weight :: "nat set \<Rightarrow> bcache list \<Rightarrow> nat" where
  "weight probed bs = sum_list (List.map (\<lambda>b. if bc_sid b \<in> probed then 0 else number_or_0 b) bs)"

text \<open>A number that is appended to a name without digits at its end is read back.\<close>

lemma int_of_char: "(of_char c :: int) = int (of_char c)"
  by (simp add: of_char_def)

lemma device_to_name_and_number_parts:
  assumes "device_to_name_and_number name = Inr (pre, n)"
  shows "pre \<noteq> []" "\<not> is_digit (last pre)" "unat n < 2 ^ 31"
proof -
  let ?ds = "rev (takeWhile is_digit (rev name))"
  have pre: "pre = take (length name - length ?ds) name" "pre \<noteq> []" "number_of_digits ?ds < 2 ^ 31"
    "n = word_of_int (number_of_digits ?ds)"
    using assms by (auto simp: device_to_name_and_number_def Let_def split: if_splits)
  have split: "rev name = takeWhile is_digit (rev name) @ dropWhile is_digit (rev name)" by simp
  have "pre = rev (dropWhile is_digit (rev name))"
    using arg_cong [OF split, of rev] pre(1) by (metis append_eq_conv_conj length_append add_diff_cancel_right' rev_append rev_rev_ident)
  then show "\<not> is_digit (last pre)" using pre(2) hd_dropWhile [of is_digit "rev name"] by (simp add: last_rev)
  show "pre \<noteq> []" by (rule pre(2))
  have "0 \<le> number_of_digits ds" if "\<forall>d \<in> set ds. is_digit d" for ds
    using that
  proof (induction ds rule: rev_induct)
    case (snoc d ds)
    then have "48 \<le> (of_char d :: nat)" by (simp add: is_digit_def)
    then have "0 \<le> digit_value d" by (simp add: digit_value_def int_of_char)
    then show ?case using snoc by (simp add: number_of_digits_snoc)
  qed (simp add: number_of_digits_def)
  then have "0 \<le> number_of_digits ?ds" by (metis set_rev set_takeWhileD)
  then show "unat n < 2 ^ 31" using pre(3,4) by (simp add: unat_eq_nat_uint uint_word_of_int nat_less_iff)
qed

lemma digits_appended:
  assumes "pre \<noteq> []" "\<not> is_digit (last pre)" "ds \<noteq> []" "\<forall>d \<in> set ds. is_digit d"
  shows "device_to_name_and_number (pre @ ds) =
    (if number_of_digits ds < 2 ^ 31 then Inr (pre, word_of_int (number_of_digits ds)) else Inl UndefinedBehaviour)"
proof -
  have "is_digit x" if "x \<in> set (rev ds)" for x using assms(4) that by simp
  from takeWhile_append2 [where P = is_digit and xs = "rev ds" and ys = "rev pre", OF this]
  have "takeWhile is_digit (rev ds @ rev pre) = rev ds"
    using assms(1,2) by (cases pre rule: rev_cases) simp_all
  then show ?thesis using assms(1,3) by (simp add: device_to_name_and_number_def)
qed

lemma number_appended:
  assumes "pre \<noteq> []" "\<not> is_digit (last pre)" "unat n < 2 ^ 31"
  shows "device_to_name_and_number (name_and_number_to_device pre n) = Inr (pre, n)"
proof -
  have "int (unat n) < int (2 ^ 31)" using assms(3) by (simp only: of_nat_less_iff)
  then have n: "0 \<le> uint n" "uint n < 2 ^ 31" by simp_all
  note d = decimal_facts [OF n(1)]
  show ?thesis
    using n(2) unfolding name_and_number_to_device_def digits_appended [OF assms(1,2) d(1,2)] d(3) by simp
qed

lemma valid_name_parts:
  assumes "is_valid_bcache_name name"
  obtains ds where "name = ''/dev/bcache'' @ ds" "ds \<noteq> []" "\<forall>d \<in> set ds. is_digit d"
  using assms append_take_drop_id [of 11 name] unfolding is_valid_bcache_name_def list_all_iff by metis

lemma valid_name_number:
  assumes "is_valid_bcache_name name" "device_to_name_and_number name = Inr (pre, n)"
  shows "pre = ''/dev/bcache''"
proof -
  from valid_name_parts [OF assms(1)] obtain ds where "name = ''/dev/bcache'' @ ds" "ds \<noteq> []" "\<forall>d \<in> set ds. is_digit d" .
  with digits_appended [of "''/dev/bcache''" ds] assms(2) show ?thesis by (auto simp: is_digit_def split: if_splits)
qed

lemma valid_name_decimal: "is_valid_bcache_name (bcache_name n)"
  using decimal_facts [of "uint n"] by (simp add: bcache_name_def is_valid_bcache_name_def list_all_iff)

lemma number_of_free_name:
  assumes "unat n < 2 ^ 31"
  shows "device_to_name_and_number (bcache_name n) = Inr (''/dev/bcache'', n)"
  using number_appended [of "''/dev/bcache''" n] assms by (simp add: bcache_name_def name_and_number_to_device_def is_digit_def)

lemma bc_set_number:
  assumes "bc_set_number n b = Inr b'" "unat n < 2 ^ 31"
  shows "bc_number b' = Inr n" "bc_sid b' = bc_sid b" "bc_type b' = bc_type b"
proof -
  obtain pre m where pre: "device_to_name_and_number (bc_name b) = Inr (pre, m)"
    using assms(1) by (auto simp: bc_set_number_def result_simps)
  note parts = device_to_name_and_number_parts [OF pre]
  note ap = number_appended [OF parts(1,2) assms(2)]
  show "bc_number b' = Inr n" "bc_sid b' = bc_sid b" "bc_type b' = bc_type b"
    using assms(1) ap by (auto simp: bc_set_number_def pre bc_update_sysfs_def bc_number_def split: if_splits)
qed

lemma bc_set_number_valid:
  assumes "is_valid_bcache_name (bc_name b)" "bc_number b = Inr m"
  shows "\<exists>b'. bc_set_number n b = Inr b' \<and> is_valid_bcache_name (bc_name b')"
proof -
  obtain pre where pre: "device_to_name_and_number (bc_name b) = Inr (pre, m)"
    using assms(2) by (auto simp: bc_number_def result_simps)
  then have "pre = ''/dev/bcache''" using valid_name_number assms(1) by blast
  then show ?thesis
    using pre valid_name_decimal [of n] by (simp add: bc_set_number_def bc_update_sysfs_def name_and_number_to_device_def bcache_name_def)
qed

text \<open>Every round makes the numbers of the bcaches that are not in the system smaller.\<close>

lemma with_numbers:
  "with_numbers bs = Inr nbs \<Longrightarrow> List.map snd nbs = bs \<and> (\<forall>(n, b) \<in> set nbs. bc_number b = Inr n)"
  by (induction bs arbitrary: nbs) (auto simp: result_simps)

lemma by_number:
  assumes "by_number bs = Inr nbs"
  shows "(n, b) \<in> set nbs \<longleftrightarrow> b \<in> set bs \<and> bc_number b = Inr n" and "sorted (List.map fst nbs)"
proof -
  obtain xs where xs: "with_numbers bs = Inr xs" "nbs = sort_key fst xs"
    using assms by (auto simp: by_number_def result_simps)
  show "(n, b) \<in> set nbs \<longleftrightarrow> b \<in> set bs \<and> bc_number b = Inr n"
    using with_numbers [OF xs(1)] xs(2) by force
  show "sorted (List.map fst nbs)" by (simp add: xs(2))
qed

lemma reassign_step_found:
  assumes "reassign_step probed bs = Inr (Some bs')"
  obtains free n b b' where "free < n" "unat free < 2 ^ 31" "bc_sid b \<notin> probed" "b \<in> set bs" "bc_number b = Inr n"
    "bc_set_number free b = Inr b'" "bs' = List.map (\<lambda>c. if c = b then b' else c) bs"
proof -
  from assms obtain free_name pre free nbs n b b' where f: "find_free_name bs = Inr free_name"
      "device_to_name_and_number free_name = Inr (pre, free)" "by_number bs = Inr nbs"
      "find (\<lambda>(n, b). free < n \<and> bc_sid b \<notin> probed) nbs = Some (n, b)"
      "bc_set_number free b = Inr b'" "bs' = List.map (\<lambda>c. if c = b then b' else c) bs"
    by (auto simp: reassign_step_def result_simps split: option.splits)
  have "(n, b) \<in> set nbs" using f(4) by (metis find_Some_iff nth_mem)
  moreover have "free < n" "bc_sid b \<notin> probed" using f(4) by (auto simp: find_Some_iff)
  ultimately show thesis
    using that f(5,6) by_number(1) [OF f(3)] device_to_name_and_number_parts(3) [OF f(2)] by blast
qed

lemma sum_list_less:
  fixes f g :: "'a \<Rightarrow> nat"
  assumes "x \<in> set xs" "f x < g x" "\<And>y. y \<in> set xs \<Longrightarrow> f y \<le> g y"
  shows "sum_list (List.map f xs) < sum_list (List.map g xs)"
  using assms
proof (induction xs)
  case (Cons y ys)
  have le: "sum_list (List.map f ys) \<le> sum_list (List.map g ys)" using Cons.prems(3) by (intro sum_list_mono) simp
  show ?case
  proof (cases "y = x")
    case True
    then show ?thesis using le Cons.prems(2) by simp
  next
    case False
    then have "sum_list (List.map f ys) < sum_list (List.map g ys)" using Cons by simp
    then show ?thesis using Cons.prems(3) [of y] by simp
  qed
qed simp

lemma reassign_step_weight:
  assumes "reassign_step probed bs = Inr (Some bs')"
  shows "weight probed bs' < weight probed bs"
proof -
  from reassign_step_found [OF assms] obtain free n b b' where f: "free < n" "unat free < 2 ^ 31" "bc_sid b \<notin> probed"
    "b \<in> set bs" "bc_number b = Inr n" "bc_set_number free b = Inr b'"
    "bs' = List.map (\<lambda>c. if c = b then b' else c) bs" .
  note b' = bc_set_number [OF f(6,2)]
  have "unat free < unat n" using f(1) by (simp add: word_less_nat_alt)
  then show ?thesis
    using f(3,5) b' unfolding weight_def f(7) map_map
    by (intro sum_list_less [OF f(4)]) (auto simp: number_or_0_def)
qed

function reassign_numbers :: "nat set \<Rightarrow> bcache list \<Rightarrow> bcache list result" where
  "reassign_numbers probed bs =
     (case reassign_step probed bs of
        Inl e \<Rightarrow> Inl e
      | Inr None \<Rightarrow> Inr bs
      | Inr (Some bs') \<Rightarrow> reassign_numbers probed bs')"
  by pat_completeness auto
termination
  by (relation "measure (\<lambda>(probed, bs). weight probed bs)") (auto intro: reassign_step_weight)

declare reassign_numbers.simps [simp del]

section \<open>The numbers afterwards\<close>

definition bc_ok :: "bcache list \<Rightarrow> bool" where
  "bc_ok bs \<longleftrightarrow>
     (\<forall>b \<in> set bs. is_valid_bcache_name (bc_name b) \<and> bc_number b \<noteq> Inl UndefinedBehaviour) \<and>
     distinct (List.map bc_sid bs) \<and> distinct (List.map number_or_0 bs) \<and> length bs < 2 ^ 31"

text \<open>
  What the comment in the code promises: the bcaches that are not in the system yet have the lowest
  available numbers.
\<close>

definition tight :: "nat set \<Rightarrow> bcache list \<Rightarrow> bool" where
  "tight probed bs \<longleftrightarrow>
     (\<forall>b \<in> set bs. bc_sid b \<notin> probed \<longrightarrow> (\<forall>m < number_or_0 b. m \<in> number_or_0 ` set bs))"

definition renumbered :: "nat set \<Rightarrow> bcache \<Rightarrow> bcache \<Rightarrow> bool" where
  "renumbered probed b b' \<longleftrightarrow>
     bc_sid b' = bc_sid b \<and> bc_type b' = bc_type b \<and> (bc_sid b \<in> probed \<longrightarrow> b' = b)"

lemma valid_bcache_number:
  assumes "is_valid_bcache_name (bc_name b)" "bc_number b \<noteq> Inl UndefinedBehaviour"
  shows "\<exists>n. bc_number b = Inr n \<and> number_or_0 b = unat n"
proof -
  from valid_name_parts [OF assms(1)] obtain ds where "bc_name b = ''/dev/bcache'' @ ds" "ds \<noteq> []" "\<forall>d \<in> set ds. is_digit d" .
  with digits_appended [of "''/dev/bcache''" ds] assms(2) show ?thesis
    by (auto simp: is_digit_def bc_number_def number_or_0_def split: if_splits)
qed

lemma bc_ok_number: "bc_ok bs \<Longrightarrow> b \<in> set bs \<Longrightarrow> \<exists>n. bc_number b = Inr n \<and> number_or_0 b = unat n"
  using valid_bcache_number by (simp add: bc_ok_def)

lemma bc_ok_by_number:
  assumes "bc_ok bs"
  shows "\<exists>nbs. by_number bs = Inr nbs \<and> sorted_wrt (<) (List.map fst nbs) \<and> length nbs = length bs"
proof -
  have num: "\<forall>b \<in> set bs. \<exists>n. bc_number b = Inr n \<and> number_or_0 b = unat n"
    using bc_ok_number [OF assms] by blast
  then have "\<exists>xs. with_numbers bs = Inr xs" by (induction bs) auto
  then obtain xs where xs: "with_numbers bs = Inr xs" by blast
  have snd: "List.map snd xs = bs" "\<forall>(n, b) \<in> set xs. bc_number b = Inr n" using with_numbers [OF xs] by auto
  have "List.map number_or_0 bs = List.map unat (List.map fst xs)"
    using snd(2) unfolding snd(1) [symmetric] by (auto simp: number_or_0_def)
  moreover have "distinct (List.map number_or_0 bs)" using assms by (simp add: bc_ok_def)
  ultimately have "distinct (List.map fst xs)" by (metis distinct_map)
  moreover have "mset (List.map fst (sort_key fst xs)) = mset (List.map fst xs)" by simp
  ultimately have "distinct (List.map fst (sort_key fst xs))" by (metis mset_eq_imp_distinct_iff)
  moreover have "length xs = length bs" using snd(1) by auto
  ultimately show ?thesis using xs by (simp add: by_number_def strict_sorted_iff)
qed

lemma find_free_name_ok:
  assumes "bc_ok bs"
  shows "\<exists>free :: u32. find_free_name bs = Inr (bcache_name free) \<and> unat free \<le> length bs \<and>
    unat free \<notin> number_or_0 ` set bs \<and> (\<forall>m < unat free. m \<in> number_or_0 ` set bs)"
proof -
  obtain nbs where nbs: "by_number bs = Inr nbs" "sorted_wrt (<) (List.map fst nbs)" "length nbs = length bs"
    using bc_ok_by_number [OF assms] by blast
  let ?free = "first_missing_number fst nbs 0"
  have len: "length bs < 4294967296" using assms by (simp add: bc_ok_def)
  note f = first_missing_number_free [OF nbs(2), of 0]
  have free: "?free \<notin> fst ` set nbs" "unat ?free \<le> length bs" "\<And>m. m < ?free \<Longrightarrow> m \<in> fst ` set nbs"
    using f len nbs(3) by simp_all
  have nums: "unat k \<in> number_or_0 ` set bs \<longleftrightarrow> k \<in> fst ` set nbs" for k
  proof
    assume "unat k \<in> number_or_0 ` set bs"
    then obtain b where b: "b \<in> set bs" "unat k = number_or_0 b" by auto
    then have "bc_number b = Inr k" using bc_ok_number [OF assms b(1)] by (metis word_unat_eq_iff)
    then show "k \<in> fst ` set nbs" using by_number(1) [OF nbs(1)] b(1) by force
  next
    assume "k \<in> fst ` set nbs"
    then obtain b where "b \<in> set bs" "bc_number b = Inr k" using by_number(1) [OF nbs(1)] by force
    then show "unat k \<in> number_or_0 ` set bs" by (force simp: number_or_0_def)
  qed
  have "m \<in> number_or_0 ` set bs" if "m < unat ?free" for m
  proof -
    have m: "unat (word_of_nat m :: u32) = m" using that free(2) len by (simp add: unat_of_nat take_bit_nat_eq_self)
    then have "(word_of_nat m :: u32) < ?free" using that by (simp add: word_less_nat_alt)
    from free(3) [OF this] show ?thesis using nums [of "word_of_nat m"] m by simp
  qed
  then show ?thesis using nbs(1) free(1,2) nums [of ?free] by (intro exI [of _ ?free]) (simp add: find_free_name_def)
qed

lemma bc_number_sid:
  assumes "bc_ok bs" "b \<in> set bs" "c \<in> set bs" "number_or_0 b = number_or_0 c"
  shows "b = c"
  using assms unfolding bc_ok_def distinct_map inj_on_def by blast

text \<open>A round succeeds; without a bcache to change the numbers are as promised.\<close>

lemma reassign_step_ok:
  assumes ok: "bc_ok bs"
  shows "\<exists>r. reassign_step probed bs = Inr r"
    and "reassign_step probed bs = Inr None \<Longrightarrow> tight probed bs"
proof -
  obtain free :: u32 where free: "find_free_name bs = Inr (bcache_name free)" "unat free \<le> length bs"
    "unat free \<notin> number_or_0 ` set bs" "\<forall>m < unat free. m \<in> number_or_0 ` set bs"
    using find_free_name_ok [OF ok] by blast
  have f31: "unat free < 2 ^ 31" using free(2) ok by (simp add: bc_ok_def)
  obtain nbs where nbs: "by_number bs = Inr nbs" using bc_ok_by_number [OF ok] by blast
  let ?P = "\<lambda>(n, b). free < n \<and> bc_sid b \<notin> probed"
  have step: "reassign_step probed bs =
      (case find ?P nbs of None \<Rightarrow> Inr None
       | Some (n, b) \<Rightarrow> ebind (bc_set_number free b) (\<lambda>b'. Inr (Some (List.map (\<lambda>c. if c = b then b' else c) bs))))"
    by (simp add: reassign_step_def free(1) number_of_free_name [OF f31] nbs)
  show "\<exists>r. reassign_step probed bs = Inr r"
  proof (cases "find ?P nbs")
    case (Some nb)
    then have "nb \<in> set nbs" by (metis find_Some_iff nth_mem)
    then have "snd nb \<in> set bs" using by_number(1) [OF nbs, of "fst nb" "snd nb"] by simp
    then have "\<exists>b'. bc_set_number free (snd nb) = Inr b'"
      using bc_set_number_valid ok bc_ok_number [OF ok] unfolding bc_ok_def by blast
    then show ?thesis using Some by (auto simp: step split: prod.splits)
  qed (simp add: step)
  assume "reassign_step probed bs = Inr None"
  then have none: "find ?P nbs = None" by (auto simp: step result_simps split: option.splits)
  show "tight probed bs"
    unfolding tight_def
  proof (intro ballI allI impI)
    fix b m assume b: "b \<in> set bs" "bc_sid b \<notin> probed" "m < number_or_0 b"
    obtain n where n: "bc_number b = Inr n" "number_or_0 b = unat n" using bc_ok_number [OF ok b(1)] by blast
    then have "(n, b) \<in> set nbs" using by_number(1) [OF nbs] b(1) by blast
    then have "\<not> free < n" using none b(2) by (auto simp: find_None_iff)
    moreover have "unat n \<noteq> unat free" using free(3) b(1) n(2) by force
    ultimately have "number_or_0 b < unat free" using n(2) by (simp add: word_less_nat_alt)
    then show "m \<in> number_or_0 ` set bs" using free(4) b(3) by simp
  qed
qed

lemma reassign_step_keeps:
  assumes ok: "bc_ok bs" and step: "reassign_step probed bs = Inr (Some bs')"
  shows "bc_ok bs'" and "list_all2 (renumbered probed) bs bs'"
proof -
  obtain free :: u32 where free: "find_free_name bs = Inr (bcache_name free)" "unat free \<le> length bs"
    "unat free \<notin> number_or_0 ` set bs"
    using find_free_name_ok [OF ok] by blast
  have f31: "unat free < 2 ^ 31" using free(2) ok by (simp add: bc_ok_def)
  from step obtain nbs n b b' where f: "by_number bs = Inr nbs"
      "find (\<lambda>(n, b). free < n \<and> bc_sid b \<notin> probed) nbs = Some (n, b)"
      "bc_set_number free b = Inr b'" "bs' = List.map (\<lambda>c. if c = b then b' else c) bs"
    by (auto simp: reassign_step_def free(1) number_of_free_name [OF f31] result_simps split: option.splits)
  have "(n, b) \<in> set nbs" using f(2) by (metis find_Some_iff nth_mem)
  then have b: "b \<in> set bs" using by_number(1) [OF f(1)] by simp
  have new: "bc_sid b \<notin> probed" using f(2) by (auto simp: find_Some_iff)
  note b' = bc_set_number [OF f(3) f31]
  have valid: "is_valid_bcache_name (bc_name b')"
  proof -
    obtain m where "bc_number b = Inr m" using bc_ok_number [OF ok b] by blast
    moreover have "is_valid_bcache_name (bc_name b)" using ok b by (simp add: bc_ok_def)
    ultimately show ?thesis using bc_set_number_valid [of b m free] f(3) by auto
  qed
  have num: "number_or_0 b' = unat free" using b'(1) by (simp add: number_or_0_def)
  have sids: "List.map bc_sid bs' = List.map bc_sid bs" unfolding f(4) using b'(2) by simp
  have "inj_on number_or_0 (set bs')"
  proof (rule inj_onI)
    fix x y assume "x \<in> set bs'" "y \<in> set bs'" "number_or_0 x = number_or_0 y"
    moreover have "z = b' \<or> z \<in> set bs \<and> number_or_0 z \<noteq> number_or_0 b'" if "z \<in> set bs'" for z
      using that free(3) num unfolding f(4) by force
    ultimately show "x = y" using bc_number_sid [OF ok] by metis
  qed
  moreover have "distinct bs'" using sids ok by (metis bc_ok_def distinct_map)
  ultimately have nums: "distinct (List.map number_or_0 bs')" by (simp add: distinct_map)
  have "is_valid_bcache_name (bc_name c) \<and> bc_number c \<noteq> Inl UndefinedBehaviour" if "c \<in> set bs'" for c
    using that valid b'(1) ok unfolding f(4) bc_ok_def by (auto split: if_splits)
  moreover have "length bs' < 2 ^ 31" using ok f(4) by (simp add: bc_ok_def)
  ultimately show "bc_ok bs'" using sids nums ok unfolding bc_ok_def by simp
  show "list_all2 (renumbered probed) bs bs'"
    unfolding f(4) list.rel_map using b' new by (intro list.rel_refl_strong) (auto simp: renumbered_def)
qed

lemma renumbered_trans: "renumbered probed a b \<Longrightarrow> renumbered probed b c \<Longrightarrow> renumbered probed a c"
  by (auto simp: renumbered_def)

lemma reassign_numbers_ok:
  "bc_ok bs \<Longrightarrow> \<exists>bs'. reassign_numbers probed bs = Inr bs' \<and> bc_ok bs' \<and> tight probed bs' \<and>
    list_all2 (renumbered probed) bs bs'"
proof (induction probed bs rule: reassign_numbers.induct)
  case (1 probed bs)
  obtain r where r: "reassign_step probed bs = Inr r" using reassign_step_ok(1) [OF 1(2)] by blast
  show ?case
  proof (cases r)
    case None
    then show ?thesis
      using r 1(2) reassign_step_ok(2) [OF 1(2)]
      by (simp add: reassign_numbers.simps [of probed bs] list.rel_refl renumbered_def)
  next
    case (Some bs1)
    then have step: "reassign_step probed bs = Inr (Some bs1)" using r by simp
    note k = reassign_step_keeps [OF 1(2) step]
    obtain bs' where "reassign_numbers probed bs1 = Inr bs'" "bc_ok bs'" "tight probed bs'"
      "list_all2 (renumbered probed) bs1 bs'"
      using "1.IH" [OF r Some k(1)] by blast
    then show ?thesis
      using step list_all2_trans [OF renumbered_trans k(2)] by (simp add: reassign_numbers.simps [of probed bs])
  qed
qed

section \<open>Creating and removing bcaches\<close>

text \<open>
  \<open>Devicegraph::remove_device\<close> and \<open>remove_devices\<close>: the numbers are assigned again after the
  devices are removed. The bcaches are kept beside the graph.
\<close>

definition remove_devices ::
  "nat set \<Rightarrow> nat list \<Rightarrow> devicegraph \<times> bcache list \<Rightarrow> (devicegraph \<times> bcache list) result" where
  "remove_devices probed vs s =
     (case s of (g, bs) \<Rightarrow>
        let g' = fold remove_vertex vs g
        in emap (Pair g') (reassign_numbers probed (filter (\<lambda>b. device_exists g' (bc_sid b)) bs)))"

text \<open>
  The states of the bcaches of a devicegraph: new ones with the name that \<open>find_free_name\<close> gives, and
  any of them removed.
\<close>

inductive reachable_bcaches :: "nat set \<Rightarrow> bcache list \<Rightarrow> bool" for probed where
  start: "bc_ok bs \<Longrightarrow> bc_sid ` set bs \<subseteq> probed \<Longrightarrow> reachable_bcaches probed bs"
| create: "reachable_bcaches probed bs \<Longrightarrow> find_free_name bs = Inr name \<Longrightarrow> bcache_new sid name t = Inr b \<Longrightarrow>
    sid \<notin> bc_sid ` set bs \<Longrightarrow> length bs < 2 ^ 31 - 1 \<Longrightarrow> reachable_bcaches probed (bs @ [b])"
| remove: "reachable_bcaches probed bs \<Longrightarrow> reassign_numbers probed (filter P bs) = Inr bs' \<Longrightarrow>
    reachable_bcaches probed bs'"

lemma bc_ok_filter: "bc_ok bs \<Longrightarrow> bc_ok (filter P bs)"
  using le_less_trans [OF length_filter_le [of P bs]] by (simp add: bc_ok_def distinct_map_filter)

lemma reachable_bcaches_tight:
  assumes "reachable_bcaches probed bs"
  shows "bc_ok bs \<and> tight probed bs"
  using assms
proof induction
  case (start bs)
  then show ?case by (auto simp: tight_def)
next
  case (create bs name sid t b)
  then have ok: "bc_ok bs" and ti: "tight probed bs" by simp_all
  obtain free :: u32 where free: "name = bcache_name free" "unat free \<le> length bs"
    "unat free \<notin> number_or_0 ` set bs" "\<forall>m < unat free. m \<in> number_or_0 ` set bs"
    using find_free_name_ok [OF ok] create(2) by auto
  have f31: "unat free < 2 ^ 31" using free(2) create(5) by simp
  have b: "bc_name b = bcache_name free" "bc_sid b = sid"
    using create(3) free(1) by (auto simp: bcache_new_def bc_update_sysfs_def Let_def split: if_splits)
  then have n: "bc_number b = Inr free" "number_or_0 b = unat free"
    by (simp_all add: bc_number_def number_or_0_def number_of_free_name [OF f31])
  have "bc_ok (bs @ [b])"
    using ok free(3) n b create(4,5) valid_name_decimal [of free] by (simp add: bc_ok_def)
  moreover have "tight probed (bs @ [b])" using ti free(4) n(2) by (auto simp: tight_def)
  ultimately show ?case by simp
next
  case (remove bs P bs')
  then have "bc_ok (filter P bs)" by (intro bc_ok_filter) simp
  from reassign_numbers_ok [OF this, of probed] remove(2) show ?case by auto
qed

section \<open>The numbers the kernel gives\<close>

text \<open>
  The kernel has a number for every bcache; \<open>alloc\<close> chooses one for a new bcache. The new bcaches
  are created in the order of the list.
\<close>

fun kernel_creates :: "(nat set \<Rightarrow> nat) \<Rightarrow> nat set \<Rightarrow> bcache list \<Rightarrow> (nat \<times> nat) list" where
  "kernel_creates alloc used [] = []"
| "kernel_creates alloc used (b # bs) =
     (bc_sid b, alloc used) # kernel_creates alloc (insert (alloc used) used) bs"

definition created_bcaches :: "nat set \<Rightarrow> bcache list \<Rightarrow> bcache list" where
  "created_bcaches probed bs = sort_key number_or_0 (filter (\<lambda>b. bc_sid b \<notin> probed) bs)"

definition kept_numbers :: "nat set \<Rightarrow> bcache list \<Rightarrow> nat set" where
  "kept_numbers probed bs = number_or_0 ` {b \<in> set bs. bc_sid b \<in> probed}"

lemma kernel_creates_wanted:
  assumes "\<And>used n. finite used \<Longrightarrow> n \<notin> used \<Longrightarrow> (\<And>m. m < n \<Longrightarrow> m \<in> used) \<Longrightarrow> alloc used = n"
    and "finite used" "sorted_wrt (<) (List.map number_or_0 bs)" "used \<inter> number_or_0 ` set bs = {}"
    and "\<And>b m. b \<in> set bs \<Longrightarrow> m < number_or_0 b \<Longrightarrow> m \<in> used \<union> number_or_0 ` set bs"
  shows "kernel_creates alloc used bs = List.map (\<lambda>b. (bc_sid b, number_or_0 b)) bs"
  using assms(2-)
proof (induction bs arbitrary: used)
  case (Cons b bs)
  have less: "number_or_0 b < number_or_0 c" if "c \<in> set bs" for c using Cons.prems(2) that by simp
  have "m \<in> used" if "m < number_or_0 b" for m
    using Cons.prems(4) [of b m] that less by (fastforce simp: image_iff)
  then have a: "alloc used = number_or_0 b" using Cons.prems(1,3) by (intro assms(1)) auto
  have "kernel_creates alloc (insert (number_or_0 b) used) bs = List.map (\<lambda>b. (bc_sid b, number_or_0 b)) bs"
  proof (rule Cons.IH)
    show "insert (number_or_0 b) used \<inter> number_or_0 ` set bs = {}" using Cons.prems(3) less by fastforce
    show "m \<in> insert (number_or_0 b) used \<union> number_or_0 ` set bs" if "c \<in> set bs" "m < number_or_0 c" for c m
      using Cons.prems(4) [of c m] that by auto
  qed (use Cons.prems in auto)
  then show ?case using a by simp
qed simp

text \<open>
  C10: The bcaches that are created get the numbers they have in the devicegraph: with new bcaches
  named by \<open>find_free_name\<close> and the numbers assigned again after every removal, a kernel that gives
  each new bcache the lowest number that is not used gives the bcaches, created in the order of
  their numbers, exactly these numbers.
\<close>

theorem created_bcaches_numbered:
  assumes reach: "reachable_bcaches probed bs"
    and kernel: "\<And>used n. finite used \<Longrightarrow> n \<notin> used \<Longrightarrow> (\<And>m. m < n \<Longrightarrow> m \<in> used) \<Longrightarrow> alloc used = n"
  shows "kernel_creates alloc (kept_numbers probed bs) (created_bcaches probed bs) =
    List.map (\<lambda>b. (bc_sid b, number_or_0 b)) (created_bcaches probed bs)"
proof (rule kernel_creates_wanted [OF kernel])
  have ok: "bc_ok bs" and ti: "tight probed bs" using reachable_bcaches_tight [OF reach] by simp_all
  let ?new = "created_bcaches probed bs"
  have new: "set ?new = {b \<in> set bs. bc_sid b \<notin> probed}" by (simp add: created_bcaches_def)
  have "distinct (List.map number_or_0 (filter (\<lambda>b. bc_sid b \<notin> probed) bs))"
    using bc_ok_filter [OF ok] by (simp add: bc_ok_def)
  then have "distinct (List.map number_or_0 ?new)"
    unfolding created_bcaches_def distinct_map by simp
  then show "sorted_wrt (<) (List.map number_or_0 ?new)"
    by (simp add: strict_sorted_iff created_bcaches_def)
  show "finite (kept_numbers probed bs)" by (simp add: kept_numbers_def)
  show "kept_numbers probed bs \<inter> number_or_0 ` set ?new = {}"
    using bc_number_sid [OF ok] by (auto simp: kept_numbers_def new)
  show "m \<in> kept_numbers probed bs \<union> number_or_0 ` set ?new" if "b \<in> set ?new" "m < number_or_0 b" for b m
    using ti that unfolding tight_def kept_numbers_def new by blast
qed

text \<open>
  One bcache is in the system. Two new ones are created, and the first of them is removed again: the
  second one gets its number.
\<close>

definition demo_probed_bcache :: bcache where
  "demo_probed_bcache = (case bcache_new 50 ''/dev/bcache0'' BACKED of Inr b \<Rightarrow> b | Inl _ \<Rightarrow> undefined)"

definition demo_new_bcache :: "nat \<Rightarrow> string \<Rightarrow> bcache" where
  "demo_new_bcache sid name = (case bcache_new sid name BACKED of Inr b \<Rightarrow> b | Inl _ \<Rightarrow> demo_probed_bcache)"

definition demo_bcaches :: "bcache list" where
  "demo_bcaches =
     (case reassign_numbers {50} (filter (\<lambda>b. bc_sid b \<noteq> 51)
        [demo_probed_bcache, demo_new_bcache 51 ''/dev/bcache1'', demo_new_bcache 52 ''/dev/bcache2'']) of
        Inr bs \<Rightarrow> bs | Inl _ \<Rightarrow> [])"

text \<open>A kernel that gives the lowest number that is not used.\<close>

definition lowest_unused :: "nat set \<Rightarrow> nat" where
  "lowest_unused used = (LEAST n. n \<notin> used)"

lemma lowest_unused: "n \<notin> used \<Longrightarrow> (\<And>m. m < n \<Longrightarrow> m \<in> used) \<Longrightarrow> lowest_unused used = n"
  unfolding lowest_unused_def by (rule Least_equality) (auto simp: not_less [symmetric])

lemma demo_bcaches_reachable: "reachable_bcaches {50} demo_bcaches"
proof -
  let ?b = demo_probed_bcache
  let ?c = "demo_new_bcache 51 ''/dev/bcache1''" and ?d = "demo_new_bcache 52 ''/dev/bcache2''"
  have ok: "is_valid_bcache_name (bc_name ?b)" "bc_number ?b \<noteq> Inl UndefinedBehaviour" "bc_sid ?b = 50"
    by code_simp+
  then have "reachable_bcaches {50} [?b]" by (intro reachable_bcaches.start) (simp_all add: bc_ok_def)
  moreover have c: "find_free_name [?b] = Inr ''/dev/bcache1''" "bcache_new 51 ''/dev/bcache1'' BACKED = Inr ?c"
    "51 \<notin> bc_sid ` set [?b]" "bc_sid ?c = 51"
    by code_simp+
  ultimately have "reachable_bcaches {50} [?b, ?c]"
    using reachable_bcaches.create [of "{50}" "[?b]" "''/dev/bcache1''" 51 BACKED ?c] by simp
  moreover have d: "find_free_name [?b, ?c] = Inr ''/dev/bcache2''" "bcache_new 52 ''/dev/bcache2'' BACKED = Inr ?d"
    by code_simp+
  ultimately have r: "reachable_bcaches {50} [?b, ?c, ?d]"
    using reachable_bcaches.create [of "{50}" "[?b, ?c]" "''/dev/bcache2''" 52 BACKED ?d] ok(3) c(4) by simp
  have "reassign_numbers {50} (filter (\<lambda>b. bc_sid b \<noteq> 51) [?b, ?c, ?d]) = Inr demo_bcaches" by code_simp
  then show ?thesis by (rule reachable_bcaches.remove [OF r])
qed

lemma created_bcaches_numbered_witness:
  "kernel_creates lowest_unused (kept_numbers {50} demo_bcaches) (created_bcaches {50} demo_bcaches) = [(52, 1)]"
proof -
  have "List.map (\<lambda>b. (bc_sid b, number_or_0 b)) (created_bcaches {50} demo_bcaches) = [(52, 1)]" by code_simp
  then show ?thesis
    using created_bcaches_numbered [OF demo_bcaches_reachable, of lowest_unused] lowest_unused by simp
qed

text \<open>
  \<open>Device::Impl::remove_descendants\<close> removes devices without assigning the numbers again: when bcache0
  was on the device, bcache1 keeps its name but the kernel creates bcache0.
\<close>

lemma removal_leaves_hole:
  "kernel_creates lowest_unused {} (created_bcaches {} (filter (\<lambda>b. bc_sid b \<noteq> 51)
     [demo_new_bcache 51 ''/dev/bcache0'', demo_new_bcache 52 ''/dev/bcache1''])) = [(52, 0)]"
  "bc_name (demo_new_bcache 52 ''/dev/bcache1'') = ''/dev/bcache1''"
proof -
  have "created_bcaches {} (filter (\<lambda>b. bc_sid b \<noteq> 51)
     [demo_new_bcache 51 ''/dev/bcache0'', demo_new_bcache 52 ''/dev/bcache1'']) = [demo_new_bcache 52 ''/dev/bcache1'']"
    and "bc_sid (demo_new_bcache 52 ''/dev/bcache1'') = 52"
    by code_simp+
  moreover have "lowest_unused {} = 0" by (rule lowest_unused) simp_all
  ultimately show "kernel_creates lowest_unused {} (created_bcaches {} (filter (\<lambda>b. bc_sid b \<noteq> 51)
     [demo_new_bcache 51 ''/dev/bcache0'', demo_new_bcache 52 ''/dev/bcache1''])) = [(52, 0)]"
    by simp
  show "bc_name (demo_new_bcache 52 ''/dev/bcache1'') = ''/dev/bcache1''" by code_simp
qed

end
