(* ===== verification/ClassDependencies.thy ===== *)
theory ClassDependencies
  imports Bcache DependencyManager Layers
begin

text \<open>
  What the classes of devices, holders and actions add to the dependencies of the actiongraph: the
  \<open>add_dependencies\<close> of volume groups, bcaches and quota groups, the dependency managers of volume
  groups and bcaches, and the \<open>add_dependencies\<close> of the actions that do not create or delete a
  device. All of them only add edges.
\<close>

section \<open>What is looked up\<close>

text \<open>
  The two devicegraphs, and attributes of devices by their sid: the path of a mount point and whether
  it is swap, the quota of a btrfs, names of volume groups and numbers of bcaches on either side.
\<close>

record lookups =
  lk_lhs :: devicegraph
  lk_rhs :: devicegraph
  lk_path :: "nat \<Rightarrow> string"
  lk_swap :: "nat \<Rightarrow> bool"
  lk_quota :: "nat \<Rightarrow> bool"
  lk_vg_name :: "side \<Rightarrow> nat \<Rightarrow> string"
  lk_bcache_number :: "side \<Rightarrow> nat \<Rightarrow> u32"

definition find_device :: "lookups \<Rightarrow> side \<Rightarrow> nat \<Rightarrow> nat result" where
  "find_device lk s sid = find_vertex (graph_of (lk_lhs lk) (lk_rhs lk) s) sid"

definition sid_class :: "lookups \<Rightarrow> side \<Rightarrow> nat \<Rightarrow> device_class result" where
  "sid_class lk s sid =
     ebind (find_device lk s sid) (class_of (graph_of (lk_lhs lk) (lk_rhs lk) s))"

definition is_lvm_lv :: "device_class \<Rightarrow> bool" where
  "is_lvm_lv c = (case c of C_LvmLv _ \<Rightarrow> True | _ \<Rightarrow> False)"

definition is_lvm_vg :: "device_class \<Rightarrow> bool" where
  "is_lvm_vg c \<longleftrightarrow> c = C_Device ''LvmVg''"

definition is_bcache :: "device_class \<Rightarrow> bool" where
  "is_bcache c \<longleftrightarrow> c = C_Device ''Bcache''"

definition is_bcache_cset :: "device_class \<Rightarrow> bool" where
  "is_bcache_cset c \<longleftrightarrow> c = C_Device ''BcacheCset''"

text \<open>
  The volume group of a logical volume: that of its pool for a thin one. \<open>n\<close> bounds the recursion;
  two calls are enough as a pool is not thin itself.
\<close>

fun lv_get_lvm_vg :: "nat \<Rightarrow> devicegraph \<Rightarrow> nat \<Rightarrow> nat result" where
  "lv_get_lvm_vg 0 g v = Inl Diverges"
| "lv_get_lvm_vg (Suc n) g v =
     ebind (class_of g v) (\<lambda>c.
       if c = C_LvmLv LV_THIN then ebind (get_single_parent is_lvm_lv g v) (lv_get_lvm_vg n g)
       else get_single_parent is_lvm_vg g v)"

definition sid_result :: "devicegraph \<Rightarrow> nat \<Rightarrow> nat result" where
  "sid_result g v = (case sid_of g v of None \<Rightarrow> Inl UndefinedBehaviour | Some s \<Rightarrow> Inr s)"

definition lv_vg_sid :: "devicegraph \<Rightarrow> nat \<Rightarrow> nat result" where
  "lv_vg_sid g v = ebind (lv_get_lvm_vg (num_devices g) g v) (sid_result g)"

section \<open>Volume groups\<close>

definition is_my_lvm_lv :: "nat \<Rightarrow> devicegraph \<Rightarrow> nat \<Rightarrow> bool result" where
  "is_my_lvm_lv vg g v =
     ebind (class_of g v) (\<lambda>c. if \<not> is_lvm_lv c then Inr False else emap (\<lambda>s. s = vg) (lv_vg_sid g v))"

definition is_my_lvm_lv_using_extents :: "nat \<Rightarrow> devicegraph \<Rightarrow> nat \<Rightarrow> bool result" where
  "is_my_lvm_lv_using_extents vg g v =
     ebind (class_of g v) (\<lambda>c.
       if \<not> is_lvm_lv c \<or> c = C_LvmLv LV_THIN then Inr False else emap (\<lambda>s. s = vg) (lv_vg_sid g v))"

definition action_frees_vg_space :: "lookups \<Rightarrow> nat \<Rightarrow> action \<Rightarrow> bool result" where
  "action_frees_vg_space lk vg a =
     (if \<not> affects_device a then Inr False
      else if is_delete a then ebind (find_device lk LHS (a_sid a)) (is_my_lvm_lv vg (lk_lhs lk))
      else if a_kind a = Resize False
      then ebind (find_device lk LHS (a_sid a)) (is_my_lvm_lv_using_extents vg (lk_lhs lk))
      else Inr False)"

definition action_uses_vg_space :: "lookups \<Rightarrow> nat \<Rightarrow> action \<Rightarrow> bool result" where
  "action_uses_vg_space lk vg a =
     (if \<not> affects_device a then Inr False
      else if is_create a then ebind (find_device lk RHS (a_sid a)) (is_my_lvm_lv vg (lk_rhs lk))
      else if a_kind a = Resize True
      then ebind (find_device lk RHS (a_sid a)) (is_my_lvm_lv_using_extents vg (lk_rhs lk))
      else Inr False)"

definition action_is_my_reallot :: "nat \<Rightarrow> action \<Rightarrow> bool" where
  "action_is_my_reallot vg a \<longleftrightarrow>
     affects_device a \<and> (case a_kind a of Reallot _ _ \<Rightarrow> True | _ \<Rightarrow> False) \<and> a_sid a = vg"

definition action_is_my_pv_resize :: "lookups \<Rightarrow> nat \<Rightarrow> action \<Rightarrow> bool result" where
  "action_is_my_pv_resize lk vg a =
     (if \<not> affects_device a then Inr False
      else case a_kind a of
        Resize _ \<Rightarrow>
          ebind (find_device lk RHS (a_sid a)) (\<lambda>v.
          ebind (class_of (lk_rhs lk) v) (\<lambda>c.
            if \<not> is_lvm_pv c then Inr False
            else if \<not> has_single_child is_lvm_vg (lk_rhs lk) v then Inr False
            else ebind (get_single_child is_lvm_vg (lk_rhs lk) v) (\<lambda>w.
                 emap (\<lambda>s. s = vg) (sid_result (lk_rhs lk) w))))
      | _ \<Rightarrow> Inr False)"

datatype vg_part = VG_DECREASE | VG_REALLOT_OR_RESIZE | VG_INCREASE

definition vg_action :: "lookups \<Rightarrow> nat \<Rightarrow> action \<Rightarrow> vg_part option result" where
  "vg_action lk vg a =
     ebind (action_frees_vg_space lk vg a) (\<lambda>frees.
       if frees then Inr (Some VG_DECREASE)
       else if action_is_my_reallot vg a then Inr (Some VG_REALLOT_OR_RESIZE)
       else ebind (action_is_my_pv_resize lk vg a) (\<lambda>pv.
         if pv then Inr (Some VG_REALLOT_OR_RESIZE)
         else emap (\<lambda>uses. if uses then Some VG_INCREASE else None) (action_uses_vg_space lk vg a)))"

text \<open>A loop over all actions that puts some of them into a part.\<close>

fun sort_out :: "(action \<Rightarrow> 'k option result) \<Rightarrow> (nat \<times> action) list \<Rightarrow> (nat \<times> 'k) list result" where
  "sort_out f [] = Inr []"
| "sort_out f ((v, a) # vs) =
     ebind (f a) (\<lambda>k. emap (\<lambda>r. case k of None \<Rightarrow> r | Some k \<Rightarrow> (v, k) # r) (sort_out f vs))"

definition part_of :: "'k \<Rightarrow> (nat \<times> 'k) list \<Rightarrow> nat list" where
  "part_of k vs = List.map fst (filter (\<lambda>x. snd x = k) vs)"

definition vg_dependencies :: "lookups \<Rightarrow> nat \<Rightarrow> actiongraph \<Rightarrow> actiongraph result" where
  "vg_dependencies lk vg g =
     emap (\<lambda>vs. add_chain_groups [part_of VG_DECREASE vs, part_of VG_REALLOT_OR_RESIZE vs, part_of VG_INCREASE vs] g)
       (sort_out (vg_action lk vg) (ag_vertices g))"

text \<open>
  The dependency manager: a volume group is deleted before another one with its name is created. The
  last action of each kind with the name counts.
\<close>

definition named_action :: "lookups \<Rightarrow> action \<Rightarrow> (string \<times> bool) option result" where
  "named_action lk a =
     (if \<not> affects_device a then Inr None
      else if is_create a
      then emap (\<lambda>c. if is_lvm_vg c then Some (lk_vg_name lk RHS (a_sid a), True) else None) (sid_class lk RHS (a_sid a))
      else if is_delete a
      then emap (\<lambda>c. if is_lvm_vg c then Some (lk_vg_name lk LHS (a_sid a), False) else None) (sid_class lk LHS (a_sid a))
      else Inr None)"

definition delete_before_create :: "(nat \<times> string \<times> bool) list \<Rightarrow> string \<Rightarrow> actiongraph \<Rightarrow> actiongraph" where
  "delete_before_create vs name g =
     (case (part_of (name, False) vs, part_of (name, True) vs) of
        (d # ds, c # cs) \<Rightarrow> ag_add_edge (last (d # ds)) (last (c # cs)) g
      | _ \<Rightarrow> g)"

definition run_vg_dependency_manager :: "lookups \<Rightarrow> actiongraph \<Rightarrow> actiongraph result" where
  "run_vg_dependency_manager lk g =
     emap (\<lambda>vs. fold (delete_before_create vs) (remdups (sort (List.map (fst \<circ> snd) vs))) g)
       (sort_out (named_action lk) (ag_vertices g))"

section \<open>Bcaches\<close>

definition has_cset :: "devicegraph \<Rightarrow> nat \<Rightarrow> bool" where
  "has_cset g v \<longleftrightarrow> get_parents_of_type is_bcache_cset g VIEW_CLASSIC v \<noteq> []"

definition get_cset :: "devicegraph \<Rightarrow> nat \<Rightarrow> nat result" where
  "get_cset g v =
     (case get_parents_of_type is_bcache_cset g VIEW_CLASSIC v of [] \<Rightarrow> Inl DeviceNotFound | w # _ \<Rightarrow> Inr w)"

definition action_is_my_attach :: "nat \<Rightarrow> action \<Rightarrow> bool" where
  "action_is_my_attach sid a \<longleftrightarrow> a_kind a = OtherAction ''AttachBcacheCset'' \<and> a_sid a = sid"

definition action_is_my_cset_create :: "lookups \<Rightarrow> nat \<Rightarrow> action \<Rightarrow> bool result" where
  "action_is_my_cset_create lk v a =
     (if \<not> has_cset (lk_rhs lk) v then Inr False
      else if \<not> is_create a \<or> \<not> affects_device a then Inr False
      else ebind (find_device lk RHS (a_sid a)) (\<lambda>w.
           ebind (class_of (lk_rhs lk) w) (\<lambda>c.
             if \<not> is_bcache_cset c then Inr False
             else ebind (get_cset (lk_rhs lk) v) (\<lambda>u.
                  ebind (sid_result (lk_rhs lk) u) (\<lambda>s.
                    emap (\<lambda>s'. s' = s) (sid_result (lk_rhs lk) w))))))"

text \<open>True marks the creation of the caching set, False the attaching.\<close>

definition bcache_action :: "lookups \<Rightarrow> nat \<Rightarrow> nat \<Rightarrow> action \<Rightarrow> bool option result" where
  "bcache_action lk sid v a =
     (if action_is_my_attach sid a then Inr (Some False)
      else emap (\<lambda>mine. if mine then Some True else None) (action_is_my_cset_create lk v a))"

definition bcache_dependencies :: "lookups \<Rightarrow> nat \<Rightarrow> nat \<Rightarrow> actiongraph \<Rightarrow> actiongraph result" where
  "bcache_dependencies lk sid v g =
     emap (\<lambda>vs.
         let bcache_actions = part_of False vs; bcache_cset_actions = part_of True vs
         in if bcache_actions \<noteq> [] \<and> bcache_cset_actions \<noteq> []
            then add_chain_groups [bcache_cset_actions, bcache_actions] g else g)
       (sort_out (bcache_action lk sid v) (ag_vertices g))"

text \<open>The dependency manager: deletions from the highest number down, creations from the lowest up.\<close>

definition numbered_action :: "lookups \<Rightarrow> action \<Rightarrow> (u32 \<times> bool) option result" where
  "numbered_action lk a =
     (if \<not> affects_device a then Inr None
      else if is_create a
      then emap (\<lambda>c. if is_bcache c then Some (lk_bcache_number lk RHS (a_sid a), True) else None)
        (sid_class lk RHS (a_sid a))
      else if is_delete a
      then emap (\<lambda>c. if is_bcache c then Some (lk_bcache_number lk LHS (a_sid a), False) else None)
        (sid_class lk LHS (a_sid a))
      else Inr None)"

definition bcache_chain :: "(nat \<times> u32 \<times> bool) list \<Rightarrow> (nat \<times> u32 \<times> bool) list" where
  "bcache_chain vs =
     rev (sort_key (\<lambda>x. fst (snd x)) (filter (\<lambda>x. \<not> snd (snd x)) vs))
     @ sort_key (\<lambda>x. fst (snd x)) (filter (\<lambda>x. snd (snd x)) vs)"

definition run_bcache_dependency_manager :: "lookups \<Rightarrow> actiongraph \<Rightarrow> actiongraph result" where
  "run_bcache_dependency_manager lk g =
     emap (\<lambda>vs. add_chain_vertices (List.map fst (bcache_chain vs)) g)
       (sort_out (numbered_action lk) (ag_vertices g))"

section \<open>Quota groups\<close>

text \<open>The last action of a kind, as the caches of \<open>set_special_actions\<close> keep it.\<close>

definition last_action :: "(nat \<times> action \<Rightarrow> bool) \<Rightarrow> actiongraph \<Rightarrow> nat option" where
  "last_action P g = (case filter P (ag_vertices g) of [] \<Rightarrow> None | vs \<Rightarrow> Some (fst (last vs)))"

text \<open>\<open>btrfs_enable_quota\<close>: the last action that sets the quota of a btrfs that has one.\<close>

definition enables_quota :: "lookups \<Rightarrow> nat \<Rightarrow> action \<Rightarrow> bool" where
  "enables_quota lk sid a \<longleftrightarrow> a_kind a = OtherAction ''SetQuota'' \<and> a_sid a = sid \<and> lk_quota lk sid"

definition enable_quota_action :: "lookups \<Rightarrow> nat \<Rightarrow> actiongraph \<Rightarrow> nat option" where
  "enable_quota_action lk sid g = last_action (\<lambda>(v, a). enables_quota lk sid a) g"

definition qgroup_dependencies :: "lookups \<Rightarrow> nat \<Rightarrow> nat \<Rightarrow> actiongraph \<Rightarrow> actiongraph result" where
  "qgroup_dependencies lk sid v g =
     ebind (qgroup_btrfs (lk_rhs lk) v) (\<lambda>b.
     ebind (sid_result (lk_rhs lk) b) (\<lambda>btrfs.
       if \<not> device_exists (lk_lhs lk) btrfs then Inr g
       else case enable_quota_action lk btrfs g of
         None \<Rightarrow> Inr g
       | Some q \<Rightarrow> Inr (fold (\<lambda>t. ag_add_edge q t) (actions_with_sid_filter g sid ONLY_FIRST) g)))"

text \<open>The relation of two quota groups is created after both and deleted before both.\<close>

definition holder_dependencies :: "lookups \<Rightarrow> nat \<Rightarrow> action \<Rightarrow> nat \<Rightarrow> nat \<Rightarrow> actiongraph \<Rightarrow> actiongraph result" where
  "holder_dependencies lk v a ssid tsid g =
     emap (\<lambda>e.
         if \<not> is_qgroup_relation e then g
         else if is_create a
         then fold (\<lambda>t. ag_add_edge t v)
           (actions_with_sid_filter g ssid ONLY_LAST @ actions_with_sid_filter g tsid ONLY_LAST) g
         else fold (\<lambda>t. ag_add_edge v t)
           (actions_with_sid_filter g ssid ONLY_FIRST @ actions_with_sid_filter g tsid ONLY_FIRST) g)
       (find_edge (if is_create a then lk_rhs lk else lk_lhs lk) ssid tsid)"

section \<open>The other actions\<close>

text \<open>The action that mounts the root filesystem: the last one.\<close>

definition mount_root_filesystem :: "lookups \<Rightarrow> actiongraph \<Rightarrow> nat option" where
  "mount_root_filesystem lk g = last_action (\<lambda>(v, a). is_mount a \<and> lk_path lk (a_sid a) = ''/'') g"

definition after_mount_of_root :: "lookups \<Rightarrow> nat \<Rightarrow> actiongraph \<Rightarrow> actiongraph" where
  "after_mount_of_root lk v g =
     (case mount_root_filesystem lk g of None \<Rightarrow> g | Some r \<Rightarrow> ag_add_edge r v g)"

definition action_removes_device :: "nat \<Rightarrow> action \<Rightarrow> bool" where
  "action_removes_device dev a = (case a_kind a of Reallot ext d \<Rightarrow> \<not> ext \<and> d = dev | _ \<Rightarrow> False)"

definition reallot_dependencies :: "bool \<Rightarrow> nat \<Rightarrow> nat \<Rightarrow> actiongraph \<Rightarrow> actiongraph" where
  "reallot_dependencies ext dev v g =
     (if \<not> ext then fold (\<lambda>t. ag_add_edge v t) (actions_with_sid_filter g dev ONLY_FIRST) g
      else
        let g' = fold (\<lambda>t. ag_add_edge t v) (actions_with_sid_filter g dev ONLY_LAST) g
        in case find (\<lambda>(t, a). action_removes_device dev a) (ag_vertices g') of
             None \<Rightarrow> g'
           | Some (t, _) \<Rightarrow> ag_add_edge t v g')"

text \<open>A resized device comes before the children that are created on it.\<close>

definition is_child :: "devicegraph \<Rightarrow> nat \<Rightarrow> nat \<Rightarrow> bool" where
  "is_child g v sid \<longleftrightarrow> list_ex (\<lambda>w. sid_of g w = Some sid) (children g VIEW_CLASSIC v)"

definition resize_dependencies :: "lookups \<Rightarrow> nat \<Rightarrow> action \<Rightarrow> actiongraph \<Rightarrow> actiongraph result" where
  "resize_dependencies lk v a g =
     (if \<not> affects_device a then Inr g
      else emap (\<lambda>d.
          fold (\<lambda>(t, b). if affects_device b \<and> is_create b \<and> is_child (lk_rhs lk) d (a_sid b)
              then ag_add_edge v t else (\<lambda>g. g)) (ag_vertices g) g)
        (find_device lk RHS (a_sid a)))"

definition other_dependencies :: "lookups \<Rightarrow> nat \<Rightarrow> action \<Rightarrow> actiongraph \<Rightarrow> actiongraph result" where
  "other_dependencies lk v a g =
     (case a_affect a of
        AffectHolder ssid tsid \<Rightarrow>
          if is_create a \<or> is_delete a then holder_dependencies lk v a ssid tsid g else Inr g
      | AffectDevice sid \<Rightarrow>
          (case a_kind a of
             Reallot ext dev \<Rightarrow> Inr (reallot_dependencies ext dev v g)
           | Resize _ \<Rightarrow> resize_dependencies lk v a g
           | OtherAction n \<Rightarrow>
               Inr (if n = ''AddToEtcCrypttab'' \<or> n = ''AddToEtcMdadm'' \<or> n = ''AddToEtcFstab'' \<and> lk_swap lk sid
                    then after_mount_of_root lk v g else g)
           | _ \<Rightarrow> Inr g))"

section \<open>All devices and the dependency managers\<close>

definition device_dependencies :: "lookups \<Rightarrow> nat \<times> device \<Rightarrow> actiongraph \<Rightarrow> actiongraph result" where
  "device_dependencies lk x g =
     (case x of (v, d) \<Rightarrow>
        if is_lvm_vg (d_class d) then vg_dependencies lk (d_sid d) g
        else if is_bcache (d_class d) then bcache_dependencies lk (d_sid d) v g
        else if is_btrfs_qgroup (d_class d) then qgroup_dependencies lk (d_sid d) v g
        else Inr g)"

text \<open>The first part of \<open>Actiongraph::Impl::add_dependencies\<close>.\<close>

definition class_dependencies :: "lookups \<Rightarrow> (actiongraph \<Rightarrow> actiongraph result) \<Rightarrow> actiongraph \<Rightarrow> actiongraph result" where
  "class_dependencies lk partition_tables g =
     ebind (efold (device_dependencies lk) (dg_vertices (lk_rhs lk)) g) (\<lambda>g.
     ebind (partition_tables g) (\<lambda>g.
     ebind (run_vg_dependency_manager lk g) (run_bcache_dependency_manager lk)))"

section \<open>Only edges are added\<close>

lemma sort_out_set:
  "sort_out f vs = Inr r \<Longrightarrow> (v, k) \<in> set r \<longleftrightarrow> (\<exists>a. (v, a) \<in> set vs \<and> f a = Inr (Some k))"
proof (induction f vs arbitrary: r rule: sort_out.induct)
  case (2 f v' a vs)
  then obtain k' r' where "f a = Inr k'" "sort_out f vs = Inr r'"
    "r = (case k' of None \<Rightarrow> r' | Some k \<Rightarrow> (v', k) # r')"
    by (auto simp: result_simps)
  then show ?case using "2.IH" by (auto split: option.splits)
qed simp

lemma sort_out_vs: "sort_out f (ag_vertices g) = Inr r \<Longrightarrow> (v, k) \<in> set r \<Longrightarrow> v \<in> set (ag_vs g)"
  by (force simp: sort_out_set ag_vs_def)

lemma part_of_vs:
  "sort_out f (ag_vertices g) = Inr r \<Longrightarrow> set (part_of k r) \<subseteq> set (ag_vs g)"
  by (auto simp: part_of_def dest: sort_out_vs)

lemma fold_edges_to:
  "set (ag_edges (fold (\<lambda>r. ag_add_edge l r) rs g)) = set (ag_edges g) \<union> {l} \<times> set rs \<and>
   ag_vertices (fold (\<lambda>r. ag_add_edge l r) rs g) = ag_vertices g \<and> ag_next (fold (\<lambda>r. ag_add_edge l r) rs g) = ag_next g"
  by (induction rs arbitrary: g) (auto simp: ag_add_edge_def)

lemma fold_edge_pairs:
  "set (ag_edges (fold (\<lambda>l. fold (\<lambda>r. ag_add_edge l r) rs) ls g)) = set (ag_edges g) \<union> set ls \<times> set rs \<and>
   ag_vertices (fold (\<lambda>l. fold (\<lambda>r. ag_add_edge l r) rs) ls g) = ag_vertices g \<and>
   ag_next (fold (\<lambda>l. fold (\<lambda>r. ag_add_edge l r) rs) ls g) = ag_next g"
proof (induction ls arbitrary: g)
  case (Cons l ls)
  then show ?case using fold_edges_to [of l rs g] by auto
qed simp

text \<open>Of three groups every action of the first one comes before every action of the last one.\<close>

lemma add_chain_groups_edges:
  "set (ag_edges (add_chain_groups [as, bs, cs] g)) =
     set (ag_edges g) \<union> (set as \<times> set bs) \<union> (set bs \<times> set cs) \<union> (if bs = [] then set as \<times> set cs else {})"
  "ag_vertices (add_chain_groups [as, bs, cs] g) = ag_vertices g"
  "ag_next (add_chain_groups [as, bs, cs] g) = ag_next g"
  by (auto simp: add_chain_groups_def fold_edge_pairs)

lemma add_chain_groups_edges2:
  "set (ag_edges (add_chain_groups [as, bs] g)) = set (ag_edges g) \<union> set as \<times> set bs"
  "ag_vertices (add_chain_groups [as, bs] g) = ag_vertices g"
  "ag_next (add_chain_groups [as, bs] g) = ag_next g"
  by (auto simp: add_chain_groups_def fold_edge_pairs)

lemma extends_edges:
  assumes "ag_vertices g' = ag_vertices g" "ag_next g' = ag_next g" "set (ag_edges g') = set (ag_edges g) \<union> E"
    and "\<And>a b. (a, b) \<in> E \<Longrightarrow> a \<in> set (ag_vs g) \<and> b \<in> set (ag_vs g)"
  shows "extends g g'"
  using assms by (auto simp: extends_def)

lemma extends_vg_dependencies:
  assumes "vg_dependencies lk vg g = Inr g'"
  shows "extends g g'"
proof -
  obtain vs where vs: "sort_out (vg_action lk vg) (ag_vertices g) = Inr vs"
    "g' = add_chain_groups [part_of VG_DECREASE vs, part_of VG_REALLOT_OR_RESIZE vs, part_of VG_INCREASE vs] g"
    using assms by (auto simp: vg_dependencies_def result_simps)
  show ?thesis
    unfolding vs(2)
    by (rule extends_edges, rule add_chain_groups_edges(2), rule add_chain_groups_edges(3),
        unfold add_chain_groups_edges(1) Un_assoc, rule refl)
      (auto split: if_splits dest: subsetD [OF part_of_vs [OF vs(1)]])
qed

lemma extends_bcache_dependencies:
  assumes "bcache_dependencies lk sid v g = Inr g'"
  shows "extends g g'"
proof -
  obtain vs where vs: "sort_out (bcache_action lk sid v) (ag_vertices g) = Inr vs"
    "g' = g \<or> g' = add_chain_groups [part_of True vs, part_of False vs] g"
    using assms by (auto simp: bcache_dependencies_def result_simps Let_def split: if_splits)
  have "extends g (add_chain_groups [part_of True vs, part_of False vs] g)"
    by (rule extends_edges, rule add_chain_groups_edges2(2), rule add_chain_groups_edges2(3),
        rule add_chain_groups_edges2(1)) (auto dest: subsetD [OF part_of_vs [OF vs(1)]])
  then show ?thesis using vs(2) by auto
qed

lemma extends_fold_edges:
  assumes "v \<in> set (ag_vs g)" "set ts \<subseteq> set (ag_vs g)"
  shows "extends g (fold (\<lambda>t. ag_add_edge v t) ts g)" and "extends g (fold (\<lambda>t. ag_add_edge t v) ts g)"
  by (rule extends_fold [OF _ refl]; use assms in \<open>intro extends_add_edge; auto\<close>)+

lemma actions_with_sid_sub: "set (actions_with_sid_filter g sid fl) \<subseteq> set (ag_vs g)"
  using actions_with_sid_filter_vs by blast

lemma last_action_vs:
  assumes "last_action P g = Some v"
  shows "v \<in> set (ag_vs g)"
proof -
  have "filter P (ag_vertices g) \<noteq> []" "v = fst (last (filter P (ag_vertices g)))"
    using assms by (auto simp: last_action_def split: list.splits)
  then show ?thesis using last_in_set [of "filter P (ag_vertices g)"] by (auto simp: ag_vs_def)
qed

lemma extends_qgroup_dependencies:
  assumes "qgroup_dependencies lk sid v g = Inr g'"
  shows "extends g g'"
  using assms extends_fold_edges(1) [OF last_action_vs actions_with_sid_sub]
  by (auto simp: qgroup_dependencies_def enable_quota_action_def result_simps split: if_splits option.splits)

lemma extends_device_dependencies:
  "device_dependencies lk x g = Inr g' \<Longrightarrow> extends g g'"
  using extends_vg_dependencies extends_bcache_dependencies extends_qgroup_dependencies
  by (auto simp: device_dependencies_def split: prod.splits if_splits)

lemma extends_delete_before_create:
  assumes "sort_out f (ag_vertices g) = Inr vs" "ag_vs h = ag_vs g"
  shows "extends h (delete_before_create vs name h)"
proof -
  have "last (part_of k vs) \<in> set (ag_vs h)" if "part_of k vs \<noteq> []" for k
    using subsetD [OF part_of_vs [OF assms(1)] last_in_set [OF that]] assms(2) by simp
  from this [of "(name, False)"] this [of "(name, True)"] show ?thesis
    by (auto simp: delete_before_create_def simp del: last.simps split: list.splits intro!: extends_add_edge)
qed

lemma extends_run_vg:
  assumes "run_vg_dependency_manager lk g = Inr g'"
  shows "extends g g'"
proof -
  obtain vs where vs: "sort_out (named_action lk) (ag_vertices g) = Inr vs"
    "g' = fold (delete_before_create vs) (remdups (sort (List.map (fst \<circ> snd) vs))) g"
    using assms by (auto simp: run_vg_dependency_manager_def result_simps)
  show ?thesis unfolding vs(2) by (rule extends_fold [OF _ refl], rule extends_delete_before_create [OF vs(1)])
qed

lemma extends_chain_vertices:
  assumes "set vs \<subseteq> set (ag_vs g)"
  shows "extends g (add_chain_vertices vs g)"
  using add_chain_vertices_edges [of vs g] assms
  by (intro extends_edges [where E = "{(vs ! i, vs ! Suc i) | i. Suc i < length vs}"]) (auto dest: nth_mem)

lemma set_bcache_chain: "set (bcache_chain vs) = set vs"
  by (auto simp: bcache_chain_def)

lemma extends_run_bcache:
  assumes "run_bcache_dependency_manager lk g = Inr g'"
  shows "extends g g'"
proof -
  obtain vs where vs: "sort_out (numbered_action lk) (ag_vertices g) = Inr vs"
    "g' = add_chain_vertices (List.map fst (bcache_chain vs)) g"
    using assms by (auto simp: run_bcache_dependency_manager_def result_simps)
  show ?thesis unfolding vs(2)
    by (rule extends_chain_vertices) (auto simp: set_bcache_chain dest: sort_out_vs [OF vs(1)])
qed

text \<open>The locale of functions that only add edges is interpreted on the three steps.\<close>

interpretation devices: adds_dependencies "efold (device_dependencies lk) ds" for lk ds
proof
  fix g g' assume "efold (device_dependencies lk) ds g = Inr g'"
  then show "extends g g'" by (rule extends_efold [OF _ refl]) (rule extends_device_dependencies)
qed

interpretation vg_manager: adds_dependencies "run_vg_dependency_manager lk" for lk
  by unfold_locales (rule extends_run_vg)

interpretation bcache_manager: adds_dependencies "run_bcache_dependency_manager lk" for lk
  by unfold_locales (rule extends_run_bcache)

lemma class_dependencies_add:
  assumes "adds_dependencies pts"
  shows "adds_dependencies (class_dependencies lk pts)"
proof -
  have "class_dependencies lk pts = (\<lambda>g. ebind (efold (device_dependencies lk) (dg_vertices (lk_rhs lk)) g)
      (\<lambda>g. ebind (pts g) (\<lambda>g. ebind (run_vg_dependency_manager lk g) (run_bcache_dependency_manager lk))))"
    by (simp add: class_dependencies_def fun_eq_iff)
  then show ?thesis
    by (simp only:) (intro adds_dependencies.followed_by devices.adds_dependencies_axioms assms
      vg_manager.adds_dependencies_axioms bcache_manager.adds_dependencies_axioms)
qed

lemma extends_after_root: "v \<in> set (ag_vs g) \<Longrightarrow> extends g (after_mount_of_root lk v g)"
  by (auto simp: after_mount_of_root_def mount_root_filesystem_def split: option.splits dest: last_action_vs)

lemma extends_reallot:
  assumes "v \<in> set (ag_vs g)"
  shows "extends g (reallot_dependencies ext dev v g)"
proof (cases ext)
  case False
  then show ?thesis using extends_fold_edges(1) [OF assms actions_with_sid_sub] by (simp add: reallot_dependencies_def)
next
  case True
  define h where "h = fold (\<lambda>t. ag_add_edge t v) (actions_with_sid_filter g dev ONLY_LAST) g"
  have h: "extends g h" unfolding h_def by (rule extends_fold_edges(2) [OF assms actions_with_sid_sub])
  have "extends h (ag_add_edge t v h)"
    if "find (\<lambda>(t, a). action_removes_device dev a) (ag_vertices h) = Some (t, a)" for t a
  proof (rule extends_add_edge)
    have "(t, a) \<in> set (ag_vertices h)" using that by (metis find_Some_iff nth_mem)
    then show "t \<in> set (ag_vs h)" by (force simp: ag_vs_def)
    show "v \<in> set (ag_vs h)" using assms extends_vs [OF h] by simp
  qed
  then show ?thesis
    using True h extends_trans [OF h] by (auto simp: reallot_dependencies_def h_def [symmetric] Let_def split: option.splits)
qed

lemma extends_resize:
  assumes "resize_dependencies lk v a g = Inr g'" "v \<in> set (ag_vs g)"
  shows "extends g g'"
  using assms
  by (auto simp: resize_dependencies_def result_simps ag_vs_def split: if_splits
      intro!: extends_fold [OF _ refl] extends_add_edge) (force+)?

lemma extends_holder:
  assumes "holder_dependencies lk v a ssid tsid g = Inr g'" "v \<in> set (ag_vs g)"
  shows "extends g g'"
proof -
  have "set (actions_with_sid_filter g s f @ actions_with_sid_filter g t f) \<subseteq> set (ag_vs g)" for s t f
    using actions_with_sid_sub by simp
  from extends_fold_edges [OF assms(2) this] show ?thesis
    using assms(1) by (auto simp: holder_dependencies_def result_simps)
qed

lemma extends_other: "v \<in> set (ag_vs g) \<Longrightarrow> other_dependencies lk v a g = Inr g' \<Longrightarrow> extends g g'"
  using extends_after_root extends_reallot extends_resize extends_holder
  by (auto simp: other_dependencies_def split: affect.splits action_kind.splits if_splits)

section \<open>The space of a volume group\<close>

lemma efold_member:
  assumes "efold f xs g = Inr g'" "x \<in> set xs" "\<And>x g g'. f x g = Inr g' \<Longrightarrow> extends g g'"
  shows "\<exists>h h'. extends g h \<and> f x h = Inr h' \<and> extends h' g'"
  using assms(1,2)
proof (induction xs arbitrary: g)
  case (Cons y ys)
  then obtain h where h: "f y g = Inr h" "efold f ys h = Inr g'" by (auto simp: result_simps)
  show ?case
  proof (cases "x = y")
    case True
    have "extends h g'" by (rule extends_efold [OF h(2) refl]) (rule assms(3))
    then show ?thesis using True h(1) by blast
  next
    case False
    then obtain k k' where "extends h k" "f x k = Inr k'" "extends k' g'" using Cons.IH [OF h(2)] Cons.prems(2) by auto
    then show ?thesis using extends_trans [OF assms(3) [OF h(1)]] by blast
  qed
qed simp

lemma class_dependencies_device:
  assumes "class_dependencies lk pts g = Inr g'" "adds_dependencies pts" "x \<in> set (dg_vertices (lk_rhs lk))"
  shows "\<exists>h h'. extends g h \<and> device_dependencies lk x h = Inr h' \<and> extends h' g'"
proof -
  obtain g1 g2 g3 where g: "efold (device_dependencies lk) (dg_vertices (lk_rhs lk)) g = Inr g1" "pts g1 = Inr g2"
    "run_vg_dependency_manager lk g2 = Inr g3" "run_bcache_dependency_manager lk g3 = Inr g'"
    using assms(1) by (auto simp: class_dependencies_def result_simps)
  obtain h h' where "extends g h" "device_dependencies lk x h = Inr h'" "extends h' g1"
    using efold_member [OF g(1) assms(3)] extends_device_dependencies by blast
  moreover have "extends g1 g'"
    using adds_dependencies.only_adds [OF assms(2) g(2)] extends_run_vg [OF g(3)] extends_run_bcache [OF g(4)]
    by (blast intro: extends_trans)
  ultimately show ?thesis using extends_trans by blast
qed

fun vg_rank :: "vg_part \<Rightarrow> nat" where
  "vg_rank VG_DECREASE = 0"
| "vg_rank VG_REALLOT_OR_RESIZE = 1"
| "vg_rank VG_INCREASE = 2"

lemma vg_dependencies_order:
  assumes "vg_dependencies lk vg g = Inr g'" "(v, a) \<in> set (ag_vertices g)" "(w, b) \<in> set (ag_vertices g)"
    and "vg_action lk vg a = Inr (Some x)" "vg_action lk vg b = Inr (Some y)" "vg_rank x < vg_rank y"
  shows "(v, w) \<in> (set (ag_edges g'))\<^sup>+"
proof -
  obtain vs where vs: "sort_out (vg_action lk vg) (ag_vertices g) = Inr vs"
    "g' = add_chain_groups [part_of VG_DECREASE vs, part_of VG_REALLOT_OR_RESIZE vs, part_of VG_INCREASE vs] g"
    using assms(1) by (auto simp: vg_dependencies_def result_simps)
  have "v \<in> set (part_of x vs)" "w \<in> set (part_of y vs)"
    using assms(2-5) sort_out_set [OF vs(1)] by (force simp: part_of_def)+
  moreover obtain m where "part_of VG_REALLOT_OR_RESIZE vs = [] \<or> m \<in> set (part_of VG_REALLOT_OR_RESIZE vs)"
    by (cases "part_of VG_REALLOT_OR_RESIZE vs") auto
  ultimately show ?thesis
    using assms(6) unfolding vs(2) add_chain_groups_edges(1)
    by (cases x; cases y) (auto intro: trancl_into_trancl)
qed

text \<open>All parameters of the actiongraph that this theory gives.\<close>

definition all_dependencies ::
  "lookups \<Rightarrow> (nat \<Rightarrow> bool) \<Rightarrow> (actiongraph \<Rightarrow> actiongraph result) \<Rightarrow> (actiongraph \<Rightarrow> actiongraph result) \<Rightarrow>
   actiongraph \<Rightarrow> actiongraph result" where
  "all_dependencies lk has_manager partition_tables dasd =
     add_dependencies (class_dependencies lk partition_tables)
       (add_action_dependencies (lk_lhs lk) (lk_rhs lk) has_manager (other_dependencies lk)) dasd"

lemma all_dependencies_add:
  "adds_dependencies pts \<Longrightarrow> adds_dependencies dasd \<Longrightarrow> adds_dependencies (all_dependencies lk hdm pts dasd)"
  unfolding all_dependencies_def
  by (intro add_dependencies_adds class_dependencies_add action_dependencies_add extends_other)

lemma vg_actions_in_order:
  assumes gen: "generate (all_dependencies lk hdm pts dasd) method lhs taboos g = Inr (g', order)"
    and wf: "wf_ag g" "method < 2"
    and adds: "adds_dependencies pts" "adds_dependencies dasd"
    and vg: "(u, d) \<in> set (dg_vertices (lk_rhs lk))" "is_lvm_vg (d_class d)"
    and g1: "remove_duplicates g = Inr g1"
    and acts: "(v, a) \<in> set (ag_vertices g1)" "vg_action lk (d_sid d) a = Inr (Some x)"
      "(w, b) \<in> set (ag_vertices g1)" "vg_action lk (d_sid d) b = Inr (Some y)"
    and rank: "vg_rank x < vg_rank y"
    and order: "v \<in> set order" "w \<in> set order"
  shows "before order v w"
proof (rule generate_respects [OF gen wf all_dependencies_add [OF adds]])
  fix h1 h2
  assume h: "remove_duplicates g = Inr h1" "all_dependencies lk hdm pts dasd h1 = Inr h2"
    and r: "\<And>a b. a \<in> set order \<Longrightarrow> b \<in> set order \<Longrightarrow> (a, b) \<in> (set (ag_edges h2))\<^sup>+ \<Longrightarrow> before order a b"
  obtain i j where i: "class_dependencies lk pts g1 = Inr i"
    and j: "add_action_dependencies (lk_lhs lk) (lk_rhs lk) hdm (other_dependencies lk) i = Inr j"
    and h2: "dasd (add_mount_dependencies j) = Inr h2"
    using h g1 by (auto simp: all_dependencies_def add_dependencies_def result_simps)
  obtain k k' where k: "extends g1 k" "device_dependencies lk (u, d) k = Inr k'" "extends k' i"
    using class_dependencies_device [OF i adds(1) vg(1)] by blast
  have "vg_dependencies lk (d_sid d) k = Inr k'" using k(2) vg(2) by (simp add: device_dependencies_def)
  then have "(v, w) \<in> (set (ag_edges k'))\<^sup>+"
    by (rule vg_dependencies_order [OF _ _ _ acts(2,4) rank]) (use acts k(1) in \<open>simp_all add: extends_def\<close>)
  then have "(v, w) \<in> (set (ag_edges i))\<^sup>+" by (rule extends_trancl [OF k(3)])
  moreover have "adds_dependencies (add_action_dependencies (lk_lhs lk) (lk_rhs lk) hdm (other_dependencies lk))"
    by (intro action_dependencies_add extends_other)
  ultimately have "(v, w) \<in> (set (ag_edges j))\<^sup>+" using adds_dependencies.keeps_order j by blast
  then have "(v, w) \<in> (set (ag_edges (add_mount_dependencies j)))\<^sup>+"
    by (rule mounts.keeps_order [OF refl])
  then have "(v, w) \<in> (set (ag_edges h2))\<^sup>+" by (rule adds_dependencies.keeps_order [OF adds(2) h2])
  then show ?thesis using r order by blast
qed

text \<open>Sums along an order in which one part comes after another.\<close>

lemma before_take:
  assumes "before order v w" "distinct order" "w \<in> set (take n order)"
  shows "v \<in> set (take n order)"
proof -
  obtain i j where ij: "i < j" "j < length order" "order ! i = v" "order ! j = w"
    using assms(1) unfolding before_def by blast
  obtain k where k: "k < n" "k < length order" "order ! k = w"
    using assms(3) by (auto simp: in_set_conv_nth)
  then have "k = j" using ij assms(2) nth_eq_iff_index_eq by metis
  then have "take n order ! i = v" "i < length (take n order)" using ij k by auto
  then show ?thesis by (metis nth_mem)
qed

lemma sum_positive_part:
  fixes c :: "nat \<Rightarrow> int"
  assumes "finite T" "S \<subseteq> T"
  shows "(\<Sum>v\<in>T. min 0 (c v)) \<le> (\<Sum>v\<in>S. c v)"
proof -
  have "(\<Sum>v\<in>T. min 0 (c v)) \<le> (\<Sum>v\<in>S. min 0 (c v))"
    using assms by (simp add: sum.subset_diff [OF assms(2,1)] sum_nonpos)
  also have "\<dots> \<le> (\<Sum>v\<in>S. c v)" by (rule sum_mono) simp
  finally show ?thesis .
qed

lemma partial_sums_nonneg:
  fixes c :: "nat \<Rightarrow> int"
  assumes order: "distinct order" and parts: "set order = D \<union> P \<union> I \<union> N"
    and disjoint: "D \<inter> (P \<union> I) = {}" "P \<inter> I = {}" "N \<inter> (D \<union> P \<union> I) = {}"
    and signs: "\<And>v. v \<in> D \<Longrightarrow> 0 \<le> c v" "\<And>v. v \<in> I \<Longrightarrow> c v \<le> 0" "\<And>v. v \<in> N \<Longrightarrow> c v = 0"
    and dp: "\<And>v w. v \<in> D \<Longrightarrow> w \<in> P \<union> I \<Longrightarrow> before order v w" and pi: "\<And>v w. v \<in> P \<Longrightarrow> w \<in> I \<Longrightarrow> before order v w"
    and start: "0 \<le> f" and reduced: "0 \<le> f + (\<Sum>v\<in>D. c v) + (\<Sum>v\<in>P. min 0 (c v))"
    and final: "0 \<le> f + (\<Sum>v\<in>set order. c v)"
  shows "0 \<le> f + (\<Sum>v\<leftarrow>take n order. c v)"
proof -
  let ?A = "set (take n order)"
  have fin: "finite D" "finite P" "finite I" "finite N"
    using parts by (metis finite_Un finite_set)+
  have sub: "?A \<subseteq> set order" by (rule set_take_subset)
  have total: "(\<Sum>v\<leftarrow>take n order. c v) = (\<Sum>v\<in>?A. c v)"
    using order by (simp add: sum_list_distinct_conv_sum_set)
  have split: "(\<Sum>v\<in>?A. c v) = (\<Sum>v\<in>?A \<inter> D. c v) + (\<Sum>v\<in>?A \<inter> P. c v) + (\<Sum>v\<in>?A \<inter> I. c v)"
  proof -
    have "?A = (?A \<inter> D) \<union> (?A \<inter> P) \<union> (?A \<inter> I) \<union> (?A \<inter> N)" using sub parts by blast
    then have "(\<Sum>v\<in>?A. c v) = (\<Sum>v\<in>(?A \<inter> D) \<union> (?A \<inter> P) \<union> (?A \<inter> I) \<union> (?A \<inter> N). c v)" by (rule arg_cong)
    also have "\<dots> = (\<Sum>v\<in>?A \<inter> D. c v) + (\<Sum>v\<in>?A \<inter> P. c v) + (\<Sum>v\<in>?A \<inter> I. c v) + (\<Sum>v\<in>?A \<inter> N. c v)"
      using fin disjoint by (subst sum.union_disjoint; auto)+
    also have "(\<Sum>v\<in>?A \<inter> N. c v) = 0" using signs(3) by (intro sum.neutral) auto
    finally show ?thesis by simp
  qed
  show ?thesis
  proof (cases "?A \<inter> I = {}")
    case False
    then obtain w where "w \<in> ?A" "w \<in> I" by blast
    then have all: "D \<subseteq> ?A" "P \<subseteq> ?A" using before_take [OF _ order] dp pi by blast+
    have "(\<Sum>v\<in>set order. c v) = (\<Sum>v\<in>?A. c v) + (\<Sum>v\<in>set order - ?A. c v)"
      using sum.subset_diff [OF sub, of c] by simp
    moreover have "(\<Sum>v\<in>set order - ?A. c v) \<le> 0"
      by (rule sum_nonpos) (use all parts signs in force)
    ultimately show ?thesis using final total by simp
  next
    case True
    show ?thesis
    proof (cases "?A \<inter> P = {}")
      case False
      then obtain w where "w \<in> ?A" "w \<in> P" by blast
      then have "?A \<inter> D = D" using before_take [OF _ order] dp by blast
      moreover have "(\<Sum>v\<in>P. min 0 (c v)) \<le> (\<Sum>v\<in>?A \<inter> P. c v)" by (rule sum_positive_part [OF fin(2)]) simp
      ultimately show ?thesis using reduced True unfolding total split by simp
    next
      case P: True
      have "0 \<le> (\<Sum>v\<in>?A \<inter> D. c v)" by (rule sum_nonneg) (use signs in simp)
      then show ?thesis using start True P unfolding total split by simp
    qed
  qed
qed

text \<open>
  How an action may change the number of free extents: deleting and shrinking logical volumes frees
  some, creating and growing them needs some, and only physical volumes change it either way.
\<close>

fun changes_extents :: "vg_part option \<Rightarrow> int \<Rightarrow> bool" where
  "changes_extents (Some VG_DECREASE) c \<longleftrightarrow> 0 \<le> c"
| "changes_extents (Some VG_REALLOT_OR_RESIZE) c \<longleftrightarrow> True"
| "changes_extents (Some VG_INCREASE) c \<longleftrightarrow> c \<le> 0"
| "changes_extents None c \<longleftrightarrow> c = 0"

definition carried_out :: "lookups \<Rightarrow> nat \<Rightarrow> vg_part option \<Rightarrow> actiongraph \<Rightarrow> nat list \<Rightarrow> nat set" where
  "carried_out lk vg k g order =
     {v \<in> set order. \<exists>a. (v, a) \<in> set (ag_vertices g) \<and> vg_action lk vg a = Inr k}"

lemma carried_outD:
  assumes "v \<in> carried_out lk vg k g order"
  obtains a where "v \<in> set order" "(v, a) \<in> set (ag_vertices g)" "vg_action lk vg a = Inr k"
  using assms unfolding carried_out_def by blast

lemma carried_out_action:
  assumes "wf_ag g" "v \<in> carried_out lk vg k g order" "(v, a) \<in> set (ag_vertices g)"
  shows "vg_action lk vg a = Inr k"
proof -
  from assms(2) obtain b where "(v, b) \<in> set (ag_vertices g)" "vg_action lk vg b = Inr k" by (rule carried_outD)
  moreover have "distinct (List.map fst (ag_vertices g))" using wf_agD(1) [OF assms(1)] by (simp add: ag_vs_def)
  ultimately show ?thesis using eq_key_imp_eq_value assms(3) by metis
qed

lemma carried_out_disjoint:
  assumes "wf_ag g" "k \<noteq> l"
  shows "carried_out lk vg k g order \<inter> carried_out lk vg l g order = {}"
proof (rule equals0I)
  fix v assume "v \<in> carried_out lk vg k g order \<inter> carried_out lk vg l g order"
  then have v: "v \<in> carried_out lk vg k g order" "v \<in> carried_out lk vg l g order" by simp_all
  from v(1) obtain a where a: "(v, a) \<in> set (ag_vertices g)" "vg_action lk vg a = Inr k" by (rule carried_outD)
  show False using carried_out_action [OF assms(1) v(2) a(1)] a(2) assms(2) by simp
qed

text \<open>
  C5: While the actions are carried out a volume group never has less than no free extents: if it has
  enough of them before, and at the end, and if the physical volumes that are removed or shrunk are
  not in use by what is left of the old logical volumes, then the order of the actions sees to it
  that there are enough at every moment. \<open>c\<close> says how many extents an action frees.
\<close>

theorem volume_group_never_overcommitted:
  assumes gen: "generate (all_dependencies lk hdm pts dasd) method lhs taboos g = Inr (g', order)"
    and wf: "wf_ag g" "method < 2"
    and adds: "adds_dependencies pts" "adds_dependencies dasd"
    and vg: "(u, d) \<in> set (dg_vertices (lk_rhs lk))" "is_lvm_vg (d_class d)"
    and g1: "remove_duplicates g = Inr g1"
    and changes: "\<And>v a. (v, a) \<in> set (ag_vertices g1) \<Longrightarrow>
      \<exists>k. vg_action lk (d_sid d) a = Inr k \<and> changes_extents k (c v)"
    and start: "0 \<le> free"
    and reduced: "0 \<le> free + (\<Sum>v\<in>carried_out lk (d_sid d) (Some VG_DECREASE) g1 order. c v) +
      (\<Sum>v\<in>carried_out lk (d_sid d) (Some VG_REALLOT_OR_RESIZE) g1 order. min 0 (c v))"
    and final: "0 \<le> free + (\<Sum>v\<in>set order. c v)"
  shows "0 \<le> free + (\<Sum>v\<leftarrow>take n order. c v)"
proof -
  have g1': "wf_ag g1" "distinct order" "set order = {v. \<exists>a. (v, a) \<in> set (ag_vertices g1) \<and> \<not> a_only_sync a}"
  proof -
    obtain h where "remove_duplicates g = Inr h" "wf_ag h" "distinct order"
      "set order = {v. \<exists>a. (v, a) \<in> set (ag_vertices h) \<and> \<not> a_only_sync a}"
    proof (rule generate_respects [OF gen wf all_dependencies_add [OF adds]])
      fix h h2
      assume "remove_duplicates g = Inr h" "wf_ag h" "distinct order"
        "set order = {v. \<exists>a. (v, a) \<in> set (ag_vertices h) \<and> \<not> a_only_sync a}"
      then show thesis by (rule that)
    qed
    then show "wf_ag g1" "distinct order" "set order = {v. \<exists>a. (v, a) \<in> set (ag_vertices g1) \<and> \<not> a_only_sync a}"
      using g1 by simp_all
  qed
  let ?S = "\<lambda>k. carried_out lk (d_sid d) k g1 order"
  have c: "changes_extents k (c v)" if v: "v \<in> ?S k" for k v
  proof -
    from v obtain a where a: "(v, a) \<in> set (ag_vertices g1)" "vg_action lk (d_sid d) a = Inr k" by (rule carried_outD)
    then show ?thesis using changes [OF a(1)] by simp
  qed
  note disj = carried_out_disjoint [OF g1'(1)]
  have before: "before order v w" if "v \<in> ?S (Some k)" "w \<in> ?S (Some l)" "vg_rank k < vg_rank l" for v w k l
  proof -
    from that(1) obtain a where a: "v \<in> set order" "(v, a) \<in> set (ag_vertices g1)" "vg_action lk (d_sid d) a = Inr (Some k)"
      by (rule carried_outD)
    from that(2) obtain b where b: "w \<in> set order" "(w, b) \<in> set (ag_vertices g1)" "vg_action lk (d_sid d) b = Inr (Some l)"
      by (rule carried_outD)
    show ?thesis by (rule vg_actions_in_order [OF gen wf adds vg g1 a(2,3) b(2,3) that(3) a(1) b(1)])
  qed
  have "\<exists>k. v \<in> ?S k" if "v \<in> set order" for v
  proof -
    obtain a where a: "(v, a) \<in> set (ag_vertices g1)" using \<open>v \<in> set order\<close> unfolding g1'(3) by blast
    obtain k where "vg_action lk (d_sid d) a = Inr k" using changes [OF a] by blast
    then show ?thesis using a that unfolding carried_out_def by blast
  qed
  moreover have "?S k \<subseteq> ?S (Some VG_DECREASE) \<union> ?S (Some VG_REALLOT_OR_RESIZE) \<union> ?S (Some VG_INCREASE) \<union> ?S None" for k
  proof (cases k)
    case (Some p)
    then show ?thesis by (cases p) (simp_all add: le_supI1 le_supI2)
  qed simp
  ultimately have "set order \<subseteq> ?S (Some VG_DECREASE) \<union> ?S (Some VG_REALLOT_OR_RESIZE) \<union> ?S (Some VG_INCREASE) \<union> ?S None"
    by (meson subsetD subsetI)
  moreover have "?S k \<subseteq> set order" for k unfolding carried_out_def by blast
  ultimately have parts: "set order = ?S (Some VG_DECREASE) \<union> ?S (Some VG_REALLOT_OR_RESIZE) \<union> ?S (Some VG_INCREASE) \<union> ?S None"
    by (intro equalityI Un_least)
  have disjoint: "?S (Some VG_DECREASE) \<inter> (?S (Some VG_REALLOT_OR_RESIZE) \<union> ?S (Some VG_INCREASE)) = {}"
    "?S (Some VG_REALLOT_OR_RESIZE) \<inter> ?S (Some VG_INCREASE) = {}"
    "?S None \<inter> (?S (Some VG_DECREASE) \<union> ?S (Some VG_REALLOT_OR_RESIZE) \<union> ?S (Some VG_INCREASE)) = {}"
    by (simp_all add: Int_Un_distrib disj)
  have signs: "v \<in> ?S (Some VG_DECREASE) \<Longrightarrow> 0 \<le> c v" "v \<in> ?S (Some VG_INCREASE) \<Longrightarrow> c v \<le> 0"
    "v \<in> ?S None \<Longrightarrow> c v = 0" for v
    using c [of v "Some VG_DECREASE"] c [of v "Some VG_INCREASE"] c [of v None] by simp_all
  have order: "v \<in> ?S (Some VG_DECREASE) \<Longrightarrow> w \<in> ?S (Some VG_REALLOT_OR_RESIZE) \<union> ?S (Some VG_INCREASE) \<Longrightarrow> before order v w"
    "v \<in> ?S (Some VG_REALLOT_OR_RESIZE) \<Longrightarrow> w \<in> ?S (Some VG_INCREASE) \<Longrightarrow> before order v w" for v w
    using before [of v VG_DECREASE w VG_REALLOT_OR_RESIZE] before [of v VG_DECREASE w VG_INCREASE]
      before [of v VG_REALLOT_OR_RESIZE w VG_INCREASE] by auto
  show ?thesis by (rule partial_sums_nonneg [OF g1'(2) parts disjoint signs order start reduced final])
qed

text \<open>
  A volume group without a free extent: a logical volume with ten extents is deleted and another one
  created. The deletion comes first.
\<close>

definition demo_vg_graph :: "nat \<Rightarrow> devicegraph" where
  "demo_vg_graph lv_sid =
     \<lparr>dg_vertices = [(0, demo_device 60 (C_Device ''LvmVg'')), (1, demo_device lv_sid (C_LvmLv LV_NORMAL))],
      dg_edges = [\<lparr>e_id = 2, e_source = 0, e_target = 1, e_holder = demo_holder C_Subdevice\<rparr>], dg_next = 3\<rparr>"

definition demo_lookups :: lookups where
  "demo_lookups =
     \<lparr>lk_lhs = demo_vg_graph 61, lk_rhs = demo_vg_graph 62, lk_path = \<lambda>_. [], lk_swap = \<lambda>_. False,
      lk_quota = \<lambda>_. False, lk_vg_name = \<lambda>_ _. ''system'', lk_bcache_number = \<lambda>_ _. 0\<rparr>"

definition demo_vg_actions :: actiongraph where
  "demo_vg_actions =
     \<lparr>ag_vertices =
        [(0, action_new Create (AffectDevice 62) False False),
         (1, action_new Delete (AffectDevice 61) False False)],
      ag_edges = [], ag_next = 2\<rparr>"

definition demo_vg_order :: "actiongraph \<times> nat list" where
  "demo_vg_order =
     (case generate (all_dependencies demo_lookups (\<lambda>_. True) Inr Inr) 0 (demo_vg_graph 61) {} demo_vg_actions of
        Inr r \<Rightarrow> r | Inl _ \<Rightarrow> (ag_empty, []))"

definition demo_extents :: "nat \<Rightarrow> int" where
  "demo_extents v = (if v = 0 then - 10 else 10)"

lemma demo_vg_parts:
  "vg_action demo_lookups 60 (action_new Create (AffectDevice 62) False False) = Inr (Some VG_INCREASE)"
  "vg_action demo_lookups 60 (action_new Delete (AffectDevice 61) False False) = Inr (Some VG_DECREASE)"
  by code_simp+

lemma demo_vg_carried_out:
  "carried_out demo_lookups 60 (Some VG_DECREASE) demo_vg_actions [1, 0] = {1}"
  "carried_out demo_lookups 60 (Some VG_REALLOT_OR_RESIZE) demo_vg_actions [1, 0] = {}"
  using demo_vg_parts by (auto simp: carried_out_def demo_vg_actions_def)

theorem volume_group_never_overcommitted_witness:
  "snd demo_vg_order = [1, 0] \<and> 0 \<le> 0 + (\<Sum>v\<leftarrow>take 1 (snd demo_vg_order). demo_extents v)"
proof
  show o: "snd demo_vg_order = [1, 0]" by code_simp
  show "0 \<le> 0 + (\<Sum>v\<leftarrow>take 1 (snd demo_vg_order). demo_extents v)"
  proof (rule volume_group_never_overcommitted)
    show "generate (all_dependencies demo_lookups (\<lambda>_. True) Inr Inr) 0 (demo_vg_graph 61) {} demo_vg_actions =
        Inr (fst demo_vg_order, snd demo_vg_order)"
      by code_simp
    show "wf_ag demo_vg_actions" by (simp add: wf_ag_def ag_vs_def demo_vg_actions_def)
    show "remove_duplicates demo_vg_actions = Inr demo_vg_actions" by code_simp
    show "adds_dependencies Inr" "adds_dependencies Inr" by (rule demo_adds)+
    show "(0, demo_device 60 (C_Device ''LvmVg'')) \<in> set (dg_vertices (lk_rhs demo_lookups))"
      by (simp add: demo_lookups_def demo_vg_graph_def)
    show "is_lvm_vg (d_class (demo_device 60 (C_Device ''LvmVg'')))" by (simp add: is_lvm_vg_def demo_device_def)
    have sid: "d_sid (demo_device 60 (C_Device ''LvmVg'')) = 60" by (simp add: demo_device_def)
    show "\<exists>k. vg_action demo_lookups (d_sid (demo_device 60 (C_Device ''LvmVg''))) a = Inr k \<and> changes_extents k (demo_extents v)"
      if "(v, a) \<in> set (ag_vertices demo_vg_actions)" for v a
      using that demo_vg_parts by (auto simp: sid demo_vg_actions_def demo_extents_def)
    show "0 \<le> 0 + (\<Sum>v\<in>carried_out demo_lookups (d_sid (demo_device 60 (C_Device ''LvmVg''))) (Some VG_DECREASE)
        demo_vg_actions (snd demo_vg_order). demo_extents v) +
      (\<Sum>v\<in>carried_out demo_lookups (d_sid (demo_device 60 (C_Device ''LvmVg''))) (Some VG_REALLOT_OR_RESIZE)
        demo_vg_actions (snd demo_vg_order). min 0 (demo_extents v))"
      unfolding sid o demo_vg_carried_out by (simp add: demo_extents_def)
    show "0 \<le> 0 + (\<Sum>v\<in>set (snd demo_vg_order). demo_extents v)" by (simp add: o demo_extents_def)
  qed simp_all
qed

section \<open>The order of bcaches\<close>

text \<open>
  Bcaches are deleted from the highest number down, then created from the lowest number up, the
  order in which the kernel gives them their numbers.
\<close>

lemma bcache_chain_order:
  assumes "(v, m, x) \<in> set vs" "(w, n, y) \<in> set vs"
    and "(\<not> x \<and> y) \<or> (x \<and> y \<and> m < n) \<or> (\<not> x \<and> \<not> y \<and> n < m)"
  shows "occurs_before (v, m, x) (w, n, y) (bcache_chain vs)"
proof -
  let ?key = "\<lambda>x. fst (snd x)"
  let ?del = "filter (\<lambda>x. \<not> snd (snd x)) vs" and ?new = "filter (\<lambda>x. snd (snd x)) vs"
  consider (both) "\<not> x" "y" | (create) "x" "y" "m < n" | (delete) "\<not> x" "\<not> y" "n < m" using assms(3) by blast
  then show ?thesis
  proof cases
    case both
    then show ?thesis using assms(1,2) unfolding bcache_chain_def by (intro occurs_before_append(3)) auto
  next
    case create
    then have "occurs_before (v, m, x) (w, n, y) (sort_key ?key ?new)"
      using assms(1,2) by (intro occurs_before_sort_key) auto
    then show ?thesis unfolding bcache_chain_def by (rule occurs_before_append(2))
  next
    case delete
    then have "occurs_before (w, n, y) (v, m, x) (sort_key ?key ?del)"
      using assms(1,2) by (intro occurs_before_sort_key) auto
    then show ?thesis unfolding bcache_chain_def by (intro occurs_before_append(1) occurs_before_rev)
  qed
qed

lemma bcache_manager_orders:
  assumes "run_bcache_dependency_manager lk g = Inr g'"
    and "(v, a) \<in> set (ag_vertices g)" "numbered_action lk a = Inr (Some (m, x))"
    and "(w, b) \<in> set (ag_vertices g)" "numbered_action lk b = Inr (Some (n, y))"
    and "(\<not> x \<and> y) \<or> (x \<and> y \<and> m < n) \<or> (\<not> x \<and> \<not> y \<and> n < m)"
  shows "(v, w) \<in> (set (ag_edges g'))\<^sup>+"
proof -
  obtain vs where vs: "sort_out (numbered_action lk) (ag_vertices g) = Inr vs"
    "g' = add_chain_vertices (List.map fst (bcache_chain vs)) g"
    using assms(1) by (auto simp: run_bcache_dependency_manager_def result_simps)
  let ?c = "List.map fst (bcache_chain vs)"
  have "(v, m, x) \<in> set vs" "(w, n, y) \<in> set vs" using assms(2-5) sort_out_set [OF vs(1)] by blast+
  from bcache_chain_order [OF this assms(6)] obtain i j where ij: "i < j" "j < length (bcache_chain vs)"
    "bcache_chain vs ! i = (v, m, x)" "bcache_chain vs ! j = (w, n, y)"
    unfolding occurs_before_def by blast
  have "{(?c ! i, ?c ! Suc i) | i. Suc i < length ?c} \<subseteq> set (ag_edges g')"
    using add_chain_vertices_edges [of ?c g] vs(2) by blast
  from chain_trancl [OF this ij(1)] ij(2-4) show ?thesis using ij(1) by simp
qed

text \<open>
  A volume group is deleted before the one with its name is created, when only one group with the
  name is deleted and only one created.
\<close>

lemma fold_delete_before_create:
  assumes "sort_out f (ag_vertices g) = Inr vs" "name \<in> set names"
    and "part_of (name, False) vs = [v]" "part_of (name, True) vs = [w]"
  shows "(v, w) \<in> set (ag_edges (fold (delete_before_create vs) names h))"
proof -
  have mono: "set (ag_edges h) \<subseteq> set (ag_edges (delete_before_create vs k h))" for k h
    by (auto simp: delete_before_create_def ag_add_edge_def split: list.splits)
  have keep: "set (ag_edges h) \<subseteq> set (ag_edges (fold (delete_before_create vs) ks h))" for ks h
  proof (induction ks arbitrary: h)
    case (Cons k ks)
    then show ?case using mono [of h k] by fastforce
  qed simp
  have new: "(v, w) \<in> set (ag_edges (delete_before_create vs name h))" for h
    using assms(3,4) by (simp add: delete_before_create_def ag_add_edge_def)
  show ?thesis using assms(2)
  proof (induction names arbitrary: h)
    case (Cons k ks)
    then show ?case
    proof (cases "k = name")
      case True
      then show ?thesis using keep [of "delete_before_create vs name h" ks] new [of h] by auto
    qed simp
  qed simp
qed

lemma vg_manager_orders:
  assumes "run_vg_dependency_manager lk g = Inr g'"
    and "sort_out (named_action lk) (ag_vertices g) = Inr vs"
    and "part_of (name, False) vs = [v]" "part_of (name, True) vs = [w]"
  shows "(v, w) \<in> set (ag_edges g')"
proof -
  have "name \<in> set (remdups (sort (List.map (fst \<circ> snd) vs)))"
  proof -
    have "v \<in> set (part_of (name, False) vs)" using assms(3) by simp
    then show ?thesis by (force simp: part_of_def)
  qed
  from fold_delete_before_create [OF assms(2) this assms(3,4), of g] show ?thesis
    using assms(1,2) by (simp only: run_vg_dependency_manager_def emap_Inr sum.inject)
qed

text \<open>Two calls are enough to find the volume group when the pool of a thin volume is not thin.\<close>

lemma lv_get_lvm_vg_ends:
  assumes "\<And>p. class_of g v = Inr (C_LvmLv LV_THIN) \<Longrightarrow> get_single_parent is_lvm_lv g v = Inr p \<Longrightarrow>
    class_of g p \<noteq> Inr (C_LvmLv LV_THIN)"
  shows "lv_get_lvm_vg (Suc (Suc n)) g v = lv_get_lvm_vg 2 g v" and "lv_get_lvm_vg 2 g v \<noteq> Inl Diverges"
proof -
  have same: "lv_get_lvm_vg (Suc m) g p = lv_get_lvm_vg 1 g p" "lv_get_lvm_vg 1 g p \<noteq> Inl Diverges"
    if "class_of g p \<noteq> Inr (C_LvmLv LV_THIN)" for p m
    using that get_single_parent_ends [of is_lvm_vg g p]
    by (cases "class_of g p"; auto simp: class_of_def split: option.splits)+
  have "lv_get_lvm_vg (Suc (Suc n)) g v = lv_get_lvm_vg (Suc 1) g v \<and> lv_get_lvm_vg (Suc 1) g v \<noteq> Inl Diverges"
  proof (cases "class_of g v = Inr (C_LvmLv LV_THIN)")
    case False
    then show ?thesis using same(1) [OF False] same(2) [OF False] by metis
  next
    case True
    show ?thesis
    proof (cases "get_single_parent is_lvm_lv g v")
      case (Inl e)
      then show ?thesis using True get_single_parent_ends [of is_lvm_lv g v] by simp
    next
      case (Inr p)
      have "lv_get_lvm_vg (Suc m) g v = lv_get_lvm_vg m g p" for m using True Inr by simp
      then show ?thesis using same [OF assms [OF True Inr]] by metis
    qed
  qed
  then show "lv_get_lvm_vg (Suc (Suc n)) g v = lv_get_lvm_vg 2 g v" and "lv_get_lvm_vg 2 g v \<noteq> Inl Diverges"
    unfolding Suc_1 by simp_all
qed

end
