(* ===== verification/BcacheGraph.thy ===== *)
theory BcacheGraph
  imports ClassDependencies
begin

text \<open>
  Bcaches in the devicegraph (storage/Devices/BcacheImpl.cc, BcacheCsetImpl.cc): attaching and
  detaching a caching set, the size of a bcache, and the actions that create, modify and delete
  bcaches and caching sets.
\<close>

section \<open>Caching sets\<close>

definition get_backing_device :: "devicegraph \<Rightarrow> nat \<Rightarrow> nat result" where
  "get_backing_device g v =
     (case get_parents_of_type is_blk_device g VIEW_CLASSIC v of [] \<Rightarrow> Inl DeviceNotFound | w # _ \<Rightarrow> Inr w)"

definition user_holder :: holder where
  "user_holder = \<lparr>h_class = C_User, h_attrs = []\<rparr>"

definition attach_bcache_cset :: "bcache_type \<Rightarrow> nat \<Rightarrow> nat \<Rightarrow> devicegraph \<Rightarrow> devicegraph result" where
  "attach_bcache_cset t cset v g =
     (if t = FLASH_ONLY then Inl (Exn ''A Caching Set cannot be added to a flash-only bcache'')
      else if has_cset g v then Inl (Exn ''The bcache is already associated to a Caching Set'')
      else emap snd (add_edge cset v user_holder g))"

definition detach_bcache_cset :: "bcache_type \<Rightarrow> nat \<Rightarrow> devicegraph \<Rightarrow> devicegraph result" where
  "detach_bcache_cset t v g =
     (if t = FLASH_ONLY then Inl (Exn ''A Caching Set cannot be removed from a flash-only bcache'')
      else if \<not> has_cset g v then Inl (Exn ''The bcache does not have an associated Caching Set'')
      else ebind (get_cset g v) (\<lambda>cset.
           ebind (sid_result g cset) (\<lambda>ssid.
           ebind (sid_result g v) (\<lambda>tsid.
           ebind (find_edge g ssid tsid) (\<lambda>e.
             if h_class (e_holder e) \<in> {C_User, C_FilesystemUser, C_MdUser} then Inr (remove_edge (e_id e) g)
             else Inl (Exn ''holder has wrong type''))))))"

section \<open>The size\<close>

definition bcache_metadata_size :: u64 where
  "bcache_metadata_size = 8 * KiB"

text \<open>\<open>set_size\<close> rounds down to the blocks of the bcache.\<close>

definition bcache_calculate_region :: "bcache_type \<Rightarrow> region \<Rightarrow> region \<Rightarrow> region result" where
  "bcache_calculate_region t backing r =
     (if t = BACKED
      then ebind (to_bytes backing (r_length backing)) (\<lambda>sz.
        let sz = (if bcache_metadata_size < sz then sz - bcache_metadata_size else 0)
        in ebind (to_blocks r sz) (\<lambda>n. region_new (r_start r) n (r_block_size r)))
      else Inr r)"

section \<open>Actions\<close>

text \<open>What \<open>BcacheCset::Impl::equal\<close> compares.\<close>

record bcache_cset =
  cs_sid :: nat
  cs_userdata :: "(string \<times> string) list"
  cs_uuid :: string

definition on_device :: "string \<Rightarrow> nat \<Rightarrow> action" where
  "on_device name sid = action_new (OtherAction name) (AffectDevice sid) False False"

definition bcache_create_actions :: "bcache_type \<Rightarrow> bool \<Rightarrow> nat \<Rightarrow> action list" where
  "bcache_create_actions t has_bcache_cset sid =
     (if t = BACKED
      then [action_new Create (AffectDevice sid) False False]
        @ (if has_bcache_cset then [on_device ''AttachBcacheCset'' sid] else [])
      else [])"

definition bcache_modify_actions ::
  "bcache_type \<Rightarrow> bcache_cset option \<times> cache_mode \<Rightarrow> bcache_cset option \<times> cache_mode \<Rightarrow> nat \<Rightarrow> action list" where
  "bcache_modify_actions t lhs rhs sid =
     (if t = BACKED
      then
        (case (fst lhs, fst rhs) of
           (Some l, Some r) \<Rightarrow>
             if l \<noteq> r then [on_device ''DetachBcacheCset'' sid, on_device ''AttachBcacheCset'' sid] else []
         | (Some l, None) \<Rightarrow> [on_device ''DetachBcacheCset'' sid]
         | (None, Some r) \<Rightarrow> [on_device ''AttachBcacheCset'' sid]
         | (None, None) \<Rightarrow> [])
        @ (if snd lhs \<noteq> snd rhs then [on_device ''UpdateCacheMode'' sid] else [])
      else [])"

definition bcache_delete_actions :: "bcache_type \<Rightarrow> bool \<Rightarrow> nat \<Rightarrow> action list" where
  "bcache_delete_actions t active sid =
     (if t = BACKED
      then (if active then [on_device ''Deactivate'' sid] else []) @ [action_new Delete (AffectDevice sid) False False]
      else [])"

definition cset_delete_actions :: "nat \<Rightarrow> action list" where
  "cset_delete_actions sid = [on_device ''Deactivate'' sid, action_new Delete (AffectDevice sid) False False]"

section \<open>Attaching and detaching\<close>

text \<open>
  A caching set that is attached to a bcache can be detached again, and the devices and holders
  are those from before.
\<close>

theorem attached_cset_detached:
  assumes wf: "wf_graph g" and attach: "attach_bcache_cset t cset v g = Inr g1"
    and cset: "has_class is_bcache_cset g cset" and no_link: "cset \<notin> set (parents g VIEW_ALL v)"
  shows "\<exists>g2. detach_bcache_cset t v g1 = Inr g2 \<and> dg_vertices g2 = dg_vertices g \<and> dg_edges g2 = dg_edges g"
proof -
  let ?e = "\<lparr>e_id = dg_next g, e_source = cset, e_target = v, e_holder = user_holder\<rparr>"
  have t: "t \<noteq> FLASH_ONLY" and none: "get_parents_of_type is_bcache_cset g VIEW_CLASSIC v = []"
    and add: "emap snd (add_edge cset v user_holder g) = Inr g1"
    using attach by (auto simp: attach_bcache_cset_def has_cset_def split: if_splits)
  obtain ssid tsid where sids: "sid_of g cset = Some ssid" "sid_of g v = Some tsid"
    and g1: "g1 = g\<lparr>dg_edges := dg_edges g @ [?e], dg_next := dg_next g + 1\<rparr>"
    using add by (auto simp: add_edge_def split: option.splits if_splits)
  have at: "device_at g1 w = device_at g w" for w by (simp add: g1 device_at_def)
  have cls: "class_of g1 w = class_of g w" "has_class P g1 w = has_class P g w" "sid_of g1 w = sid_of g w"
    "vertex_filter g1 vw w = vertex_filter g vw w" for w P vw
    by (simp_all add: class_of_def has_class_def sid_of_def vertex_filter_def at)
  have view: "holder_in_view g1 vw e = holder_in_view g vw e" for vw e
    by (simp add: holder_in_view_def snapshot_in_view_def relation_in_view_def at split: holder_class.splits view.splits)
  have visible: "holder_in_view g VIEW_CLASSIC ?e" "vertex_filter g VIEW_CLASSIC cset"
    using cset by (auto simp: holder_in_view_def user_holder_def has_class_def vertex_filter_def is_bcache_cset_def
      device_in_view_def split: option.splits)
  have "parents g1 VIEW_CLASSIC v = parents g VIEW_CLASSIC v @ [cset]"
    unfolding parents_def in_edges_def in_edges_view_def cls view using visible by (simp add: g1)
  then have parents: "get_parents_of_type is_bcache_cset g1 VIEW_CLASSIC v = [cset]"
    using none cset by (simp add: get_parents_of_type_def cls(2) [abs_def])
  have no_edge: "find_edges g ssid tsid = []"
  proof (rule ccontr)
    assume "find_edges g ssid tsid \<noteq> []"
    then obtain e where e: "e \<in> set (dg_edges g)" "sid_of g (e_source e) = Some ssid" "sid_of g (e_target e) = Some tsid"
      by (auto simp: find_edges_def joins_sids_def filter_empty_conv)
    have inj: "v = w" if s: "sid_of g v = Some s" "sid_of g w = Some s" for v w s
    proof -
      obtain d d' where "(v, d) \<in> set (dg_vertices g)" "(w, d') \<in> set (dg_vertices g)" "d_sid d = s" "d_sid d' = s"
        using s by (auto simp: sid_of_def device_at_def dest: map_of_SomeD)
      moreover have "inj_on (\<lambda>(v, d). d_sid d) (set (dg_vertices g))"
        using wf_graphD(3) [OF wf] by (simp add: distinct_map)
      ultimately show ?thesis using inj_onD [of "\<lambda>(v, d). d_sid d" "set (dg_vertices g)" "(v, d)" "(w, d')"] by simp
    qed
    have "e_source e = cset" "e_target e = v" using inj e(2,3) sids by blast+
    moreover have "holder_in_view g VIEW_ALL e" "vertex_filter g VIEW_ALL cset"
      using cset by (auto simp: holder_in_view_def snapshot_in_view_def relation_in_view_def vertex_filter_def
        device_in_view_def has_class_def split: holder_class.splits option.splits device_class.splits)
    ultimately have "cset \<in> set (parents g VIEW_ALL v)"
      using e(1) by (auto simp: parents_def in_edges_def in_edges_view_def)
    then show False using no_link by simp
  qed
  have "joins_sids g1 = joins_sids g" by (simp add: fun_eq_iff joins_sids_def cls)
  then have "find_edges g1 ssid tsid = find_edges g ssid tsid @ [?e]"
    using sids by (simp add: find_edges_def) (simp add: g1 joins_sids_def)
  then have edge: "find_edge g1 ssid tsid = Inr ?e" by (simp add: find_edge_def no_edge)
  have fresh: "e_id e \<noteq> dg_next g" if "e \<in> set (dg_edges g)" for e
    using wf_graphD(5) [OF wf that] by simp
  have "detach_bcache_cset t v g1 = Inr (remove_edge (dg_next g) g1)"
    using t parents sids edge by (simp add: detach_bcache_cset_def has_cset_def get_cset_def sid_result_def cls user_holder_def)
  moreover have "filter (\<lambda>e. e_id e \<noteq> dg_next g) (dg_edges g) = dg_edges g"
    using fresh by (simp add: filter_id_conv)
  ultimately show ?thesis by (simp add: remove_edge_def g1)
qed

text \<open>A caching set (vertex 1) and a bcache (2) on a partition (0).\<close>

definition demo_bcache_graph :: devicegraph where
  "demo_bcache_graph =
     \<lparr>dg_vertices = [(0, demo_device 70 (C_Device ''Partition'')), (1, demo_device 71 (C_Device ''BcacheCset'')),
        (2, demo_device 72 (C_Device ''Bcache''))],
      dg_edges = [\<lparr>e_id = 3, e_source = 0, e_target = 2, e_holder = user_holder\<rparr>], dg_next = 4\<rparr>"

definition demo_attached :: devicegraph where
  "demo_attached = (case attach_bcache_cset BACKED 1 2 demo_bcache_graph of Inr g \<Rightarrow> g | Inl _ \<Rightarrow> dg_empty)"

theorem attached_cset_detached_witness:
  "\<exists>g2. detach_bcache_cset BACKED 2 demo_attached = Inr g2 \<and> dg_vertices g2 = dg_vertices demo_bcache_graph \<and>
    dg_edges g2 = dg_edges demo_bcache_graph"
proof (rule attached_cset_detached)
  show "wf_graph demo_bcache_graph"
    by (simp add: wf_graph_def demo_bcache_graph_def vertices_def demo_device_def)
  show "attach_bcache_cset BACKED 1 2 demo_bcache_graph = Inr demo_attached" by code_simp
  show "has_class is_bcache_cset demo_bcache_graph 1" by code_simp
  have "parents demo_bcache_graph VIEW_ALL 2 = [0]" by code_simp
  then show "1 \<notin> set (parents demo_bcache_graph VIEW_ALL 2)" by simp
qed

text \<open>A bcache and its metadata are never greater than the backing device.\<close>

lemma bcache_fits:
  assumes "bcache_calculate_region BACKED backing r = Inr r'" "to_bytes backing (r_length backing) = Inr sz"
    and "bcache_metadata_size < sz"
  shows "unat (r_length r') * unat (r_block_size r') + unat bcache_metadata_size \<le> unat sz"
proof -
  obtain n where n: "to_blocks r (sz - bcache_metadata_size) = Inr n" "region_new (r_start r) n (r_block_size r) = Inr r'"
    using assms by (auto simp: bcache_calculate_region_def Let_def result_simps)
  have "n = (sz - bcache_metadata_size) div r_block_size r"
    using n(1) by (auto simp: to_blocks_def split: if_splits)
  moreover have r': "r_length r' = n" "r_block_size r' = r_block_size r"
    using n(2) by (auto simp: region_new_def split: if_splits)
  ultimately have "unat (r_length r') * unat (r_block_size r') \<le> unat (sz - bcache_metadata_size)"
    by (simp add: unat_div mult.commute)
  moreover have "unat (sz - bcache_metadata_size) = unat sz - unat bcache_metadata_size"
    "unat bcache_metadata_size \<le> unat sz"
    using assms(3) by (simp_all add: unat_sub word_le_nat_alt word_less_nat_alt)
  ultimately show ?thesis by simp
qed

end
