(* ===== verification/HumanString.thy ===== *)
theory HumanString
  imports MathUtil Decimal
begin

text \<open>
  Sizes as text (storage/Utils/HumanString.cc): \<open>byte_to_humanstring\<close> prints a number of bytes with
  the greatest binary unit, \<open>humanstring_to_byte\<close> reads such a text.

  What the code takes from the locale (spaces, upper case, the translation of the units, the
  reading and printing of numbers) is a record; \<open>classic_locale\<close> is the classic C++ locale, written
  out as the standard says. The conversion of the characters of a decimal fraction to a
  \<open>long double\<close> and the printing of a \<open>long double\<close> with a given precision are parameters: a
  \<open>long double\<close> is a mantissa and an exponent of two.
\<close>

section \<open>Locales\<close>

text \<open>
  Reading an \<open>unsigned long long\<close>: nothing is stored when the text is only spaces, otherwise the
  value, whether it was read up to the end and whether it failed.
\<close>

datatype ull_read = NothingStored | UllRead bool bool u64

text \<open>A value \<open>m * 2 ^ e\<close>, characters that are not a number, or one too large.\<close>

datatype ld_value = LdInvalid | LdHuge | LdValue int int

record hs_locale =
  loc_space :: "char \<Rightarrow> bool"
  loc_upper :: "char \<Rightarrow> char"
  loc_translate :: "string \<Rightarrow> string"
  loc_read :: "string \<Rightarrow> ull_read"
  loc_print :: "u64 \<Rightarrow> string"

text \<open>The characters of the conversions; both directions depend on the platform's \<open>long double\<close>.\<close>

record long_double =
  ld_convert :: "string \<Rightarrow> ld_value"
  ld_print :: "nat \<Rightarrow> int \<Rightarrow> int \<Rightarrow> string"

definition classic_space :: "char \<Rightarrow> bool" where
  "classic_space c \<longleftrightarrow> c = CHR '' '' \<or> (9 \<le> (of_char c :: nat) \<and> (of_char c :: nat) \<le> 13)"

definition classic_upper :: "char \<Rightarrow> char" where
  "classic_upper c = (if 97 \<le> (of_char c :: nat) \<and> (of_char c :: nat) \<le> 122 then char_of (of_char c - 32 :: nat) else c)"

text \<open>The extraction of an unsigned number: spaces, a sign, digits. A negative number wraps.\<close>

definition classic_read :: "string \<Rightarrow> ull_read" where
  "classic_read s =
     (case dropWhile classic_space s of
        [] \<Rightarrow> NothingStored
      | c # cs \<Rightarrow>
          let t = (if c = CHR ''-'' \<or> c = CHR ''+'' then cs else c # cs);
              ds = takeWhile is_digit t; eof = (dropWhile is_digit t = []); v = number_of_digits ds
          in if ds = [] then UllRead eof True 0
             else if 2 ^ 64 \<le> v then UllRead eof True (- 1)
             else UllRead eof False (if c = CHR ''-'' then - word_of_int v else word_of_int v))"

definition classic_locale :: hs_locale where
  "classic_locale = \<lparr>loc_space = classic_space, loc_upper = classic_upper, loc_translate = (\<lambda>s. s),
     loc_read = classic_read, loc_print = (\<lambda>v. decimal (uint v))\<rparr>"

definition get_locale :: "bool \<Rightarrow> hs_locale \<Rightarrow> hs_locale" where
  "get_locale classic global = (if classic then classic_locale else global)"

section \<open>Units\<close>

definition num_suffixes :: nat where
  "num_suffixes = 7"

definition get_all_suffixes :: "nat \<Rightarrow> bool \<Rightarrow> bool \<Rightarrow> string list" where
  "get_all_suffixes i all sloppy =
     (if i = 0 then ''B'' # (if sloppy then [''''] else [])
      else if i = 1 then ''KiB'' # (if all then [''kB''] else []) @ (if sloppy then [''k''] else [])
      else if i = 2 then ''MiB'' # (if all then [''MB''] else []) @ (if sloppy then [''M''] else [])
      else if i = 3 then ''GiB'' # (if all then [''GB''] else []) @ (if sloppy then [''G''] else [])
      else if i = 4 then ''TiB'' # (if all then [''TB''] else []) @ (if sloppy then [''T''] else [])
      else if i = 5 then ''PiB'' # (if all then [''PB''] else []) @ (if sloppy then [''P''] else [])
      else if i = 6 then ''EiB'' # (if all then [''EB''] else []) @ (if sloppy then [''E''] else [])
      else [])"

text \<open>The first unit of an index that has none is undefined; the empty text is not translated.\<close>

definition translated :: "hs_locale \<Rightarrow> string \<Rightarrow> string" where
  "translated loc s = (if s = [] then [] else loc_translate loc s)"

definition get_suffix :: "nat \<Rightarrow> hs_locale \<Rightarrow> string result" where
  "get_suffix i loc =
     (case get_all_suffixes i False False of [] \<Rightarrow> Inl UndefinedBehaviour | s # _ \<Rightarrow> Inr (translated loc s))"

section \<open>Printing\<close>

definition unit_index :: "u64 \<Rightarrow> nat result" where
  "unit_index s = (if 0 < s then emap (\<lambda>n. (64 - (n + 1)) div 10) (clz s) else Inr 0)"

definition byte_to_humanstring ::
    "hs_locale \<Rightarrow> long_double \<Rightarrow> u64 \<Rightarrow> bool \<Rightarrow> nat \<Rightarrow> bool \<Rightarrow> string result" where
  "byte_to_humanstring global ld s classic precision omit_zeroes =
     (let loc = get_locale classic global
      in ebind (unit_index s) (\<lambda>i.
         ebind (if i = 0 then Inr True
                else if omit_zeroes then ebind (shift_left 1 (10 * i)) (is_multiple_of s)
                else Inr False) (\<lambda>exact.
         ebind (get_suffix i loc) (\<lambda>suffix.
           Inr ((if exact then loc_print loc (drop_bit (10 * i) s)
                 else ld_print ld precision (uint s) (- 10 * int i)) @ '' '' @ suffix)))))"

section \<open>Reading\<close>

text \<open>
  The integer after the suffix: \<open>None\<close> when the text is not an integer. An integer that was not
  stored is read all the same.
\<close>

definition parse_i :: "hs_locale \<Rightarrow> string \<Rightarrow> nat \<Rightarrow> u64 option result" where
  "parse_i loc str i =
     (case loc_read loc str of
        NothingStored \<Rightarrow> Inl UndefinedBehaviour
      | UllRead eof fail v \<Rightarrow>
          if \<not> eof then Inr None
          else if fail then if v = - 1 then Inl OverflowException else Inr None
          else if v \<noteq> 0 \<and> hd str = CHR ''-'' then Inl OverflowException
          else ebind (if 0 < v then clz v else Inr 64) (\<lambda>n.
            if n < 10 * i then Inl OverflowException
            else emap Some (shift_left v (10 * i))))"

text \<open>
  The characters of a decimal fraction the stream takes from the text, as the rest it leaves:
  digits, a point, an exponent with a sign after the first digit.
\<close>

fun float_rest :: "bool \<Rightarrow> bool \<Rightarrow> bool \<Rightarrow> string \<Rightarrow> string" where
  "float_rest digits point expo [] = []"
| "float_rest digits point expo (c # cs) =
     (if is_digit c then float_rest True point expo cs
      else if c = CHR ''.'' \<and> \<not> point \<and> \<not> expo then float_rest digits True expo cs
      else if (c = CHR ''e'' \<or> c = CHR ''E'') \<and> \<not> expo \<and> digits
      then (case cs of
          [] \<Rightarrow> []
        | d # ds \<Rightarrow> if d = CHR ''+'' \<or> d = CHR ''-'' then float_rest digits point True ds else float_rest digits point True cs)
      else c # cs)"

definition float_unread :: "string \<Rightarrow> string" where
  "float_unread s = (case s of [] \<Rightarrow> []
     | c # cs \<Rightarrow> float_rest False False False (if c = CHR ''+'' \<or> c = CHR ''-'' then cs else s))"

text \<open>\<open>round (m * 2 ^ e)\<close>, half away from zero, for a value that is not negative.\<close>

definition round_value :: "int \<Rightarrow> int \<Rightarrow> int" where
  "round_value m e = (if 0 \<le> e then m * 2 ^ nat e else (2 * m + 2 ^ nat (- e)) div 2 ^ (nat (- e) + 1))"

definition parse_f :: "long_double \<Rightarrow> hs_locale \<Rightarrow> string \<Rightarrow> nat \<Rightarrow> u64 option result" where
  "parse_f ld loc str i =
     (let t = dropWhile (loc_space loc) str
      in if float_unread t \<noteq> [] then Inr None
         else case ld_convert ld t of
             LdInvalid \<Rightarrow> Inr None
           | LdHuge \<Rightarrow> Inl OverflowException
           | LdValue m e \<Rightarrow>
               if m < 0 then Inl OverflowException
               else let v = round_value m (e + 10 * int i)
                    in if 2 ^ 64 - 1 < v then Inl OverflowException else Inr (Some (word_of_int v)))"

definition trim :: "hs_locale \<Rightarrow> string \<Rightarrow> string" where
  "trim loc s = rev (dropWhile (loc_space loc) (rev (dropWhile (loc_space loc) s)))"

definition iends_with :: "hs_locale \<Rightarrow> string \<Rightarrow> string \<Rightarrow> bool" where
  "iends_with loc s t \<longleftrightarrow> length t \<le> length s \<and>
     map (loc_upper loc) (drop (length s - length t) s) = map (loc_upper loc) t"

text \<open>The body of the inner loop, and both loops: the first unit whose number can be read is taken.\<close>

definition try_suffix :: "long_double \<Rightarrow> hs_locale \<Rightarrow> string \<Rightarrow> nat \<Rightarrow> string \<Rightarrow> u64 option result" where
  "try_suffix ld loc str i suffix =
     (if iends_with loc str suffix
      then let number = trim loc (take (length str - length suffix) str)
           in ebind (parse_i loc number i) (\<lambda>v.
              case v of Some w \<Rightarrow> Inr (Some w) | None \<Rightarrow> parse_f ld loc number i)
      else Inr None)"

fun try_suffixes :: "long_double \<Rightarrow> hs_locale \<Rightarrow> string \<Rightarrow> nat \<Rightarrow> string list \<Rightarrow> u64 option result" where
  "try_suffixes ld loc str i [] = Inr None"
| "try_suffixes ld loc str i (s # ss) =
     ebind (try_suffix ld loc str i (translated loc s)) (\<lambda>v.
       case v of Some w \<Rightarrow> Inr (Some w) | None \<Rightarrow> try_suffixes ld loc str i ss)"

fun try_units :: "long_double \<Rightarrow> hs_locale \<Rightarrow> bool \<Rightarrow> string \<Rightarrow> nat list \<Rightarrow> u64 result" where
  "try_units ld loc classic str [] = Inl ParseException"
| "try_units ld loc classic str (i # is) =
     ebind (try_suffixes ld loc str i (get_all_suffixes i True (\<not> classic))) (\<lambda>v.
       case v of Some w \<Rightarrow> Inr w | None \<Rightarrow> try_units ld loc classic str is)"

definition humanstring_to_byte :: "hs_locale \<Rightarrow> long_double \<Rightarrow> string \<Rightarrow> bool \<Rightarrow> u64 result" where
  "humanstring_to_byte global ld str classic =
     (let loc = get_locale classic global
      in try_units ld loc classic (trim loc str) [0..<num_suffixes])"

section \<open>Reading a decimal number\<close>

lemma digit_not_space: "is_digit c \<Longrightarrow> \<not> classic_space c \<and> c \<noteq> CHR ''-'' \<and> c \<noteq> CHR ''+''"
  by (auto simp: is_digit_def classic_space_def)

text \<open>A number that is followed by something else is read without reaching the end.\<close>

lemma read_decimal:
  assumes "0 \<le> n" and "n < 2 ^ 64" and "t = [] \<or> \<not> is_digit (hd t)"
  shows "classic_read (decimal n @ t) = UllRead (t = []) False (word_of_int n)"
proof -
  note d = decimal_facts [OF assms(1)]
  obtain c cs where c: "decimal n = c # cs" using d(1) by (cases "decimal n") auto
  have cd: "is_digit c" using d(2) c by simp
  have tw: "takeWhile is_digit (cs @ t) = cs" "dropWhile is_digit (cs @ t) = t"
    using d(2) c assms(3) by (cases t; simp)+
  have "number_of_digits (c # cs) = n" using d(3) c by simp
  then show ?thesis
    unfolding c append_Cons classic_read_def
    using digit_not_space [OF cd] assms(2) cd by (simp add: Let_def tw del: dropWhile_eq_Nil_conv)
qed

lemma trim_plain:
  assumes "s \<noteq> []" and "\<not> loc_space loc (hd s)" and "\<not> loc_space loc (last s)"
  shows "trim loc s = s"
proof -
  have a: "dropWhile (loc_space loc) s = s" using assms(1,2) by (cases s) simp_all
  have "dropWhile (loc_space loc) (rev s) = rev s" using assms(1,3) by (cases s rule: rev_cases) simp_all
  then show ?thesis by (simp add: trim_def a)
qed

lemma trim_decimal:
  assumes "0 \<le> n" and "t = [] \<or> \<not> classic_space (last t)"
  shows "trim classic_locale (decimal n @ t) = decimal n @ t"
proof (rule trim_plain)
  note d = decimal_facts [OF assms(1)]
  show "decimal n @ t \<noteq> []" using d(1) by simp
  have sp: "loc_space classic_locale = classic_space" by (simp add: classic_locale_def)
  have "is_digit (hd (decimal n))" "is_digit (last (decimal n))" using d(1,2) by simp_all
  then show "\<not> loc_space classic_locale (hd (decimal n @ t))" "\<not> loc_space classic_locale (last (decimal n @ t))"
    using d(1) assms(2) digit_not_space unfolding sp by (cases "t = []"; simp)+
qed

lemma trim_number:
  assumes "0 \<le> n"
  shows "trim classic_locale (decimal n @ '' '') = decimal n"
proof -
  note d = decimal_facts [OF assms]
  have dig: "is_digit (hd (decimal n))" "is_digit (last (decimal n))" using d(1,2) by simp_all
  obtain c cs where c: "decimal n = c # cs" using d(1) by (cases "decimal n") auto
  have "dropWhile classic_space (decimal n @ '' '') = decimal n @ '' ''"
    using digit_not_space [OF dig(1)] by (simp add: c)
  moreover have "dropWhile classic_space (rev (decimal n)) = rev (decimal n)"
    using digit_not_space [OF dig(2)] d(1) by (cases "decimal n" rule: rev_cases) simp_all
  moreover have "classic_space CHR '' ''" by (simp add: classic_space_def)
  ultimately show ?thesis by (simp add: trim_def classic_locale_def)
qed

lemma iends_with_append:
  "length t \<le> length b \<Longrightarrow> iends_with loc (a @ b) t \<longleftrightarrow> iends_with loc b t"
  by (simp add: iends_with_def)

section \<open>What is printed can be read\<close>

lemma unat_drop_bit: "unat (drop_bit k s) = unat (s :: u64) div 2 ^ k"
  unfolding unat_drop_bit_eq by (rule drop_bit_eq_div)

lemma unit_index_facts:
  assumes "unit_index s = Inr i"
  shows "i < 7" and "drop_bit (10 * i) s \<noteq> 0 \<Longrightarrow> \<exists>n. clz (drop_bit (10 * i) s) = Inr n \<and> 10 * i \<le> n"
proof -
  show i7: "i < 7"
  proof (cases "0 < s")
    case True
    then have "s \<noteq> 0" by auto
    from clz_bounds [OF this] obtain n where "n < 64" "clz s = Inr (63 - n)" by blast
    then show ?thesis using assms True by (simp add: unit_index_def)
  next
    case False
    then show ?thesis using assms by (simp add: unit_index_def)
  qed
  assume nz: "drop_bit (10 * i) s \<noteq> 0"
  let ?v = "drop_bit (10 * i) s"
  from clz_bounds [OF nz] obtain n where n: "n < 64" "clz ?v = Inr (63 - n)" "2 ^ n \<le> unat ?v" by blast
  have "unat ?v = unat s div 2 ^ (10 * i)" by (rule unat_drop_bit)
  then have "2 ^ n * 2 ^ (10 * i) \<le> unat s"
    using n(3) mult_le_mono1 [of "2 ^ n" "unat s div 2 ^ (10 * i)" "2 ^ (10 * i)"] div_times_less_eq_dividend
    by (metis order_trans)
  then have "(2 :: nat) ^ (n + 10 * i) < 2 ^ 64"
    using le_less_trans [OF _ unat_lt64 [of s]] by (simp add: power_add)
  then have "n + 10 * i < 64" using power_less_imp_less_exp [of "2 :: nat" "n + 10 * i" 64] by simp
  then show "\<exists>n. clz ?v = Inr n \<and> 10 * i \<le> n" using n(2) by auto
qed

lemma push_drop_bit:
  assumes "2 ^ k dvd unat s" and "k < 64"
  shows "push_bit k (drop_bit k s) = (s :: u64)"
proof -
  have "unat (drop_bit k s) * 2 ^ k = unat s"
    using assms(1) unfolding unat_drop_bit by simp
  moreover have "push_bit k (drop_bit k s) = word_of_nat (unat (drop_bit k s) * 2 ^ k)"
    by (simp add: push_bit_eq_mult)
  ultimately show ?thesis by simp
qed

text \<open>No unit before the right one can be taken: only B is another ending, and its number is none.\<close>

definition unit_of :: "nat \<Rightarrow> string" where
  "unit_of i = hd (get_all_suffixes i False False)"

lemma unit_of_first: "i < 7 \<Longrightarrow> \<exists>us. get_all_suffixes i True False = unit_of i # us \<and>
    get_suffix i classic_locale = Inr (unit_of i)"
  by (auto simp: unit_of_def get_all_suffixes_def get_suffix_def translated_def classic_locale_def)

lemma units_differ:
  "list_all (\<lambda>i. list_all (\<lambda>j. list_all (\<lambda>t. length t \<le> 4 \<and> \<not> iends_with classic_locale ('' '' @ unit_of i) t)
     (get_all_suffixes j True False)) [1..<i]) [1..<7]"
  by code_simp

lemma units_end_in_B:
  "list_all (\<lambda>i. iends_with classic_locale ('' '' @ unit_of i) ''B'' \<and> length (unit_of i) = 3 \<and>
     \<not> classic_space (unit_of i ! 1)) [1..<7]"
  by code_simp

lemma unit_facts:
  assumes "i \<in> set [1..<7]"
  shows "length (unit_of i) = 3" and "\<not> classic_space (unit_of i ! 1)"
  using units_end_in_B assms unfolding list_all_iff by blast+

lemma try_suffixes_none:
  assumes "\<forall>t \<in> set ts. \<not> iends_with classic_locale str t"
  shows "try_suffixes ld classic_locale str i ts = Inr None"
  using assms by (induction ts) (auto simp: try_suffix_def translated_def classic_locale_def)

lemma parse_i_rest:
  assumes "0 \<le> n" and "n < 2 ^ 64" and "t \<noteq> []" and "\<not> is_digit (hd t)"
  shows "parse_i classic_locale (decimal n @ t) i = Inr None"
  using read_decimal [OF assms(1,2), of t] assms(3,4) by (simp add: parse_i_def classic_locale_def)

lemma float_rest_digits:
  "\<forall>d \<in> set ds. is_digit d \<Longrightarrow> float_rest a b c (ds @ CHR '' '' # t) = CHR '' '' # t"
proof (induction ds arbitrary: a)
  case Nil
  then show ?case by (simp add: is_digit_def)
next
  case (Cons d ds)
  then show ?case by simp
qed

lemma parse_f_rest:
  assumes "0 \<le> n"
  shows "parse_f ld classic_locale (decimal n @ CHR '' '' # t) i = Inr None"
proof -
  note d = decimal_facts [OF assms]
  obtain c cs where c: "decimal n = c # cs" using d(1) by (cases "decimal n") auto
  have cd: "is_digit c" using d(2) c by simp
  have "float_unread (decimal n @ CHR '' '' # t) = CHR '' '' # t"
    using float_rest_digits [OF d(2), of False False False t] digit_not_space [OF cd] c by (simp add: float_unread_def)
  moreover have "dropWhile classic_space (decimal n @ CHR '' '' # t) = decimal n @ CHR '' '' # t"
    using digit_not_space [OF cd] c by simp
  ultimately show ?thesis by (simp add: parse_f_def classic_locale_def)
qed

lemma parse_i_number:
  assumes "unit_index s = Inr i" and "2 ^ (10 * i) dvd unat s"
  shows "parse_i classic_locale (decimal (uint (drop_bit (10 * i) s))) i = Inr (Some s)"
proof -
  let ?v = "drop_bit (10 * i) s"
  have b: "0 \<le> uint ?v" "uint ?v < 2 ^ 64" using uint_bounded [of ?v] by simp_all
  have "loc_read classic_locale (decimal (uint ?v)) = UllRead True False ?v"
    using read_decimal [OF b, of "[]"] by (simp add: classic_locale_def)
  moreover have "hd (decimal (uint ?v)) \<noteq> CHR ''-''"
    using decimal_facts [OF b(1)] digit_not_space by (metis list.set_sel(1))
  moreover have i: "i < 7" by (rule unit_index_facts(1) [OF assms(1)])
  moreover have "\<exists>n. (if 0 < ?v then clz ?v else Inr 64) = Inr n \<and> 10 * i \<le> n"
  proof (cases "?v = 0")
    case True
    then show ?thesis using i by simp
  next
    case False
    then show ?thesis using unit_index_facts(2) [OF assms(1) False] by (simp add: word_gt_0)
  qed
  moreover have "push_bit (10 * i) ?v = s" by (rule push_drop_bit [OF assms(2)]) (use i in simp)
  ultimately show ?thesis by (auto simp: parse_i_def shift_left_def)
qed

lemma try_units_skip:
  assumes "\<forall>j \<in> set is. try_suffixes ld loc str j (get_all_suffixes j True (\<not> classic)) = Inr None"
  shows "try_units ld loc classic str (is @ js) = try_units ld loc classic str js"
  using assms by (induction "is") simp_all

text \<open>
  C39: In the classic locale a number of bytes that is a multiple of its unit is printed as an
  integer when zeroes are omitted, and reading that text in the classic locale gives exactly the
  number of bytes, whatever the platform does with fractions.
\<close>

theorem humanstring_roundtrip:
  assumes "unit_index s = Inr i" and "2 ^ (10 * i) dvd unat s"
  shows "\<exists>text. byte_to_humanstring global ld s True precision True = Inr text \<and>
    humanstring_to_byte global ld text True = Inr s"
proof -
  let ?loc = classic_locale and ?n = "uint (drop_bit (10 * i) s)"
  let ?text = "decimal ?n @ CHR '' '' # unit_of i"
  have i7: "i < 7" by (rule unit_index_facts(1) [OF assms(1)])
  have b: "0 \<le> ?n" "?n < 2 ^ 64" using uint_bounded [of "drop_bit (10 * i) s"] by simp_all
  obtain us where us: "get_all_suffixes i True False = unit_of i # us" "get_suffix i ?loc = Inr (unit_of i)"
    using unit_of_first [OF i7] by blast
  have unit: "unit_of i \<noteq> []" "\<not> classic_space (last (unit_of i))" "unit_of 0 = ''B''"
    using i7 by (auto simp: unit_of_def get_all_suffixes_def classic_space_def)
  have "is_multiple_of s (push_bit (10 * i) 1) = Inr True"
  proof -
    have "unat (push_bit (10 * i) 1 :: u64) = 2 ^ (10 * i)" using i7 by (intro unat_push_bit_one) simp
    moreover from this have "push_bit (10 * i) 1 \<noteq> (0 :: u64)" by (metis power_not_zero unat_0 zero_neq_numeral)
    ultimately show ?thesis
      using assms(2) by (simp only: is_multiple_of_def if_False word_unat_eq_iff unat_mod dvd_eq_mod_eq_0 unat_0 simp_thms)
  qed
  then have print: "byte_to_humanstring global ld s True precision True = Inr ?text"
    using assms(1) i7 us(2)
    by (simp add: byte_to_humanstring_def get_locale_def shift_left_def classic_locale_def Let_def)
  have trim: "trim ?loc ?text = ?text"
    using trim_decimal [OF b(1), of "CHR '' '' # unit_of i"] unit by simp
  have own: "try_suffix ld ?loc ?text i (unit_of i) = Inr (Some s)"
  proof -
    have "take (length ?text - length (unit_of i)) ?text = decimal ?n @ '' ''" by simp
    moreover have "trim ?loc (decimal ?n @ '' '') = decimal ?n" by (rule trim_number [OF b(1)])
    moreover have "iends_with ?loc ?text (unit_of i)" by (simp add: iends_with_def)
    ultimately show ?thesis
      using parse_i_number [OF assms] by (simp add: try_suffix_def Let_def)
  qed
  have skip: "try_suffixes ld ?loc ?text j (get_all_suffixes j True False) = Inr None" if j: "j < i" for j
  proof (cases "j = 0")
    case True
    have m: "i \<in> set [1..<7]" using j i7 by simp
    then have "length (unit_of i) = 3" by (rule unit_facts(1))
    then obtain x y z where xyz: "unit_of i = [x, y, z]" by (auto simp: length_Suc_conv numeral_3_eq_3)
    then have y: "\<not> classic_space y" using unit_facts(2) [OF m] by simp
    have "take (length ?text - length ''B'') ?text = decimal ?n @ CHR '' '' # [x, y]" by (simp add: xyz)
    moreover have "trim ?loc (decimal ?n @ CHR '' '' # [x, y]) = decimal ?n @ CHR '' '' # [x, y]"
      using trim_decimal [OF b(1), of "CHR '' '' # [x, y]"] y by simp
    moreover have "parse_i ?loc (decimal ?n @ CHR '' '' # [x, y]) 0 = Inr None"
      by (rule parse_i_rest [OF b]) (simp_all add: is_digit_def)
    ultimately have "try_suffix ld ?loc ?text 0 ''B'' = Inr None"
      using parse_f_rest [OF b(1), of ld "[x, y]" 0] by (simp add: try_suffix_def Let_def)
    then show ?thesis using True by (simp add: get_all_suffixes_def translated_def classic_locale_def)
  next
    case False
    then have "i \<in> set [1..<7]" "j \<in> set [1..<i]" using j i7 by auto
    then have t: "\<forall>t \<in> set (get_all_suffixes j True False). length t \<le> 4 \<and> \<not> iends_with ?loc ('' '' @ unit_of i) t"
      using units_differ unfolding list_all_iff by blast
    have "\<not> iends_with ?loc ?text t" if "t \<in> set (get_all_suffixes j True False)" for t
      using iends_with_append [of t "'' '' @ unit_of i" ?loc "decimal ?n"] t that
        unit_facts(1) [OF \<open>i \<in> set [1..<7]\<close>] by simp
    then show ?thesis by (intro try_suffixes_none) blast
  qed
  have "[0..<7] = [0..<i] @ i # [Suc i..<7]"
    using i7 upt_add_eq_append [of 0 i "7 - i"] by (simp add: upt_conv_Cons)
  then have "try_units ld ?loc True ?text [0..<num_suffixes] = try_units ld ?loc True ?text (i # [Suc i..<7])"
    unfolding num_suffixes_def using try_units_skip [of "[0..<i]" ld ?loc ?text True "i # [Suc i..<7]"] skip by simp
  also have "\<dots> = Inr s"
    using own us(1) unit(1) by (simp add: translated_def classic_locale_def)
  finally have "humanstring_to_byte global ld ?text True = Inr s"
    by (simp add: humanstring_to_byte_def get_locale_def trim Let_def)
  then show ?thesis using print by blast
qed

theorem humanstring_roundtrip_witness:
  "\<exists>text. byte_to_humanstring classic_locale \<lparr>ld_convert = (\<lambda>_. LdInvalid), ld_print = (\<lambda>_ _ _. [])\<rparr> 5242880 True 2 True = Inr text \<and>
    humanstring_to_byte classic_locale \<lparr>ld_convert = (\<lambda>_. LdInvalid), ld_print = (\<lambda>_ _ _. [])\<rparr> text True = Inr 5242880"
proof -
  have "unit_index 5242880 = Inr 2" by code_simp
  moreover have "2 ^ (10 * 2) dvd unat (5242880 :: u64)" by simp
  ultimately show ?thesis by (rule humanstring_roundtrip)
qed

text \<open>
  A unit without a number: the stream stores nothing into the variable that is compared with the
  greatest value afterwards.
\<close>

lemma unit_without_number: "humanstring_to_byte global ld ''KiB'' True = Inl UndefinedBehaviour"
proof -
  have "parse_i classic_locale ''Ki'' 0 = Inr None" by code_simp
  moreover have "parse_f ld classic_locale ''Ki'' 0 = Inr None"
    by (simp add: parse_f_def classic_locale_def classic_space_def float_unread_def is_digit_def)
  moreover have "parse_i classic_locale '''' 1 = Inl UndefinedBehaviour" "trim classic_locale ''KiB'' = ''KiB''"
    "trim classic_locale ''Ki'' = ''Ki''" "trim classic_locale '''' = ''''"
    "iends_with classic_locale ''KiB'' ''B''" "iends_with classic_locale ''KiB'' ''KiB''"
    by code_simp+
  moreover have "[0..<num_suffixes] = 0 # 1 # [2..<7]" by code_simp
  moreover have "get_all_suffixes 0 True False = [''B'']" "get_all_suffixes 1 True False = [''KiB'', ''kB'']"
    by code_simp+
  moreover have "translated classic_locale s = s" for s by (simp add: translated_def classic_locale_def)
  ultimately show ?thesis
    by (simp add: humanstring_to_byte_def get_locale_def try_suffix_def)
qed

end
