(* ===== verification/Pool.thy ===== *)
theory Pool
  imports PartitionNumbers HumanString "HOL-Library.Char_ord" "HOL-Library.List_Lexorder" "HOL-Library.Multiset" "HOL-Library.Sublist"
begin

text \<open>
  Pools (storage/PoolImpl.cc, StorageImpl.cc): a pool is a list of devices, usually all disks of one
  kind, from which partitions are taken for e.g. a RAID. The strategy is to prefer the devices that
  are used least.

  State: the pools are a map from names to lists of sids. Of the devicegraph a pool sees the devices
  with their sids and, of those that can have partitions, the key they are sorted by
  (\<open>get_name_sort_key\<close>) and the partition table. \<open>create_partitions\<close> changes the tables and takes
  the sids of the new partitions from a counter.
\<close>

section \<open>Devices and pools\<close>

record disk =
  dk_sid :: nat
  dk_sort_key :: string
  dk_table :: "ptable option"

datatype graph_device = Partitionable disk | NotPartitionable nat

type_synonym pool = "nat list"

definition gd_sid :: "graph_device \<Rightarrow> nat" where
  "gd_sid d = (case d of Partitionable dk \<Rightarrow> dk_sid dk | NotPartitionable sid \<Rightarrow> sid)"

definition device_in_graph :: "graph_device list \<Rightarrow> nat \<Rightarrow> bool" where
  "device_in_graph dg sid \<longleftrightarrow> list_ex (\<lambda>d. gd_sid d = sid) dg"

definition exists_device :: "nat \<Rightarrow> pool \<Rightarrow> bool" where
  "exists_device sid pool \<longleftrightarrow> sid \<in> set pool"

definition pool_add_device :: "nat \<Rightarrow> pool \<Rightarrow> pool result" where
  "pool_add_device sid pool =
     (if exists_device sid pool then Inl (Exn ''device already in pool'') else Inr (pool @ [sid]))"

definition pool_remove_device :: "nat \<Rightarrow> pool \<Rightarrow> pool result" where
  "pool_remove_device sid pool =
     (if exists_device sid pool then Inr (remove1 sid pool) else Inl (Exn ''device not in pool''))"

definition pool_empty :: "graph_device list \<Rightarrow> pool \<Rightarrow> bool" where
  "pool_empty dg pool \<longleftrightarrow> list_all (\<lambda>sid. \<not> device_in_graph dg sid) pool"

definition pool_size :: "graph_device list \<Rightarrow> pool \<Rightarrow> nat" where
  "pool_size dg pool = length (filter (device_in_graph dg) pool)"

definition pool_devices :: "graph_device list \<Rightarrow> pool \<Rightarrow> graph_device list" where
  "pool_devices dg pool = List.map_filter (\<lambda>sid. find (\<lambda>d. gd_sid d = sid) dg) pool"

section \<open>The candidates\<close>

definition get_used_size :: "ptable \<Rightarrow> u64 result" where
  "get_used_size pt =
     efold (\<lambda>p used. if p_type p = PRIMARY \<or> p_type p = LOGICAL
                     then emap (\<lambda>n. used + n) (to_bytes (p_region p) (r_length (p_region p)))
                     else Inr used) (get_partitions pt) 0"

definition with_table :: "graph_device \<Rightarrow> (string \<times> nat \<times> ptable) option" where
  "with_table d =
     (case d of
        Partitionable dk \<Rightarrow> map_option (\<lambda>pt. (dk_sort_key dk, dk_sid dk, pt)) (dk_table dk)
      | NotPartitionable _ \<Rightarrow> None)"

text \<open>\<open>sort_by_key\<close> goes through a multimap from the keys to the indexes, so it is stable.\<close>

fun with_keys :: "('a \<Rightarrow> u64 result) \<Rightarrow> 'a list \<Rightarrow> (u64 \<times> 'a) list result" where
  "with_keys f [] = Inr []"
| "with_keys f (x # xs) = ebind (f x) (\<lambda>k. emap (Cons (k, x)) (with_keys f xs))"

definition sort_by_key :: "('a \<Rightarrow> u64 result) \<Rightarrow> 'a list \<Rightarrow> 'a list result" where
  "sort_by_key f xs = emap (\<lambda>kxs. List.map snd (sort_key fst kxs)) (with_keys f xs)"

definition get_partitionable_candidates :: "graph_device list \<Rightarrow> pool \<Rightarrow> (nat \<times> ptable) list result" where
  "get_partitionable_candidates dg pool =
     sort_by_key (\<lambda>d. get_used_size (snd d))
       (List.map snd (sort_key fst (List.map_filter with_table (pool_devices dg pool))))"

section \<open>The size that is offered\<close>

definition slot_possible :: "partition_slot \<Rightarrow> bool" where
  "slot_possible s \<longleftrightarrow> primary_possible s \<or> logical_possible s"

definition slot_bytes :: "partition_slot \<Rightarrow> u64 result" where
  "slot_bytes s = to_bytes (slot_region s) (r_length (slot_region s))"

definition region_greater :: "region \<Rightarrow> region \<Rightarrow> bool result" where
  "region_greater a b = region_less b a"

definition biggest_step :: "partition_slot \<Rightarrow> partition_slot option \<Rightarrow> partition_slot option result" where
  "biggest_step s biggest =
     (if \<not> slot_possible s then Inr biggest
      else case biggest of
             None \<Rightarrow> Inr (Some s)
           | Some b \<Rightarrow> emap (\<lambda>greater. if greater then Some s else biggest)
                          (region_greater (slot_region s) (slot_region b)))"

definition pool_slots :: "ptable \<Rightarrow> partition_slot list result" where
  "pool_slots pt = get_unused_partition_slots pt ALIGN_START_KEEP_END OPTIMAL"

fun size_candidates :: "(nat \<times> ptable) list \<Rightarrow> u64 list result" where
  "size_candidates [] = Inr []"
| "size_candidates ((sid, pt) # ds) =
     ebind (pool_slots pt) (\<lambda>slots.
     ebind (efold biggest_step slots None) (\<lambda>biggest.
       case biggest of
         None \<Rightarrow> size_candidates ds
       | Some s \<Rightarrow> ebind (slot_bytes s) (\<lambda>n. emap (Cons n) (size_candidates ds))))"

text \<open>\<open>nth_element\<close> puts the element there that a sorted list, the greatest first, has there.\<close>

definition max_partition_size :: "graph_device list \<Rightarrow> pool \<Rightarrow> u32 \<Rightarrow> u64 result" where
  "max_partition_size dg pool number =
     (if number = 0 then Inl (Exn ''illegal value of zero for number'')
      else
        ebind (get_partitionable_candidates dg pool) (\<lambda>ds.
        ebind (size_candidates ds) (\<lambda>candidates.
          if length candidates < unat number then Inl PoolOutOfSpace
          else Inr (rev (sort candidates) ! (unat number - 1)))))"

section \<open>Creating partitions\<close>

record candidate =
  cd_table :: nat
  cd_number :: u32
  cd_region :: region
  cd_type :: partition_type

definition best_step :: "u64 \<Rightarrow> partition_slot \<Rightarrow> partition_slot option \<Rightarrow> partition_slot option result" where
  "best_step sz s best =
     (if \<not> slot_possible s then Inr best
      else ebind (slot_bytes s) (\<lambda>n.
        if n < sz then Inr best
        else case best of
               None \<Rightarrow> Inr (Some s)
             | Some b \<Rightarrow> emap (\<lambda>less. if less then Some s else best)
                            (region_less (slot_region s) (slot_region b))))"

definition candidate_of :: "nat \<Rightarrow> partition_slot \<Rightarrow> candidate" where
  "candidate_of sid s =
     \<lparr>cd_table = sid, cd_number = slot_number s, cd_region = slot_region s,
      cd_type = (if primary_possible s then PRIMARY else LOGICAL)\<rparr>"

fun find_candidates :: "u64 \<Rightarrow> u32 \<Rightarrow> (nat \<times> ptable) list \<Rightarrow> candidate list \<Rightarrow> candidate list result" where
  "find_candidates sz number [] cs = Inr cs"
| "find_candidates sz number ((sid, pt) # ds) cs =
     ebind (pool_slots pt) (\<lambda>slots.
     ebind (efold (best_step sz) slots None) (\<lambda>best.
       case best of
         None \<Rightarrow> find_candidates sz number ds cs
       | Some s \<Rightarrow>
           let cs' = cs @ [candidate_of sid s]
           in if length cs' = unat number then Inr cs' else find_candidates sz number ds cs'))"

definition disk_table :: "graph_device list \<Rightarrow> nat \<Rightarrow> ptable option" where
  "disk_table dg sid =
     (case find (\<lambda>d. gd_sid d = sid) dg of Some (Partitionable dk) \<Rightarrow> dk_table dk | _ \<Rightarrow> None)"

definition set_table :: "nat \<Rightarrow> ptable \<Rightarrow> graph_device list \<Rightarrow> graph_device list" where
  "set_table sid pt =
     List.map (\<lambda>d. case d of
        Partitionable dk \<Rightarrow> if dk_sid dk = sid then Partitionable (dk\<lparr>dk_table := Some pt\<rparr>) else d
      | NotPartitionable _ \<Rightarrow> d)"

text \<open>
  The second loop. Its state are the devices, the sid of the next new device and the new partitions,
  each with the device it is on. The region of a candidate gets the wanted length and is aligned.
\<close>

definition wanted_region :: "u64 \<Rightarrow> region \<Rightarrow> region result" where
  "wanted_region sz r =
     (let bs = get_block_size32 r in
      if bs = 0 then Inl DivisionByZero
      else if sz div ucast bs = 0 then Inl (Exn ''requested size smaller than sector size'')
      else Inr (r\<lparr>r_length := sz div ucast bs\<rparr>))"

definition create_candidate ::
    "u64 \<Rightarrow> candidate \<Rightarrow> graph_device list \<times> nat \<times> (nat \<times> nat) list \<Rightarrow>
     (graph_device list \<times> nat \<times> (nat \<times> nat) list) result" where
  "create_candidate sz c st =
     (let (dg, next, created) = st in
      case disk_table dg (cd_table c) of
        None \<Rightarrow> Inl DeviceNotFound
      | Some pt \<Rightarrow>
          ebind (wanted_region sz (cd_region c)) (\<lambda>wanted.
          ebind (align (get_alignment pt OPTIMAL) wanted ALIGN_START_AND_END) (\<lambda>r.
          ebind (create_partition next (cd_number c) r (cd_type c) pt) (\<lambda>pt'.
            Inr (set_table (cd_table c) pt' dg, next + 1, created @ [(cd_table c, next)])))))"

definition create_partitions ::
    "graph_device list \<Rightarrow> nat \<Rightarrow> pool \<Rightarrow> u32 \<Rightarrow> u64 \<Rightarrow> (graph_device list \<times> nat \<times> (nat \<times> nat) list) result" where
  "create_partitions dg next pool number sz =
     (if number = 0 then Inl (Exn ''illegal value of zero for number'')
      else
        ebind (get_partitionable_candidates dg pool) (\<lambda>ds.
        ebind (find_candidates sz number ds []) (\<lambda>cs.
          if length cs < unat number then Inl PoolOutOfSpace
          else efold (create_candidate sz) (rev cs) (dg, next, []))))"

section \<open>The slots of a pool\<close>

text \<open>
  What the theorems assume of a table: it has the layout of \<open>PartitionSteps\<close>, its sids are below the
  counter, and its alignment has a grain of at most 2 ^ 63 bytes and no offset.
\<close>

definition pool_table :: "nat \<Rightarrow> ptable \<Rightarrow> bool" where
  "pool_table next pt \<longleftrightarrow>
     pt_layout pt \<and> (\<forall>p \<in> set (pt_children pt @ pt_logicals pt). p_sid p < next) \<and>
     al_offset (get_alignment pt OPTIMAL) = 0 \<and>
     (\<exists>g. calculate_grain (get_alignment pt OPTIMAL) = Inr g \<and> unat g \<le> 2 ^ 63)"

definition table_grain :: "ptable \<Rightarrow> nat" where
  "table_grain pt =
     (case calculate_grain (get_alignment pt OPTIMAL) of
        Inr g \<Rightarrow> grain_blocks g (r_block_size (dev_region (pt_dev pt)))
      | Inl _ \<Rightarrow> 0)"

text \<open>Every slot is an unused region whose start was aligned.\<close>

lemma slot_placed:
  assumes ok: "pt_ok pt" and slots: "get_unused_partition_slots pt ALIGN_START_KEEP_END ty = Inr slots"
    and slot: "s \<in> set slots"
  obtains q where "valid_region q" "align_region_in_place (get_alignment pt ty) q ALIGN_START_KEEP_END
    = Inr (True, slot_region s)"
  using slots slot
proof (cases rule: slots_cases)
  case (1 ps)
  define ss where "ss = sort_key p_number (get_partitions pt)"
  define used where "used = List.map p_region (filter (\<lambda>p. p_type p \<noteq> LOGICAL) ss)"
  have "ps \<noteq> []" using 1 by auto
  with 1 obtain u rs where u: "get_usable_region pt = Inr u" and rs: "unused_regions u used = Inr rs"
    and loop: "efold (primary_slot_of pt (get_alignment pt ty) ALIGN_START_KEEP_END ss used) rs [] = Inr ps"
    by (auto simp: primary_slots_def Let_def result_simps ss_def used_def split: if_splits)
  have "dev_ok pt" using ok by (simp add: pt_ok_def)
  note u = usable_region_ok [OF this u]
  have comp: "\<forall>r \<in> set used. compatible u r"
    unfolding used_def by (rule pt_ok_compatible [OF ok u(2)]) (auto simp: ss_def)
  have "\<forall>s \<in> set ps. \<exists>q. valid_region q \<and> align_region_in_place (get_alignment pt ty) q ALIGN_START_KEEP_END
    = Inr (True, slot_region s)"
    by (rule efold_invariant [OF loop])
      (use free.unused_valid [OF u(1) comp rs] in \<open>fastforce elim!: primary_slot_of_cases\<close>)+
  with 1 that show thesis by blast
next
  case (2 ls)
  define used where "used = List.map p_region
    (filter (\<lambda>p. p_type p = LOGICAL) (sort_key p_number (get_partitions pt)))"
  have "ls \<noteq> []" using 2 by auto
  with 2 obtain ext rs where ext: "get_extended pt = Inr ext" and rs: "unused_regions (p_region ext) used = Inr rs"
    and loop: "efold (logical_slot_of pt (get_alignment pt ty) ALIGN_START_KEEP_END (p_region ext)) rs [] = Inr ls"
    by (auto simp: logical_slots_def Let_def result_simps used_def split: if_splits)
  note ve = pt_ok_partition [OF ok, of ext] get_extended_in [OF ext]
  have comp: "\<forall>r \<in> set used. compatible (p_region ext) r"
    unfolding used_def by (rule pt_ok_compatible [OF ok]) (use ve in auto)
  have "\<forall>s \<in> set ls. \<exists>q. valid_region q \<and> align_region_in_place (get_alignment pt ty) q ALIGN_START_KEEP_END
    = Inr (True, slot_region s)"
  proof (rule efold_invariant [OF loop])
    fix r ss ss'
    assume r: "r \<in> set rs" and IH: "\<forall>s \<in> set ss. \<exists>q. valid_region q \<and>
        align_region_in_place (get_alignment pt ty) q ALIGN_START_KEEP_END = Inr (True, slot_region s)"
      and step: "logical_slot_of pt (get_alignment pt ty) ALIGN_START_KEEP_END (p_region ext) r ss = Inr ss'"
    have vr: "valid_region r" "valid_region (p_region ext)"
      using free.unused_valid [OF _ comp rs r] ve by auto
    show "\<forall>s \<in> set ss'. \<exists>q. valid_region q \<and>
        align_region_in_place (get_alignment pt ty) q ALIGN_START_KEEP_END = Inr (True, slot_region s)"
      using step vr
    proof (cases rule: logical_slot_of_cases)
      case 1
      with IH show ?thesis by simp
    next
      case a: (2 at_end r1 r2 r')
      note cut = logical_cut [OF vr(1) a(1-5)]
      show ?thesis using IH cut(1) a(5,6) by auto
    qed
  qed simp
  with 2 that show thesis by blast
qed

lemma slot_facts:
  assumes table: "pool_table next pt" and slots: "pool_slots pt = Inr slots" and s: "s \<in> set slots"
  shows "valid_region (slot_region s)" and "equal_block_size (dev_region (pt_dev pt)) (slot_region s)"
    and "last_block (slot_region s) < 2 ^ 63"
proof -
  note lay = pt_layout_partitions [of pt]
  have "pt_layout pt" using table by (simp add: pool_table_def)
  note lay = pt_layout_partitions [OF this]
  have dev: "dev_ok pt" using lay(2) by (simp add: pt_ok_def)
  note d = dev_okD [OF dev]
  note slots = slots [unfolded pool_slots_def]
  have f: "valid_region (slot_region s) \<and> equal_block_size (dev_region (pt_dev pt)) (slot_region s) \<and>
      blocks (slot_region s) \<subseteq> blocks (dev_region (pt_dev pt))"
    using slots s
  proof (cases rule: slots_cases)
    case (1 ps)
    have "primary_place pt (slot_region s)" using primary_slot_place [OF lay(2) 1] by simp
    then show ?thesis unfolding primary_place_def using usable_region_ok(3) [OF dev] by blast
  next
    case (2 ls)
    have p: "logical_place pt (slot_region s)" using logical_slot_place [OF lay(2) 2] by simp
    then obtain e where e: "get_extended pt = Inr e" "blocks (slot_region s) \<subseteq> blocks (p_region e)"
      by (auto simp: logical_place_def)
    have "e \<in> set (pt_children pt)" using get_extended_in [OF e(1)] by simp
    then obtain u where "get_usable_region pt = Inr u" "blocks (p_region e) \<subseteq> blocks u"
      using \<open>pt_layout pt\<close> unfolding pt_layout_def by blast
    then show ?thesis using usable_region_ok(3) [OF dev] e p unfolding logical_place_def by blast
  qed
  then show "valid_region (slot_region s)" and "equal_block_size (dev_region (pt_dev pt)) (slot_region s)"
    by blast+
  then have "last_block (slot_region s) \<in> blocks (dev_region (pt_dev pt))"
    using f last_block_in_blocks by blast
  then show "last_block (slot_region s) < 2 ^ 63" using d by (simp add: blocks_def)
qed

text \<open>The part of a slot with the wanted length can be aligned, and it starts on the grid.\<close>

lemma slot_alignable:
  assumes table: "pool_table next pt" and slots: "pool_slots pt = Inr slots" and s: "s \<in> set slots"
    and r: "valid_region r" "r_start r = r_start (slot_region s)" "equal_block_size (slot_region s) r"
      "last_block r < 2 ^ 63"
  obtains g where "calculate_grain (get_alignment pt OPTIMAL) = Inr g"
    and "alignable (get_alignment pt OPTIMAL) g r" and "table_grain pt = grain_blocks g (r_block_size r)"
    and "table_grain pt dvd unat (r_start r)" and "offset_blocks (get_alignment pt OPTIMAL) (r_block_size r) = 0"
proof -
  let ?al = "get_alignment pt OPTIMAL"
  from table obtain g where lay: "pt_layout pt" and off: "al_offset ?al = 0"
    and g: "calculate_grain ?al = Inr g" "unat g \<le> 2 ^ 63"
    by (auto simp: pool_table_def)
  note f = slot_facts [OF table slots s]
  have ok: "pt_ok pt" by (rule pt_layout_partitions(2) [OF lay])
  then have dev: "dev_ok pt" by (simp add: pt_ok_def)
  have off0: "offset_blocks ?al bs = 0" for bs using off by (simp add: offset_blocks_def)
  have bs: "r_block_size r = r_block_size (dev_region (pt_dev pt))" "unat (r_block_size r) < 2 ^ 32"
    using f(2) r(3) dev by (auto simp: equal_block_size_def dev_ok_def Let_def)
  have tg: "table_grain pt = grain_blocks g (r_block_size r)" by (simp add: table_grain_def g bs)
  have "unat (max g (r_block_size r)) \<le> 2 ^ 63" using g(2) bs(2) by (simp add: unat_max)
  then have gb: "grain_blocks g (r_block_size r) \<le> 2 ^ 63"
    unfolding grain_blocks_def unat_div by (meson div_le_dividend le_trans)
  have al: "alignable ?al g q" if "valid_region q" "last_block q < 2 ^ 63" "r_block_size q = r_block_size r" for q
    using that g gb off0 by (simp add: alignable_def)
  from slot_placed [OF ok slots [unfolded pool_slots_def] s] obtain q where q: "valid_region q"
    "align_region_in_place ?al q ALIGN_START_KEEP_END = Inr (True, slot_region s)" by blast
  note k = align_keep_end [OF q]
  have "alignable ?al g q"
    using al [OF q(1)] k f(3) r(3) by (simp add: equal_block_size_def)
  from align_start [OF this] obtain st where st: "align_block_in_place ?al (r_start q) (r_block_size q) START = Inr (True, st)"
    "region_grid ?al g q (unat st)" by blast
  have "r_start (slot_region s) = st"
    using q(2) st(1) by (auto simp: align_region_in_place_def Let_def region_new_def split: if_splits)
      (metis region.select_convs(1))
  then have "table_grain pt dvd unat (r_start r)"
    using st(2) r(2,3) k by (simp add: region_grid_def on_grid_def off0 tg equal_block_size_def)
  with that g(1) al [OF r(1,4)] tg off0 show thesis by simp
qed

lemma wanted_region_facts:
  assumes table: "pool_table next pt" and slots: "pool_slots pt = Inr slots" and s: "s \<in> set slots"
    and n: "slot_bytes s = Inr n" "sz \<le> n" and w: "wanted_region sz (slot_region s) = Inr w"
  shows "valid_region w" and "r_start w = r_start (slot_region s)" and "equal_block_size (slot_region s) w"
    and "blocks w \<subseteq> blocks (slot_region s)" and "last_block w < 2 ^ 63"
    and "unat (r_length w) = unat sz div unat (r_block_size (dev_region (pt_dev pt)))"
proof -
  let ?r = "slot_region s"
  note f = slot_facts [OF table slots s]
  have "dev_ok pt" using table by (auto simp: pool_table_def pt_layout_def)
  then have bs: "r_block_size ?r = r_block_size (dev_region (pt_dev pt))"
    "ucast (get_block_size32 ?r) = r_block_size ?r"
    using f(2) dev_okD(3) [of pt] by (simp_all add: equal_block_size_def get_block_size32_def)
  have w': "w = ?r\<lparr>r_length := sz div r_block_size ?r\<rparr>" "sz div r_block_size ?r \<noteq> 0"
    using w bs by (auto simp: wanted_region_def Let_def split: if_splits)
  let ?l = "unat sz div unat (r_block_size ?r)"
  have "n = r_length ?r * r_block_size ?r"
    using n(1) by (auto simp: slot_bytes_def to_bytes_def split: if_splits)
  then have "unat n \<le> unat (r_length ?r) * unat (r_block_size ?r)"
    by (simp only: unat_word_ariths mod_less_eq_dividend)
  then have "unat sz \<le> unat (r_length ?r) * unat (r_block_size ?r)" using n(2) by (simp add: word_nat)
  then have "?l \<le> unat (r_length ?r) * unat (r_block_size ?r) div unat (r_block_size ?r)" by (rule div_le_mono)
  then have "?l \<le> unat (r_length ?r)" using f(1) by (simp add: valid_region_def unat_eq_zero split: if_splits)
  moreover have "0 < ?l" using w'(2) by (metis gr0I unat_div unat_eq_zero)
  ultimately show "valid_region w" and "r_start w = r_start ?r" and "equal_block_size ?r w"
    and "blocks w \<subseteq> blocks ?r" and "last_block w < 2 ^ 63"
    and "unat (r_length w) = unat sz div unat (r_block_size (dev_region (pt_dev pt)))"
    using f(1,3) bs
    by (auto simp: w'(1) valid_region_def equal_block_size_def blocks_def last_block_def unat_div)
qed

text \<open>Aligning it cuts its end down to whole grains.\<close>

lemma aligned_wanted:
  assumes al: "alignable al g w" and dvd: "grain_blocks g (r_block_size w) dvd unat (r_start w)"
    and off: "offset_blocks al (r_block_size w) = 0" and r: "align al w ALIGN_START_AND_END = Inr r"
  shows "valid_region r" and "equal_block_size w r" and "blocks r \<subseteq> blocks w"
    and "unat (r_length r) = grain_blocks g (r_block_size w) * (unat (r_length w) div grain_blocks g (r_block_size w))"
proof -
  let ?G = "grain_blocks g (r_block_size w)"
  have f: "valid_region r" "r_block_size r = r_block_size w" "blocks r \<subseteq> blocks w"
    "region_grid al g w (unat (r_start r))" "region_grid al g w (last_block r + 1)"
    and max: "\<And>s e. region_grid al g w s \<Longrightarrow> region_grid al g w (e + 1) \<Longrightarrow> unat (r_start w) \<le> s \<Longrightarrow>
            s \<le> e \<Longrightarrow> e \<le> last_block w \<Longrightarrow> {s..e} \<subseteq> blocks r"
    using align_greatest [OF al] r by auto
  show "valid_region r" and "equal_block_size w r" and "blocks r \<subseteq> blocks w"
    using f by (simp_all add: equal_block_size_def)
  have grid: "region_grid al g w n \<longleftrightarrow> ?G dvd n" for n by (simp add: region_grid_def on_grid_def off)
  have vw: "valid_region w" and G: "0 < ?G"
    using alignableD [OF al] grain_blocks_pos by auto
  let ?s = "unat (r_start w)" and ?l = "unat (r_length w)" and ?s' = "unat (r_start r)" and ?l' = "unat (r_length r)"
  have pos: "0 < ?l" "0 < ?l'" using f(1) vw by (simp_all add: valid_region_def)
  have inside: "?s \<le> ?s'" "?s' + ?l' \<le> ?s + ?l"
    using f(3) pos by (simp_all add: blocks_def)
  have dvd': "?G dvd ?s'" "?G dvd ?l'"
    using f(4,5) pos unfolding grid last_block_def by (simp_all add: dvd_add_right_iff)
  then have "?G \<le> ?l'" using pos by (simp add: dvd_imp_le)
  then have le: "?G \<le> ?l" using inside by simp
  let ?e = "?s + ?G * (?l div ?G) - 1"
  have q: "0 < ?G * (?l div ?G)" "?G * (?l div ?G) \<le> ?l" using le G by (simp_all add: div_greater_zero_iff)
  have "?e + 1 = ?s + ?G * (?l div ?G)" using q by simp
  then have "?G dvd ?e + 1" using dvd by simp
  moreover have le': "?s \<le> ?e" and "?e \<le> last_block w" unfolding last_block_def using q by linarith+
  ultimately have "{?s..?e} \<subseteq> blocks r" using max [of ?s ?e] dvd unfolding grid by blast
  then have "?s \<in> blocks r" "?e \<in> blocks r" using le' by (meson atLeastAtMost_iff order_refl subsetD)+
  then have eq: "?s' = ?s" and ge: "?G * (?l div ?G) \<le> ?l'" using inside q
    unfolding blocks_def atLeastLessThan_iff by linarith+
  have "?l' div ?G \<le> ?l div ?G" using inside eq by (intro div_le_mono) simp
  then have "?G * (?l' div ?G) \<le> ?G * (?l div ?G)" by (rule mult_le_mono2)
  then show "?l' = ?G * (?l div ?G)" using ge dvd'(2) by simp
qed

section \<open>Looking for the slots\<close>

lemma biggest_fold:
  assumes "efold biggest_step slots b = Inr r"
  shows "(r = None \<longleftrightarrow> b = None \<and> (\<forall>s \<in> set slots. \<not> slot_possible s)) \<and>
    (\<forall>s. r = Some s \<longrightarrow> b = Some s \<or> s \<in> set slots \<and> slot_possible s)"
  using assms
proof (induction slots arbitrary: b)
  case (Cons s slots)
  then obtain b' where b': "biggest_step s b = Inr b'" "efold biggest_step slots b' = Inr r"
    by (auto simp: result_simps)
  have "b' = None \<longleftrightarrow> b = None \<and> \<not> slot_possible s" "\<And>t. b' = Some t \<Longrightarrow> b = Some t \<or> t = s \<and> slot_possible s"
    using b'(1) by (auto simp: biggest_step_def result_simps split: if_splits option.splits)
  with Cons.IH [OF b'(2)] show ?case by auto
qed auto

definition slot_fits :: "u64 \<Rightarrow> partition_slot \<Rightarrow> bool" where
  "slot_fits sz s \<longleftrightarrow> slot_possible s \<and> (\<exists>n. slot_bytes s = Inr n \<and> sz \<le> n)"

definition table_fits :: "u64 \<Rightarrow> ptable \<Rightarrow> bool" where
  "table_fits sz pt \<longleftrightarrow> (\<exists>slots. pool_slots pt = Inr slots \<and> (\<exists>s \<in> set slots. slot_fits sz s))"

lemma best_fold:
  assumes "efold (best_step sz) slots b = Inr r"
  shows "(r = None \<longleftrightarrow> b = None \<and> (\<forall>s \<in> set slots. \<not> slot_fits sz s)) \<and>
    (\<forall>s. r = Some s \<longrightarrow> b = Some s \<or> s \<in> set slots \<and> slot_fits sz s)"
  using assms
proof (induction slots arbitrary: b)
  case (Cons s slots)
  then obtain b' where b': "best_step sz s b = Inr b'" "efold (best_step sz) slots b' = Inr r"
    by (auto simp: result_simps)
  have "b' = None \<longleftrightarrow> b = None \<and> \<not> slot_fits sz s" "\<And>t. b' = Some t \<Longrightarrow> b = Some t \<or> t = s \<and> slot_fits sz s"
    using b'(1) by (auto simp: best_step_def slot_fits_def result_simps not_less split: if_splits option.splits)
  with Cons.IH [OF b'(2)] show ?case by auto
qed auto

text \<open>With slots of one block size no comparison throws.\<close>

lemma best_fold_ok:
  assumes "\<And>s. s \<in> set slots \<or> b = Some s \<Longrightarrow> r_block_size (slot_region s) = bs" and "bs \<noteq> 0"
  shows "\<exists>r. efold (best_step sz) slots b = Inr r"
  using assms(1)
proof (induction slots arbitrary: b)
  case (Cons s slots)
  have "\<exists>b'. best_step sz s b = Inr b' \<and> (b' = b \<or> b' = Some s)"
    using Cons.prems assms(2)
    by (auto simp: best_step_def slot_bytes_def to_bytes_def region_less_def equal_block_size_def split: option.splits)
  then obtain b' where "best_step sz s b = Inr b'" "b' = b \<or> b' = Some s" by blast
  with Cons.IH [of b'] Cons.prems show ?case by auto
qed simp

lemma pool_slots_block_size:
  assumes "pool_table next pt" and "pool_slots pt = Inr slots"
  obtains bs where "bs \<noteq> 0" and "\<And>s. s \<in> set slots \<Longrightarrow> r_block_size (slot_region s) = bs"
proof (rule that)
  have "dev_ok pt" using assms(1) by (auto simp: pool_table_def pt_layout_def)
  then show "r_block_size (dev_region (pt_dev pt)) \<noteq> 0" using dev_okD(1) by (auto simp: valid_region_def)
qed (use slot_facts(2) [OF assms] in \<open>simp add: equal_block_size_def\<close>)

section \<open>The size that is offered can be provided\<close>

text \<open>At most as many sizes reach a bound as there are tables with a slot of that size.\<close>

lemma size_candidates_fit:
  assumes "size_candidates ds = Inr ns"
  shows "length (filter (\<lambda>n. sz \<le> n) ns) \<le> length (filter (\<lambda>d. table_fits sz (snd d)) ds)"
    and "\<forall>d \<in> set ds. \<exists>slots. pool_slots (snd d) = Inr slots"
proof -
  have "length (filter (\<lambda>n. sz \<le> n) ns) \<le> length (filter (\<lambda>d. table_fits sz (snd d)) ds) \<and>
    (\<forall>d \<in> set ds. \<exists>slots. pool_slots (snd d) = Inr slots)"
    using assms
  proof (induction ds arbitrary: ns rule: size_candidates.induct)
    case (2 sid pt ds)
    then obtain slots b where slots: "pool_slots pt = Inr slots" "efold biggest_step slots None = Inr b" and
      rest: "(case b of None \<Rightarrow> size_candidates ds
        | Some s \<Rightarrow> ebind (slot_bytes s) (\<lambda>n. emap (Cons n) (size_candidates ds))) = Inr ns"
      by (auto simp: result_simps)
    show ?case
    proof (cases b)
      case None
      with rest "2.IH" slots show ?thesis by (auto simp: le_Suc_eq)
    next
      case (Some s)
      with rest obtain n ns' where n: "slot_bytes s = Inr n" "size_candidates ds = Inr ns'" "ns = n # ns'"
        by (auto simp: result_simps)
      have "s \<in> set slots" "slot_possible s" using biggest_fold [OF slots(2)] Some by auto
      then have "sz \<le> n \<Longrightarrow> table_fits sz pt" using slots n by (auto simp: table_fits_def slot_fits_def)
      then show ?thesis using "2.IH" n slots by auto
    qed
  qed simp
  then show "length (filter (\<lambda>n. sz \<le> n) ns) \<le> length (filter (\<lambda>d. table_fits sz (snd d)) ds)"
    and "\<forall>d \<in> set ds. \<exists>slots. pool_slots (snd d) = Inr slots" by blast+
qed

lemma find_candidates_length:
  assumes "\<And>d. d \<in> set ds \<Longrightarrow> pool_table next (snd d) \<and> (\<exists>slots. pool_slots (snd d) = Inr slots)"
    and "length cs < unat number"
  shows "\<exists>cs'. find_candidates sz number ds cs = Inr cs' \<and>
    length cs' = min (unat number) (length cs + length (filter (\<lambda>d. table_fits sz (snd d)) ds))"
  using assms
proof (induction sz number ds cs rule: find_candidates.induct)
  case (2 sz number sid pt ds cs)
  from "2.prems"(1) [of "(sid, pt)"] obtain slots where table: "pool_table next pt" and slots: "pool_slots pt = Inr slots"
    by auto
  obtain bs where "bs \<noteq> 0" "\<And>s. s \<in> set slots \<Longrightarrow> r_block_size (slot_region s) = bs"
    using pool_slots_block_size [OF table slots] by blast
  then obtain b where b: "efold (best_step sz) slots None = Inr b" using best_fold_ok [of slots None bs] by auto
  have fits: "table_fits sz pt \<longleftrightarrow> b \<noteq> None"
    using best_fold [OF b] slots by (auto simp: table_fits_def)
  show ?case
  proof (cases b)
    case None
    then show ?thesis using "2.IH"(1) "2.prems" slots b fits by auto
  next
    case (Some s)
    show ?thesis
    proof (cases "length (cs @ [candidate_of sid s]) = unat number")
      case True
      then show ?thesis using slots b fits Some by auto
    next
      case False
      then show ?thesis using "2.IH"(2) [OF refl] "2.prems" slots b fits Some by auto
    qed
  qed
qed simp

text \<open>The candidates are the tables of the devices of the pool, in another order.\<close>

lemma with_keys_snd: "with_keys f xs = Inr kxs \<Longrightarrow> List.map snd kxs = xs"
  by (induction f xs arbitrary: kxs rule: with_keys.induct) (auto simp: result_simps)

lemma mset_sort_by_key: "sort_by_key f xs = Inr ys \<Longrightarrow> mset ys = mset xs"
  by (auto simp: sort_by_key_def result_simps dest!: with_keys_snd)

lemma with_table_found:
  assumes "find (\<lambda>d. gd_sid d = sid) dg = Some d"
  shows "map_option snd (with_table d) = map_option (Pair sid) (disk_table dg sid)"
proof -
  have sid: "gd_sid d = sid" using assms by (auto simp: find_Some_iff)
  have "disk_table dg sid = (case d of Partitionable dk \<Rightarrow> dk_table dk | _ \<Rightarrow> None)"
    by (simp add: disk_table_def assms)
  with sid show ?thesis
    by (cases d) (simp_all add: with_table_def gd_sid_def option.map_comp comp_def)
qed

lemma tables_of_pool:
  "List.map snd (List.map_filter with_table (pool_devices dg pool))
    = List.map_filter (\<lambda>sid. map_option (Pair sid) (disk_table dg sid)) pool"
proof (induction pool)
  case (Cons sid pool)
  show ?case
  proof (cases "find (\<lambda>d. gd_sid d = sid) dg")
    case None
    then show ?thesis using Cons by (simp add: pool_devices_def List.map_filter_simps disk_table_def)
  next
    case (Some d)
    note f = with_table_found [OF Some]
    have "List.map_filter with_table (pool_devices dg (sid # pool))
        = List.map_filter with_table (d # pool_devices dg pool)"
      using Some by (simp add: pool_devices_def List.map_filter_simps)
    with f Cons show ?thesis
      by (cases "with_table d"; cases "disk_table dg sid") (auto simp: List.map_filter_simps)
  qed
qed (simp add: pool_devices_def List.map_filter_simps)

lemma candidates_facts:
  assumes "get_partitionable_candidates dg pool = Inr ds"
  shows "mset ds = mset (List.map_filter (\<lambda>sid. map_option (Pair sid) (disk_table dg sid)) pool)"
    and "distinct pool \<Longrightarrow> distinct (List.map fst ds)"
    and "(sid, pt) \<in> set ds \<Longrightarrow> sid \<in> set pool \<and> disk_table dg sid = Some pt"
proof -
  let ?ts = "List.map_filter (\<lambda>sid. map_option (Pair sid) (disk_table dg sid)) pool"
  show m: "mset ds = mset ?ts"
    using mset_sort_by_key [OF assms [unfolded get_partitionable_candidates_def]]
    by (simp flip: tables_of_pool)
  have "List.map fst ?ts = filter (\<lambda>sid. disk_table dg sid \<noteq> None) pool"
    by (induction pool) (auto simp: List.map_filter_simps split: option.splits)
  moreover have "mset (List.map fst ds) = mset (List.map fst ?ts)" by (simp only: mset_map m)
  ultimately show "distinct pool \<Longrightarrow> distinct (List.map fst ds)"
    using mset_eq_imp_distinct_iff [of "List.map fst ds" "List.map fst ?ts"] by simp
  have "set ds = set ?ts" using m by (rule mset_eq_setD)
  then show "(sid, pt) \<in> set ds \<Longrightarrow> sid \<in> set pool \<and> disk_table dg sid = Some pt"
    by (auto simp: List.map_filter_def)
qed

lemma nth_of_sorted:
  assumes "n < length ns" and "rev (sort ns) ! n = (sz :: u64)"
  shows "Suc n \<le> length (filter (\<lambda>m. sz \<le> m) ns)"
proof -
  let ?r = "rev (sort ns)"
  have desc: "?r ! j \<le> ?r ! i" if "i \<le> j" "j < length ns" for i j
    using that sorted_rev_nth_mono [of ?r i j] by simp
  then have "\<forall>m \<in> set (take (Suc n) ?r). sz \<le> m" using assms by (auto simp: in_set_conv_nth)
  then have "filter (\<lambda>m. sz \<le> m) (take (Suc n) ?r) = take (Suc n) ?r" by (simp add: filter_id_conv)
  moreover have "length (filter (\<lambda>m. sz \<le> m) (take (Suc n) ?r)) \<le> length (filter (\<lambda>m. sz \<le> m) ?r)"
    by (metis append_take_drop_id filter_append le_add1 length_append)
  moreover have "length (filter (\<lambda>m. sz \<le> m) ?r) = length (filter (\<lambda>m. sz \<le> m) ns)"
    by (metis mset_filter mset_rev mset_sort size_mset)
  ultimately show ?thesis using assms(1) by simp
qed

lemma nth_of_sorted_above:
  assumes "n < length ns" and "rev (sort ns) ! n = (sz :: u64)"
  shows "length (filter (\<lambda>m. sz < m) ns) \<le> n"
proof -
  let ?r = "rev (sort ns)"
  have desc: "?r ! j \<le> ?r ! i" if "i \<le> j" "j < length ns" for i j
    using that sorted_rev_nth_mono [of ?r i j] by simp
  have "m \<le> sz" if m: "m \<in> set (drop n ?r)" for m
  proof -
    obtain j where j: "j < length (drop n ?r)" "drop n ?r ! j = m" using m by (meson in_set_conv_nth)
    then have "m = ?r ! (n + j)" by (simp only: nth_drop length_rev length_sort length_drop)
    then show ?thesis using desc [of n "n + j"] j(1) assms(2) by simp
  qed
  then have "filter (\<lambda>m. sz < m) (drop n ?r) = []" by (auto simp: filter_empty_conv not_less)
  then have "filter (\<lambda>m. sz < m) ?r = filter (\<lambda>m. sz < m) (take n ?r)"
    by (metis append_Nil2 append_take_drop_id filter_append)
  then have "length (filter (\<lambda>m. sz < m) ?r) \<le> n"
    by (metis length_filter_le length_take min.bounded_iff)
  moreover have "length (filter (\<lambda>m. sz < m) ?r) = length (filter (\<lambda>m. sz < m) ns)"
    by (metis mset_filter mset_rev mset_sort size_mset)
  ultimately show ?thesis by simp
qed

lemma offered_size_found:
  assumes "max_partition_size dg pool number = Inr sz"
    and tables: "\<And>sid pt. sid \<in> set pool \<Longrightarrow> disk_table dg sid = Some pt \<Longrightarrow> pool_table next pt"
  obtains ds ns cs where "get_partitionable_candidates dg pool = Inr ds" and "size_candidates ds = Inr ns"
    and "unat number \<le> length (filter (\<lambda>n. sz \<le> n) ns)" and "length (filter (\<lambda>n. sz < n) ns) < unat number"
    and "find_candidates sz number ds [] = Inr cs" and "length cs = unat number"
proof -
  from assms(1) obtain ds ns where ds: "get_partitionable_candidates dg pool = Inr ds"
    and ns: "size_candidates ds = Inr ns" "unat number \<le> length ns" "rev (sort ns) ! (unat number - 1) = sz"
    and n: "0 < unat number"
    by (auto simp: max_partition_size_def result_simps unat_gt_0 split: if_splits)
  have above: "length (filter (\<lambda>n. sz < n) ns) < unat number"
    using nth_of_sorted_above [OF _ ns(3)] ns(2) n by linarith
  have enough: "unat number \<le> length (filter (\<lambda>n. sz \<le> n) ns)"
    using nth_of_sorted [OF _ ns(3)] ns(2) n by simp
  then have "unat number \<le> length (filter (\<lambda>d. table_fits sz (snd d)) ds)"
    using size_candidates_fit(1) [OF ns(1), of sz] by simp
  moreover have ok: "pool_table next (snd d) \<and> (\<exists>slots. pool_slots (snd d) = Inr slots)" if "d \<in> set ds" for d
    using candidates_facts(3) [OF ds, of "fst d" "snd d"] that tables size_candidates_fit(2) [OF ns(1)] by auto
  have "\<exists>cs. find_candidates sz number ds [] = Inr cs \<and>
      length cs = min (unat number) (length [] + length (filter (\<lambda>d. table_fits sz (snd d)) ds))"
    using find_candidates_length [of ds "next" "[]" number sz] ok n by simp
  ultimately obtain cs where "find_candidates sz number ds [] = Inr cs" "length cs = unat number" by auto
  from that [OF ds ns(1) enough above this] show ?thesis .
qed

section \<open>Creating partitions on several devices\<close>

definition candidate_fits :: "u64 \<Rightarrow> (nat \<times> ptable) list \<Rightarrow> candidate \<Rightarrow> bool" where
  "candidate_fits sz ds e \<longleftrightarrow> (\<exists>sid pt slots s. (sid, pt) \<in> set ds \<and> pool_slots pt = Inr slots \<and>
     s \<in> set slots \<and> slot_fits sz s \<and> e = candidate_of sid s)"

lemma candidate_fits_Cons: "candidate_fits sz ds e \<Longrightarrow> candidate_fits sz (d # ds) e"
  unfolding candidate_fits_def by (metis list.set_intros(2))

lemma candidate_fits_table: "candidate_fits sz ds e \<Longrightarrow> cd_table e \<in> fst ` set ds"
  by (force simp: candidate_fits_def candidate_of_def)

lemma find_candidates_facts:
  assumes "find_candidates sz number ds cs = Inr cs'" and "length cs < unat number" and "distinct (List.map fst ds)"
  shows "length cs' \<le> unat number \<and>
    (\<exists>es. cs' = cs @ es \<and> distinct (List.map cd_table es) \<and> (\<forall>e \<in> set es. candidate_fits sz ds e))"
  using assms
proof (induction sz number ds cs arbitrary: cs' rule: find_candidates.induct)
  case (2 sz number sid pt ds cs)
  from "2.prems"(1) obtain slots b where slots: "pool_slots pt = Inr slots" "efold (best_step sz) slots None = Inr b"
    and rest: "(case b of None \<Rightarrow> find_candidates sz number ds cs
      | Some s \<Rightarrow> let cs' = cs @ [candidate_of sid s]
          in if length cs' = unat number then Inr cs' else find_candidates sz number ds cs') = Inr cs'"
    unfolding find_candidates.simps ebind_eq_Inr by blast
  have d: "distinct (List.map fst ds)" "sid \<notin> fst ` set ds" using "2.prems"(3) by simp_all
  show ?case
  proof (cases b)
    case None
    with rest have "find_candidates sz number ds cs = Inr cs'" by simp
    from "2.IH"(1) [OF this "2.prems"(2) d(1)] show ?thesis using candidate_fits_Cons by blast
  next
    case (Some s)
    let ?c = "candidate_of sid s"
    have "s \<in> set slots" "slot_fits sz s" using best_fold [OF slots(2)] Some by auto
    then have c: "candidate_fits sz ((sid, pt) # ds) ?c" using slots by (auto simp: candidate_fits_def)
    show ?thesis
    proof (cases "length (cs @ [?c]) = unat number")
      case True
      with rest Some have "cs' = cs @ [?c]" by simp
      then show ?thesis using c True by (intro conjI exI [of _ "[?c]"]) simp_all
    next
      case False
      with rest Some have "find_candidates sz number ds (cs @ [?c]) = Inr cs'" by simp
      moreover have "length (cs @ [?c]) < unat number" using False "2.prems"(2) by simp
      ultimately obtain es where es: "length cs' \<le> unat number" "cs' = (cs @ [?c]) @ es"
        "distinct (List.map cd_table es)" "\<forall>e \<in> set es. candidate_fits sz ds e"
        using "2.IH"(2) [OF refl False _ _ d(1)] by blast
      have "cd_table ?c \<notin> cd_table ` set es"
        using es(4) d(2) candidate_fits_table by (fastforce simp: candidate_of_def)
      moreover have "\<forall>e \<in> set es. candidate_fits sz ((sid, pt) # ds) e"
        using es(4) candidate_fits_Cons by blast
      ultimately show ?thesis using es(1-3) c by (intro conjI exI [of _ "?c # es"]) simp_all
    qed
  qed
qed auto

lemma find_map: "find P (List.map f xs) = map_option f (find (\<lambda>x. P (f x)) xs)"
  by (induction xs) auto

lemma disk_table_set_table:
  assumes "disk_table dg sid = Some pt"
  shows "disk_table (set_table sid pt' dg) x = (if x = sid then Some pt' else disk_table dg x)"
proof -
  let ?f = "\<lambda>d. case d of
        Partitionable dk \<Rightarrow> if dk_sid dk = sid then Partitionable (dk\<lparr>dk_table := Some pt'\<rparr>) else d
      | NotPartitionable _ \<Rightarrow> d"
  have "gd_sid (?f d) = gd_sid d" for d by (auto simp: gd_sid_def split: graph_device.splits)
  then have f: "find (\<lambda>d. gd_sid d = x) (set_table sid pt' dg) = map_option ?f (find (\<lambda>d. gd_sid d = x) dg)"
    by (simp add: set_table_def find_map)
  show ?thesis
  proof (cases "find (\<lambda>d. gd_sid d = x) dg")
    case None
    then show ?thesis using assms f by (auto simp: disk_table_def)
  next
    case (Some d)
    then have "gd_sid d = x" by (auto simp: find_Some_iff)
    then show ?thesis using Some assms f
      by (cases d) (auto simp: disk_table_def gd_sid_def)
  qed
qed

lemma created_in_table:
  assumes "create_partition sid n r t pt = Inr pt'"
  shows "\<exists>q \<in> set (pt_children pt' @ pt_logicals pt'). p_sid q = sid \<and> p_region q = r"
proof -
  have same: "list_all2 same_partition (pt_children (add_partition (new_partition sid n r t) pt)) (pt_children pt')"
    "list_all2 same_partition (pt_logicals (add_partition (new_partition sid n r t) pt)) (pt_logicals pt')"
    using create_same_layout [OF assms] by (simp_all add: same_layout_def)
  have found: "\<exists>q \<in> set ys. p_sid q = sid \<and> p_region q = r"
    if "list_all2 same_partition xs ys" "new_partition sid n r t \<in> set xs" for xs ys
    using that by (induction rule: list_all2_induct) (auto simp: same_partition_def new_partition_def)
  show ?thesis
  proof (cases "t = LOGICAL")
    case True
    with found [OF same(2)] show ?thesis by (auto simp: add_partition_def new_partition_def)
  next
    case False
    with found [OF same(1)] show ?thesis by (auto simp: add_partition_def new_partition_def)
  qed
qed

text \<open>What happens to the table of one candidate.\<close>

definition partition_taken :: "u64 \<Rightarrow> nat \<Rightarrow> ptable \<Rightarrow> ptable \<Rightarrow> bool" where
  "partition_taken sz sid pt pt' \<longleftrightarrow>
     pt_step pt pt' \<and>
     (\<exists>q \<in> set (get_partitions pt'). p_sid q = sid \<and>
        r_block_size (p_region q) = r_block_size (dev_region (pt_dev pt)) \<and>
        unat (r_length (p_region q)) =
          table_grain pt * (unat sz div unat (r_block_size (dev_region (pt_dev pt))) div table_grain pt))"

lemma create_candidate_step:
  assumes table: "pool_table next pt" and of: "disk_table dg sid = Some pt" and slots: "pool_slots pt = Inr slots"
    and s: "s \<in> set slots" "slot_fits sz s"
    and step: "create_candidate sz (candidate_of sid s) (dg, next, created) = Inr st"
  obtains pt' where "st = (set_table sid pt' dg, next + 1, created @ [(sid, next)])" and "partition_taken sz next pt pt'"
proof -
  let ?c = "candidate_of sid s"
  have c: "cd_table ?c = sid" "cd_number ?c = slot_number s" "cd_region ?c = slot_region s"
    by (simp_all add: candidate_of_def)
  from step of c obtain w r pt' where w: "wanted_region sz (slot_region s) = Inr w"
    and r: "align (get_alignment pt OPTIMAL) w ALIGN_START_AND_END = Inr r"
    and pt': "create_partition next (slot_number s) r (cd_type ?c) pt = Inr pt'"
    and st: "st = (set_table sid pt' dg, next + 1, created @ [(sid, next)])"
    by (auto simp: create_candidate_def result_simps)
  obtain n where n: "slot_bytes s = Inr n" "sz \<le> n" using s(2) by (auto simp: slot_fits_def)
  note wf = wanted_region_facts [OF table slots s(1) n w]
  note f = slot_facts [OF table slots s(1)]
  from slot_alignable [OF table slots s(1) wf(1,2,3,5)] obtain g where
    g: "alignable (get_alignment pt OPTIMAL) g w" "table_grain pt = grain_blocks g (r_block_size w)"
      "table_grain pt dvd unat (r_start w)" "offset_blocks (get_alignment pt OPTIMAL) (r_block_size w) = 0"
    by blast
  note a = aligned_wanted [OF g(1) g(3) [unfolded g(2)] g(4) r, folded g(2)]
  have "is_possible s (cd_type ?c)"
    using s(2) by (auto simp: is_possible_def candidate_of_def slot_fits_def slot_possible_def)
  moreover have "equal_block_size (slot_region s) r" "blocks r \<subseteq> blocks (slot_region s)"
    using a(2,3) wf(3,4) by (auto simp: equal_block_size_def)
  moreover have "next \<notin> p_sid ` set (pt_children pt @ pt_logicals pt)"
    using table unfolding pool_table_def by (metis imageE less_irrefl)
  ultimately have ps: "pt_step pt pt'"
    using step_create [OF slots [unfolded pool_slots_def] s(1) _ a(1)] pt' by blast
  have "pt_layout pt'" using pt_step_layout [OF ps] table by (simp add: pool_table_def)
  then have "set (get_partitions pt') = set (pt_children pt' @ pt_logicals pt')"
    using pt_layout_partitions(1) by metis
  moreover have "r_block_size r = r_block_size (dev_region (pt_dev pt))"
    using a(2) wf(3) f(2) by (simp add: equal_block_size_def)
  ultimately have "partition_taken sz next pt pt'"
    unfolding partition_taken_def using ps created_in_table [OF pt'] a(4) wf(6) by metis
  with st that show thesis by blast
qed

lemma pool_table_mono: "pool_table next pt \<Longrightarrow> next \<le> next' \<Longrightarrow> pool_table next' pt"
  unfolding pool_table_def by (meson less_le_trans)

lemma create_loop:
  assumes "efold (create_candidate sz) cs (dg, next, created) = Inr (dg', next', created')"
    and "distinct (List.map cd_table cs)" and "\<forall>e \<in> set cs. candidate_fits sz ds e"
    and "\<And>sid pt. (sid, pt) \<in> set ds \<Longrightarrow> sid \<in> cd_table ` set cs \<Longrightarrow> disk_table dg sid = Some pt \<and> pool_table next pt"
  shows "next' = next + length cs \<and> created' = created @ zip (List.map cd_table cs) [next..<next'] \<and>
    (\<forall>x. x \<notin> cd_table ` set cs \<longrightarrow> disk_table dg' x = disk_table dg x) \<and>
    (\<forall>(x, sid) \<in> set (zip (List.map cd_table cs) [next..<next']). \<exists>pt pt'. disk_table dg x = Some pt \<and>
      disk_table dg' x = Some pt' \<and> partition_taken sz sid pt pt')"
  using assms
proof (induction cs arbitrary: dg "next" created)
  case (Cons c cs)
  have "candidate_fits sz ds c" using Cons.prems(3) by simp
  then obtain sid pt slots s where c: "(sid, pt) \<in> set ds" "pool_slots pt = Inr slots" "s \<in> set slots"
    "slot_fits sz s" "c = candidate_of sid s"
    unfolding candidate_fits_def by blast
  have sid: "cd_table c = sid" by (simp add: c(5) candidate_of_def)
  then have t: "disk_table dg sid = Some pt" "pool_table next pt" using Cons.prems(4) [OF c(1)] by auto
  from Cons.prems(1) obtain st where st: "create_candidate sz c (dg, next, created) = Inr st"
    "efold (create_candidate sz) cs st = Inr (dg', next', created')" by (auto simp: result_simps)
  from create_candidate_step [OF t(2,1) c(2-4) st(1) [unfolded c(5)]] obtain pt' where
    st': "st = (set_table sid pt' dg, next + 1, created @ [(sid, next)])" and taken: "partition_taken sz next pt pt'"
    by blast
  note set = disk_table_set_table [OF t(1), of pt']
  have new: "sid \<notin> cd_table ` set cs" using Cons.prems(2) sid by auto
  have later: "disk_table (set_table sid pt' dg) x = Some q \<and> pool_table (next + 1) q"
    if "(x, q) \<in> set ds" "x \<in> cd_table ` set cs" for x q
    using Cons.prems(4) [OF that(1)] that(2) new set pool_table_mono [of "next" q "next + 1"] by auto
  have "distinct (List.map cd_table cs)" "\<forall>e \<in> set cs. candidate_fits sz ds e"
    using Cons.prems(2,3) by simp_all
  then have l: "next' = next + 1 + length cs \<and>
    created' = (created @ [(sid, next)]) @ zip (List.map cd_table cs) [next + 1..<next'] \<and>
    (\<forall>x. x \<notin> cd_table ` set cs \<longrightarrow> disk_table dg' x = disk_table (set_table sid pt' dg) x) \<and>
    (\<forall>(x, p) \<in> set (zip (List.map cd_table cs) [next + 1..<next']). \<exists>pt pt2.
      disk_table (set_table sid pt' dg) x = Some pt \<and> disk_table dg' x = Some pt2 \<and> partition_taken sz p pt pt2)"
    by (rule Cons.IH [OF st(2) [unfolded st']]) (rule later)
  note IH = l [THEN conjunct1] l [THEN conjunct2, THEN conjunct1]
    l [THEN conjunct2, THEN conjunct2, THEN conjunct1, rule_format] l [THEN conjunct2, THEN conjunct2, THEN conjunct2]
  have upt: "[next..<next'] = next # [next + 1..<next']" by (rule upt_conv_Cons [THEN trans]) (simp_all add: IH(1) del: upt_Suc)
  have "disk_table dg' sid = Some pt'" using IH(3) [OF new] set by simp
  then have "\<exists>pt pt'. disk_table dg sid = Some pt \<and> disk_table dg' sid = Some pt' \<and> partition_taken sz next pt pt'"
    using t taken by blast
  moreover have "\<exists>pt pt'. disk_table dg x = Some pt \<and> disk_table dg' x = Some pt' \<and> partition_taken sz p pt pt'"
    if "(x, p) \<in> set (zip (List.map cd_table cs) [next + 1..<next'])" for x p
  proof -
    have "x \<noteq> sid" using that new by (auto dest: set_zip_leftD)
    then show ?thesis using IH(4) that set by fastforce
  qed
  moreover have "disk_table dg' x = disk_table dg x" if "x \<notin> cd_table ` set (c # cs)" for x
    using IH(3) [of x] that set sid by auto
  moreover have zip: "zip (List.map cd_table (c # cs)) [next..<next']
      = (sid, next) # zip (List.map cd_table cs) [next + 1..<next']"
    by (simp only: list.map sid upt zip_Cons_Cons)
  moreover have "next' = next + length (c # cs)" using IH(1) by simp
  moreover have "created' = created @ zip (List.map cd_table (c # cs)) [next..<next']"
    unfolding zip IH(2) by simp
  ultimately show ?case unfolding zip by fastforce
qed simp

section \<open>What the pool promises\<close>

text \<open>
  C11: creating partitions in a pool creates the wanted number of them on as many different devices of
  the pool; every one is created by a step of its partition table in a free slot, its length is the
  wanted size cut down to whole grains, and all other tables stay as they are.
\<close>

theorem pool_partitions_created:
  assumes "create_partitions dg next pool number sz = Inr (dg', next', created)" and "distinct pool"
    and "\<And>sid pt. sid \<in> set pool \<Longrightarrow> disk_table dg sid = Some pt \<Longrightarrow> pool_table next pt"
  shows "length created = unat number \<and> distinct (List.map fst created) \<and> fst ` set created \<subseteq> set pool \<and>
    List.map snd created = [next..<next'] \<and>
    (\<forall>x. x \<notin> fst ` set created \<longrightarrow> disk_table dg' x = disk_table dg x) \<and>
    (\<forall>(x, sid) \<in> set created. \<exists>pt pt'. disk_table dg x = Some pt \<and> disk_table dg' x = Some pt' \<and>
      partition_taken sz sid pt pt')"
proof -
  from assms(1) obtain ds cs where n: "0 < unat number" and ds: "get_partitionable_candidates dg pool = Inr ds"
    and cs: "find_candidates sz number ds [] = Inr cs" "unat number \<le> length cs"
    and loop: "efold (create_candidate sz) (rev cs) (dg, next, []) = Inr (dg', next', created)"
    by (auto simp: create_partitions_def result_simps unat_gt_0 split: if_splits)
  note f = candidates_facts [OF ds]
  have c: "length cs = unat number" "distinct (List.map cd_table cs)" "\<forall>e \<in> set cs. candidate_fits sz ds e"
    using find_candidates_facts [OF cs(1) _ f(2) [OF assms(2)]] n cs(2) by auto
  have "distinct (List.map cd_table (rev cs))" using c(2) by (simp add: rev_map [symmetric])
  moreover have "\<forall>e \<in> set (rev cs). candidate_fits sz ds e" using c(3) by simp
  moreover have "disk_table dg sid = Some pt \<and> pool_table next pt" if "(sid, pt) \<in> set ds" for sid pt
    using f(3) [OF that] assms(3) by blast
  ultimately have l: "next' = next + length (rev cs)" "created = zip (List.map cd_table (rev cs)) [next..<next']"
    "\<forall>x. x \<notin> cd_table ` set (rev cs) \<longrightarrow> disk_table dg' x = disk_table dg x"
    "\<forall>(x, sid) \<in> set (zip (List.map cd_table (rev cs)) [next..<next']). \<exists>pt pt'. disk_table dg x = Some pt \<and>
      disk_table dg' x = Some pt' \<and> partition_taken sz sid pt pt'"
    using create_loop [OF loop, of ds] unfolding append_Nil by blast+
  have fst: "List.map fst created = List.map cd_table (rev cs)" and snd: "List.map snd created = [next..<next']"
    using l(1) by (simp_all add: l(2))
  have set: "fst ` set created = cd_table ` set cs" using arg_cong [OF fst, of set] by simp
  have "fst ` set created \<subseteq> fst ` set ds" unfolding set using c(3) candidate_fits_table by blast
  then have "fst ` set created \<subseteq> set pool" using f(3) by fastforce
  moreover have "distinct (List.map fst created)" unfolding fst using c(2) by (simp add: rev_map [symmetric])
  moreover have "length created = unat number" using l(1,2) c(1) by simp
  ultimately show ?thesis using l(3) l(4) [folded l(2)] set snd by simp
qed

section \<open>The least used devices come first\<close>

lemma with_keys_fst: "with_keys f xs = Inr kxs \<Longrightarrow> (k, x) \<in> set kxs \<Longrightarrow> f x = Inr k"
  by (induction f xs arbitrary: kxs rule: with_keys.induct) (auto simp: result_simps)

lemma sort_by_key_sorted:
  assumes "sort_by_key f xs = Inr ys"
  shows "sorted_wrt (\<lambda>x y. \<exists>a b. f x = Inr a \<and> f y = Inr b \<and> a \<le> b) ys"
proof -
  from assms obtain kxs where k: "with_keys f xs = Inr kxs" "ys = List.map snd (sort_key fst kxs)"
    by (auto simp: sort_by_key_def result_simps)
  have "sorted_wrt (\<lambda>a b. fst a \<le> fst b) (sort_key fst kxs)"
    using sorted_sort_key [of fst kxs] by (simp add: sorted_map)
  moreover have "f (snd a) = Inr (fst a)" if "a \<in> set (sort_key fst kxs)" for a
    using with_keys_fst [OF k(1), of "fst a" "snd a"] that by simp
  ultimately show ?thesis
    unfolding k(2) sorted_wrt_map by (elim sorted_wrt_mono_rel [rotated]) blast
qed

lemma find_candidates_take:
  assumes "find_candidates sz number ds cs = Inr cs'" and "length cs < unat number"
  shows "List.map cd_table cs' = List.map cd_table cs @
    take (unat number - length cs) (List.map fst (filter (\<lambda>d. table_fits sz (snd d)) ds))"
  using assms
proof (induction sz number ds cs arbitrary: cs' rule: find_candidates.induct)
  case (2 sz number sid pt ds cs)
  from "2.prems"(1) obtain slots b where slots: "pool_slots pt = Inr slots" "efold (best_step sz) slots None = Inr b"
    and rest: "(case b of None \<Rightarrow> find_candidates sz number ds cs
      | Some s \<Rightarrow> let cs' = cs @ [candidate_of sid s]
          in if length cs' = unat number then Inr cs' else find_candidates sz number ds cs') = Inr cs'"
    unfolding find_candidates.simps ebind_eq_Inr by blast
  have fits: "table_fits sz pt \<longleftrightarrow> b \<noteq> None"
    using best_fold [OF slots(2)] slots(1) by (auto simp: table_fits_def)
  show ?case
  proof (cases b)
    case None
    with rest have "find_candidates sz number ds cs = Inr cs'" by simp
    from "2.IH"(1) [OF this "2.prems"(2)] fits None show ?thesis by simp
  next
    case (Some s)
    let ?c = "candidate_of sid s"
    have c: "cd_table ?c = sid" by (simp add: candidate_of_def)
    show ?thesis
    proof (cases "length (cs @ [?c]) = unat number")
      case True
      with rest Some have "cs' = cs @ [?c]" by simp
      moreover have "unat number - length cs = Suc 0" using True by simp
      ultimately show ?thesis using fits Some c by simp
    next
      case False
      with rest Some have "find_candidates sz number ds (cs @ [?c]) = Inr cs'" by simp
      moreover have "unat number - length cs = Suc (unat number - Suc (length cs))" using "2.prems"(2) by simp
      ultimately show ?thesis using "2.IH"(2) [OF refl False] False "2.prems"(2) fits Some c by simp
    qed
  qed
qed simp

text \<open>
  C26: the pool takes its partitions from the devices that are used least: a device of the pool that
  has a large enough slot and gets no partition is used at least as much as every one that gets one.
\<close>

theorem least_used_first:
  assumes "create_partitions dg next pool number sz = Inr (dg', next', created)" and "distinct pool"
    and "\<And>sid pt. sid \<in> set pool \<Longrightarrow> disk_table dg sid = Some pt \<Longrightarrow> pool_table next pt"
    and "(x, p) \<in> set created" and "disk_table dg x = Some ptx"
    and "y \<in> set pool" and "y \<notin> fst ` set created" and "disk_table dg y = Some pty" and "table_fits sz pty"
  shows "\<exists>a b. get_used_size ptx = Inr a \<and> get_used_size pty = Inr b \<and> a \<le> b"
proof -
  from assms(1) obtain ds cs where n: "0 < unat number" and ds: "get_partitionable_candidates dg pool = Inr ds"
    and cs: "find_candidates sz number ds [] = Inr cs" "unat number \<le> length cs"
    and loop: "efold (create_candidate sz) (rev cs) (dg, next, []) = Inr (dg', next', created)"
    by (auto simp: create_partitions_def result_simps unat_gt_0 split: if_splits)
  note f = candidates_facts [OF ds]
  define fs where "fs = filter (\<lambda>d. table_fits sz (snd d)) ds"
  have take: "List.map cd_table cs = take (unat number) (List.map fst fs)"
    using find_candidates_take [OF cs(1)] n by (simp add: fs_def)
  have c: "distinct (List.map cd_table cs)" "\<forall>e \<in> set cs. candidate_fits sz ds e"
    using find_candidates_facts [OF cs(1) _ f(2) [OF assms(2)]] n by auto
  have "distinct (List.map cd_table (rev cs))" using c(1) by (simp add: rev_map [symmetric])
  moreover have "\<forall>e \<in> set (rev cs). candidate_fits sz ds e" using c(2) by simp
  moreover have "disk_table dg sid = Some pt \<and> pool_table next pt" if "(sid, pt) \<in> set ds" for sid pt
    using f(3) [OF that] assms(3) by blast
  ultimately have l: "next' = next + length (rev cs)" "created = zip (List.map cd_table (rev cs)) [next..<next']"
    using create_loop [OF loop, of ds] unfolding append_Nil by blast+
  have "List.map fst created = List.map cd_table (rev cs)" using l(1) by (simp add: l(2))
  from arg_cong [OF this, of set] have set: "fst ` set created = set (take (unat number) (List.map fst fs))"
    by (simp flip: take)
  have "(y, pty) \<in> set fs"
  proof -
    have "set ds = set (List.map_filter (\<lambda>sid. map_option (Pair sid) (disk_table dg sid)) pool)"
      using f(1) by (rule mset_eq_setD)
    then show ?thesis using assms(6,8,9) by (force simp: fs_def List.map_filter_def)
  qed
  then obtain j where j: "j < length fs" "fs ! j = (y, pty)" by (metis in_set_conv_nth)
  have "x \<in> set (take (unat number) (List.map fst fs))" using set assms(4) by force
  then obtain i where i: "i < length fs" "i < unat number" "fst (fs ! i) = x"
    by (auto simp: in_set_conv_nth)
  have "\<not> j < unat number"
    using assms(7) j set by (auto simp: in_set_conv_nth)
  then have ij: "i < j" using i by simp
  have "fs ! i = (x, ptx)"
  proof -
    have "fs ! i \<in> set ds" using nth_mem [OF i(1)] by (simp add: fs_def)
    then show ?thesis using f(3) [of "fst (fs ! i)" "snd (fs ! i)"] i(3) assms(5) by (cases "fs ! i") auto
  qed
  moreover have "sorted_wrt (\<lambda>d e. \<exists>a b. get_used_size (snd d) = Inr a \<and> get_used_size (snd e) = Inr b \<and> a \<le> b) fs"
    unfolding fs_def by (rule sorted_wrt_filter)
      (rule sort_by_key_sorted [OF ds [unfolded get_partitionable_candidates_def]])
  ultimately show ?thesis using sorted_wrt_nth_less [OF _ ij j(1)] j(2) by fastforce
qed

section \<open>Examples\<close>

text \<open>Three disks, one of them with a partition, and a device that cannot have partitions.\<close>

definition demo_pool_devices :: "graph_device list" where
  "demo_pool_devices =
     [Partitionable \<lparr>dk_sid = 1, dk_sort_key = ''/dev/sda'', dk_table = Some (ptable_new GPT demo_disk)\<rparr>,
      NotPartitionable 2,
      Partitionable \<lparr>dk_sid = 3, dk_sort_key = ''/dev/sdb'', dk_table = Some demo1\<rparr>,
      Partitionable \<lparr>dk_sid = 4, dk_sort_key = ''/dev/sdc'', dk_table = Some (ptable_new MSDOS demo_disk)\<rparr>]"

lemma demo_created:
  "emap snd (create_partitions demo_pool_devices 10 [3, 2, 1, 4] 2 10000000) = Inr (12, [(4, 10), (1, 11)])"
  by code_simp

lemma demo_offered: "max_partition_size demo_pool_devices [3, 2, 1, 4] 3 = Inr 406093824"
  by code_simp

lemma demo_pool_table:
  assumes "disk_table demo_pool_devices sid = Some pt"
  shows "pool_table 10 pt"
proof -
  have pt: "pt = ptable_new GPT demo_disk \<or> pt = demo1 \<or> pt = ptable_new MSDOS demo_disk"
    using assms by (auto simp: disk_table_def demo_pool_devices_def gd_sid_def split: if_splits)
  have "pt_layout (ptable_new GPT demo_disk)" "pt_layout (ptable_new MSDOS demo_disk)"
    by (rule pt_layout_new, simp add: dev_ok_def Let_def valid_region_def ptable_new_def demo_disk_def)+
  moreover from pt_step_layout [OF demo_step1 this(2)] have "pt_layout demo1" .
  moreover have "list_all (\<lambda>q. al_offset (get_alignment q OPTIMAL) = 0 \<and>
      calculate_grain (get_alignment q OPTIMAL) = Inr 1048576 \<and> list_all (\<lambda>p. p_sid p < 10) (pt_children q @ pt_logicals q))
      [ptable_new GPT demo_disk, demo1, ptable_new MSDOS demo_disk]"
    by code_simp
  ultimately show ?thesis using pt by (auto simp: pool_table_def list_all_iff)
qed

lemma pool_partitions_created_witness:
  "\<exists>dg'. List.map snd [(4, 10), (1, 11)] = [10..<12] \<and> disk_table dg' 3 = disk_table demo_pool_devices 3 \<and>
    (\<exists>pt pt'. disk_table dg' 4 = Some pt' \<and> partition_taken 10000000 10 pt pt')"
proof -
  obtain dg' where c: "create_partitions demo_pool_devices 10 [3, 2, 1, 4] 2 10000000 = Inr (dg', 12, [(4, 10), (1, 11)])"
    using demo_created by (auto simp: result_simps)
  show ?thesis using pool_partitions_created [OF c] demo_pool_table by (intro exI [of _ dg']) auto
qed

lemma least_used_first_witness:
  "\<exists>a b. get_used_size (ptable_new GPT demo_disk) = Inr a \<and> get_used_size demo1 = Inr b \<and> a \<le> b"
proof -
  obtain dg' where c: "create_partitions demo_pool_devices 10 [3, 2, 1, 4] 2 10000000 = Inr (dg', 12, [(4, 10), (1, 11)])"
    using demo_created by (auto simp: result_simps)
  have t: "disk_table demo_pool_devices 1 = Some (ptable_new GPT demo_disk)" "disk_table demo_pool_devices 3 = Some demo1"
    by (simp_all add: disk_table_def demo_pool_devices_def gd_sid_def)
  have "case pool_slots demo1 of Inr slots \<Rightarrow>
      list_ex (\<lambda>s. slot_possible s \<and> emap (\<lambda>n. 10000000 \<le> n) (slot_bytes s) = Inr True) slots | Inl _ \<Rightarrow> False"
    by code_simp
  then have "table_fits 10000000 demo1"
    by (auto simp: table_fits_def slot_fits_def list_ex_iff result_simps split: sum.splits)
  then show ?thesis using least_used_first [OF c, of 1 11 _ 3] demo_pool_table t by simp
qed

text \<open>
  C27: the size that \<open>max_partition_size\<close> offers for a number of partitions is the number-th greatest
  of the sizes \<open>size_candidates\<close> takes from the devices (of every device one slot that can be used), and
  it is found again when the partitions are created: the search for
  candidates finds as many as wanted, on different devices of the pool, each of them in a slot of its
  device that can be used and has at least that size. So creating the partitions does not run out of
  space before the regions are aligned; a size that is less than a grain is refused then, see
  \<open>offered_size_not_biggest\<close> below.
\<close>

theorem offered_size_available:
  assumes "max_partition_size dg pool number = Inr sz" and "distinct pool"
    and "\<And>sid pt. sid \<in> set pool \<Longrightarrow> disk_table dg sid = Some pt \<Longrightarrow> pool_table next pt"
  shows "\<exists>ds ns cs. get_partitionable_candidates dg pool = Inr ds \<and> size_candidates ds = Inr ns \<and>
    unat number \<le> length (filter (\<lambda>n. sz \<le> n) ns) \<and> length (filter (\<lambda>n. sz < n) ns) < unat number \<and>
    find_candidates sz number ds [] = Inr cs \<and> length cs = unat number \<and> distinct (List.map cd_table cs) \<and>
    (\<forall>c \<in> set cs. \<exists>pt slots s n. cd_table c \<in> set pool \<and> disk_table dg (cd_table c) = Some pt \<and>
      pool_slots pt = Inr slots \<and> s \<in> set slots \<and> slot_possible s \<and> cd_region c = slot_region s \<and>
      slot_bytes s = Inr n \<and> sz \<le> n)"
proof -
  obtain ds ns cs where ds: "get_partitionable_candidates dg pool = Inr ds" and ns: "size_candidates ds = Inr ns"
    "unat number \<le> length (filter (\<lambda>n. sz \<le> n) ns)" "length (filter (\<lambda>n. sz < n) ns) < unat number"
    and cs: "find_candidates sz number ds [] = Inr cs" "length cs = unat number"
    by (rule offered_size_found [OF assms(1)]) (use assms(3) in blast)+
  note f = candidates_facts [OF ds]
  have "0 < unat number" using ns(3) by simp
  then have c: "distinct (List.map cd_table cs)" "\<forall>e \<in> set cs. candidate_fits sz ds e"
    using find_candidates_facts [OF cs(1) _ f(2) [OF assms(2)]] by auto
  have "\<exists>pt slots s n. cd_table e \<in> set pool \<and> disk_table dg (cd_table e) = Some pt \<and>
      pool_slots pt = Inr slots \<and> s \<in> set slots \<and> slot_possible s \<and> cd_region e = slot_region s \<and>
      slot_bytes s = Inr n \<and> sz \<le> n" if "e \<in> set cs" for e
    using c(2) that f(3) by (fastforce simp: candidate_fits_def slot_fits_def candidate_of_def)
  with ds ns cs c(1) show ?thesis by blast
qed

lemma offered_size_available_witness:
  "\<exists>ds ns cs. get_partitionable_candidates demo_pool_devices [3, 2, 1, 4] = Inr ds \<and> size_candidates ds = Inr ns \<and>
    length (filter (\<lambda>n. 406093824 < n) ns) < 3 \<and> find_candidates 406093824 3 ds [] = Inr cs \<and>
    length cs = 3 \<and> distinct (List.map cd_table cs)"
proof -
  have "distinct [3, 2, 1, 4 :: nat]" by simp
  from offered_size_available [OF demo_offered this, of 10] demo_pool_table show ?thesis by auto
qed

section \<open>The biggest slot is not found\<close>

text \<open>
  The comments in both loops speak of the biggest and of the smallest large enough slot, but the
  comparison of two regions compares their first blocks: it is the last and the first slot that are
  taken. On a disk with 100 MiB of free space at its front and a few sectors at its end the sectors
  are offered, and creating a partition of that size fails since they are less than a grain.
\<close>

lemma last_slot_taken:
  assumes "\<And>s. s \<in> set slots \<Longrightarrow> slot_possible s \<and> r_block_size (slot_region s) = bs"
    and "sorted_wrt (\<lambda>s t. r_start (slot_region s) < r_start (slot_region t)) slots" and "slots \<noteq> []"
  shows "efold biggest_step slots None = Inr (Some (last slots))"
proof -
  have "efold biggest_step ss (Some s) = Inr (Some (last (s # ss)))"
    if "\<And>t. t \<in> set (s # ss) \<Longrightarrow> slot_possible t \<and> r_block_size (slot_region t) = bs"
      and "sorted_wrt (\<lambda>s t. r_start (slot_region s) < r_start (slot_region t)) (s # ss)" for s ss
    using that
    by (induction ss arbitrary: s) (auto simp: biggest_step_def region_greater_def region_less_def equal_block_size_def)
  then show ?thesis using assms by (cases slots) (simp_all add: biggest_step_def)
qed

definition demo_full :: ptable where
  "demo_full = add_partition (new_partition 1 1 (demo_region 206848 792576) PRIMARY) (ptable_new GPT demo_disk)"

definition demo_full_devices :: "graph_device list" where
  "demo_full_devices = [Partitionable \<lparr>dk_sid = 1, dk_sort_key = ''/dev/sda'', dk_table = Some demo_full\<rparr>]"

lemma offered_size_not_biggest:
  "max_partition_size demo_full_devices [1] 1 = Inr 278016"
  "emap snd (create_partitions demo_full_devices 10 [1] 1 278016) = Inl AlignError"
  "emap snd (create_partitions demo_full_devices 10 [1] 1 104857600) = Inr (11, [(1, 10)])"
  by code_simp+

section \<open>The pools of the storage object\<close>

text \<open>
  The map from names to pools is a list sorted by the names. \<open>generate_pools\<close> sees of every
  partitionable its kind, its name, the record of \<open>PartitionTable\<close>, whether the kernel calls it
  rotational and the classes of its children.
\<close>

type_synonym pools = "(string \<times> pool) list"

definition exists_pool :: "string \<Rightarrow> pools \<Rightarrow> bool" where
  "exists_pool name pools \<longleftrightarrow> map_of pools name \<noteq> None"

definition get_pool :: "string \<Rightarrow> pools \<Rightarrow> pool result" where
  "get_pool name pools = (case map_of pools name of None \<Rightarrow> Inl (Exn ''pool not found'') | Some p \<Rightarrow> Inr p)"

definition create_pool :: "string \<Rightarrow> pools \<Rightarrow> pools result" where
  "create_pool name pools =
     (if name = [] then Inl (Exn ''invalid pool name'')
      else if exists_pool name pools then Inl (Exn ''pool already exists'')
      else Inr (insort_key fst (name, []) pools))"

definition remove_pool :: "string \<Rightarrow> pools \<Rightarrow> pools result" where
  "remove_pool name pools =
     (if exists_pool name pools then Inr (filter (\<lambda>(n, _). n \<noteq> name) pools) else Inl (Exn ''pool not found''))"

definition rename_pool :: "string \<Rightarrow> string \<Rightarrow> pools \<Rightarrow> pools result" where
  "rename_pool old_name new_name pools =
     ebind (get_pool old_name pools) (\<lambda>p.
       if exists_pool new_name pools then Inl (Exn ''pool already exists'')
       else Inr (insort_key fst (new_name, p) (filter (\<lambda>(n, _). n \<noteq> old_name) pools)))"

definition get_pool_names :: "pools \<Rightarrow> string list" where
  "get_pool_names pools = List.map fst pools"

definition set_pool :: "string \<Rightarrow> pool \<Rightarrow> pools \<Rightarrow> pools" where
  "set_pool name p = List.map (\<lambda>(n, q). (n, if n = name then p else q))"

datatype child_class = MultipathChild | DmRaidChild | MdChild | OtherChild

datatype partitionable_kind =
    DiskKind bool bool
  | DasdKind | MultipathKind | DmRaidKind | MdKind | BcacheKind

record pool_partitionable =
  pp_sid :: nat
  pp_name :: string
  pp_kind :: partitionable_kind
  pp_dev :: partitionable
  pp_children :: "child_class list"

definition disk_is_usable :: "bool \<Rightarrow> pool_partitionable \<Rightarrow> bool" where
  "disk_is_usable host_managed p \<longleftrightarrow> 1 < dev_range (pp_dev p) \<and> \<not> host_managed"

definition dasd_is_usable :: "pool_partitionable \<Rightarrow> bool" where
  "dasd_is_usable p \<longleftrightarrow>
     1 < dev_range (pp_dev p) \<and>
     (dev_dasd_type (pp_dev p) = ECKD \<and> (dev_dasd_format (pp_dev p) = CDL \<or> dev_dasd_format (pp_dev p) = LDL) \<or>
      dev_dasd_type (pp_dev p) = FBA)"

definition is_usable_as_partitionable :: "pool_partitionable \<Rightarrow> bool" where
  "is_usable_as_partitionable p \<longleftrightarrow>
     (case pp_kind p of
        DiskKind host_managed _ \<Rightarrow> disk_is_usable host_managed p
      | DasdKind \<Rightarrow> dasd_is_usable p
      | _ \<Rightarrow> 1 < dev_range (pp_dev p))"

definition disk_pool_name :: "pool_partitionable \<Rightarrow> bool \<Rightarrow> string" where
  "disk_pool_name p rotates =
     (if \<not> is_usable_as_partitionable p then []
      else if prefix ''/dev/pmem'' (pp_name p) then ''PMEMs''
      else if prefix ''/dev/nvme'' (pp_name p) then ''NVMes''
      else if prefix ''/dev/ram'' (pp_name p) then ''BRDs''
      else if prefix ''/dev/nbd'' (pp_name p) then ''NBDs''
      else if rotates then ''HDDs'' else ''SSDs'')"

definition dasd_pool_name :: "pool_partitionable \<Rightarrow> string" where
  "dasd_pool_name p =
     (if \<not> is_usable_as_partitionable p then []
      else if dev_dasd_type (pp_dev p) = ECKD
      then if dev_dasd_format (pp_dev p) = CDL then ''DASDs ECKD CDL''
           else if dev_dasd_format (pp_dev p) = LDL then ''DASDs ECKD LDL'' else []
      else if dev_dasd_type (pp_dev p) = FBA then ''DASDs FBA'' else [])"

definition bcache_pool_name :: "pool_partitionable \<Rightarrow> string" where
  "bcache_pool_name p = (if \<not> is_usable_as_partitionable p then [] else ''bcaches'')"

definition pool_name :: "pool_partitionable \<Rightarrow> string" where
  "pool_name p =
     (case pp_kind p of
        DiskKind _ rotates \<Rightarrow> disk_pool_name p rotates
      | DasdKind \<Rightarrow> dasd_pool_name p
      | BcacheKind \<Rightarrow> bcache_pool_name p
      | MultipathKind \<Rightarrow> ''MPs''
      | DmRaidKind \<Rightarrow> []
      | MdKind \<Rightarrow> [])"

definition add_to_pool :: "string \<Rightarrow> nat \<Rightarrow> pools \<Rightarrow> pools result" where
  "add_to_pool name sid pools =
     ebind (if exists_pool name pools then Inr pools else create_pool name pools) (\<lambda>pools.
     ebind (get_pool name pools) (\<lambda>pool.
       if exists_device sid pool then Inr pools
       else emap (\<lambda>pool. set_pool name pool pools) (pool_add_device sid pool)))"

definition generate_pool :: "hs_locale \<Rightarrow> long_double \<Rightarrow> pool_partitionable \<Rightarrow> pools \<Rightarrow> pools result" where
  "generate_pool global ld p pools =
     (let r = dev_region (pp_dev p) in
      ebind (to_bytes r (r_length r)) (\<lambda>size.
        if size = 0 then Inr pools
        else if list_ex (\<lambda>c. c = MultipathChild \<or> c = DmRaidChild \<or> c = MdChild) (pp_children p) then Inr pools
        else if pool_name p = [] then Inr pools
        else
          ebind (byte_to_humanstring global ld (ucast (get_block_size32 r)) False 2 True) (\<lambda>text.
            add_to_pool (pool_name p @ '' ('' @ text @ '')'') (pp_sid p) pools)))"

definition generate_pools :: "hs_locale \<Rightarrow> long_double \<Rightarrow> pool_partitionable list \<Rightarrow> pools \<Rightarrow> pools result" where
  "generate_pools global ld = efold (generate_pool global ld)"

text \<open>
  The pools have different names, in order, no device is twice in a pool, and every operation keeps
  that: it is what the theorems above assume of a pool.
\<close>

definition pools_ok :: "pools \<Rightarrow> bool" where
  "pools_ok pools \<longleftrightarrow>
     sorted (List.map fst pools) \<and> distinct (List.map fst pools) \<and> (\<forall>(n, p) \<in> set pools. n \<noteq> [] \<and> distinct p)"

lemma exists_pool_iff: "exists_pool name pools \<longleftrightarrow> name \<in> fst ` set pools"
  by (simp add: exists_pool_def map_of_eq_None_iff)

lemma distinct_insort_fst:
  "distinct (List.map fst (insort_key fst x xs)) \<longleftrightarrow> fst x \<notin> fst ` set xs \<and> distinct (List.map fst xs)"
  by (induction xs) (auto simp: set_insort_key)

lemma pools_ok_insort:
  assumes "pools_ok pools" and "\<not> exists_pool name pools" and "name \<noteq> []" and "distinct p"
  shows "pools_ok (insort_key fst (name, p) pools)"
  using assms
  by (auto simp: pools_ok_def exists_pool_iff distinct_insort_fst sorted_insort_key set_insort_key image_iff)

lemma pools_ok_filter: "pools_ok pools \<Longrightarrow> pools_ok (filter P pools)"
  by (auto simp: pools_ok_def sorted_filter distinct_map_filter)

lemma create_pool_ok: "pools_ok pools \<Longrightarrow> create_pool name pools = Inr pools' \<Longrightarrow> pools_ok pools'"
  by (auto simp: create_pool_def intro: pools_ok_insort split: if_splits)

lemma remove_pool_ok: "pools_ok pools \<Longrightarrow> remove_pool name pools = Inr pools' \<Longrightarrow> pools_ok pools'"
  by (auto simp: remove_pool_def intro: pools_ok_filter split: if_splits)

lemma pool_add_device_distinct: "distinct p \<Longrightarrow> pool_add_device sid p = Inr p' \<Longrightarrow> distinct p'"
  by (auto simp: pool_add_device_def exists_device_def split: if_splits)

lemma pool_remove_device_distinct: "distinct p \<Longrightarrow> pool_remove_device sid p = Inr p' \<Longrightarrow> distinct p'"
  by (auto simp: pool_remove_device_def split: if_splits)

lemma set_pool_names: "List.map fst (set_pool name p pools) = List.map fst pools"
  by (simp add: set_pool_def comp_def case_prod_beta)

lemma set_pool_ok: "pools_ok pools \<Longrightarrow> distinct p \<Longrightarrow> pools_ok (set_pool name p pools)"
  by (auto simp: pools_ok_def set_pool_names) (auto simp: set_pool_def)

lemma get_pool_distinct: "pools_ok pools \<Longrightarrow> get_pool name pools = Inr p \<Longrightarrow> distinct p"
  by (auto simp: get_pool_def pools_ok_def dest: map_of_SomeD split: option.splits)

lemma add_to_pool_ok:
  assumes "add_to_pool name sid pools = Inr pools'" and "pools_ok pools"
  shows "pools_ok pools'"
proof -
  from assms(1) obtain pools2 pool where
    pools2: "(if exists_pool name pools then Inr pools else create_pool name pools) = Inr pools2"
    and pool: "get_pool name pools2 = Inr pool"
    and last: "(if exists_device sid pool then Inr pools2
      else emap (\<lambda>pool. set_pool name pool pools2) (pool_add_device sid pool)) = Inr pools'"
    unfolding add_to_pool_def ebind_eq_Inr by blast
  have ok2: "pools_ok pools2" using pools2 assms(2) create_pool_ok by (auto split: if_splits)
  then show ?thesis
    using last pool_add_device_distinct [OF get_pool_distinct [OF ok2 pool]] set_pool_ok
    by (auto simp: result_simps split: if_splits)
qed

lemma generate_pools_ok:
  assumes "generate_pools global ld ps pools = Inr pools'" and "pools_ok pools"
  shows "pools_ok pools'"
proof (rule efold_invariant [OF assms(1) [unfolded generate_pools_def], of pools_ok])
  show "pools_ok pools'" if "pools_ok pools" "generate_pool global ld p pools = Inr pools'" for p pools pools'
    using that add_to_pool_ok by (auto simp: generate_pool_def Let_def result_simps split: if_splits)
qed (fact assms(2))

end
