(* ===== verification/Commit.thy ===== *)
theory Commit
  imports ActionOrder
begin

text \<open>
  Carrying out the actions (\<open>Actiongraph::Impl::commit\<close> in storage/ActiongraphImpl.cc with the
  callbacks of storage/Utils/CallbacksImpl.cc) and the check for taboo devices that comes before.
  The system the actions work on is a parameter: what an action makes of its state and the
  exception it may throw. What happens is recorded as a list of events: the guards begin and end the
  commit and every action, messages are given, actions are committed and the error callback is asked.
  Of these the guards and messages call the callbacks only when there are some.
\<close>

section \<open>Commit\<close>

datatype commit_event =
  Begin
| BeginAction action
| Message action
| Commit action
| Error action st_error
| EndAction action
| End

text \<open>
  The answer of the error callback decides whether the commit goes on; \<open>None\<close> stands for no
  callbacks. The result is the exception that leaves the function.
\<close>

definition error_callback :: "(st_error \<Rightarrow> bool) option \<Rightarrow> st_error \<Rightarrow> st_error option" where
  "error_callback callbacks e =
     (if e = Aborted then Some e
      else case callbacks of
        None \<Rightarrow> Some e
      | Some error \<Rightarrow> if error e then None else Some Aborted)"

definition get_commit_actions :: "actiongraph \<Rightarrow> nat list \<Rightarrow> action list" where
  "get_commit_actions g order = List.map (\<lambda>v. the (action_at g v)) order"

text \<open>The error callback is asked unless the exception is that of an earlier refusal.\<close>

definition error_events :: "(st_error \<Rightarrow> bool) option \<Rightarrow> action \<Rightarrow> st_error \<Rightarrow> commit_event list" where
  "error_events callbacks a e =
     (if e = Aborted then [] else case callbacks of None \<Rightarrow> [] | Some _ \<Rightarrow> [Error a e])"

text \<open>One action; its guard calls \<open>end_action\<close> also when an exception leaves the body.\<close>

definition commit_action ::
  "(action \<Rightarrow> 's \<Rightarrow> 's \<times> st_error option) \<Rightarrow> (st_error \<Rightarrow> bool) option \<Rightarrow> action \<Rightarrow> 's \<Rightarrow>
   's \<times> commit_event list \<times> st_error option" where
  "commit_action run callbacks a s =
     (if a_nop a then (s, [BeginAction a, Message a, EndAction a], None)
      else
        case run a s of
          (s', None) \<Rightarrow> (s', [BeginAction a, Message a, Commit a, EndAction a], None)
        | (s', Some e) \<Rightarrow>
            (s', [BeginAction a, Message a, Commit a] @ error_events callbacks a e @ [EndAction a],
             error_callback callbacks e))"

fun commit_actions ::
  "(action \<Rightarrow> 's \<Rightarrow> 's \<times> st_error option) \<Rightarrow> (st_error \<Rightarrow> bool) option \<Rightarrow> action list \<Rightarrow> 's \<Rightarrow>
   's \<times> commit_event list \<times> st_error option" where
  "commit_actions run callbacks [] s = (s, [], None)"
| "commit_actions run callbacks (a # as) s =
     (case commit_action run callbacks a s of
        (s', log, Some e) \<Rightarrow> (s', log, Some e)
      | (s', log, None) \<Rightarrow>
          (case commit_actions run callbacks as s' of
             (s'', log', err) \<Rightarrow> (s'', log @ log', err)))"

definition commit ::
  "(action \<Rightarrow> 's \<Rightarrow> 's \<times> st_error option) \<Rightarrow> (st_error \<Rightarrow> bool) option \<Rightarrow> actiongraph \<Rightarrow> nat list \<Rightarrow> 's \<Rightarrow>
   's \<times> commit_event list \<times> st_error option" where
  "commit run callbacks g order s =
     (case commit_actions run callbacks (get_commit_actions g order) s of
        (s', log, err) \<Rightarrow> (s', Begin # log @ [End], err))"

section \<open>What is carried out\<close>

definition committed :: "commit_event list \<Rightarrow> action list" where
  "committed log = concat (List.map (\<lambda>ev. case ev of Commit a \<Rightarrow> [a] | _ \<Rightarrow> []) log)"

lemma committed_append [simp]: "committed (xs @ ys) = committed xs @ committed ys"
  by (simp add: committed_def)

lemma committed_simps [simp]:
  "committed [] = []" "committed (Begin # log) = committed log" "committed (BeginAction a # log) = committed log"
  "committed (Message a # log) = committed log" "committed (Commit a # log) = a # committed log"
  "committed (Error a e # log) = committed log" "committed (EndAction a # log) = committed log"
  "committed (End # log) = committed log"
  by (simp_all add: committed_def)

text \<open>The calls that open and close an action.\<close>

definition guards :: "commit_event list \<Rightarrow> commit_event list" where
  "guards log = filter (\<lambda>ev. case ev of BeginAction _ \<Rightarrow> True | EndAction _ \<Rightarrow> True | _ \<Rightarrow> False) log"

lemma guards_append [simp]: "guards (xs @ ys) = guards xs @ guards ys"
  by (simp add: guards_def)

lemma guards_simps [simp]:
  "guards [] = []" "guards (Begin # log) = guards log" "guards (End # log) = guards log"
  by (simp_all add: guards_def)

definition gives_up ::
  "(action \<Rightarrow> 's \<Rightarrow> 's \<times> st_error option) \<Rightarrow> (st_error \<Rightarrow> bool) option \<Rightarrow> action \<Rightarrow> 's \<Rightarrow> bool" where
  "gives_up run callbacks a s \<longleftrightarrow>
     \<not> a_nop a \<and> (\<exists>s' e. run a s = (s', Some e) \<and> error_callback callbacks e \<noteq> None)"

text \<open>The state before the given action, with the actions before it carried out.\<close>

fun run_all :: "(action \<Rightarrow> 's \<Rightarrow> 's \<times> st_error option) \<Rightarrow> action list \<Rightarrow> 's \<Rightarrow> 's" where
  "run_all run [] s = s"
| "run_all run (a # as) s = run_all run as (if a_nop a then s else fst (run a s))"

lemma commit_action_spec:
  assumes "commit_action run callbacks a s = (s', log, err)"
  shows "s' = run_all run [a] s" and "committed log = filter (\<lambda>a. \<not> a_nop a) [a]"
    and "err \<noteq> None \<longleftrightarrow> gives_up run callbacks a s"
    and "guards log = [BeginAction a, EndAction a]"
  using assms
  by (auto simp: commit_action_def error_events_def gives_up_def guards_def
      split: if_splits prod.splits option.splits)

lemma run_all_append: "run_all run (as @ bs) s = run_all run bs (run_all run as s)"
  by (induction as arbitrary: s) simp_all

text \<open>Without an exception all actions are carried out; else those up to the one that gives up.\<close>

lemma commit_actions_spec:
  assumes "commit_actions run callbacks as s = (s', log, err)"
  shows "\<exists>n \<le> length as.
    committed log = filter (\<lambda>a. \<not> a_nop a) (take n as) \<and> s' = run_all run (take n as) s \<and>
    guards log = concat (List.map (\<lambda>a. [BeginAction a, EndAction a]) (take n as)) \<and>
    (\<forall>i < n. gives_up run callbacks (as ! i) (run_all run (take i as) s) \<longleftrightarrow> err \<noteq> None \<and> Suc i = n) \<and>
    (err = None \<longrightarrow> n = length as) \<and> (err \<noteq> None \<longrightarrow> 0 < n)"
  using assms
proof (induction as arbitrary: s s' log err)
  case Nil
  then show ?case by simp
next
  case (Cons a as)
  obtain s1 log1 err1 where r1: "commit_action run callbacks a s = (s1, log1, err1)"
    by (cases "commit_action run callbacks a s") auto
  note spec = commit_action_spec [OF r1]
  show ?case
  proof (cases err1)
    case (Some e)
    then have "s' = s1" "log = log1" "err = Some e" using Cons.prems r1 by simp_all
    then show ?thesis using spec Some by (intro exI [of _ 1]) auto
  next
    case None
    obtain s2 log2 err2 where r2: "commit_actions run callbacks as s1 = (s2, log2, err2)"
      by (cases "commit_actions run callbacks as s1") auto
    have eq: "s' = s2" "log = log1 @ log2" "err = err2" using Cons.prems r1 r2 None by simp_all
    obtain n where n: "n \<le> length as" "committed log2 = filter (\<lambda>a. \<not> a_nop a) (take n as)"
      "s2 = run_all run (take n as) s1"
      "guards log2 = concat (List.map (\<lambda>a. [BeginAction a, EndAction a]) (take n as))"
      "\<forall>i < n. gives_up run callbacks (as ! i) (run_all run (take i as) s1) \<longleftrightarrow> err2 \<noteq> None \<and> Suc i = n"
      "err2 = None \<longrightarrow> n = length as" "err2 \<noteq> None \<longrightarrow> 0 < n"
      using Cons.IH [OF r2] by blast
    have s1: "run_all run (a # bs) s = run_all run bs s1" for bs
      using spec(1) by simp
    have "\<forall>i < Suc n. gives_up run callbacks ((a # as) ! i) (run_all run (take i (a # as)) s) \<longleftrightarrow>
        err2 \<noteq> None \<and> Suc i = Suc n"
    proof (intro allI impI)
      fix i assume i: "i < Suc n"
      show "gives_up run callbacks ((a # as) ! i) (run_all run (take i (a # as)) s) \<longleftrightarrow>
        err2 \<noteq> None \<and> Suc i = Suc n"
      proof (cases i)
        case 0
        then show ?thesis using spec(3) None n(7) by auto
      next
        case (Suc j)
        then show ?thesis using n(5) i s1 [of "take j as"] by (simp del: run_all.simps)
      qed
    qed
    moreover have "committed log = filter (\<lambda>a. \<not> a_nop a) (take (Suc n) (a # as))"
      using spec(2) n(2) eq by auto
    moreover have "s' = run_all run (take (Suc n) (a # as)) s"
      using s1 [of "take n as"] n(3) eq by (simp del: run_all.simps)
    ultimately show ?thesis using n(1,4,6) eq spec(4) by (intro exI [of _ "Suc n"]) simp
  qed
qed


section \<open>Properties\<close>

text \<open>
  C8: The actions that are not marked as nop are carried out in the calculated order, all of them
  when no exception leaves \<open>commit\<close>, else up to and including the first one whose error is not
  accepted; every action begun is ended before the next one begins, also the one that fails.
\<close>

theorem commit_in_order:
  assumes "commit run callbacks g order s = (s', log, err)"
  shows "\<exists>n \<le> length order. let acts = take n (get_commit_actions g order) in
    committed log = filter (\<lambda>a. \<not> a_nop a) acts \<and> s' = run_all run acts s \<and>
    guards log = concat (List.map (\<lambda>a. [BeginAction a, EndAction a]) acts) \<and>
    (\<forall>i < n. gives_up run callbacks (acts ! i) (run_all run (take i acts) s) \<longleftrightarrow> err \<noteq> None \<and> Suc i = n) \<and>
    (err = None \<longrightarrow> n = length order) \<and> (err \<noteq> None \<longrightarrow> 0 < n)"
proof -
  obtain log' where r: "commit_actions run callbacks (get_commit_actions g order) s = (s', log', err)"
    and log: "log = Begin # log' @ [End]"
    using assms by (auto simp: commit_def split: prod.splits)
  obtain n where n: "n \<le> length (get_commit_actions g order)"
    "committed log' = filter (\<lambda>a. \<not> a_nop a) (take n (get_commit_actions g order))"
    "s' = run_all run (take n (get_commit_actions g order)) s"
    "guards log' = concat (List.map (\<lambda>a. [BeginAction a, EndAction a]) (take n (get_commit_actions g order)))"
    "\<forall>i < n. gives_up run callbacks (get_commit_actions g order ! i)
        (run_all run (take i (get_commit_actions g order)) s) \<longleftrightarrow> err \<noteq> None \<and> Suc i = n"
    "err = None \<longrightarrow> n = length (get_commit_actions g order)" "err \<noteq> None \<longrightarrow> 0 < n"
    using commit_actions_spec [OF r] by blast
  have len: "length (get_commit_actions g order) = length order" by (simp add: get_commit_actions_def)
  show ?thesis
    unfolding Let_def
    by (rule exI [of _ n], intro conjI) (use n log len in \<open>simp_all add: min_def\<close>)
qed

text \<open>A disk whose partition cannot be created; the user accepts the error.\<close>

definition demo_run :: "action \<Rightarrow> nat list \<Rightarrow> nat list \<times> st_error option" where
  "demo_run a s = (if a_sid a = 45 then (s, Some (Exn ''mount failed'')) else (s @ [a_sid a], None))"

theorem commit_in_order_witness:
  "map a_sid (committed (fst (snd (commit demo_run (Some (\<lambda>e. True)) demo_ag [0, 5, 3, 2] [])))) = [42, 46, 44, 45] \<and>
   (\<exists>n \<le> length [0, 2, 3, 5 :: nat].
      committed (fst (snd (commit demo_run None demo_ag [0, 2, 3, 5] []))) =
        filter (\<lambda>a. \<not> a_nop a) (take n (get_commit_actions demo_ag [0, 2, 3, 5])) \<and> 0 < n)"
proof (rule conjI)
  show "map a_sid (committed (fst (snd (commit demo_run (Some (\<lambda>e. True)) demo_ag [0, 5, 3, 2] [])))) = [42, 46, 44, 45]"
    by code_simp
  have err: "snd (snd (commit demo_run None demo_ag [0, 2, 3, 5] [])) \<noteq> None" by code_simp
  have "commit demo_run None demo_ag [0, 2, 3, 5] [] =
      (fst (commit demo_run None demo_ag [0, 2, 3, 5] []),
       fst (snd (commit demo_run None demo_ag [0, 2, 3, 5] [])),
       snd (snd (commit demo_run None demo_ag [0, 2, 3, 5] [])))"
    by simp
  from commit_in_order [OF this] err
  show "\<exists>n \<le> length [0, 2, 3, 5 :: nat].
      committed (fst (snd (commit demo_run None demo_ag [0, 2, 3, 5] []))) =
        filter (\<lambda>a. \<not> a_nop a) (take n (get_commit_actions demo_ag [0, 2, 3, 5])) \<and> 0 < n"
    unfolding Let_def by blast
qed

lemma efold_units:
  "efold (\<lambda>x _. f x) xs () = Inr () \<longleftrightarrow> (\<forall>x \<in> set xs. f x = Inr ())"
  by (induction xs) (auto simp: result_simps)

text \<open>
  C32: The check passes exactly when every action that deletes or unmounts a device is about a device
  of the left devicegraph such that neither it nor any device below it, down to the disks, is taboo.
\<close>

theorem taboo_devices_untouched:
  "check_taboos lhs taboos g = Inr () \<longleftrightarrow>
     (\<forall>(v, a) \<in> set (ag_vertices g). affects_device a \<and> is_delete a \<longrightarrow>
        (\<exists>x. find_vertex lhs (a_sid a) = Inr x \<and>
           (\<forall>y s. (x, y) \<in> (set (up lhs VIEW_CLASSIC))\<^sup>* \<longrightarrow> sid_of lhs y = Some s \<longrightarrow> s \<notin> taboos)))"
proof -
  have one: "check_taboo lhs taboos a = Inr () \<longleftrightarrow> (affects_device a \<and> is_delete a \<longrightarrow>
        (\<exists>x. find_vertex lhs (a_sid a) = Inr x \<and>
           (\<forall>y s. (x, y) \<in> (set (up lhs VIEW_CLASSIC))\<^sup>* \<longrightarrow> sid_of lhs y = Some s \<longrightarrow> s \<notin> taboos)))" for a
  proof -
    have set_anc: "set (ancestors lhs VIEW_CLASSIC True x) = {y. (x, y) \<in> (set (up lhs VIEW_CLASSIC))\<^sup>*}" for x
      using bfs_from [of "up lhs VIEW_CLASSIC" x] by (simp add: ancestors_def without_def)
    have "list_ex (\<lambda>w. case sid_of lhs w of Some s \<Rightarrow> s \<in> taboos | None \<Rightarrow> False)
          (ancestors lhs VIEW_CLASSIC True x) \<longleftrightarrow>
        (\<exists>y s. (x, y) \<in> (set (up lhs VIEW_CLASSIC))\<^sup>* \<and> sid_of lhs y = Some s \<and> s \<in> taboos)" for x
      unfolding list_ex_iff set_anc by (auto split: option.splits)
    then show ?thesis
      by (cases "find_vertex lhs (a_sid a)") (auto simp: check_taboo_def)
  qed
  have eq: "(\<lambda>(v, a) _. check_taboo lhs taboos a) = (\<lambda>x (_ :: unit). check_taboo lhs taboos (snd x))"
    by (simp add: fun_eq_iff split: prod.splits)
  show ?thesis
    unfolding check_taboos_def eq efold_units using one by auto
qed

theorem taboo_devices_untouched_witness:
  "check_taboos demo_lhs {47} demo_ag \<noteq> Inr () \<and> check_taboos demo_lhs {44} demo_ag = Inr ()"
proof
  have a: "(6, action_new (Unmount ''/mnt'' False) (AffectDevice 47) False False) \<in> set (ag_vertices demo_ag)"
    by (simp add: demo_ag_def)
  have "find_vertex demo_lhs 47 = Inr 0" "sid_of demo_lhs 0 = Some 47" by code_simp+
  then show "check_taboos demo_lhs {47} demo_ag \<noteq> Inr ()"
    using taboo_devices_untouched [of demo_lhs "{47}" demo_ag] a
    by (force simp: action_new_def affects_device_def is_delete_def a_sid_def)
  show "check_taboos demo_lhs {44} demo_ag = Inr ()" by code_simp
qed

text \<open>
  When the client accepts every error that an action can throw, the commit comes to its end
  with every action carried out, in order.
\<close>

theorem commit_completes:
  assumes "\<forall>a s s' e. run a s = (s', Some e) \<longrightarrow> e \<noteq> Aborted \<and> accepts e"
  shows "\<exists>s' log. commit run (Some accepts) g order s = (s', log, None) \<and> last log = End \<and>
    committed log = filter (\<lambda>a. \<not> a_nop a) (get_commit_actions g order)"
proof -
  let ?as = "get_commit_actions g order"
  obtain s' log err where c: "commit_actions run (Some accepts) ?as s = (s', log, err)"
    by (cases "commit_actions run (Some accepts) ?as s") auto
  have never: "\<not> gives_up run (Some accepts) a t" for a t
  proof
    assume "gives_up run (Some accepts) a t"
    then obtain t' e where "run a t = (t', Some e)" "error_callback (Some accepts) e \<noteq> None"
      by (auto simp: gives_up_def)
    then show False using assms by (auto simp: error_callback_def)
  qed
  from commit_actions_spec [OF c] obtain n where n: "committed log = filter (\<lambda>a. \<not> a_nop a) (take n ?as)"
    "\<forall>i < n. gives_up run (Some accepts) (?as ! i) (run_all run (take i ?as) s) \<longleftrightarrow> err \<noteq> None \<and> Suc i = n"
    "err = None \<longrightarrow> n = length ?as" "err \<noteq> None \<longrightarrow> 0 < n"
    by (elim exE conjE)
  have "err = None"
  proof (rule ccontr)
    assume "err \<noteq> None"
    then have "n - 1 < n" "Suc (n - 1) = n" using n(4) by simp_all
    then show False using n(2) [rule_format, of "n - 1"] never \<open>err \<noteq> None\<close> by simp
  qed
  then show ?thesis using c n(1,3) by (simp add: commit_def)
qed

theorem commit_completes_witness:
  "\<exists>s' log. commit demo_run (Some (\<lambda>e. True)) demo_ag [0, 5, 3, 2] [] = (s', log, None) \<and> last log = End \<and>
    map a_sid (committed log) = [42, 46, 44, 45]"
proof -
  have accepted: "\<forall>a s s' e. demo_run a s = (s', Some e) \<longrightarrow> e \<noteq> Aborted \<and> True"
    by (auto simp: demo_run_def)
  have "map a_sid (filter (\<lambda>a. \<not> a_nop a) (get_commit_actions demo_ag [0, 5, 3, 2])) = [42, 46, 44, 45]" by code_simp
  moreover obtain s' log where
    "commit demo_run (Some (\<lambda>e. True)) demo_ag [0, 5, 3, 2] [] = (s', log, None)" "last log = End"
    "committed log = filter (\<lambda>a. \<not> a_nop a) (get_commit_actions demo_ag [0, 5, 3, 2])"
    using commit_completes [where run = demo_run and accepts = "\<lambda>e. True" and g = demo_ag and
      order = "[0, 5, 3, 2]" and s = "[]", OF accepted] by (elim exE conjE)
  ultimately show ?thesis by metis
qed

end
