(* ===== verification/LvmExtents.thy ===== *)
theory LvmExtents
  imports Lvm
begin

text \<open>
  The accounting of the extents of a volume group: a volume group stays consistent under all its
  operations, new and resized volumes that keep to the limits do not overcommit it, and the limit
  for thin pools is not always one.
\<close>

section \<open>Granting free extents\<close>

text \<open>With \<open>b\<close> extents taken out of \<open>a\<close>, up to the free number of extents can be granted.\<close>

lemma below_64:
  assumes "x \<le> unat (a :: u64)"
  shows "x < 2 ^ 64"
  using le_less_trans [OF assms unat_lt64] by simp

definition free_of :: "u64 \<Rightarrow> u64 \<Rightarrow> u64" where
  "free_of a b = (if a \<le> b then 0 else a - b)"

lemma unat_free_of: "unat (free_of a b) = unat a - unat b"
  by (auto simp: free_of_def word_le_nat_alt unat_sub_no_wrap)

lemma grant:
  assumes "unat n \<le> unat (free_of a b)"
  shows "a < b + n \<longleftrightarrow> a < b" and "free_of a (b + n) = free_of a b - n" and "n = 0 \<or> b + n \<le> a"
proof -
  have f: "unat n \<le> unat a - unat b" using assms by (simp add: unat_free_of)
  have "unat (free_of a b - n) = unat (free_of a b) - unat n"
    using assms by (simp add: unat_sub_no_wrap)
  then have goal2: "free_of a (b + n) = free_of a b - n" if "unat (b + n) = unat b + unat n"
    using that by (simp add: word_unat_eq_iff unat_free_of)
  show "a < b + n \<longleftrightarrow> a < b"
  proof (cases "unat b < unat a")
    case True
    then have "unat b + unat n \<le> unat a" using f by simp
    moreover from this have "unat b + unat n < 2 ^ 64" by (rule below_64)
    ultimately show ?thesis using True by (simp add: word_less_nat_alt unat_add_no_wrap)
  next
    case False
    then have "n = 0" using f by (simp add: unat_eq_0)
    then show ?thesis by simp
  qed
  show "free_of a (b + n) = free_of a b - n"
  proof (cases "unat b < unat a")
    case True
    then have "unat b + unat n < 2 ^ 64" using f by (intro below_64 [of _ a]) simp
    then show ?thesis by (intro goal2 unat_add_no_wrap) simp
  next
    case False
    then have "n = 0" using f by (simp add: unat_eq_0)
    then show ?thesis by simp
  qed
  show "n = 0 \<or> b + n \<le> a"
  proof (cases "unat b < unat a")
    case True
    then have "unat b + unat n \<le> unat a" using f by simp
    moreover from this have "unat b + unat n < 2 ^ 64" by (rule below_64)
    ultimately show ?thesis by (simp add: word_le_nat_alt unat_add_no_wrap)
  next
    case False
    then show ?thesis using f by (simp add: unat_eq_0)
  qed
qed

text \<open>A size within the free extents has at most that many extents.\<close>

lemma extents_of_size:
  fixes s f e :: u64
  assumes "unat s \<le> unat (f * e)" and "unat f * unat e < 2 ^ 64"
  shows "unat (s div e) \<le> unat f"
proof (cases "e = 0")
  case True
  then show ?thesis by simp
next
  case False
  then have e0: "0 < unat e" by (simp add: unat_gt_0)
  have "unat (f * e) = unat f * unat e" using assms(2) by (intro iffD1 [OF unat_mult_lem]) simp
  then have "unat s div unat e \<le> unat f * unat e div unat e" using assms(1) by (intro div_le_mono) simp
  also have "unat f * unat e div unat e = unat f" using e0 by (rule nonzero_mult_div_cancel_right [OF gr_implies_not0])
  finally show ?thesis by (simp only: unat_div)
qed

lemma free_and_overcommitted:
  assumes "number_of_used_extents ignored vg = Inr u"
  shows "number_of_free_extents ignored vg = Inr (free_of (number_of_extents vg) (u + vg_reserved_extents vg))"
    and "ignored = [] \<Longrightarrow> is_overcommitted vg = Inr (number_of_extents vg < u + vg_reserved_extents vg)"
  using assms by (simp_all add: number_of_free_extents_def is_overcommitted_def free_of_def Let_def)

lemma free_le_extents:
  assumes "number_of_free_extents ignored vg = Inr f"
  shows "unat f \<le> unat (number_of_extents vg)"
proof -
  from assms obtain u where "number_of_used_extents ignored vg = Inr u"
    by (auto simp: number_of_free_extents_def result_simps)
  then have "f = free_of (number_of_extents vg) (u + vg_reserved_extents vg)"
    using assms free_and_overcommitted(1) by simp
  then show ?thesis by (simp add: unat_free_of)
qed

section \<open>New volumes\<close>

text \<open>A new volume is the last one of the loop.\<close>

lemma used_extents_new:
  assumes "number_of_used_extents ignored vg = Inr u"
  shows "\<exists>ret spare. u = ret + spare \<and>
    number_of_used_extents ignored (vg\<lparr>vg_lvs := vg_lvs vg @ [lv]\<rparr>) =
      emap (\<lambda>(ret, spare). ret + spare) (used_step ignored (get_extent_size vg) lv (ret, spare))"
proof -
  from assms obtain ret spare where
    e: "efold (used_step ignored (get_extent_size vg)) (vg_lvs vg) (0, 0) = Inr (ret, spare)" and u: "u = ret + spare"
    by (auto simp: number_of_used_extents_def result_simps)
  have "number_of_used_extents ignored (vg\<lparr>vg_lvs := vg_lvs vg @ [lv]\<rparr>) =
      emap (\<lambda>(ret, spare). ret + spare) (used_step ignored (get_extent_size vg) lv (ret, spare))"
    using e by (simp add: number_of_used_extents_def get_extent_size_def efold_append)
      (cases "used_step ignored (r_block_size (vg_region vg)) lv (ret, spare)"; simp)
  then show ?thesis using u by blast
qed

lemma create_lvm_lv_eq:
  assumes "get_extent_size vg \<noteq> 0"
  shows "create_lvm_lv sid name t s vg = Inr (vg\<lparr>vg_lvs := vg_lvs vg @
    [lv_set_region \<lparr>r_start = 0, r_length = s div get_extent_size vg, r_block_size = get_extent_size vg\<rparr>
      (lvm_lv_new sid name t)]\<rparr>)"
  using assms by (simp add: create_lvm_lv_def divide_def region_new_def get_extent_size_def Let_def)

text \<open>
  C20: A new normal logical volume of at most the size the volume group offers takes exactly its
  extents from the free ones, and does not overcommit the group.
\<close>

theorem new_lv_fits:
  assumes "get_extent_size vg \<noteq> 0"
    and "unat (number_of_extents vg) * unat (get_extent_size vg) < 2 ^ 64"
    and "max_size_for_lvm_lv NORMAL [] vg = Inr m" and "s \<le> m"
  shows "\<exists>vg' f. create_lvm_lv sid name NORMAL s vg = Inr vg' \<and> number_of_free_extents [] vg = Inr f \<and>
    number_of_free_extents [] vg' = Inr (f - s div get_extent_size vg) \<and> is_overcommitted vg' = is_overcommitted vg"
proof -
  let ?e = "get_extent_size vg" and ?n = "s div get_extent_size vg" and ?a = "number_of_extents vg"
  from assms(3) obtain f where f: "number_of_free_extents [] vg = Inr f" and m: "m = f * ?e"
    by (auto simp: max_size_for_lvm_lv_def result_simps)
  then obtain u where u: "number_of_used_extents [] vg = Inr u"
    by (auto simp: number_of_free_extents_def result_simps)
  let ?b = "u + vg_reserved_extents vg"
  have fo: "f = free_of ?a ?b" using f free_and_overcommitted(1) [OF u] by simp
  have "unat f * unat ?e < 2 ^ 64"
    by (rule le_less_trans [OF mult_le_mono1 [OF free_le_extents [OF f]] assms(2)])
  then have n: "unat ?n \<le> unat (free_of ?a ?b)"
    using extents_of_size [of s f ?e] assms(4) m unfolding fo [symmetric] by (simp add: word_le_nat_alt)
  let ?lv = "lv_set_region \<lparr>r_start = 0, r_length = ?n, r_block_size = ?e\<rparr> (lvm_lv_new sid name NORMAL)"
  let ?vg = "vg\<lparr>vg_lvs := vg_lvs vg @ [?lv]\<rparr>"
  have c: "create_lvm_lv sid name NORMAL s vg = Inr ?vg" by (rule create_lvm_lv_eq [OF assms(1)])
  have "number_of_used_extents [] ?vg = Inr (u + ?n)"
    using used_extents_new [OF u, of ?lv]
    by (auto simp: used_step_def lv_set_region_def lvm_lv_new_def Let_def ac_simps)
  note v = free_and_overcommitted [OF this]
  have b: "u + ?n + vg_reserved_extents vg = ?b + ?n" by (simp add: ac_simps)
  have same: "number_of_extents ?vg = ?a" "vg_reserved_extents ?vg = vg_reserved_extents vg"
    by (simp_all add: number_of_extents_def)
  have "number_of_free_extents [] ?vg = Inr (f - ?n)"
    using v(1) grant(2) [OF n] unfolding same b fo by simp
  moreover have "is_overcommitted ?vg = is_overcommitted vg"
    using v(2) free_and_overcommitted(2) [OF u] grant(1) [OF n] unfolding same b by simp
  ultimately show ?thesis using c f by blast
qed

text \<open>A group of 1024 extents of 4 MiB with a volume of 1 GiB, and another one of all that is left.\<close>

definition demo_vg :: lvm_vg where
  "demo_vg = \<lparr>vg_name = ''system'', vg_region = \<lparr>r_start = 0, r_length = 1024, r_block_size = 4194304\<rparr>,
     vg_reserved_extents = 4, vg_pvs = [],
     vg_lvs = [lv_set_region \<lparr>r_start = 0, r_length = 256, r_block_size = 4194304\<rparr> (lvm_lv_new 42 ''root'' NORMAL)],
     vg_thins = [], vg_snapshots = []\<rparr>"

theorem new_lv_fits_witness:
  "\<exists>vg'. create_lvm_lv 43 ''home'' NORMAL 3204448256 demo_vg = Inr vg' \<and>
    number_of_free_extents [] vg' = Inr 0 \<and> is_overcommitted vg' = Inr False"
proof -
  have m: "max_size_for_lvm_lv NORMAL [] demo_vg = Inr 3204448256" by code_simp
  have e: "get_extent_size demo_vg = 4194304" "number_of_extents demo_vg = 1024" by code_simp+
  have f: "number_of_free_extents [] demo_vg = Inr 764" "is_overcommitted demo_vg = Inr False" by code_simp+
  have d: "764 - (3204448256 :: u64) div 4194304 = 0" by simp
  have h: "get_extent_size demo_vg \<noteq> 0" "unat (number_of_extents demo_vg) * unat (get_extent_size demo_vg) < 2 ^ 64"
    unfolding e by simp_all
  from new_lv_fits [OF h m order_refl, of 43 "''home''"] show ?thesis
    unfolding f e by (auto simp: d)
qed

section \<open>Resized volumes\<close>

text \<open>The extents of one volume are added to those of the others.\<close>

lemma used_step_shift:
  "used_step ignored e lv (ret + d, spare) =
     emap (\<lambda>(ret, spare). (ret + d, spare)) (used_step ignored e lv (ret, spare))"
  by (cases "lv_default_metadata_size lv") (auto simp: used_step_def Let_def ac_simps divide_def)

lemma used_extents_shift:
  "efold (used_step ignored e) lvs (ret + d, spare) =
     emap (\<lambda>(ret, spare). (ret + d, spare)) (efold (used_step ignored e) lvs (ret, spare))"
proof (induction lvs arbitrary: ret spare)
  case Nil
  then show ?case by simp
next
  case (Cons lv lvs)
  show ?case
    by (cases "used_step ignored e lv (ret, spare)") (auto simp: used_step_shift Cons.IH)
qed

lemma used_extents_ignored:
  assumes "sid \<notin> lv_sid ` set lvs"
  shows "efold (used_step (sid # ignored) e) lvs p = efold (used_step ignored e) lvs p"
  using assms
proof (induction lvs arbitrary: p)
  case Nil
  then show ?case by simp
next
  case (Cons lv lvs)
  have "used_step (sid # ignored) e lv p = used_step ignored e lv p"
    using Cons.prems by (auto simp: used_step_def split: prod.splits)
  then show ?case using Cons by (cases "used_step ignored e lv p") auto
qed

lemma used_extents_of_one:
  assumes "vg_lvs vg = xs @ lv # ys" and "distinct (map lv_sid (vg_lvs vg))" and "lv_type lv = NORMAL"
    and "number_of_used_extents [lv_sid lv] vg = Inr u"
  shows "number_of_used_extents [] vg = Inr (u + lv_used_extents lv)"
proof -
  let ?e = "get_extent_size vg"
  have others: "lv_sid lv \<notin> lv_sid ` set xs" "lv_sid lv \<notin> lv_sid ` set ys" using assms(1,2) by auto
  note ign = used_extents_ignored [OF others(1), of "[]"] used_extents_ignored [OF others(2), of "[]"]
  from assms(4) obtain ret spare where
    e: "efold (used_step [lv_sid lv] ?e) (xs @ lv # ys) (0, 0) = Inr (ret, spare)" and u: "u = ret + spare"
    by (auto simp: number_of_used_extents_def result_simps assms(1))
  then obtain r s where r: "efold (used_step [] ?e) xs (0, 0) = Inr (r, s)"
    and "efold (used_step [] ?e) ys (r, s) = Inr (ret, spare)"
    by (auto simp: efold_append ign used_step_def result_simps)
  then have "efold (used_step [] ?e) ys (r + lv_used_extents lv, s) = Inr (ret + lv_used_extents lv, spare)"
    by (simp add: used_extents_shift)
  then have "efold (used_step [] ?e) (xs @ lv # ys) (0, 0) = Inr (ret + lv_used_extents lv, spare)"
    using r assms(3) by (simp add: efold_append used_step_def Let_def)
  then show ?thesis using u by (simp add: number_of_used_extents_def assms(1) ac_simps)
qed

text \<open>The limits of a resize never exceed what the group offers.\<close>

lemma ri_check_max: "ri_check ri = Inr r \<Longrightarrow> max_size r \<le> max_size ri \<and> (resize_ok r \<longrightarrow> resize_ok ri)"
proof -
  assume a: "ri_check ri = Inr r"
  then have m: "max_size r = max_size ri - max_size ri mod ri_block_size ri"
    and ok: "resize_ok r \<longrightarrow> resize_ok ri"
    by (auto simp: ri_check_def result_simps round_down_def add_reason_def Let_def split: if_splits)
  have "unat (max_size r) = unat (max_size ri) - unat (max_size ri) mod unat (ri_block_size ri)"
    unfolding m by (simp add: unat_sub_no_wrap unat_mod)
  then show ?thesis using ok by (simp add: word_le_nat_alt)
qed

lemma combine_max_le:
  "combine_max hi ri = Inr r \<Longrightarrow> max_size r \<le> hi \<and> max_size r \<le> max_size ri \<and> (resize_ok r \<longrightarrow> resize_ok ri)"
  unfolding combine_max_def by (drule ri_check_max) auto

lemma combine_min_le:
  "combine_min lo ri = Inr r \<Longrightarrow> max_size r \<le> max_size ri \<and> (resize_ok r \<longrightarrow> resize_ok ri)"
  unfolding combine_min_def by (drule ri_check_max) auto

lemma combine_block_size_le:
  "combine_block_size b ri = Inr r \<Longrightarrow> max_size r \<le> max_size ri \<and> (resize_ok r \<longrightarrow> resize_ok ri)"
  unfolding combine_block_size_def by (drule ri_check_max) auto

lemma ri_combine_le:
  assumes "ri_combine ri extra = Inr r"
  shows "max_size r \<le> max_size extra"
proof -
  obtain r1 r2 r3 where c: "combine_max (max_size extra) r1 = Inr r2"
    "combine_block_size (ri_block_size extra) r2 = Inr r3" "ri_check r3 = Inr r"
    using assms unfolding ri_combine_def Let_def by (auto simp only: ebind_eq_Inr)
  have "max_size r \<le> max_size r3" using ri_check_max [OF c(3)] by blast
  also have "\<dots> \<le> max_size r2" using combine_block_size_le [OF c(2)] by blast
  also have "\<dots> \<le> max_size extra" using combine_max_le [OF c(1)] by blast
  finally show ?thesis .
qed

lemma each_same: "\<forall>x \<in> set xs. f x = Inr x \<Longrightarrow> each f xs = Inr xs"
  by (induction xs) auto

lemma each_append: "each f (xs @ ys) = ebind (each f xs) (\<lambda>xs. emap (\<lambda>ys. xs @ ys) (each f ys))"
proof (induction xs)
  case Nil
  then show ?case by (cases "each f ys") simp_all
next
  case (Cons x xs)
  then show ?case by (cases "f x"; cases "each f xs"; cases "each f ys") simp_all
qed

lemma set_lv_size_eq:
  assumes "vg_lvs vg = xs @ lv # ys" and "distinct (map lv_sid (vg_lvs vg))" and "r_block_size (lv_region lv) \<noteq> 0"
  shows "set_lv_size (lv_sid lv) s vg = Inr (vg\<lparr>vg_lvs := xs @ lv_set_region
    \<lparr>r_start = r_start (lv_region lv), r_length = s div r_block_size (lv_region lv),
      r_block_size = r_block_size (lv_region lv)\<rparr> lv # ys\<rparr>)"
proof -
  let ?f = "\<lambda>x. if lv_sid x = lv_sid lv then lv_set_size s x else Inr x"
  have "lv_sid lv \<notin> lv_sid ` set xs" "lv_sid lv \<notin> lv_sid ` set ys" using assms(1,2) by auto
  then have "\<forall>x \<in> set xs \<union> set ys. lv_sid x \<noteq> lv_sid lv" by (metis Un_iff image_eqI)
  then have "each ?f xs = Inr xs" "each ?f ys = Inr ys"
    by (auto intro!: each_same)
  then show ?thesis
    using assms(1,3)
    by (simp add: set_lv_size_def each_append lv_set_size_def to_blocks_def region_new_def)
qed

lemma lv_set_region_simps [simp]:
  "lv_sid (lv_set_region r lv) = lv_sid lv" "lv_type (lv_set_region r lv) = lv_type lv"
  "lv_region (lv_set_region r lv) = r" "lv_type lv \<noteq> THIN \<Longrightarrow> lv_used_extents (lv_set_region r lv) = r_length r"
  by (simp_all add: lv_set_region_def Let_def)

lemma used_extents_other:
  assumes "lv_sid lv' = lv_sid lv"
  shows "number_of_used_extents [lv_sid lv] (vg\<lparr>vg_lvs := xs @ lv' # ys\<rparr>) =
    number_of_used_extents [lv_sid lv] (vg\<lparr>vg_lvs := xs @ lv # ys\<rparr>)"
proof -
  have "used_step [lv_sid lv] e lv' p = Inr p" "used_step [lv_sid lv] e lv p = Inr p" for e p
    using assms by (simp_all add: used_step_def split: prod.splits)
  then have "efold (used_step [lv_sid lv] e) (lv' # ys) = efold (used_step [lv_sid lv] e) (lv # ys)" for e
    by (intro ext) simp
  then show ?thesis by (simp add: number_of_used_extents_def get_extent_size_def efold_append del: efold.simps)
qed

lemma detect_resize_info_normal_steps:
  assumes "detect_resize_info children vg lv = Inr ri" and "lv_type lv = NORMAL" and "\<not> has_snapshots vg lv"
  obtains f own ri1 ri2 where "number_of_free_extents [lv_sid lv] vg = Inr f"
    and "resize_info_new True 0 (get_extent_size vg) (f * get_extent_size vg) = Inr own"
    and "ri_combine children own = Inr ri1" and "max_size ri2 = max_size ri1"
    and "combine_block_size (stripe_extents vg lv) ri2 = Inr ri"
proof -
  have d: "detect_resize_info_normal children vg lv = Inr ri"
    using assms(1,2) by (simp add: detect_resize_info_def)
  have m: "max_size (reason_if c r x) = max_size x" for c r x
    by (simp add: reason_if_def add_reason_def)
  obtain f own ri1 where s: "number_of_free_extents [lv_sid lv] vg = Inr f"
    "resize_info_new True 0 (get_extent_size vg) (f * get_extent_size vg) = Inr own"
    "ri_combine children own = Inr ri1"
    "combine_block_size (stripe_extents vg lv) (reason_if (f \<le> r_length (lv_region lv)) RB_NO_SPACE_IN_LVM_VG
      (reason_if (r_length (lv_region lv) \<le> 1) RB_MIN_SIZE_FOR_LVM_LV ri1)) = Inr ri"
    using d assms(3) unfolding detect_resize_info_normal_def by (auto simp only: if_False ebind_eq_Inr)
  show thesis by (rule that [OF s(1-3) _ s(4)]) (simp only: m)
qed

lemma detect_resize_info_normal_max:
  assumes "detect_resize_info children vg lv = Inr ri" and "lv_type lv = NORMAL" and "resize_ok ri"
  shows "\<exists>f. number_of_free_extents [lv_sid lv] vg = Inr f \<and> max_size ri \<le> f * get_extent_size vg"
proof -
  have ns: "\<not> has_snapshots vg lv"
  proof
    assume "has_snapshots vg lv"
    then have "resize_info_any False RB_RESIZE_NOT_SUPPORTED_DUE_TO_SNAPSHOTS = Inr ri"
      using assms(1,2) by (simp add: detect_resize_info_def detect_resize_info_normal_def)
    from ri_check_max [OF this [unfolded resize_info_any_def resize_info_new_def]] assms(3) show False by simp
  qed
  obtain f own ri1 ri2 where f: "number_of_free_extents [lv_sid lv] vg = Inr f"
    and own: "resize_info_new True 0 (get_extent_size vg) (f * get_extent_size vg) = Inr own"
    and c: "ri_combine children own = Inr ri1" and ri2: "max_size ri2 = max_size ri1"
    and b: "combine_block_size (stripe_extents vg lv) ri2 = Inr ri"
    by (rule detect_resize_info_normal_steps [OF assms(1,2) ns])
  have "max_size own \<le> f * get_extent_size vg"
    using ri_check_max [OF own [unfolded resize_info_new_def]] by simp
  then have "max_size ri \<le> f * get_extent_size vg"
    using ri_combine_le [OF c] combine_block_size_le [OF b] ri2 by auto
  then show ?thesis using f by blast
qed

text \<open>
  C19: When a normal logical volume may be resized, every size up to the upper limit that is
  reported, whatever is on the volume, leaves the volume group not overcommitted.
\<close>

theorem resized_lv_fits:
  assumes "lv \<in> set (vg_lvs vg)" and "distinct (map lv_sid (vg_lvs vg))" and "lv_type lv = NORMAL"
    and "r_block_size (lv_region lv) = get_extent_size vg"
    and "unat (number_of_extents vg) * unat (get_extent_size vg) < 2 ^ 64"
    and "detect_resize_info children vg lv = Inr ri" and "resize_ok ri" and "0 < s" and "s \<le> max_size ri"
  shows "\<exists>vg'. set_lv_size (lv_sid lv) s vg = Inr vg' \<and> is_overcommitted vg' = Inr False"
proof -
  let ?e = "get_extent_size vg" and ?a = "number_of_extents vg"
  obtain f where f: "number_of_free_extents [lv_sid lv] vg = Inr f" "max_size ri \<le> f * ?e"
    using detect_resize_info_normal_max [OF assms(6,3,7)] by blast
  have sf: "s \<le> f * ?e" using f(2) assms(9) by (rule order_trans [rotated])
  then have e0: "?e \<noteq> 0" using assms(8) by auto
  from f(1) obtain u where u: "number_of_used_extents [lv_sid lv] vg = Inr u"
    by (auto simp: number_of_free_extents_def result_simps)
  let ?b = "u + vg_reserved_extents vg" and ?n = "s div ?e"
  have fo: "f = free_of ?a ?b" using f(1) free_and_overcommitted(1) [OF u] by simp
  have fits: "unat f * unat ?e < 2 ^ 64"
    by (rule le_less_trans [OF mult_le_mono1 [OF free_le_extents [OF f(1)]] assms(5)])
  then have n: "unat ?n \<le> unat (free_of ?a ?b)"
    using extents_of_size [of s f ?e] sf unfolding fo [symmetric] by (simp add: word_le_nat_alt)
  have ab: "\<not> ?a < ?b"
  proof
    assume "?a < ?b"
    then have "f = 0" unfolding fo free_of_def by (simp only: less_imp_le if_True)
    then show False using sf assms(8) by simp
  qed
  obtain xs ys where lvs: "vg_lvs vg = xs @ lv # ys" using assms(1) by (meson split_list)
  let ?lv = "lv_set_region \<lparr>r_start = r_start (lv_region lv), r_length = ?n, r_block_size = ?e\<rparr> lv"
  let ?vg = "vg\<lparr>vg_lvs := xs @ ?lv # ys\<rparr>"
  have s: "set_lv_size (lv_sid lv) s vg = Inr ?vg"
    using set_lv_size_eq [OF lvs assms(2)] assms(4) e0 by simp
  have "vg = vg\<lparr>vg_lvs := xs @ lv # ys\<rparr>" using lvs by simp
  then have "number_of_used_extents [lv_sid ?lv] ?vg = Inr u"
    using used_extents_other [where lv' = ?lv and lv = lv and vg = vg and xs = xs and ys = ys] u by simp
  then have "number_of_used_extents [] ?vg = Inr (u + ?n)"
    using used_extents_of_one [where vg = ?vg and xs = xs and lv = ?lv and ys = ys] assms(2,3) lvs by simp
  from free_and_overcommitted(2) [OF this] have "is_overcommitted ?vg = Inr (?a < ?b + ?n)"
    by (simp add: number_of_extents_def ac_simps)
  then show ?thesis using s grant(1) [OF n] ab by auto
qed

theorem resized_lv_fits_witness:
  "\<exists>vg'. set_lv_size 42 4278190080 demo_vg = Inr vg' \<and> is_overcommitted vg' = Inr False"
proof -
  let ?lv = "hd (vg_lvs demo_vg)"
  let ?any = "\<lparr>resize_ok = True, reasons = 0, min_size = 0, max_size = - 1, ri_block_size = 1\<rparr>"
  let ?ri = "\<lparr>resize_ok = True, reasons = 0, min_size = 4194304, max_size = 4278190080, ri_block_size = 4194304\<rparr>"
  have e: "get_extent_size demo_vg = 4194304" "number_of_extents demo_vg = 1024"
    "r_block_size (lv_region ?lv) = 4194304" "lv_type ?lv = NORMAL" "lv_sid ?lv = 42" by code_simp+
  have h: "?lv \<in> set (vg_lvs demo_vg)" "distinct (map lv_sid (vg_lvs demo_vg))" by (simp_all add: demo_vg_def)
  have d: "detect_resize_info ?any demo_vg ?lv = Inr ?ri" by code_simp
  have "\<exists>vg'. set_lv_size (lv_sid ?lv) 4278190080 demo_vg = Inr vg' \<and> is_overcommitted vg' = Inr False"
    by (rule resized_lv_fits [OF h e(4) _ _ d]) (simp_all add: e)
  then show ?thesis unfolding e(5) .
qed

section \<open>Thin pools\<close>

lemma unat_mult_no_wrap:
  fixes a b :: u64
  assumes "unat a * unat b < 2 ^ 64"
  shows "unat (a * b) = unat a * unat b"
  using assms by (intro iffD1 [OF unat_mult_lem]) simp

lemma unat_clamp: "lo \<le> hi \<Longrightarrow> unat (clamp v lo hi) = min (max (unat v) (unat lo)) (unat hi)"
  by (auto simp: clamp_def word_le_nat_alt word_less_nat_alt)

lemma unit_values:
  "unat (64 * KiB) = 65536" "unat (1 * GiB) = 1073741824" "unat (2 * MiB) = 2097152" "unat (16 * GiB) = 17179869184"
  "64 * KiB \<le> 1 * GiB" "2 * MiB \<le> 16 * GiB"
  by (simp_all add: KiB_def MiB_def GiB_def)

lemma default_chunk_size_bounds:
  assumes "default_chunk_size s = Inr c"
  shows "65536 \<le> unat c" and "unat c \<le> 1073741824"
proof -
  from assms obtain t where "c = clamp t (64 * KiB) (1 * GiB)"
    by (auto simp: default_chunk_size_def result_simps)
  then have "unat c = min (max (unat t) 65536) 1073741824"
    using unat_clamp [OF unit_values(5), of t] unit_values by simp
  then show "65536 \<le> unat c" and "unat c \<le> 1073741824" by simp_all
qed

text \<open>The size of the metadata as a natural number: it grows with the size of the pool.\<close>

definition metadata_nat :: "nat \<Rightarrow> nat \<Rightarrow> nat \<Rightarrow> nat" where
  "metadata_nat s c e = min (max (up_to e (s div c * 64)) 2097152) 17179869184"

lemma up_to_mono: "0 < e \<Longrightarrow> x \<le> y \<Longrightarrow> up_to e x \<le> up_to e y"
  by (intro up_to_le up_to_dvd order_trans [OF _ up_to_ge])

lemma metadata_nat_mono: "0 < e \<Longrightarrow> s \<le> s' \<Longrightarrow> metadata_nat s c e \<le> metadata_nat s' c e"
  unfolding metadata_nat_def by (intro min.mono max.mono up_to_mono mult_le_mono1 div_le_mono order_refl)

lemma up_to_fits:
  assumes "0 < g" and "g < 2 ^ 64" and "x < 2 ^ 60"
  shows "up_to g x < 2 ^ 64"
proof (cases "x \<le> g")
  case True
  then have "up_to g x \<le> g" by (intro up_to_le [OF assms(1)]) simp_all
  then show ?thesis using assms(2) by (rule le_less_trans)
next
  case False
  then show ?thesis using up_to_less [OF assms(1), of x] assms(3) by simp
qed

lemma default_metadata_size_eq:
  assumes "65536 \<le> unat c" and "e \<noteq> 0"
  shows "\<exists>m. default_metadata_size s c e = Inr m \<and> unat m = metadata_nat (unat s) (unat c) (unat e)"
proof -
  have c0: "c \<noteq> 0" using assms(1) by auto
  have "unat s div unat c \<le> unat s div 65536" using assms(1) by (intro div_le_mono2) simp_all
  also have "\<dots> < 2 ^ 48" using unat_lt64 [of s] by (simp add: less_mult_imp_div_less)
  finally have q: "unat (s div c) * 64 < 2 ^ 60" by (simp add: unat_div)
  have "unat (s div c) * unat (64 :: u64) < 2 ^ 64" using q by simp
  then have u: "unat (s div c * 64) = unat s div unat c * 64"
    using unat_mult_no_wrap [of "s div c" 64] by (simp add: unat_div)
  have e0: "0 < unat e" using assms(2) by (simp add: unat_gt_0)
  have "up_to (unat e) (unat (s div c * 64)) < 2 ^ 64"
    by (rule up_to_fits [OF e0]) (use q u in \<open>simp_all add: unat_div\<close>)
  from round_up_spec [OF assms(2) this] obtain t where
    t: "round_up (s div c * 64) e = Inr t" "unat t = up_to (unat e) (unat s div unat c * 64)"
    unfolding u by blast
  have "unat (clamp t (2 * MiB) (16 * GiB)) = metadata_nat (unat s) (unat c) (unat e)"
    using unat_clamp [OF unit_values(6), of t] t(2) unit_values by (simp add: metadata_nat_def)
  then show ?thesis using c0 t(1) by (simp add: default_metadata_size_def divide_def)
qed

lemma used_extents_new_pool:
  assumes "number_of_used_extents [] vg = Inr u" and "lv_type lv = THIN_POOL" and "lv_system_size lv = None"
    and "lv_default_metadata_size lv = Inr m" and "get_extent_size vg \<noteq> 0"
    and "unat (lv_used_extents lv) + 2 * unat (m div get_extent_size vg) < 2 ^ 64"
  shows "\<exists>d. number_of_used_extents [] (vg\<lparr>vg_lvs := vg_lvs vg @ [lv]\<rparr>) = Inr (u + d) \<and>
    unat d \<le> unat (lv_used_extents lv) + 2 * unat (m div get_extent_size vg)"
proof -
  let ?n = "lv_used_extents lv" and ?k = "m div get_extent_size vg"
  from used_extents_new [OF assms(1), of lv] obtain ret spare where u: "u = ret + spare"
    and e: "number_of_used_extents [] (vg\<lparr>vg_lvs := vg_lvs vg @ [lv]\<rparr>) =
      emap (\<lambda>(ret, spare). ret + spare) (used_step [] (get_extent_size vg) lv (ret, spare))"
    by blast
  let ?x = "max spare ?k - spare"
  have "used_step [] (get_extent_size vg) lv (ret, spare) = Inr (ret + ?n + ?k, max spare ?k)"
    using assms(2-5) by (simp add: used_step_def divide_def Let_def)
  then have used: "number_of_used_extents [] (vg\<lparr>vg_lvs := vg_lvs vg @ [lv]\<rparr>) = Inr (u + (?n + ?k + ?x))"
    unfolding e u by (simp add: algebra_simps)
  have x: "unat ?x \<le> unat ?k"
    by (simp add: unat_sub_no_wrap unat_max)
  have nk: "unat (?n + ?k) = unat ?n + unat ?k" using assms(6) by (intro unat_add_no_wrap) simp
  have "unat (?n + ?k + ?x) = unat ?n + unat ?k + unat ?x"
    using assms(6) x nk by (subst unat_add_no_wrap) simp_all
  then have "unat (?n + ?k + ?x) \<le> unat ?n + 2 * unat ?k" using x by simp
  then show ?thesis using used by blast
qed

text \<open>
  C33: A new thin pool of at most the size the volume group offers does not overcommit the group
  with its data and both copies of its metadata, provided its default chunk size is the one of
  all the free space.
\<close>

theorem new_thin_pool_fits:
  assumes "get_extent_size vg \<noteq> 0"
    and "unat (number_of_extents vg) * unat (get_extent_size vg) < 2 ^ 64"
    and "number_of_free_extents [] vg = Inr f" and "max_size_for_lvm_lv THIN_POOL [] vg = Inr mx"
    and "s \<le> mx" and "s \<noteq> 0"
    and "default_chunk_size (s div get_extent_size vg * get_extent_size vg) =
      default_chunk_size (f * get_extent_size vg)"
  shows "\<exists>vg'. create_lvm_lv sid name THIN_POOL s vg = Inr vg' \<and> is_overcommitted vg' = Inr False"
proof -
  let ?e = "get_extent_size vg" and ?n = "s div get_extent_size vg" and ?a = "number_of_extents vg"
  let ?E = "unat (get_extent_size vg)"
  from assms(4) obtain c m where c: "default_chunk_size (f * ?e) = Inr c"
    and m: "default_metadata_size (f * ?e) c ?e = Inr m" and mx: "mx = (if f * ?e \<le> 2 * m then 0 else f * ?e - 2 * m)"
    using assms(3) by (auto simp: max_size_for_lvm_lv_def result_simps Let_def)
  have "s \<le> f * ?e - 2 * m" "\<not> f * ?e \<le> 2 * m"
    using assms(5,6) unfolding mx by (auto split: if_splits)
  note bounds = default_chunk_size_bounds [OF c]
  obtain m1 where m1: "default_metadata_size (f * ?e) c ?e = Inr m1"
    "unat m1 = metadata_nat (unat (f * ?e)) (unat c) ?E"
    using default_metadata_size_eq [OF bounds(1) assms(1)] by blast
  then have um: "unat m = metadata_nat (unat (f * ?e)) (unat c) ?E" using m by simp
  obtain m' where m': "default_metadata_size (?n * ?e) c ?e = Inr m'"
    "unat m' = metadata_nat (unat (?n * ?e)) (unat c) ?E"
    using default_metadata_size_eq [OF bounds(1) assms(1)] by blast
  have fe: "unat f * ?E < 2 ^ 64"
    by (rule le_less_trans [OF mult_le_mono1 [OF free_le_extents [OF assms(3)]] assms(2)])
  then have ufe: "unat (f * ?e) = unat f * ?E" by (rule unat_mult_no_wrap)
  have m16: "unat m \<le> 17179869184" unfolding um metadata_nat_def by simp
  then have "unat (2 * m) = 2 * unat m" using unat_mult_no_wrap [of 2 m] by simp
  then have "2 * unat m < unat f * ?E" "unat s \<le> unat f * ?E - 2 * unat m"
    using \<open>s \<le> f * ?e - 2 * m\<close> \<open>\<not> f * ?e \<le> 2 * m\<close> ufe
    by (simp_all add: word_le_nat_alt unat_sub_no_wrap)
  then have total: "unat s + 2 * unat m \<le> unat f * ?E" by linarith
  have ns: "unat ?n * ?E \<le> unat s" by (simp add: unat_div)
  then have "unat ?n * ?E < 2 ^ 64" by (rule below_64)
  then have une: "unat (?n * ?e) = unat ?n * ?E" by (rule unat_mult_no_wrap)
  have E0: "0 < ?E" using assms(1) by (simp add: unat_gt_0)
  have "unat m' \<le> unat m"
    unfolding um m'(2) une ufe using ns total by (intro metadata_nat_mono [OF E0]) linarith
  moreover have "unat (m' div ?e) * ?E \<le> unat m'" by (simp add: unat_div)
  ultimately have "(unat ?n + 2 * unat (m' div ?e)) * ?E \<le> unat f * ?E"
    using ns total by (simp add: algebra_simps)
  then have d: "unat ?n + 2 * unat (m' div ?e) \<le> unat f" using E0 by simp
  let ?lv = "lv_set_region \<lparr>r_start = 0, r_length = ?n, r_block_size = ?e\<rparr> (lvm_lv_new sid name THIN_POOL)"
  let ?vg = "vg\<lparr>vg_lvs := vg_lvs vg @ [?lv]\<rparr>"
  have lv: "lv_type ?lv = THIN_POOL" "lv_system_size ?lv = None" "lv_used_extents ?lv = ?n"
    by (simp_all add: lvm_lv_new_def lv_set_region_def)
  have meta: "lv_default_metadata_size ?lv = Inr m'"
    using assms(1,7) c m'(1)
    by (simp add: lv_default_metadata_size_def lv_get_size_def to_bytes_def lv_set_region_def lvm_lv_new_def)
  obtain u where u: "number_of_used_extents [] vg = Inr u"
    using assms(3) by (auto simp: number_of_free_extents_def result_simps)
  obtain x where x: "number_of_used_extents [] ?vg = Inr (u + x)" "unat x \<le> unat ?n + 2 * unat (m' div ?e)"
    using used_extents_new_pool [OF u lv(1,2) meta assms(1)] below_64 [OF d] unfolding lv(3) by blast
  let ?b = "u + vg_reserved_extents vg"
  have fo: "f = free_of ?a ?b" using assms(3) free_and_overcommitted(1) [OF u] by simp
  have g: "unat x \<le> unat (free_of ?a ?b)" using x(2) d unfolding fo [symmetric] by linarith
  have "0 < unat f" using total assms(6) by (cases "unat f") (simp_all add: unat_eq_0)
  then have "\<not> ?a < ?b" unfolding fo unat_free_of by (simp add: word_less_nat_alt)
  then have "is_overcommitted ?vg = Inr False"
    using free_and_overcommitted(2) [OF x(1)] grant(1) [OF g] by (simp add: number_of_extents_def ac_simps)
  then show ?thesis using create_lvm_lv_eq [OF assms(1)] by blast
qed

theorem new_thin_pool_fits_witness:
  "\<exists>vg'. create_lvm_lv 44 ''pool'' THIN_POOL 3196059648 demo_vg = Inr vg' \<and> is_overcommitted vg' = Inr False"
proof -
  have e: "get_extent_size demo_vg = 4194304" "number_of_extents demo_vg = 1024" by code_simp+
  have f: "number_of_free_extents [] demo_vg = Inr 764" by code_simp
  have m: "max_size_for_lvm_lv THIN_POOL [] demo_vg = Inr 3196059648" by code_simp
  have "default_chunk_size (3196059648 div 4194304 * 4194304) = default_chunk_size (764 * 4194304)" by code_simp
  then have c: "default_chunk_size (3196059648 div get_extent_size demo_vg * get_extent_size demo_vg) =
      default_chunk_size (764 * get_extent_size demo_vg)"
    unfolding e .
  show ?thesis
    by (rule new_thin_pool_fits [OF _ _ f m order_refl _ c]) (simp_all add: e)
qed

text \<open>
  The free space is just above the size from which on the default chunk size is doubled: the pool
  of the greatest size has chunks half as large, and twice the metadata that was subtracted.
\<close>

definition pool_vg :: lvm_vg where
  "pool_vg = demo_vg\<lparr>vg_region := \<lparr>r_start = 0, r_length = 33029, r_block_size = 4194304\<rparr>\<rparr>"

text \<open>
  The greatest size that is offered for a thin pool can overcommit the volume group: with 32769 free
  extents of 4 MiB the pool of the offered size takes 32799.
\<close>

theorem offered_thin_pool_overcommits:
  "\<exists>s vg'. number_of_free_extents [] pool_vg = Inr 32769 \<and> is_overcommitted pool_vg = Inr False \<and>
    max_size_for_lvm_lv THIN_POOL [] pool_vg = Inr s \<and> create_lvm_lv 44 ''pool'' THIN_POOL s pool_vg = Inr vg' \<and>
    is_overcommitted vg' = Inr True"
proof -
  have s: "max_size_for_lvm_lv THIN_POOL [] pool_vg = Inr 137300541440" by code_simp
  obtain vg' where c: "create_lvm_lv 44 ''pool'' THIN_POOL 137300541440 pool_vg = Inr vg'"
    by (cases "create_lvm_lv 44 ''pool'' THIN_POOL 137300541440 pool_vg") (code_simp, blast)
  have "ebind (create_lvm_lv 44 ''pool'' THIN_POOL 137300541440 pool_vg) is_overcommitted = Inr True" by code_simp
  then have "is_overcommitted vg' = Inr True" unfolding c by simp
  moreover have "number_of_free_extents [] pool_vg = Inr 32769" "is_overcommitted pool_vg = Inr False" by code_simp+
  ultimately show ?thesis using s c by blast
qed

end
