(* ===== verification/LvmGroup.thy ===== *)
theory LvmGroup
  imports Lvm
begin

text \<open>
  A volume group under its operations: the extent size is always valid, the extents are those of the
  physical volumes, every logical volume that is no thin volume counts in the extents of its group,
  and a volume that is removed takes its thin volumes and snapshots with it.
\<close>

section \<open>Loops over the volumes\<close>

lemma each_all2: "each f xs = Inr ys \<Longrightarrow> list_all2 (\<lambda>x y. f x = Inr y) xs ys"
proof (induction xs arbitrary: ys)
  case Nil
  then show ?case by simp
next
  case (Cons x xs)
  from Cons.prems obtain y zs where "f x = Inr y" "each f xs = Inr zs" "ys = y # zs"
    by (auto simp: result_simps)
  then show ?case using Cons.IH [of zs] by simp
qed

lemma each_set:
  assumes "each f xs = Inr ys" and "y \<in> set ys"
  shows "\<exists>x \<in> set xs. f x = Inr y"
  using each_all2 [OF assms(1)] assms(2) by (auto simp: list_all2_conv_all_nth in_set_conv_nth) (metis nth_mem)

lemma each_total:
  assumes "\<forall>x \<in> set xs. \<exists>y. f x = Inr y"
  shows "\<exists>ys. each f xs = Inr ys"
  using assms by (induction xs) auto

lemma efold_total:
  assumes "\<forall>x \<in> set xs. \<forall>s. \<exists>t. f x s = Inr t"
  shows "\<exists>t. efold f xs s = Inr t"
  using assms
proof (induction xs arbitrary: s)
  case Nil
  then show ?case by simp
next
  case (Cons x xs)
  obtain t where "f x s = Inr t" using Cons.prems [THEN bspec, of x] by auto
  then show ?case using Cons by simp
qed

lemma sum_case_Inr: "(case m of Inl e \<Rightarrow> False | Inr v \<Rightarrow> True) \<Longrightarrow> \<exists>v. m = Inr v"
  by (cases m) simp_all

section \<open>The extents of the physical volumes\<close>

definition pv_extents :: "u64 \<Rightarrow> lvm_pv list \<Rightarrow> u64 result" where
  "pv_extents e pvs = efold (\<lambda>pv n. ebind (get_usable_size pv) (\<lambda>u.
     if 0 < u then emap ((+) n) (divide u e) else Inr n)) pvs 0"

lemma calculate_region_eq:
  "calculate_region vg = emap (\<lambda>n. vg\<lparr>vg_region := (vg_region vg)\<lparr>r_length := n\<rparr>\<rparr>)
     (pv_extents (get_extent_size vg) (vg_pvs vg))"
  by (cases "pv_extents (get_extent_size vg) (vg_pvs vg)")
    (simp_all add: calculate_region_def pv_extents_def get_extent_size_def)

definition region_is_calculated :: "lvm_vg \<Rightarrow> bool" where
  "region_is_calculated vg \<longleftrightarrow> pv_extents (get_extent_size vg) (vg_pvs vg) = Inr (number_of_extents vg)"

lemma calculate_region_calculates:
  assumes "calculate_region vg = Inr vg'"
  shows "region_is_calculated vg'" and "get_extent_size vg' = get_extent_size vg"
    and "vg_pvs vg' = vg_pvs vg" and "vg_lvs vg' = vg_lvs vg" and "vg_thins vg' = vg_thins vg"
    and "vg_snapshots vg' = vg_snapshots vg"
proof -
  from assms obtain n where "pv_extents (get_extent_size vg) (vg_pvs vg) = Inr n"
    and "vg' = vg\<lparr>vg_region := (vg_region vg)\<lparr>r_length := n\<rparr>\<rparr>"
    by (auto simp: calculate_region_eq result_simps)
  then show "region_is_calculated vg'" "get_extent_size vg' = get_extent_size vg" "vg_pvs vg' = vg_pvs vg"
    "vg_lvs vg' = vg_lvs vg" "vg_thins vg' = vg_thins vg" "vg_snapshots vg' = vg_snapshots vg"
    by (simp_all add: region_is_calculated_def get_extent_size_def number_of_extents_def)
qed

lemma region_is_calculated_lvs [simp]:
  "region_is_calculated (vg\<lparr>vg_lvs := lvs\<rparr>) = region_is_calculated vg"
  "region_is_calculated (vg\<lparr>vg_thins := thins\<rparr>) = region_is_calculated vg"
  "get_extent_size (vg\<lparr>vg_lvs := lvs\<rparr>) = get_extent_size vg"
  "get_extent_size (vg\<lparr>vg_thins := thins\<rparr>) = get_extent_size vg"
  by (simp_all add: region_is_calculated_def get_extent_size_def number_of_extents_def)

lemma calculate_region_total:
  assumes "get_extent_size vg \<noteq> 0" and "\<forall>pv \<in> set (vg_pvs vg). r_block_size (pv_region pv) \<noteq> 0"
  shows "\<exists>vg'. calculate_region vg = Inr vg'"
proof -
  have "\<exists>n. pv_extents (get_extent_size vg) (vg_pvs vg) = Inr n"
    unfolding pv_extents_def using assms
    by (intro efold_total) (simp add: get_usable_size_def to_bytes_def divide_def)
  then show ?thesis unfolding calculate_region_eq by auto
qed

section \<open>Valid extent sizes\<close>

definition valid_extent_size :: "u64 \<Rightarrow> bool" where
  "valid_extent_size n \<longleftrightarrow> (\<exists>k. 17 \<le> k \<and> k < 64 \<and> unat n = 2 ^ k)"

lemma power_of_two_values: "is_power_of_two n \<longleftrightarrow> (\<exists>k < 64. unat n = 2 ^ k)"
proof
  assume "is_power_of_two n"
  then obtain k where "k < 64" "n = push_bit k 1" using is_power_of_two_iff by blast
  then show "\<exists>k < 64. unat n = 2 ^ k" using unat_push_bit_one by blast
next
  assume "\<exists>k < 64. unat n = 2 ^ k"
  then obtain k where k: "k < 64" "unat n = 2 ^ k" by blast
  then have "n = push_bit k 1" using unat_push_bit_one [OF k(1)] by (metis word_unat_eq_iff)
  then show "is_power_of_two n" using k(1) is_power_of_two_iff by blast
qed

lemma multiple_of_128_KiB: "is_multiple_of n (128 * KiB) = Inr (131072 dvd unat n)"
proof -
  have "128 * KiB \<noteq> 0" "unat (128 * KiB) = 131072" by (simp_all add: KiB_def)
  then show ?thesis by (simp add: is_multiple_of_def word_unat_eq_iff unat_mod dvd_eq_mod_eq_0)
qed

lemma valid_extent_size_iff: "is_power_of_two n \<and> 131072 dvd unat n \<longleftrightarrow> valid_extent_size n"
proof -
  have p: "(131072 :: nat) = 2 ^ 17" by simp
  have "(2 :: nat) ^ 17 dvd 2 ^ k \<longleftrightarrow> 17 \<le> k" for k :: nat
    by (rule dvd_power_iff_le) simp
  then show ?thesis
    unfolding power_of_two_values valid_extent_size_def p by metis
qed

lemma valid_extent_size_nonzero: "valid_extent_size n \<Longrightarrow> n \<noteq> 0"
  by (auto simp: valid_extent_size_def)

text \<open>What the change of the extent size does, when it is accepted.\<close>

lemma set_extent_size_steps:
  assumes "set_extent_size n vg = Inr vg'"
  obtains v lvs where "valid_extent_size n"
    and "calculate_region (vg\<lparr>vg_region := (vg_region vg)\<lparr>r_block_size := n\<rparr>\<rparr>) = Inr v"
    and "each (set_lv_extent_size (get_extent_size vg) n) (vg_lvs vg) = Inr lvs" and "vg' = v\<lparr>vg_lvs := lvs\<rparr>"
proof -
  have ok: "is_power_of_two n" "131072 dvd unat n"
    using assms by (auto simp: set_extent_size_def Let_def multiple_of_128_KiB split: if_splits)
  then have v: "valid_extent_size n" using valid_extent_size_iff by blast
  then have "region_set_block_size n (vg_region vg) = Inr ((vg_region vg)\<lparr>r_block_size := n\<rparr>)"
    using valid_extent_size_nonzero by (simp add: region_set_block_size_def)
  then obtain w lvs where w: "calculate_region (vg\<lparr>vg_region := (vg_region vg)\<lparr>r_block_size := n\<rparr>\<rparr>) = Inr w"
    and lvs: "each (set_lv_extent_size (get_extent_size vg) n) (vg_lvs w) = Inr lvs" "vg' = w\<lparr>vg_lvs := lvs\<rparr>"
    using assms ok
    by (auto simp: set_extent_size_def Let_def multiple_of_128_KiB result_simps get_extent_size_def)
  have "vg_lvs w = vg_lvs vg" using calculate_region_calculates(4) [OF w] by simp
  then show thesis using that [OF v w] lvs by simp
qed

lemma set_lv_extent_size_total:
  "n \<noteq> 0 \<Longrightarrow> \<exists>lv'. set_lv_extent_size old n lv = Inr lv'"
  by (simp add: set_lv_extent_size_def region_set_block_size_def divide_def)

text \<open>
  The extent size of a volume group can be set exactly to the powers of two from 128 KiB on;
  every other one is refused as an invalid extent size, before anything is changed.
\<close>

theorem extent_size_accepted:
  assumes "\<forall>pv \<in> set (vg_pvs vg). r_block_size (pv_region pv) \<noteq> 0"
  shows "case set_extent_size n vg of
      Inr vg' \<Rightarrow> valid_extent_size n \<and> get_extent_size vg' = n
    | Inl e \<Rightarrow> \<not> valid_extent_size n \<and> (\<exists>text. e = InvalidExtentSize text)"
proof (cases "set_extent_size n vg")
  case (Inr vg')
  then obtain v lvs where "valid_extent_size n" "vg' = v\<lparr>vg_lvs := lvs\<rparr>"
    "calculate_region (vg\<lparr>vg_region := (vg_region vg)\<lparr>r_block_size := n\<rparr>\<rparr>) = Inr v"
    by (rule set_extent_size_steps)
  then have "valid_extent_size n \<and> get_extent_size vg' = n"
    using calculate_region_calculates(2) by (simp add: get_extent_size_def)
  then show ?thesis using Inr by simp
next
  case (Inl e)
  have bad: "\<not> (is_power_of_two n \<and> 131072 dvd unat n)"
  proof
    assume ok: "is_power_of_two n \<and> 131072 dvd unat n"
    then have n0: "n \<noteq> 0" using valid_extent_size_iff valid_extent_size_nonzero by blast
    let ?vg = "vg\<lparr>vg_region := (vg_region vg)\<lparr>r_block_size := n\<rparr>\<rparr>"
    obtain v where v: "calculate_region ?vg = Inr v"
      using calculate_region_total [of ?vg] assms n0 by (auto simp: get_extent_size_def)
    have "set_extent_size n vg = ebind (calculate_region ?vg) (\<lambda>w.
        ebind (each (set_lv_extent_size (r_block_size (vg_region vg)) n) (vg_lvs w)) (\<lambda>lvs. Inr (w\<lparr>vg_lvs := lvs\<rparr>)))"
      using ok n0
      by (simp only: set_extent_size_def Let_def multiple_of_128_KiB region_set_block_size_def ebind_Inr
        if_False if_True simp_thms)
    moreover have "\<forall>lv \<in> set (vg_lvs v). \<exists>y. set_lv_extent_size (r_block_size (vg_region vg)) n lv = Inr y"
      by (intro ballI set_lv_extent_size_total [OF n0])
    from each_total [OF this] obtain lvs where
      "each (set_lv_extent_size (r_block_size (vg_region vg)) n) (vg_lvs v) = Inr lvs" ..
    ultimately show False using Inl by (simp add: v)
  qed
  then have "\<exists>text. e = InvalidExtentSize text"
    using Inl by (cases "is_power_of_two n") (auto simp: set_extent_size_def multiple_of_128_KiB)
  then show ?thesis using Inl bad valid_extent_size_iff by auto
qed

theorem extent_size_accepted_witness:
  "(\<exists>text. set_extent_size 3145728 \<lparr>vg_name = ''vg'', vg_region = \<lparr>r_start = 0, r_length = 0, r_block_size = 4194304\<rparr>,
     vg_reserved_extents = 0, vg_pvs = [], vg_lvs = [], vg_thins = [], vg_snapshots = []\<rparr> = Inl (InvalidExtentSize text)) \<and>
   \<not> valid_extent_size 3145728"
proof -
  let ?vg = "\<lparr>vg_name = ''vg'', vg_region = \<lparr>r_start = 0, r_length = 0, r_block_size = 4194304\<rparr>,
     vg_reserved_extents = 0, vg_pvs = [], vg_lvs = [], vg_thins = [], vg_snapshots = []\<rparr>"
  have e: "set_extent_size 3145728 ?vg = Inl (InvalidExtentSize ''extent size not a power of two'')" by code_simp
  have "\<forall>pv \<in> set (vg_pvs ?vg). r_block_size (pv_region pv) \<noteq> 0" by simp
  from extent_size_accepted [OF this, of 3145728] show ?thesis unfolding e by simp
qed

section \<open>The sizes of the logical volumes\<close>

text \<open>
  After a change of the extent size every logical volume has the greatest size that is not above
  its old one and a multiple of the new extent size.
\<close>

theorem extent_size_keeps_sizes:
  assumes "set_extent_size n vg = Inr vg'"
    and "\<forall>lv \<in> set (vg_lvs vg). unat (r_length (lv_region lv)) * unat (get_extent_size vg) < 2 ^ 64"
  shows "list_all2 (\<lambda>lv lv'. lv_sid lv' = lv_sid lv \<and> r_block_size (lv_region lv') = n \<and>
      unat (r_length (lv_region lv')) * unat n =
        unat (r_length (lv_region lv)) * unat (get_extent_size vg) -
        unat (r_length (lv_region lv)) * unat (get_extent_size vg) mod unat n)
    (vg_lvs vg) (vg_lvs vg')"
proof -
  obtain v lvs where n: "valid_extent_size n" and lvs: "vg' = v\<lparr>vg_lvs := lvs\<rparr>"
    and e: "each (set_lv_extent_size (get_extent_size vg) n) (vg_lvs vg) = Inr lvs"
    by (rule set_extent_size_steps [OF assms(1)])
  have n0: "n \<noteq> 0" using n by (rule valid_extent_size_nonzero)
  have "lv_sid lv' = lv_sid lv \<and> r_block_size (lv_region lv') = n \<and>
      unat (r_length (lv_region lv')) * unat n =
        unat (r_length (lv_region lv)) * unat (get_extent_size vg) -
        unat (r_length (lv_region lv)) * unat (get_extent_size vg) mod unat n"
    if lv: "lv \<in> set (vg_lvs vg)" and s: "set_lv_extent_size (get_extent_size vg) n lv = Inr lv'" for lv lv'
  proof -
    let ?l = "r_length (lv_region lv)" and ?e = "get_extent_size vg"
    have "lv' = lv_set_region ((lv_region lv)\<lparr>r_block_size := n, r_length := ?l * ?e div n\<rparr>) lv"
      using s n0 by (simp add: set_lv_extent_size_def region_set_block_size_def divide_def)
    then have lv': "lv_sid lv' = lv_sid lv" "lv_region lv' = (lv_region lv)\<lparr>r_block_size := n, r_length := ?l * ?e div n\<rparr>"
      by (simp_all add: lv_set_region_def Let_def)
    have "unat (?l * ?e) = unat ?l * unat ?e"
      using assms(2) lv by (intro iffD1 [OF unat_mult_lem]) simp
    then have "unat (?l * ?e div n) * unat n = unat ?l * unat ?e - unat ?l * unat ?e mod unat n"
      by (simp add: unat_div minus_mod_eq_div_mult)
    then show ?thesis using lv' by simp
  qed
  then have "list_all2 (\<lambda>lv lv'. lv_sid lv' = lv_sid lv \<and> r_block_size (lv_region lv') = n \<and>
      unat (r_length (lv_region lv')) * unat n =
        unat (r_length (lv_region lv)) * unat (get_extent_size vg) -
        unat (r_length (lv_region lv)) * unat (get_extent_size vg) mod unat n) (vg_lvs vg) lvs"
    using each_all2 [OF e] by (rule list.rel_mono_strong [rotated])
  then show ?thesis by (simp add: lvs)
qed

theorem extent_size_keeps_sizes_witness:
  "\<exists>vg'. set_extent_size 8388608 \<lparr>vg_name = ''vg'', vg_region = \<lparr>r_start = 0, r_length = 0, r_block_size = 4194304\<rparr>,
     vg_reserved_extents = 0, vg_pvs = [], vg_lvs = [lvm_lv_new 42 ''a'' NORMAL \<lparr>lv_region := \<lparr>r_start = 0, r_length = 5, r_block_size = 4194304\<rparr>\<rparr>],
     vg_thins = [], vg_snapshots = []\<rparr> = Inr vg' \<and> map (\<lambda>lv. unat (r_length (lv_region lv)) * 8388608) (vg_lvs vg') = [2 * 8388608]"
proof -
  let ?lv = "lvm_lv_new 42 ''a'' NORMAL \<lparr>lv_region := \<lparr>r_start = 0, r_length = 5, r_block_size = 4194304\<rparr>\<rparr>"
  let ?vg = "\<lparr>vg_name = ''vg'', vg_region = \<lparr>r_start = 0, r_length = 0, r_block_size = 4194304\<rparr>,
     vg_reserved_extents = 0, vg_pvs = [], vg_lvs = [?lv], vg_thins = [], vg_snapshots = []\<rparr>"
  have "case set_extent_size 8388608 ?vg of Inl e \<Rightarrow> False | Inr v \<Rightarrow> True" by code_simp
  then have "\<exists>vg'. set_extent_size 8388608 ?vg = Inr vg'" by (rule sum_case_Inr)
  then obtain vg' where v: "set_extent_size 8388608 ?vg = Inr vg'" by blast
  have "\<forall>lv \<in> set (vg_lvs ?vg). unat (r_length (lv_region lv)) * unat (get_extent_size ?vg) < 2 ^ 64"
    by (simp add: get_extent_size_def)
  from extent_size_keeps_sizes [OF v this] obtain lv' where "vg_lvs vg' = [lv']"
    "unat (r_length (lv_region lv')) * 8388608 = 2 * 8388608"
    by (auto simp: list_all2_Cons1 get_extent_size_def)
  then show ?thesis using v by auto
qed

section \<open>All operations keep a volume group consistent\<close>

definition consistent_lv :: "u64 \<Rightarrow> lvm_lv \<Rightarrow> bool" where
  "consistent_lv e lv \<longleftrightarrow> r_start (lv_region lv) = 0 \<and> r_block_size (lv_region lv) = e \<and>
     (lv_type lv = THIN \<or> lv_used_extents lv = r_length (lv_region lv))"

text \<open>
  A thin volume has some valid extent size, which is not always the one of the group, see
  \<open>thin_keeps_extent_size\<close> below, and uses no extents of the group.
\<close>

definition consistent_thin :: "nat \<times> lvm_lv \<Rightarrow> bool" where
  "consistent_thin t \<longleftrightarrow> valid_extent_size (r_block_size (lv_region (snd t))) \<and>
     consistent_lv (r_block_size (lv_region (snd t))) (snd t) \<and>
     (lv_type (snd t) = THIN \<longrightarrow> lv_used_extents (snd t) = 0)"

text \<open>Every volume has its own sid; pools, origins and snapshots are volumes of the group.\<close>

definition vg_sids :: "lvm_vg \<Rightarrow> nat list" where
  "vg_sids vg = map lv_sid (vg_volumes vg)"

definition consistent_volumes :: "lvm_vg \<Rightarrow> bool" where
  "consistent_volumes vg \<longleftrightarrow> distinct (vg_sids vg) \<and> fst ` set (vg_thins vg) \<subseteq> set (vg_sids vg) \<and>
     set (vg_snapshots vg) \<subseteq> set (vg_sids vg) \<times> set (vg_sids vg)"

definition consistent_extents :: "lvm_vg \<Rightarrow> bool" where
  "consistent_extents vg \<longleftrightarrow> valid_extent_size (get_extent_size vg) \<and> region_is_calculated vg \<and>
     list_all (\<lambda>pv. r_block_size (pv_region pv) \<noteq> 0) (vg_pvs vg) \<and>
     list_all (consistent_lv (get_extent_size vg)) (vg_lvs vg) \<and> list_all consistent_thin (vg_thins vg)"

definition consistent_vg :: "lvm_vg \<Rightarrow> bool" where
  "consistent_vg vg \<longleftrightarrow> consistent_extents vg \<and> consistent_volumes vg"

text \<open>
  The operations on a volume, and those on a group. A block device has a region with a block size,
  as its constructor demands; a new device has a sid that no device has; thin volumes, snapshots and
  the volume that is removed are given as devices of the graph.
\<close>

inductive lv_step :: "lvm_lv \<Rightarrow> lvm_lv \<Rightarrow> bool" where
  size: "lv_set_size s lv = Inr lv' \<Longrightarrow> lv_step lv lv'"
| stripes: "set_stripes n lv = Inr lv' \<Longrightarrow> lv_step lv lv'"
| stripe_size: "set_stripe_size b lv = Inr lv' \<Longrightarrow> lv_step lv lv'"
| chunk_size: "set_chunk_size b lv = Inr lv' \<Longrightarrow> lv_step lv lv'"
| lv_rename: "lv_step lv (lv\<lparr>lv_name := name\<rparr>)"

inductive vg_step :: "lvm_vg \<Rightarrow> lvm_vg \<Rightarrow> bool" where
  extent: "set_extent_size n vg = Inr vg' \<Longrightarrow> vg_step vg vg'"
| add_pv: "add_lvm_pv r t children vg = Inr vg' \<Longrightarrow> r_block_size r \<noteq> 0 \<Longrightarrow> vg_step vg vg'"
| remove_pv: "remove_lvm_pv i vg = Inr vg' \<Longrightarrow> vg_step vg vg'"
| pv_resized: "parent_has_new_region i r vg = Inr vg' \<Longrightarrow> i < length (vg_pvs vg) \<Longrightarrow> r_block_size r \<noteq> 0 \<Longrightarrow>
    vg_step vg vg'"
| create_lv: "create_lvm_lv sid name t s vg = Inr vg' \<Longrightarrow> sid \<notin> set (vg_sids vg) \<Longrightarrow> vg_step vg vg'"
| create_thin: "create_thin_lv pool sid name t s vg = Inr vg' \<Longrightarrow> pool \<in> set (vg_sids vg) \<Longrightarrow>
    sid \<notin> set (vg_sids vg) \<Longrightarrow> vg_step vg vg'"
| create_snapshot: "origin \<in> set (vg_sids vg) \<Longrightarrow> snapshot \<in> set (vg_sids vg) \<Longrightarrow>
    vg_step vg (vg\<lparr>vg_snapshots := vg_snapshots vg @ [(origin, snapshot)]\<rparr>)"
| delete_lv: "sid \<in> set (vg_sids vg) \<Longrightarrow> vg_step vg (delete_lvm_lv sid vg)"
| resize_lv: "set_lv_size sid s vg = Inr vg' \<Longrightarrow> vg_step vg vg'"
| volume: "vg_lvs vg = xs @ lv # ys \<Longrightarrow> lv_step lv lv' \<Longrightarrow> vg_step vg (vg\<lparr>vg_lvs := xs @ lv' # ys\<rparr>)"
| thin_volume: "vg_thins vg = xs @ (pool, lv) # ys \<Longrightarrow> lv_step lv lv' \<Longrightarrow>
    vg_step vg (vg\<lparr>vg_thins := xs @ (pool, lv') # ys\<rparr>)"
| rename: "vg_step vg (vg\<lparr>vg_name := name\<rparr>)"
| reserved: "calculate_reserved_extents n vg = Inr vg' \<Longrightarrow> vg_step vg vg'"

inductive vg_reachable :: "lvm_vg \<Rightarrow> bool" where
  new: "lvm_vg_new name = Inr vg \<Longrightarrow> vg_reachable vg"
| step: "vg_reachable vg \<Longrightarrow> vg_step vg vg' \<Longrightarrow> vg_reachable vg'"

lemma consistent_lv_set_region:
  "consistent_lv e (lv_set_region r lv) \<longleftrightarrow> r_start r = 0 \<and> r_block_size r = e"
  by (auto simp: consistent_lv_def lv_set_region_def Let_def)

lemma consistent_extents_lvs:
  "consistent_extents vg \<Longrightarrow> list_all (consistent_lv (get_extent_size vg)) lvs \<Longrightarrow> consistent_extents (vg\<lparr>vg_lvs := lvs\<rparr>)"
  by (simp add: consistent_extents_def)

lemma consistent_extents_calculate_region:
  assumes "calculate_region vg = Inr vg'" and "valid_extent_size (get_extent_size vg)"
    and "list_all (\<lambda>pv. r_block_size (pv_region pv) \<noteq> 0) (vg_pvs vg)"
    and "list_all (consistent_lv (get_extent_size vg)) (vg_lvs vg)" and "list_all consistent_thin (vg_thins vg)"
  shows "consistent_extents vg'"
  using assms(2-5) calculate_region_calculates [OF assms(1)] by (simp add: consistent_extents_def)

lemma consistent_new_pvs:
  assumes "calculate_region (vg\<lparr>vg_pvs := pvs\<rparr>) = Inr vg'" and "consistent_extents vg"
    and "list_all (\<lambda>pv. r_block_size (pv_region pv) \<noteq> 0) pvs"
  shows "consistent_extents vg'"
proof -
  have e: "get_extent_size (vg\<lparr>vg_pvs := pvs\<rparr>) = get_extent_size vg" by (simp add: get_extent_size_def)
  show ?thesis
    by (rule consistent_extents_calculate_region [OF assms(1)])
      (use assms(2,3) in \<open>simp_all add: e consistent_extents_def\<close>)
qed

lemma consistent_extent:
  assumes "set_extent_size n vg = Inr vg'" and "consistent_extents vg"
  shows "consistent_extents vg'"
proof -
  obtain v lvs where n: "valid_extent_size n" and lvs: "vg' = v\<lparr>vg_lvs := lvs\<rparr>"
    and c: "calculate_region (vg\<lparr>vg_region := (vg_region vg)\<lparr>r_block_size := n\<rparr>\<rparr>) = Inr v"
    and e: "each (set_lv_extent_size (get_extent_size vg) n) (vg_lvs vg) = Inr lvs"
    by (rule set_extent_size_steps [OF assms(1)])
  note v = calculate_region_calculates [OF c]
  have ext: "get_extent_size v = n" using v(2) by (simp add: get_extent_size_def)
  have "consistent_lv n lv'" if "lv' \<in> set lvs" for lv'
  proof -
    obtain lv where lv: "lv \<in> set (vg_lvs vg)" "set_lv_extent_size (get_extent_size vg) n lv = Inr lv'"
      using each_set [OF e \<open>lv' \<in> set lvs\<close>] by blast
    have "r_start (lv_region lv) = 0"
      using lv(1) assms(2) by (auto simp: consistent_extents_def consistent_lv_def list_all_iff)
    then show ?thesis
      using lv(2) by (auto simp: set_lv_extent_size_def region_set_block_size_def divide_def result_simps
          consistent_lv_set_region split: if_splits)
  qed
  then show ?thesis using n v(1,3,5) ext assms(2) by (auto simp: consistent_extents_def lvs list_all_iff)
qed

lemma consistent_resize:
  assumes "set_lv_size sid s vg = Inr vg'" and "consistent_extents vg"
  shows "consistent_extents vg'"
proof -
  from assms(1) obtain lvs where e: "each (\<lambda>lv. if lv_sid lv = sid then lv_set_size s lv else Inr lv) (vg_lvs vg) = Inr lvs"
    and vg': "vg' = vg\<lparr>vg_lvs := lvs\<rparr>"
    by (auto simp: set_lv_size_def result_simps)
  have "consistent_lv (get_extent_size vg) lv'" if "lv' \<in> set lvs" for lv'
  proof -
    obtain lv where lv: "lv \<in> set (vg_lvs vg)" "(if lv_sid lv = sid then lv_set_size s lv else Inr lv) = Inr lv'"
      using each_set [OF e \<open>lv' \<in> set lvs\<close>] by blast
    have "consistent_lv (get_extent_size vg) lv" using lv(1) assms(2) by (auto simp: consistent_extents_def list_all_iff)
    show ?thesis
    proof (cases "lv_sid lv = sid")
      case True
      then show ?thesis
        using lv(2) \<open>consistent_lv _ lv\<close>
        by (auto simp: lv_set_size_def region_new_def result_simps consistent_lv_set_region split: if_splits)
          (simp_all add: consistent_lv_def)
    next
      case False
      then show ?thesis using lv(2) \<open>consistent_lv _ lv\<close> by simp
    qed
  qed
  then show ?thesis unfolding vg' by (intro consistent_extents_lvs [OF assms(2)]) (simp add: list_all_iff)
qed

text \<open>An operation on a volume keeps its sid and its kind, and the start and the extent size of its region.\<close>

lemma lv_step_keeps:
  assumes "lv_step lv lv'"
  shows "lv_sid lv' = lv_sid lv" and "lv_type lv' = lv_type lv"
    and "r_block_size (lv_region lv') = r_block_size (lv_region lv)"
    and "consistent_lv e lv \<Longrightarrow> consistent_lv e lv'"
    and "lv_type lv = THIN \<Longrightarrow> lv_used_extents lv' = lv_used_extents lv"
  using assms
  by (cases; auto simp: lv_set_size_def region_new_def set_stripes_def set_stripe_size_def set_chunk_size_def
      lv_set_region_def Let_def result_simps consistent_lv_def split: if_splits)+

lemma vg_step_consistent: "vg_step vg vg' \<Longrightarrow> consistent_extents vg \<Longrightarrow> consistent_extents vg'"
proof (induction rule: vg_step.induct)
  case (extent n vg vg')
  then show ?case by (rule consistent_extent)
next
  case (add_pv r t children vg vg')
  then obtain pv where c: "calculate_region (vg\<lparr>vg_pvs := vg_pvs vg @
      [calculate_pe_start (pv\<lparr>pv_region := r, pv_topology := t\<rparr>)]\<rparr>) = Inr vg'"
    by (auto simp: add_lvm_pv_def result_simps)
  show ?case
    by (rule consistent_new_pvs [OF c add_pv.prems])
      (use add_pv.prems add_pv.hyps(2) in \<open>simp add: consistent_extents_def calculate_pe_start_def\<close>)
next
  case (remove_pv i vg vg')
  then have c: "calculate_region (vg\<lparr>vg_pvs := take i (vg_pvs vg) @ drop (Suc i) (vg_pvs vg)\<rparr>) = Inr vg'"
    by (simp add: remove_lvm_pv_def split: if_splits)
  show ?case
    by (rule consistent_new_pvs [OF c remove_pv.prems])
      (use remove_pv.prems in \<open>auto simp: consistent_extents_def list_all_iff dest: in_set_takeD in_set_dropD\<close>)
next
  case (pv_resized i r vg vg')
  show ?case
    by (rule consistent_new_pvs [OF pv_resized.hyps(1) [unfolded parent_has_new_region_def] pv_resized.prems])
      (use pv_resized.prems pv_resized.hyps(3) in
        \<open>auto simp: consistent_extents_def list_all_iff dest: set_update_subset_insert [THEN subsetD]\<close>)
next
  case (create_lv sid name t s vg vg')
  then show ?case
    by (auto simp: create_lvm_lv_def result_simps Let_def region_new_def consistent_extents_def consistent_lv_set_region
        get_extent_size_def split: if_splits)
next
  case (create_thin pool sid name t s vg vg')
  then show ?case
    by (auto simp: create_thin_lv_def result_simps Let_def consistent_extents_def consistent_thin_def
        region_new_def get_extent_size_def lv_set_region_def lvm_lv_new_def consistent_lv_def split: if_splits)
next
  case (resize_lv sid s vg vg')
  then show ?case by (rule consistent_resize)
next
  case (create_snapshot origin vg snapshot)
  then show ?case by (simp add: consistent_extents_def region_is_calculated_def get_extent_size_def number_of_extents_def)
next
  case (delete_lv sid vg)
  then show ?case
    by (simp add: consistent_extents_def delete_lvm_lv_def Let_def region_is_calculated_def get_extent_size_def
        number_of_extents_def list_all_iff case_prod_unfold)
next
  case (volume vg xs lv ys lv')
  then show ?case by (auto simp: consistent_extents_def intro: lv_step_keeps(4))
next
  case (thin_volume vg xs pool lv ys lv')
  then show ?case
    using lv_step_keeps [OF thin_volume.hyps(2)] by (auto simp: consistent_extents_def consistent_thin_def)
next
  case (rename vg name)
  then show ?case by (simp add: consistent_extents_def region_is_calculated_def get_extent_size_def number_of_extents_def)
next
  case (reserved n vg vg')
  then show ?case
    by (auto simp: calculate_reserved_extents_def result_simps consistent_extents_def region_is_calculated_def
        get_extent_size_def number_of_extents_def)
qed

section \<open>The volumes\<close>

lemma vg_sids_eq: "vg_sids vg = map lv_sid (vg_lvs vg) @ map snd (map (\<lambda>(pool, lv). (pool, lv_sid lv)) (vg_thins vg))"
  by (simp add: vg_sids_def vg_volumes_def comp_def case_prod_unfold)

lemma consistent_volumes_same:
  assumes "map lv_sid (vg_lvs vg') = map lv_sid (vg_lvs vg)"
    and "map (\<lambda>(pool, lv). (pool, lv_sid lv)) (vg_thins vg') = map (\<lambda>(pool, lv). (pool, lv_sid lv)) (vg_thins vg)"
    and "vg_snapshots vg' = vg_snapshots vg"
  shows "consistent_volumes vg' = consistent_volumes vg"
proof -
  have pools: "fst ` set (vg_thins w) = fst ` set (map (\<lambda>(pool, lv). (pool, lv_sid lv)) (vg_thins w))" for w :: lvm_vg
    by force
  show ?thesis unfolding consistent_volumes_def pools vg_sids_eq assms by (rule refl)
qed

lemma each_sids:
  assumes "each f lvs = Inr lvs'" and "\<And>lv lv'. lv \<in> set lvs \<Longrightarrow> f lv = Inr lv' \<Longrightarrow> lv_sid lv' = lv_sid lv"
  shows "map lv_sid lvs' = map lv_sid lvs"
  using assms by (induction lvs arbitrary: lvs') (auto simp: result_simps)

lemma set_extent_size_sids:
  assumes "set_extent_size n vg = Inr vg'"
  shows "map lv_sid (vg_lvs vg') = map lv_sid (vg_lvs vg)" and "vg_thins vg' = vg_thins vg"
    and "vg_snapshots vg' = vg_snapshots vg"
proof -
  obtain v lvs where lvs: "vg' = v\<lparr>vg_lvs := lvs\<rparr>"
    and c: "calculate_region (vg\<lparr>vg_region := (vg_region vg)\<lparr>r_block_size := n\<rparr>\<rparr>) = Inr v"
    and e: "each (set_lv_extent_size (get_extent_size vg) n) (vg_lvs vg) = Inr lvs"
    by (rule set_extent_size_steps [OF assms(1)])
  have "map lv_sid lvs = map lv_sid (vg_lvs vg)"
    by (rule each_sids [OF e]) (auto simp: set_lv_extent_size_def result_simps lv_set_region_def Let_def)
  then show "map lv_sid (vg_lvs vg') = map lv_sid (vg_lvs vg)" "vg_thins vg' = vg_thins vg"
    "vg_snapshots vg' = vg_snapshots vg"
    using calculate_region_calculates [OF c] by (simp_all add: lvs)
qed

lemma set_lv_size_sids:
  assumes "set_lv_size sid s vg = Inr vg'"
  shows "map lv_sid (vg_lvs vg') = map lv_sid (vg_lvs vg)" and "vg_thins vg' = vg_thins vg"
    and "vg_snapshots vg' = vg_snapshots vg"
proof -
  from assms obtain lvs where e: "each (\<lambda>lv. if lv_sid lv = sid then lv_set_size s lv else Inr lv) (vg_lvs vg) = Inr lvs"
    and vg': "vg' = vg\<lparr>vg_lvs := lvs\<rparr>"
    by (auto simp: set_lv_size_def result_simps)
  have "map lv_sid lvs = map lv_sid (vg_lvs vg)"
    by (rule each_sids [OF e]) (auto simp: lv_set_size_def result_simps lv_set_region_def Let_def split: if_splits)
  then show "map lv_sid (vg_lvs vg') = map lv_sid (vg_lvs vg)" "vg_thins vg' = vg_thins vg"
    "vg_snapshots vg' = vg_snapshots vg" by (simp_all add: vg')
qed

text \<open>
  Removing a volume removes what can be reached from it: whatever is kept is not below anything that
  is removed. So no thin volume loses its pool.
\<close>

definition below_volume :: "nat \<Rightarrow> lvm_vg \<Rightarrow> nat set" where
  "below_volume sid vg = {x. (sid, x) \<in> (set (vg_below vg))\<^sup>*}"

lemma delete_lvm_lv_keeps:
  shows "vg_lvs (delete_lvm_lv sid vg) = filter (\<lambda>lv. lv_sid lv \<notin> below_volume sid vg) (vg_lvs vg)"
    and "vg_thins (delete_lvm_lv sid vg) = filter (\<lambda>(pool, lv). lv_sid lv \<notin> below_volume sid vg) (vg_thins vg)"
    and "vg_snapshots (delete_lvm_lv sid vg) =
      filter (\<lambda>(origin, snapshot). origin \<notin> below_volume sid vg \<and> snapshot \<notin> below_volume sid vg) (vg_snapshots vg)"
    and "vg_sids (delete_lvm_lv sid vg) = filter (\<lambda>x. x \<notin> below_volume sid vg) (vg_sids vg)"
proof -
  have "set (bfs (vg_below vg) [sid] [sid]) = below_volume sid vg"
    using bfs_from [of "vg_below vg" sid] by (simp add: below_volume_def)
  then show l: "vg_lvs (delete_lvm_lv sid vg) = filter (\<lambda>lv. lv_sid lv \<notin> below_volume sid vg) (vg_lvs vg)"
    and t: "vg_thins (delete_lvm_lv sid vg) = filter (\<lambda>(pool, lv). lv_sid lv \<notin> below_volume sid vg) (vg_thins vg)"
    and "vg_snapshots (delete_lvm_lv sid vg) =
      filter (\<lambda>(origin, snapshot). origin \<notin> below_volume sid vg \<and> snapshot \<notin> below_volume sid vg) (vg_snapshots vg)"
    by (simp_all add: delete_lvm_lv_def Let_def)
  show "vg_sids (delete_lvm_lv sid vg) = filter (\<lambda>x. x \<notin> below_volume sid vg) (vg_sids vg)"
    by (simp add: vg_sids_def vg_volumes_def l t filter_map comp_def case_prod_unfold)
qed

lemma delete_lvm_lv_consistent:
  assumes "consistent_volumes vg"
  shows "consistent_volumes (delete_lvm_lv sid vg)"
proof -
  have "pool \<notin> below_volume sid vg" if "(pool, lv) \<in> set (vg_thins vg)" "lv_sid lv \<notin> below_volume sid vg" for pool lv
  proof
    assume "pool \<in> below_volume sid vg"
    moreover have "(pool, lv_sid lv) \<in> set (vg_below vg)" using that(1) by (force simp: vg_below_def)
    ultimately have "lv_sid lv \<in> below_volume sid vg"
      unfolding below_volume_def mem_Collect_eq by (rule rtrancl_into_rtrancl)
    then show False using that(2) by simp
  qed
  moreover have "pool \<in> set (vg_sids vg)" if "(pool, lv) \<in> set (vg_thins vg)" for pool lv
    using assms that by (force simp: consistent_volumes_def)
  ultimately have "fst ` set (vg_thins (delete_lvm_lv sid vg)) \<subseteq> set (vg_sids (delete_lvm_lv sid vg))"
    unfolding delete_lvm_lv_keeps by (auto split: prod.splits)
  then show ?thesis
    using assms unfolding consistent_volumes_def by (auto simp: delete_lvm_lv_keeps(3,4))
qed

lemma new_volume_sid: "lv_sid (lv_set_region r (lvm_lv_new sid name t)) = sid"
  by (simp add: lv_set_region_def lvm_lv_new_def Let_def)

lemma consistent_volumes_added:
  assumes "consistent_volumes vg" and "set (vg_sids vg') = insert sid (set (vg_sids vg))"
    and "distinct (vg_sids vg')" and "fst ` set (vg_thins vg') \<subseteq> set (vg_sids vg)"
    and "vg_snapshots vg' = vg_snapshots vg"
  shows "consistent_volumes vg'"
proof -
  have "set (vg_snapshots vg) \<subseteq> set (vg_sids vg) \<times> set (vg_sids vg)"
    using assms(1) by (simp add: consistent_volumes_def)
  also have "\<dots> \<subseteq> set (vg_sids vg') \<times> set (vg_sids vg')" unfolding assms(2) by blast
  finally have "set (vg_snapshots vg') \<subseteq> set (vg_sids vg') \<times> set (vg_sids vg')" unfolding assms(5) .
  then show ?thesis using assms(2-4) unfolding consistent_volumes_def by blast
qed

lemma vg_step_volumes:
  assumes "vg_step vg vg'" and "consistent_volumes vg"
  shows "consistent_volumes vg'"
  using assms
proof (induction rule: vg_step.induct)
  case (extent n vg vg')
  then show ?case using consistent_volumes_same [of vg' vg] set_extent_size_sids [OF extent.hyps] by simp
next
  case (add_pv r t children vg vg')
  then obtain pv where c: "calculate_region (vg\<lparr>vg_pvs := vg_pvs vg @
      [calculate_pe_start (pv\<lparr>pv_region := r, pv_topology := t\<rparr>)]\<rparr>) = Inr vg'"
    by (auto simp: add_lvm_pv_def result_simps)
  show ?case using consistent_volumes_same [of vg' vg] calculate_region_calculates [OF c] add_pv.prems by simp
next
  case (remove_pv i vg vg')
  then have c: "calculate_region (vg\<lparr>vg_pvs := take i (vg_pvs vg) @ drop (Suc i) (vg_pvs vg)\<rparr>) = Inr vg'"
    by (simp add: remove_lvm_pv_def split: if_splits)
  show ?case using consistent_volumes_same [of vg' vg] calculate_region_calculates [OF c] remove_pv.prems by simp
next
  case (pv_resized i r vg vg')
  show ?case
    using consistent_volumes_same [of vg' vg] pv_resized.prems
      calculate_region_calculates [OF pv_resized.hyps(1) [unfolded parent_has_new_region_def]] by simp
next
  case (create_lv sid name t s vg vg')
  then obtain lv where vg': "vg' = vg\<lparr>vg_lvs := vg_lvs vg @ [lv]\<rparr>" "lv_sid lv = sid"
    by (auto simp: create_lvm_lv_def result_simps Let_def new_volume_sid)
  have v: "distinct (vg_sids vg)" "fst ` set (vg_thins vg) \<subseteq> set (vg_sids vg)"
    using create_lv.prems by (simp_all add: consistent_volumes_def)
  have "vg_sids vg' = map lv_sid (vg_lvs vg) @ sid # map lv_sid (map snd (vg_thins vg))"
    by (simp add: vg' vg_sids_def vg_volumes_def)
  moreover have "vg_sids vg = map lv_sid (vg_lvs vg) @ map lv_sid (map snd (vg_thins vg))"
    by (simp add: vg_sids_def vg_volumes_def)
  ultimately have "set (vg_sids vg') = insert sid (set (vg_sids vg))" "distinct (vg_sids vg')"
    using v(1) create_lv.hyps(2) by (simp_all del: map_map)
  from consistent_volumes_added [OF create_lv.prems this] v(2) show ?case by (simp add: vg'(1))
next
  case (create_thin pool sid name t s vg vg')
  then obtain lv where vg': "vg' = vg\<lparr>vg_thins := vg_thins vg @ [(pool, lv)]\<rparr>" "lv_sid lv = sid"
    by (auto simp: create_thin_lv_def result_simps Let_def new_volume_sid)
  have v: "distinct (vg_sids vg)" "fst ` set (vg_thins vg) \<subseteq> set (vg_sids vg)"
    using create_thin.prems by (simp_all add: consistent_volumes_def)
  have "vg_sids vg' = vg_sids vg @ [sid]" by (simp add: vg' vg_sids_def vg_volumes_def)
  then have "set (vg_sids vg') = insert sid (set (vg_sids vg))" "distinct (vg_sids vg')"
    using v(1) create_thin.hyps(3) by simp_all
  from consistent_volumes_added [OF create_thin.prems this] v(2) create_thin.hyps(2) show ?case by (simp add: vg'(1))
next
  case (create_snapshot origin vg snapshot)
  then show ?case by (simp add: consistent_volumes_def vg_sids_def vg_volumes_def)
next
  case (delete_lv sid vg)
  then show ?case using delete_lvm_lv_consistent by simp
next
  case (resize_lv sid s vg vg')
  then show ?case using consistent_volumes_same [of vg' vg] set_lv_size_sids [OF resize_lv.hyps] by simp
next
  case (volume vg xs lv ys lv')
  then show ?case
    by (subst consistent_volumes_same [where vg = vg]) (simp_all add: lv_step_keeps(1))
next
  case (thin_volume vg xs pool lv ys lv')
  then show ?case
    by (subst consistent_volumes_same [where vg = vg]) (simp_all add: lv_step_keeps(1))
next
  case (rename vg name)
  then show ?case by (subst consistent_volumes_same [where vg = vg]) simp_all
next
  case (reserved n vg vg')
  then show ?case
    by (subst consistent_volumes_same [where vg = vg]) (auto simp: calculate_reserved_extents_def result_simps)
qed

lemma consistent_new: "lvm_vg_new name = Inr vg \<Longrightarrow> consistent_vg vg"
proof -
  assume "lvm_vg_new name = Inr vg"
  then have vg: "vg = \<lparr>vg_name = name, vg_region = \<lparr>r_start = 0, r_length = 0, r_block_size = 4194304\<rparr>,
      vg_reserved_extents = 0, vg_pvs = [], vg_lvs = [], vg_thins = [], vg_snapshots = []\<rparr>"
    by (simp add: lvm_vg_new_def region_new_def default_extent_size_def MiB_def KiB_def)
  have "valid_extent_size 4194304" unfolding valid_extent_size_def by (intro exI [of _ 22]) simp
  then show ?thesis
    by (simp add: vg consistent_vg_def consistent_extents_def consistent_volumes_def vg_sids_def vg_volumes_def
        get_extent_size_def region_is_calculated_def pv_extents_def number_of_extents_def)
qed

text \<open>
  The extent size is changed for the volumes \<open>get_lvm_lvs\<close> returns, which are the children of the
  group. Thin volumes are children of their pool and keep the old extent size.
\<close>

definition demo_thin_vg :: "u64 \<Rightarrow> lvm_vg result" where
  "demo_thin_vg extent =
     ebind (lvm_vg_new ''vg'') (\<lambda>a.
     ebind (add_lvm_pv \<lparr>r_start = 0, r_length = 2097152, r_block_size = 512\<rparr> (topology_new 0 0) [] a) (\<lambda>b.
     ebind (create_lvm_lv 42 ''pool'' THIN_POOL 104857600 b) (\<lambda>c.
     ebind (create_thin_lv 42 43 ''thin'' THIN 41943040 c) (set_extent_size extent))))"

lemma thin_keeps_extent_size:
  "emap (\<lambda>vg. (get_extent_size vg, map (\<lambda>lv. r_block_size (lv_region lv)) (vg_lvs vg),
      map (\<lambda>t. r_block_size (lv_region (snd t))) (vg_thins vg))) (demo_thin_vg 1048576)
    = Inr (1048576, [1048576], [4194304])"
  by code_simp

text \<open>
  C22: Every volume group that is built by the operations on it is consistent: adding and removing
  physical volumes and resizes of the devices below, changes of the extent size, creating, resizing,
  renaming and removing volumes and thin volumes, snapshots, changes of stripes, stripe size and
  chunk size, and the reserved extents. Consistent means that the extent size is a power of two of at
  least 128 KiB, the number of extents is the sum over the physical volumes of the whole extents
  behind their start, and every volume that is a child of the group starts at zero, has the extent
  size of the group and, unless its type is THIN, uses as many extents as it is long. A volume in a
  pool starts at zero, has a valid extent size (not always the one of the group, see
  \<open>thin_keeps_extent_size\<close>) and, when its type is THIN, uses no extents. Every volume has its own sid,
  and the pool of every volume in a pool and both ends of every snapshot are volumes of the group: a
  removed volume takes what is below it with it.
\<close>

theorem reachable_groups_consistent:
  assumes "vg_reachable vg"
  shows "consistent_vg vg"
  using assms
proof (induction rule: vg_reachable.induct)
  case (new name vg)
  then show ?case by (rule consistent_new)
next
  case (step vg vg')
  then show ?case using vg_step_consistent vg_step_volumes unfolding consistent_vg_def by blast
qed

text \<open>
  A group on a disk of 1 GiB with extents of 1 MiB and a volume of 100 of them; the pool that was
  there before is removed with its thin volume.
\<close>

theorem reachable_groups_consistent_witness:
  "\<exists>vg. vg_reachable vg \<and> consistent_vg vg \<and> number_of_extents vg = 1023 \<and> map lv_used_extents (vg_lvs vg) = [100] \<and>
    vg_thins vg = []"
proof -
  let ?disk = "\<lparr>r_start = 0, r_length = 2097152, r_block_size = 512\<rparr>"
  define run where "run = ebind (lvm_vg_new ''vg'') (\<lambda>a. ebind (add_lvm_pv ?disk (topology_new 0 0) [] a) (\<lambda>b.
      ebind (set_extent_size 1048576 b) (\<lambda>c. ebind (create_lvm_lv 42 ''pool'' THIN_POOL 104857600 c) (\<lambda>d.
      ebind (create_thin_lv 42 43 ''thin'' THIN 104857600 d) (\<lambda>e.
      ebind (create_lvm_lv 44 ''lv'' NORMAL 104857600 (delete_lvm_lv 42 e)) (\<lambda>f. Inr (a, b, c, d, e, f)))))))"
  have "case emap (\<lambda>(a, b, c, d, e, f). (number_of_extents f, map lv_used_extents (vg_lvs f), map fst (vg_thins f),
        vg_sids c, vg_sids d, vg_sids e, vg_sids (delete_lvm_lv 42 e))) run of
      Inl e \<Rightarrow> False | Inr x \<Rightarrow> x = (1023, [100], [], [], [42], [42, 43], [])" unfolding run_def by code_simp
  then obtain a b c d e f where r: "run = Inr (a, b, c, d, e, f)"
    and f: "number_of_extents f = 1023" "map lv_used_extents (vg_lvs f) = [100]" "vg_thins f = []"
    and sids: "vg_sids c = []" "vg_sids d = [42]" "vg_sids e = [42, 43]" "vg_sids (delete_lvm_lv 42 e) = []"
    by (cases run) auto
  have s: "lvm_vg_new ''vg'' = Inr a" "add_lvm_pv ?disk (topology_new 0 0) [] a = Inr b"
    "set_extent_size 1048576 b = Inr c" "create_lvm_lv 42 ''pool'' THIN_POOL 104857600 c = Inr d"
    "create_thin_lv 42 43 ''thin'' THIN 104857600 d = Inr e"
    "create_lvm_lv 44 ''lv'' NORMAL 104857600 (delete_lvm_lv 42 e) = Inr f"
    using r unfolding run_def by (auto simp only: ebind_eq_Inr sum.inject prod.inject)
  have "vg_reachable a" by (rule new [OF s(1)])
  then have "vg_reachable b" by (rule step [OF _ add_pv [OF s(2)]]) simp
  then have "vg_reachable c" by (rule step [OF _ extent [OF s(3)]])
  then have "vg_reachable d" by (rule step [OF _ create_lv [OF s(4)]]) (simp add: sids)
  then have "vg_reachable e" by (rule step [OF _ create_thin [OF s(5)]]) (simp_all add: sids)
  then have "vg_reachable (delete_lvm_lv 42 e)" by (rule step [OF _ delete_lv]) (simp add: sids)
  then have r: "vg_reachable f" by (rule step [OF _ create_lv [OF s(6)]]) (simp add: sids)
  show ?thesis by (intro exI [of _ f] conjI r reachable_groups_consistent [OF r] f)
qed

end
