(* ===== verification/Md.thy ===== *)
theory Md
  imports MathUtil Alignment Decimal
begin

text \<open>
  Software RAID (storage/Devices/MdImpl.cc): the level, the member devices with their roles, the
  size that is calculated from them, chunk sizes, parities and names.

  A member is the region and the topology of the block device with the attributes of its holder.
  The size a RAID gets is compared with its capacity, what the level can store on the members.
\<close>

section \<open>State\<close>

datatype md_level = UNKNOWN | RAID0 | RAID1 | RAID4 | RAID5 | RAID6 | RAID10 | CONTAINER | LINEAR

datatype md_parity = DEFAULT | LEFT_ASYMMETRIC | LEFT_SYMMETRIC | RIGHT_ASYMMETRIC | RIGHT_SYMMETRIC | FIRST | LAST
  | LEFT_ASYMMETRIC_6 | LEFT_SYMMETRIC_6 | RIGHT_ASYMMETRIC_6 | RIGHT_SYMMETRIC_6 | FIRST_6
  | NEAR_2 | OFFSET_2 | FAR_2 | NEAR_3 | OFFSET_3 | FAR_3

record md_device =
  mdd_sid :: nat
  mdd_name :: string
  mdd_region :: region
  mdd_topology :: topology
  mdd_spare :: bool
  mdd_faulty :: bool
  mdd_journal :: bool
  mdd_sort_key :: u32

record md =
  md_name :: string
  md_level :: md_level
  md_parity :: md_parity
  md_chunk_size :: u64
  md_metadata :: string
  md_uuid :: string
  md_region :: region
  md_topology :: topology
  md_in_system :: bool
  md_in_etc_mdadm :: bool
  md_devices :: "md_device list"

section \<open>Levels\<close>

fun minimal_number_of_devices :: "md_level \<Rightarrow> u32" where
  "minimal_number_of_devices LINEAR = 2"
| "minimal_number_of_devices RAID0 = 2"
| "minimal_number_of_devices RAID1 = 2"
| "minimal_number_of_devices RAID4 = 3"
| "minimal_number_of_devices RAID5 = 3"
| "minimal_number_of_devices RAID6 = 4"
| "minimal_number_of_devices RAID10 = 2"
| "minimal_number_of_devices CONTAINER = 0"
| "minimal_number_of_devices UNKNOWN = 0"

definition supports_spare_devices :: "md_level \<Rightarrow> bool" where
  "supports_spare_devices l \<longleftrightarrow> l \<in> {RAID1, RAID4, RAID5, RAID6, RAID10}"

definition supports_journal_device :: "md_level \<Rightarrow> bool" where
  "supports_journal_device l \<longleftrightarrow> l \<in> {RAID4, RAID5, RAID6}"

definition is_chunk_size_meaningful :: "md_level \<Rightarrow> bool" where
  "is_chunk_size_meaningful l \<longleftrightarrow> l = RAID0 \<or> l = RAID4 \<or> l = RAID5 \<or> l = RAID6 \<or> l = RAID10"

definition is_member :: "md_device \<Rightarrow> bool" where
  "is_member d \<longleftrightarrow> \<not> mdd_spare d \<and> \<not> mdd_journal d"

definition number_of_devices :: "md \<Rightarrow> u32" where
  "number_of_devices md = word_of_nat (length (filter is_member (md_devices md)))"

definition get_allowed_md_parities :: "md \<Rightarrow> md_parity list" where
  "get_allowed_md_parities md =
     (case md_level md of
        RAID5 \<Rightarrow> [DEFAULT, LEFT_ASYMMETRIC, LEFT_SYMMETRIC, RIGHT_ASYMMETRIC, RIGHT_SYMMETRIC, FIRST, LAST]
      | RAID6 \<Rightarrow> [DEFAULT, LEFT_ASYMMETRIC, LEFT_SYMMETRIC, RIGHT_ASYMMETRIC, RIGHT_SYMMETRIC, FIRST, LAST,
          LEFT_ASYMMETRIC_6, LEFT_SYMMETRIC_6, RIGHT_ASYMMETRIC_6, RIGHT_SYMMETRIC_6, FIRST_6]
      | RAID10 \<Rightarrow> if number_of_devices md \<le> 2 then [DEFAULT, NEAR_2, OFFSET_2, FAR_2]
          else [DEFAULT, NEAR_2, OFFSET_2, FAR_2, NEAR_3, OFFSET_3, FAR_3]
      | _ \<Rightarrow> [])"

definition get_default_chunk_size :: u64 where
  "get_default_chunk_size = 512 * KiB"

section \<open>The size\<close>

text \<open>
  The chunk size is a \<open>long\<close>. It times an \<open>unsigned int\<close>, where an overflow is undefined, and half
  of it, which is rounded towards zero.
\<close>

definition long_mult :: "u64 \<Rightarrow> u32 \<Rightarrow> u64 result" where
  "long_mult c n =
     (let p = sint c * uint n
      in if - (2 ^ 63) \<le> p \<and> p < 2 ^ 63 then Inr (c * ucast n) else Inl UndefinedBehaviour)"

definition long_half :: "u64 \<Rightarrow> u64" where
  "long_half c = (if 0 \<le> sint c then c div 2 else - ((- c) div 2))"

definition real_chunk_size :: "md \<Rightarrow> u64" where
  "real_chunk_size md =
     (if md_level md = RAID1 then 64 * KiB
      else if md_chunk_size md = 0 then get_default_chunk_size else md_chunk_size md)"

text \<open>What is left of a device of the size \<open>s\<close> for data.\<close>

definition data_size :: "u64 \<Rightarrow> u64 \<Rightarrow> u64 result" where
  "data_size chunk s =
     (let superblock_size = 16 * KiB;
          bitmap_size = min (128 * MiB) (s div 64);
          badblocklog_size = 8 * KiB
      in ebind (round_down (subtract_saturated s (superblock_size + bitmap_size + badblocklog_size + chunk)) (1 * MiB)) (\<lambda>s.
         if chunk = 0 then Inl DivisionByZero
         else
           let rest = s mod chunk;
               s = (if 0 < sint rest then subtract_saturated s rest else s)
           in Inr (subtract_saturated s (max (128 * KiB) (s div 1024)))))"

record underlying =
  un_number :: u32
  un_sum :: u64
  un_smallest :: u64
  un_block_size :: u32
  un_optimal_io_size :: u64

definition underlying_step :: "u64 \<Rightarrow> md_device \<Rightarrow> underlying \<Rightarrow> underlying result" where
  "underlying_step chunk d un =
     ebind (to_bytes (mdd_region d) (r_length (mdd_region d))) (\<lambda>s.
     ebind (data_size chunk s) (\<lambda>s.
       let un = un\<lparr>un_block_size := max (un_block_size un) (ucast (r_block_size (mdd_region d))),
             un_optimal_io_size := max (un_optimal_io_size un) (optimal_io_size (mdd_topology d))\<rparr>;
           un = (if \<not> mdd_spare d \<and> \<not> mdd_journal d
             then un\<lparr>un_number := un_number un + 1, un_sum := un_sum un + s\<rparr> else un);
           un = (if \<not> mdd_journal d then un\<lparr>un_smallest := min (un_smallest un) s\<rparr> else un)
       in Inr un))"

definition all_underlying :: "md \<Rightarrow> underlying result" where
  "all_underlying md = efold (underlying_step (real_chunk_size md)) (md_devices md)
     \<lparr>un_number = 0, un_sum = 0, un_smallest = - 1, un_block_size = 0, un_optimal_io_size = 0\<rparr>"

definition with_optimal_io_size :: "underlying \<Rightarrow> u64 \<Rightarrow> u64" where
  "with_optimal_io_size un s = (if 0 < un_optimal_io_size un then lcm_u64 s (un_optimal_io_size un) else s)"

text \<open>The size and the optimal I/O size of the RAID.\<close>

definition size_of_level :: "md_level \<Rightarrow> u64 \<Rightarrow> underlying \<Rightarrow> (u64 \<times> u64) result" where
  "size_of_level l chunk un =
     (let n = un_number un
      in case l of
        LINEAR \<Rightarrow> if 2 \<le> n then Inr (un_sum un, un_optimal_io_size un) else Inr (0, 0)
      | RAID0 \<Rightarrow> if 2 \<le> n then emap (\<lambda>o'. (un_sum un, with_optimal_io_size un o')) (long_mult chunk n) else Inr (0, 0)
      | RAID1 \<Rightarrow> if 2 \<le> n then Inr (un_smallest un, un_optimal_io_size un) else Inr (0, 0)
      | RAID4 \<Rightarrow> if 3 \<le> n
          then emap (\<lambda>o'. (un_smallest un * ucast (n - 1), with_optimal_io_size un o')) (long_mult chunk (n - 1)) else Inr (0, 0)
      | RAID5 \<Rightarrow> if 3 \<le> n
          then emap (\<lambda>o'. (un_smallest un * ucast (n - 1), with_optimal_io_size un o')) (long_mult chunk (n - 1)) else Inr (0, 0)
      | RAID6 \<Rightarrow> if 4 \<le> n
          then emap (\<lambda>o'. (un_smallest un * ucast (n - 2), with_optimal_io_size un o')) (long_mult chunk (n - 2)) else Inr (0, 0)
      | RAID10 \<Rightarrow> if 2 \<le> n
          then if chunk = 0 then Inl DivisionByZero
            else emap (\<lambda>o'. ((un_smallest un div chunk) * ucast n div 2 * chunk,
                with_optimal_io_size un (if n mod 2 = 1 then long_half o' * 2 else long_half o'))) (long_mult chunk n)
          else Inr (0, 0)
      | _ \<Rightarrow> Inr (0, 0))"

text \<open>The greatest block size of the devices is that of the RAID.\<close>

definition resize_region :: "region \<Rightarrow> u32 \<Rightarrow> u64 \<Rightarrow> region result" where
  "resize_region r b s =
     ebind (if b \<noteq> 0 \<and> b \<noteq> ucast (r_block_size r) then region_new 0 0 (ucast b) else Inr r) (\<lambda>r.
     ebind (to_blocks r s) (\<lambda>n. region_new (r_start r) n (r_block_size r)))"

definition calculate_region_and_topology :: "md \<Rightarrow> md result" where
  "calculate_region_and_topology md =
     (if md_in_system md then Inr md
      else ebind (all_underlying md) (\<lambda>un.
        ebind (size_of_level (md_level md) (real_chunk_size md) un) (\<lambda>(s, o').
        emap (\<lambda>r. md\<lparr>md_region := r, md_topology := topology_new 0 o'\<rparr>)
          (resize_region (md_region md) (un_block_size un) s))))"

section \<open>Operations\<close>

definition md_new :: "string \<Rightarrow> md" where
  "md_new name =
     \<lparr>md_name = name, md_level = UNKNOWN, md_parity = DEFAULT, md_chunk_size = 0, md_metadata = [],
      md_uuid = [], md_region = \<lparr>r_start = 0, r_length = 0, r_block_size = 512\<rparr>,
      md_topology = topology_new 0 0, md_in_system = False, md_in_etc_mdadm = True, md_devices = []\<rparr>"

definition set_md_level :: "md_level \<Rightarrow> md \<Rightarrow> md result" where
  "set_md_level l md =
     (if md_level md = l then Inr md else calculate_region_and_topology (md\<lparr>md_level := l\<rparr>))"

definition set_chunk_size :: "u64 \<Rightarrow> md \<Rightarrow> md result" where
  "set_chunk_size c md =
     (if 0 < c \<and> c < 4 * KiB then Inl (InvalidChunkSize ''chunk size below 4 KiB'')
      else ebind (if 0 < c then is_multiple_of c 512 else Inr True) (\<lambda>ok.
        if \<not> ok then Inl (InvalidChunkSize ''chunk size not multiple of 512 B'')
        else if md_chunk_size md = c then Inr md
        else calculate_region_and_topology (md\<lparr>md_chunk_size := c\<rparr>)))"

text \<open>The device to add comes with the number of its children; its holder has the defaults.\<close>

definition add_device :: "nat \<Rightarrow> nat \<Rightarrow> string \<Rightarrow> region \<Rightarrow> topology \<Rightarrow> md \<Rightarrow> md result" where
  "add_device num_children sid name r t md =
     (if num_children \<noteq> 0 then Inl (WrongNumberOfChildren num_children 0)
      else calculate_region_and_topology (md\<lparr>md_devices := md_devices md @
        [\<lparr>mdd_sid = sid, mdd_name = name, mdd_region = r, mdd_topology = t, mdd_spare = False,
          mdd_faulty = False, mdd_journal = False, mdd_sort_key = 0\<rparr>]\<rparr>))"

definition remove_device :: "nat \<Rightarrow> md \<Rightarrow> md result" where
  "remove_device sid md =
     (if sid \<notin> mdd_sid ` set (md_devices md) then Inl HolderNotFound
      else calculate_region_and_topology (md\<lparr>md_devices := filter (\<lambda>d. mdd_sid d \<noteq> sid) (md_devices md)\<rparr>))"

text \<open>The holders (storage/Holders/MdUserImpl.cc): a change of a role recalculates the RAID.\<close>

definition update_device :: "nat \<Rightarrow> (md_device \<Rightarrow> md_device) \<Rightarrow> md \<Rightarrow> md" where
  "update_device sid f md =
     md\<lparr>md_devices := map (\<lambda>d. if mdd_sid d = sid then f d else d) (md_devices md)\<rparr>"

definition set_role :: "(md_device \<Rightarrow> bool) \<Rightarrow> (md_device \<Rightarrow> md_device) \<Rightarrow> bool \<Rightarrow> nat \<Rightarrow> md \<Rightarrow> md result" where
  "set_role get set_it b sid md =
     (case find (\<lambda>d. mdd_sid d = sid) (md_devices md) of
        None \<Rightarrow> Inl HolderNotFound
      | Some d \<Rightarrow> if get d = b then Inr md
          else calculate_region_and_topology (update_device sid set_it md))"

definition set_spare :: "bool \<Rightarrow> nat \<Rightarrow> md \<Rightarrow> md result" where
  "set_spare b = set_role mdd_spare (\<lambda>d. d\<lparr>mdd_spare := b\<rparr>) b"

definition set_faulty :: "bool \<Rightarrow> nat \<Rightarrow> md \<Rightarrow> md result" where
  "set_faulty b = set_role mdd_faulty (\<lambda>d. d\<lparr>mdd_faulty := b\<rparr>) b"

definition set_journal :: "bool \<Rightarrow> nat \<Rightarrow> md \<Rightarrow> md result" where
  "set_journal b = set_role mdd_journal (\<lambda>d. d\<lparr>mdd_journal := b\<rparr>) b"

text \<open>A device below has a new region and tells the RAID. A new topology is not told.\<close>

definition device_has_new_region :: "nat \<Rightarrow> region \<Rightarrow> md \<Rightarrow> md result" where
  "device_has_new_region sid r md =
     calculate_region_and_topology (update_device sid (\<lambda>d. d\<lparr>mdd_region := r\<rparr>) md)"

definition device_has_new_topology :: "nat \<Rightarrow> topology \<Rightarrow> md \<Rightarrow> md" where
  "device_has_new_topology sid t = update_device sid (\<lambda>d. d\<lparr>mdd_topology := t\<rparr>)"

text \<open>An estimate of what a device below needs for a RAID of a size.\<close>

definition calculate_underlying_size :: "md_level \<Rightarrow> u32 \<Rightarrow> u64 \<Rightarrow> u64 result" where
  "calculate_underlying_size l n sz =
     (if n < minimal_number_of_devices l then Inl (Exn ''too few devices'')
      else ebind
        (case l of
           LINEAR \<Rightarrow> Inr (sz div ucast n)
         | RAID0 \<Rightarrow> Inr (sz div ucast n)
         | RAID1 \<Rightarrow> Inr sz
         | RAID4 \<Rightarrow> Inr (sz div ucast (n - 1))
         | RAID5 \<Rightarrow> Inr (sz div ucast (n - 1))
         | RAID6 \<Rightarrow> Inr (sz div ucast (n - 2))
         | RAID10 \<Rightarrow> Inr (sz * 2 div ucast n)
         | _ \<Rightarrow> Inl (Exn ''illegal raid level''))
        (\<lambda>u.
          let u = u + max (128 * KiB) (u div 1024);
              u = u + get_default_chunk_size;
              u = u + 1 * MiB;
              u = u + 8 * KiB;
              u = u + min (128 * MiB) (u div 64)
          in Inr (u + 16 * KiB)))"

text \<open>
  The checks, without those of the base classes. The callbacks get the messages of the list; the
  size of a page is that of the machine.
\<close>

definition block_sizes_lcm :: "md \<Rightarrow> u64" where
  "block_sizes_lcm md = fold (\<lambda>d tmp. lcm_u64 tmp (r_block_size (mdd_region d))) (md_devices md) (1 * KiB)"

definition check_chunk_size :: "u64 \<Rightarrow> md \<Rightarrow> string list result" where
  "check_chunk_size page_size md =
     (if \<not> 0 < md_chunk_size md then Inr []
      else if md_level md = RAID0 then
        emap (\<lambda>ok. (if md_chunk_size md < 4 * KiB then [''smaller than 4 KiB''] else []) @
            (if \<not> ok then [''not a multiple of the sector size''] else []))
          (is_multiple_of (md_chunk_size md) (block_sizes_lcm md))
      else if md_level md \<in> {RAID4, RAID5, RAID6, RAID10} then
        Inr ((if md_chunk_size md < page_size then [''smaller than the page size''] else []) @
            (if \<not> is_power_of_two (md_chunk_size md) then [''not a power of two''] else []))
      else Inr [])"

text \<open>Only the entry in mdadm.conf of a RAID on disk can be changed.\<close>

datatype md_action = AddToEtcMdadm | RemoveFromEtcMdadm

definition md_modify_actions :: "md \<Rightarrow> md \<Rightarrow> md_action list result" where
  "md_modify_actions lhs rhs =
     (if md_name lhs \<noteq> md_name rhs then Inl (Exn ''cannot rename raid'')
      else if md_level lhs \<noteq> md_level rhs then Inl (Exn ''cannot change raid level'')
      else if md_metadata lhs \<noteq> md_metadata rhs then Inl (Exn ''cannot change raid metadata'')
      else if md_chunk_size lhs \<noteq> md_chunk_size rhs then Inl (Exn ''cannot change chunk size'')
      else ebind (region_equal (md_region lhs) (md_region rhs)) (\<lambda>eq.
        if \<not> eq then Inl (Exn ''cannot change size'')
        else if \<not> md_in_etc_mdadm lhs \<and> md_in_etc_mdadm rhs then Inr [AddToEtcMdadm]
        else if md_in_etc_mdadm lhs \<and> \<not> md_in_etc_mdadm rhs then Inr [RemoveFromEtcMdadm]
        else Inr []))"

text \<open>
  The arguments of the command that creates the RAID: the devices and then the spare ones, each in
  the order of their sort keys. Equal keys keep the order of the devices, as in a multimap.
\<close>

definition level_option :: "md_level \<Rightarrow> string" where
  "level_option l =
     (case l of UNKNOWN \<Rightarrow> ''unknown'' | RAID0 \<Rightarrow> ''raid0'' | RAID1 \<Rightarrow> ''raid1'' | RAID4 \<Rightarrow> ''raid4''
      | RAID5 \<Rightarrow> ''raid5'' | RAID6 \<Rightarrow> ''raid6'' | RAID10 \<Rightarrow> ''raid10'' | CONTAINER \<Rightarrow> ''container''
      | LINEAR \<Rightarrow> ''linear'')"

definition parity_name :: "md_parity \<Rightarrow> string" where
  "parity_name p =
     (case p of DEFAULT \<Rightarrow> ''default'' | LEFT_ASYMMETRIC \<Rightarrow> ''left-asymmetric''
      | LEFT_SYMMETRIC \<Rightarrow> ''left-symmetric'' | RIGHT_ASYMMETRIC \<Rightarrow> ''right-asymmetric''
      | RIGHT_SYMMETRIC \<Rightarrow> ''right-symmetric'' | FIRST \<Rightarrow> ''parity-first'' | LAST \<Rightarrow> ''parity-last''
      | LEFT_ASYMMETRIC_6 \<Rightarrow> ''left-asymmetric-6'' | LEFT_SYMMETRIC_6 \<Rightarrow> ''left-symmetric-6''
      | RIGHT_ASYMMETRIC_6 \<Rightarrow> ''right-asymmetric-6'' | RIGHT_SYMMETRIC_6 \<Rightarrow> ''right-symmetric-6''
      | FIRST_6 \<Rightarrow> ''parity-first-6'' | NEAR_2 \<Rightarrow> ''n2'' | OFFSET_2 \<Rightarrow> ''o2'' | FAR_2 \<Rightarrow> ''f2''
      | NEAR_3 \<Rightarrow> ''n3'' | OFFSET_3 \<Rightarrow> ''o3'' | FAR_3 \<Rightarrow> ''f3'')"

definition raid_devices :: "md \<Rightarrow> md_device list" where
  "raid_devices md = sort_key mdd_sort_key (filter (\<lambda>d. \<not> mdd_spare d \<and> \<not> mdd_journal d) (md_devices md))"

definition spare_devices :: "md \<Rightarrow> md_device list" where
  "spare_devices md = sort_key mdd_sort_key (filter mdd_spare (md_devices md))"

definition journal_devices :: "md \<Rightarrow> md_device list" where
  "journal_devices md = filter (\<lambda>d. \<not> mdd_spare d \<and> mdd_journal d) (md_devices md)"

definition create_args :: "md \<Rightarrow> string list result" where
  "create_args md =
     (let devices = raid_devices md; spares = spare_devices md; journals = journal_devices md
      in if devices = [] then Inl (Exn ''no devices'')
      else if 1 < length journals then Inl (Exn ''only one journal device allowed'')
      else Inr ([''--create'', md_name md, ''--run'', ''--level='' @ level_option (md_level md),
             ''--metadata='' @ (if md_metadata md = [] then ''1.0'' else md_metadata md), ''--homehost=any'']
        @ (if md_level md \<in> {RAID1, RAID4, RAID5, RAID6, RAID10} \<and> journals = []
           then [''--bitmap=internal''] else [])
        @ (if is_chunk_size_meaningful (md_level md) \<and> 0 < md_chunk_size md
           then [''--chunk='' @ decimal (uint (md_chunk_size md div KiB))] else [])
        @ (if md_parity md \<noteq> DEFAULT then [''--parity='' @ parity_name (md_parity md)] else [])
        @ (if md_uuid md \<noteq> [] then [''--uuid='' @ md_uuid md] else [])
        @ [''--raid-devices='' @ decimal (int (length devices))]
        @ (if spares \<noteq> [] then [''--spare-devices='' @ decimal (int (length spares))] else [])
        @ (if journals \<noteq> [] then [''--write-journal='' @ mdd_name (hd journals)] else [])
        @ map mdd_name devices @ map mdd_name spares))"

end
