(* ===== verification/MdSize.thy ===== *)
theory MdSize
  imports Md
begin

text \<open>
  The size of a RAID. Reference: what a level can store on members of given sizes. The size that
  is calculated never exceeds it, with the room for the metadata taken off every member first;
  and the region of a RAID that is not on disk is up to date after every sequence of operations.
\<close>

section \<open>Reference\<close>

definition dev_size :: "md_device \<Rightarrow> nat" where
  "dev_size d = unat (r_length (mdd_region d)) * unat (r_block_size (mdd_region d))"

text \<open>What is left of a member of \<open>s\<close> bytes behind superblock, bitmap and bad block log.\<close>

definition usable :: "nat \<Rightarrow> nat" where
  "usable s = s - (16 * 1024 + min (128 * 1024 * 1024) (s div 64) + 8 * 1024)"

text \<open>
  How often a RAID10 stores every chunk: the layouts with 3 copies keep less than those with 2.
\<close>

definition copies :: "md_parity \<Rightarrow> nat" where
  "copies p = (if p \<in> {NEAR_3, OFFSET_3, FAR_3} then 3 else 2)"

definition capacity :: "md_parity \<Rightarrow> md_level \<Rightarrow> nat list \<Rightarrow> nat" where
  "capacity p l ss =
     (let n = length ss; m = Min (set ss)
      in case l of
        LINEAR \<Rightarrow> if 2 \<le> n then sum_list ss else 0
      | RAID0 \<Rightarrow> if 2 \<le> n then sum_list ss else 0
      | RAID1 \<Rightarrow> if 2 \<le> n then m else 0
      | RAID4 \<Rightarrow> if 3 \<le> n then (n - 1) * m else 0
      | RAID5 \<Rightarrow> if 3 \<le> n then (n - 1) * m else 0
      | RAID6 \<Rightarrow> if 4 \<le> n then (n - 2) * m else 0
      | RAID10 \<Rightarrow> if 2 \<le> n then n * m div copies p else 0
      | CONTAINER \<Rightarrow> 0
      | UNKNOWN \<Rightarrow> 0)"

definition members :: "md_device list \<Rightarrow> nat list" where
  "members ds = map (\<lambda>d. usable (dev_size d)) (filter is_member ds)"

definition fits64 :: "md_device list \<Rightarrow> bool" where
  "fits64 ds \<longleftrightarrow> sum_list (map dev_size ds) < 2 ^ 64 \<and> length ds < 2 ^ 32"

section \<open>One device\<close>

lemma subtract_saturated_unat: "unat (subtract_saturated a b) = unat a - unat b"
  by (auto simp: subtract_saturated_def word_less_nat_alt unat_sub_no_wrap)

lemma units_unat [simp]: "unat KiB = 1024" "unat MiB = 1048576" "KiB = 1024" "MiB = 1048576"
  by (simp_all add: KiB_def MiB_def)

lemma metadata_unat:
  assumes "unat chunk < 2 ^ 63"
  shows "unat (16 * KiB + min (128 * MiB) (s div 64) + 8 * KiB + chunk)
    = 16 * 1024 + min (128 * 1024 * 1024) (unat s div 64) + 8 * 1024 + unat chunk"
proof -
  have m: "unat (min 134217728 (s div 64)) = min (128 * 1024 * 1024) (unat s div 64)"
    by (simp add: unat_min unat_div)
  have "unat (16 * KiB + min (128 * MiB) (s div 64)) = 16 * 1024 + min (128 * 1024 * 1024) (unat s div 64)"
    by (subst unat_add_no_wrap) (simp_all add: m)
  then have "unat (16 * KiB + min (128 * MiB) (s div 64) + 8 * KiB)
      = 16 * 1024 + min (128 * 1024 * 1024) (unat s div 64) + 8 * 1024"
    by (subst unat_add_no_wrap) simp_all
  then show ?thesis using assms by (subst unat_add_no_wrap) simp_all
qed

lemma data_size_usable:
  assumes "data_size chunk s = Inr t" and "unat chunk < 2 ^ 63"
  shows "unat t \<le> usable (unat s)"
proof -
  define a where "a = subtract_saturated s (16 * KiB + min (128 * MiB) (s div 64) + 8 * KiB + chunk)"
  have a: "unat a \<le> usable (unat s)"
    unfolding a_def subtract_saturated_unat metadata_unat [OF assms(2)] usable_def by simp
  obtain b where b: "round_down a (1 * MiB) = Inr b" using assms(1)
    unfolding data_size_def Let_def a_def [symmetric] by (auto simp only: ebind_eq_Inr)
  then have "unat b \<le> unat a" using round_down_spec [of "1 * MiB" a] by simp
  moreover have "unat t \<le> unat b"
    using assms(1) unfolding data_size_def Let_def a_def [symmetric] b
    by (auto simp: subtract_saturated_unat split: if_splits)
  ultimately show ?thesis using a by simp
qed

lemma device_bytes:
  assumes "to_bytes (mdd_region d) (r_length (mdd_region d)) = Inr s" and "dev_size d < 2 ^ 64"
  shows "unat s = dev_size d"
proof -
  have s: "s = r_length (mdd_region d) * r_block_size (mdd_region d)"
    using assms(1) by (simp add: to_bytes_def split: if_splits)
  show ?thesis
    unfolding s dev_size_def by (rule iffD1 [OF unat_mult_lem]) (use assms(2) in \<open>simp add: dev_size_def\<close>)
qed

section \<open>All devices\<close>

lemma underlying_step_bounds:
  assumes step: "underlying_step chunk d un = Inr un'" and chunk: "unat chunk < 2 ^ 63"
    and d: "unat (un_sum un) + dev_size d < 2 ^ 64"
  shows "un_number un' = un_number un + (if is_member d then 1 else 0)"
    and "unat (un_sum un') \<le> unat (un_sum un) + (if is_member d then usable (dev_size d) else 0)"
    and "unat (un_smallest un') \<le> unat (un_smallest un)"
    and "is_member d \<longrightarrow> unat (un_smallest un') \<le> usable (dev_size d)"
proof -
  obtain s t where s: "to_bytes (mdd_region d) (r_length (mdd_region d)) = Inr s" "data_size chunk s = Inr t"
    using step unfolding underlying_step_def by (auto simp only: ebind_eq_Inr)
  have "unat s = dev_size d" using device_bytes [OF s(1)] d by simp
  then have t: "unat t \<le> usable (dev_size d)" using data_size_usable [OF s(2) chunk] by simp
  have "usable (dev_size d) \<le> dev_size d" by (simp add: usable_def)
  then have sum: "unat (un_sum un + t) = unat (un_sum un) + unat t"
    using t d by (subst unat_add_no_wrap) simp_all
  note un' = step [unfolded underlying_step_def s ebind_Inr Let_def]
  show "un_number un' = un_number un + (if is_member d then 1 else 0)"
    using un' by (auto simp: is_member_def)
  show "unat (un_sum un') \<le> unat (un_sum un) + (if is_member d then usable (dev_size d) else 0)"
    using un' sum t by (auto simp: is_member_def)
  show "unat (un_smallest un') \<le> unat (un_smallest un)"
    using un' by (auto simp: unat_min)
  show "is_member d \<longrightarrow> unat (un_smallest un') \<le> usable (dev_size d)"
    using un' t by (auto simp: unat_min is_member_def)
qed

lemma underlying_bounds:
  assumes "efold (underlying_step chunk) ds un = Inr un'" and "unat chunk < 2 ^ 63"
    and "unat (un_sum un) + sum_list (map dev_size ds) < 2 ^ 64"
  shows "un_number un' = un_number un + word_of_nat (length (members ds))
    \<and> unat (un_sum un') \<le> unat (un_sum un) + sum_list (members ds)
    \<and> unat (un_smallest un') \<le> unat (un_smallest un)
    \<and> (\<forall>s \<in> set (members ds). unat (un_smallest un') \<le> s)"
  using assms(1,3)
proof (induction ds arbitrary: un)
  case Nil
  then show ?case by (simp add: members_def)
next
  case (Cons d ds)
  obtain v where v: "underlying_step chunk d un = Inr v" "efold (underlying_step chunk) ds v = Inr un'"
    using Cons.prems(1) by (auto simp: ebind_eq_Inr)
  have le: "usable (dev_size d) \<le> dev_size d" by (simp add: usable_def)
  have d: "unat (un_sum un) + dev_size d < 2 ^ 64" using Cons.prems(2) by simp
  note b = underlying_step_bounds [OF v(1) assms(2) d]
  have "unat (un_sum v) + sum_list (map dev_size ds) < 2 ^ 64"
    using b(2) le Cons.prems(2) by (auto split: if_splits)
  note ih = Cons.IH [OF v(2) this]
  show ?case
  proof (cases "is_member d")
    case True
    then have m: "members (d # ds) = usable (dev_size d) # members ds" by (simp add: members_def)
    show ?thesis unfolding m using ih b True by auto
  next
    case False
    then have "members (d # ds) = members ds" by (simp add: members_def)
    then show ?thesis using ih b False by auto
  qed
qed

lemma min_members:
  assumes "\<forall>s \<in> set ms. k \<le> s" and "ms \<noteq> []"
  shows "k \<le> Min (set ms)"
  using assms by simp

lemma sum_list_ge_Min: "(m :: nat) \<le> Min (set ms) \<Longrightarrow> ms \<noteq> [] \<Longrightarrow> length ms * m \<le> sum_list ms"
proof -
  assume m: "m \<le> Min (set ms)" "ms \<noteq> []"
  then have "\<forall>s \<in> set ms. m \<le> s" by (meson List.finite_set Min_le order_trans)
  then show ?thesis by (induction ms) auto
qed

section \<open>The level\<close>

text \<open>
  The members \<open>ms\<close>, of which the loop over the devices knows the number, a bound of the sum and a
  bound of the least.
\<close>

definition summarizes :: "underlying \<Rightarrow> nat list \<Rightarrow> bool" where
  "summarizes un ms \<longleftrightarrow> unat (un_number un) = length ms \<and> unat (un_sum un) \<le> sum_list ms
     \<and> (\<forall>s \<in> set ms. unat (un_smallest un) \<le> s) \<and> sum_list ms < 2 ^ 64"

lemma smallest_times:
  assumes "summarizes un ms" and "k \<le> length ms" and "ms \<noteq> []"
  shows "k * unat (un_smallest un) < 2 ^ 64" and "k * unat (un_smallest un) \<le> k * Min (set ms)"
proof -
  have m: "unat (un_smallest un) \<le> Min (set ms)"
    using assms(1,3) by (auto simp: summarizes_def intro: min_members)
  then show "k * unat (un_smallest un) \<le> k * Min (set ms)" by simp
  have "k * unat (un_smallest un) \<le> length ms * unat (un_smallest un)" using assms(2) by simp
  also have "\<dots> \<le> sum_list ms" by (rule sum_list_ge_Min [OF m assms(3)])
  also have "\<dots> < 2 ^ 64" using assms(1) by (simp add: summarizes_def)
  finally show "k * unat (un_smallest un) < 2 ^ 64" .
qed

lemma parity_size:
  assumes "summarizes un ms" and "unat k < length ms"
  shows "unat (un_smallest un * ucast (un_number un - k)) \<le> (length ms - unat k) * Min (set ms)"
proof -
  have ne: "ms \<noteq> []" using assms(2) by auto
  have n: "unat (un_number un) = length ms" using assms(1) by (simp add: summarizes_def)
  then have k: "unat (un_number un - k) = length ms - unat k"
    using assms(2) by (subst unat_sub_no_wrap) simp_all
  note t = smallest_times [OF assms(1) diff_le_self [of "length ms" "unat k"] ne]
  have "unat (un_smallest un * ucast (un_number un - k)) = unat (un_smallest un) * (length ms - unat k)"
    using t(1) by (subst iffD1 [OF unat_mult_lem]) (simp_all add: unat_ucast_u32 k mult.commute)
  then show ?thesis using t(2) by (simp add: mult.commute)
qed

lemma striped_size:
  assumes "summarizes un ms" and "2 \<le> length ms"
  shows "unat (un_smallest un div chunk * ucast (un_number un) div 2 * chunk) \<le> length ms * Min (set ms) div 2"
proof -
  let ?m = "unat (un_smallest un)" and ?c = "unat chunk" and ?n = "length ms"
  have ne: "ms \<noteq> []" using assms(2) by auto
  have n: "unat (un_number un) = ?n" using assms(1) by (simp add: summarizes_def)
  note t = smallest_times [OF assms(1) order_refl ne]
  have d: "?m div ?c * ?n \<le> ?n * ?m" by (simp add: mult.commute)
  have a: "unat (un_smallest un div chunk * ucast (un_number un)) = ?m div ?c * ?n"
    using le_less_trans [OF d t(1)] by (subst iffD1 [OF unat_mult_lem]) (simp_all add: unat_ucast_u32 n unat_div)
  have b: "?m div ?c * ?n div 2 * ?c \<le> ?n * ?m div 2"
  proof -
    have "2 * (?m div ?c * ?n div 2 * ?c) \<le> (?m div ?c * ?n) * ?c" by simp
    also have "\<dots> = ?n * (?m div ?c * ?c)" by (simp add: ac_simps)
    also have "\<dots> \<le> ?n * ?m" by simp
    finally show ?thesis by simp
  qed
  have "unat (un_smallest un div chunk * ucast (un_number un) div 2 * chunk) = ?m div ?c * ?n div 2 * ?c"
    using t(1) b by (subst iffD1 [OF unat_mult_lem]) (simp_all add: unat_div a)
  also have "\<dots> \<le> ?n * ?m div 2" by (rule b)
  also have "\<dots> \<le> ?n * Min (set ms) div 2" using t(2) by (rule div_le_mono)
  finally show ?thesis .
qed

lemma size_of_level_capacity:
  assumes "size_of_level l chunk un = Inr (s, o')" and "summarizes un ms"
    and two: "l = RAID10 \<Longrightarrow> copies p = 2"
  shows "unat s \<le> capacity p l ms"
proof -
  have n: "unat (un_number un) = length ms" and sum: "unat (un_sum un) \<le> sum_list ms"
    and low: "\<forall>s \<in> set ms. unat (un_smallest un) \<le> s"
    using assms(2) by (simp_all add: summarizes_def)
  have num: "k \<le> un_number un \<longleftrightarrow> unat k \<le> length ms" for k by (simp add: word_le_nat_alt n)
  show ?thesis
  proof (cases l)
    case RAID1
    have "2 \<le> length ms \<Longrightarrow> unat (un_smallest un) \<le> Min (set ms)"
      by (rule min_members [OF low]) auto
    then show ?thesis using assms(1) RAID1 by (auto simp: size_of_level_def capacity_def Let_def num split: if_splits)
  next
    case RAID4
    then show ?thesis using assms(1) parity_size [OF assms(2), of 1]
      by (auto simp: size_of_level_def capacity_def Let_def num emap_eq_Inr split: if_splits)
  next
    case RAID5
    then show ?thesis using assms(1) parity_size [OF assms(2), of 1]
      by (auto simp: size_of_level_def capacity_def Let_def num emap_eq_Inr split: if_splits)
  next
    case RAID6
    then show ?thesis using assms(1) parity_size [OF assms(2), of 2]
      by (auto simp: size_of_level_def capacity_def Let_def num emap_eq_Inr split: if_splits)
  next
    case RAID10
    show ?thesis
    proof (cases "2 \<le> length ms")
      case True
      then have "s = un_smallest un div chunk * ucast (un_number un) div 2 * chunk"
        using assms(1) RAID10 by (cases "chunk = 0") (auto simp: size_of_level_def Let_def num emap_eq_Inr)
      then show ?thesis using striped_size [OF assms(2) True, of chunk] RAID10 True two
        by (simp add: capacity_def Let_def)
    next
      case False
      then show ?thesis using assms(1) RAID10 by (simp add: size_of_level_def capacity_def Let_def num)
    qed
  qed (use assms(1) sum in \<open>auto simp: size_of_level_def capacity_def Let_def num emap_eq_Inr split: if_splits\<close>)
qed

section \<open>The region\<close>

lemma resize_region_bytes:
  assumes "resize_region r b s = Inr r'"
  shows "unat (r_length r') * unat (r_block_size r') \<le> unat s"
proof -
  obtain q n where "to_blocks q s = Inr n" "region_new (r_start q) n (r_block_size q) = Inr r'"
    using assms unfolding resize_region_def by (auto simp only: ebind_eq_Inr)
  then show ?thesis by (auto simp: to_blocks_def region_new_def unat_div split: if_splits)
qed

lemma resize_region_again:
  assumes "resize_region r b s = Inr r'"
  shows "resize_region r' b s = Inr r'"
proof (cases "b \<noteq> 0 \<and> b \<noteq> ucast (r_block_size r)")
  case True
  then have "r' = \<lparr>r_start = 0, r_length = s div ucast b, r_block_size = ucast b\<rparr>" and nz: "(ucast b :: u64) \<noteq> 0"
    using assms by (auto simp: resize_region_def to_blocks_def region_new_def split: if_splits)
  then show ?thesis by (simp add: resize_region_def to_blocks_def region_new_def)
next
  case False
  then have e: "ebind (to_blocks r s) (\<lambda>n. region_new (r_start r) n (r_block_size r)) = Inr r'"
    using assms unfolding resize_region_def by (simp only: if_False ebind_Inr)
  then have "r' = \<lparr>r_start = r_start r, r_length = s div r_block_size r, r_block_size = r_block_size r\<rparr>"
    by (simp add: to_blocks_def region_new_def split: if_splits)
  then have r': "r_block_size r' = r_block_size r" "r_start r' = r_start r" by simp_all
  have "to_blocks r' s = to_blocks r s" by (simp add: to_blocks_def r')
  then show ?thesis using False e unfolding resize_region_def r' by (simp only: if_False ebind_Inr r')
qed

lemma calculate_cases:
  assumes "calculate_region_and_topology md = Inr md'" and "\<not> md_in_system md"
  obtains un s o' where "all_underlying md = Inr un"
    and "size_of_level (md_level md) (real_chunk_size md) un = Inr (s, o')"
    and "resize_region (md_region md) (un_block_size un) s = Inr (md_region md')"
    and "md' = md\<lparr>md_region := md_region md', md_topology := topology_new 0 o'\<rparr>"
proof -
  have nb: "md_in_system md = False" using assms(2) by simp
  obtain un p where un: "all_underlying md = Inr un"
    "size_of_level (md_level md) (real_chunk_size md) un = Inr p"
    "(case p of (s, o') \<Rightarrow> emap (\<lambda>r. md\<lparr>md_region := r, md_topology := topology_new 0 o'\<rparr>)
          (resize_region (md_region md) (un_block_size un) s)) = Inr md'"
    using assms(1) unfolding calculate_region_and_topology_def nb if_False ebind_eq_Inr by blast
  obtain s o' where p: "p = (s, o')" by (cases p)
  then show ?thesis using that un by (auto simp: emap_eq_Inr)
qed

lemma members_le: "sum_list (members ds) \<le> sum_list (map dev_size ds)"
  by (induction ds) (auto simp: members_def usable_def)

lemma all_underlying_summarizes:
  assumes "all_underlying md = Inr un" and "unat (real_chunk_size md) < 2 ^ 63" and "fits64 (md_devices md)"
  shows "summarizes un (members (md_devices md))"
proof -
  let ?ds = "md_devices md"
  have le: "length (members ?ds) \<le> length ?ds" by (simp add: members_def)
  have "sum_list (members ?ds) \<le> sum_list (map dev_size ?ds)" by (rule members_le)
  then have sum: "sum_list (members ?ds) < 2 ^ 64" using assms(3) by (simp add: fits64_def)
  have n: "length (members ?ds) < 2 ^ 32" using le assms(3) by (simp add: fits64_def)
  have 0: "unat (0 :: u64) + sum_list (map dev_size ?ds) < 2 ^ 64" using assms(3) by (simp add: fits64_def)
  note b = underlying_bounds [OF assms(1) [unfolded all_underlying_def] assms(2)]
  have "un_number un = word_of_nat (length (members ?ds))" using b 0 by simp
  then have "unat (un_number un) = length (members ?ds)" using n by (simp add: unat_word_of_nat)
  then show ?thesis using b 0 sum by (auto simp: summarizes_def)
qed

lemma calculated_capacity:
  assumes "calculate_region_and_topology md = Inr md'" and "\<not> md_in_system md"
    and "unat (md_chunk_size md) < 2 ^ 63" and "fits64 (md_devices md)"
    and two: "md_level md = RAID10 \<Longrightarrow> copies p = 2"
  shows "unat (r_length (md_region md')) * unat (r_block_size (md_region md'))
    \<le> capacity p (md_level md) (members (md_devices md))"
proof -
  obtain un s o' where un: "all_underlying md = Inr un"
    and s: "size_of_level (md_level md) (real_chunk_size md) un = Inr (s, o')"
    and r: "resize_region (md_region md) (un_block_size un) s = Inr (md_region md')"
    using calculate_cases [OF assms(1,2)] by metis
  have "unat (real_chunk_size md) < 2 ^ 63"
    using assms(3) by (auto simp: real_chunk_size_def get_default_chunk_size_def)
  then have "unat s \<le> capacity p (md_level md) (members (md_devices md))"
    using size_of_level_capacity [OF s all_underlying_summarizes [OF un _ assms(4)] two] by simp
  then show ?thesis using resize_region_bytes [OF r] by linarith
qed

section \<open>Sequences of operations\<close>

text \<open>
  The operations on a RAID that is not on disk, the client's and those the devices below trigger.
\<close>

inductive md_step :: "md \<Rightarrow> md \<Rightarrow> bool" where
  level: "set_md_level l md = Inr md' \<Longrightarrow> md_step md md'"
| chunk: "set_chunk_size c md = Inr md' \<Longrightarrow> md_step md md'"
| add: "add_device k sid name r t md = Inr md' \<Longrightarrow> md_step md md'"
| remove: "remove_device sid md = Inr md' \<Longrightarrow> md_step md md'"
| spare: "set_spare b sid md = Inr md' \<Longrightarrow> md_step md md'"
| faulty: "set_faulty b sid md = Inr md' \<Longrightarrow> md_step md md'"
| journal: "set_journal b sid md = Inr md' \<Longrightarrow> md_step md md'"
| parity: "md_step md (md\<lparr>md_parity := p\<rparr>)"
| metadata: "md_step md (md\<lparr>md_metadata := s\<rparr>)"
| uuid: "md_step md (md\<lparr>md_uuid := s\<rparr>)"
| etc: "md_step md (md\<lparr>md_in_etc_mdadm := b\<rparr>)"
| region: "device_has_new_region sid r md = Inr md' \<Longrightarrow> md_step md md'"
| topology: "md_step md (device_has_new_topology sid t md)"

inductive md_reach :: "md \<Rightarrow> bool" where
  new: "md_reach (md_new name)"
| step: "md_reach md \<Longrightarrow> md_step md md' \<Longrightarrow> md_reach md'"

text \<open>A further calculation would give the same region.\<close>

definition region_current :: "md \<Rightarrow> bool" where
  "region_current md \<longleftrightarrow> \<not> md_in_system md
     \<and> emap md_region (calculate_region_and_topology md) = Inr (md_region md)"

lemma calculate_kept:
  assumes "calculate_region_and_topology md = Inr md'"
  shows "md_in_system md' = md_in_system md" and "md_devices md' = md_devices md"
    and "md_level md' = md_level md" and "md_chunk_size md' = md_chunk_size md"
proof -
  have "md_in_system md' = md_in_system md \<and> md_devices md' = md_devices md
    \<and> md_level md' = md_level md \<and> md_chunk_size md' = md_chunk_size md"
  proof (cases "md_in_system md")
    case True
    then show ?thesis using assms by (simp add: calculate_region_and_topology_def)
  next
    case False
    obtain o' where "md' = md\<lparr>md_region := md_region md', md_topology := topology_new 0 o'\<rparr>"
      using calculate_cases [OF assms False] by metis
    then obtain r where "md' = md\<lparr>md_region := r, md_topology := topology_new 0 o'\<rparr>" by blast
    then show ?thesis by simp
  qed
  then show "md_in_system md' = md_in_system md" and "md_devices md' = md_devices md"
    and "md_level md' = md_level md" and "md_chunk_size md' = md_chunk_size md" by blast+
qed

text \<open>A calculation only depends on the level, the chunk size, the devices and the block size.\<close>

definition same_input :: "md \<Rightarrow> md \<Rightarrow> bool" where
  "same_input a b \<longleftrightarrow> md_in_system a = md_in_system b \<and> md_level a = md_level b
     \<and> md_chunk_size a = md_chunk_size b \<and> md_devices a = md_devices b"

lemma same_input_underlying:
  assumes "same_input a b"
  shows "all_underlying a = all_underlying b" and "real_chunk_size a = real_chunk_size b"
  using assms by (simp_all add: same_input_def all_underlying_def real_chunk_size_def)

lemma calculate_region:
  "\<not> md_in_system md \<Longrightarrow> emap md_region (calculate_region_and_topology md) =
     ebind (all_underlying md) (\<lambda>un. ebind (emap fst (size_of_level (md_level md) (real_chunk_size md) un)) (\<lambda>s.
       resize_region (md_region md) (un_block_size un) s))"
  by (auto simp: calculate_region_and_topology_def emap_def ebind_def split: sum.splits prod.splits)

lemma calculated_current:
  assumes "calculate_region_and_topology md = Inr md'" and "\<not> md_in_system md"
  shows "region_current md'"
proof -
  obtain un s o' where un: "all_underlying md = Inr un"
    and s: "size_of_level (md_level md) (real_chunk_size md) un = Inr (s, o')"
    and r: "resize_region (md_region md) (un_block_size un) s = Inr (md_region md')"
    using calculate_cases [OF assms] by metis
  note kept = calculate_kept [OF assms(1)]
  have si: "same_input md' md" using kept by (simp add: same_input_def)
  have ns: "\<not> md_in_system md'" using kept(1) assms(2) by simp
  show ?thesis
    unfolding region_current_def calculate_region [OF ns] same_input_underlying [OF si] kept(3) un
    using ns resize_region_again [OF r] by (simp add: s)
qed

lemma current_irrelevant:
  assumes "region_current md" and "same_input md' md" and "md_region md' = md_region md"
  shows "region_current md'"
proof -
  have ns: "\<not> md_in_system md" "\<not> md_in_system md'" and l: "md_level md' = md_level md"
    using assms(1,2) by (auto simp: region_current_def same_input_def)
  show ?thesis
    using assms(1) ns unfolding region_current_def calculate_region [OF ns(1)] calculate_region [OF ns(2)]
      same_input_underlying [OF assms(2)] l assms(3) by simp
qed

text \<open>Topologies change the optimal I/O size only.\<close>

definition same_sizes :: "underlying \<Rightarrow> underlying \<Rightarrow> bool" where
  "same_sizes a b \<longleftrightarrow> un_number a = un_number b \<and> un_sum a = un_sum b
     \<and> un_smallest a = un_smallest b \<and> un_block_size a = un_block_size b"

definition except_topology :: "md_device \<Rightarrow> md_device \<Rightarrow> bool" where
  "except_topology d e \<longleftrightarrow> mdd_region d = mdd_region e \<and> mdd_spare d = mdd_spare e
     \<and> mdd_journal d = mdd_journal e"

lemma same_sizes_refl: "same_sizes a a"
  by (simp add: same_sizes_def)

lemma underlying_step_same:
  assumes "underlying_step chunk d a = Inr a'" and "same_sizes a b" and "except_topology d e"
  shows "\<exists>b'. underlying_step chunk e b = Inr b' \<and> same_sizes a' b'"
  using assms
  by (auto simp: underlying_step_def same_sizes_def except_topology_def Let_def ebind_eq_Inr)

lemma underlying_same:
  assumes "list_all2 except_topology ds es" and "efold (underlying_step chunk) ds a = Inr a'" and "same_sizes a b"
  shows "\<exists>b'. efold (underlying_step chunk) es b = Inr b' \<and> same_sizes a' b'"
  using assms
proof (induction ds es arbitrary: a b rule: list_all2_induct)
  case Nil
  then show ?case by simp
next
  case (Cons d ds e es)
  obtain v where v: "underlying_step chunk d a = Inr v" "efold (underlying_step chunk) ds v = Inr a'"
    using Cons.prems(1) by (auto simp: ebind_eq_Inr)
  obtain w where w: "underlying_step chunk e b = Inr w" "same_sizes v w"
    using underlying_step_same [OF v(1) Cons.prems(2) Cons.hyps(1)] by blast
  show ?case using Cons.IH [OF v(2) w(2)] w(1) by simp
qed

lemma size_of_level_same:
  "same_sizes a b \<Longrightarrow> emap fst (size_of_level l c a) = emap fst (size_of_level l c b)"
  by (cases l) (auto simp: size_of_level_def same_sizes_def Let_def emap_def split: sum.splits)

lemma topology_keeps_current:
  assumes "region_current md"
  shows "region_current (device_has_new_topology sid t md)" (is "region_current ?md")
proof -
  have ns: "\<not> md_in_system md" using assms by (simp add: region_current_def)
  have upd: "md_in_system ?md = md_in_system md" "md_level ?md = md_level md" "md_region ?md = md_region md"
    "real_chunk_size ?md = real_chunk_size md"
    by (simp_all add: device_has_new_topology_def update_device_def real_chunk_size_def)
  have ns': "\<not> md_in_system ?md" using ns upd by simp
  have eq: "list_all2 except_topology (md_devices md) (md_devices ?md)"
    by (simp add: device_has_new_topology_def update_device_def list_all2_map2 except_topology_def list.rel_refl)
  obtain un where un: "all_underlying md = Inr un"
    using assms ns unfolding region_current_def calculate_region [OF ns] ebind_eq_Inr by blast
  obtain un' where un': "all_underlying ?md = Inr un'" "same_sizes un un'"
    using underlying_same [OF eq un [unfolded all_underlying_def] same_sizes_refl] upd(4)
    by (auto simp: all_underlying_def)
  have b: "un_block_size un' = un_block_size un" using un'(2) by (simp add: same_sizes_def)
  show ?thesis
    using assms ns unfolding region_current_def calculate_region [OF ns] calculate_region [OF ns'] un un'(1) ebind_Inr
      upd b size_of_level_same [OF un'(2)] by simp
qed

lemma set_role_current:
  assumes "region_current md" and "set_role get set_it b sid md = Inr md'"
  shows "region_current md'"
proof -
  have ns: "\<not> md_in_system (update_device sid set_it md)"
    using assms(1) by (simp add: region_current_def update_device_def)
  show ?thesis using assms calculated_current [OF _ ns]
    by (auto simp: set_role_def split: option.splits if_splits)
qed

lemma new_current: "region_current (md_new name)"
  by (simp add: region_current_def calculate_region_and_topology_def md_new_def all_underlying_def
      size_of_level_def resize_region_def to_blocks_def region_new_def)

lemma step_current:
  assumes "md_step md md'" and cur: "region_current md"
  shows "region_current md'"
proof -
  have ns: "\<not> md_in_system md" using cur by (simp add: region_current_def)
  show ?thesis
    using assms(1)
  proof cases
    case (level l)
    then show ?thesis using cur calculated_current [of "md\<lparr>md_level := l\<rparr>"] ns
      by (auto simp: set_md_level_def split: if_splits)
  next
    case (chunk c)
    then show ?thesis using cur calculated_current [of "md\<lparr>md_chunk_size := c\<rparr>"] ns
      by (auto simp: set_chunk_size_def ebind_eq_Inr split: if_splits)
  next
    case (add k sid name r t)
    then show ?thesis using ns by (auto simp: add_device_def split: if_splits elim!: calculated_current)
  next
    case (remove sid)
    then show ?thesis using ns by (auto simp: remove_device_def split: if_splits elim!: calculated_current)
  next
    case (region sid r)
    then show ?thesis using ns
      by (auto simp: device_has_new_region_def update_device_def elim!: calculated_current)
  next
    case (topology sid t)
    then show ?thesis using topology_keeps_current [OF cur] by simp
  qed (use cur set_role_current in \<open>auto simp: set_spare_def set_faulty_def set_journal_def same_input_def
      intro: current_irrelevant\<close>)
qed

lemma reachable_current: "md_reach md \<Longrightarrow> region_current md"
  by (induction rule: md_reach.induct) (auto intro: new_current step_current)

text \<open>
  C21: A RAID that is not on disk never gets larger than what its level can store on its members,
  after every sequence of operations on it and on the devices below: every member loses the room
  for the superblock, the bitmap and the bad block log first, and the spare and journal devices do
  not count. A RAID10 must have a parity with two copies: the code ignores the parity, and with
  \<open>NEAR_3\<close>, \<open>OFFSET_3\<close> or \<open>FAR_3\<close> the size is too great, see \<open>three_copies_oversized\<close> below. The
  sizes of the devices sum up to less than 2 ^ 64 and the chunk size is below 2 ^ 63.
\<close>

theorem reachable_md_capacity:
  assumes "md_reach md" and "unat (md_chunk_size md) < 2 ^ 63" and "fits64 (md_devices md)"
    and "md_level md = RAID10 \<Longrightarrow> copies (md_parity md) = 2"
  shows "unat (r_length (md_region md)) * unat (r_block_size (md_region md))
    \<le> capacity (md_parity md) (md_level md) (members (md_devices md))"
proof -
  have cur: "region_current md" using assms(1) by (rule reachable_current)
  then obtain md' where md': "calculate_region_and_topology md = Inr md'" "md_region md' = md_region md"
    by (auto simp: region_current_def emap_eq_Inr)
  show ?thesis
    using calculated_capacity [OF md'(1) _ assms(2-4)] cur md'(2) by (simp add: region_current_def)
qed

text \<open>A RAID 1 of two disks of 1 GiB and a bit less.\<close>

definition example_md :: "md result" where
  "example_md =
     ebind (add_device 0 1 ''/dev/sda'' \<lparr>r_start = 0, r_length = 2097152, r_block_size = 512\<rparr> (topology_new 0 0)
       (md_new ''/dev/md0'')) (\<lambda>md.
     ebind (add_device 0 2 ''/dev/sdb'' \<lparr>r_start = 0, r_length = 2000000, r_block_size = 512\<rparr> (topology_new 0 0) md)
       (set_md_level RAID1))"

lemma example_md_reach: "example_md = Inr md \<Longrightarrow> md_reach md"
  unfolding example_md_def ebind_eq_Inr
  by (elim exE conjE)
    (rule md_reach.step [OF md_reach.step [OF md_reach.step [OF md_reach.new add] add] level]; assumption)

lemma example_data_sizes:
  "data_size 524288 1073741824 = Inr 1054884864 \<and> data_size 524288 1024000000 = Inr 1005649920
    \<and> data_size 65536 1073741824 = Inr 1054884864 \<and> data_size 65536 1024000000 = Inr 1006697472"
  by code_simp

lemma example_md_value:
  "\<exists>md. example_md = Inr md \<and> md_chunk_size md = 0 \<and> md_level md = RAID1
     \<and> r_length (md_region md) = 1966206
     \<and> map (\<lambda>d. (r_length (mdd_region d), r_block_size (mdd_region d))) (md_devices md)
       = [(2097152, 512), (2000000, 512)]"
  using example_data_sizes unfolding example_md_def
  by (simp add: add_device_def md_new_def topology_new_def default_minimal_grain_def
      calculate_region_and_topology_def all_underlying_def underlying_step_def real_chunk_size_def
      get_default_chunk_size_def to_bytes_def size_of_level_def resize_region_def to_blocks_def
      region_new_def set_md_level_def Let_def)

lemma reachable_md_capacity_witness:
  "\<exists>md. md_reach md \<and> unat (md_chunk_size md) < 2 ^ 63 \<and> fits64 (md_devices md) \<and> md_level md = RAID1
     \<and> unat (r_length (md_region md)) = 1966206
     \<and> unat (r_length (md_region md)) * unat (r_block_size (md_region md))
         \<le> capacity (md_parity md) (md_level md) (members (md_devices md))"
proof -
  obtain md where ex: "example_md = Inr md"
    and md: "md_chunk_size md = 0" "md_level md = RAID1" "r_length (md_region md) = 1966206"
    and ds: "map (\<lambda>d. (r_length (mdd_region d), r_block_size (mdd_region d))) (md_devices md)
        = [(2097152, 512), (2000000, 512)]"
    using example_md_value by (elim exE conjE)
  have "map dev_size (md_devices md) = map (\<lambda>(n, b). unat n * unat b)
      (map (\<lambda>d. (r_length (mdd_region d), r_block_size (mdd_region d))) (md_devices md))"
    by (simp add: dev_size_def)
  moreover have "length (md_devices md) = 2" using arg_cong [OF ds, of length] by simp
  ultimately have f: "fits64 (md_devices md)" unfolding ds by (simp add: fits64_def)
  have c: "unat (md_chunk_size md) < 2 ^ 63" by (simp add: md(1))
  note reach = example_md_reach [OF ex]
  show ?thesis
    using reach c f md reachable_md_capacity [OF reach c f] by (intro exI [of _ md]) simp
qed

text \<open>
  A RAID10 of three disks of 1 GiB with three copies: it can store what one member stores, but it is
  given half as much again.
\<close>

definition example_near3 :: "md result" where
  "example_near3 =
     (let r = \<lparr>r_start = 0, r_length = 2097152, r_block_size = 512\<rparr>; t = topology_new 0 0 in
     ebind (add_device 0 1 ''/dev/sda'' r t (md_new ''/dev/md0'')) (\<lambda>md.
     ebind (add_device 0 2 ''/dev/sdb'' r t md) (\<lambda>md.
     ebind (add_device 0 3 ''/dev/sdc'' r t md) (\<lambda>md.
     ebind (set_md_level RAID10 md) (\<lambda>md. Inr (md\<lparr>md_parity := NEAR_3\<rparr>))))))"

lemma example_near3_reach: "example_near3 = Inr md \<Longrightarrow> md_reach md"
  unfolding example_near3_def ebind_eq_Inr Let_def
  by (elim exE conjE, hypsubst_thin?, simp only: sum.inject, hypsubst_thin?)
    (rule md_reach.step [OF md_reach.step [OF md_reach.step [OF md_reach.step
      [OF md_reach.step [OF md_reach.new add] add] add] level] parity]; assumption)

lemma example_stripe: "long_mult 524288 3 = Inr 1572864 \<and> long_half 1572864 = 786432"
  by code_simp

lemma example_near3_value:
  "\<exists>md. example_near3 = Inr md \<and> md_parity md = NEAR_3 \<and> md_level md = RAID10
     \<and> md_region md = \<lparr>r_start = 0, r_length = 3090432, r_block_size = 512\<rparr>
     \<and> map (\<lambda>d. (r_length (mdd_region d), r_block_size (mdd_region d), mdd_spare d, mdd_journal d)) (md_devices md)
       = [(2097152, 512, False, False), (2097152, 512, False, False), (2097152, 512, False, False)]"
  using example_data_sizes example_stripe unfolding example_near3_def
  by (simp add: add_device_def md_new_def topology_new_def default_minimal_grain_def
      calculate_region_and_topology_def all_underlying_def underlying_step_def real_chunk_size_def
      get_default_chunk_size_def to_bytes_def size_of_level_def resize_region_def to_blocks_def
      region_new_def set_md_level_def Let_def with_optimal_io_size_def)

lemma three_copies_oversized:
  "\<exists>md. md_reach md \<and> md_level md = RAID10 \<and> NEAR_3 \<in> set (get_allowed_md_parities md) \<and>
     capacity (md_parity md) (md_level md) (members (md_devices md))
       < unat (r_length (md_region md)) * unat (r_block_size (md_region md))"
proof -
  obtain md where ex: "example_near3 = Inr md"
    and md: "md_parity md = NEAR_3" "md_level md = RAID10"
      "md_region md = \<lparr>r_start = 0, r_length = 3090432, r_block_size = 512\<rparr>"
    and ds: "map (\<lambda>d. (r_length (mdd_region d), r_block_size (mdd_region d), mdd_spare d, mdd_journal d)) (md_devices md)
        = [(2097152, 512, False, False), (2097152, 512, False, False), (2097152, 512, False, False)]"
    using example_near3_value by (elim exE conjE)
  define f where "f = (\<lambda>d :: md_device. (r_length (mdd_region d), r_block_size (mdd_region d), mdd_spare d, mdd_journal d))"
  have all: "is_member d \<and> dev_size d = 1073741824" if "d \<in> set (md_devices md)" for d
  proof -
    have "f d \<in> set (map f (md_devices md))" using that by simp
    then have "f d = (2097152, 512, False, False)" unfolding f_def ds by simp
    then show ?thesis by (simp add: f_def is_member_def dev_size_def)
  qed
  have len: "length (md_devices md) = 3" using arg_cong [OF ds, of length] by simp
  have flt: "filter is_member (md_devices md) = md_devices md" using all by (simp add: filter_id_conv)
  have a: "number_of_devices md = 3" by (simp add: number_of_devices_def flt len)
  have "members (md_devices md) = map (\<lambda>_. usable 1073741824) (md_devices md)"
    unfolding members_def flt using all by simp
  then have "members (md_devices md) = replicate 3 (usable 1073741824)"
    by (simp only: map_replicate_const len)
  then have "capacity (md_parity md) (md_level md) (members (md_devices md)) = usable 1073741824"
    by (simp add: capacity_def copies_def md Let_def)
  moreover have "usable 1073741824 < 3090432 * 512" by (simp add: usable_def)
  ultimately show ?thesis using example_near3_reach [OF ex] a
    by (intro exI [of _ md]) (simp add: md get_allowed_md_parities_def)
qed

end
