(* ===== verification/MdNames.thy ===== *)
theory MdNames
  imports Md Algorithm "HOL-Library.Sublist"
begin

text \<open>
  The names of software RAIDs (storage/Devices/MdImpl.cc): the three regular expressions, numbers,
  valid names, the names in sysfs, and the search for a free number.
\<close>

section \<open>Definitions\<close>

text \<open>The expression \<open>/dev/md/?([0-9]+)\<close>, with what the group matches.\<close>

definition numeric_name :: "string \<Rightarrow> string option" where
  "numeric_name name =
     (if prefix ''/dev/md'' name
      then let rest = drop 7 name;
               digits = (if rest \<noteq> [] \<and> hd rest = CHR ''/'' then tl rest else rest)
           in if digits \<noteq> [] \<and> list_all is_digit digits then Some digits else None
      else None)"

text \<open>The expressions \<open>/dev/md/([^/ ]+)\<close> and \<open>/dev/md_([^/ ]+)\<close>.\<close>

definition name_after :: "string \<Rightarrow> string \<Rightarrow> string option" where
  "name_after pre name =
     (if prefix pre name
      then let rest = drop (length pre) name
           in if rest \<noteq> [] \<and> list_all (\<lambda>c. c \<noteq> CHR ''/'' \<and> c \<noteq> CHR '' '') rest then Some rest else None
      else None)"

definition format1_name :: "string \<Rightarrow> string option" where
  "format1_name = name_after ''/dev/md/''"

definition format2_name :: "string \<Rightarrow> string option" where
  "format2_name = name_after ''/dev/md_''"

text \<open>A value beyond \<open>int\<close> is out of range.\<close>

definition stoi :: "string \<Rightarrow> int option" where
  "stoi digits = (if number_of_digits digits < 2 ^ 31 then Some (number_of_digits digits) else None)"

definition is_valid_name :: "string \<Rightarrow> bool" where
  "is_valid_name name =
     (case numeric_name name of
        Some number \<Rightarrow>
          \<not> (7 < length number \<or> (case stoi number of None \<Rightarrow> True | Some n \<Rightarrow> 1048575 < n))
      | None \<Rightarrow> (case format1_name name of Some short_name \<Rightarrow> length short_name \<le> 32 | None \<Rightarrow> False))"

definition is_valid_sysfs_name :: "string \<Rightarrow> bool" where
  "is_valid_sysfs_name name \<longleftrightarrow> numeric_name name \<noteq> None \<or> format2_name name \<noteq> None"

definition is_numeric :: "string \<Rightarrow> bool" where
  "is_numeric name \<longleftrightarrow> numeric_name name \<noteq> None"

definition get_number :: "string \<Rightarrow> u32 result" where
  "get_number name =
     (case numeric_name name of
        None \<Rightarrow> Inl (Exn ''not a numeric Md'')
      | Some digits \<Rightarrow> (case stoi digits of
          Some n \<Rightarrow> Inr (word_of_int n)
        | None \<Rightarrow> Inl (Exn ''Md number out of range'')))"

definition get_short_name :: "string \<Rightarrow> string result" where
  "get_short_name name =
     (case format1_name name of Some s \<Rightarrow> Inr s | None \<Rightarrow> Inl (Exn ''not a named Md''))"

text \<open>The names in sysfs have no leading zeros.\<close>

definition sysfs_name_and_path :: "string \<Rightarrow> string \<times> string" where
  "sysfs_name_and_path name =
     (case numeric_name name of
        None \<Rightarrow> ([], [])
      | Some number \<Rightarrow>
          let zeros = length (takeWhile (\<lambda>c. c = CHR ''0'') number);
              tmp = drop (min zeros (length number - 1)) number
          in (''md'' @ tmp, ''/devices/virtual/block/md'' @ tmp))"

definition md_set_name :: "string \<Rightarrow> md \<Rightarrow> md result" where
  "md_set_name name md =
     (if \<not> is_valid_name name then Inl (Exn ''invalid Md name'') else Inr (md\<lparr>md_name := name\<rparr>))"

fun numbers_of :: "string list \<Rightarrow> u32 list result" where
  "numbers_of [] = Inr []"
| "numbers_of (name # names) =
     (if is_numeric name
      then ebind (get_number name) (\<lambda>n. emap (Cons n) (numbers_of names))
      else numbers_of names)"

definition find_free_numeric_name :: "string list \<Rightarrow> string result" where
  "find_free_numeric_name names =
     emap (\<lambda>ns. ''/dev/md'' @ decimal (uint (first_missing_number (\<lambda>n. n) (sort ns) 0))) (numbers_of names)"

section \<open>The free number\<close>

lemma decimal_length: "0 \<le> n \<Longrightarrow> n < 10 ^ Suc k \<Longrightarrow> length (decimal n) \<le> Suc k"
proof (induction k arbitrary: n)
  case 0
  then show ?case by (subst decimal.simps) simp
next
  case (Suc k)
  show ?case
  proof (cases "n < 10")
    case True
    then show ?thesis by (subst decimal.simps) simp
  next
    case False
    have "length (decimal (n div 10)) \<le> Suc k" using Suc.prems by (intro Suc.IH) auto
    then show ?thesis using False by (subst decimal.simps) simp
  qed
qed

lemma numeric_name_decimal:
  assumes "0 \<le> n"
  shows "numeric_name (''/dev/md'' @ decimal n) = Some (decimal n)"
proof -
  note d = decimal_facts [OF assms]
  have "is_digit (hd (decimal n))" using d(1,2) by simp
  then have "hd (decimal n) \<noteq> CHR ''/''" by (auto simp: is_digit_def)
  then show ?thesis using d(1,2) by (simp add: numeric_name_def list_all_iff)
qed

lemma get_number_decimal:
  assumes "unat (k :: u32) \<le> 1048575"
  shows "get_number (''/dev/md'' @ decimal (uint k)) = Inr k" and "is_valid_name (''/dev/md'' @ decimal (uint k))"
proof -
  have "int (unat k) \<le> int 1048575" using assms by (simp only: of_nat_le_iff)
  then have k: "0 \<le> uint k" "uint k \<le> 1048575" by simp_all
  note d = decimal_facts [OF k(1)]
  note nd = numeric_name_decimal [OF k(1), simplified append.simps]
  have s: "stoi (decimal (uint k)) = Some (uint k)" using k(2) by (simp add: stoi_def d(3))
  show "get_number (''/dev/md'' @ decimal (uint k)) = Inr k"
    by (simp add: get_number_def nd s)
  have "length (decimal (uint k)) \<le> Suc 6" by (rule decimal_length) (use k in simp_all)
  then show "is_valid_name (''/dev/md'' @ decimal (uint k))"
    using k(2) by (simp add: is_valid_name_def nd s)
qed

lemma numbers_of_length: "numbers_of names = Inr ns \<Longrightarrow> length ns \<le> length names"
proof (induction names arbitrary: ns)
  case Nil
  then show ?case by simp
next
  case (Cons x names)
  show ?case
  proof (cases "is_numeric x")
    case True
    then obtain m ms where "numbers_of names = Inr ms" "ns = m # ms"
      using Cons.prems by (auto simp: result_simps)
    then show ?thesis using Cons.IH by simp
  next
    case False
    then have "length ns \<le> length names" using Cons.prems by (intro Cons.IH) simp
    then show ?thesis by simp
  qed
qed

lemma numbers_of_numeric:
  "numbers_of names = Inr ns \<Longrightarrow> name \<in> set names \<Longrightarrow> get_number name = Inr n \<Longrightarrow> n \<in> set ns"
proof (induction names arbitrary: ns)
  case Nil
  then show ?case by simp
next
  case (Cons x names)
  have num: "is_numeric name" using Cons.prems(3) by (auto simp: get_number_def is_numeric_def split: option.splits)
  show ?case
  proof (cases "is_numeric x")
    case True
    then obtain m ms where m: "get_number x = Inr m" "numbers_of names = Inr ms" "ns = m # ms"
      using Cons.prems(1) by (auto simp: result_simps)
    then show ?thesis using Cons.IH [OF m(2)] Cons.prems(2,3) by auto
  next
    case False
    then have "numbers_of names = Inr ns" "name \<noteq> x" using Cons.prems(1) num by auto
    then show ?thesis using Cons.IH Cons.prems(2,3) by simp
  qed
qed

text \<open>Valid names always have a number in range.\<close>

lemma valid_numbers: "\<forall>name \<in> set names. is_valid_name name \<Longrightarrow> \<exists>ns. numbers_of names = Inr ns"
  by (induction names)
    (auto simp: is_valid_name_def is_numeric_def get_number_def split: option.splits)

text \<open>
  The numeric name that is proposed for a new RAID is valid, and neither it nor its number is
  used by one of the RAIDs of the devicegraph, if no two of these have the same number.
\<close>

theorem free_numeric_name_unused:
  assumes "\<forall>name \<in> set names. is_valid_name name" and "length names < 1048575"
    and "numbers_of names = Inr ns" and "distinct ns"
  shows "\<exists>name n. find_free_numeric_name names = Inr name \<and> is_valid_name name \<and> name \<notin> set names
    \<and> get_number name = Inr n \<and> n \<notin> set ns"
proof -
  define n where "n = first_missing_number (\<lambda>n. n) (sort ns) 0"
  have "sorted_wrt (<) (map (\<lambda>n. n) (sort ns))" using assms(4) by (simp add: strict_sorted_iff)
  moreover have len: "length ns < 1048575" using numbers_of_length [OF assms(3)] assms(2) by simp
  ultimately have f: "n \<notin> set ns" "unat n \<le> length ns"
    using first_missing_number_free [of "\<lambda>n. n" "sort ns" 0] by (simp_all add: n_def)
  then have k: "unat n \<le> 1048575" using len by simp
  have "''/dev/md'' @ decimal (uint n) \<notin> set names"
    using numbers_of_numeric [OF assms(3) _ get_number_decimal(1) [OF k]] f(1) by blast
  moreover have "find_free_numeric_name names = Inr (''/dev/md'' @ decimal (uint n))"
    by (simp add: find_free_numeric_name_def assms(3) n_def)
  ultimately show ?thesis using get_number_decimal [OF k] f(1) by blast
qed

lemma free_numeric_name_unused_witness:
  "\<exists>name n. find_free_numeric_name [''/dev/md1'', ''/dev/md/home'', ''/dev/md/00'', ''/dev/md3''] = Inr name
    \<and> is_valid_name name \<and> name \<notin> set [''/dev/md1'', ''/dev/md/home'', ''/dev/md/00'', ''/dev/md3'']
    \<and> get_number name = Inr n \<and> n \<notin> set [1, 0, 3]"
proof (rule free_numeric_name_unused)
  have "list_all is_valid_name [''/dev/md1'', ''/dev/md/home'', ''/dev/md/00'', ''/dev/md3'']" by code_simp
  then show "\<forall>name \<in> set [''/dev/md1'', ''/dev/md/home'', ''/dev/md/00'', ''/dev/md3'']. is_valid_name name"
    by (simp only: list_all_iff)
  show "numbers_of [''/dev/md1'', ''/dev/md/home'', ''/dev/md/00'', ''/dev/md3''] = Inr [1, 0, 3]" by code_simp
qed simp_all

text \<open>Names of both forms with one number make the search stop too early.\<close>

lemma free_numeric_name_used:
  "find_free_numeric_name [''/dev/md0'', ''/dev/md/0'', ''/dev/md1''] = Inr ''/dev/md1''"
  by code_simp

end
