(* ===== verification/FstabRound.thy ===== *)
theory FstabRound
  imports Fstab
begin

text \<open>
  What is written to /etc/fstab is read back: columns, options, numbers, types, entries, and, by
  the contract of \<open>ConfigRound\<close>, whole files. An option with an encoded blank does not survive.
\<close>

section \<open>Columns\<close>

definition word_column :: "string \<Rightarrow> bool" where
  "word_column s \<longleftrightarrow> s \<noteq> [] \<and> (\<forall>c \<in> set s. \<not> is_ws c)"

fun column_tail :: "bool \<Rightarrow> nat list \<Rightarrow> nat \<Rightarrow> string list \<Rightarrow> string" where
  "column_tail pad widths i [] = []"
| "column_tail pad widths i (col # cols) =
     (let field_width = (if i < length widths then widths ! i else 0)
      in ''  '' @ col @ (if pad \<and> length col < field_width \<and> cols \<noteq> []
            then replicate (field_width - length col) (CHR '' '') else [])
         @ column_tail pad widths (Suc i) cols)"

lemma column_loop_tail:
  "result \<noteq> [] \<Longrightarrow> column_loop pad widths i result cols = result @ column_tail pad widths i cols"
  by (induction cols arbitrary: i result) (simp_all add: Let_def)

lemma column_format_tail:
  assumes "columns e = col # cols" and "col \<noteq> []"
  obtains spaces where "column_format pad widths e = col @ spaces @ column_tail pad widths 1 cols"
    and "\<forall>c \<in> set spaces. is_ws c" and "cols = [] \<longrightarrow> spaces = []"
proof -
  define spaces where "spaces = (if pad \<and> length col < (if 0 < length widths then widths ! 0 else 0) \<and> cols \<noteq> []
      then replicate ((if 0 < length widths then widths ! 0 else 0) - length col) (CHR '' '') else [])"
  have "column_format pad widths e = col @ spaces @ column_tail pad widths 1 cols"
    using assms by (simp add: column_format_def Let_def column_loop_tail spaces_def)
  moreover have "\<forall>c \<in> set spaces. is_ws c" "cols = [] \<longrightarrow> spaces = []"
    by (simp_all add: spaces_def is_ws_def)
  ultimately show ?thesis by (rule that)
qed

lemma split_columns:
  assumes "word_column col" and "\<forall>c \<in> set cols. word_column c" and "\<forall>c \<in> set spaces. is_ws c"
    and "cols = [] \<longrightarrow> spaces = []"
  shows "split_any is_ws (col @ spaces @ column_tail pad widths i cols) = col # cols
    \<and> \<not> is_ws (last (col @ spaces @ column_tail pad widths i cols))"
  using assms
proof (induction cols arbitrary: col spaces i)
  case Nil
  then show ?case by (auto simp: word_column_def split_any_no_sep)
next
  case (Cons d ds)
  define more where "more = (let field_width = (if i < length widths then widths ! i else 0)
      in if pad \<and> length d < field_width \<and> ds \<noteq> []
         then replicate (field_width - length d) (CHR '' '') else [])"
  have more: "\<forall>c \<in> set more. is_ws c" "ds = [] \<longrightarrow> more = []"
    "column_tail pad widths i (d # ds) = ''  '' @ d @ more @ column_tail pad widths (Suc i) ds"
    by (simp_all add: more_def Let_def is_ws_def)
  define rest where "rest = d @ more @ column_tail pad widths (Suc i) ds"
  have d: "word_column d" "\<forall>c \<in> set ds. word_column c" using Cons.prems(2) by simp_all
  have ih: "split_any is_ws rest = d # ds \<and> \<not> is_ws (last rest)"
    unfolding rest_def by (rule Cons.IH [OF d more(1,2)])
  have "d \<noteq> []" using d(1) by (simp add: word_column_def)
  then have ne: "rest \<noteq> []" and "hd rest = hd d" by (simp_all add: rest_def)
  then have hd: "\<not> is_ws (hd rest)" using d(1) by (simp add: word_column_def)
  have line: "col @ spaces @ column_tail pad widths i (d # ds) = col @ (spaces @ ''  '') @ rest"
    unfolding more(3) rest_def by simp
  have "split_any is_ws (col @ (spaces @ ''  '') @ rest) = col # split_any is_ws rest"
    using Cons.prems(1,3) hd by (intro split_any_cons) (auto simp: word_column_def is_ws_def)
  then show ?case unfolding line using ih ne by simp
qed

lemma strip_trailing_id: "s = [] \<or> \<not> is_ws (last s) \<Longrightarrow> strip_trailing s = s"
  by (cases s rule: rev_cases) (auto simp: strip_trailing_def)

text \<open>A line of words is split into them again, whatever the widths are.\<close>

lemma split_format:
  assumes "columns e \<noteq> []" and "\<forall>c \<in> set (columns e). word_column c"
  shows "column_split (column_format pad widths e) = columns e"
    and "strip_trailing (column_format pad widths e) = column_format pad widths e"
    and "column_format pad widths e \<noteq> [] \<and> hd (column_format pad widths e) = hd (hd (columns e))"
proof -
  obtain col cols where c: "columns e = col # cols" using assms(1) by (cases "columns e") auto
  then have w: "word_column col" "\<forall>c \<in> set cols. word_column c" using assms(2) by simp_all
  then have ne: "col \<noteq> []" by (simp add: word_column_def)
  obtain spaces where s: "column_format pad widths e = col @ spaces @ column_tail pad widths 1 cols"
    "\<forall>c \<in> set spaces. is_ws c" "cols = [] \<longrightarrow> spaces = []"
    using column_format_tail [OF c ne] .
  note r = split_columns [OF w s(2,3), of pad widths 1]
  show "column_split (column_format pad widths e) = columns e"
    using r by (simp add: column_split_def s(1) c)
  show "strip_trailing (column_format pad widths e) = column_format pad widths e"
    using r by (intro strip_trailing_id) (simp add: s(1))
  show "column_format pad widths e \<noteq> [] \<and> hd (column_format pad widths e) = hd (hd (columns e))"
    using ne by (simp add: s(1) c)
qed

lemma format_not_comment:
  assumes "columns e \<noteq> []" and "\<forall>c \<in> set (columns e). word_column c" and "hd (hd (columns e)) \<noteq> CHR ''#''"
  shows "\<not> comment_like ''#'' (column_format pad widths e)"
proof -
  note f = split_format(3) [OF assms(1,2), of pad widths]
  have "word_column (hd (columns e))" using assms(1,2) by simp
  then have "\<not> is_ws (hd (hd (columns e)))" by (simp add: word_column_def)
  then obtain c cs where "column_format pad widths e = c # cs" "\<not> is_ws c" "c \<noteq> CHR ''#''"
    using f assms(3) by (cases "column_format pad widths e") auto
  then show ?thesis by (simp add: comment_like_def is_empty_line_def is_comment_line_def)
qed

section \<open>Fields\<close>

lemma replace_absent:
  "pat \<noteq> [] \<Longrightarrow> hd pat \<notin> set s \<Longrightarrow> replace_all pat rep s = s"
proof (induction s)
  case Nil
  then show ?case by simp
next
  case (Cons c s)
  then have "\<not> prefix pat (c # s)" by (cases pat) auto
  then show ?case using Cons by (subst replace_all.simps) simp
qed

lemma fstab_decode_plain: "backslash \<notin> set s \<Longrightarrow> fstab_decode s = s"
  by (simp add: fstab_decode_def replace_absent)

definition simple_opt :: "string \<Rightarrow> bool" where
  "simple_opt opt \<longleftrightarrow> word_column opt \<and> CHR '','' \<notin> set opt \<and> backslash \<notin> set opt \<and> opt \<noteq> ''defaults''"

lemma opts_format_join:
  assumes "opts \<noteq> []" and "\<forall>opt \<in> set opts. simple_opt opt"
  shows "set (opts_format opts) \<subseteq> {CHR '',''} \<union> \<Union> (set ` set opts)" and "opts_format opts \<noteq> []"
proof -
  obtain t ts where o: "opts = t # ts" "t \<noteq> []" using assms
    by (cases opts) (auto simp: simple_opt_def word_column_def)
  then have "opts_format opts = t @ concat (map (\<lambda>s. '','' @ s) ts)"
    by (simp add: opts_format_def join_from_eq)
  then show "set (opts_format opts) \<subseteq> {CHR '',''} \<union> \<Union> (set ` set opts)" and "opts_format opts \<noteq> []"
    using o by auto
qed

lemma opts_column:
  assumes "\<forall>opt \<in> set opts. simple_opt opt"
  shows "word_column (opts_format opts)" and "backslash \<notin> set (opts_format opts)"
proof -
  have "word_column (opts_format opts) \<and> backslash \<notin> set (opts_format opts)"
  proof (cases "opts = []")
    case True
    then show ?thesis by (simp add: opts_format_def word_column_def is_ws_def backslash_def)
  next
    case False
    note f = opts_format_join [OF False assms]
    have "\<not> is_ws c \<and> c \<noteq> backslash" if "c \<in> set (opts_format opts)" for c
      using subsetD [OF f(1) that] assms by (auto simp: simple_opt_def word_column_def is_ws_def backslash_def)
    then show ?thesis using f(2) by (auto simp: word_column_def)
  qed
  then show "word_column (opts_format opts)" and "backslash \<notin> set (opts_format opts)" by blast+
qed

lemma opts_roundtrip:
  assumes "\<forall>opt \<in> set opts. simple_opt opt"
  shows "opts_parse (fstab_decode (opts_format opts)) = opts"
proof -
  have d: "fstab_decode (opts_format opts) = opts_format opts"
    by (rule fstab_decode_plain [OF opts_column(2) [OF assms]])
  show ?thesis
  proof (cases opts)
    case Nil
    have "split_any (\<lambda>c. c = CHR '','') ''defaults'' = [''defaults'']" by (rule split_any_no_sep) simp
    then show ?thesis using d Nil by (simp add: opts_parse_def opts_format_def opts_remove_def)
  next
    case (Cons t ts)
    have "split_any (\<lambda>c. c = CHR '','') (join_from '','' [] (t # ts)) = t # ts"
      by (rule split_join) (use assms Cons in \<open>auto simp: simple_opt_def word_column_def\<close>)
    moreover have "filter (\<lambda>o'. o' \<noteq> ''defaults'') opts = opts"
      using assms by (simp add: filter_id_conv simple_opt_def)
    ultimately show ?thesis unfolding opts_parse_def d using Cons by (simp add: opts_format_def opts_remove_def)
  qed
qed

lemma fs_name_facts: "fs_value (fs_name t) = Some t \<and> word_column (fs_name t)"
  by (cases t; simp add: fs_value_def fs_name_def fs_names_def fs_types_def word_column_def is_ws_def)

section \<open>Numbers\<close>

lemma digit_not_special:
  assumes "is_digit c"
  shows "\<not> is_space c" and "\<not> is_ws c" and "c \<noteq> CHR ''-''" and "c \<noteq> CHR ''+''"
  using assms by (auto simp: is_digit_def is_space_def is_ws_def)

lemma strtol_decimal:
  assumes "0 \<le> n" and "n < 2 ^ 63"
  shows "strtol (decimal n) = n" and "strtol (CHR ''-'' # decimal n) = - n"
proof -
  note d = decimal_facts [OF assms(1)]
  obtain c cs where c: "decimal n = c # cs" "is_digit c" using d(1,2) by (cases "decimal n") auto
  have t: "takeWhile is_digit (decimal n) = decimal n" using d(2) by (simp add: takeWhile_eq_all_conv)
  have sp: "dropWhile is_space (decimal n) = decimal n" "dropWhile is_space (CHR ''-'' # decimal n) = CHR ''-'' # decimal n"
    using digit_not_special(1) [OF c(2)] by (simp_all add: c(1) is_space_def)
  have h: "hd (decimal n) \<noteq> CHR ''-''" "hd (decimal n) \<noteq> CHR ''+''"
    using digit_not_special(3,4) [OF c(2)] by (simp_all add: c(1))
  show "strtol (decimal n) = n"
    unfolding strtol_def Let_def sp using d(1) h assms by (simp add: t d(3))
  show "strtol (CHR ''-'' # decimal n) = - n"
    unfolding strtol_def Let_def sp using assms by (simp add: t d(3))
qed

lemma sint_bounds: "- (2 ^ 31) \<le> sint (w :: u32) \<and> sint w < 2 ^ 31"
  using sint_range_size [of w] by (simp add: word_size)

lemma atoi_roundtrip: "atoi (signed_decimal (sint w)) = w"
proof -
  have "strtol (signed_decimal (sint w)) = sint w"
    using sint_bounds [of w] strtol_decimal [of "sint w"] strtol_decimal [of "- sint w"]
    by (auto simp: signed_decimal_def)
  then show ?thesis by (simp add: atoi_def)
qed

lemma signed_decimal_word: "word_column (signed_decimal n)"
proof -
  have "word_column (decimal m)" if "0 \<le> m" for m
    using decimal_facts [OF that] digit_not_special(2) by (auto simp: word_column_def)
  from this [of n] this [of "- n"] show ?thesis
    by (auto simp: signed_decimal_def word_column_def is_ws_def)
qed

section \<open>Paths\<close>

lemma collapse_facts:
  "(collapse_slashes p = [] \<longleftrightarrow> p = []) \<and> (p \<noteq> [] \<longrightarrow> hd (collapse_slashes p) = hd p)
    \<and> collapse_slashes (collapse_slashes p) = collapse_slashes p"
  by (induction p) auto

lemma collapse_butlast:
  "collapse_slashes p = p \<Longrightarrow> collapse_slashes (butlast p) = butlast p
    \<and> (1 < length p \<longrightarrow> last p = CHR ''/'' \<longrightarrow> last (butlast p) \<noteq> CHR ''/'')"
proof (induction p)
  case Nil
  then show ?case by simp
next
  case (Cons c p)
  show ?case
  proof (cases p)
    case Nil
    then show ?thesis by simp
  next
    case p: (Cons d q)
    have n: "\<not> (c = CHR ''/'' \<and> d = CHR ''/'')"
    proof
      assume "c = CHR ''/'' \<and> d = CHR ''/''"
      then have "collapse_slashes p = c # p" using Cons.prems p by simp
      moreover have "length (collapse_slashes p) \<le> length p"
        by (induction p rule: collapse_slashes.induct) auto
      ultimately show False by simp
    qed
    then have "collapse_slashes p = p" using Cons.prems p by (auto split: if_splits)
    from Cons.IH [OF this] show ?thesis using n p by (cases q) auto
  qed
qed

lemma normalize_idem: "normalize_path (normalize_path p) = normalize_path p"
proof -
  define q where "q = collapse_slashes p"
  have q: "collapse_slashes q = q" using collapse_facts by (simp add: q_def)
  show ?thesis
  proof (cases "q \<noteq> ''/'' \<and> q \<noteq> [] \<and> last q = CHR ''/''")
    case True
    then have n: "normalize_path p = butlast q" by (simp add: normalize_path_def q_def)
    have "1 < length q" using True by (cases q rule: rev_cases) (auto simp: neq_Nil_conv)
    then have "last (butlast q) \<noteq> CHR ''/''" using collapse_butlast [OF q] True by simp
    then show ?thesis unfolding n using collapse_butlast [OF q] by (simp add: normalize_path_def)
  next
    case False
    then have "normalize_path p = q" by (auto simp: normalize_path_def q_def)
    then show ?thesis using False q by (auto simp: normalize_path_def)
  qed
qed

section \<open>Entries and files\<close>

definition fstab_ok :: "fstab_entry \<Rightarrow> bool" where
  "fstab_ok e \<longleftrightarrow>
     fe_spec e \<noteq> [] \<and> hd (fe_spec e) \<noteq> CHR ''#'' \<and> no_escape fstab_codes (fe_spec e)
     \<and> fe_mount_point e \<noteq> [] \<and> normalize_path (fe_mount_point e) = fe_mount_point e
     \<and> no_escape fstab_codes (fe_mount_point e)
     \<and> (fe_fs_type e = UNKNOWN \<longrightarrow> old_type e \<noteq> [] \<longrightarrow>
          word_column (old_type e) \<and> fs_value (old_type e) \<in> {None, Some UNKNOWN})
     \<and> (\<forall>opt \<in> set (fe_mount_opts e). simple_opt opt)"

text \<open>What matters of an entry: all but the copy of the line it was read from.\<close>

definition fstab_val :: "fstab_entry \<Rightarrow> fstab_entry" where
  "fstab_val e = e\<lparr>content := []\<rparr>"

lemma fstab_populate_columns:
  assumes "fstab_ok e"
  shows "columns (fstab_populate e) \<noteq> []" and "\<forall>c \<in> set (columns (fstab_populate e)). word_column c"
    and "hd (hd (columns (fstab_populate e))) \<noteq> CHR ''#''"
proof -
  have enc: "word_column (fstab_encode s)" if "s \<noteq> []" for s
    using that fstab_encode_no_ws [of s] by (simp add: word_column_def fstab_encode_Nil_iff)
  have type: "word_column (if fe_fs_type e \<noteq> UNKNOWN then fs_name (fe_fs_type e)
        else if old_type e \<noteq> [] then old_type e else ''unknown'')"
    using assms fs_name_facts by (auto simp: fstab_ok_def word_column_def is_ws_def)
  have opts: "word_column (opts_format (fe_mount_opts e))"
    using assms by (intro opts_column(1)) (simp add: fstab_ok_def)
  show "columns (fstab_populate e) \<noteq> []" by (simp add: fstab_populate_def)
  show "\<forall>c \<in> set (columns (fstab_populate e)). word_column c"
    using assms enc type opts signed_decimal_word by (simp add: fstab_populate_def fstab_ok_def)
  show "hd (hd (columns (fstab_populate e))) \<noteq> CHR ''#''"
    using assms fstab_encode_hd [of "fe_spec e"] by (auto simp: fstab_populate_def fstab_ok_def backslash_def)
qed

lemma type_column:
  assumes "fstab_ok e"
  shows "(case fs_value (if fe_fs_type e \<noteq> UNKNOWN then fs_name (fe_fs_type e)
        else if old_type e \<noteq> [] then old_type e else ''unknown'') of Some t \<Rightarrow> t | None \<Rightarrow> UNKNOWN) = fe_fs_type e"
proof -
  have "fs_value ''unknown'' = Some UNKNOWN" by (simp add: fs_value_def fs_names_def fs_types_def)
  then show ?thesis using assms fs_name_facts [of "fe_fs_type e"] by (auto simp: fstab_ok_def)
qed

text \<open>An entry that is written and parsed gets the same values.\<close>

lemma fstab_entry_roundtrip:
  assumes ok: "fstab_ok e" and f: "f = fstab_populate e"
  shows "fstab_parse (column_format True w f)
      (fstab_entry_new\<lparr>comment_before := comment_before e, line_comment := line_comment e\<rparr>)
    = Some (f\<lparr>content := column_format True w f\<rparr>)"
proof -
  note cols = fstab_populate_columns [OF ok]
  have split: "column_split (column_format True w f) = columns f"
    unfolding f by (rule split_format(1) [OF cols(1,2)])
  have dec: "fstab_decode (fstab_encode (fe_spec e)) = fe_spec e"
    "fstab_decode (fstab_encode (fe_mount_point e)) = fe_mount_point e"
    using ok by (simp_all add: fstab_ok_def fstab_roundtrip)
  have norm: "normalize_path (fe_mount_point e) = fe_mount_point e" using ok by (simp add: fstab_ok_def)
  have opts: "opts_parse (fstab_decode (opts_format (fe_mount_opts e))) = fe_mount_opts e"
    using ok by (intro opts_roundtrip) (simp add: fstab_ok_def)
  define t where "t = (if fe_fs_type e \<noteq> UNKNOWN then fs_name (fe_fs_type e)
        else if old_type e \<noteq> [] then old_type e else ''unknown'')"
  have t: "(case fs_value t of Some t \<Rightarrow> t | None \<Rightarrow> UNKNOWN) = fe_fs_type e"
    unfolding t_def by (rule type_column [OF ok])
  have c: "columns f = [fstab_encode (fe_spec e), fstab_encode (fe_mount_point e), t,
      opts_format (fe_mount_opts e), signed_decimal (sint (fe_dump_pass e)), signed_decimal (sint (fe_fsck_pass e))]"
    by (simp add: f fstab_populate_def t_def)
  show ?thesis
    unfolding fstab_parse_def split c Let_def
    by (simp add: dec norm opts t atoi_roundtrip set_mount_point_def fstab_entry_new_def f
        fstab_populate_def t_def [symmetric])
qed

lemma fstab_parse_keeps:
  "fstab_parse s e = Some e' \<Longrightarrow> comment_before e' = comment_before e \<and> line_comment e' = line_comment e"
  by (auto simp: fstab_parse_def set_mount_point_def Let_def split: if_splits)

interpretation fstab: config_entry fstab_entry_class "''#''" fstab_val fstab_ok
proof
  fix e f :: fstab_entry and w
  assume ok: "fstab_ok e"
  { assume f: "f = vt_populate fstab_entry_class e"
    then have f': "f = fstab_populate e" by (simp add: fstab_entry_class_def)
    have st: "strip_trailing (column_format True w f) = column_format True w f"
      unfolding f' by (rule split_format(2) [OF fstab_populate_columns(1,2) [OF ok]])
    show "\<exists>e'. vt_parse fstab_entry_class (strip_trailing (vt_format fstab_entry_class w f))
          (vt_create fstab_entry_class\<lparr>comment_before := comment_before e, line_comment := line_comment e\<rparr>) = Some e'
        \<and> fstab_val e' = fstab_val f"
      using fstab_entry_roundtrip [OF ok f', of w] st by (simp add: fstab_entry_class_def fstab_val_def) }
  show "\<not> comment_like ''#'' (vt_format fstab_entry_class w (vt_populate fstab_entry_class e))"
    using format_not_comment [OF fstab_populate_columns [OF ok]] by (simp add: fstab_entry_class_def)
  show "vt_validate fstab_entry_class (vt_populate fstab_entry_class e)"
    using ok by (simp add: fstab_entry_class_def fstab_validate_def fstab_populate_def fstab_ok_def)
qed (auto simp: fstab_entry_class_def fstab_populate_def dest: fstab_parse_keeps)

text \<open>
  C28: A file /etc/fstab that was read without an error and is written and read again has the same
  entries in the same order, with the same comments before them, at the start and at the end of
  the file, whatever the columns are padded to. The conditions on every entry are those of
  \<open>fstab_ok\<close>: spec and mount point are not empty and have none of the five escapes as a literal text;
  the spec does not start with \<open>#\<close> (which a file can have as \<open>\043\<close>, see \<open>hash_spec_lost\<close> below);
  the mount point is normalised; a filesystem type the library does not know is a single word; the
  options are not empty, not \<open>defaults\<close>, and without blanks, commas and backslashes.
\<close>

theorem fstab_file_roundtrip:
  assumes "parse_config fstab_entry_class lines fstab_new = (cf, True)"
    and "\<forall>e \<in> set (cf_entries cf). fstab_ok e"
  shows "\<exists>cf'. parse_config fstab_entry_class (snd (column_format_lines fstab_entry_class True fstab_widths cf)) fstab_new
      = (cf', True)
    \<and> cf_header_comments cf' = cf_header_comments cf \<and> cf_footer_comments cf' = cf_footer_comments cf
    \<and> map fstab_val (cf_entries cf') = map (\<lambda>e. fstab_val (fstab_populate e)) (cf_entries cf)"
proof -
  have m: "cf_comment_marker (fstab_new) = ''#''" "\<not> cf_inline_comments fstab_new"
    by (simp_all add: fstab_new_def config_new_def)
  from fstab.file_round_trip [OF assms(1) m assms(2)] show ?thesis
    by (simp add: column_format_lines_def Let_def fstab_entry_class_def)
qed

definition example_fstab :: "string list" where
  "example_fstab =
     [''# static table'', '''',
      ''/dev/sda2  /  ext4  defaults  0  1'',
      ''# data'',
      ''UUID=42 /my'' @ backslash # ''040data xfs noatime,ro 0 2  '',
      ''/dev/sdc1 /old foofs user'',
      ''# end'']"

definition example_config :: "fstab_entry config" where
  "example_config = fst (parse_config fstab_entry_class example_fstab fstab_new)"

lemma fstab_file_roundtrip_witness:
  "length (cf_entries example_config) = 3
    \<and> map fe_mount_point (cf_entries example_config) = [''/'', ''/my data'', ''/old'']
    \<and> (\<exists>cf'. parse_config fstab_entry_class
          (snd (column_format_lines fstab_entry_class True fstab_widths example_config)) fstab_new = (cf', True)
      \<and> cf_header_comments cf' = cf_header_comments example_config
      \<and> cf_footer_comments cf' = cf_footer_comments example_config
      \<and> map fstab_val (cf_entries cf') = map (\<lambda>e. fstab_val (fstab_populate e)) (cf_entries example_config))"
proof -
  have "snd (parse_config fstab_entry_class example_fstab fstab_new)" by code_simp
  then have p: "parse_config fstab_entry_class example_fstab fstab_new = (example_config, True)"
    by (simp add: example_config_def prod_eq_iff)
  have ok: "list_all fstab_ok (cf_entries example_config)" by code_simp
  have "length (cf_entries example_config) = 3
    \<and> map fe_mount_point (cf_entries example_config) = [''/'', ''/my data'', ''/old'']" by code_simp
  with fstab_file_roundtrip [OF p] ok show ?thesis by (simp add: list_all_iff)
qed

text \<open>
  An option with an encoded blank breaks its entry: the blank is decoded when the file is read
  but not encoded when it is written, and the entry that is written cannot be parsed again.
\<close>

theorem encoded_option_lost:
  "map_option (\<lambda>e. (fe_mount_opts e, fstab_parse (column_format True [] (fstab_populate e)) fstab_entry_new))
     (fstab_parse (''/dev/sda2 / btrfs subvol=my'' @ backslash # ''040home,ro 0 0'') fstab_entry_new)
   = Some ([''subvol=my home'', ''ro''], None)"
  by code_simp

text \<open>
  The code 043 of \<open>#\<close> is decoded when the file is read but not encoded when it is written: an entry
  whose spec starts with it is written as a comment, and reading the file again finds no entry.
\<close>

definition hash_fstab :: "string list" where
  "hash_fstab = [backslash # ''043x /mnt ext4 defaults 0 0'']"

lemma hash_spec_lost:
  "case parse_config fstab_entry_class hash_fstab fstab_new of (cf, ok) \<Rightarrow>
     ok \<and> map fe_spec (cf_entries cf) = [''#x''] \<and>
     (case parse_config fstab_entry_class (snd (column_format_lines fstab_entry_class True fstab_widths cf)) fstab_new of
        (cf', ok') \<Rightarrow> ok' \<and> cf_entries cf' = [])"
  by code_simp

text \<open>A line that starts with a blank is lost, too: the empty field before it is a seventh one.\<close>

lemma leading_blank_lost:
  "fstab_parse '' /dev/sda2 / ext4 defaults 0 0'' fstab_entry_new = None"
  by code_simp

end
