(* ===== verification/Crypttab.thy ===== *)
theory Crypttab
  imports FstabRound
begin

text \<open>
  /etc/crypttab (storage/EtcCrypttab.cc): entries of two to four columns, and the round trip of the
  file by the same contract as for /etc/fstab. And the lines of /etc/mdadm.conf
  (storage/EtcMdadm.cc).
\<close>

section \<open>Entries\<close>

record crypttab_entry = column_entry +
  ce_crypt_device :: string
  ce_block_device :: string
  ce_password :: string
  ce_crypt_opts :: "string list"

definition crypt_opts_format :: "string list \<Rightarrow> string" where
  "crypt_opts_format opts = join_from '','' [] opts"

definition crypt_opts_parse :: "string \<Rightarrow> string list" where
  "crypt_opts_parse opt_string = opts_remove ''none'' (split_any (\<lambda>c. c = CHR '','') opt_string)"

definition crypttab_entry_new :: crypttab_entry where
  "crypttab_entry_new =
     \<lparr>comment_before = [], line_comment = [], content = [], columns = [], ce_crypt_device = [],
      ce_block_device = [], ce_password = [], ce_crypt_opts = []\<rparr>"

definition crypttab_populate :: "crypttab_entry \<Rightarrow> crypttab_entry" where
  "crypttab_populate e =
     e\<lparr>columns :=
       [crypttab_encode (ce_crypt_device e), crypttab_encode (ce_block_device e)]
       @ (if ce_password e \<noteq> [] \<or> ce_crypt_opts e \<noteq> []
          then [if ce_password e = [] then ''none'' else ce_password e] else [])
       @ (if ce_crypt_opts e \<noteq> [] then [crypt_opts_format (ce_crypt_opts e)] else [])\<rparr>"

definition crypttab_parse :: "string \<Rightarrow> crypttab_entry \<Rightarrow> crypttab_entry option" where
  "crypttab_parse line e =
     (let cols = column_split line;
          e = e\<lparr>content := line, columns := cols\<rparr>;
          n = length cols
      in if n < 2 \<or> 4 < n then None
         else
           let e = e\<lparr>ce_crypt_device := crypttab_decode (cols ! 0), ce_block_device := crypttab_decode (cols ! 1)\<rparr>;
               e = (if 2 < n
                 then let password = cols ! 2
                      in e\<lparr>ce_password := (if password = ''none'' \<or> password = ''-'' then [] else password)\<rparr>
                 else e)
           in Some (if 3 < n then e\<lparr>ce_crypt_opts := crypt_opts_parse (cols ! 3)\<rparr> else e))"

definition crypttab_entry_class :: "crypttab_entry entry_class" where
  "crypttab_entry_class =
     \<lparr>vt_create = crypttab_entry_new, vt_parse = crypttab_parse, vt_validate = (\<lambda>e. True),
      vt_populate = crypttab_populate, vt_format = column_format True\<rparr>"

definition crypttab_widths :: "nat list" where
  "crypttab_widths = [15, 45, 15, 30]"

definition crypttab_new :: "crypttab_entry config" where
  "crypttab_new = config_new\<lparr>cf_inline_comments := False\<rparr>"

definition find_crypt_device :: "string \<Rightarrow> crypttab_entry list \<Rightarrow> crypttab_entry option" where
  "find_crypt_device crypt_device es = find (\<lambda>e. ce_crypt_device e = crypt_device) es"

definition has_crypt_device :: "string \<Rightarrow> crypttab_entry list \<Rightarrow> bool" where
  "has_crypt_device crypt_device es \<longleftrightarrow> find_crypt_device crypt_device es \<noteq> None"

definition find_block_device :: "string \<Rightarrow> crypttab_entry list \<Rightarrow> crypttab_entry option" where
  "find_block_device block_device es = find (\<lambda>e. ce_block_device e = block_device) es"

text \<open>
  The device number of a name, which udev has to find out, is the parameter \<open>majorminor_of\<close>;
  \<open>None\<close> is the exception that is caught.
\<close>

definition find_by_any_block_device :: "(string \<Rightarrow> 'd option) \<Rightarrow> string \<Rightarrow> string \<Rightarrow> 'd
   \<Rightarrow> crypttab_entry list \<Rightarrow> crypttab_entry option" where
  "find_by_any_block_device majorminor_of uuid label majorminor es =
     find (\<lambda>e. let b = ce_block_device e
       in (uuid \<noteq> [] \<and> (b = ''UUID='' @ uuid \<or> b = ''/dev/disk/by-uuid/'' @ uuid))
          \<or> (label \<noteq> [] \<and> b = ''LABEL='' @ label)
          \<or> (prefix ''/dev/'' b \<and> majorminor_of b = Some majorminor)) es"

section \<open>Round trip\<close>

definition crypttab_ok :: "crypttab_entry \<Rightarrow> bool" where
  "crypttab_ok e \<longleftrightarrow>
     ce_crypt_device e \<noteq> [] \<and> hd (ce_crypt_device e) \<noteq> CHR ''#'' \<and> no_escape crypttab_codes (ce_crypt_device e)
     \<and> ce_block_device e \<noteq> [] \<and> no_escape crypttab_codes (ce_block_device e)
     \<and> CHR 0x09 \<notin> set (ce_crypt_device e) \<and> CHR 0x09 \<notin> set (ce_block_device e)
     \<and> (ce_password e \<noteq> [] \<longrightarrow> word_column (ce_password e) \<and> ce_password e \<noteq> ''none'' \<and> ce_password e \<noteq> ''-'')
     \<and> (\<forall>opt \<in> set (ce_crypt_opts e). word_column opt \<and> CHR '','' \<notin> set opt \<and> opt \<noteq> ''none'')"

definition crypttab_val :: "crypttab_entry \<Rightarrow> crypttab_entry" where
  "crypttab_val e = e\<lparr>content := []\<rparr>"

lemma crypttab_encode_word:
  assumes "s \<noteq> []" and "CHR 0x09 \<notin> set s"
  shows "word_column (crypttab_encode s)"
    and "hd (crypttab_encode s) = (if hd s = CHR '' '' then backslash else hd s)"
proof -
  show "word_column (crypttab_encode s)"
  proof -
    have "crypttab_encode s \<noteq> []" using assms(1) by (cases s) (simp_all add: crypttab_encode_code crypttab_code_def)
    moreover have "\<not> is_ws c" if "c \<in> set (crypttab_encode s)" for c
      using that assms(2) unfolding crypttab_encode_code
      by (auto simp: crypttab_code_def is_ws_def backslash_def split: if_splits)
    ultimately show ?thesis by (auto simp: word_column_def)
  qed
  show "hd (crypttab_encode s) = (if hd s = CHR '' '' then backslash else hd s)"
    using assms(1) by (cases s) (auto simp: crypttab_encode_code crypttab_code_def)
qed

lemma crypt_opts_column:
  assumes "opts \<noteq> []" and "\<forall>opt \<in> set opts. word_column opt \<and> CHR '','' \<notin> set opt \<and> opt \<noteq> ''none''"
  shows "word_column (crypt_opts_format opts)" and "crypt_opts_parse (crypt_opts_format opts) = opts"
proof -
  obtain t ts where o: "opts = t # ts" using assms(1) by (cases opts) auto
  have ne: "t \<noteq> []" using assms(2) o by (simp add: word_column_def)
  have f: "crypt_opts_format opts = t @ concat (map (\<lambda>s. '','' @ s) ts)"
    using ne by (simp add: crypt_opts_format_def o join_from_eq)
  show "word_column (crypt_opts_format opts)"
    using assms(2) o ne unfolding f word_column_def by (auto simp: is_ws_def)
  have "split_any (\<lambda>c. c = CHR '','') (join_from '','' [] (t # ts)) = t # ts"
    by (rule split_join) (use assms(2) o in \<open>auto simp: word_column_def\<close>)
  moreover have "filter (\<lambda>o'. o' \<noteq> ''none'') opts = opts" using assms(2) by (simp add: filter_id_conv)
  ultimately show "crypt_opts_parse (crypt_opts_format opts) = opts"
    using o by (simp add: crypt_opts_parse_def crypt_opts_format_def opts_remove_def)
qed

lemma crypttab_populate_columns:
  assumes "crypttab_ok e"
  shows "columns (crypttab_populate e) \<noteq> []" and "\<forall>c \<in> set (columns (crypttab_populate e)). word_column c"
    and "hd (hd (columns (crypttab_populate e))) \<noteq> CHR ''#''"
proof -
  have "ce_crypt_opts e \<noteq> [] \<longrightarrow> word_column (crypt_opts_format (ce_crypt_opts e))"
    using assms crypt_opts_column(1) by (simp add: crypttab_ok_def)
  moreover have "word_column ''none''" by (simp add: word_column_def is_ws_def)
  ultimately show "\<forall>c \<in> set (columns (crypttab_populate e)). word_column c"
    using assms crypttab_encode_word(1) by (auto simp: crypttab_populate_def crypttab_ok_def)
  show "columns (crypttab_populate e) \<noteq> []" by (simp add: crypttab_populate_def)
  show "hd (hd (columns (crypttab_populate e))) \<noteq> CHR ''#''"
    using assms crypttab_encode_word(2) [of "ce_crypt_device e"]
    by (auto simp: crypttab_populate_def crypttab_ok_def backslash_def)
qed

lemma crypttab_entry_roundtrip:
  assumes ok: "crypttab_ok e" and f: "f = crypttab_populate e"
  shows "crypttab_parse (column_format True w f)
      (crypttab_entry_new\<lparr>comment_before := comment_before e, line_comment := line_comment e\<rparr>)
    = Some (f\<lparr>content := column_format True w f\<rparr>)"
proof -
  note cols = crypttab_populate_columns [OF ok]
  have split: "column_split (column_format True w f) = columns f"
    unfolding f by (rule split_format(1) [OF cols(1,2)])
  have dec: "crypttab_decode (crypttab_encode (ce_crypt_device e)) = ce_crypt_device e"
    "crypttab_decode (crypttab_encode (ce_block_device e)) = ce_block_device e"
    using ok by (simp_all add: crypttab_ok_def crypttab_roundtrip)
  have opts: "ce_crypt_opts e \<noteq> [] \<Longrightarrow> crypt_opts_parse (crypt_opts_format (ce_crypt_opts e)) = ce_crypt_opts e"
    using ok by (intro crypt_opts_column(2)) (simp_all add: crypttab_ok_def)
  have pw: "ce_password e \<noteq> [] \<Longrightarrow> ce_password e \<noteq> ''none'' \<and> ce_password e \<noteq> ''-''"
    using ok by (simp add: crypttab_ok_def)
  show ?thesis
    unfolding crypttab_parse_def split Let_def
    using opts pw by (cases "ce_password e = []"; cases "ce_crypt_opts e = []")
      (simp_all add: f crypttab_populate_def dec crypttab_entry_new_def)
qed

lemma crypttab_parse_keeps:
  "crypttab_parse s e = Some e' \<Longrightarrow> comment_before e' = comment_before e \<and> line_comment e' = line_comment e"
  by (auto simp: crypttab_parse_def Let_def split: if_splits)

interpretation crypttab: config_entry crypttab_entry_class "''#''" crypttab_val crypttab_ok
proof
  fix e f :: crypttab_entry and w
  assume ok: "crypttab_ok e"
  { assume f: "f = vt_populate crypttab_entry_class e"
    then have f': "f = crypttab_populate e" by (simp add: crypttab_entry_class_def)
    have st: "strip_trailing (column_format True w f) = column_format True w f"
      unfolding f' by (rule split_format(2) [OF crypttab_populate_columns(1,2) [OF ok]])
    show "\<exists>e'. vt_parse crypttab_entry_class (strip_trailing (vt_format crypttab_entry_class w f))
          (vt_create crypttab_entry_class\<lparr>comment_before := comment_before e, line_comment := line_comment e\<rparr>) = Some e'
        \<and> crypttab_val e' = crypttab_val f"
      using crypttab_entry_roundtrip [OF ok f', of w] st by (simp add: crypttab_entry_class_def crypttab_val_def) }
  show "\<not> comment_like ''#'' (vt_format crypttab_entry_class w (vt_populate crypttab_entry_class e))"
    using format_not_comment [OF crypttab_populate_columns [OF ok]] by (simp add: crypttab_entry_class_def)
qed (auto simp: crypttab_entry_class_def crypttab_populate_def dest: crypttab_parse_keeps)

text \<open>
  A file /etc/crypttab that was read without an error and is written and read again has the
  same entries with the same comments, with none, a password file or options in the optional
  columns.
\<close>

theorem crypttab_file_roundtrip:
  assumes "parse_config crypttab_entry_class lines crypttab_new = (cf, True)"
    and "\<forall>e \<in> set (cf_entries cf). crypttab_ok e"
  shows "\<exists>cf'. parse_config crypttab_entry_class
      (snd (column_format_lines crypttab_entry_class True crypttab_widths cf)) crypttab_new = (cf', True)
    \<and> cf_header_comments cf' = cf_header_comments cf \<and> cf_footer_comments cf' = cf_footer_comments cf
    \<and> map crypttab_val (cf_entries cf') = map (\<lambda>e. crypttab_val (crypttab_populate e)) (cf_entries cf)"
proof -
  have m: "cf_comment_marker (crypttab_new) = ''#''" "\<not> cf_inline_comments crypttab_new"
    by (simp_all add: crypttab_new_def config_new_def)
  from crypttab.file_round_trip [OF assms(1) m assms(2)] show ?thesis
    by (simp add: column_format_lines_def Let_def crypttab_entry_class_def)
qed

definition example_crypttab :: "string list" where
  "example_crypttab =
     [''# encrypted'',
      ''cr_swap  /dev/sda1  /dev/urandom  swap,size=256'',
      ''cr'' @ backslash # ''040home UUID=42'',
      ''cr_data /dev/sdb1 none discard'']"

definition example_crypt_config :: "crypttab_entry config" where
  "example_crypt_config = fst (parse_config crypttab_entry_class example_crypttab crypttab_new)"

lemma crypttab_file_roundtrip_witness:
  "map ce_crypt_device (cf_entries example_crypt_config) = [''cr_swap'', ''cr home'', ''cr_data'']
    \<and> (\<exists>cf'. parse_config crypttab_entry_class
          (snd (column_format_lines crypttab_entry_class True crypttab_widths example_crypt_config)) crypttab_new
        = (cf', True)
      \<and> cf_header_comments cf' = cf_header_comments example_crypt_config
      \<and> cf_footer_comments cf' = cf_footer_comments example_crypt_config
      \<and> map crypttab_val (cf_entries cf')
        = map (\<lambda>e. crypttab_val (crypttab_populate e)) (cf_entries example_crypt_config))"
proof -
  have "snd (parse_config crypttab_entry_class example_crypttab crypttab_new)" by code_simp
  then have p: "parse_config crypttab_entry_class example_crypttab crypttab_new = (example_crypt_config, True)"
    by (simp add: example_crypt_config_def prod_eq_iff)
  have ok: "list_all crypttab_ok (cf_entries example_crypt_config)" by code_simp
  have "map ce_crypt_device (cf_entries example_crypt_config) = [''cr_swap'', ''cr home'', ''cr_data'']" by code_simp
  with crypttab_file_roundtrip [OF p] ok show ?thesis by (simp add: list_all_iff)
qed

section \<open>mdadm.conf\<close>

record mdadm_entry =
  me_device :: string
  me_metadata :: string
  me_container_uuid :: string
  me_container_member :: string
  me_uuid :: string

definition array_line :: "mdadm_entry \<Rightarrow> string" where
  "array_line e =
     ''ARRAY''
     @ (if me_device e \<noteq> [] then '' '' @ me_device e else [])
     @ (if me_metadata e \<noteq> [] then '' metadata='' @ me_metadata e else [])
     @ (if me_container_uuid e \<noteq> [] then '' container='' @ me_container_uuid e else [])
     @ (if me_container_member e \<noteq> [] then '' member='' @ me_container_member e else [])
     @ '' UUID='' @ me_uuid e"

definition uuid_char :: "char \<Rightarrow> bool" where
  "uuid_char c \<longleftrightarrow> c \<in> set ''0123456789abcdefABCDEF:''"

definition get_uuid :: "string \<Rightarrow> string" where
  "get_uuid line =
     (case find_sub ''UUID='' line of None \<Rightarrow> [] | Some pos \<Rightarrow> takeWhile uuid_char (drop (pos + 5) line))"

definition is_array :: "string \<Rightarrow> string \<Rightarrow> bool" where
  "is_array uuid line \<longleftrightarrow> prefix ''ARRAY'' line \<and> get_uuid line \<noteq> [] \<and> get_uuid line = uuid"

text \<open>Replaces the first line that satisfies \<open>P\<close>; \<open>None\<close> if there is none.\<close>

fun replace_first :: "(string \<Rightarrow> bool) \<Rightarrow> string \<Rightarrow> string list \<Rightarrow> string list option" where
  "replace_first P line [] = None"
| "replace_first P line (l # ls) = (if P l then Some (line # ls) else map_option (Cons l) (replace_first P line ls))"

fun remove_first :: "(string \<Rightarrow> bool) \<Rightarrow> string list \<Rightarrow> string list option" where
  "remove_first P [] = None"
| "remove_first P (l # ls) = (if P l then Some ls else map_option (Cons l) (remove_first P ls))"

definition set_line :: "string \<Rightarrow> string \<Rightarrow> string list \<Rightarrow> string list" where
  "set_line key line lines =
     (case replace_first (prefix key) line lines of Some ls \<Rightarrow> ls | None \<Rightarrow> line # lines)"

definition mdadm_init :: "bool \<Rightarrow> string list \<Rightarrow> string list" where
  "mdadm_init has_iscsi lines =
     (let lines = set_line ''DEVICE'' ''DEVICE containers partitions'' lines
      in if has_iscsi then set_line ''AUTO'' ''AUTO -all'' lines else lines)"

definition has_entry :: "string \<Rightarrow> string list \<Rightarrow> bool" where
  "has_entry uuid lines \<longleftrightarrow> list_ex (is_array uuid) lines"

definition set_array_line :: "string \<Rightarrow> string \<Rightarrow> string list \<Rightarrow> string list" where
  "set_array_line line uuid lines =
     (case replace_first (is_array uuid) line lines of Some ls \<Rightarrow> ls | None \<Rightarrow> lines @ [line])"

definition update_entry :: "mdadm_entry \<Rightarrow> string list \<Rightarrow> string list \<times> bool" where
  "update_entry e lines =
     (if me_uuid e = [] then (lines, False) else (set_array_line (array_line e) (me_uuid e) lines, True))"

definition remove_mdadm_entry :: "string \<Rightarrow> string list \<Rightarrow> string list \<times> bool" where
  "remove_mdadm_entry uuid lines =
     (if uuid = [] then (lines, False)
      else case remove_first (is_array uuid) lines of None \<Rightarrow> (lines, False) | Some ls \<Rightarrow> (ls, True))"

text \<open>An update adds the array or replaces its line; all other arrays stay.\<close>

lemma replace_first_array:
  assumes "is_array u line"
  shows "case replace_first (is_array u) line lines of
      None \<Rightarrow> \<not> has_entry u lines
    | Some ls \<Rightarrow> has_entry u lines \<and> (\<forall>v. has_entry v ls \<longleftrightarrow> has_entry v lines)"
proof (induction lines)
  case Nil
  then show ?case by (simp add: has_entry_def)
next
  case (Cons l ls)
  have "is_array v l = is_array v line" if "is_array u l" for v
    using that assms by (auto simp: is_array_def)
  then show ?case using Cons assms by (auto simp: has_entry_def split: option.splits)
qed

lemma update_entry_arrays:
  assumes "is_array (me_uuid e) (array_line e)"
  shows "has_entry u (fst (update_entry e lines)) \<longleftrightarrow> u = me_uuid e \<or> has_entry u lines"
proof -
  have ne: "me_uuid e \<noteq> []" using assms by (auto simp: is_array_def)
  have other: "is_array u (array_line e) \<longleftrightarrow> u = me_uuid e" using assms by (auto simp: is_array_def)
  show ?thesis
    using replace_first_array [OF assms, of lines] ne other
    by (auto simp: update_entry_def set_array_line_def has_entry_def split: option.splits)
qed

lemma update_entry_example:
  "let e = \<lparr>me_device = ''/dev/md0'', me_metadata = [], me_container_uuid = [], me_container_member = [],
            me_uuid = ''0a:1b''\<rparr>
   in is_array (me_uuid e) (array_line e)
      \<and> fst (update_entry e [''DEVICE'', ''ARRAY /dev/md9 UUID=0a:1b name=x''])
        = [''DEVICE'', ''ARRAY /dev/md0 UUID=0a:1b'']"
  by code_simp

end
