(* ===== verification/FstabOrder.thy ===== *)
theory FstabOrder
  imports Fstab "HOL-Library.Multiset"
begin

text \<open>
  The order of the entries in /etc/fstab (EtcFstab::add, find_sort_index, next_mount_order_problem,
  check_mount_order and fix_mount_order in storage/EtcFstab.cc) and what the commit does with them
  (Mountable::Impl::do_add_to_etc_fstab, do_update_in_etc_fstab and do_remove_from_etc_fstab in
  storage/Filesystems/MountableImpl.cc). An entry is identified by its position.
\<close>

section \<open>Definitions\<close>

text \<open>The first entry other than \<open>own\<close> that is mounted at or below the mount point.\<close>

definition find_sort_index :: "nat option \<Rightarrow> string \<Rightarrow> fstab_entry list \<Rightarrow> nat option" where
  "find_sort_index own mount_point es =
     find (\<lambda>i. prefix mount_point (fe_mount_point (es ! i)) \<and> own \<noteq> Some i) [0..<length es]"

definition next_mount_order_problem :: "nat \<Rightarrow> fstab_entry list \<Rightarrow> nat option" where
  "next_mount_order_problem start es =
     find (\<lambda>i. case find_sort_index (Some i) (fe_mount_point (es ! i)) es of None \<Rightarrow> False | Some j \<Rightarrow> j < i)
       [start..<length es]"

definition check_mount_order :: "fstab_entry list \<Rightarrow> bool" where
  "check_mount_order es \<longleftrightarrow> next_mount_order_problem 0 es = None"

definition add_sorted :: "fstab_entry \<Rightarrow> fstab_entry list \<Rightarrow> fstab_entry list" where
  "add_sorted e es =
     (case find_sort_index None (fe_mount_point e) es of
        None \<Rightarrow> es @ [e]
      | Some i \<Rightarrow> take i es @ e # drop i es)"

lemma add_sorted_length [simp]: "length (add_sorted e es) = Suc (length es)"
  by (auto simp: add_sorted_def find_sort_index_def find_Some_iff split: option.splits)

function fix_from :: "nat \<Rightarrow> fstab_entry list \<Rightarrow> fstab_entry list" where
  "fix_from start es =
     (if start < length es
      then case next_mount_order_problem start es of
          None \<Rightarrow> es
        | Some p \<Rightarrow> fix_from (Suc p) (add_sorted (es ! p) (take p es @ drop (Suc p) es))
      else es)"
  by pat_completeness auto

termination
  by (relation "measure (\<lambda>(start, es). length es - start)")
    (auto simp: next_mount_order_problem_def find_Some_iff)

declare fix_from.simps [simp del]

definition fix_mount_order :: "fstab_entry list \<Rightarrow> fstab_entry list" where
  "fix_mount_order es = fix_from 0 es"

section \<open>Sorted entries\<close>

definition not_below :: "string \<Rightarrow> string \<Rightarrow> bool" where
  "not_below a b \<longleftrightarrow> \<not> strict_prefix b a"

definition in_order :: "fstab_entry list \<Rightarrow> bool" where
  "in_order es \<longleftrightarrow> sorted_wrt not_below (map fe_mount_point es)"

lemma in_order_insert:
  assumes "in_order (xs @ ys)" and "\<forall>x \<in> set xs. \<not> prefix (fe_mount_point e) (fe_mount_point x)"
    and "ys \<noteq> [] \<longrightarrow> prefix (fe_mount_point e) (fe_mount_point (hd ys))"
  shows "in_order (xs @ e # ys)"
proof -
  have "not_below (fe_mount_point e) (fe_mount_point y)" if y: "y \<in> set ys" for y
  proof (rule ccontr)
    assume "\<not> not_below (fe_mount_point e) (fe_mount_point y)"
    then have s: "strict_prefix (fe_mount_point y) (fe_mount_point e)" by (simp add: not_below_def)
    obtain z zs where ys: "ys = z # zs" using y by (cases ys) auto
    have "strict_prefix (fe_mount_point y) (fe_mount_point z)"
      using s assms(3) ys by (auto intro: prefix_order.less_le_trans)
    moreover have "y = z \<or> not_below (fe_mount_point z) (fe_mount_point y)"
      using assms(1) y ys by (auto simp: in_order_def sorted_wrt_append)
    ultimately show False by (auto simp: not_below_def)
  qed
  then show ?thesis
    using assms(1,2) by (auto simp: in_order_def sorted_wrt_append not_below_def prefix_order.less_imp_le)
qed

lemma find_sort_index_None:
  assumes "find_sort_index None m es = None"
  shows "\<forall>e \<in> set es. \<not> prefix m (fe_mount_point e)"
  using assms by (auto simp: find_sort_index_def find_None_iff in_set_conv_nth)

lemma find_sort_index_Some:
  assumes "find_sort_index own m es = Some i"
  shows "i < length es" and "prefix m (fe_mount_point (es ! i))"
    and "\<forall>j < i. own \<noteq> Some j \<longrightarrow> \<not> prefix m (fe_mount_point (es ! j))"
  using assms unfolding find_sort_index_def find_upt_Some by auto

text \<open>An entry is added before everything that is mounted below it.\<close>

lemma add_sorted_in_order:
  assumes "in_order es"
  shows "in_order (add_sorted e es)"
proof (cases "find_sort_index None (fe_mount_point e) es")
  case None
  then show ?thesis
    using in_order_insert [of es "[]" e] assms find_sort_index_None [OF None] by (simp add: add_sorted_def)
next
  case (Some i)
  note f = find_sort_index_Some [OF Some]
  have "in_order (take i es @ e # drop i es)"
  proof (rule in_order_insert)
    show "in_order (take i es @ drop i es)" using assms by simp
    show "\<forall>x \<in> set (take i es). \<not> prefix (fe_mount_point e) (fe_mount_point x)"
      using f(1,3) by (auto simp: in_set_conv_nth)
    show "drop i es \<noteq> [] \<longrightarrow> prefix (fe_mount_point e) (fe_mount_point (hd (drop i es)))"
      using f(2) by (simp add: hd_drop_conv_nth)
  qed
  then show ?thesis by (simp add: add_sorted_def Some)
qed

lemma add_sorted_mset: "mset (add_sorted e es) = add_mset e (mset es)"
  by (cases "find_sort_index None (fe_mount_point e) es")
    (simp_all add: add_sorted_def, metis append_take_drop_id mset_append union_mset_add_mset_right)

text \<open>An entry without a problem may follow the ones before it.\<close>

lemma no_problem:
  assumes "\<not> (case find_sort_index (Some i) (fe_mount_point (es ! i)) es of None \<Rightarrow> False | Some j \<Rightarrow> j < i)"
    and "j < i" and "i < length es"
  shows "\<not> prefix (fe_mount_point (es ! i)) (fe_mount_point (es ! j))"
proof
  assume p: "prefix (fe_mount_point (es ! i)) (fe_mount_point (es ! j))"
  show False
  proof (cases "find_sort_index (Some i) (fe_mount_point (es ! i)) es")
    case None
    then show False using p assms(2,3) by (auto simp: find_sort_index_def find_None_iff)
  next
    case (Some k)
    have "\<not> j < k" using find_sort_index_Some(3) [OF Some] p assms(2) by auto
    then show False using assms(1,2) Some by simp
  qed
qed

lemma in_order_snoc:
  assumes "in_order (take i es)" and "i < length es"
    and "\<forall>j < i. \<not> prefix (fe_mount_point (es ! i)) (fe_mount_point (es ! j))"
  shows "in_order (take (Suc i) es)"
proof -
  have "in_order (take i es @ es ! i # [])"
    by (rule in_order_insert) (use assms in \<open>auto simp: in_set_conv_nth\<close>)
  then show ?thesis using assms(2) by (simp add: take_Suc_conv_app_nth)
qed

lemma in_order_extend:
  assumes "in_order (take start es)" and "start \<le> n" and "n \<le> length es"
    and "\<forall>i. start \<le> i \<longrightarrow> i < n \<longrightarrow>
      \<not> (case find_sort_index (Some i) (fe_mount_point (es ! i)) es of None \<Rightarrow> False | Some j \<Rightarrow> j < i)"
  shows "in_order (take n es)"
  using assms(2-4)
proof (induction n rule: dec_induct)
  case base
  then show ?case using assms(1) by simp
next
  case (step n)
  have "in_order (take n es)" using step.IH step.prems by simp
  moreover have "\<forall>j < n. \<not> prefix (fe_mount_point (es ! n)) (fe_mount_point (es ! j))"
    using no_problem [of n es] step by auto
  ultimately show ?case using in_order_snoc step.prems(1) by simp
qed

text \<open>Moving the entry with the problem puts one more entry in order.\<close>

lemma move_problem:
  assumes ord: "in_order (take start es)" and nxt: "next_mount_order_problem start es = Some p"
    and es': "es' = add_sorted (es ! p) (take p es @ drop (Suc p) es)"
  shows "in_order (take (Suc p) es')" and "mset es' = mset es" and "p < length es" and "start \<le> p"
proof -
  let ?bad = "\<lambda>i. case find_sort_index (Some i) (fe_mount_point (es ! i)) es of None \<Rightarrow> False | Some j \<Rightarrow> j < i"
  have p: "start \<le> p" "p < length es" "?bad p" "\<forall>i. start \<le> i \<longrightarrow> i < p \<longrightarrow> \<not> ?bad i"
    using nxt unfolding next_mount_order_problem_def find_upt_Some by blast+
  then show "p < length es" and "start \<le> p" by blast+
  have ordp: "in_order (take p es)" by (rule in_order_extend [OF ord p(1) _ p(4)]) (use p(2) in simp)
  obtain q where q: "find_sort_index (Some p) (fe_mount_point (es ! p)) es = Some q" "q < p"
    using p(3) by (auto split: option.splits)
  note fq = find_sort_index_Some [OF q(1)]
  define rest where "rest = take p es @ drop (Suc p) es"
  have nth: "rest ! j = es ! j" if "j < p" for j using that p(2) by (simp add: rest_def nth_append)
  have "find_sort_index None (fe_mount_point (es ! p)) rest = Some q"
    unfolding find_sort_index_def find_upt_Some using fq(2,3) nth q(2) p(2) by (simp add: rest_def)
  then have es'q: "es' = take q rest @ es ! p # drop q rest" by (simp add: es' add_sorted_def rest_def)
  have "take (Suc p) es' = take q (take p es) @ es ! p # drop q (take p es)"
  proof -
    have "es' = (take q (take p es) @ es ! p # drop q (take p es)) @ drop (Suc p) es"
      unfolding es'q using q(2) p(2) by (simp add: rest_def)
    moreover have "length (take q (take p es) @ es ! p # drop q (take p es)) = Suc p" using q(2) p(2) by simp
    ultimately show ?thesis by (metis append_eq_conv_conj)
  qed
  moreover have "in_order (take q (take p es) @ es ! p # drop q (take p es))"
  proof (rule in_order_insert)
    show "in_order (take q (take p es) @ drop q (take p es))" unfolding append_take_drop_id by (rule ordp)
    show "\<forall>x \<in> set (take q (take p es)). \<not> prefix (fe_mount_point (es ! p)) (fe_mount_point x)"
      using fq(1,3) q(2) p(2) by (auto simp: in_set_conv_nth)
    show "drop q (take p es) \<noteq> [] \<longrightarrow> prefix (fe_mount_point (es ! p)) (fe_mount_point (hd (drop q (take p es))))"
      using fq(2) q(2) p(2) by (simp add: hd_drop_conv_nth)
  qed
  ultimately show "in_order (take (Suc p) es')" by simp
  have "es = take p es @ es ! p # drop (Suc p) es" using p(2) by (rule id_take_nth_drop)
  then have "mset es = add_mset (es ! p) (mset rest)"
    unfolding rest_def by (metis mset.simps(2) mset_append union_mset_add_mset_right)
  then show "mset es' = mset es" by (simp add: es' add_sorted_mset rest_def)
qed

lemma fix_from_in_order:
  "in_order (take start es) \<Longrightarrow> in_order (fix_from start es) \<and> mset (fix_from start es) = mset es"
proof (induction start es rule: fix_from.induct)
  case (1 start es)
  show ?case
  proof (cases "start < length es")
    case False
    then show ?thesis using 1(2) by (subst (1 2) fix_from.simps) simp
  next
    case True
    show ?thesis
    proof (cases "next_mount_order_problem start es")
      case None
      have "in_order (take (length es) es)"
        by (rule in_order_extend [OF 1(2)])
          (use True None in \<open>auto simp: next_mount_order_problem_def find_None_iff\<close>)
      then show ?thesis using True None by (subst (1 2) fix_from.simps) simp
    next
      case (Some p)
      define es' where "es' = add_sorted (es ! p) (take p es @ drop (Suc p) es)"
      note m = move_problem [OF 1(2) Some es'_def]
      from 1(1) [OF True Some, folded es'_def, OF m(1)] m(2) show ?thesis
        using True Some by (subst (1 2) fix_from.simps) (simp add: es'_def [symmetric])
    qed
  qed
qed

text \<open>
  C16: \<open>fix_mount_order\<close> ends for every list of entries, keeps all of them, and afterwards no entry
  stands behind one that is mounted below it, also when several entries have one mount point.
\<close>

theorem fix_mount_order_sorts:
  "mset (fix_mount_order es) = mset es
    \<and> (\<forall>i j. \<not> (i < j \<and> j < length es
        \<and> strict_prefix (fe_mount_point (fix_mount_order es ! j)) (fe_mount_point (fix_mount_order es ! i))))"
proof -
  have f: "in_order (fix_mount_order es) \<and> mset (fix_mount_order es) = mset es"
    unfolding fix_mount_order_def by (rule fix_from_in_order) (simp add: in_order_def)
  then have "length (fix_mount_order es) = length es" by (metis size_mset)
  then show ?thesis
    using f sorted_wrt_nth_less [of not_below "map fe_mount_point (fix_mount_order es)"]
    by (auto simp: in_order_def not_below_def)
qed

text \<open>With different mount points that is what \<open>check_mount_order\<close> looks for.\<close>

lemma in_order_check:
  assumes "in_order es" and "distinct (map fe_mount_point es)"
  shows "check_mount_order es"
proof -
  have "\<not> (case find_sort_index (Some i) (fe_mount_point (es ! i)) es of None \<Rightarrow> False | Some j \<Rightarrow> j < i)"
    if i: "i < length es" for i
  proof (cases "find_sort_index (Some i) (fe_mount_point (es ! i)) es")
    case (Some j)
    have "\<not> j < i"
    proof
      assume j: "j < i"
      then have "\<not> strict_prefix (fe_mount_point (es ! i)) (fe_mount_point (es ! j))"
        using assms(1) i sorted_wrt_nth_less [of not_below "map fe_mount_point es" j i]
        by (simp add: in_order_def not_below_def)
      moreover have "fe_mount_point (es ! i) \<noteq> fe_mount_point (es ! j)"
        using assms(2) i j by (simp add: distinct_conv_nth)
      ultimately show False using find_sort_index_Some(2) [OF Some] by (simp add: prefix_order.le_less)
    qed
    then show ?thesis using Some by simp
  qed simp
  then show ?thesis by (simp add: check_mount_order_def next_mount_order_problem_def find_None_iff)
qed

end
