(* ===== verification/MountPoints.thy ===== *)
theory MountPoints
  imports FstabOrder
begin

text \<open>
  Mount points (storage/Utils/MountPointPath.cc, storage/Filesystems/MountPointImpl.cc,
  MountableImpl.cc and the joint entries of storage/EtcFstab.cc): paths below the root prefix, the
  choice of the mount point among the entries of /etc/fstab and /proc/mounts, the actions that
  make the system match a changed mount point, and their effect on /etc/fstab.

  The actions refine the change of a state of the system: each is allowed in the state it is
  carried out in, and the last state is that of the new mount point.
\<close>

section \<open>Paths\<close>

record mount_point_path =
  mpp_path :: string
  mpp_rootprefixed :: bool

definition mpp_new :: "string \<Rightarrow> string \<Rightarrow> mount_point_path" where
  "mpp_new fullpath rootprefix =
     (if fullpath = ''swap'' \<or> fullpath = ''none'' \<or> rootprefix = [] \<or> rootprefix = ''/''
      then \<lparr>mpp_path = fullpath, mpp_rootprefixed = True\<rparr>
      else if prefix rootprefix fullpath
      then let path = drop (length rootprefix) fullpath
           in \<lparr>mpp_path = (if path = [] then ''/'' else path), mpp_rootprefixed = True\<rparr>
      else \<lparr>mpp_path = fullpath, mpp_rootprefixed = False\<rparr>)"

definition fullpath :: "string \<Rightarrow> mount_point_path \<Rightarrow> string" where
  "fullpath rootprefix p =
     (if \<not> mpp_rootprefixed p then mpp_path p
      else if mpp_path p = ''swap'' \<or> mpp_path p = ''none'' then mpp_path p
      else if rootprefix = [] \<or> rootprefix = ''/'' then mpp_path p
      else if mpp_path p = ''/'' then rootprefix
      else rootprefix @ mpp_path p)"

section \<open>Joint entries\<close>

record extended_entry =
  xe_path :: mount_point_path
  xe_entry :: fstab_entry
  xe_id :: nat

record joint_entry =
  je_path :: mount_point_path
  je_fstab_entry :: "fstab_entry option"
  je_mount_entry :: "fstab_entry option"
  je_id :: nat

definition is_in_etc_fstab :: "joint_entry \<Rightarrow> bool" where
  "is_in_etc_fstab je \<longleftrightarrow> je_fstab_entry je \<noteq> None"

definition is_active :: "joint_entry \<Rightarrow> bool" where
  "is_active je \<longleftrightarrow> je_mount_entry je \<noteq> None"

definition je_mount_options :: "joint_entry \<Rightarrow> string list result" where
  "je_mount_options je =
     (case je_fstab_entry je of
        Some e \<Rightarrow> Inr (fe_mount_opts e)
      | None \<Rightarrow> (case je_mount_entry je of
          Some e \<Rightarrow> Inr (fe_mount_opts e)
        | None \<Rightarrow> Inl (Exn ''neither fstab nor mount entry set'')))"

definition je_mount_by :: "joint_entry \<Rightarrow> mount_by" where
  "je_mount_by je = (case je_fstab_entry je of Some e \<Rightarrow> get_mount_by (fe_spec e) | None \<Rightarrow> DEVICE)"

definition je_fs_type :: "joint_entry \<Rightarrow> fs_type" where
  "je_fs_type je =
     (case je_fstab_entry je of
        Some e \<Rightarrow> fe_fs_type e
      | None \<Rightarrow> (case je_mount_entry je of Some e \<Rightarrow> fe_fs_type e | None \<Rightarrow> UNKNOWN))"

definition joins :: "extended_entry \<Rightarrow> joint_entry \<Rightarrow> bool" where
  "joins m je \<longleftrightarrow>
     (case je_fstab_entry je of
        None \<Rightarrow> False
      | Some e \<Rightarrow> if fe_fs_type e = SWAP \<and> fe_fs_type (xe_entry m) = SWAP then True
          else je_path je = xe_path m)"

fun join_mount :: "extended_entry \<Rightarrow> joint_entry list \<Rightarrow> joint_entry list" where
  "join_mount m [] =
     [\<lparr>je_path = xe_path m, je_fstab_entry = None, je_mount_entry = Some (xe_entry m), je_id = 0\<rparr>]"
| "join_mount m (je # jes) =
     (if joins m je then je\<lparr>je_mount_entry := Some (xe_entry m)\<rparr> # jes else je # join_mount m jes)"

definition join_entries :: "extended_entry list \<Rightarrow> extended_entry list \<Rightarrow> joint_entry list" where
  "join_entries fstab_entries mount_entries =
     fold join_mount mount_entries
       (map (\<lambda>x. \<lparr>je_path = xe_path x, je_fstab_entry = Some (xe_entry x), je_mount_entry = None, je_id = xe_id x\<rparr>)
         fstab_entries)"

text \<open>\<open>min_element\<close>: the first of the shortest.\<close>

fun shortest :: "joint_entry \<Rightarrow> joint_entry list \<Rightarrow> joint_entry" where
  "shortest best [] = best"
| "shortest best (je # jes) =
     shortest (if length (mpp_path (je_path je)) < length (mpp_path (je_path best)) then je else best) jes"

definition select_entry :: "joint_entry list \<Rightarrow> joint_entry option" where
  "select_entry joint_entries =
     (let filtered = joint_entries;
          filtered =
            (if list_ex is_active filtered
             then let filtered = filter is_active filtered
                  in if list_ex is_in_etc_fstab filtered then filter is_in_etc_fstab filtered else filtered
             else filtered)
      in case filtered of [] \<Rightarrow> None | je # jes \<Rightarrow> Some (shortest je jes))"

section \<open>Mount points\<close>

record fstab_anchor =
  fa_spec :: string
  fa_id :: nat
  fa_mount_point :: string

record mount_point =
  mp_path :: string
  mp_rootprefixed :: bool
  mp_mount_by :: mount_by
  mp_mount_type :: fs_type
  mp_mount_options :: "string list"
  mp_freq :: u32
  mp_passno :: u32
  mp_active :: bool
  mp_in_etc_fstab :: bool
  mp_fstab_anchor :: fstab_anchor

text \<open>A new mount point has the defaults of its file system.\<close>

definition create_mount_point :: "mount_by \<Rightarrow> fs_type \<Rightarrow> string list \<Rightarrow> string \<Rightarrow> mount_point result" where
  "create_mount_point default_by default_type default_options path =
     (if default_type = UNKNOWN then Inl (Exn ''illegal mount type'')
      else Inr \<lparr>mp_path = normalize_path path, mp_rootprefixed = True, mp_mount_by = default_by,
        mp_mount_type = default_type, mp_mount_options = default_options, mp_freq = 0, mp_passno = 0,
        mp_active = True, mp_in_etc_fstab = True,
        mp_fstab_anchor = \<lparr>fa_spec = [], fa_id = 0, fa_mount_point = []\<rparr>\<rparr>)"

definition add_to :: "(string \<Rightarrow> mount_point result) \<Rightarrow> joint_entry \<Rightarrow> mount_point result" where
  "add_to create je =
     ebind (create (mpp_path (je_path je))) (\<lambda>mp.
     ebind (je_mount_options je) (\<lambda>options.
       let mp = mp\<lparr>mp_rootprefixed := mpp_rootprefixed (je_path je)\<rparr>;
           mp = (case je_fstab_entry je of
               None \<Rightarrow> mp
             | Some e \<Rightarrow> mp\<lparr>mp_fstab_anchor :=
                 \<lparr>fa_spec = fe_spec e, fa_id = je_id je, fa_mount_point = fe_mount_point e\<rparr>\<rparr>);
           mp = mp\<lparr>mp_mount_by := je_mount_by je\<rparr>;
           mp = (if je_fs_type je \<noteq> UNKNOWN then mp\<lparr>mp_mount_type := je_fs_type je\<rparr> else mp);
           mp = mp\<lparr>mp_mount_options := options\<rparr>
       in Inr (mp\<lparr>mp_in_etc_fstab := is_in_etc_fstab je, mp_active := is_active je\<rparr>)))"

definition probe_mount_point :: "(string \<Rightarrow> mount_point result) \<Rightarrow> extended_entry list \<Rightarrow> extended_entry list
   \<Rightarrow> mount_point option result" where
  "probe_mount_point create fstab_entries mount_entries =
     (case select_entry (join_entries fstab_entries mount_entries) of
        None \<Rightarrow> Inr None
      | Some je \<Rightarrow> emap Some (add_to create je))"

section \<open>Actions\<close>

datatype mp_action = Mount | Unmount | AddToEtcFstab | UpdateInEtcFstab | RemoveFromEtcFstab | RenameInEtcFstab

definition mp_create_actions :: "mount_point \<Rightarrow> mp_action list" where
  "mp_create_actions mp =
     (if mp_active mp then [Mount] else []) @ (if mp_in_etc_fstab mp then [AddToEtcFstab] else [])"

definition mp_delete_actions :: "mount_point \<Rightarrow> mp_action list" where
  "mp_delete_actions mp =
     (if mp_in_etc_fstab mp then [RemoveFromEtcFstab] else []) @ (if mp_active mp then [Unmount] else [])"

definition mount_by_references_blk_device :: "mount_by \<Rightarrow> bool" where
  "mount_by_references_blk_device b \<longleftrightarrow> b \<in> {DEVICE, ID, PATH, PARTUUID, PARTLABEL}"

definition remount_needed :: "mount_point \<Rightarrow> mount_point \<Rightarrow> bool" where
  "remount_needed lhs rhs \<longleftrightarrow> mp_path lhs \<noteq> mp_path rhs \<or> mp_rootprefixed lhs \<noteq> mp_rootprefixed rhs
     \<or> mp_mount_type lhs \<noteq> mp_mount_type rhs"

definition update_needed :: "mount_point \<Rightarrow> mount_point \<Rightarrow> bool" where
  "update_needed lhs rhs \<longleftrightarrow> mp_mount_by lhs \<noteq> mp_mount_by rhs \<or> mp_mount_options lhs \<noteq> mp_mount_options rhs
     \<or> mp_freq lhs \<noteq> mp_freq rhs \<or> mp_passno lhs \<noteq> mp_passno rhs \<or> mp_path lhs \<noteq> mp_path rhs
     \<or> mp_rootprefixed lhs \<noteq> mp_rootprefixed rhs \<or> mp_mount_type lhs \<noteq> mp_mount_type rhs"

text \<open>
  The name of the block device of the new file system, with the name the same device has on the
  left-hand side, if it exists there; \<open>None\<close> for file systems without block devices.
\<close>

definition mp_modify_actions :: "(string \<times> string option) option \<Rightarrow> mount_point \<Rightarrow> mount_point \<Rightarrow> mp_action list" where
  "mp_modify_actions names lhs rhs =
     (if mp_in_etc_fstab lhs \<and> \<not> mp_in_etc_fstab rhs then [RemoveFromEtcFstab] else [])
     @ (if mp_active lhs \<and> (\<not> mp_active rhs \<or> remount_needed lhs rhs) then [Unmount] else [])
     @ (if mp_in_etc_fstab lhs \<and> mp_in_etc_fstab rhs \<and> update_needed lhs rhs then [UpdateInEtcFstab] else [])
     @ (if mp_active rhs \<and> (\<not> mp_active lhs \<or> remount_needed lhs rhs) then [Mount] else [])
     @ (if \<not> mp_in_etc_fstab lhs \<and> mp_in_etc_fstab rhs then [AddToEtcFstab] else [])
     @ (if mp_in_etc_fstab lhs \<and> mp_in_etc_fstab rhs \<and> mount_by_references_blk_device (mp_mount_by rhs)
        then (case names of
            Some (name, Some old_name) \<Rightarrow> if name \<noteq> old_name then [RenameInEtcFstab] else []
          | _ \<Rightarrow> [])
        else [])"

section \<open>The effect on /etc/fstab\<close>

text \<open>The name of the device in /etc/fstab is the argument \<open>spec\<close>.\<close>

definition fill_entry :: "string \<Rightarrow> mount_point \<Rightarrow> fstab_entry \<Rightarrow> fstab_entry" where
  "fill_entry spec mp e =
     (set_mount_point (mp_path mp) (e\<lparr>fe_spec := spec\<rparr>))
       \<lparr>fe_mount_opts := mp_mount_options mp, fe_fs_type := mp_mount_type mp,
        fe_fsck_pass := mp_passno mp, fe_dump_pass := mp_freq mp\<rparr>"

definition do_add_to_etc_fstab :: "string \<Rightarrow> mount_point \<Rightarrow> fstab_entry list \<Rightarrow> fstab_entry list" where
  "do_add_to_etc_fstab spec mp es = add_sorted (fill_entry spec mp fstab_entry_new) es"

text \<open>The entries of the anchor, of those the file system is interested in.\<close>

definition is_anchored :: "(fstab_entry \<Rightarrow> bool) \<Rightarrow> mount_point \<Rightarrow> fstab_entry \<Rightarrow> bool" where
  "is_anchored predicate mp e \<longleftrightarrow>
     fa_spec (mp_fstab_anchor mp) = fe_spec e \<and> fa_mount_point (mp_fstab_anchor mp) = fe_mount_point e \<and> predicate e"

definition do_update_in_etc_fstab :: "(fstab_entry \<Rightarrow> bool) \<Rightarrow> string \<Rightarrow> mount_point \<Rightarrow> fstab_entry list \<Rightarrow> fstab_entry list" where
  "do_update_in_etc_fstab predicate spec mp es =
     map (\<lambda>e. if is_anchored predicate mp e then fill_entry spec mp e else e) es"

definition do_remove_from_etc_fstab :: "(fstab_entry \<Rightarrow> bool) \<Rightarrow> mount_point \<Rightarrow> fstab_entry list \<Rightarrow> fstab_entry list" where
  "do_remove_from_etc_fstab predicate mp es = filter (\<lambda>e. \<not> is_anchored predicate mp e) es"

definition do_rename_in_etc_fstab :: "(fstab_entry \<Rightarrow> bool) \<Rightarrow> string \<Rightarrow> mount_point \<Rightarrow> fstab_entry list \<Rightarrow> fstab_entry list" where
  "do_rename_in_etc_fstab predicate spec mp es =
     map (\<lambda>e. if is_anchored predicate mp e then e\<lparr>fe_spec := spec\<rparr> else e) es"

section \<open>Paths below the root prefix\<close>

lemma fullpath_new:
  assumes "p \<noteq> r @ ''/''" and "p \<noteq> r @ ''swap''" and "p \<noteq> r @ ''none''"
  shows "fullpath r (mpp_new p r) = p"
  using assms by (auto simp: fullpath_def mpp_new_def Let_def prefix_def)

text \<open>The prefix is one of characters, not of directories.\<close>

lemma prefix_not_directory: "mpp_path (mpp_new ''/mnt2'' ''/mnt'') = ''2''"
  by code_simp

section \<open>The selected entry\<close>

text \<open>Active entries of /etc/fstab, active entries, other entries.\<close>

definition entry_rank :: "joint_entry \<Rightarrow> nat" where
  "entry_rank je = (if is_active je then if is_in_etc_fstab je then 0 else 1 else 2)"

definition path_length :: "joint_entry \<Rightarrow> nat" where
  "path_length je = length (mpp_path (je_path je))"

lemma shortest_spec:
  "shortest best jes \<in> insert best (set jes)
    \<and> (\<forall>je \<in> insert best (set jes). path_length (shortest best jes) \<le> path_length je)"
proof (induction jes arbitrary: best)
  case Nil
  then show ?case by simp
next
  case (Cons je jes)
  let ?b = "if length (mpp_path (je_path je)) < length (mpp_path (je_path best)) then je else best"
  have "path_length ?b \<le> path_length je \<and> path_length ?b \<le> path_length best" by (auto simp: path_length_def)
  moreover have "shortest ?b jes \<in> insert ?b (set jes)"
      "\<forall>x \<in> insert ?b (set jes). path_length (shortest ?b jes) \<le> path_length x" using Cons.IH by blast+
  ultimately show ?case by (auto intro: order_trans)
qed

lemma select_filtered:
  assumes "filtered \<noteq> []" and "set filtered = {je \<in> set jes. entry_rank je = k}"
    and "\<forall>je \<in> set jes. k \<le> entry_rank je"
    and "select_entry jes = (case filtered of [] \<Rightarrow> None | je # jes \<Rightarrow> Some (shortest je jes))"
  shows "\<exists>je \<in> set jes. select_entry jes = Some je
    \<and> (\<forall>j \<in> set jes. entry_rank je < entry_rank j \<or> entry_rank je = entry_rank j \<and> path_length je \<le> path_length j)"
proof -
  obtain x xs where f: "filtered = x # xs" using assms(1) by (cases filtered) auto
  have s: "shortest x xs \<in> set filtered" "\<forall>je \<in> set filtered. path_length (shortest x xs) \<le> path_length je"
    using shortest_spec [of x xs] by (simp_all add: f)
  then have in': "shortest x xs \<in> set jes" "entry_rank (shortest x xs) = k" using assms(2) by auto
  have "k < entry_rank j \<or> k = entry_rank j \<and> path_length (shortest x xs) \<le> path_length j" if "j \<in> set jes" for j
    using that s(2) assms(2,3) by (cases "entry_rank j = k") (auto simp: le_less)
  then show ?thesis using in' assms(4) f by (intro bexI [of _ "shortest x xs"] conjI ballI) simp_all
qed

lemma select_entry_best:
  assumes "jes \<noteq> []"
  shows "\<exists>je \<in> set jes. select_entry jes = Some je
    \<and> (\<forall>j \<in> set jes. entry_rank je < entry_rank j \<or> entry_rank je = entry_rank j \<and> path_length je \<le> path_length j)"
proof -
  define act where "act = filter is_active jes"
  have ex: "list_ex is_active jes \<longleftrightarrow> act \<noteq> []" by (auto simp: act_def list_ex_iff filter_empty_conv)
  have sel: "select_entry jes = (case (if act \<noteq> []
      then if list_ex is_in_etc_fstab act then filter is_in_etc_fstab act else act else jes)
      of [] \<Rightarrow> None | je # jes \<Rightarrow> Some (shortest je jes))"
    unfolding select_entry_def Let_def ex act_def [symmetric] ..
  consider "act = []" | "act \<noteq> []" "list_ex is_in_etc_fstab act" | "act \<noteq> []" "\<not> list_ex is_in_etc_fstab act"
    by blast
  then show ?thesis
  proof cases
    case 1
    then have r: "\<forall>je \<in> set jes. entry_rank je = 2" by (auto simp: act_def filter_empty_conv entry_rank_def)
    show ?thesis by (rule select_filtered [of jes jes 2]) (use assms r sel 1 in auto)
  next
    case 2
    show ?thesis
    proof (rule select_filtered [of "filter is_in_etc_fstab act" jes 0])
      show "set (filter is_in_etc_fstab act) = {je \<in> set jes. entry_rank je = 0}"
        by (auto simp: act_def entry_rank_def)
      show "filter is_in_etc_fstab act \<noteq> []" using 2(2) by (auto simp: list_ex_iff filter_empty_conv)
    qed (use sel 2 in simp_all)
  next
    case 3
    have no: "\<forall>je \<in> set act. \<not> is_in_etc_fstab je" using 3(2) by (simp add: list_ex_iff)
    show ?thesis
    proof (rule select_filtered [OF 3(1)])
      show "set act = {je \<in> set jes. entry_rank je = 1}" "\<forall>je \<in> set jes. 1 \<le> entry_rank je"
        using no by (auto simp: act_def entry_rank_def)
    qed (use sel 3 in simp)
  qed
qed

lemma join_mount_facts:
  "join_mount m jes \<noteq> [] \<and> list_ex is_active (join_mount m jes)
    \<and> (list_ex is_in_etc_fstab (join_mount m jes) \<longleftrightarrow> list_ex is_in_etc_fstab jes)"
  by (induction jes) (auto simp: is_active_def is_in_etc_fstab_def)

lemma join_entries_facts:
  "(join_entries fs ms = [] \<longleftrightarrow> fs = [] \<and> ms = []) \<and> (list_ex is_active (join_entries fs ms) \<longleftrightarrow> ms \<noteq> [])
    \<and> (list_ex is_in_etc_fstab (join_entries fs ms) \<longleftrightarrow> fs \<noteq> [])"
proof (induction ms rule: rev_induct)
  case Nil
  then show ?case by (cases fs) (auto simp: join_entries_def is_active_def is_in_etc_fstab_def list_ex_iff)
next
  case (snoc m ms)
  have "join_entries fs (ms @ [m]) = join_mount m (join_entries fs ms)" by (simp add: join_entries_def)
  then show ?case using snoc join_mount_facts [of m "join_entries fs ms"] by simp
qed

text \<open>
  C29: Of the entries of a file system in /etc/fstab and /proc/mounts the one is selected that comes
  first in the order: active and in /etc/fstab, active, the others, and among these one of the
  shortest path. It is active exactly if the file system is mounted; none is selected only if
  there are none.
\<close>

theorem probed_mount_point_best:
  "case select_entry (join_entries fs ms) of
     None \<Rightarrow> fs = [] \<and> ms = []
   | Some je \<Rightarrow> je \<in> set (join_entries fs ms) \<and> (is_active je \<longleftrightarrow> ms \<noteq> [])
       \<and> {j \<in> set (join_entries fs ms). entry_rank j < entry_rank je
           \<or> entry_rank j = entry_rank je \<and> path_length j < path_length je} = {}"
proof (cases "join_entries fs ms = []")
  case True
  then show ?thesis using join_entries_facts [of fs ms] by (simp add: select_entry_def)
next
  case False
  obtain je where je: "je \<in> set (join_entries fs ms)" "select_entry (join_entries fs ms) = Some je"
    "\<forall>j \<in> set (join_entries fs ms). entry_rank je < entry_rank j
       \<or> entry_rank je = entry_rank j \<and> path_length je \<le> path_length j"
    using select_entry_best [OF False] by blast
  have "is_active je \<longleftrightarrow> list_ex is_active (join_entries fs ms)"
  proof
    assume "list_ex is_active (join_entries fs ms)"
    then obtain j where "j \<in> set (join_entries fs ms)" "is_active j" by (auto simp: list_ex_iff)
    then have "entry_rank j \<le> 1" and "entry_rank je < entry_rank j \<or> entry_rank je = entry_rank j"
      using je(3) by (simp add: entry_rank_def, blast)
    then have "entry_rank je \<le> 1" by linarith
    then show "is_active je" by (auto simp: entry_rank_def split: if_splits)
  qed (use je(1) in \<open>auto simp: list_ex_iff\<close>)
  then show ?thesis using je join_entries_facts [of fs ms] by (auto simp: not_less)
qed

section \<open>The actions\<close>

text \<open>
  The state of the system for one mount point: where it is mounted, and its entry in /etc/fstab,
  with the name of the block device if the entry has it.
\<close>

type_synonym mounted = "string \<times> bool \<times> fs_type"
type_synonym fstab_line = "mount_by \<times> string \<times> string list \<times> u32 \<times> u32 \<times> mounted"

definition mounted_of :: "mount_point \<Rightarrow> mounted" where
  "mounted_of mp = (mp_path mp, mp_rootprefixed mp, mp_mount_type mp)"

definition line_of :: "string \<Rightarrow> mount_point \<Rightarrow> fstab_line" where
  "line_of name mp =
     (mp_mount_by mp, if mount_by_references_blk_device (mp_mount_by mp) then name else [],
      mp_mount_options mp, mp_freq mp, mp_passno mp, mounted_of mp)"

definition system_of :: "string \<Rightarrow> mount_point \<Rightarrow> mounted option \<times> fstab_line option" where
  "system_of name mp =
     (if mp_active mp then Some (mounted_of mp) else None,
      if mp_in_etc_fstab mp then Some (line_of name mp) else None)"

text \<open>An action in a state where it makes no sense fails.\<close>

fun run_action :: "string \<Rightarrow> mount_point \<Rightarrow> mp_action \<Rightarrow> mounted option \<times> fstab_line option
   \<Rightarrow> (mounted option \<times> fstab_line option) option" where
  "run_action name mp Mount (m, f) = (if m = None then Some (Some (mounted_of mp), f) else None)"
| "run_action name mp Unmount (m, f) = (if m \<noteq> None then Some (None, f) else None)"
| "run_action name mp AddToEtcFstab (m, f) = (if f = None then Some (m, Some (line_of name mp)) else None)"
| "run_action name mp UpdateInEtcFstab (m, f) = (if f \<noteq> None then Some (m, Some (line_of name mp)) else None)"
| "run_action name mp RemoveFromEtcFstab (m, f) = (if f \<noteq> None then Some (m, None) else None)"
| "run_action name mp RenameInEtcFstab (m, f) = (case f of Some (b, _, r) \<Rightarrow> Some (m, Some (b, name, r)) | None \<Rightarrow> None)"

fun run_actions :: "string \<Rightarrow> mount_point \<Rightarrow> mp_action list \<Rightarrow> mounted option \<times> fstab_line option
   \<Rightarrow> (mounted option \<times> fstab_line option) option" where
  "run_actions name mp [] s = Some s"
| "run_actions name mp (a # as) s = Option.bind (run_action name mp a s) (run_actions name mp as)"

text \<open>
  C17: The actions for a changed mount point are carried out in an order in which each of them
  makes sense (nothing is mounted twice, no missing entry is removed or updated), and they take the
  system from the old mount point to the new one, also if the name of its device changed.
\<close>

theorem modified_mount_point_reached:
  "run_actions name rhs (mp_modify_actions (Some (name, Some old_name)) lhs rhs) (system_of old_name lhs)
    = Some (system_of name rhs)"
proof -
  let ?s = "mp_in_etc_fstab lhs" and ?t = "mp_in_etc_fstab rhs" and ?a = "mp_active lhs" and ?b = "mp_active rhs"
  have m: "\<not> remount_needed lhs rhs \<Longrightarrow> mounted_of lhs = mounted_of rhs"
    by (simp add: remount_needed_def mounted_of_def)
  have u: "\<not> update_needed lhs rhs \<Longrightarrow> mp_mount_by lhs = mp_mount_by rhs \<and> mp_mount_options lhs = mp_mount_options rhs
      \<and> mp_freq lhs = mp_freq rhs \<and> mp_passno lhs = mp_passno rhs \<and> mounted_of lhs = mounted_of rhs"
    by (simp add: update_needed_def mounted_of_def)
  show ?thesis
    using m u
    by (cases ?s; cases ?t; cases ?a; cases ?b; cases "remount_needed lhs rhs"; cases "update_needed lhs rhs";
        cases "name = old_name"; cases "mount_by_references_blk_device (mp_mount_by rhs)")
      (simp_all add: mp_modify_actions_def system_of_def line_of_def)
qed

lemma created_mount_point_reached:
  "run_actions name mp (mp_create_actions mp) (None, None) = Some (system_of name mp)"
  by (simp add: mp_create_actions_def system_of_def)

lemma deleted_mount_point_reached:
  "run_actions name mp (mp_delete_actions mp) (system_of name mp) = Some (None, None)"
  by (simp add: mp_delete_actions_def system_of_def)

text \<open>
  The last two fields of an entry in /etc/fstab are lost when the mount point is probed: they
  are never read, and an update of the entry, for instance for a changed option, sets both to
  zero.
\<close>

theorem update_clears_passno:
  "case probe_mount_point (create_mount_point default_by default_type default_options) [x] [] of
     Inl e \<Rightarrow> default_type = UNKNOWN
   | Inr None \<Rightarrow> False
   | Inr (Some mp) \<Rightarrow>
       map (\<lambda>e. (fe_dump_pass e, fe_fsck_pass e))
         (do_update_in_etc_fstab (\<lambda>e. True) spec (mp\<lparr>mp_mount_options := options\<rparr>) [xe_entry x]) = [(0, 0)]"
  by (cases "default_type = UNKNOWN")
    (simp_all add: probe_mount_point_def join_entries_def select_entry_def is_active_def add_to_def
      create_mount_point_def je_mount_options_def is_in_etc_fstab_def je_fs_type_def je_mount_by_def Let_def
      do_update_in_etc_fstab_def is_anchored_def fill_entry_def set_mount_point_def)

text \<open>An update of the path leaves the entry where it is, which can break the order.\<close>

lemma update_breaks_order:
  "let e = (\<lambda>s p. fstab_entry_new\<lparr>fe_spec := s, fe_mount_point := p\<rparr>);
       mp = \<lparr>mp_path = ''/home/data'', mp_rootprefixed = True, mp_mount_by = DEVICE, mp_mount_type = EXT4,
             mp_mount_options = [], mp_freq = 0, mp_passno = 0, mp_active = True, mp_in_etc_fstab = True,
             mp_fstab_anchor = \<lparr>fa_spec = ''/dev/sda1'', fa_id = 0, fa_mount_point = ''/data''\<rparr>\<rparr>;
       es = [e ''/dev/sda1'' ''/data'', e ''/dev/sda2'' ''/home'']
   in check_mount_order es \<and> \<not> check_mount_order (do_update_in_etc_fstab (\<lambda>e. True) ''/dev/sda1'' mp es)"
  by code_simp

end
