(* ===== verification/Spec2Isabelle.thy ===== *)
theory Spec2Isabelle
  imports PartitionFlags Layers Luks ResizeActions CompoundActions BcacheGraph Pool DependencyManager Commit LvmExtents LvmGroup HumanString Diff MdSize MdNames Crypttab MountPoints
begin

text \<open>
  A verification library for libstorage-ng, the library the installer and the partitioner of SUSE
  use to change storage devices. All sources are below src/storage/.

  \<^bold>\<open>The program.\<close> The state is a graph of devices, the devicegraph; an edge (a holder) says that
  a device is made of, or is used by, another one. A client copies the probed graph, changes the
  copy through the operations of the devices (create a partition, delete everything on a disk,
  resize a logical volume) and commits. For the commit an actiongraph is built from the
  difference of two devicegraphs: its vertices are the actions, its edges say which action has to
  come before which, and a topological order of it is carried out.

  \<^bold>\<open>Conventions.\<close> Integers are words of the width they have in the code, a thrown exception is
  the left injection of the error monad in \<open>Prelude\<close>. Undefined behaviour of C++ (a division by
  zero, a shift by the width of the type, an uninitialised variable) and loops that never end are
  errors of the same monad, so that a theorem that an operation succeeds excludes them. Records
  have the fields of the \<open>Impl\<close> classes; functions have the names of the methods, with a prefix
  where two classes share one. Code that is not in the repository (external programs, sysfs) is
  a parameter of the definitions.

  \<^bold>\<open>The theories.\<close>

  \<^item> \<open>Prelude\<close>: error monad, loops that may throw, words, rounding to multiples, lists.
  \<^item> \<open>Region\<close> (Utils/RegionImpl.cc): runs of blocks. The operations are those on sets of
    blocks, and \<open>unused_regions\<close> finds the free blocks. A locale states what the clients rely on.
  \<^item> \<open>Alignment\<close> (Utils/AlignmentImpl.cc, TopologyImpl.cc): the grain and the alignment of a
    region under every policy; the grain loop terminates.
  \<^item> \<open>Algorithm\<close> (Utils/Algorithm.h): the first free number in a sorted list, of partitions or RAIDs.
  \<^item> \<open>PartitionTable\<close>, \<open>Partitions\<close>, \<open>PartitionSteps\<close>, \<open>PartitionNumbers\<close>, \<open>PartitionFlags\<close>
    (Devices/PartitionTableImpl.cc, GptImpl.cc, MsdosImpl.cc, DasdPtImpl.cc, ImplicitPtImpl.cc,
    PartitionImpl.cc): the slots for new partitions, creating and deleting partitions and their
    numbers; in \<open>Partitions\<close> the space around a partition, the limits of its resize, its id and
    flags, and the commands that create it with its number. The external program, parted, is a
    parameter that changes a table of numbers and sectors. A step relation has the operations of a
    table; that partitions never overlap, that numbers are distinct and that one partition has
    the boot flag are invariants of the reachable tables.
  \<^item> \<open>GraphSearch\<close>, \<open>Devicegraph\<close> (DevicegraphImpl.cc, Holders/HolderImpl.cc): the breadth and
    depth first searches of the boost graph library as the code uses them, and the graph of
    devices: adding, removing, copying, comparing and checking it. The check of a single device,
    which depends on its class, is a parameter of the check.
  \<^item> \<open>Layers\<close> (Devices/BlkDeviceImpl.cc): an encryption or a bcache comes between a block device
    and what is on it, and an encryption can be taken away again.
  \<^item> \<open>TopoSort\<close>, \<open>Actiongraph\<close>, \<open>ActionOrder\<close> (ActiongraphImpl.cc, Actions/, Devices/DeviceImpl.cc):
    the two topological sorts, and the actiongraph: its dependencies, mounts and unmounts,
    merging of duplicates, synchronisation points, priorities and the order. What the other
    kinds of devices add to the dependencies is a parameter under a locale that says it only
    adds edges; the locale is interpreted on the dependencies that are modelled.
  \<^item> \<open>DependencyManager\<close> (Devices/PartitionTableImpl.cc): the order of all actions on one
    partition table.
  \<^item> \<open>Commit\<close> (ActiongraphImpl.cc, Utils/CallbacksImpl.cc): the actions are carried out with the
    callbacks of the client deciding about errors.
  \<^item> \<open>Pool\<close> (PoolImpl.cc, StorageImpl.cc): the pools of devices from which partitions are taken for
    e.g. a RAID. Partitions are created on different, least used devices, each by a step of its
    partition table, and the size that is offered is that of the device with the wanted rank and is
    found on so many devices.
  \<^item> \<open>MathUtil\<close> (Utils/Math.h, Math.cc): rounding and powers of two.
  \<^item> \<open>ResizeInfo\<close> (FreeInfo.cc): limits of a resize as the set of sizes they allow.
  \<^item> \<open>BlkFilesystems\<close> (Filesystems/BlkFilesystemImpl.cc, BtrfsImpl.cc, ExtImpl.cc, NtfsImpl.cc,
    SwapImpl.cc and the headers of all kinds of filesystems): what each kind supports, the limits
    of a resize that are detected on the disk and in the devicegraph, and the actions that create
    and modify a filesystem. What the external programs say of a filesystem is a parameter.
  \<^item> \<open>Luks\<close> (Devices/LuksImpl.cc, PlainEncryptionImpl.cc, BitlockerV2Impl.cc, LvmPvImpl.cc): the
    metadata of an encryption, its size and the limits of its resize, and the limits of a partition
    with a filesystem as the composition of both components.
  \<^item> \<open>ResizeActions\<close> (Devices/BlkDeviceImpl.cc, Filesystems/MountableImpl.cc): the devices that are
    resized with a block device, and the chain of the actions.
  \<^item> \<open>CompoundActions\<close> (CompoundAction/Generator.cc, CompoundActionImpl.cc): the actions grouped for
    the user by the device they are about; the search for that device ends and nothing is lost.
  \<^item> \<open>Bcache\<close>, \<open>BcacheGraph\<close> (Devices/BcacheImpl.cc, BcacheCsetImpl.cc, Utils/AppUtil.cc): bcaches.
    \<open>Bcache\<close> has their names and numbers and the reassignment of the numbers, which ends and leaves
    the bcaches that were created numbered without a hole, \<open>BcacheGraph\<close> the caching sets in the
    graph, the size of a bcache and its actions.
  \<^item> \<open>ClassDependencies\<close> (Devices/LvmVgImpl.cc, BcacheImpl.cc, BtrfsQgroupImpl.cc,
    Holders/BtrfsQgroupRelationImpl.cc, Actions/): what volume groups, bcaches, quota groups and the
    actions themselves add to the dependencies, and the dependency managers of volume groups and
    bcaches. They are instances of the locale of \<open>Actiongraph\<close> but for a special case of DASDs. The
    order keeps a volume group from being overcommitted on the way.
  \<^item> \<open>Names\<close> (is_valid_vg_name, is_valid_lv_name, Utils/Dm.cc): names of volumes and of device
    mapper tables.
  \<^item> \<open>Lvm\<close>, \<open>LvmExtents\<close>, \<open>LvmGroup\<close> (Devices/LvmVgImpl.cc, LvmLvImpl.cc, LvmPvImpl.cc): volume
    groups. \<open>Lvm\<close> has the operations, \<open>LvmExtents\<close> the accounting of extents for new and resized
    volumes, \<open>LvmGroup\<close> the invariant of the operations on a group, its volumes, thin volumes and
    snapshots (creation, changes and removal), and the change of the extent size.
  \<^item> \<open>Md\<close>, \<open>MdSize\<close>, \<open>MdNames\<close> (Devices/MdImpl.cc, Holders/MdUserImpl.cc): software RAID. \<open>Md\<close>
    has the operations, \<open>MdSize\<close> compares the calculated size with the capacity of the level and,
    of a RAID10, of its parity,
    \<open>MdNames\<close> has the names and the search for a free number.
  \<^item> \<open>ConfigText\<close>, \<open>ConfigFile\<close>, \<open>ConfigRound\<close> (Utils/CommentedConfigFile.cc, ColumnConfigFile.cc):
    files of entries with comments. A locale has what a kind of entry promises (its columns parse
    back to it), and in it the whole file is shown to survive formatting and parsing; it is
    interpreted on plain entries, on those of fstab and on those of crypttab.
  \<^item> \<open>Escapes\<close>, \<open>Fstab\<close>, \<open>FstabRound\<close>, \<open>FstabOrder\<close> (EtcFstab.cc): the escapes of blanks, the entries
    of /etc/fstab and their options, and the order of the entries: a mount point comes behind the
    directories it is in.
  \<^item> \<open>Crypttab\<close> (EtcCrypttab.cc, EtcMdadm.cc): the entries of /etc/crypttab and the lines of
    mdadm.conf.
  \<^item> \<open>MountPoints\<close> (Filesystems/MountPointImpl.cc, MountableImpl.cc): which entry of fstab and which
    mount a mount point is probed from, and the actions that change a mount point.
  \<^item> \<open>Diff\<close> (Utils/Diff.cc): the difference of two texts as hunks, with which the old text
    becomes the new one. Line numbers are integers; the overflow of a number near the greatest
    \<open>int\<close>, with a context of that size, is not modelled.
  \<^item> \<open>Decimal\<close>, \<open>HumanString\<close> (Utils/HumanString.cc): sizes as text. The classic locale is written out;
    fractions depend on the \<open>long double\<close> of the platform, which is a parameter.

  \<^bold>\<open>Loops and bounds.\<close> Loops over containers are structural recursions or folds of the error
  monad. The grain loop of the alignment may run forever for a topology without limits; it is a
  \<open>partial_function (option)\<close> and a theorem says when it ends. The graph searches recurse on the
  vertices that are not visited yet, the topological sorts on those that are not done. The search for
  the devices on top of a device has the number of devices as fuel, that for the target of an action
  three calls and that for the volume group of a thin volume two; all are shown to be enough. Conditions that a number fits into 64 bits are hypotheses of the theorems that need them.

  \<^bold>\<open>What modelling showed.\<close> The list of unused regions can lose the last block, and the
  alignment offset of a topology can be negative; merging duplicate mounts removes a vertex twice
  when three mounts have one mount point; the greatest size that is offered for a thin pool can
  overcommit its volume group; the saturation of a shifted resize limit is undone by rounding;
  the next power of two is undefined in the upper half of the type; and a unit without a number
  makes the parser of sizes read an uninitialised variable. In the configuration files an option
  with a blank and an entry behind blanks do not come back as they were, directories are compared
  as strings, an update of an entry can break the order of the file and clears its last column.
  Two RAIDs with the same number make the search for a free number return one that is used. A
  logical partition can be grown over the boot record of the next one. The limits of LUKS do not
  know of the optimal io size that its size is calculated with, and growing a thin pool plans
  resizes of all its thin volumes. A compound action that only unmounts a partition counts as its
  deletion. A pool offers the last slot of a partition table, not the biggest. Removing the
  descendants of a device leaves a hole in the numbers of the bcaches, which the deletion of a single
  bcache closes. Of the slots for partitions, those that are aligned with their size kept can leave
  the disk, and on a device with five minors a logical partition is offered that it cannot have.
  The size of a RAID10 ignores the parity and is too great with three copies. Thin volumes keep the
  old extent size when that of their group changes. An entry of fstab whose device starts with an
  encoded number sign is written as a comment. A partition that is no longer than the number of
  temporary partitions it needs cannot be created, as a comment says. Each of these has a lemma.

  \<^bold>\<open>Not modelled.\<close> Probing, the external programs, files, locks and logging are input and output.
  The texts for the user, XML and graphviz have no state. Of bcache, encryption and the filesystems
  the commands, the probing and the attributes that are only stored and written are left out, of
  btrfs also the subvolumes and, but for their dependencies, the quota groups. The removal of a
  volume of the LVM is modelled for the volumes of its group; what else is on a removed volume goes
  with the descendants in the devicegraph. The sizes on disk that a filesystem reports, the lists of
  mounts, parted and the checks of single devices are parameters.
\<close>

end
